(* ===== verification/Rho_Prelude.thy ===== *)
theory Rho_Prelude
  imports Main "HOL-Library.Char_ord" "HOL-Library.List_Lexorder" "HOL-Library.Sublist"
begin

text \<open>
  What every component shares: the Go types the program uses and the standard library
  functions it calls on them, with the lemmas the component proofs rest on.
  \<^item> a Go \<open>string\<close> is a sequence of bytes, here a \<^typ>\<open>string\<close> (a list of 8-bit characters), so
    \<open>len(s)\<close> is \<^term>\<open>length s\<close> and \<open><\<close> on strings is Go's bytewise order
    (\<open>List_Lexorder\<close> over \<open>Char_ord\<close>);
  \<^item> a Go \<open>int\<close> is 64 bits wide; where a sum may pass the width the model uses \<open>add64\<close>;
  \<^item> \<open>strconv.Itoa\<close>, \<open>strconv.ParseInt\<close>, \<open>strings.Join\<close>, \<open>strings.TrimSpace\<close>,
    \<open>strings.HasPrefix\<close>, \<open>strings.ReplaceAll\<close> on a newline;
  \<^item> a function that may panic returns an option, \<^term>\<open>None\<close> being the panic.
\<close>

named_theorems go_simps \<open>unfolding rules of the standard library functions\<close>
named_theorems decode_simps \<open>rules that evaluate a decoder on an encoded value\<close>

type_synonym err = string

section \<open>Integers of 64 bits\<close>

definition int64_min :: int where "int64_min = - (2 ^ 63)"
definition int64_max :: int where "int64_max = 2 ^ 63 - 1"

definition int64_ok :: "int \<Rightarrow> bool" where
  "int64_ok i \<longleftrightarrow> int64_min \<le> i \<and> i \<le> int64_max"

definition wrap64 :: "int \<Rightarrow> int" where
  "wrap64 i = (i + 2 ^ 63) mod 2 ^ 64 - 2 ^ 63"

definition add64 :: "int \<Rightarrow> int \<Rightarrow> int" where
  "add64 a b = wrap64 (a + b)"

lemma wrap64_ok: "int64_ok (wrap64 i)"
proof -
  have "0 \<le> (i + 2 ^ 63) mod 2 ^ 64 \<and> (i + 2 ^ 63) mod 2 ^ 64 < 2 ^ 64" by simp
  then show ?thesis
    by (simp add: int64_ok_def wrap64_def int64_min_def int64_max_def)
qed

lemma wrap64_id: "int64_ok i \<Longrightarrow> wrap64 i = i"
  by (simp add: int64_ok_def wrap64_def int64_min_def int64_max_def)

lemma add64_wrap_left: "add64 (wrap64 a) b = wrap64 (a + b)"
proof -
  have "(wrap64 a + b + 2 ^ 63) mod 2 ^ 64 = (a + b + 2 ^ 63) mod 2 ^ 64"
    by (simp add: wrap64_def algebra_simps mod_simps)
  then show ?thesis by (simp add: add64_def wrap64_def)
qed

section \<open>Strings\<close>

abbreviation newline :: char where "newline \<equiv> CHR 0x0A"

text \<open>\<open>strconv.Itoa\<close> (also what \<open>%d\<close> prints).\<close>

definition digit_char :: "nat \<Rightarrow> char" where
  "digit_char d = char_of (48 + d)"

definition digit_val :: "char \<Rightarrow> nat option" where
  "digit_val c = (let n = of_char c in if 48 \<le> n \<and> n \<le> (57::nat) then Some (n - 48) else None)"

fun nat_str :: "nat \<Rightarrow> string" where
  "nat_str n = (if n < 10 then [digit_char n] else nat_str (n div 10) @ [digit_char (n mod 10)])"

declare nat_str.simps [simp del]

definition itoa :: "int \<Rightarrow> string" where
  "itoa i = (if i < 0 then CHR ''-'' # nat_str (nat (- i)) else nat_str (nat i))"

text \<open>\<open>strconv.ParseInt(s, 10, 64)\<close>, which is \<open>strconv.Atoi\<close> on a 64-bit machine: an optional
  sign, at least one digit, nothing else, and a value of 64 bits.\<close>

fun digits_val :: "nat \<Rightarrow> string \<Rightarrow> nat option" where
  "digits_val acc [] = Some acc"
| "digits_val acc (c # cs) =
     (case digit_val c of None \<Rightarrow> None | Some d \<Rightarrow> digits_val (10 * acc + d) cs)"

definition parse_nat :: "string \<Rightarrow> nat option" where
  "parse_nat s = (if s = [] then None else digits_val 0 s)"

definition parse_int :: "string \<Rightarrow> int option" where
  "parse_int s =
     (let r = (case s of
                 [] \<Rightarrow> None
               | c # cs \<Rightarrow>
                   if c = CHR ''-'' then map_option (\<lambda>n. - int n) (parse_nat cs)
                   else if c = CHR ''+'' then map_option int (parse_nat cs)
                   else map_option int (parse_nat s))
      in case r of None \<Rightarrow> None | Some i \<Rightarrow> if int64_ok i then Some i else None)"

lemma digit_val_char: "d < 10 \<Longrightarrow> digit_val (digit_char d) = Some d"
  by (simp add: digit_val_def digit_char_def)

lemma digits_val_append:
  "digits_val acc (xs @ ys) =
     (case digits_val acc xs of None \<Rightarrow> None | Some n \<Rightarrow> digits_val n ys)"
  by (induction acc xs rule: digits_val.induct) (auto split: option.splits)

lemma nat_str_nonempty [simp]: "nat_str n \<noteq> []"
  by (subst nat_str.simps) simp

lemma digits_val_nat_str: "digits_val 0 (nat_str n) = Some n"
proof (induction n rule: nat_str.induct)
  case (1 n)
  show ?case
  proof (cases "n < 10")
    case True
    then show ?thesis by (subst nat_str.simps) (simp add: digit_val_char)
  next
    case False
    with "1.IH" have "digits_val 0 (nat_str (n div 10)) = Some (n div 10)" by simp
    moreover have "n mod 10 < 10" by simp
    ultimately show ?thesis using False
      by (subst nat_str.simps) (simp add: digits_val_append digit_val_char)
  qed
qed

lemma nat_str_digits: "c \<in> set (nat_str n) \<Longrightarrow> \<exists>d < 10. c = digit_char d"
proof (induction n rule: nat_str.induct)
  case (1 n)
  show ?case
  proof (cases "n < 10")
    case True
    with "1.prems" have "c = digit_char n" by (subst (asm) nat_str.simps) simp
    with True show ?thesis by blast
  next
    case False
    with "1.prems" have "c \<in> set (nat_str (n div 10)) \<or> c = digit_char (n mod 10)"
      by (subst (asm) nat_str.simps) auto
    then show ?thesis
    proof
      assume "c \<in> set (nat_str (n div 10))"
      with "1.IH" False show ?thesis by blast
    next
      assume "c = digit_char (n mod 10)"
      moreover have "n mod 10 < 10" by simp
      ultimately show ?thesis by blast
    qed
  qed
qed

lemma digit_char_not_sign: "d < 10 \<Longrightarrow> digit_char d \<noteq> CHR ''-'' \<and> digit_char d \<noteq> CHR ''+''"
proof -
  assume "d < 10"
  then have "of_char (digit_char d) = (48 + d :: nat)" by (simp add: digit_char_def)
  with \<open>d < 10\<close> show ?thesis by auto
qed

lemma parse_nat_str: "parse_nat (nat_str n) = Some n"
  by (simp add: parse_nat_def digits_val_nat_str)

lemma parse_int_itoa:
  assumes ok: "int64_ok i"
  shows "parse_int (itoa i) = Some i"
proof (cases "i < 0")
  case True
  with ok show ?thesis unfolding itoa_def parse_int_def by (simp add: parse_nat_str)
next
  case False
  obtain c cs where s: "nat_str (nat i) = c # cs" by (cases "nat_str (nat i)") auto
  then have "c \<in> set (nat_str (nat i))" by simp
  then obtain d where "d < 10" "c = digit_char d" by (blast dest: nat_str_digits)
  then have ns: "c \<noteq> CHR ''-''" "c \<noteq> CHR ''+''" by (simp_all add: digit_char_not_sign)
  have "parse_nat (c # cs) = Some (nat i)" using parse_nat_str [of "nat i"] s by simp
  with False ok s ns show ?thesis unfolding itoa_def parse_int_def by simp
qed

lemma nat_str_inj: "nat_str m = nat_str n \<Longrightarrow> m = n"
  by (metis parse_nat_str option.inject)

text \<open>\<open>strings.Join\<close>, \<open>strings.HasPrefix\<close>, \<open>strings.HasSuffix\<close>.\<close>

fun join :: "string \<Rightarrow> string list \<Rightarrow> string" where
  "join sep [] = []"
| "join sep [x] = x"
| "join sep (x # y # ys) = x @ sep @ join sep (y # ys)"

definition has_prefix :: "string \<Rightarrow> string \<Rightarrow> bool" where
  "has_prefix s p \<longleftrightarrow> take (length p) s = p"

lemma has_prefix_append: "has_prefix s p \<longleftrightarrow> (\<exists>t. s = p @ t)"
  by (metis append_eq_conv_conj append_take_drop_id has_prefix_def)

lemma join_nonempty: "xs \<noteq> [] \<Longrightarrow> hd xs \<noteq> [] \<Longrightarrow> join sep xs \<noteq> []"
  by (cases "(sep, xs)" rule: join.cases) auto

lemma length_join: "length (join sep xs) = sum_list (map length xs) + length sep * (length xs - 1)"
  by (induction sep xs rule: join.induct) auto

lemma join_Cons: "xs \<noteq> [] \<Longrightarrow> join sep (x # xs) = x @ sep @ join sep xs"
  by (cases xs) auto

text \<open>
  \<open>strings.TrimSpace\<close> removes the code points \<open>unicode.IsSpace\<close> accepts, given here by their
  UTF-8 bytes. On valid UTF-8 such a byte sequence at either end is that code point.
\<close>

definition space_seqs :: "string list" where
  "space_seqs =
    [[CHR 0x20], [CHR 0x09], [CHR 0x0A], [CHR 0x0B], [CHR 0x0C], [CHR 0x0D],
     [CHR 0xC2, CHR 0x85], [CHR 0xC2, CHR 0xA0], [CHR 0xE1, CHR 0x9A, CHR 0x80],
     [CHR 0xE2, CHR 0x80, CHR 0x80], [CHR 0xE2, CHR 0x80, CHR 0x81], [CHR 0xE2, CHR 0x80, CHR 0x82],
     [CHR 0xE2, CHR 0x80, CHR 0x83], [CHR 0xE2, CHR 0x80, CHR 0x84], [CHR 0xE2, CHR 0x80, CHR 0x85],
     [CHR 0xE2, CHR 0x80, CHR 0x86], [CHR 0xE2, CHR 0x80, CHR 0x87], [CHR 0xE2, CHR 0x80, CHR 0x88],
     [CHR 0xE2, CHR 0x80, CHR 0x89], [CHR 0xE2, CHR 0x80, CHR 0x8A], [CHR 0xE2, CHR 0x80, CHR 0xA8],
     [CHR 0xE2, CHR 0x80, CHR 0xA9], [CHR 0xE2, CHR 0x80, CHR 0xAF], [CHR 0xE2, CHR 0x81, CHR 0x9F],
     [CHR 0xE3, CHR 0x80, CHR 0x80]]"

fun strip_seqs :: "string list \<Rightarrow> nat \<Rightarrow> string \<Rightarrow> string" where
  "strip_seqs ws 0 s = s"
| "strip_seqs ws (Suc k) s =
     (case List.find (\<lambda>w. has_prefix s w) ws of
        None \<Rightarrow> s
      | Some w \<Rightarrow> strip_seqs ws k (drop (length w) s))"

text \<open>Each round removes at least one byte, so as many rounds as bytes are enough.\<close>

definition trim_left :: "string \<Rightarrow> string" where
  "trim_left s = strip_seqs space_seqs (length s) s"

definition trim_right :: "string \<Rightarrow> string" where
  "trim_right s = rev (strip_seqs (map rev space_seqs) (length s) (rev s))"

definition trim_space :: "string \<Rightarrow> string" where
  "trim_space s = trim_right (trim_left s)"

lemma strip_seqs_done:
  assumes "\<forall>w \<in> set ws. w \<noteq> []" "length s \<le> k"
  shows "List.find (\<lambda>w. has_prefix (strip_seqs ws k s) w) ws = None"
  using assms(2)
proof (induction k arbitrary: s)
  case 0
  with assms(1) show ?case by (auto simp: find_None_iff has_prefix_def)
next
  case (Suc k)
  show ?case
  proof (cases "List.find (\<lambda>w. has_prefix s w) ws")
    case None
    then show ?thesis by simp
  next
    case (Some w)
    then have "w \<in> set ws" "has_prefix s w" by (auto simp: find_Some_iff)
    with assms(1) have "w \<noteq> []" by blast
    then have "length (drop (length w) s) \<le> k" using Suc.prems by (cases w) auto
    from Suc.IH [OF this] Some show ?thesis by simp
  qed
qed

text \<open>Enough rounds: no white space is left in front.\<close>

lemma trim_left_done: "w \<in> set space_seqs \<Longrightarrow> \<not> has_prefix (trim_left s) w"
proof -
  have "\<forall>w \<in> set space_seqs. w \<noteq> []" by (simp add: space_seqs_def)
  from strip_seqs_done [OF this order_refl, of s]
  show "w \<in> set space_seqs \<Longrightarrow> \<not> has_prefix (trim_left s) w"
    by (auto simp: trim_left_def find_None_iff)
qed

lemma trim_space_Nil [simp]: "trim_space [] = []"
  by (simp add: trim_space_def trim_left_def trim_right_def)

text \<open>\<open>strings.ReplaceAll(s, "\n", new)\<close>.\<close>

definition replace_newline :: "string \<Rightarrow> string \<Rightarrow> string" where
  "replace_newline new s = concat (map (\<lambda>c. if c = newline then new else [c]) s)"

section \<open>Lists\<close>

text \<open>The last element that satisfies a predicate, found by a loop from the end.\<close>

definition find_last :: "('a \<Rightarrow> bool) \<Rightarrow> 'a list \<Rightarrow> 'a option" where
  "find_last p xs = List.find p (rev xs)"

lemma find_append:
  "List.find p (xs @ ys) = (case List.find p xs of None \<Rightarrow> List.find p ys | Some x \<Rightarrow> Some x)"
  by (induction xs) auto

lemma find_last_snoc [simp]: "find_last p (xs @ [x]) = (if p x then Some x else find_last p xs)"
  by (simp add: find_last_def)

lemma find_last_Nil [simp]: "find_last p [] = None"
  by (simp add: find_last_def)

text \<open>The position of the first element that satisfies a predicate.\<close>

fun index_of :: "('a \<Rightarrow> bool) \<Rightarrow> 'a list \<Rightarrow> nat option" where
  "index_of p [] = None"
| "index_of p (x # xs) = (if p x then Some 0 else map_option Suc (index_of p xs))"

lemma index_of_None: "index_of p xs = None \<longleftrightarrow> (\<forall>x \<in> set xs. \<not> p x)"
  by (induction xs) auto

lemma index_of_Some: "index_of p xs = Some i \<Longrightarrow> i < length xs \<and> p (xs ! i) \<and> (\<forall>j < i. \<not> p (xs ! j))"
proof (induction xs arbitrary: i)
  case (Cons x xs)
  then show ?case
    by (auto split: if_splits simp: nth_Cons split: nat.splits)
qed simp

lemma index_of_distinct:
  assumes "distinct (map f xs)" "i < length xs"
  shows "index_of (\<lambda>x. f x = f (xs ! i)) xs = Some i"
  using assms
proof (induction xs arbitrary: i)
  case (Cons x xs)
  show ?case
  proof (cases i)
    case (Suc j)
    with Cons.prems have "xs ! j \<in> set xs" "f x \<notin> f ` set xs" by auto
    then have "f x \<noteq> f (xs ! j)" by (metis image_eqI)
    with Suc Cons show ?thesis by simp
  qed simp
qed simp

lemma foldl_snoc [simp]: "foldl f a (xs @ [x]) = f (foldl f a xs) x"
  by simp

text \<open>A loop over a list that may panic.\<close>

fun fold_opt :: "('s \<Rightarrow> 'a \<Rightarrow> 's option) \<Rightarrow> 's \<Rightarrow> 'a list \<Rightarrow> 's option" where
  "fold_opt f s [] = Some s"
| "fold_opt f s (x # xs) = (case f s x of None \<Rightarrow> None | Some s' \<Rightarrow> fold_opt f s' xs)"

lemma fold_opt_append:
  "fold_opt f s (xs @ ys) = (case fold_opt f s xs of None \<Rightarrow> None | Some s' \<Rightarrow> fold_opt f s' ys)"
  by (induction f s xs rule: fold_opt.induct) (auto split: option.splits)

lemma fold_opt_total:
  assumes "\<And>s x. x \<in> set xs \<Longrightarrow> f s x \<noteq> None"
  shows "\<exists>s'. fold_opt f s xs = Some s'"
  using assms
proof (induction xs arbitrary: s)
  case (Cons x xs)
  then obtain s' where s': "f s x = Some s'" by fastforce
  from Cons have "\<exists>t. fold_opt f s' xs = Some t" by simp
  with s' show ?case by simp
qed simp

section \<open>Relations that only move on\<close>

text \<open>A relation between a state and a later one, reflexive on good states, transitive, and leaving good states;
  what a sequence of steps keeps when each step does.\<close>

locale extension =
  fixes good :: "'s \<Rightarrow> bool" and later :: "'s \<Rightarrow> 's \<Rightarrow> bool"
  assumes refl: "good a \<Longrightarrow> later a a"
    and trans: "later a b \<Longrightarrow> later b c \<Longrightarrow> later a c"
    and stays: "later a b \<Longrightarrow> good b"
begin

lemma fold_later:
  assumes "\<And>acc x. x \<in> set xs \<Longrightarrow> good (f acc) \<Longrightarrow> later (f acc) (f (step acc x))" "good (f acc)"
  shows "later (f acc) (f (foldl step acc xs))"
  using assms
proof (induction xs arbitrary: acc)
  case (Cons x xs)
  have "later (f acc) (f (step acc x))" using Cons by simp
  moreover have "later (f (step acc x)) (f (foldl step (step acc x) xs))"
    using Cons stays [OF calculation] by simp
  ultimately show ?case using trans by fastforce
qed (simp add: refl)

lemma then_later: "later a b \<Longrightarrow> (good b \<Longrightarrow> later b c) \<Longrightarrow> later a c"
  using trans stays by blast

end

end
