(* ===== verification/Json.thy ===== *)
theory Json
  imports Rho_Prelude
begin

text \<open>
  What the program uses of \<open>encoding/json\<close>: JSON values, their compact text, and decoding into
  structs. A \<open>json.RawMessage\<close> is the value it holds, its bytes being the compact text
  \<open>json_text\<close> (which is what \<open>json.Marshal\<close> writes into every log line); an absent message,
  of length 0, is \<^term>\<open>None\<close>. A number keeps its literal, so \<open>ParseInt\<close> sees what Go's sees.

  \<open>json.Unmarshal\<close> into a struct (\<open>dec_struct\<close>) goes through the object's members in order and
  gives each to the field of that name, or else to the first field whose name agrees up to ASCII
  case; a member no field takes is skipped, \<open>null\<close> leaves a scalar as it is, and a value of the
  wrong type is an error, here \<^term>\<open>None\<close> (the text of the library's error is not modelled).
\<close>

datatype json =
    JNull
  | JBool bool
  | JNum string
  | JStr string
  | JArr "json list"
  | JObj "(string \<times> json) list"

section \<open>The compact text\<close>

definition hex_digit :: "nat \<Rightarrow> char" where
  "hex_digit d = (if d < 10 then char_of (48 + d) else char_of (87 + d))"

definition esc_char :: "char \<Rightarrow> string" where
  "esc_char c =
     (let n = (of_char c :: nat) in
      if c = CHR 0x22 then [CHR 0x5C, CHR 0x22]
      else if c = CHR 0x5C then [CHR 0x5C, CHR 0x5C]
      else if n = 8 then [CHR 0x5C, CHR ''b'']
      else if n = 12 then [CHR 0x5C, CHR ''f'']
      else if n = 10 then [CHR 0x5C, CHR ''n'']
      else if n = 13 then [CHR 0x5C, CHR ''r'']
      else if n = 9 then [CHR 0x5C, CHR ''t'']
      else if n < 32 \<or> c = CHR ''<'' \<or> c = CHR ''>'' \<or> c = CHR 0x26
        then CHR 0x5C # ''u00'' @ [hex_digit (n div 16), hex_digit (n mod 16)]
      else [c])"

fun esc_str :: "string \<Rightarrow> string" where
  "esc_str [] = []"
| "esc_str (c # cs) =
     (if has_prefix (c # cs) [CHR 0xE2, CHR 0x80, CHR 0xA8] then CHR 0x5C # ''u2028'' @ esc_str (drop 2 cs)
      else if has_prefix (c # cs) [CHR 0xE2, CHR 0x80, CHR 0xA9] then CHR 0x5C # ''u2029'' @ esc_str (drop 2 cs)
      else esc_char c @ esc_str cs)"

definition quote_str :: "string \<Rightarrow> string" where
  "quote_str s = CHR 0x22 # esc_str s @ [CHR 0x22]"

fun json_text :: "json \<Rightarrow> string" where
  "json_text JNull = ''null''"
| "json_text (JBool b) = (if b then ''true'' else ''false'')"
| "json_text (JNum lit) = lit"
| "json_text (JStr s) = quote_str s"
| "json_text (JArr xs) = ''['' @ join '','' (map json_text xs) @ '']''"
| "json_text (JObj ms) =
     ''{'' @ join '','' (map (\<lambda>(k, v). quote_str k @ '':'' @ json_text v) ms) @ ''}''"

definition raw_len :: "json option \<Rightarrow> nat" where
  "raw_len r = (case r of None \<Rightarrow> 0 | Some v \<Rightarrow> length (json_text v))"

text \<open>What can be a \<open>json.RawMessage\<close> at all: numbers carry a literal.\<close>

fun json_wf :: "json \<Rightarrow> bool" where
  "json_wf (JNum lit) \<longleftrightarrow> lit \<noteq> []"
| "json_wf (JArr xs) \<longleftrightarrow> (\<forall>x \<in> set xs. json_wf x)"
| "json_wf (JObj ms) \<longleftrightarrow> (\<forall>m \<in> set ms. json_wf (snd m))"
| "json_wf _ \<longleftrightarrow> True"

lemma json_text_nonempty: "json_wf v \<Longrightarrow> json_text v \<noteq> []"
  by (cases v) (auto simp: quote_str_def)

lemma raw_len_zero: "(\<forall>v. r = Some v \<longrightarrow> json_wf v) \<Longrightarrow> raw_len r = 0 \<longleftrightarrow> r = None"
  using json_text_nonempty by (cases r) (auto simp: raw_len_def)

section \<open>Decoding\<close>

definition lower_char :: "char \<Rightarrow> char" where
  "lower_char c = (let n = (of_char c :: nat) in if 65 \<le> n \<and> n \<le> 90 then char_of (n + 32) else c)"

text \<open>A struct type is the list of its fields: the JSON name, and how a value is stored.\<close>

type_synonym 'r fields = "(string \<times> ('r \<Rightarrow> json \<Rightarrow> 'r option)) list"

definition field_for :: "'r fields \<Rightarrow> string \<Rightarrow> ('r \<Rightarrow> json \<Rightarrow> 'r option) option" where
  "field_for fs k =
     (case List.find (\<lambda>f. fst f = k) fs of
        Some f \<Rightarrow> Some (snd f)
      | None \<Rightarrow> map_option snd (List.find (\<lambda>f. map lower_char (fst f) = map lower_char k) fs))"

definition dec_member :: "'r fields \<Rightarrow> 'r \<Rightarrow> string \<times> json \<Rightarrow> 'r option" where
  "dec_member fs r m = (case field_for fs (fst m) of None \<Rightarrow> Some r | Some f \<Rightarrow> f r (snd m))"

definition dec_obj :: "'r fields \<Rightarrow> 'r \<Rightarrow> (string \<times> json) list \<Rightarrow> 'r option" where
  "dec_obj fs r ms = fold_opt (dec_member fs) r ms"

definition dec_struct :: "'r fields \<Rightarrow> 'r \<Rightarrow> json \<Rightarrow> 'r option" where
  "dec_struct fs r v = (case v of JNull \<Rightarrow> Some r | JObj ms \<Rightarrow> dec_obj fs r ms | _ \<Rightarrow> None)"

text \<open>The kinds of field the protocol's structs have.\<close>

definition dec_str :: "string \<Rightarrow> json \<Rightarrow> string option" where
  "dec_str old v = (case v of JStr s \<Rightarrow> Some s | JNull \<Rightarrow> Some old | _ \<Rightarrow> None)"

definition dec_bool :: "bool \<Rightarrow> json \<Rightarrow> bool option" where
  "dec_bool old v = (case v of JBool b \<Rightarrow> Some b | JNull \<Rightarrow> Some old | _ \<Rightarrow> None)"

definition dec_int :: "int \<Rightarrow> json \<Rightarrow> int option" where
  "dec_int old v = (case v of JNum lit \<Rightarrow> parse_int lit | JNull \<Rightarrow> Some old | _ \<Rightarrow> None)"

text \<open>A \<open>float64\<close> is the literal it was written with; the only reading of one is its sign.\<close>

definition dec_float :: "string \<Rightarrow> json \<Rightarrow> string option" where
  "dec_float old v = (case v of JNum lit \<Rightarrow> Some lit | JNull \<Rightarrow> Some old | _ \<Rightarrow> None)"

definition mantissa :: "string \<Rightarrow> string" where
  "mantissa lit = takeWhile (\<lambda>c. c \<noteq> CHR ''e'' \<and> c \<noteq> CHR ''E'') lit"

definition float_zero :: "string \<Rightarrow> bool" where
  "float_zero lit \<longleftrightarrow> (\<forall>c \<in> set (mantissa lit). c = CHR ''0'' \<or> c = CHR ''.'' \<or> c = CHR ''-'')"

definition float_neg :: "string \<Rightarrow> bool" where
  "float_neg lit \<longleftrightarrow> has_prefix lit ''-'' \<and> \<not> float_zero lit"

text \<open>A pointer (\<open>null\<close> stores nil) and a slice (\<open>null\<close> stores nil, an array its elements).\<close>

definition dec_ptr :: "('a \<Rightarrow> json \<Rightarrow> 'a option) \<Rightarrow> 'a \<Rightarrow> 'a option \<Rightarrow> json \<Rightarrow> 'a option option" where
  "dec_ptr d zero old v =
     (if v = JNull then Some None
      else map_option Some (d (case old of None \<Rightarrow> zero | Some x \<Rightarrow> x) v))"

fun dec_list :: "('a \<Rightarrow> json \<Rightarrow> 'a option) \<Rightarrow> 'a \<Rightarrow> json list \<Rightarrow> 'a list option" where
  "dec_list d zero [] = Some []"
| "dec_list d zero (v # vs) =
     (case d zero v of
        None \<Rightarrow> None
      | Some x \<Rightarrow> (case dec_list d zero vs of None \<Rightarrow> None | Some xs \<Rightarrow> Some (x # xs)))"

text \<open>A slice whose nil and empty values the program tells apart is an option.\<close>

definition dec_slice :: "('a \<Rightarrow> json \<Rightarrow> 'a option) \<Rightarrow> 'a \<Rightarrow> json \<Rightarrow> 'a list option option" where
  "dec_slice d zero v =
     (case v of
        JNull \<Rightarrow> Some None
      | JArr vs \<Rightarrow> map_option Some (dec_list d zero vs)
      | _ \<Rightarrow> None)"

definition slice :: "'a list option \<Rightarrow> 'a list" where
  "slice s = (case s of None \<Rightarrow> [] | Some xs \<Rightarrow> xs)"

text \<open>A field of a record: its value and its update, with the decoder of its type.\<close>

definition fld :: "('r \<Rightarrow> 'a) \<Rightarrow> (('a \<Rightarrow> 'a) \<Rightarrow> 'r \<Rightarrow> 'r) \<Rightarrow> ('a \<Rightarrow> json \<Rightarrow> 'a option) \<Rightarrow> 'r \<Rightarrow> json \<Rightarrow> 'r option" where
  "fld get upd d r v = map_option (\<lambda>x. upd (\<lambda>_. x) r) (d (get r) v)"

definition raw_fld :: "((json option \<Rightarrow> json option) \<Rightarrow> 'r \<Rightarrow> 'r) \<Rightarrow> 'r \<Rightarrow> json \<Rightarrow> 'r option" where
  "raw_fld upd r v = Some (upd (\<lambda>_. Some v) r)"

section \<open>Encoding\<close>

definition enc_int :: "int \<Rightarrow> json" where
  "enc_int i = JNum (itoa i)"

text \<open>A member that \<open>omitempty\<close> leaves out when its value is empty.\<close>

definition omit_if :: "bool \<Rightarrow> string \<Rightarrow> json \<Rightarrow> (string \<times> json) list" where
  "omit_if c k v = (if c then [] else [(k, v)])"

definition enc_strs :: "string list \<Rightarrow> json" where
  "enc_strs ss = JArr (map JStr ss)"

definition enc_slice :: "('a \<Rightarrow> json) \<Rightarrow> 'a list option \<Rightarrow> json" where
  "enc_slice e s = (case s of None \<Rightarrow> JNull | Some xs \<Rightarrow> JArr (map e xs))"

definition enc_raw :: "json option \<Rightarrow> json" where
  "enc_raw r = (case r of None \<Rightarrow> JNull | Some v \<Rightarrow> v)"

section \<open>Evaluating a decoder on an encoded value\<close>

lemma dec_str_JStr [decode_simps]: "dec_str old (JStr s) = Some s"
  by (simp add: dec_str_def)

lemma dec_bool_JBool [decode_simps]: "dec_bool old (JBool b) = Some b"
  by (simp add: dec_bool_def)

lemma dec_int_enc [decode_simps]: "int64_ok i \<Longrightarrow> dec_int old (enc_int i) = Some i"
  by (simp add: dec_int_def enc_int_def parse_int_itoa)

lemma dec_float_JNum [decode_simps]: "dec_float old (JNum lit) = Some lit"
  by (simp add: dec_float_def)

lemma dec_list_map:
  "(\<And>x. x \<in> set xs \<Longrightarrow> d zero (e x) = Some x) \<Longrightarrow> dec_list d zero (map e xs) = Some xs"
  by (induction xs) auto

lemma dec_slice_enc:
  "(\<And>x. x \<in> set (slice s) \<Longrightarrow> d zero (e x) = Some x) \<Longrightarrow> dec_slice d zero (enc_slice e s) = Some s"
  by (cases s) (auto simp: dec_slice_def enc_slice_def slice_def dec_list_map)

lemma dec_list_strs [decode_simps]: "dec_list dec_str [] (map JStr ss) = Some ss"
  by (rule dec_list_map) (simp add: dec_str_def)

lemma dec_obj_Nil [decode_simps]: "dec_obj fs r [] = Some r"
  by (simp add: dec_obj_def)

lemma dec_obj_Cons [decode_simps]:
  "dec_obj fs r ((k, v) # ms) =
     (case (case field_for fs k of None \<Rightarrow> Some r | Some f \<Rightarrow> f r v) of
        None \<Rightarrow> None | Some r' \<Rightarrow> dec_obj fs r' ms)"
  by (simp add: dec_obj_def dec_member_def split: option.split)

lemma dec_obj_append:
  "dec_obj fs r (ms @ ns) = (case dec_obj fs r ms of None \<Rightarrow> None | Some r' \<Rightarrow> dec_obj fs r' ns)"
  by (simp add: dec_obj_def fold_opt_append split: option.split)

text \<open>One member of an encoded struct whose field decodes back.\<close>

lemma dec_obj_omit [decode_simps]:
  "dec_obj fs r (omit_if c k v @ ms) =
     (if c then dec_obj fs r ms else dec_obj fs r ((k, v) # ms))"
  by (simp add: omit_if_def)

lemma dec_obj_omit_last [decode_simps]:
  "dec_obj fs r (omit_if c k v) = (if c then Some r else dec_obj fs r [(k, v)])"
  by (simp add: omit_if_def dec_obj_Nil)

lemma field_for_Cons_eq [decode_simps]: "field_for ((k, f) # fs) k = Some f"
  by (simp add: field_for_def)

lemma fld_Some [decode_simps]: "d (get r) v = Some x \<Longrightarrow> fld get upd d r v = Some (upd (\<lambda>_. x) r)"
  by (simp add: fld_def)

lemma raw_fld_Some [decode_simps]: "raw_fld upd r v = Some (upd (\<lambda>_. Some v) r)"
  by (simp add: raw_fld_def)

end
