(* ===== verification/Byte_Strings.thy ===== *)
theory Byte_Strings
  imports Rho_Prelude
begin

text \<open>
  What the program takes from Go's \<open>strings\<close> and \<open>utf8\<close> packages on byte strings: which bytes are UTF-8,
  \<open>to_valid_utf8\<close> for \<open>strings.ToValidUTF8(s, "")\<close>, \<open>runes\<close> for the conversion to \<open>[]rune\<close> and back,
  slices, and \<open>last_index\<close> for \<open>strings.LastIndex\<close>.
\<close>

section \<open>UTF-8\<close>

abbreviation byte_of :: "char \<Rightarrow> nat" where "byte_of c \<equiv> of_char c"

definition in_range :: "nat \<Rightarrow> nat \<Rightarrow> char \<Rightarrow> bool" where
  "in_range lo hi c \<longleftrightarrow> lo \<le> byte_of c \<and> byte_of c \<le> hi"

text \<open>The number of bytes of the UTF-8 sequence a string begins with, 0 when it begins with none.\<close>

fun utf8_width :: "string \<Rightarrow> nat" where
  "utf8_width [] = 0"
| "utf8_width (a # s) =
     (if byte_of a < 0x80 then 1
      else case s of
        [] \<Rightarrow> 0
      | b # s2 \<Rightarrow>
          if in_range 0xC2 0xDF a then (if in_range 0x80 0xBF b then 2 else 0)
          else case s2 of
            [] \<Rightarrow> 0
          | c # s3 \<Rightarrow>
              if in_range 0xE0 0xEF a
              then (if in_range (if byte_of a = 0xE0 then 0xA0 else 0x80) (if byte_of a = 0xED then 0x9F else 0xBF) b
                      \<and> in_range 0x80 0xBF c then 3 else 0)
              else case s3 of
                [] \<Rightarrow> 0
              | d # _ \<Rightarrow>
                  if in_range 0xF0 0xF4 a
                    \<and> in_range (if byte_of a = 0xF0 then 0x90 else 0x80) (if byte_of a = 0xF4 then 0x8F else 0xBF) b
                    \<and> in_range 0x80 0xBF c \<and> in_range 0x80 0xBF d then 4 else 0)"

function to_valid_utf8 :: "string \<Rightarrow> string" where
  "to_valid_utf8 s =
     (if s = [] then []
      else let w = utf8_width s in
        if w = 0 then to_valid_utf8 (tl s) else take w s @ to_valid_utf8 (drop w s))"
  by auto

termination by (relation "measure length") (auto simp: Let_def)

declare to_valid_utf8.simps [simp del]

text \<open>The characters of \<open>[]rune(s)\<close>, each as the bytes it has in a string again; a byte that begins no
  sequence is U+FFFD.\<close>

function runes :: "string \<Rightarrow> string list" where
  "runes s =
     (if s = [] then []
      else let w = utf8_width s in
        if w = 0 then [CHR 0xEF, CHR 0xBF, CHR 0xBD] # runes (tl s) else take w s # runes (drop w s))"
  by auto

termination by (relation "measure length") (auto simp: Let_def)

declare runes.simps [simp del]

section \<open>Slices and searches\<close>

text \<open>\<open>s[i:j]\<close>.\<close>

definition sub :: "string \<Rightarrow> nat \<Rightarrow> nat \<Rightarrow> string" where
  "sub s i j = take (j - i) (drop i s)"

fun last_index_at :: "string \<Rightarrow> string \<Rightarrow> nat \<Rightarrow> nat option" where
  "last_index_at hay needle 0 = (if has_prefix hay needle then Some 0 else None)"
| "last_index_at hay needle (Suc i) =
     (if has_prefix (drop (Suc i) hay) needle then Some (Suc i) else last_index_at hay needle i)"

definition last_index :: "string \<Rightarrow> string \<Rightarrow> nat option" where
  "last_index hay needle =
     (if length hay < length needle then None else last_index_at hay needle (length hay - length needle))"

lemma last_index_at_Some:
  "last_index_at hay needle i = Some j \<Longrightarrow> j \<le> i \<and> has_prefix (drop j hay) needle \<and> (\<forall>k. j < k \<and> k \<le> i \<longrightarrow> \<not> has_prefix (drop k hay) needle)"
  by (induction i) (auto split: if_splits simp: le_Suc_eq)

lemma last_index_at_None: "last_index_at hay needle i = None \<Longrightarrow> k \<le> i \<Longrightarrow> \<not> has_prefix (drop k hay) needle"
  by (induction i) (auto split: if_splits simp: le_Suc_eq)

lemma last_index_bound: "last_index hay needle = Some i \<Longrightarrow> i + length needle \<le> length hay"
  by (auto simp: last_index_def split: if_splits dest!: last_index_at_Some)

lemma length_sub [simp]: "length (sub s i j) = min (j - i) (length s - i)"
  by (simp add: sub_def)

lemma has_prefix_sub:
  assumes "k + length nd \<le> e - lo" "e \<le> length text"
  shows "has_prefix (drop k (sub text lo e)) nd \<longleftrightarrow> has_prefix (drop (lo + k) text) nd"
proof -
  have "take (length nd) (drop k (sub text lo e)) = take (length nd) (drop (lo + k) text)"
    using assms by (simp add: sub_def drop_take add.commute)
  then show ?thesis by (simp add: has_prefix_def)
qed

end
