(* ===== verification/Event_Codec.thy ===== *)
theory Event_Codec
  imports Event_Types Byte_Strings
begin

text \<open>
  The JSON form of the payloads of \<open>protocol/types.go\<close>: for each struct its zero value
  (\<open>..._zero\<close>), the fields its tags name (\<open>..._fields\<close>) and what \<open>json.Marshal\<close> writes
  (\<open>enc_...\<close>) for a struct whose strings are valid UTF-8; then \<open>DecodeData\<close> and \<open>MustData\<close>, with the panic
  as \<^term>\<open>None\<close>. In any other string \<open>json.Marshal\<close> writes U+FFFD for each byte that is not part of a UTF-8
  sequence: \<open>marshal_payload\<close> does that first. On payloads of valid strings, which is what the texts of the
  components above this one are taken to be, the two agree (\<open>marshal_valid\<close>).

  The lemmas show that each payload decodes back from its encoding, in the range of a Go \<open>int\<close> and with the raw
  members present, and the theorem what \<open>DecodeData\<close> makes of what \<open>json.Marshal\<close> wrote, for every event type.
\<close>

definition dec_strs :: "string list \<Rightarrow> json \<Rightarrow> string list option" where
  "dec_strs old v = map_option slice (dec_slice dec_str [] v)"

definition enc_ptr :: "('a \<Rightarrow> json) \<Rightarrow> 'a option \<Rightarrow> json" where
  "enc_ptr e p = (case p of None \<Rightarrow> JNull | Some x \<Rightarrow> e x)"

section \<open>The structs\<close>

definition options_zero :: Options where
  "options_zero = \<lparr>op_model = [], op_compaction = False, op_mode = [], op_parent = [],
     op_labels = [], op_description = [], op_context = [], op_effort = []\<rparr>"

definition options_fields :: "Options fields" where
  "options_fields =
    [(''model'', fld op_model op_model_update dec_str),
     (''compaction_enabled'', fld op_compaction op_compaction_update dec_bool),
     (''permission_mode'', fld op_mode op_mode_update dec_str),
     (''parent'', fld op_parent op_parent_update dec_str),
     (''labels'', fld op_labels op_labels_update dec_strs),
     (''description'', fld op_description op_description_update dec_str),
     (''context'', fld op_context op_context_update dec_str),
     (''effort'', fld op_effort op_effort_update dec_str)]"

definition enc_options :: "Options \<Rightarrow> json" where
  "enc_options x = JObj (
     [(''model'', JStr (op_model x))] @
     [(''compaction_enabled'', JBool (op_compaction x))] @
     [(''permission_mode'', JStr (op_mode x))] @
     omit_if (op_parent x = []) ''parent'' (JStr (op_parent x)) @
     omit_if (op_labels x = []) ''labels'' (enc_strs (op_labels x)) @
     omit_if (op_description x = []) ''description'' (JStr (op_description x)) @
     omit_if (op_context x = []) ''context'' (JStr (op_context x)) @
     omit_if (op_effort x = []) ''effort'' (JStr (op_effort x)))"

definition session_zero :: SessionData where
  "session_zero = \<lparr>sd_workspace = [], sd_key = [], sd_options = options_zero, sd_window = 0\<rparr>"

definition session_fields :: "SessionData fields" where
  "session_fields =
    [(''workspace'', fld sd_workspace sd_workspace_update dec_str),
     (''workspace_key'', fld sd_key sd_key_update dec_str),
     (''options'', fld sd_options sd_options_update (dec_struct options_fields)),
     (''context_window'', fld sd_window sd_window_update dec_int)]"

definition enc_session :: "SessionData \<Rightarrow> json" where
  "enc_session x = JObj (
     [(''workspace'', JStr (sd_workspace x))] @
     [(''workspace_key'', JStr (sd_key x))] @
     [(''options'', enc_options (sd_options x))] @
     omit_if (sd_window x = 0) ''context_window'' (enc_int (sd_window x)))"

definition usage_zero :: Usage where
  "usage_zero = \<lparr>us_input = 0, us_output = 0, us_cached = 0\<rparr>"

definition usage_fields :: "Usage fields" where
  "usage_fields =
    [(''input_tokens'', fld us_input us_input_update dec_int),
     (''output_tokens'', fld us_output us_output_update dec_int),
     (''cached_tokens'', fld us_cached us_cached_update dec_int)]"

definition enc_usage :: "Usage \<Rightarrow> json" where
  "enc_usage x = JObj (
     [(''input_tokens'', enc_int (us_input x))] @
     [(''output_tokens'', enc_int (us_output x))] @
     omit_if (us_cached x = 0) ''cached_tokens'' (enc_int (us_cached x)))"

definition message_zero :: MessageData where
  "message_zero = \<lparr>msg_role = [], msg_content = [], msg_client = [], msg_usage = None,
     msg_interrupted = False\<rparr>"

definition message_fields :: "MessageData fields" where
  "message_fields =
    [(''role'', fld msg_role msg_role_update dec_str),
     (''content'', fld msg_content msg_content_update dec_str),
     (''client_id'', fld msg_client msg_client_update dec_str),
     (''usage'', fld msg_usage msg_usage_update (dec_ptr (dec_struct usage_fields) usage_zero)),
     (''interrupted'', fld msg_interrupted msg_interrupted_update dec_bool)]"

definition enc_message :: "MessageData \<Rightarrow> json" where
  "enc_message x = JObj (
     [(''role'', JStr (msg_role x))] @
     [(''content'', JStr (msg_content x))] @
     omit_if (msg_client x = []) ''client_id'' (JStr (msg_client x)) @
     omit_if (msg_usage x = None) ''usage'' (enc_ptr enc_usage (msg_usage x)) @
     omit_if (\<not> msg_interrupted x) ''interrupted'' (JBool (msg_interrupted x)))"

definition tool_call_zero :: ToolCallData where
  "tool_call_zero = \<lparr>tc_call = [], tc_tool = [], tc_args = None, tc_source = []\<rparr>"

definition tool_call_fields :: "ToolCallData fields" where
  "tool_call_fields =
    [(''call_id'', fld tc_call tc_call_update dec_str),
     (''tool'', fld tc_tool tc_tool_update dec_str),
     (''arguments'', raw_fld tc_args_update),
     (''source'', fld tc_source tc_source_update dec_str)]"

definition enc_tool_call :: "ToolCallData \<Rightarrow> json" where
  "enc_tool_call x = JObj (
     [(''call_id'', JStr (tc_call x))] @
     [(''tool'', JStr (tc_tool x))] @
     [(''arguments'', enc_raw (tc_args x))] @
     [(''source'', JStr (tc_source x))])"

definition tool_result_zero :: ToolResultData where
  "tool_result_zero = \<lparr>tr_call = [], tr_tool = [], tr_content = [], tr_status = [], tr_kind =
     [], tr_exit = None\<rparr>"

definition tool_result_fields :: "ToolResultData fields" where
  "tool_result_fields =
    [(''call_id'', fld tr_call tr_call_update dec_str),
     (''tool'', fld tr_tool tr_tool_update dec_str),
     (''content'', fld tr_content tr_content_update dec_str),
     (''status'', fld tr_status tr_status_update dec_str),
     (''kind'', fld tr_kind tr_kind_update dec_str),
     (''exit_code'', fld tr_exit tr_exit_update (dec_ptr dec_int 0))]"

definition enc_tool_result :: "ToolResultData \<Rightarrow> json" where
  "enc_tool_result x = JObj (
     [(''call_id'', JStr (tr_call x))] @
     [(''tool'', JStr (tr_tool x))] @
     [(''content'', JStr (tr_content x))] @
     [(''status'', JStr (tr_status x))] @
     omit_if (tr_kind x = []) ''kind'' (JStr (tr_kind x)) @
     omit_if (tr_exit x = None) ''exit_code'' (enc_ptr enc_int (tr_exit x)))"

definition options_change_zero :: OptionsChangeData where
  "options_change_zero = \<lparr>oc_key = [], oc_from = None, oc_to = None, oc_source = []\<rparr>"

definition options_change_fields :: "OptionsChangeData fields" where
  "options_change_fields =
    [(''key'', fld oc_key oc_key_update dec_str),
     (''from'', raw_fld oc_from_update),
     (''to'', raw_fld oc_to_update),
     (''source'', fld oc_source oc_source_update dec_str)]"

definition enc_options_change :: "OptionsChangeData \<Rightarrow> json" where
  "enc_options_change x = JObj (
     [(''key'', JStr (oc_key x))] @
     [(''from'', enc_raw (oc_from x))] @
     [(''to'', enc_raw (oc_to x))] @
     [(''source'', JStr (oc_source x))])"

definition state_change_zero :: StateChangeData where
  "state_change_zero = \<lparr>sc_from = None, sc_to = [], sc_reason = []\<rparr>"

definition state_change_fields :: "StateChangeData fields" where
  "state_change_fields =
    [(''from'', fld sc_from sc_from_update (dec_ptr dec_str [])),
     (''to'', fld sc_to sc_to_update dec_str),
     (''reason'', fld sc_reason sc_reason_update dec_str)]"

definition enc_state_change :: "StateChangeData \<Rightarrow> json" where
  "enc_state_change x = JObj (
     [(''from'', enc_ptr JStr (sc_from x))] @
     [(''to'', JStr (sc_to x))] @
     omit_if (sc_reason x = []) ''reason'' (JStr (sc_reason x)))"

definition compaction_zero :: CompactionData where
  "compaction_zero = \<lparr>cp_mode = [], cp_start = [], cp_end = [], cp_summary = []\<rparr>"

definition compaction_fields :: "CompactionData fields" where
  "compaction_fields =
    [(''mode'', fld cp_mode cp_mode_update dec_str),
     (''range_start'', fld cp_start cp_start_update dec_str),
     (''range_end'', fld cp_end cp_end_update dec_str),
     (''summary'', fld cp_summary cp_summary_update dec_str)]"

definition enc_compaction :: "CompactionData \<Rightarrow> json" where
  "enc_compaction x = JObj (
     [(''mode'', JStr (cp_mode x))] @
     [(''range_start'', JStr (cp_start x))] @
     [(''range_end'', JStr (cp_end x))] @
     omit_if (cp_summary x = []) ''summary'' (JStr (cp_summary x)))"

definition context_zero :: ContextData where
  "context_zero = \<lparr>cx_source = [], cx_slot = [], cx_content = []\<rparr>"

definition context_fields :: "ContextData fields" where
  "context_fields =
    [(''source'', fld cx_source cx_source_update dec_str),
     (''slot'', fld cx_slot cx_slot_update dec_str),
     (''content'', fld cx_content cx_content_update dec_str)]"

definition enc_context :: "ContextData \<Rightarrow> json" where
  "enc_context x = JObj (
     [(''source'', JStr (cx_source x))] @
     [(''slot'', JStr (cx_slot x))] @
     [(''content'', JStr (cx_content x))])"

definition task_zero :: Task where
  "task_zero = \<lparr>tk_id = [], tk_title = [], tk_status = [], tk_done_when = [], tk_check = [],
     tk_blocked = None, tk_note = [], tk_evidence = []\<rparr>"

definition task_fields :: "Task fields" where
  "task_fields =
    [(''id'', fld tk_id tk_id_update dec_str),
     (''title'', fld tk_title tk_title_update dec_str),
     (''status'', fld tk_status tk_status_update dec_str),
     (''done_when'', fld tk_done_when tk_done_when_update dec_str),
     (''check'', fld tk_check tk_check_update dec_str),
     (''blocked_by'', fld tk_blocked tk_blocked_update (\<lambda>_. dec_slice dec_str [])),
     (''note'', fld tk_note tk_note_update dec_str),
     (''evidence'', fld tk_evidence tk_evidence_update dec_str)]"

definition enc_task :: "Task \<Rightarrow> json" where
  "enc_task x = JObj (
     [(''id'', JStr (tk_id x))] @
     [(''title'', JStr (tk_title x))] @
     [(''status'', JStr (tk_status x))] @
     omit_if (tk_done_when x = []) ''done_when'' (JStr (tk_done_when x)) @
     omit_if (tk_check x = []) ''check'' (JStr (tk_check x)) @
     [(''blocked_by'', enc_slice JStr (tk_blocked x))] @
     omit_if (tk_note x = []) ''note'' (JStr (tk_note x)) @
     omit_if (tk_evidence x = []) ''evidence'' (JStr (tk_evidence x)))"

definition tasks_zero :: TasksData where
  "tasks_zero = \<lparr>td_revision = 0, td_source = [], td_tasks = []\<rparr>"

definition tasks_fields :: "TasksData fields" where
  "tasks_fields =
    [(''revision'', fld td_revision td_revision_update dec_int),
     (''source'', fld td_source td_source_update dec_str),
     (''tasks'', fld td_tasks td_tasks_update (\<lambda>_ v. map_option slice (dec_slice (dec_struct task_fields) task_zero v)))]"

definition enc_tasks :: "TasksData \<Rightarrow> json" where
  "enc_tasks x = JObj (
     [(''revision'', enc_int (td_revision x))] @
     [(''source'', JStr (td_source x))] @
     [(''tasks'', JArr (map enc_task (td_tasks x)))])"

definition goal_zero :: GoalData where
  "goal_zero = \<lparr>gl_condition = [], gl_state = [], gl_reason = [], gl_source = []\<rparr>"

definition goal_fields :: "GoalData fields" where
  "goal_fields =
    [(''condition'', fld gl_condition gl_condition_update dec_str),
     (''state'', fld gl_state gl_state_update dec_str),
     (''reason'', fld gl_reason gl_reason_update dec_str),
     (''source'', fld gl_source gl_source_update dec_str)]"

definition enc_goal :: "GoalData \<Rightarrow> json" where
  "enc_goal x = JObj (
     [(''condition'', JStr (gl_condition x))] @
     [(''state'', JStr (gl_state x))] @
     omit_if (gl_reason x = []) ''reason'' (JStr (gl_reason x)) @
     [(''source'', JStr (gl_source x))])"

definition status_zero :: StatusData where
  "status_zero = \<lparr>st_source = [], st_kind = [], st_data = None\<rparr>"

definition status_fields :: "StatusData fields" where
  "status_fields =
    [(''source'', fld st_source st_source_update dec_str),
     (''kind'', fld st_kind st_kind_update dec_str),
     (''data'', raw_fld st_data_update)]"

definition enc_status :: "StatusData \<Rightarrow> json" where
  "enc_status x = JObj (
     [(''source'', JStr (st_source x))] @
     [(''kind'', JStr (st_kind x))] @
     [(''data'', enc_raw (st_data x))])"

definition check_zero :: CheckData where
  "check_zero = \<lparr>ck_name = [], ck_kind = [], ck_task = [], ck_status = [], ck_summary = [],
     ck_output = []\<rparr>"

definition check_fields :: "CheckData fields" where
  "check_fields =
    [(''name'', fld ck_name ck_name_update dec_str),
     (''kind'', fld ck_kind ck_kind_update dec_str),
     (''task_id'', fld ck_task ck_task_update dec_str),
     (''status'', fld ck_status ck_status_update dec_str),
     (''summary'', fld ck_summary ck_summary_update dec_str),
     (''output'', fld ck_output ck_output_update dec_str)]"

definition enc_check :: "CheckData \<Rightarrow> json" where
  "enc_check x = JObj (
     [(''name'', JStr (ck_name x))] @
     [(''kind'', JStr (ck_kind x))] @
     omit_if (ck_task x = []) ''task_id'' (JStr (ck_task x)) @
     [(''status'', JStr (ck_status x))] @
     [(''summary'', JStr (ck_summary x))] @
     omit_if (ck_output x = []) ''output'' (JStr (ck_output x)))"

definition stop_veto_zero :: StopVetoData where
  "stop_veto_zero = \<lparr>sv_module = [], sv_reason = []\<rparr>"

definition stop_veto_fields :: "StopVetoData fields" where
  "stop_veto_fields =
    [(''module'', fld sv_module sv_module_update dec_str),
     (''reason'', fld sv_reason sv_reason_update dec_str)]"

definition enc_stop_veto :: "StopVetoData \<Rightarrow> json" where
  "enc_stop_veto x = JObj (
     [(''module'', JStr (sv_module x))] @
     [(''reason'', JStr (sv_reason x))])"

definition budget_zero :: BudgetData where
  "budget_zero = \<lparr>bd_turns = 0, bd_tokens = 0, bd_usd = ''0'', bd_source = []\<rparr>"

definition budget_fields :: "BudgetData fields" where
  "budget_fields =
    [(''max_turns'', fld bd_turns bd_turns_update dec_int),
     (''max_tokens'', fld bd_tokens bd_tokens_update dec_int),
     (''max_usd'', fld bd_usd bd_usd_update dec_float),
     (''source'', fld bd_source bd_source_update dec_str)]"

definition enc_budget :: "BudgetData \<Rightarrow> json" where
  "enc_budget x = JObj (
     [(''max_turns'', enc_int (bd_turns x))] @
     omit_if (bd_tokens x = 0) ''max_tokens'' (enc_int (bd_tokens x)) @
     omit_if (float_zero (bd_usd x)) ''max_usd'' (JNum (bd_usd x)) @
     [(''source'', JStr (bd_source x))])"

definition thinking_zero :: ThinkingData where
  "thinking_zero = \<lparr>th_content = [], th_source = []\<rparr>"

definition thinking_fields :: "ThinkingData fields" where
  "thinking_fields =
    [(''content'', fld th_content th_content_update dec_str),
     (''source'', fld th_source th_source_update dec_str)]"

definition enc_thinking :: "ThinkingData \<Rightarrow> json" where
  "enc_thinking x = JObj (
     [(''content'', JStr (th_content x))] @
     [(''source'', JStr (th_source x))])"

definition notice_zero :: NoticeData where
  "notice_zero = \<lparr>nt_source = [], nt_level = [], nt_message = []\<rparr>"

definition notice_fields :: "NoticeData fields" where
  "notice_fields =
    [(''source'', fld nt_source nt_source_update dec_str),
     (''level'', fld nt_level nt_level_update dec_str),
     (''message'', fld nt_message nt_message_update dec_str)]"

definition enc_notice :: "NoticeData \<Rightarrow> json" where
  "enc_notice x = JObj (
     [(''source'', JStr (nt_source x))] @
     [(''level'', JStr (nt_level x))] @
     [(''message'', JStr (nt_message x))])"

definition report_goal_zero :: ReportGoal where
  "report_goal_zero = \<lparr>rg_condition = [], rg_state = [], rg_reason = []\<rparr>"

definition report_goal_fields :: "ReportGoal fields" where
  "report_goal_fields =
    [(''condition'', fld rg_condition rg_condition_update dec_str),
     (''state'', fld rg_state rg_state_update dec_str),
     (''reason'', fld rg_reason rg_reason_update dec_str)]"

definition enc_report_goal :: "ReportGoal \<Rightarrow> json" where
  "enc_report_goal x = JObj (
     [(''condition'', JStr (rg_condition x))] @
     [(''state'', JStr (rg_state x))] @
     omit_if (rg_reason x = []) ''reason'' (JStr (rg_reason x)))"

definition report_ref_zero :: ReportTaskRef where
  "report_ref_zero = \<lparr>rr_id = [], rr_title = [], rr_status = []\<rparr>"

definition report_ref_fields :: "ReportTaskRef fields" where
  "report_ref_fields =
    [(''id'', fld rr_id rr_id_update dec_str),
     (''title'', fld rr_title rr_title_update dec_str),
     (''status'', fld rr_status rr_status_update dec_str)]"

definition enc_report_ref :: "ReportTaskRef \<Rightarrow> json" where
  "enc_report_ref x = JObj (
     [(''id'', JStr (rr_id x))] @
     [(''title'', JStr (rr_title x))] @
     [(''status'', JStr (rr_status x))])"

definition report_tasks_zero :: ReportTasks where
  "report_tasks_zero = \<lparr>rt_total = 0, rt_done = 0, rt_open = None\<rparr>"

definition report_tasks_fields :: "ReportTasks fields" where
  "report_tasks_fields =
    [(''total'', fld rt_total rt_total_update dec_int),
     (''done'', fld rt_done rt_done_update dec_int),
     (''open'', fld rt_open rt_open_update (\<lambda>_. dec_slice (dec_struct report_ref_fields) report_ref_zero))]"

definition enc_report_tasks :: "ReportTasks \<Rightarrow> json" where
  "enc_report_tasks x = JObj (
     [(''total'', enc_int (rt_total x))] @
     [(''done'', enc_int (rt_done x))] @
     [(''open'', enc_slice enc_report_ref (rt_open x))])"

definition report_check_zero :: ReportCheck where
  "report_check_zero = \<lparr>rk_name = [], rk_status = [], rk_summary = []\<rparr>"

definition report_check_fields :: "ReportCheck fields" where
  "report_check_fields =
    [(''name'', fld rk_name rk_name_update dec_str),
     (''status'', fld rk_status rk_status_update dec_str),
     (''summary'', fld rk_summary rk_summary_update dec_str)]"

definition enc_report_check :: "ReportCheck \<Rightarrow> json" where
  "enc_report_check x = JObj (
     [(''name'', JStr (rk_name x))] @
     [(''status'', JStr (rk_status x))] @
     [(''summary'', JStr (rk_summary x))])"

definition report_zero :: ReportData where
  "report_zero = \<lparr>rp_exit = [], rp_goal = None, rp_tasks = report_tasks_zero, rp_checks =
     None, rp_files = [], rp_commits = [], rp_dirty = None\<rparr>"

definition report_fields :: "ReportData fields" where
  "report_fields =
    [(''exit_status'', fld rp_exit rp_exit_update dec_str),
     (''goal'', fld rp_goal rp_goal_update (dec_ptr (dec_struct report_goal_fields) report_goal_zero)),
     (''tasks'', fld rp_tasks rp_tasks_update (dec_struct report_tasks_fields)),
     (''checks'', fld rp_checks rp_checks_update (\<lambda>_. dec_slice (dec_struct report_check_fields) report_check_zero)),
     (''files_touched'', fld rp_files rp_files_update dec_strs),
     (''commits'', fld rp_commits rp_commits_update dec_strs),
     (''tree_dirty'', fld rp_dirty rp_dirty_update (dec_ptr dec_bool False))]"

definition enc_report :: "ReportData \<Rightarrow> json" where
  "enc_report x = JObj (
     [(''exit_status'', JStr (rp_exit x))] @
     omit_if (rp_goal x = None) ''goal'' (enc_ptr enc_report_goal (rp_goal x)) @
     [(''tasks'', enc_report_tasks (rp_tasks x))] @
     [(''checks'', enc_slice enc_report_check (rp_checks x))] @
     omit_if (rp_files x = []) ''files_touched'' (enc_strs (rp_files x)) @
     omit_if (rp_commits x = []) ''commits'' (enc_strs (rp_commits x)) @
     omit_if (rp_dirty x = None) ''tree_dirty'' (enc_ptr JBool (rp_dirty x)))"

text \<open>What a payload needs to decode back: integers of 64 bits and raw members present.\<close>

definition session_ok :: "SessionData \<Rightarrow> bool" where
  "session_ok x \<longleftrightarrow> int64_ok (sd_window x)"

definition usage_ok :: "Usage \<Rightarrow> bool" where
  "usage_ok x \<longleftrightarrow> int64_ok (us_input x) \<and>
     int64_ok (us_output x) \<and>
     int64_ok (us_cached x)"

definition message_ok :: "MessageData \<Rightarrow> bool" where
  "message_ok x \<longleftrightarrow> (\<forall>u. msg_usage x = Some u \<longrightarrow> usage_ok u)"

definition tool_call_ok :: "ToolCallData \<Rightarrow> bool" where
  "tool_call_ok x \<longleftrightarrow> tc_args x \<noteq> None"

definition tool_result_ok :: "ToolResultData \<Rightarrow> bool" where
  "tool_result_ok x \<longleftrightarrow> (\<forall>i. tr_exit x = Some i \<longrightarrow> int64_ok i)"

definition options_change_ok :: "OptionsChangeData \<Rightarrow> bool" where
  "options_change_ok x \<longleftrightarrow> oc_from x \<noteq> None \<and>
     oc_to x \<noteq> None"

definition tasks_ok :: "TasksData \<Rightarrow> bool" where
  "tasks_ok x \<longleftrightarrow> int64_ok (td_revision x)"

definition status_ok :: "StatusData \<Rightarrow> bool" where
  "status_ok x \<longleftrightarrow> st_data x \<noteq> None"

definition budget_ok :: "BudgetData \<Rightarrow> bool" where
  "budget_ok x \<longleftrightarrow> int64_ok (bd_turns x) \<and>
     int64_ok (bd_tokens x) \<and>
     (float_zero (bd_usd x) \<longrightarrow> bd_usd x = ''0'')"

definition report_tasks_ok :: "ReportTasks \<Rightarrow> bool" where
  "report_tasks_ok x \<longleftrightarrow> int64_ok (rt_total x) \<and>
     int64_ok (rt_done x)"

definition report_ok :: "ReportData \<Rightarrow> bool" where
  "report_ok x \<longleftrightarrow> report_tasks_ok (rp_tasks x)"

section \<open>DecodeData\<close>

datatype event_data =
    DSession SessionData
  | DMessage MessageData
  | DThinking ThinkingData
  | DToolCall ToolCallData
  | DToolResult ToolResultData
  | DOptionsChange OptionsChangeData
  | DStateChange StateChangeData
  | DCompaction CompactionData
  | DContext ContextData
  | DTasks TasksData
  | DGoal GoalData
  | DCheck CheckData
  | DStopVeto StopVetoData
  | DBudget BudgetData
  | DNotice NoticeData
  | DReport ReportData
  | DStatus StatusData

text \<open>The target of each type; \<open>None\<close> outside the list of types.\<close>

definition payload_decoder :: "string \<Rightarrow> (json \<Rightarrow> event_data option) option" where
  "payload_decoder t = map_of
     [(''session'', \<lambda>v. map_option DSession (dec_struct session_fields session_zero v)),
      (''message'', \<lambda>v. map_option DMessage (dec_struct message_fields message_zero v)),
      (''tool_call'', \<lambda>v. map_option DToolCall (dec_struct tool_call_fields tool_call_zero v)),
      (''tool_result'', \<lambda>v. map_option DToolResult (dec_struct tool_result_fields tool_result_zero v)),
      (''options_change'', \<lambda>v. map_option DOptionsChange (dec_struct options_change_fields options_change_zero v)),
      (''state_change'', \<lambda>v. map_option DStateChange (dec_struct state_change_fields state_change_zero v)),
      (''thinking'', \<lambda>v. map_option DThinking (dec_struct thinking_fields thinking_zero v)),
      (''compaction'', \<lambda>v. map_option DCompaction (dec_struct compaction_fields compaction_zero v)),
      (''context'', \<lambda>v. map_option DContext (dec_struct context_fields context_zero v)),
      (''tasks'', \<lambda>v. map_option DTasks (dec_struct tasks_fields tasks_zero v)),
      (''goal'', \<lambda>v. map_option DGoal (dec_struct goal_fields goal_zero v)),
      (''check'', \<lambda>v. map_option DCheck (dec_struct check_fields check_zero v)),
      (''stop_veto'', \<lambda>v. map_option DStopVeto (dec_struct stop_veto_fields stop_veto_zero v)),
      (''budget'', \<lambda>v. map_option DBudget (dec_struct budget_fields budget_zero v)),
      (''notice'', \<lambda>v. map_option DNotice (dec_struct notice_fields notice_zero v)),
      (''report'', \<lambda>v. map_option DReport (dec_struct report_fields report_zero v)),
      (''status'', \<lambda>v. map_option DStatus (dec_struct status_fields status_zero v))] t"

text \<open>The text of an \<open>Unmarshal\<close> error is the library's; \<open>json_error\<close> stands for it.\<close>

definition json_error :: string where
  "json_error = ''json: cannot unmarshal''"

definition DecodeData :: "Event \<Rightarrow> err + event_data" where
  "DecodeData e =
     (case payload_decoder (ev_type e) of
        None \<Rightarrow> Inl (''event '' @ ev_id e @ '': unknown type '' @ fmt_q (ev_type e))
      | Some d \<Rightarrow>
          (case ev_data e of
             None \<Rightarrow> Inl (''event '' @ ev_id e @ '' ('' @ ev_type e @ ''): '' @ json_error)
           | Some v \<Rightarrow>
               (case d v of
                  None \<Rightarrow> Inl (''event '' @ ev_id e @ '' ('' @ ev_type e @ ''): '' @ json_error)
                | Some p \<Rightarrow> Inr p)))"

text \<open>\<open>MustData[T]\<close>: the selector is the type assertion on the decoded value.\<close>

definition MustData :: "(event_data \<Rightarrow> 'a option) \<Rightarrow> Event \<Rightarrow> 'a option" where
  "MustData sel e = (case DecodeData e of Inl _ \<Rightarrow> None | Inr d \<Rightarrow> sel d)"

text \<open>The type assertions.\<close>

definition as_session :: "event_data \<Rightarrow> SessionData option" where
  "as_session d = (case d of DSession x \<Rightarrow> Some x | _ \<Rightarrow> None)"

definition as_message :: "event_data \<Rightarrow> MessageData option" where
  "as_message d = (case d of DMessage x \<Rightarrow> Some x | _ \<Rightarrow> None)"

definition as_tool_call :: "event_data \<Rightarrow> ToolCallData option" where
  "as_tool_call d = (case d of DToolCall x \<Rightarrow> Some x | _ \<Rightarrow> None)"

definition as_tool_result :: "event_data \<Rightarrow> ToolResultData option" where
  "as_tool_result d = (case d of DToolResult x \<Rightarrow> Some x | _ \<Rightarrow> None)"

definition as_options_change :: "event_data \<Rightarrow> OptionsChangeData option" where
  "as_options_change d = (case d of DOptionsChange x \<Rightarrow> Some x | _ \<Rightarrow> None)"

definition as_state_change :: "event_data \<Rightarrow> StateChangeData option" where
  "as_state_change d = (case d of DStateChange x \<Rightarrow> Some x | _ \<Rightarrow> None)"

definition as_compaction :: "event_data \<Rightarrow> CompactionData option" where
  "as_compaction d = (case d of DCompaction x \<Rightarrow> Some x | _ \<Rightarrow> None)"

definition as_context :: "event_data \<Rightarrow> ContextData option" where
  "as_context d = (case d of DContext x \<Rightarrow> Some x | _ \<Rightarrow> None)"

definition as_tasks :: "event_data \<Rightarrow> TasksData option" where
  "as_tasks d = (case d of DTasks x \<Rightarrow> Some x | _ \<Rightarrow> None)"

definition as_goal :: "event_data \<Rightarrow> GoalData option" where
  "as_goal d = (case d of DGoal x \<Rightarrow> Some x | _ \<Rightarrow> None)"

definition as_check :: "event_data \<Rightarrow> CheckData option" where
  "as_check d = (case d of DCheck x \<Rightarrow> Some x | _ \<Rightarrow> None)"

definition as_stop_veto :: "event_data \<Rightarrow> StopVetoData option" where
  "as_stop_veto d = (case d of DStopVeto x \<Rightarrow> Some x | _ \<Rightarrow> None)"

definition as_budget :: "event_data \<Rightarrow> BudgetData option" where
  "as_budget d = (case d of DBudget x \<Rightarrow> Some x | _ \<Rightarrow> None)"

definition as_status :: "event_data \<Rightarrow> StatusData option" where
  "as_status d = (case d of DStatus x \<Rightarrow> Some x | _ \<Rightarrow> None)"

lemmas as_defs =
  as_session_def as_message_def as_tool_call_def as_tool_result_def as_options_change_def as_state_change_def as_compaction_def as_context_def as_tasks_def as_goal_def as_check_def as_stop_veto_def as_budget_def as_status_def

fun payload_type :: "event_data \<Rightarrow> string" where
  "payload_type (DSession _) = ''session''"
| "payload_type (DMessage _) = ''message''"
| "payload_type (DThinking _) = ''thinking''"
| "payload_type (DToolCall _) = ''tool_call''"
| "payload_type (DToolResult _) = ''tool_result''"
| "payload_type (DOptionsChange _) = ''options_change''"
| "payload_type (DStateChange _) = ''state_change''"
| "payload_type (DCompaction _) = ''compaction''"
| "payload_type (DContext _) = ''context''"
| "payload_type (DTasks _) = ''tasks''"
| "payload_type (DGoal _) = ''goal''"
| "payload_type (DCheck _) = ''check''"
| "payload_type (DStopVeto _) = ''stop_veto''"
| "payload_type (DBudget _) = ''budget''"
| "payload_type (DNotice _) = ''notice''"
| "payload_type (DReport _) = ''report''"
| "payload_type (DStatus _) = ''status''"

fun enc_payload :: "event_data \<Rightarrow> json" where
  "enc_payload (DSession x) = enc_session x"
| "enc_payload (DMessage x) = enc_message x"
| "enc_payload (DThinking x) = enc_thinking x"
| "enc_payload (DToolCall x) = enc_tool_call x"
| "enc_payload (DToolResult x) = enc_tool_result x"
| "enc_payload (DOptionsChange x) = enc_options_change x"
| "enc_payload (DStateChange x) = enc_state_change x"
| "enc_payload (DCompaction x) = enc_compaction x"
| "enc_payload (DContext x) = enc_context x"
| "enc_payload (DTasks x) = enc_tasks x"
| "enc_payload (DGoal x) = enc_goal x"
| "enc_payload (DCheck x) = enc_check x"
| "enc_payload (DStopVeto x) = enc_stop_veto x"
| "enc_payload (DBudget x) = enc_budget x"
| "enc_payload (DNotice x) = enc_notice x"
| "enc_payload (DReport x) = enc_report x"
| "enc_payload (DStatus x) = enc_status x"

fun payload_ok :: "event_data \<Rightarrow> bool" where
  "payload_ok (DSession x) = session_ok x"
| "payload_ok (DMessage x) = message_ok x"
| "payload_ok (DToolCall x) = tool_call_ok x"
| "payload_ok (DToolResult x) = tool_result_ok x"
| "payload_ok (DOptionsChange x) = options_change_ok x"
| "payload_ok (DTasks x) = tasks_ok x"
| "payload_ok (DBudget x) = budget_ok x"
| "payload_ok (DReport x) = report_ok x"
| "payload_ok (DStatus x) = status_ok x"
| "payload_ok _ = True"

section \<open>Every payload decodes back\<close>

lemma dec_strs_enc [decode_simps]: "dec_strs old (enc_strs ss) = Some ss"
  by (simp add: dec_strs_def enc_strs_def dec_slice_def dec_list_strs slice_def)

lemma dec_ptr_enc [decode_simps]:
  "(\<And>x. p = Some x \<Longrightarrow> e x \<noteq> JNull \<and> d zero (e x) = Some x) \<Longrightarrow> dec_ptr d zero None (enc_ptr e p) = Some p"
  by (cases p) (simp_all add: dec_ptr_def enc_ptr_def)

lemma field_for_Cons [decode_simps]:
  "j \<noteq> k \<Longrightarrow> k \<in> fst ` set fs \<Longrightarrow> field_for ((j, f) # fs) k = field_for fs k"
  by (force simp: field_for_def find_None_iff split: option.splits)

lemma dec_struct_JObj [decode_simps]: "dec_struct fs r (JObj ms) = dec_obj fs r ms"
  by (simp add: dec_struct_def)

lemma enc_raw_back [decode_simps]: "r \<noteq> None \<Longrightarrow> Some (enc_raw r) = r"
  by (cases r) (simp_all add: enc_raw_def)

lemma dec_slice_array:
  "(\<And>x. x \<in> set xs \<Longrightarrow> d zero (e x) = Some x) \<Longrightarrow> dec_slice d zero (JArr (map e xs)) = Some (Some xs)"
  using dec_slice_enc [of "Some xs" d zero e] by (simp add: enc_slice_def slice_def)

lemma slice_Some [decode_simps]: "slice (Some xs) = xs"
  by (simp add: slice_def)

lemma dec_slice_strs [decode_simps]: "dec_slice dec_str [] (enc_slice JStr s) = Some s"
  by (rule dec_slice_enc) (simp add: dec_str_def)

lemma enc_struct_not_null [simp]:
  "enc_usage u \<noteq> JNull" "enc_report_goal g \<noteq> JNull"
  by (simp_all add: enc_usage_def enc_report_goal_def)

lemma enc_int_not_null [simp]: "enc_int i \<noteq> JNull"
  by (simp add: enc_int_def)

lemma dec_options [decode_simps]:
  "dec_struct options_fields options_zero (enc_options x) = Some x"
  by (cases x) (simp add: options_fields_def options_zero_def enc_options_def decode_simps)

lemma dec_session [decode_simps]:
  "session_ok x \<Longrightarrow> dec_struct session_fields session_zero (enc_session x) = Some x"
  by (cases x) (simp add: session_fields_def session_zero_def enc_session_def session_ok_def decode_simps)

lemma dec_usage [decode_simps]:
  "usage_ok x \<Longrightarrow> dec_struct usage_fields usage_zero (enc_usage x) = Some x"
  by (cases x) (simp add: usage_fields_def usage_zero_def enc_usage_def usage_ok_def decode_simps)

lemma dec_message [decode_simps]:
  "message_ok x \<Longrightarrow> dec_struct message_fields message_zero (enc_message x) = Some x"
  by (cases x) (simp add: message_fields_def message_zero_def enc_message_def message_ok_def decode_simps)

lemma dec_tool_call [decode_simps]:
  "tool_call_ok x \<Longrightarrow> dec_struct tool_call_fields tool_call_zero (enc_tool_call x) = Some x"
  by (cases x) (simp add: tool_call_fields_def tool_call_zero_def enc_tool_call_def tool_call_ok_def decode_simps)

lemma dec_tool_result [decode_simps]:
  "tool_result_ok x \<Longrightarrow> dec_struct tool_result_fields tool_result_zero (enc_tool_result x) = Some x"
  by (cases x) (simp add: tool_result_fields_def tool_result_zero_def enc_tool_result_def tool_result_ok_def decode_simps)

lemma dec_options_change [decode_simps]:
  "options_change_ok x \<Longrightarrow> dec_struct options_change_fields options_change_zero (enc_options_change x) = Some x"
  by (cases x) (simp add: options_change_fields_def options_change_zero_def enc_options_change_def options_change_ok_def decode_simps)

lemma dec_state_change [decode_simps]:
  "dec_struct state_change_fields state_change_zero (enc_state_change x) = Some x"
  by (cases x) (simp add: state_change_fields_def state_change_zero_def enc_state_change_def decode_simps)

lemma dec_compaction [decode_simps]:
  "dec_struct compaction_fields compaction_zero (enc_compaction x) = Some x"
  by (cases x) (simp add: compaction_fields_def compaction_zero_def enc_compaction_def decode_simps)

lemma dec_context [decode_simps]:
  "dec_struct context_fields context_zero (enc_context x) = Some x"
  by (cases x) (simp add: context_fields_def context_zero_def enc_context_def decode_simps)

lemma dec_task [decode_simps]:
  "dec_struct task_fields task_zero (enc_task x) = Some x"
  by (cases x) (simp add: task_fields_def task_zero_def enc_task_def decode_simps)

lemma dec_tasks [decode_simps]:
  "tasks_ok x \<Longrightarrow> dec_struct tasks_fields tasks_zero (enc_tasks x) = Some x"
  by (cases x) (simp add: tasks_fields_def tasks_zero_def enc_tasks_def tasks_ok_def decode_simps dec_slice_array)

lemma dec_goal [decode_simps]:
  "dec_struct goal_fields goal_zero (enc_goal x) = Some x"
  by (cases x) (simp add: goal_fields_def goal_zero_def enc_goal_def decode_simps)

lemma dec_status [decode_simps]:
  "status_ok x \<Longrightarrow> dec_struct status_fields status_zero (enc_status x) = Some x"
  by (cases x) (simp add: status_fields_def status_zero_def enc_status_def status_ok_def decode_simps)

lemma dec_check [decode_simps]:
  "dec_struct check_fields check_zero (enc_check x) = Some x"
  by (cases x) (simp add: check_fields_def check_zero_def enc_check_def decode_simps)

lemma dec_stop_veto [decode_simps]:
  "dec_struct stop_veto_fields stop_veto_zero (enc_stop_veto x) = Some x"
  by (cases x) (simp add: stop_veto_fields_def stop_veto_zero_def enc_stop_veto_def decode_simps)

lemma dec_budget [decode_simps]:
  "budget_ok x \<Longrightarrow> dec_struct budget_fields budget_zero (enc_budget x) = Some x"
  by (cases x) (simp add: budget_fields_def budget_zero_def enc_budget_def budget_ok_def decode_simps)

lemma dec_thinking [decode_simps]:
  "dec_struct thinking_fields thinking_zero (enc_thinking x) = Some x"
  by (cases x) (simp add: thinking_fields_def thinking_zero_def enc_thinking_def decode_simps)

lemma dec_notice [decode_simps]:
  "dec_struct notice_fields notice_zero (enc_notice x) = Some x"
  by (cases x) (simp add: notice_fields_def notice_zero_def enc_notice_def decode_simps)

lemma dec_report_goal [decode_simps]:
  "dec_struct report_goal_fields report_goal_zero (enc_report_goal x) = Some x"
  by (cases x) (simp add: report_goal_fields_def report_goal_zero_def enc_report_goal_def decode_simps)

lemma dec_report_ref [decode_simps]:
  "dec_struct report_ref_fields report_ref_zero (enc_report_ref x) = Some x"
  by (cases x) (simp add: report_ref_fields_def report_ref_zero_def enc_report_ref_def decode_simps)

lemma dec_report_tasks [decode_simps]:
  "report_tasks_ok x \<Longrightarrow> dec_struct report_tasks_fields report_tasks_zero (enc_report_tasks x) = Some x"
  by (cases x) (simp add: report_tasks_fields_def report_tasks_zero_def enc_report_tasks_def report_tasks_ok_def decode_simps dec_slice_enc)

lemma dec_report_check [decode_simps]:
  "dec_struct report_check_fields report_check_zero (enc_report_check x) = Some x"
  by (cases x) (simp add: report_check_fields_def report_check_zero_def enc_report_check_def decode_simps)

lemma dec_report [decode_simps]:
  "report_ok x \<Longrightarrow> dec_struct report_fields report_zero (enc_report x) = Some x"
  by (cases x) (simp add: report_fields_def report_zero_def enc_report_def report_ok_def decode_simps dec_slice_enc)

lemma DecodeData_payload:
  assumes "payload_ok p" "ev_type e = payload_type p" "ev_data e = Some (enc_payload p)"
  shows "DecodeData e = Inr p"
  using assms by (cases p) (simp_all add: DecodeData_def payload_decoder_def decode_simps)

section \<open>Unknown members are ignored\<close>

text \<open>The JSON names of a payload's fields.\<close>

fun payload_keys :: "event_data \<Rightarrow> string list" where
  "payload_keys (DSession _) = map fst session_fields"
| "payload_keys (DMessage _) = map fst message_fields"
| "payload_keys (DThinking _) = map fst thinking_fields"
| "payload_keys (DToolCall _) = map fst tool_call_fields"
| "payload_keys (DToolResult _) = map fst tool_result_fields"
| "payload_keys (DOptionsChange _) = map fst options_change_fields"
| "payload_keys (DStateChange _) = map fst state_change_fields"
| "payload_keys (DCompaction _) = map fst compaction_fields"
| "payload_keys (DContext _) = map fst context_fields"
| "payload_keys (DTasks _) = map fst tasks_fields"
| "payload_keys (DGoal _) = map fst goal_fields"
| "payload_keys (DCheck _) = map fst check_fields"
| "payload_keys (DStopVeto _) = map fst stop_veto_fields"
| "payload_keys (DBudget _) = map fst budget_fields"
| "payload_keys (DNotice _) = map fst notice_fields"
| "payload_keys (DReport _) = map fst report_fields"
| "payload_keys (DStatus _) = map fst status_fields"

lemma field_for_None:
  "field_for fs k = None \<longleftrightarrow> (\<forall>j \<in> fst ` set fs. map lower_char j \<noteq> map lower_char k)"
proof (cases "List.find (\<lambda>f. fst f = k) fs")
  case None
  show ?thesis unfolding field_for_def None by (auto simp: find_None_iff)
next
  case (Some f)
  then have "f \<in> set fs" "fst f = k" by (auto simp: find_Some_iff)
  then show ?thesis using Some by (auto simp: field_for_def)
qed

lemma dec_obj_unknown:
  "\<forall>m \<in> set ms. field_for fs (fst m) = None \<Longrightarrow> dec_obj fs r ms = Some r"
  by (induction ms arbitrary: r) (auto simp: dec_obj_Nil dec_obj_Cons)

lemma dec_struct_unknown:
  assumes "dec_struct fs r (JObj ms) = Some x"
    and "\<forall>m \<in> set extra. \<forall>k \<in> set (map fst fs). map lower_char k \<noteq> map lower_char (fst m)"
  shows "dec_struct fs r (JObj (ms @ extra)) = Some x"
  using assms by (simp add: dec_struct_JObj dec_obj_append dec_obj_unknown field_for_None)

lemma map_dec_struct_unknown:
  assumes "map_option c (dec_struct fs r (JObj ms)) = Some x"
    and "\<forall>m \<in> set extra. \<forall>k \<in> set (map fst fs). map lower_char k \<noteq> map lower_char (fst m)"
  shows "map_option c (dec_struct fs r (JObj (ms @ extra))) = Some x"
  using assms dec_struct_unknown by fastforce

lemma payload_decoder_known:
  assumes "payload_ok p"
  shows "\<exists>d. payload_decoder (payload_type p) = Some d \<and> d (enc_payload p) = Some p"
  using assms by (cases p) (simp_all add: payload_decoder_def decode_simps)

lemma payload_decoder_unknown:
  assumes d: "payload_decoder (payload_type p) = Some d" "d (JObj ms) = Some p"
    and new: "\<forall>m \<in> set extra. \<forall>k \<in> set (payload_keys p). map lower_char k \<noteq> map lower_char (fst m)"
  shows "d (JObj (ms @ extra)) = Some p"
  using assms
  by (cases p) (auto simp: payload_decoder_def simp del: set_map intro: dec_struct_unknown)

section \<open>What json.Marshal makes of a string\<close>

text \<open>A byte that is not part of a UTF-8 sequence is written as U+FFFD.\<close>

definition coerce_utf8 :: "string \<Rightarrow> string" where
  "coerce_utf8 s = concat (runes s)"

function valid_utf8 :: "string \<Rightarrow> bool" where
  "valid_utf8 s =
     (if s = [] then True
      else if utf8_width s = 0 then False
      else valid_utf8 (drop (utf8_width s) s))"
  by auto

termination by (relation "measure length") auto

declare valid_utf8.simps [simp del]

lemma coerce_utf8_Nil [simp]: "coerce_utf8 s = [] \<longleftrightarrow> s = []"
  by (subst coerce_utf8_def, subst runes.simps) (auto simp: Let_def)

lemma coerce_utf8_step:
  "s \<noteq> [] \<Longrightarrow> coerce_utf8 s = (if utf8_width s = 0 then [CHR 0xEF, CHR 0xBF, CHR 0xBD] @ coerce_utf8 (tl s)
     else take (utf8_width s) s @ coerce_utf8 (drop (utf8_width s) s))"
  unfolding coerce_utf8_def by (subst runes.simps) (simp add: Let_def)

lemma replacement_width: "utf8_width (CHR 0xEF # CHR 0xBF # CHR 0xBD # s) = 3"
  by (simp add: in_range_def)

text \<open>Exactly the valid strings are written as they are.\<close>

lemma coerce_utf8_id: "coerce_utf8 s = s \<longleftrightarrow> valid_utf8 s"
proof (induction s rule: valid_utf8.induct)
  case (1 s)
  show ?case
  proof (cases "s = []")
    case False
    note c = coerce_utf8_step [OF False]
    show ?thesis
    proof (cases "utf8_width s = 0")
      case True
      have "coerce_utf8 s \<noteq> s"
      proof
        assume "coerce_utf8 s = s"
        then have "s = CHR 0xEF # CHR 0xBF # CHR 0xBD # coerce_utf8 (tl s)" using c True by simp
        then have "utf8_width s = 3" using replacement_width by metis
        then show False using True by simp
      qed
      then show ?thesis using True False by (subst valid_utf8.simps) simp
    next
      case wd: False
      have "coerce_utf8 s = s \<longleftrightarrow> coerce_utf8 (drop (utf8_width s) s) = drop (utf8_width s) s"
        unfolding c using wd by (metis append_take_drop_id same_append_eq)
      then show ?thesis using 1 wd False by (subst valid_utf8.simps) simp
    qed
  qed (simp add: valid_utf8.simps)
qed

text \<open>The strings of each struct: a function applied to all of them, and their list. Raw members and the literals of
  numbers are copied as they are.\<close>

definition opt_list :: "'a option \<Rightarrow> 'a list" where
  "opt_list x = (case x of None \<Rightarrow> [] | Some y \<Rightarrow> [y])"

definition map_options :: "(string \<Rightarrow> string) \<Rightarrow> Options \<Rightarrow> Options" where
  "map_options f x = x\<lparr>op_model := f (op_model x), op_mode := f (op_mode x),
     op_parent := f (op_parent x), op_labels := map f (op_labels x), op_description := f (op_description x),
     op_context := f (op_context x), op_effort := f (op_effort x)\<rparr>"

definition map_session :: "(string \<Rightarrow> string) \<Rightarrow> SessionData \<Rightarrow> SessionData" where
  "map_session f x = x\<lparr>sd_workspace := f (sd_workspace x), sd_key := f (sd_key x),
     sd_options := map_options f (sd_options x)\<rparr>"

definition map_message :: "(string \<Rightarrow> string) \<Rightarrow> MessageData \<Rightarrow> MessageData" where
  "map_message f x = x\<lparr>msg_role := f (msg_role x), msg_content := f (msg_content x),
     msg_client := f (msg_client x)\<rparr>"

definition map_thinking :: "(string \<Rightarrow> string) \<Rightarrow> ThinkingData \<Rightarrow> ThinkingData" where
  "map_thinking f x = x\<lparr>th_content := f (th_content x), th_source := f (th_source x)\<rparr>"

definition map_tool_call :: "(string \<Rightarrow> string) \<Rightarrow> ToolCallData \<Rightarrow> ToolCallData" where
  "map_tool_call f x = x\<lparr>tc_call := f (tc_call x), tc_tool := f (tc_tool x), tc_source := f (tc_source x)\<rparr>"

definition map_tool_result :: "(string \<Rightarrow> string) \<Rightarrow> ToolResultData \<Rightarrow> ToolResultData" where
  "map_tool_result f x = x\<lparr>tr_call := f (tr_call x), tr_tool := f (tr_tool x),
     tr_content := f (tr_content x), tr_status := f (tr_status x), tr_kind := f (tr_kind x)\<rparr>"

definition map_options_change :: "(string \<Rightarrow> string) \<Rightarrow> OptionsChangeData \<Rightarrow> OptionsChangeData" where
  "map_options_change f x = x\<lparr>oc_key := f (oc_key x), oc_source := f (oc_source x)\<rparr>"

definition map_state_change :: "(string \<Rightarrow> string) \<Rightarrow> StateChangeData \<Rightarrow> StateChangeData" where
  "map_state_change f x = x\<lparr>sc_from := map_option f (sc_from x), sc_to := f (sc_to x),
     sc_reason := f (sc_reason x)\<rparr>"

definition map_compaction :: "(string \<Rightarrow> string) \<Rightarrow> CompactionData \<Rightarrow> CompactionData" where
  "map_compaction f x = x\<lparr>cp_mode := f (cp_mode x), cp_start := f (cp_start x), cp_end := f (cp_end x),
     cp_summary := f (cp_summary x)\<rparr>"

definition map_context :: "(string \<Rightarrow> string) \<Rightarrow> ContextData \<Rightarrow> ContextData" where
  "map_context f x = x\<lparr>cx_source := f (cx_source x), cx_slot := f (cx_slot x),
     cx_content := f (cx_content x)\<rparr>"

definition map_task :: "(string \<Rightarrow> string) \<Rightarrow> Task \<Rightarrow> Task" where
  "map_task f x = x\<lparr>tk_id := f (tk_id x), tk_title := f (tk_title x), tk_status := f (tk_status x),
     tk_done_when := f (tk_done_when x), tk_check := f (tk_check x),
     tk_blocked := map_option (map f) (tk_blocked x), tk_note := f (tk_note x), tk_evidence := f (tk_evidence x)\<rparr>"

definition map_tasks :: "(string \<Rightarrow> string) \<Rightarrow> TasksData \<Rightarrow> TasksData" where
  "map_tasks f x = x\<lparr>td_source := f (td_source x), td_tasks := map (map_task f) (td_tasks x)\<rparr>"

definition map_goal :: "(string \<Rightarrow> string) \<Rightarrow> GoalData \<Rightarrow> GoalData" where
  "map_goal f x = x\<lparr>gl_condition := f (gl_condition x), gl_state := f (gl_state x),
     gl_reason := f (gl_reason x), gl_source := f (gl_source x)\<rparr>"

definition map_check :: "(string \<Rightarrow> string) \<Rightarrow> CheckData \<Rightarrow> CheckData" where
  "map_check f x = x\<lparr>ck_name := f (ck_name x), ck_kind := f (ck_kind x), ck_task := f (ck_task x),
     ck_status := f (ck_status x), ck_summary := f (ck_summary x), ck_output := f (ck_output x)\<rparr>"

definition map_stop_veto :: "(string \<Rightarrow> string) \<Rightarrow> StopVetoData \<Rightarrow> StopVetoData" where
  "map_stop_veto f x = x\<lparr>sv_module := f (sv_module x), sv_reason := f (sv_reason x)\<rparr>"

definition map_budget :: "(string \<Rightarrow> string) \<Rightarrow> BudgetData \<Rightarrow> BudgetData" where
  "map_budget f x = x\<lparr>bd_source := f (bd_source x)\<rparr>"

definition map_notice :: "(string \<Rightarrow> string) \<Rightarrow> NoticeData \<Rightarrow> NoticeData" where
  "map_notice f x = x\<lparr>nt_source := f (nt_source x), nt_level := f (nt_level x),
     nt_message := f (nt_message x)\<rparr>"

definition map_report_goal :: "(string \<Rightarrow> string) \<Rightarrow> ReportGoal \<Rightarrow> ReportGoal" where
  "map_report_goal f x = x\<lparr>rg_condition := f (rg_condition x), rg_state := f (rg_state x),
     rg_reason := f (rg_reason x)\<rparr>"

definition map_report_ref :: "(string \<Rightarrow> string) \<Rightarrow> ReportTaskRef \<Rightarrow> ReportTaskRef" where
  "map_report_ref f x = x\<lparr>rr_id := f (rr_id x), rr_title := f (rr_title x), rr_status := f (rr_status x)\<rparr>"

definition map_report_tasks :: "(string \<Rightarrow> string) \<Rightarrow> ReportTasks \<Rightarrow> ReportTasks" where
  "map_report_tasks f x = x\<lparr>rt_open := map_option (map (map_report_ref f)) (rt_open x)\<rparr>"

definition map_report_check :: "(string \<Rightarrow> string) \<Rightarrow> ReportCheck \<Rightarrow> ReportCheck" where
  "map_report_check f x = x\<lparr>rk_name := f (rk_name x), rk_status := f (rk_status x),
     rk_summary := f (rk_summary x)\<rparr>"

definition map_report :: "(string \<Rightarrow> string) \<Rightarrow> ReportData \<Rightarrow> ReportData" where
  "map_report f x = x\<lparr>rp_exit := f (rp_exit x), rp_goal := map_option (map_report_goal f) (rp_goal x),
     rp_tasks := map_report_tasks f (rp_tasks x),
     rp_checks := map_option (map (map_report_check f)) (rp_checks x), rp_files := map f (rp_files x),
     rp_commits := map f (rp_commits x)\<rparr>"

definition map_status :: "(string \<Rightarrow> string) \<Rightarrow> StatusData \<Rightarrow> StatusData" where
  "map_status f x = x\<lparr>st_source := f (st_source x), st_kind := f (st_kind x)\<rparr>"

definition options_texts :: "Options \<Rightarrow> string list" where
  "options_texts x = [op_model x, op_mode x, op_parent x] @ op_labels x @
     [op_description x, op_context x, op_effort x]"

definition session_texts :: "SessionData \<Rightarrow> string list" where
  "session_texts x = [sd_workspace x, sd_key x] @ options_texts (sd_options x)"

definition message_texts :: "MessageData \<Rightarrow> string list" where
  "message_texts x = [msg_role x, msg_content x, msg_client x]"

definition thinking_texts :: "ThinkingData \<Rightarrow> string list" where
  "thinking_texts x = [th_content x, th_source x]"

definition tool_call_texts :: "ToolCallData \<Rightarrow> string list" where
  "tool_call_texts x = [tc_call x, tc_tool x, tc_source x]"

definition tool_result_texts :: "ToolResultData \<Rightarrow> string list" where
  "tool_result_texts x = [tr_call x, tr_tool x, tr_content x, tr_status x, tr_kind x]"

definition options_change_texts :: "OptionsChangeData \<Rightarrow> string list" where
  "options_change_texts x = [oc_key x, oc_source x]"

definition state_change_texts :: "StateChangeData \<Rightarrow> string list" where
  "state_change_texts x = opt_list (sc_from x) @ [sc_to x, sc_reason x]"

definition compaction_texts :: "CompactionData \<Rightarrow> string list" where
  "compaction_texts x = [cp_mode x, cp_start x, cp_end x, cp_summary x]"

definition context_texts :: "ContextData \<Rightarrow> string list" where
  "context_texts x = [cx_source x, cx_slot x, cx_content x]"

definition task_texts :: "Task \<Rightarrow> string list" where
  "task_texts x = [tk_id x, tk_title x, tk_status x, tk_done_when x, tk_check x] @ slice (tk_blocked x) @
     [tk_note x, tk_evidence x]"

definition tasks_texts :: "TasksData \<Rightarrow> string list" where
  "tasks_texts x = [td_source x] @ concat (map task_texts (td_tasks x))"

definition goal_texts :: "GoalData \<Rightarrow> string list" where
  "goal_texts x = [gl_condition x, gl_state x, gl_reason x, gl_source x]"

definition check_texts :: "CheckData \<Rightarrow> string list" where
  "check_texts x = [ck_name x, ck_kind x, ck_task x, ck_status x, ck_summary x, ck_output x]"

definition stop_veto_texts :: "StopVetoData \<Rightarrow> string list" where
  "stop_veto_texts x = [sv_module x, sv_reason x]"

definition budget_texts :: "BudgetData \<Rightarrow> string list" where
  "budget_texts x = [bd_source x]"

definition notice_texts :: "NoticeData \<Rightarrow> string list" where
  "notice_texts x = [nt_source x, nt_level x, nt_message x]"

definition report_goal_texts :: "ReportGoal \<Rightarrow> string list" where
  "report_goal_texts x = [rg_condition x, rg_state x, rg_reason x]"

definition report_ref_texts :: "ReportTaskRef \<Rightarrow> string list" where
  "report_ref_texts x = [rr_id x, rr_title x, rr_status x]"

definition report_tasks_texts :: "ReportTasks \<Rightarrow> string list" where
  "report_tasks_texts x = concat (map report_ref_texts (slice (rt_open x)))"

definition report_check_texts :: "ReportCheck \<Rightarrow> string list" where
  "report_check_texts x = [rk_name x, rk_status x, rk_summary x]"

definition report_texts :: "ReportData \<Rightarrow> string list" where
  "report_texts x = [rp_exit x] @ concat (map report_goal_texts (opt_list (rp_goal x))) @
     report_tasks_texts (rp_tasks x) @ concat (map report_check_texts (slice (rp_checks x))) @ rp_files x @
     rp_commits x"

definition status_texts :: "StatusData \<Rightarrow> string list" where
  "status_texts x = [st_source x, st_kind x]"

fun map_payload :: "(string \<Rightarrow> string) \<Rightarrow> event_data \<Rightarrow> event_data" where
  "map_payload f (DSession x) = DSession (map_session f x)"
| "map_payload f (DMessage x) = DMessage (map_message f x)"
| "map_payload f (DThinking x) = DThinking (map_thinking f x)"
| "map_payload f (DToolCall x) = DToolCall (map_tool_call f x)"
| "map_payload f (DToolResult x) = DToolResult (map_tool_result f x)"
| "map_payload f (DOptionsChange x) = DOptionsChange (map_options_change f x)"
| "map_payload f (DStateChange x) = DStateChange (map_state_change f x)"
| "map_payload f (DCompaction x) = DCompaction (map_compaction f x)"
| "map_payload f (DContext x) = DContext (map_context f x)"
| "map_payload f (DTasks x) = DTasks (map_tasks f x)"
| "map_payload f (DGoal x) = DGoal (map_goal f x)"
| "map_payload f (DCheck x) = DCheck (map_check f x)"
| "map_payload f (DStopVeto x) = DStopVeto (map_stop_veto f x)"
| "map_payload f (DBudget x) = DBudget (map_budget f x)"
| "map_payload f (DNotice x) = DNotice (map_notice f x)"
| "map_payload f (DReport x) = DReport (map_report f x)"
| "map_payload f (DStatus x) = DStatus (map_status f x)"

fun payload_texts :: "event_data \<Rightarrow> string list" where
  "payload_texts (DSession x) = session_texts x"
| "payload_texts (DMessage x) = message_texts x"
| "payload_texts (DThinking x) = thinking_texts x"
| "payload_texts (DToolCall x) = tool_call_texts x"
| "payload_texts (DToolResult x) = tool_result_texts x"
| "payload_texts (DOptionsChange x) = options_change_texts x"
| "payload_texts (DStateChange x) = state_change_texts x"
| "payload_texts (DCompaction x) = compaction_texts x"
| "payload_texts (DContext x) = context_texts x"
| "payload_texts (DTasks x) = tasks_texts x"
| "payload_texts (DGoal x) = goal_texts x"
| "payload_texts (DCheck x) = check_texts x"
| "payload_texts (DStopVeto x) = stop_veto_texts x"
| "payload_texts (DBudget x) = budget_texts x"
| "payload_texts (DNotice x) = notice_texts x"
| "payload_texts (DReport x) = report_texts x"
| "payload_texts (DStatus x) = status_texts x"

text \<open>What \<open>json.Marshal\<close> writes for a payload.\<close>

definition marshal_payload :: "event_data \<Rightarrow> json" where
  "marshal_payload p = enc_payload (map_payload coerce_utf8 p)"

lemmas map_struct_defs =
  map_options_def map_session_def map_message_def map_thinking_def map_tool_call_def map_tool_result_def
  map_options_change_def map_state_change_def map_compaction_def map_context_def map_task_def map_tasks_def
  map_goal_def map_check_def map_stop_veto_def map_budget_def map_notice_def map_report_goal_def
  map_report_ref_def map_report_tasks_def map_report_check_def map_report_def map_status_def

lemmas texts_defs = opt_list_def slice_def
  options_texts_def session_texts_def message_texts_def thinking_texts_def tool_call_texts_def
  tool_result_texts_def options_change_texts_def state_change_texts_def compaction_texts_def context_texts_def
  task_texts_def tasks_texts_def goal_texts_def check_texts_def stop_veto_texts_def budget_texts_def
  notice_texts_def report_goal_texts_def report_ref_texts_def report_tasks_texts_def report_check_texts_def
  report_texts_def status_texts_def

lemma map_payload_type [simp]:
  "payload_type (map_payload f p) = payload_type p" "payload_keys (map_payload f p) = payload_keys p"
  "payload_ok (map_payload f p) = payload_ok p"
  by (cases p; simp add: map_struct_defs session_ok_def message_ok_def tool_call_ok_def tool_result_ok_def options_change_ok_def
      tasks_ok_def budget_ok_def report_ok_def report_tasks_ok_def status_ok_def)+

lemma map_option_same: "(\<And>x. y = Some x \<Longrightarrow> g x = x) \<Longrightarrow> map_option g y = y"
  by (cases y) auto

lemma map_task_id: "\<forall>s \<in> set (task_texts x). f s = s \<Longrightarrow> map_task f x = x"
  by (cases x) (auto simp: map_task_def task_texts_def slice_def intro!: map_option_same map_idI)

lemma map_ref_id: "\<forall>s \<in> set (report_ref_texts x). f s = s \<Longrightarrow> map_report_ref f x = x"
  by (cases x) (simp add: map_report_ref_def texts_defs)

lemma map_check_id: "\<forall>s \<in> set (report_check_texts x). f s = s \<Longrightarrow> map_report_check f x = x"
  by (cases x) (simp add: map_report_check_def texts_defs)

lemma map_goal_id: "\<forall>s \<in> set (report_goal_texts x). f s = s \<Longrightarrow> map_report_goal f x = x"
  by (cases x) (simp add: map_report_goal_def texts_defs)

lemma map_options_id: "\<forall>s \<in> set (options_texts x). f s = s \<Longrightarrow> map_options f x = x"
  by (cases x) (simp add: map_options_def options_texts_def map_idI)

lemma map_report_tasks_id: "\<forall>s \<in> set (report_tasks_texts x). f s = s \<Longrightarrow> map_report_tasks f x = x"
  by (cases x) (auto simp: map_report_tasks_def report_tasks_texts_def slice_def intro!: map_option_same map_idI map_ref_id)

lemma map_report_id: "\<forall>s \<in> set (report_texts x). f s = s \<Longrightarrow> map_report f x = x"
  by (cases x) (auto simp: map_report_def report_texts_def slice_def opt_list_def
      intro!: map_option_same map_idI map_goal_id map_check_id map_report_tasks_id)

lemma map_payload_id: "\<forall>s \<in> set (payload_texts p). f s = s \<Longrightarrow> map_payload f p = p"
proof (cases p)
  case (DTasks x)
  moreover assume "\<forall>s \<in> set (payload_texts p). f s = s"
  ultimately show ?thesis by (cases x) (auto simp: map_tasks_def tasks_texts_def intro!: map_idI map_task_id)
next
  case (DStateChange x)
  moreover assume "\<forall>s \<in> set (payload_texts p). f s = s"
  ultimately show ?thesis by (cases x) (auto simp: map_state_change_def state_change_texts_def opt_list_def intro!: map_option_same)
qed (simp_all add: map_report_id map_session_def session_texts_def map_options_id map_message_def message_texts_def
    map_thinking_def thinking_texts_def map_tool_call_def tool_call_texts_def map_tool_result_def tool_result_texts_def
    map_options_change_def options_change_texts_def map_compaction_def compaction_texts_def map_context_def context_texts_def
    map_goal_def goal_texts_def map_check_def check_texts_def map_stop_veto_def stop_veto_texts_def map_budget_def budget_texts_def
    map_notice_def notice_texts_def map_status_def status_texts_def)

lemma marshal_valid: "\<forall>s \<in> set (payload_texts p). valid_utf8 s \<Longrightarrow> marshal_payload p = enc_payload p"
  using map_payload_id [of p coerce_utf8] by (simp add: marshal_payload_def coerce_utf8_id)

text \<open>C32: What \<open>DecodeData\<close> reads back from what \<open>json.Marshal\<close> wrote, for each event type: the payload with U+FFFD
  for each byte of its strings that is not UTF-8, and so the payload itself when its strings are valid; also when
  the data carries further members, as long as none has the name of a field.\<close>
theorem DecodeData_enc:
  assumes "payload_ok p" "marshal_payload p = JObj ms"
    and "\<forall>m \<in> set extra. \<forall>k \<in> set (payload_keys p). map lower_char k \<noteq> map lower_char (fst m)"
    and "ev_type e = payload_type p" "ev_data e = Some (JObj (ms @ extra))"
  shows "DecodeData e = Inr (map_payload coerce_utf8 p) \<and>
    ((\<forall>s \<in> set (payload_texts p). valid_utf8 s) \<longrightarrow> DecodeData e = Inr p)"
proof -
  let ?q = "map_payload coerce_utf8 p"
  have q: "payload_ok ?q" "enc_payload ?q = JObj ms" using assms(1,2) by (simp_all add: marshal_payload_def)
  obtain d where d: "payload_decoder (payload_type ?q) = Some d" "d (JObj ms) = Some ?q"
    using payload_decoder_known [OF q(1)] q(2) by auto
  then have "d (JObj (ms @ extra)) = Some ?q" by (rule payload_decoder_unknown) (simp add: assms(3))
  with d assms(4,5) have e: "DecodeData e = Inr ?q" by (simp add: DecodeData_def)
  moreover have "?q = p" if "\<forall>s \<in> set (payload_texts p). valid_utf8 s"
    using map_payload_id [of p coerce_utf8] that by (simp add: coerce_utf8_id)
  ultimately show ?thesis by simp
qed

lemma DecodeData_enc_witness:
  "DecodeData \<lparr>ev_id = ''x'', ev_parent = None, ev_time = 0, ev_type = ''goal'',
     ev_data = Some (JObj [(''condition'', JStr ''c''), (''state'', JStr ''set''), (''source'', JStr ''client''),
        (''colour'', JNum ''7'')])\<rparr> =
   Inr (DGoal \<lparr>gl_condition = ''c'', gl_state = ''set'', gl_reason = [], gl_source = ''client''\<rparr>) \<and>
   DecodeData \<lparr>ev_id = ''x'', ev_parent = None, ev_time = 0, ev_type = ''goal'',
     ev_data = Some (JObj [(''condition'', JStr [CHR 0xEF, CHR 0xBF, CHR 0xBD]), (''state'', JStr ''set''), (''source'', JStr ''client'')])\<rparr> =
   Inr (map_payload coerce_utf8 (DGoal \<lparr>gl_condition = [CHR 0xC3], gl_state = ''set'', gl_reason = [], gl_source = ''client''\<rparr>))"
proof
  have v: "valid_utf8 ''c''" "valid_utf8 ''set''" "valid_utf8 ''client''" "valid_utf8 []" by code_simp+
  let ?g = "DGoal \<lparr>gl_condition = ''c'', gl_state = ''set'', gl_reason = [], gl_source = ''client''\<rparr>"
  have t: "\<forall>s \<in> set (payload_texts ?g). valid_utf8 s" using v by (simp add: goal_texts_def)
  have "marshal_payload ?g = JObj [(''condition'', JStr ''c''), (''state'', JStr ''set''), (''source'', JStr ''client'')]"
    using marshal_valid [OF t] by (simp add: enc_goal_def omit_if_def)
  let ?e = "\<lparr>ev_id = ''x'', ev_parent = None, ev_time = 0, ev_type = ''goal'',
     ev_data = Some (JObj [(''condition'', JStr ''c''), (''state'', JStr ''set''), (''source'', JStr ''client''),
        (''colour'', JNum ''7'')])\<rparr>"
  have "DecodeData ?e = Inr (map_payload coerce_utf8 ?g) \<and> ((\<forall>s \<in> set (payload_texts ?g). valid_utf8 s) \<longrightarrow> DecodeData ?e = Inr ?g)"
    by (rule DecodeData_enc [OF _ \<open>marshal_payload ?g = _\<close>, of "[(''colour'', JNum ''7'')]"]) (simp_all add: goal_fields_def lower_char_def)
  then show "DecodeData ?e = Inr ?g" using t by blast
next
  let ?h = "DGoal \<lparr>gl_condition = [CHR 0xC3], gl_state = ''set'', gl_reason = [], gl_source = ''client''\<rparr>"
  have c: "coerce_utf8 [CHR 0xC3] = [CHR 0xEF, CHR 0xBF, CHR 0xBD]" "coerce_utf8 ''set'' = ''set''" "coerce_utf8 ''client'' = ''client''"
    by code_simp+
  have "marshal_payload ?h = JObj [(''condition'', JStr [CHR 0xEF, CHR 0xBF, CHR 0xBD]), (''state'', JStr ''set''), (''source'', JStr ''client'')]"
    by (simp add: marshal_payload_def map_goal_def enc_goal_def omit_if_def c)
  from DecodeData_enc [OF _ this, of "[]"]
  show "DecodeData \<lparr>ev_id = ''x'', ev_parent = None, ev_time = 0, ev_type = ''goal'',
     ev_data = Some (JObj [(''condition'', JStr [CHR 0xEF, CHR 0xBF, CHR 0xBD]), (''state'', JStr ''set''), (''source'', JStr ''client'')])\<rparr> =
     Inr (map_payload coerce_utf8 ?h)" by simp
qed

end
