(* ===== verification/Ulid.thy ===== *)
theory Ulid
  imports Rho_Prelude "HOL-Library.Word"
begin

unbundle bit_operations_syntax

text \<open>
  \<open>protocol/ulid.go\<close>: identifiers of 48 bits of millisecond time and 80 random bits, written as
  26 characters of Crockford base32. The clock and the random source are arguments: \<open>now\<close> is
  what \<open>time.Now().UnixMilli()\<close> returned and each \<open>rnd\<close> the 10 bytes of one \<open>rand.Read\<close>.

  The lemmas show that an encoded identifier is valid, that its time reads back, that the order of
  identifiers follows the order of their times, and so that \<open>NewULIDAfter\<close> sorts after its argument.
\<close>

type_synonym byte = "8 word"

definition ulidAlphabet :: string where
  "ulidAlphabet = ''0123456789ABCDEFGHJKMNPQRSTVWXYZ''"

text \<open>The decode table: the position of a character in the alphabet, or -1.\<close>

definition ulidDecode :: "char \<Rightarrow> int" where
  "ulidDecode c = (case index_of (\<lambda>x. x = c) ulidAlphabet of None \<Rightarrow> -1 | Some i \<Rightarrow> int i)"

text \<open>The 26 five-bit groups of \<open>encodeULID\<close>, most significant first.\<close>

definition ulid_groups :: "byte list \<Rightarrow> byte list" where
  "ulid_groups b =
    [drop_bit 5 (b ! 0 AND 224),
     b ! 0 AND 31,
     drop_bit 3 (b ! 1 AND 248),
     push_bit 2 (b ! 1 AND 7) OR drop_bit 6 (b ! 2 AND 192),
     drop_bit 1 (b ! 2 AND 62),
     push_bit 4 (b ! 2 AND 1) OR drop_bit 4 (b ! 3 AND 240),
     push_bit 1 (b ! 3 AND 15) OR drop_bit 7 (b ! 4 AND 128),
     drop_bit 2 (b ! 4 AND 124),
     push_bit 3 (b ! 4 AND 3) OR drop_bit 5 (b ! 5 AND 224),
     b ! 5 AND 31,
     drop_bit 3 (b ! 6 AND 248),
     push_bit 2 (b ! 6 AND 7) OR drop_bit 6 (b ! 7 AND 192),
     drop_bit 1 (b ! 7 AND 62),
     push_bit 4 (b ! 7 AND 1) OR drop_bit 4 (b ! 8 AND 240),
     push_bit 1 (b ! 8 AND 15) OR drop_bit 7 (b ! 9 AND 128),
     drop_bit 2 (b ! 9 AND 124),
     push_bit 3 (b ! 9 AND 3) OR drop_bit 5 (b ! 10 AND 224),
     b ! 10 AND 31,
     drop_bit 3 (b ! 11 AND 248),
     push_bit 2 (b ! 11 AND 7) OR drop_bit 6 (b ! 12 AND 192),
     drop_bit 1 (b ! 12 AND 62),
     push_bit 4 (b ! 12 AND 1) OR drop_bit 4 (b ! 13 AND 240),
     push_bit 1 (b ! 13 AND 15) OR drop_bit 7 (b ! 14 AND 128),
     drop_bit 2 (b ! 14 AND 124),
     push_bit 3 (b ! 14 AND 3) OR drop_bit 5 (b ! 15 AND 224),
     b ! 15 AND 31]"

definition encodeULID :: "byte list \<Rightarrow> string" where
  "encodeULID b = map (\<lambda>g. ulidAlphabet ! unat g) (ulid_groups b)"

definition ulid_bytes :: "64 word \<Rightarrow> byte list \<Rightarrow> byte list" where
  "ulid_bytes ms rnd =
     [ucast (drop_bit 40 ms), ucast (drop_bit 32 ms), ucast (drop_bit 24 ms),
      ucast (drop_bit 16 ms), ucast (drop_bit 8 ms), ucast ms] @ rnd"

definition NewULIDAt :: "int \<Rightarrow> byte list \<Rightarrow> string" where
  "NewULIDAt t rnd = encodeULID (ulid_bytes (word_of_int t) rnd)"

definition NewULID :: "int \<Rightarrow> byte list \<Rightarrow> string" where
  "NewULID now rnd = NewULIDAt now rnd"

definition ErrInvalidULID :: err where
  "ErrInvalidULID = ''invalid ULID''"

definition ValidateULID :: "string \<Rightarrow> err option" where
  "ValidateULID s =
     (if length s \<noteq> 26 then Some ErrInvalidULID
      else if s ! 0 < CHR ''0'' \<or> s ! 0 > CHR ''7'' then Some ErrInvalidULID
      else if \<exists>c \<in> set s. ulidDecode c < 0 then Some ErrInvalidULID
      else None)"

definition ULIDTime :: "string \<Rightarrow> err + int" where
  "ULIDTime s =
     (case ValidateULID s of
        Some e \<Rightarrow> Inl e
      | None \<Rightarrow>
          Inr (sint (foldl (\<lambda>ms c. push_bit 5 ms OR word_of_int (ulidDecode c)) (0 :: 64 word) (take 10 s))))"

text \<open>\<open>NewULIDAfter\<close>: the second random read happens only when the fresh id does not sort after.\<close>

definition NewULIDAfter :: "int \<Rightarrow> byte list \<Rightarrow> byte list \<Rightarrow> string \<Rightarrow> string" where
  "NewULIDAfter now rnd rnd' prev =
     (let ident = NewULID now rnd in
      if prev = [] \<or> ident > prev then ident
      else (case ULIDTime prev of
              Inl _ \<Rightarrow> ident
            | Inr t \<Rightarrow> NewULIDAt (t + 1) rnd'))"

section \<open>Five-bit groups as numbers\<close>


lemma unat_and_mask8: "unat ((b :: byte) AND mask n) = unat b mod 2 ^ n"
  by (simp flip: take_bit_eq_mask take_bit_eq_mod add: unsigned_take_bit_eq)

lemma unat_drop_bit: "unat (drop_bit n (w :: 'a :: len word)) = unat w div 2 ^ n"
proof -
  have "take_bit LENGTH('a) (unat w) = unat w" by (simp add: take_bit_nat_eq_self)
  then show ?thesis by (simp flip: drop_bit_eq_div add: unsigned_drop_bit_eq)
qed

text \<open>A word shifted and joined by OR with one that fits in the freed bits.\<close>

lemma unat_push_or:
  fixes x y :: "'a :: len word"
  assumes le: "unat x * 2 ^ k + 2 ^ k \<le> 2 ^ LENGTH('a)" and y: "unat y < 2 ^ k"
  shows "unat (push_bit k x OR y) = unat x * 2 ^ k + unat y"
proof -
  have "y = take_bit k y"
    using y by (metis take_bit_nat_eq_self unsigned_take_bit_eq unsigned_word_eqI)
  then have "\<not> bit (push_bit k x) n \<or> \<not> bit y n" for n
    by (metis bit_push_bit_iff bit_take_bit_iff linorder_not_less)
  then have "push_bit k x OR y = push_bit k x + y"
    by (rule disjunctive_add [symmetric])
  moreover have "unat (push_bit k x) = unat x * 2 ^ k"
  proof -
    have "0 < (2 ^ k :: nat)" by simp
    with le have "unat x * 2 ^ k < 2 ^ LENGTH('a)" by linarith
    then show ?thesis by (subst unsigned_push_bit_eq) (simp add: take_bit_nat_eq_self push_bit_eq_mult)
  qed
  ultimately show ?thesis using y le by (simp add: unat_word_ariths)
qed

lemma drop_and_mask8: "unat (drop_bit n (c :: byte) AND mask k) = unat c div 2 ^ n mod 2 ^ k"
  by (simp only: unat_and_mask8 unat_drop_bit)

lemma small_powers:
  "(2 :: nat) ^ 1 = 2" "(2 :: nat) ^ 2 = 4" "(2 :: nat) ^ 3 = 8" "(2 :: nat) ^ 4 = 16"
  "(2 :: nat) ^ 5 = 32" "(2 :: nat) ^ 6 = 64" "(2 :: nat) ^ 7 = 128"
  by simp_all

lemma group_masks:
  fixes c :: byte
  shows "drop_bit 1 (c AND 62) = drop_bit 1 c AND mask 5"
    and "drop_bit 2 (c AND 124) = drop_bit 2 c AND mask 5"
    and "drop_bit 3 (c AND 248) = drop_bit 3 c AND mask 5"
    and "drop_bit 4 (c AND 240) = drop_bit 4 c AND mask 4"
    and "drop_bit 5 (c AND 224) = drop_bit 5 c AND mask 3"
    and "drop_bit 6 (c AND 192) = drop_bit 6 c AND mask 2"
    and "drop_bit 7 (c AND 128) = drop_bit 7 c AND mask 1"
    and "c AND 1 = c AND mask 1" and "c AND 3 = c AND mask 2" and "c AND 7 = c AND mask 3"
    and "c AND 15 = c AND mask 4" and "c AND 31 = c AND mask 5"
  by (simp_all add: mask_eq_exp_minus_1)

lemmas group_vals = group_masks unat_and_mask8 unat_drop_bit small_powers

lemma group_one:
  fixes b :: byte
  shows "unat (drop_bit 5 (b AND 224)) = unat b div 32 mod 8"
    and "unat (b AND 31) = unat b mod 32"
    and "unat (drop_bit 3 (b AND 248)) = unat b div 8 mod 32"
    and "unat (drop_bit 1 (b AND 62)) = unat b div 2 mod 32"
    and "unat (drop_bit 2 (b AND 124)) = unat b div 4 mod 32"
  by (simp_all only: group_vals power_one_right)

lemma group_two:
  fixes b c :: byte
  shows "unat (push_bit 2 (b AND 7) OR drop_bit 6 (c AND 192)) = unat b mod 8 * 4 + unat c div 64 mod 4"
    and "unat (push_bit 4 (b AND 1) OR drop_bit 4 (c AND 240)) = unat b mod 2 * 16 + unat c div 16 mod 16"
    and "unat (push_bit 1 (b AND 15) OR drop_bit 7 (c AND 128)) = unat b mod 16 * 2 + unat c div 128 mod 2"
    and "unat (push_bit 3 (b AND 3) OR drop_bit 5 (c AND 224)) = unat b mod 4 * 8 + unat c div 32 mod 8"
proof -
  have small: "unat (push_bit k (b AND mask p) OR (drop_bit q c AND mask k)) =
      unat b mod 2 ^ p * 2 ^ k + unat c div 2 ^ q mod 2 ^ k"
    if kp: "p + k \<le> 8" for k p q
  proof (subst unat_push_or)
    have "unat b mod 2 ^ p + 1 \<le> 2 ^ p" by (simp add: Suc_leI)
    then have "(unat b mod 2 ^ p + 1) * 2 ^ k \<le> 2 ^ p * 2 ^ k" by (rule mult_right_mono) simp
    also have "\<dots> \<le> 2 ^ 8" using kp by (simp only: power_add [symmetric]) (rule power_increasing, simp_all)
    finally show "unat (b AND mask p) * 2 ^ k + 2 ^ k \<le> 2 ^ LENGTH(8)"
      by (simp only: unat_and_mask8) simp
    show "unat (drop_bit q c AND mask k) < 2 ^ k" by (simp only: drop_and_mask8) simp
    show "unat (b AND mask p) * 2 ^ k + unat (drop_bit q c AND mask k) =
        unat b mod 2 ^ p * 2 ^ k + unat c div 2 ^ q mod 2 ^ k"
      by (simp only: unat_and_mask8 unat_drop_bit)
  qed
  show "unat (push_bit 2 (b AND 7) OR drop_bit 6 (c AND 192)) = unat b mod 8 * 4 + unat c div 64 mod 4"
    using small [where k = 2 and p = 3 and q = 6] by (simp only: group_masks small_powers, simp?)
  show "unat (push_bit 4 (b AND 1) OR drop_bit 4 (c AND 240)) = unat b mod 2 * 16 + unat c div 16 mod 16"
    using small [where k = 4 and p = 1 and q = 4] by (simp only: group_masks small_powers, simp?)
  show "unat (push_bit 1 (b AND 15) OR drop_bit 7 (c AND 128)) = unat b mod 16 * 2 + unat c div 128 mod 2"
    using small [where k = 1 and p = 4 and q = 7] by (simp only: group_masks small_powers, simp?)
  show "unat (push_bit 3 (b AND 3) OR drop_bit 5 (c AND 224)) = unat b mod 4 * 8 + unat c div 32 mod 8"
    using small [where k = 3 and p = 2 and q = 5] by (simp only: group_masks small_powers, simp?)
qed

section \<open>The time of an identifier\<close>

text \<open>The value of a list of five-bit groups, most significant first.\<close>

definition groups_val :: "nat list \<Rightarrow> nat" where
  "groups_val ds = foldl (\<lambda>a d. a * 32 + d) 0 ds"

lemma groups_val_snoc [simp]: "groups_val (ds @ [d]) = groups_val ds * 32 + d"
  by (simp add: groups_val_def)

lemma groups_val_less: "\<forall>d \<in> set ds. d < 32 \<Longrightarrow> groups_val ds < 32 ^ length ds"
proof (induction ds rule: rev_induct)
  case Nil
  then show ?case by (simp add: groups_val_def)
next
  case (snoc d ds)
  then have "groups_val ds + 1 \<le> 32 ^ length ds" "d < 32" by simp_all
  then show ?case by simp
qed

lemma ulid_time_fold:
  assumes "\<forall>d \<in> set ds. d < 32" "length ds \<le> 12"
  shows "unat (foldl (\<lambda>ms d. push_bit 5 ms OR of_nat d) (0 :: 64 word) ds) = groups_val ds"
  using assms
proof (induction ds rule: rev_induct)
  case Nil
  then show ?case by (simp add: groups_val_def)
next
  case (snoc d ds)
  let ?w = "foldl (\<lambda>ms d. push_bit 5 ms OR of_nat d) (0 :: 64 word) ds"
  from snoc have IH: "unat ?w = groups_val ds" and d: "d < 32" by simp_all
  have "groups_val ds < 32 ^ length ds" using snoc.prems by (intro groups_val_less) simp
  also have "\<dots> \<le> 32 ^ 11" using snoc.prems by (intro power_increasing) simp_all
  finally have b: "groups_val ds < 32 ^ 11" .
  have "unat (of_nat d :: 64 word) = d"
    using d by (simp add: unsigned_of_nat take_bit_nat_eq_self)
  moreover have "unat ?w * 2 ^ 5 + 2 ^ 5 \<le> 2 ^ LENGTH(64)" using IH b by simp
  ultimately show ?case using d by (simp add: unat_push_or IH)
qed

lemma groups_val_split:
  assumes "a = 32 * a1 + a0" "b = 8 * b1 + b0" "c = 64 * c2 + 2 * c1 + c0" "d = 16 * d1 + d0"
    "e = 128 * e2 + 4 * e1 + e0" "f = 32 * f1 + (f0 :: nat)"
  shows "groups_val [a1, a0, b1, b0 * 4 + c2, c1, c0 * 16 + d1, d0 * 2 + e2, e1, e0 * 8 + f1, f0] =
    a * 2 ^ 40 + b * 2 ^ 32 + c * 2 ^ 24 + d * 2 ^ 16 + e * 2 ^ 8 + f"
  unfolding assms groups_val_def by simp

lemma groups_val_bytes:
  assumes "a < 256" "b < 256" "c < 256" "d < 256" "e < 256" "f < (256 :: nat)"
  shows "groups_val [a div 32 mod 8, a mod 32, b div 8 mod 32, b mod 8 * 4 + c div 64 mod 4,
      c div 2 mod 32, c mod 2 * 16 + d div 16 mod 16, d mod 16 * 2 + e div 128 mod 2,
      e div 4 mod 32, e mod 4 * 8 + f div 32 mod 8, f mod 32] =
    a * 2 ^ 40 + b * 2 ^ 32 + c * 2 ^ 24 + d * 2 ^ 16 + e * 2 ^ 8 + f"
proof (rule groups_val_split)
  have two: "x = p * (x div p mod n) + x mod p" if "x < p * n" for x p n :: nat
    using that by (simp add: less_mult_imp_div_less mult.commute)
  have three: "x = p * n * (x div (p * n) mod k) + p * (x div p mod n) + x mod p"
    if "x < p * n * k" for x p n k :: nat
  proof -
    have "x div (p * n) < k" using that by (simp add: less_mult_imp_div_less mult.commute)
    then have "x div (p * n) mod k = x div p div n" by (simp add: div_mult2_eq)
    then have "p * n * (x div (p * n) mod k) + p * (x div p mod n) = p * (x div p)"
      by (simp add: distrib_left [symmetric] mult.assoc)
    then show ?thesis by simp
  qed
  show "a = 32 * (a div 32 mod 8) + a mod 32" using two [of a 32 8] assms(1) by simp
  show "b = 8 * (b div 8 mod 32) + b mod 8" using two [of b 8 32] assms(2) by simp
  show "c = 64 * (c div 64 mod 4) + 2 * (c div 2 mod 32) + c mod 2" using three [of c 2 32 4] assms(3) by simp
  show "d = 16 * (d div 16 mod 16) + d mod 16" using two [of d 16 16] assms(4) by simp
  show "e = 128 * (e div 128 mod 2) + 4 * (e div 4 mod 32) + e mod 4" using three [of e 4 32 2] assms(5) by simp
  show "f = 32 * (f div 32 mod 8) + f mod 32" using two [of f 32 8] assms(6) by simp
qed

lemma bytes_val:
  assumes "m < (2 :: nat) ^ 48"
  shows "m div 2 ^ 40 mod 256 * 2 ^ 40 + m div 2 ^ 32 mod 256 * 2 ^ 32 + m div 2 ^ 24 mod 256 * 2 ^ 24 +
    m div 2 ^ 16 mod 256 * 2 ^ 16 + m div 2 ^ 8 mod 256 * 2 ^ 8 + m mod 256 = m"
proof -
  define q where "q k = m div 256 ^ k" for k
  define r where "r k = q k mod 256" for k
  have step: "q k = 256 * q l + r k" if "l = Suc k" for k l
    unfolding q_def r_def that by (simp add: power_Suc2 div_mult2_eq del: power_Suc)
  have q5: "q 5 mod 256 = q 5"
    using assms by (simp add: q_def less_mult_imp_div_less)
  have qs: "q 0 = m" "q 1 = m div 2 ^ 8" "q 2 = m div 2 ^ 16" "q 3 = m div 2 ^ 24"
    "q 4 = m div 2 ^ 32" "q 5 = m div 2 ^ 40"
    by (simp_all add: q_def)
  have "q 0 = 256 * q 1 + r 0" "q 1 = 256 * q 2 + r 1" "q 2 = 256 * q 3 + r 2"
    "q 3 = 256 * q 4 + r 3" "q 4 = 256 * q 5 + r 4"
    by (rule step, simp)+
  then have "q 5 * 2 ^ 40 + r 4 * 2 ^ 32 + r 3 * 2 ^ 24 + r 2 * 2 ^ 16 + r 1 * 2 ^ 8 + r 0 = q 0"
    by (simp add: algebra_simps)
  then have "q 5 mod 256 * 2 ^ 40 + q 4 mod 256 * 2 ^ 32 + q 3 mod 256 * 2 ^ 24 +
      q 2 mod 256 * 2 ^ 16 + q 1 mod 256 * 2 ^ 8 + q 0 mod 256 = q 0"
    unfolding r_def q5 .
  then show ?thesis unfolding qs .
qed

lemma ulid_groups_small:
  assumes "g \<in> set (ulid_groups b)"
  shows "unat g < 32"
proof -
  have m: "x mod 32 < 32" "x mod 8 < 32" "x mod 8 * 4 + y mod 4 < 32" "x mod 2 * 16 + y mod 16 < 32"
    "x mod 16 * 2 + y mod 2 < 32" "x mod 4 * 8 + y mod 8 < 32" for x y :: nat
    by (presburger | simp)+
  show ?thesis using assms
    unfolding ulid_groups_def by (auto simp only: set_simps insert_iff empty_iff group_one group_two m)
qed

lemma unat_ms_byte: "unat (ucast (drop_bit k (ms :: 64 word)) :: byte) = unat ms div 2 ^ k mod 256"
  by (subst unsigned_ucast_eq) (simp only: unat_drop_bit take_bit_eq_mod, simp)

lemma unat_ms_byte0: "unat (ucast (ms :: 64 word) :: byte) = unat ms mod 256"
  using unat_ms_byte [of 0 ms] by simp

lemma take_10: "take 10 (a # b # c # d # e # f # g # h # i # j # xs) = [a, b, c, d, e, f, g, h, i, j]"
  by simp

lemma nth_six:
  "(a # b # c # d # e # f # xs) ! 0 = a" "(a # b # c # d # e # f # xs) ! 1 = b"
  "(a # b # c # d # e # f # xs) ! 2 = c" "(a # b # c # d # e # f # xs) ! 3 = d"
  "(a # b # c # d # e # f # xs) ! 4 = e" "(a # b # c # d # e # f # xs) ! 5 = f"
  by simp_all

lemma ulid_groups_time:
  assumes "unat ms < 2 ^ 48"
  shows "groups_val (map unat (take 10 (ulid_groups (ulid_bytes ms rnd)))) = unat ms"
proof -
  let ?b = "\<lambda>k. unat ms div 2 ^ k mod 256"
  have "map unat (take 10 (ulid_groups (ulid_bytes ms rnd))) =
    [?b 40 div 32 mod 8, ?b 40 mod 32, ?b 32 div 8 mod 32, ?b 32 mod 8 * 4 + ?b 24 div 64 mod 4,
     ?b 24 div 2 mod 32, ?b 24 mod 2 * 16 + ?b 16 div 16 mod 16, ?b 16 mod 16 * 2 + ?b 8 div 128 mod 2,
     ?b 8 div 4 mod 32, ?b 8 mod 4 * 8 + unat ms mod 256 div 32 mod 8, unat ms mod 256 mod 32]"
    unfolding ulid_groups_def ulid_bytes_def take_10 append_Cons nth_six
    by (simp only: list.map group_one group_two unat_ms_byte0) (simp only: unat_drop_bit)
  then show ?thesis using bytes_val [OF assms] by (simp only: groups_val_bytes pos_mod_bound)
qed


section \<open>Characters and order\<close>

abbreviation alpha :: "nat \<Rightarrow> char" where "alpha d \<equiv> ulidAlphabet ! d"

lemma length_alphabet: "length ulidAlphabet = 32"
  by (simp add: ulidAlphabet_def)

lemma alphabet_sorted: "sorted_wrt (<) ulidAlphabet"
  by (simp add: ulidAlphabet_def)

lemma alpha_mono: "i < j \<Longrightarrow> j < 32 \<Longrightarrow> alpha i < alpha j"
  using sorted_wrt_nth_less [OF alphabet_sorted] by (simp add: length_alphabet)

lemma ulidDecode_alpha: "d < 32 \<Longrightarrow> ulidDecode (alpha d) = int d"
proof -
  assume d: "d < 32"
  have "distinct ulidAlphabet" by (simp add: ulidAlphabet_def)
  then have "index_of (\<lambda>x. x = alpha d) ulidAlphabet = Some d"
    using index_of_distinct [of "\<lambda>x. x" ulidAlphabet d] d by (simp add: length_alphabet)
  then show ?thesis by (simp add: ulidDecode_def)
qed

lemma ulidDecode_nonneg: "0 \<le> ulidDecode c \<Longrightarrow> \<exists>d < 32. c = alpha d"
  by (auto simp: ulidDecode_def length_alphabet split: option.splits dest!: index_of_Some)

lemma groups_val_Cons: "groups_val (d # ds) = d * 32 ^ length ds + groups_val ds"
proof (induction ds rule: rev_induct)
  case (snoc e ds)
  have "groups_val (d # ds @ [e]) = groups_val (d # ds) * 32 + e"
    using groups_val_snoc [of "d # ds" e] by simp
  with snoc show ?case by (simp add: algebra_simps)
qed (simp add: groups_val_def)

lemma groups_less_strings:
  assumes "length xs = length ys" "\<forall>d \<in> set xs. d < 32" "\<forall>d \<in> set ys. d < 32"
    "groups_val xs < groups_val ys"
  shows "map alpha xs < map alpha ys"
  using assms
proof (induction xs ys rule: list_induct2)
  case (Cons x xs y ys)
  have "groups_val ys < 32 ^ length ys" using Cons.prems by (intro groups_val_less) simp
  moreover have "x * 32 ^ length ys + groups_val xs < y * 32 ^ length ys + groups_val ys"
    using Cons.prems Cons.hyps by (simp add: groups_val_Cons)
  ultimately have "x * 32 ^ length ys < (y + 1) * 32 ^ length ys" by (simp add: algebra_simps)
  then have "x \<le> y" by (metis less_Suc_eq_le mult_less_cancel2 Suc_eq_plus1)
  then consider "x < y" | "x = y" by linarith
  then show ?case
  proof cases
    case 1
    then show ?thesis using Cons.prems alpha_mono by simp
  next
    case 2
    then show ?thesis using Cons by (simp add: groups_val_Cons)
  qed
qed simp

lemma less_append_same_length:
  fixes xs ys :: string
  shows "length xs = length ys \<Longrightarrow> xs < ys \<Longrightarrow> xs @ us < ys @ vs"
  by (induction xs ys rule: list_induct2) auto

lemma valid_ulid_groups:
  assumes "ValidateULID s = None"
  obtains ds where "s = map alpha ds" "length ds = 26" "\<forall>d \<in> set ds. d < 32" "ds ! 0 < 8"
proof -
  have len: "length s = 26" and first: "\<not> CHR ''7'' < s ! 0" and nn: "\<forall>c \<in> set s. 0 \<le> ulidDecode c"
    using assms by (auto simp: ValidateULID_def not_less split: if_splits)
  define ds where "ds = map (\<lambda>c. nat (ulidDecode c)) s"
  have each: "nat (ulidDecode c) < 32 \<and> alpha (nat (ulidDecode c)) = c" if "c \<in> set s" for c
    using nn that ulidDecode_nonneg ulidDecode_alpha by force
  then have "s = map alpha ds" by (simp add: ds_def map_idI)
  moreover have "\<forall>d \<in> set ds. d < 32" using each by (simp add: ds_def)
  moreover have "ds ! 0 < 8"
  proof (rule ccontr)
    assume "\<not> ds ! 0 < 8"
    then have "8 \<le> ds ! 0" by simp
    moreover have "ds ! 0 < 32" using each len by (simp add: ds_def)
    moreover have "alpha 7 = CHR ''7''" by (simp add: ulidAlphabet_def)
    moreover have "alpha (ds ! 0) = s ! 0" using each len by (simp add: ds_def)
    ultimately show False using alpha_mono [of 7 "ds ! 0"] first by simp
  qed
  moreover have "length ds = 26" by (simp add: ds_def len)
  ultimately show ?thesis using that by blast
qed

lemma groups_valid_ulid:
  assumes "length ds = 26" "\<forall>d \<in> set ds. d < 32" "ds ! 0 < 8"
  shows "ValidateULID (map alpha ds) = None"
proof -
  have "alpha 0 = CHR ''0''" "alpha 7 = CHR ''7''" by (simp_all add: ulidAlphabet_def)
  moreover have "alpha 0 \<le> alpha (ds ! 0)"
    using alpha_mono [of 0 "ds ! 0"] assms(3) by (cases "ds ! 0 = 0") auto
  moreover have "alpha (ds ! 0) \<le> alpha 7"
    using alpha_mono [of "ds ! 0" 7] assms(3) by (cases "ds ! 0 = 7") auto
  ultimately show ?thesis
    using assms ulidDecode_alpha by (auto simp: ValidateULID_def not_less)
qed

lemma ULIDTime_groups:
  assumes "length ds = 26" "\<forall>d \<in> set ds. d < 32" "ds ! 0 < 8"
  shows "ULIDTime (map alpha ds) = Inr (int (groups_val (take 10 ds)))"
proof -
  let ?es = "take 10 ds"
  have es: "\<forall>d \<in> set ?es. d < 32" using assms(2) by (meson in_set_takeD)
  have "foldl (\<lambda>ms c. push_bit 5 ms OR word_of_int (ulidDecode c)) (0 :: 64 word) (map alpha es) =
      foldl (\<lambda>ms d. push_bit 5 ms OR of_nat d) 0 es" if "\<forall>d \<in> set es. d < 32" for es
    using that by (induction es rule: rev_induct) (simp_all add: ulidDecode_alpha)
  from this [OF es] have f: "foldl (\<lambda>ms c. push_bit 5 ms OR word_of_int (ulidDecode c)) (0 :: 64 word) (take 10 (map alpha ds)) =
      foldl (\<lambda>ms d. push_bit 5 ms OR of_nat d) 0 ?es"
    by (simp add: take_map)
  let ?w = "foldl (\<lambda>ms d. push_bit 5 ms OR of_nat d) (0 :: 64 word) ?es"
  have u: "unat ?w = groups_val ?es" by (rule ulid_time_fold) (use es in auto)
  have "groups_val ?es < 32 ^ 10" using groups_val_less [OF es] assms(1) by simp
  then have "uint ?w < 2 ^ 63" using u by (simp add: uint_nat)
  moreover have "- (2 ^ 63) \<le> uint ?w" by (rule order_trans [OF _ uint_ge_0]) simp
  ultimately have "sint ?w = uint ?w" unfolding sint_uint by (simp add: signed_take_bit_int_eq_self)
  then have "sint ?w = int (groups_val ?es)" using u by (simp add: uint_nat)
  then show ?thesis using groups_valid_ulid [OF assms] f by (simp add: ULIDTime_def)
qed

section \<open>What the identifiers promise\<close>

lemma length_ulid_groups: "length (ulid_groups b) = 26"
  by (simp add: ulid_groups_def)

lemma first_ulid_group: "unat (ulid_groups b ! 0) < 8"
  unfolding ulid_groups_def nth_Cons_0 group_one by simp

lemma ulid_groups_less_32: "\<forall>d \<in> set (map unat (ulid_groups b)). d < 32"
proof -
  have "\<forall>g \<in> set (ulid_groups b). unat g < 32"
    using ulid_groups_small by blast
  then show ?thesis by simp
qed

lemma encodeULID_alpha: "encodeULID b = map alpha (map unat (ulid_groups b))"
  by (simp add: encodeULID_def)

lemma encodeULID_valid: "ValidateULID (encodeULID b) = None"
  unfolding encodeULID_alpha
  by (rule groups_valid_ulid) (use ulid_groups_less_32 first_ulid_group in \<open>simp_all add: length_ulid_groups\<close>)

lemma unat_time: "0 \<le> t \<Longrightarrow> t < 2 ^ 48 \<Longrightarrow> unat (word_of_int t :: 64 word) = nat t"
  by (simp add: unsigned_of_int take_bit_int_eq_self)

lemma NewULIDAt_time:
  assumes "0 \<le> t" "t < 2 ^ 48"
  shows "groups_val (take 10 (map unat (ulid_groups (ulid_bytes (word_of_int t) rnd)))) = nat t"
proof -
  have u: "unat (word_of_int t :: 64 word) = nat t" using assms by (rule unat_time)
  moreover have "nat t < 2 ^ 48" using assms by (simp add: nat_less_iff)
  ultimately show ?thesis using ulid_groups_time [of "word_of_int t" rnd] by (simp only: take_map)
qed

lemma ULIDTime_NewULIDAt_gen:
  assumes "0 \<le> t" "t < 2 ^ 48"
  shows "ULIDTime (NewULIDAt t rnd) = Inr t"
proof -
  let ?ds = "map unat (ulid_groups (ulid_bytes (word_of_int t) rnd))"
  have "ULIDTime (map alpha ?ds) = Inr (int (groups_val (take 10 ?ds)))"
    by (rule ULIDTime_groups) (use ulid_groups_less_32 first_ulid_group in \<open>simp_all add: length_ulid_groups\<close>)
  then show ?thesis using assms by (simp only: NewULIDAt_def encodeULID_alpha NewULIDAt_time) simp
qed

text \<open>Identifiers are ordered as their times, whatever their random bytes.\<close>

lemma ulid_order_by_time:
  assumes "ValidateULID p = None" "ULIDTime p = Inr t" "t < t'" "t' < 2 ^ 48" "0 \<le> t'"
  shows "p < NewULIDAt t' rnd"
proof -
  obtain ds where p: "p = map alpha ds" and len: "length ds = 26"
    and ds: "\<forall>d \<in> set ds. d < 32" and f: "ds ! 0 < 8"
    using assms(1) by (rule valid_ulid_groups)
  let ?es = "map unat (ulid_groups (ulid_bytes (word_of_int t') rnd))"
  have t: "t = int (groups_val (take 10 ds))" using ULIDTime_groups [OF len ds f] assms(2) p by simp
  have "groups_val (take 10 ds) < groups_val (take 10 ?es)"
    using t assms by (simp add: NewULIDAt_time)
  moreover have "\<forall>d \<in> set (take 10 ?es). d < 32" using ulid_groups_less_32 by (meson in_set_takeD)
  moreover have "\<forall>d \<in> set (take 10 ds). d < 32" using ds by (meson in_set_takeD)
  ultimately have "map alpha (take 10 ds) < map alpha (take 10 ?es)"
    by (intro groups_less_strings) (simp_all add: len length_ulid_groups)
  then have "map alpha (take 10 ds) @ map alpha (drop 10 ds) < map alpha (take 10 ?es) @ map alpha (drop 10 ?es)"
    by (intro less_append_same_length) (simp_all add: len length_ulid_groups)
  then show ?thesis unfolding p NewULIDAt_def encodeULID_alpha
    by (simp only: map_append [symmetric] append_take_drop_id)
qed

lemma ULIDTime_bounds:
  assumes "ULIDTime p = Inr t"
  shows "0 \<le> t \<and> t < 2 ^ 48"
proof -
  have "ValidateULID p = None" using assms by (simp add: ULIDTime_def split: option.splits)
  then obtain ds where p: "p = map alpha ds" and len: "length ds = 26"
    and ds: "\<forall>d \<in> set ds. d < 32" and f: "ds ! 0 < 8"
    by (rule valid_ulid_groups)
  have t: "t = int (groups_val (take 10 ds))" using ULIDTime_groups [OF len ds f] assms p by simp
  obtain d es where des: "take 10 ds = d # es" using len by (cases ds) auto
  have es: "\<forall>x \<in> set es. x < 32" using ds by (metis des in_set_takeD list.set_intros(2))
  have "length (d # es) = 10" using len by (simp flip: des)
  then have "length es = 9" by simp
  then have "groups_val es < 32 ^ 9" using groups_val_less [OF es] by simp
  moreover have "d < 8" using f des len by (cases ds) auto
  ultimately have "groups_val (d # es) < 2 ^ 48" using \<open>length es = 9\<close> by (simp add: groups_val_Cons)
  then show ?thesis using t des by simp
qed

lemma ULIDTime_valid: "ULIDTime p = Inr t \<Longrightarrow> ValidateULID p = None"
  by (simp add: ULIDTime_def split: option.splits)

lemma NewULIDAfter_cases:
  "NewULIDAfter now rnd rnd' prev = NewULIDAt now rnd \<or>
   (\<exists>t. ULIDTime prev = Inr t \<and> NewULIDAfter now rnd rnd' prev = NewULIDAt (t + 1) rnd')"
  by (auto simp: NewULIDAfter_def NewULID_def Let_def split: sum.split)

lemma NewULIDAt_valid: "ValidateULID (NewULIDAt t rnd) = None"
  by (simp add: NewULIDAt_def encodeULID_valid)

lemma NewULIDAfter_valid_gen: "ValidateULID (NewULIDAfter now rnd rnd' prev) = None"
  using NewULIDAfter_cases NewULIDAt_valid by metis

lemma NewULIDAfter_sorts_gen:
  assumes "ULIDTime prev = Inr t" "t < 2 ^ 48 - 1"
  shows "prev < NewULIDAfter now rnd rnd' prev"
proof -
  have "prev < NewULIDAt (t + 1) rnd'"
    using assms ULIDTime_bounds [OF assms(1)] by (intro ulid_order_by_time [OF ULIDTime_valid, OF assms(1) assms(1)]) simp_all
  moreover have "prev \<noteq> []"
    using assms(1) by (auto simp: ULIDTime_def ValidateULID_def)
  ultimately show ?thesis using assms(1) by (simp add: NewULIDAfter_def Let_def)
qed

section \<open>Properties\<close>

text \<open>An identifier made after another is valid and sorts strictly after it, whatever the clock
  and the random source return, as long as the other's 48-bit time is not the last one.\<close>
theorem NewULIDAfter_sorts:
  assumes "ULIDTime prev = Inr t" "t < 2 ^ 48 - 1"
  shows "ValidateULID (NewULIDAfter now rnd rnd' prev) = None \<and> prev < NewULIDAfter now rnd rnd' prev"
  using assms by (simp add: NewULIDAfter_valid_gen NewULIDAfter_sorts_gen del: One_nat_def)

lemma NewULIDAfter_sorts_witness:
  "NewULIDAt 5 (replicate 10 0) < NewULIDAfter 5 (replicate 10 0) (replicate 10 0) (NewULIDAt 5 (replicate 10 0))"
proof -
  have "ULIDTime (NewULIDAt 5 (replicate 10 0)) = Inr 5" by (rule ULIDTime_NewULIDAt_gen) simp_all
  from NewULIDAfter_sorts [OF this] show ?thesis by simp
qed

text \<open>An identifier is valid and its time reads back, for every time of 48 bits.\<close>
theorem ULIDTime_NewULIDAt:
  assumes "0 \<le> t" "t < 2 ^ 48"
  shows "ValidateULID (NewULIDAt t rnd) = None \<and> ULIDTime (NewULIDAt t rnd) = Inr t"
  using assms by (simp add: NewULIDAt_valid ULIDTime_NewULIDAt_gen)

lemma ULIDTime_NewULIDAt_witness:
  "ULIDTime (NewULIDAt 1700000000000 (replicate 10 255)) = Inr 1700000000000"
  using ULIDTime_NewULIDAt [of 1700000000000 "replicate 10 255"] by simp

end
