(* ===== verification/Validate.thy ===== *)
theory Validate
  imports Event_Codec Ulid
begin

text \<open>
  \<open>protocol/validate.go\<close>: the rules of an event's payload (\<open>ValidateEvent\<close>) and of a whole log
  (\<open>ValidateLog\<close>). \<open>validate_payload\<close> is the type switch of \<open>ValidateEvent\<close>, returning the message
  its \<open>fail\<close> wraps. The lemmas turn acceptance into facts about the payload, give the shape of a
  valid log (a leading session event, unbroken parents, every event decodable), and characterise
  the extension of a valid log by one event.
\<close>

section \<open>Sources, states and statuses\<close>

definition module_name_char :: "char \<Rightarrow> bool" where
  "module_name_char c \<longleftrightarrow>
     (c \<ge> CHR ''a'' \<and> c \<le> CHR ''z'') \<or> (c \<ge> CHR ''0'' \<and> c \<le> CHR ''9'') \<or> c = CHR ''_'' \<or> c = CHR ''-''"

definition isSource :: "string \<Rightarrow> bool \<Rightarrow> bool" where
  "isSource s allowInfra =
     (if s = ''model'' then True
      else if s = ''daemon'' \<or> s = ''client'' then allowInfra
      else if length s > length ''module:'' \<and> take (length ''module:'') s = ''module:''
      then (let name = drop (length ''module:'') s in
            if hd name < CHR ''a'' \<or> hd name > CHR ''z'' then False
            else list_all module_name_char (tl name))
      else False)"

definition isState :: "string \<Rightarrow> bool" where
  "isState s \<longleftrightarrow> s \<in> {''idle'', ''running'', ''blocked'', ''paused'', ''completed'', ''error''}"

definition isTaskStatus :: "string \<Rightarrow> bool" where
  "isTaskStatus s \<longleftrightarrow> s \<in> {''pending'', ''in_progress'', ''blocked'', ''done'', ''failed'', ''cancelled''}"

definition validateOptions :: "Options \<Rightarrow> err option" where
  "validateOptions op =
     (if op_model op = [] then Some ''options.model is required''
      else if op_mode op \<notin> {''ask'', ''auto'', ''bypass''}
      then Some (''options.permission_mode '' @ fmt_q (op_mode op) @ '' invalid'')
      else case ValidLabels (op_labels op) of Some e \<Rightarrow> Some (''options.labels: '' @ e) | None \<Rightarrow>
      (case ValidDescription (op_description op) of Some e \<Rightarrow> Some (''options.description: '' @ e) | None \<Rightarrow>
      (case ValidContext (op_context op) of Some e \<Rightarrow> Some (''options.context: '' @ e) | None \<Rightarrow>
      (case ValidEffort (op_effort op) of Some e \<Rightarrow> Some (''options.effort: '' @ e) | None \<Rightarrow> None))))"

definition ValidateStatus :: "StatusData \<Rightarrow> err option" where
  "ValidateStatus d =
     (if st_kind d \<noteq> ''run'' \<and> st_kind d \<noteq> ''goal'' then Some (''kind '' @ fmt_q (st_kind d) @ '' invalid'')
      else if \<not> isSource (st_source d) True then Some (''source '' @ fmt_q (st_source d) @ '' invalid'')
      else if (case st_data d of Some (JObj _) \<Rightarrow> False | _ \<Rightarrow> True) then Some ''data must be a JSON object''
      else if raw_len (st_data d) > MaxStatusBytes
      then Some (''data is '' @ itoa (int (raw_len (st_data d))) @ '' bytes; the most is '' @ itoa (int MaxStatusBytes))
      else None)"

section \<open>Payloads\<close>

text \<open>\<open>json.Unmarshal\<close> of a raw member into a variable of a type, \<open>None\<close> its error.\<close>

definition unmarshal_strs :: "json option \<Rightarrow> string list option" where
  "unmarshal_strs r = (case r of None \<Rightarrow> None | Some v \<Rightarrow> dec_strs [] v)"

definition unmarshal_str :: "json option \<Rightarrow> string option" where
  "unmarshal_str r = (case r of None \<Rightarrow> None | Some v \<Rightarrow> dec_str [] v)"

definition validate_session :: "SessionData \<Rightarrow> err option" where
  "validate_session d =
     (if sd_workspace d = [] \<or> sd_key d = [] then Some ''workspace and workspace_key are required''
      else validateOptions (sd_options d))"

definition validate_message :: "MessageData \<Rightarrow> err option" where
  "validate_message d =
     (if msg_role d \<noteq> ''user'' \<and> msg_role d \<noteq> ''assistant''
      then Some (''role '' @ fmt_q (msg_role d) @ '' invalid'')
      else if msg_role d = ''user'' \<and> (msg_usage d \<noteq> None \<or> msg_interrupted d)
      then Some ''usage and interrupted are assistant-only''
      else None)"

definition validate_tool_call :: "ToolCallData \<Rightarrow> err option" where
  "validate_tool_call d =
     (if tc_call d = [] \<or> tc_tool d = [] then Some ''call_id and tool are required''
      else if \<not> isSource (tc_source d) False
      then Some (''source '' @ fmt_q (tc_source d) @ '' invalid (model or module:<name>)'')
      else if (case tc_args d of Some (JObj _) \<Rightarrow> False | _ \<Rightarrow> True) then Some ''arguments must be an object''
      else None)"

definition validate_tool_result :: "ToolResultData \<Rightarrow> err option" where
  "validate_tool_result d =
     (if tr_call d = [] \<or> tr_tool d = [] then Some ''call_id and tool are required''
      else if tr_status d \<noteq> ''ok'' \<and> tr_status d \<noteq> ''error''
      then Some (''status '' @ fmt_q (tr_status d) @ '' invalid'')
      else if tr_kind d \<noteq> [] \<and> \<not> IsToolErrorKind (tr_kind d)
      then Some (''kind '' @ fmt_q (tr_kind d) @ '' invalid'')
      else if tr_status d = ''ok'' \<and> (tr_kind d \<noteq> [] \<or> tr_exit d \<noteq> None)
      then Some ''kind and exit_code belong to a failure, not to status ok''
      else None)"

definition validate_option_value :: "OptionsChangeData \<Rightarrow> err option" where
  "validate_option_value d =
     (if oc_key d \<in> {''model'', ''compaction_enabled'', ''permission_mode''} then None
      else if oc_key d = ''labels'' then
        (case unmarshal_strs (oc_to d) of
           None \<Rightarrow> Some ''labels must be an array of strings''
         | Some labels \<Rightarrow> ValidLabels labels)
      else if oc_key d = ''description'' then
        (case unmarshal_str (oc_to d) of
           None \<Rightarrow> Some ''description must be a string''
         | Some desc \<Rightarrow> ValidDescription desc)
      else if oc_key d = ''context'' then
        (case unmarshal_str (oc_to d) of
           None \<Rightarrow> Some ''context must be normal or large''
         | Some sz \<Rightarrow> if sz = [] then Some ''context must be normal or large'' else ValidContext sz)
      else if oc_key d = ''effort'' then
        (case unmarshal_str (oc_to d) of
           None \<Rightarrow> Some ''effort must be a string''
         | Some effort \<Rightarrow> ValidEffort effort)
      else Some (''key '' @ fmt_q (oc_key d) @ '' invalid''))"

definition validate_options_change :: "OptionsChangeData \<Rightarrow> err option" where
  "validate_options_change d =
     (case validate_option_value d of
        Some e \<Rightarrow> Some e
      | None \<Rightarrow>
          if raw_len (oc_from d) = 0 \<or> raw_len (oc_to d) = 0 then Some ''from and to are required''
          else if \<not> isSource (oc_source d) True then Some (''source '' @ fmt_q (oc_source d) @ '' invalid'')
          else None)"

definition validate_state_change :: "StateChangeData \<Rightarrow> err option" where
  "validate_state_change d =
     (if \<not> isState (sc_to d) then Some (''to '' @ fmt_q (sc_to d) @ '' invalid'')
      else case sc_from d of
        None \<Rightarrow> None
      | Some s \<Rightarrow> if isState s then None else Some (''from '' @ fmt_q s @ '' invalid''))"

definition validate_compaction :: "CompactionData \<Rightarrow> err option" where
  "validate_compaction d =
     (if cp_mode d \<noteq> ''clear_results'' \<and> cp_mode d \<noteq> ''summarize''
      then Some (''mode '' @ fmt_q (cp_mode d) @ '' invalid'')
      else if ValidateULID (cp_start d) \<noteq> None \<or> ValidateULID (cp_end d) \<noteq> None
      then Some ''range_start and range_end must be ULIDs''
      else if cp_mode d = ''summarize'' \<and> cp_summary d = [] then Some ''summary required for summarize''
      else None)"

definition validate_context :: "ContextData \<Rightarrow> err option" where
  "validate_context d =
     (if \<not> isSource (cx_source d) True then Some (''source '' @ fmt_q (cx_source d) @ '' invalid'')
      else if cx_slot d \<noteq> ''prefix'' \<and> cx_slot d \<noteq> ''suffix''
      then Some (''slot '' @ fmt_q (cx_slot d) @ '' invalid'')
      else None)"

fun validate_task_list :: "string set \<Rightarrow> Task list \<Rightarrow> err option" where
  "validate_task_list seen [] = None"
| "validate_task_list seen (t # ts) =
     (if tk_id t = [] \<or> tk_title t = [] then Some ''task id and title are required''
      else if tk_id t \<in> seen then Some (''duplicate task id '' @ fmt_q (tk_id t))
      else if \<not> isTaskStatus (tk_status t)
      then Some (''task '' @ tk_id t @ '': status '' @ fmt_q (tk_status t) @ '' invalid'')
      else if tk_blocked t = None then Some (''task '' @ tk_id t @ '': blocked_by must be present'')
      else if tk_evidence t \<noteq> [] \<and> ValidateULID (tk_evidence t) \<noteq> None
      then Some (''task '' @ tk_id t @ '': evidence must be a ULID'')
      else validate_task_list (insert (tk_id t) seen) ts)"

definition validate_tasks :: "TasksData \<Rightarrow> err option" where
  "validate_tasks d =
     (if td_revision d < 1 then Some ''revision must be >= 1''
      else if \<not> isSource (td_source d) True then Some (''source '' @ fmt_q (td_source d) @ '' invalid'')
      else validate_task_list {} (td_tasks d))"

definition validate_goal :: "GoalData \<Rightarrow> err option" where
  "validate_goal d =
     (if gl_condition d = [] then Some ''condition is required''
      else if gl_state d \<notin> {''set'', ''met'', ''unmet'', ''impossible'', ''cleared''}
      then Some (''state '' @ fmt_q (gl_state d) @ '' invalid'')
      else if \<not> isSource (gl_source d) True then Some (''source '' @ fmt_q (gl_source d) @ '' invalid'')
      else None)"

definition validate_check :: "CheckData \<Rightarrow> err option" where
  "validate_check d =
     (if ck_name d = [] then Some ''name is required''
      else if ck_kind d \<notin> {''command'', ''judge'', ''module''}
      then Some (''kind '' @ fmt_q (ck_kind d) @ '' invalid'')
      else if ck_status d \<notin> {''pass'', ''fail'', ''error''}
      then Some (''status '' @ fmt_q (ck_status d) @ '' invalid'')
      else None)"

definition validate_stop_veto :: "StopVetoData \<Rightarrow> err option" where
  "validate_stop_veto d =
     (if sv_module d = [] \<or> sv_reason d = [] then Some ''module and reason are required'' else None)"

definition validate_budget :: "BudgetData \<Rightarrow> err option" where
  "validate_budget d =
     (if bd_turns d < 0 \<or> bd_tokens d < 0 \<or> float_neg (bd_usd d) then Some ''budget values must be >= 0''
      else if \<not> isSource (bd_source d) True then Some (''source '' @ fmt_q (bd_source d) @ '' invalid'')
      else None)"

definition validate_notice :: "NoticeData \<Rightarrow> err option" where
  "validate_notice d =
     (if \<not> isSource (nt_source d) True then Some (''source '' @ fmt_q (nt_source d) @ '' invalid'')
      else if nt_level d \<notin> {''info'', ''warn'', ''error''}
      then Some (''level '' @ fmt_q (nt_level d) @ '' invalid'')
      else None)"

definition validate_report :: "ReportData \<Rightarrow> err option" where
  "validate_report d =
     (if rp_exit d \<notin> {''completed'', ''blocked'', ''paused'', ''error''}
      then Some (''exit_status '' @ fmt_q (rp_exit d) @ '' invalid'')
      else if rp_checks d = None then Some ''checks must be present (may be empty)''
      else if rt_open (rp_tasks d) = None then Some ''tasks.open must be present (may be empty)''
      else None)"

fun validate_payload :: "event_data \<Rightarrow> err option" where
  "validate_payload (DSession d) = validate_session d"
| "validate_payload (DMessage d) = validate_message d"
| "validate_payload (DThinking d) = None"
| "validate_payload (DToolCall d) = validate_tool_call d"
| "validate_payload (DToolResult d) = validate_tool_result d"
| "validate_payload (DOptionsChange d) = validate_options_change d"
| "validate_payload (DStateChange d) = validate_state_change d"
| "validate_payload (DCompaction d) = validate_compaction d"
| "validate_payload (DContext d) = validate_context d"
| "validate_payload (DTasks d) = validate_tasks d"
| "validate_payload (DGoal d) = validate_goal d"
| "validate_payload (DCheck d) = validate_check d"
| "validate_payload (DStopVeto d) = validate_stop_veto d"
| "validate_payload (DBudget d) = validate_budget d"
| "validate_payload (DNotice d) = validate_notice d"
| "validate_payload (DReport d) = validate_report d"
| "validate_payload (DStatus d) = ValidateStatus d"

section \<open>Events and logs\<close>

definition ValidateEvent :: "Event \<Rightarrow> err option" where
  "ValidateEvent e =
     (if raw_len (ev_data e) = 0 then Some (''event '' @ ev_id e @ '': data missing'')
      else (case DecodeData e of
              Inl err \<Rightarrow> Some err
            | Inr v \<Rightarrow>
                (case validate_payload v of
                   None \<Rightarrow> None
                 | Some msg \<Rightarrow> Some (''event '' @ ev_id e @ '' ('' @ ev_type e @ ''): '' @ msg))))"

text \<open>The body of the loop of \<open>ValidateLog\<close> at event \<open>i\<close>; \<open>prev\<close> is \<open>events[i-1]\<close>, if there is one.\<close>

definition validate_entry :: "nat \<Rightarrow> Event option \<Rightarrow> Event \<Rightarrow> err option" where
  "validate_entry i prev e =
     (case ValidateULID (ev_id e) of
        Some err \<Rightarrow> Some (''event '' @ itoa (int i) @ '': id '' @ fmt_q (ev_id e) @ '': '' @ err)
      | None \<Rightarrow>
          (case prev of
             None \<Rightarrow>
               if ev_parent e \<noteq> None then Some (''event '' @ ev_id e @ '': first event must have parent_id null'')
               else if ev_type e \<noteq> ''session''
               then Some (''event '' @ ev_id e @ '': first event must be type session, got '' @ ev_type e)
               else ValidateEvent e
           | Some p \<Rightarrow>
               if ev_parent e \<noteq> Some (ev_id p)
               then Some (''event '' @ ev_id e @ '': parent_id must be '' @ ev_id p @ '' (broken chain)'')
               else if ev_type e = ''session''
               then Some (''event '' @ ev_id e @ '': session event only allowed first'')
               else ValidateEvent e))"

fun validate_entries :: "nat \<Rightarrow> Event option \<Rightarrow> Event list \<Rightarrow> err option" where
  "validate_entries i prev [] = None"
| "validate_entries i prev (e # es) =
     (case validate_entry i prev e of Some err \<Rightarrow> Some err | None \<Rightarrow> validate_entries (Suc i) (Some e) es)"

definition ValidateLog :: "Event list \<Rightarrow> err option" where
  "ValidateLog events = (if events = [] then Some ''log is empty'' else validate_entries 0 None events)"

section \<open>What acceptance means\<close>

lemma DecodeData_type: "DecodeData e = Inr p \<Longrightarrow> payload_type p = ev_type e"
  by (auto simp: DecodeData_def payload_decoder_def split: option.splits if_splits)

lemma DecodeData_data: "DecodeData e = Inr p \<Longrightarrow> \<exists>v. ev_data e = Some v"
  by (auto simp: DecodeData_def split: option.splits)

lemma DecodeData_known: "DecodeData e = Inr p \<Longrightarrow> ev_type e \<in> set EventTypes"
  by (drule DecodeData_type) (cases p, auto simp: EventTypes_def)

lemma ValidateEvent_None:
  "ValidateEvent e = None \<longleftrightarrow>
     raw_len (ev_data e) \<noteq> 0 \<and> (\<exists>p. DecodeData e = Inr p \<and> validate_payload p = None)"
  by (auto simp: ValidateEvent_def split: option.splits sum.splits)

lemma ValidateEvent_decodes: "ValidateEvent e = None \<Longrightarrow> \<exists>p. DecodeData e = Inr p \<and> payload_type p = ev_type e"
  using DecodeData_type by (auto simp: ValidateEvent_None)

lemma validate_task_list_None:
  "validate_task_list seen ts = None \<longleftrightarrow>
     distinct (map tk_id ts) \<and> set (map tk_id ts) \<inter> seen = {} \<and>
     (\<forall>t \<in> set ts. tk_id t \<noteq> [] \<and> tk_title t \<noteq> [] \<and> isTaskStatus (tk_status t) \<and> tk_blocked t \<noteq> None \<and>
        (tk_evidence t = [] \<or> ValidateULID (tk_evidence t) = None))"
  by (induction seen ts rule: validate_task_list.induct) auto

lemma validate_entry_None:
  "validate_entry i prev e = None \<longleftrightarrow>
     ValidateULID (ev_id e) = None \<and> ValidateEvent e = None \<and>
     (case prev of None \<Rightarrow> ev_parent e = None \<and> ev_type e = ''session''
      | Some p \<Rightarrow> ev_parent e = Some (ev_id p) \<and> ev_type e \<noteq> ''session'')"
  by (auto simp: validate_entry_def split: option.splits)

text \<open>The event before the next one, in a loop that starts after \<open>prev\<close>.\<close>

definition last_event :: "Event option \<Rightarrow> Event list \<Rightarrow> Event option" where
  "last_event prev es = (if es = [] then prev else Some (last es))"

lemma last_event_simps [simp]:
  "last_event prev [] = prev"
  "last_event prev (e # es) = last_event (Some e) es"
  "last_event prev (es @ [e]) = Some e"
  by (simp_all add: last_event_def)

lemma validate_entries_append:
  "validate_entries i prev (xs @ ys) =
     (case validate_entries i prev xs of
        Some err \<Rightarrow> Some err
      | None \<Rightarrow> validate_entries (i + length xs) (last_event prev xs) ys)"
  by (induction i prev xs rule: validate_entries.induct) (auto split: option.splits)

lemma ValidateLog_snoc:
  "log \<noteq> [] \<Longrightarrow> ValidateLog (log @ [e]) =
     (case ValidateLog log of
        Some err \<Rightarrow> Some err
      | None \<Rightarrow> validate_entry (length log) (Some (last log)) e)"
  by (simp add: ValidateLog_def validate_entries_append last_event_def split: option.splits)

lemma ValidateLog_prefix: "ValidateLog (xs @ ys) = None \<Longrightarrow> xs \<noteq> [] \<Longrightarrow> ValidateLog xs = None"
  by (auto simp: ValidateLog_def validate_entries_append split: option.splits if_splits)

text \<open>What a valid log is at each position.\<close>

definition entry_ok :: "Event list \<Rightarrow> nat \<Rightarrow> bool" where
  "entry_ok log i \<longleftrightarrow>
     ValidateULID (ev_id (log ! i)) = None \<and> ValidateEvent (log ! i) = None \<and>
     (if i = 0 then ev_parent (log ! 0) = None \<and> ev_type (log ! 0) = ''session''
      else ev_parent (log ! i) = Some (ev_id (log ! (i - 1))) \<and> ev_type (log ! i) \<noteq> ''session'')"

lemma entry_ok_append: "i < length xs \<Longrightarrow> entry_ok (xs @ ys) i = entry_ok xs i"
  by (auto simp: entry_ok_def nth_append)

lemma validate_entry_last:
  "validate_entry i (last_event None xs) e = None \<longleftrightarrow> entry_ok (xs @ [e]) (length xs)"
  by (cases xs rule: rev_cases) (auto simp: validate_entry_None entry_ok_def nth_append)

lemma validate_entries_iff:
  "validate_entries 0 None log = None \<longleftrightarrow> (\<forall>i < length log. entry_ok log i)"
proof (induction log rule: rev_induct)
  case (snoc e log)
  have "(\<forall>i < length (log @ [e]). entry_ok (log @ [e]) i) \<longleftrightarrow>
      (\<forall>i < length log. entry_ok log i) \<and> entry_ok (log @ [e]) (length log)"
    by (auto simp: entry_ok_append less_Suc_eq)
  moreover have "validate_entries 0 None (log @ [e]) = None \<longleftrightarrow>
      validate_entries 0 None log = None \<and> validate_entry (length log) (last_event None log) e = None"
    by (auto simp: validate_entries_append split: option.splits)
  ultimately show ?case using snoc validate_entry_last by simp
qed simp

lemma ValidateLog_entries: "ValidateLog log = None \<longleftrightarrow> log \<noteq> [] \<and> (\<forall>i < length log. entry_ok log i)"
  by (auto simp: ValidateLog_def validate_entries_iff)

lemma ValidateLog_events:
  assumes "ValidateLog log = None" "e \<in> set log"
  shows "ValidateULID (ev_id e) = None" "ValidateEvent e = None" "\<exists>p. DecodeData e = Inr p \<and> payload_type p = ev_type e"
proof -
  obtain i where "i < length log" "log ! i = e" using assms(2) by (auto simp: in_set_conv_nth)
  then have "entry_ok log i" using assms(1) by (simp add: ValidateLog_entries)
  then show "ValidateULID (ev_id e) = None" "ValidateEvent e = None"
    using \<open>log ! i = e\<close> by (simp_all add: entry_ok_def)
  then show "\<exists>p. DecodeData e = Inr p \<and> payload_type p = ev_type e" using ValidateEvent_decodes by simp
qed

lemma ValidateLog_first:
  assumes "ValidateLog log = None"
  shows "\<exists>e es. log = e # es \<and> ev_type e = ''session'' \<and> ev_parent e = None \<and> (\<forall>x \<in> set es. ev_type x \<noteq> ''session'')"
proof -
  from assms obtain e es where log: "log = e # es" by (cases log) (auto simp: ValidateLog_entries)
  then have "entry_ok log 0" using assms by (auto simp: ValidateLog_entries)
  moreover have "ev_type x \<noteq> ''session''" if x: "x \<in> set es" for x
  proof -
    obtain i where "i < length es" "es ! i = x" using x by (auto simp: in_set_conv_nth)
    then have "entry_ok log (Suc i)" using assms log by (auto simp: ValidateLog_entries)
    then show ?thesis using \<open>es ! i = x\<close> log by (auto simp: entry_ok_def)
  qed
  ultimately show ?thesis using log by (auto simp: entry_ok_def)
qed

section \<open>A sample log\<close>

text \<open>A short valid log, for the witnesses: a session, what the person said, and an answer.\<close>

definition sample_id :: "nat \<Rightarrow> string" where
  "sample_id k = NewULIDAt (int k + 1) (replicate 10 0)"

definition sample_event :: "nat \<Rightarrow> event_data \<Rightarrow> Event" where
  "sample_event k p =
     \<lparr>ev_id = sample_id k, ev_parent = (if k = 0 then None else Some (sample_id (k - 1))),
      ev_time = 0, ev_type = payload_type p, ev_data = Some (enc_payload p)\<rparr>"

definition sample_log :: "event_data list \<Rightarrow> Event list" where
  "sample_log ps = map (\<lambda>(k, p). sample_event k p) (zip [0..<length ps] ps)"

definition sample_session :: event_data where
  "sample_session = DSession \<lparr>sd_workspace = ''w'', sd_key = ''k'',
     sd_options = options_zero\<lparr>op_model := ''m'', op_mode := ''auto''\<rparr>, sd_window = 0\<rparr>"

definition sample_said :: "string \<Rightarrow> event_data" where
  "sample_said s = DMessage (message_zero\<lparr>msg_role := ''user'', msg_content := s\<rparr>)"

definition sample_answer :: "string \<Rightarrow> event_data" where
  "sample_answer s = DMessage (message_zero\<lparr>msg_role := ''assistant'', msg_content := s,
     msg_usage := Some \<lparr>us_input = 10, us_output = 5, us_cached = 0\<rparr>\<rparr>)"

lemma sample_id_valid: "ValidateULID (sample_id k) = None"
  by (simp add: sample_id_def NewULIDAt_valid)

lemma sample_id_mono:
  assumes "i < j" "j < 1000"
  shows "sample_id i < sample_id j"
proof -
  have t: "ULIDTime (sample_id i) = Inr (int i + 1)"
    using assms by (simp add: sample_id_def ULIDTime_NewULIDAt_gen)
  show ?thesis unfolding sample_id_def [of j]
    by (rule ulid_order_by_time [OF sample_id_valid t]) (use assms in auto)
qed

lemma sample_id_eq [simp]: "i < 1000 \<Longrightarrow> j < 1000 \<Longrightarrow> sample_id i = sample_id j \<longleftrightarrow> i = j"
  using sample_id_mono by (metis less_irrefl linorder_neqE_nat)

lemma sample_event_sel [simp]:
  "ev_id (sample_event k p) = sample_id k"
  "ev_parent (sample_event k p) = (if k = 0 then None else Some (sample_id (k - 1)))"
  "ev_type (sample_event k p) = payload_type p" "ev_data (sample_event k p) = Some (enc_payload p)"
  by (simp_all add: sample_event_def)

lemma sample_event_decodes: "payload_ok p \<Longrightarrow> DecodeData (sample_event k p) = Inr p"
  by (rule DecodeData_payload) simp_all

lemma enc_payload_text: "payload_ok p \<Longrightarrow> raw_len (Some (enc_payload p)) \<noteq> 0"
  by (cases p)
     (simp_all add: raw_len_def enc_session_def enc_message_def enc_thinking_def enc_tool_call_def
        enc_tool_result_def enc_options_change_def enc_state_change_def enc_compaction_def enc_context_def
        enc_tasks_def enc_goal_def enc_check_def enc_stop_veto_def enc_budget_def enc_notice_def
        enc_report_def enc_status_def)

lemma sample_event_valid: "payload_ok p \<Longrightarrow> validate_payload p = None \<Longrightarrow> ValidateEvent (sample_event k p) = None"
  using enc_payload_text by (simp add: ValidateEvent_None sample_event_decodes)

lemma length_sample_log [simp]: "length (sample_log ps) = length ps"
  by (simp add: sample_log_def)

lemma nth_sample_log: "k < length ps \<Longrightarrow> sample_log ps ! k = sample_event k (ps ! k)"
  by (simp add: sample_log_def)

lemma sample_log_valid:
  assumes "ps \<noteq> []" "\<And>p. p \<in> set ps \<Longrightarrow> payload_ok p \<and> validate_payload p = None"
    and "payload_type (hd ps) = ''session''" "\<And>p. p \<in> set (tl ps) \<Longrightarrow> payload_type p \<noteq> ''session''"
  shows "ValidateLog (sample_log ps) = None"
proof -
  have "entry_ok (sample_log ps) i" if i: "i < length ps" for i
  proof -
    have "ValidateEvent (sample_log ps ! i) = None"
      using assms(2) i by (simp add: nth_sample_log sample_event_valid)
    moreover have "payload_type (ps ! 0) = ''session''" using assms(1,3) by (simp add: hd_conv_nth)
    moreover have "payload_type (ps ! i) \<noteq> ''session''" if "i \<noteq> 0"
    proof -
      have "ps ! i \<in> set (tl ps)" using i that by (cases i; cases ps) auto
      then show ?thesis by (rule assms(4))
    qed
    ultimately show ?thesis
      using i by (cases "i = 0") (simp_all add: entry_ok_def nth_sample_log sample_id_valid)
  qed
  moreover have "sample_log ps \<noteq> []" using assms(1) by (metis length_0_conv length_sample_log)
  ultimately show ?thesis by (simp add: ValidateLog_entries)
qed

lemma samples_ok [simp]:
  "payload_ok sample_session" "payload_ok (sample_said s)" "payload_ok (sample_answer s)"
  "validate_payload sample_session = None" "validate_payload (sample_said s) = None"
  "validate_payload (sample_answer s) = None"
  "payload_type sample_session = ''session''" "payload_type (sample_said s) = ''message''"
  "payload_type (sample_answer s) = ''message''"
  by (simp_all add: sample_session_def sample_said_def sample_answer_def session_ok_def message_ok_def usage_ok_def
      int64_ok_def int64_min_def int64_max_def validate_session_def validateOptions_def ValidLabels_def
      ValidDescription_def ValidContext_def ValidEffort_def options_zero_def MaxLabels_def MaxDescription_def
      validate_message_def message_zero_def)

lemma sample_must [simp]: "payload_ok p \<Longrightarrow> MustData sel (sample_event k p) = sel p"
  by (simp add: MustData_def sample_event_decodes)

lemma sample_as [simp]:
  "as_message sample_session = None"
  "as_message (sample_said s) = Some (message_zero\<lparr>msg_role := ''user'', msg_content := s\<rparr>)"
  "as_message (sample_answer s) = Some (message_zero\<lparr>msg_role := ''assistant'', msg_content := s,
     msg_usage := Some \<lparr>us_input = 10, us_output = 5, us_cached = 0\<rparr>\<rparr>)"
  "as_state_change sample_session = None" "as_state_change (sample_said s) = None"
  "as_state_change (sample_answer s) = None"
  by (simp_all add: as_defs sample_session_def sample_said_def sample_answer_def)

lemma sample_log3:
  "sample_log [a, b, c] = [sample_event 0 a, sample_event 1 b, sample_event 2 c]"
  by (simp add: sample_log_def upt_conv_Cons eval_nat_numeral)

lemma sample_log_valid3: "ValidateLog (sample_log [sample_session, sample_said s, sample_answer t]) = None"
  by (rule sample_log_valid) auto

section \<open>Properties\<close>

text \<open>C9: \<open>ValidateLog\<close> accepts exactly the logs that start with a session event without a parent, hold
  no other session event, chain each event to the one before it, and have a valid id and a valid
  payload at every position.\<close>
theorem ValidateLog_iff:
  "ValidateLog log = None \<longleftrightarrow>
     log \<noteq> [] \<and> ev_parent (hd log) = None \<and> ev_type (hd log) = ''session'' \<and>
     (\<forall>i < length log. ValidateULID (ev_id (log ! i)) = None \<and> ValidateEvent (log ! i) = None \<and>
        (i > 0 \<longrightarrow> ev_parent (log ! i) = Some (ev_id (log ! (i - 1))) \<and> ev_type (log ! i) \<noteq> ''session''))"
proof (cases "log = []")
  case False
  then have first: "hd log = log ! 0" "0 < length log" by (simp_all add: hd_conv_nth)
  have "entry_ok log i \<longleftrightarrow>
      ValidateULID (ev_id (log ! i)) = None \<and> ValidateEvent (log ! i) = None \<and>
      (i > 0 \<longrightarrow> ev_parent (log ! i) = Some (ev_id (log ! (i - 1))) \<and> ev_type (log ! i) \<noteq> ''session'') \<and>
      (i = 0 \<longrightarrow> ev_parent (log ! 0) = None \<and> ev_type (log ! 0) = ''session'')" for i
    by (cases "i = 0") (simp_all add: entry_ok_def conj_ac)
  then show ?thesis using first unfolding ValidateLog_entries first(1) by blast
qed (simp add: ValidateLog_entries)

lemma ValidateLog_iff_witness:
  "let log = sample_log [sample_session, sample_said ''hi'', sample_answer ''ok''] in
   ev_parent (log ! 2) = Some (ev_id (log ! 1)) \<and> ev_type (log ! 2) \<noteq> ''session''"
  using ValidateLog_iff [THEN iffD1, OF sample_log_valid3 [of "''hi''" "''ok''"]] by (simp add: Let_def)

end
