(* ===== verification/Projection.thy ===== *)
theory Projection
  imports Validate
begin

text \<open>
  \<open>protocol/project.go\<close>: the session projection, one pass over the log. \<open>project_step\<close> is the body
  of \<open>Project\<close>'s loop, \<^term>\<open>None\<close> being the panic of \<open>MustData\<close>; the counters of tokens are 64-bit
  sums. The lemmas show that \<open>Project\<close> does not panic on a valid log, that it is a fold, so that
  appending an event is one step, and what each field of the result says of the log.
\<close>

record State =
  pr_state :: string
  pr_options :: Options
  pr_goal :: "GoalData option"
  pr_tasks :: "Task list"
  pr_budget :: BudgetData
  pr_turns :: int
  pr_usage :: Usage
  pr_last :: string
  pr_compacted :: string
  pr_status :: "StatusData option"

definition state_init :: State where
  "state_init =
     \<lparr>pr_state = ''idle'', pr_options = options_zero, pr_goal = None, pr_tasks = [],
      pr_budget = budget_zero\<lparr>bd_source := ''daemon''\<rparr>, pr_turns = 0, pr_usage = usage_zero,
      pr_last = [], pr_compacted = [], pr_status = None\<rparr>"

text \<open>\<open>_ = json.Unmarshal(raw, &x)\<close>: the variable keeps its value when the decoding fails.\<close>

definition unmarshal_into :: "('a \<Rightarrow> json \<Rightarrow> 'a option) \<Rightarrow> 'a \<Rightarrow> json option \<Rightarrow> 'a" where
  "unmarshal_into dec old raw =
     (case raw of None \<Rightarrow> old | Some v \<Rightarrow> (case dec old v of None \<Rightarrow> old | Some x \<Rightarrow> x))"

definition apply_option :: "OptionsChangeData \<Rightarrow> Options \<Rightarrow> Options" where
  "apply_option d op =
     (if oc_key d = ''model'' then op\<lparr>op_model := unmarshal_into dec_str (op_model op) (oc_to d)\<rparr>
      else if oc_key d = ''compaction_enabled''
      then op\<lparr>op_compaction := unmarshal_into dec_bool (op_compaction op) (oc_to d)\<rparr>
      else if oc_key d = ''permission_mode''
      then op\<lparr>op_mode := unmarshal_into dec_str (op_mode op) (oc_to d)\<rparr>
      else if oc_key d = ''labels'' then op\<lparr>op_labels := unmarshal_into dec_strs [] (oc_to d)\<rparr>
      else if oc_key d = ''description''
      then op\<lparr>op_description := unmarshal_into dec_str [] (oc_to d)\<rparr>
      else if oc_key d = ''context'' then op\<lparr>op_context := unmarshal_into dec_str [] (oc_to d)\<rparr>
      else if oc_key d = ''effort'' then op\<lparr>op_effort := unmarshal_into dec_str [] (oc_to d)\<rparr>
      else op)"

definition add_usage :: "Usage \<Rightarrow> Usage \<Rightarrow> Usage" where
  "add_usage a u =
     \<lparr>us_input = add64 (us_input a) (us_input u), us_output = add64 (us_output a) (us_output u),
      us_cached = add64 (us_cached a) (us_cached u)\<rparr>"

definition count_message :: "MessageData \<Rightarrow> State \<Rightarrow> State" where
  "count_message d st =
     (if msg_role d = ''assistant''
      then (let st = st\<lparr>pr_turns := pr_turns st + 1\<rparr> in
            case msg_usage d of None \<Rightarrow> st | Some u \<Rightarrow> st\<lparr>pr_usage := add_usage (pr_usage st) u\<rparr>)
      else st)"

definition project_step :: "State \<Rightarrow> Event \<Rightarrow> State option" where
  "project_step st0 e =
     (let st = st0\<lparr>pr_last := ev_id e\<rparr>; t = ev_type e in
      if t = ''session'' then map_option (\<lambda>d. st\<lparr>pr_options := sd_options d\<rparr>) (MustData as_session e)
      else if t = ''options_change''
      then map_option (\<lambda>d. st\<lparr>pr_options := apply_option d (pr_options st)\<rparr>) (MustData as_options_change e)
      else if t = ''state_change'' then map_option (\<lambda>d. st\<lparr>pr_state := sc_to d\<rparr>) (MustData as_state_change e)
      else if t = ''goal'' then map_option (\<lambda>d. st\<lparr>pr_goal := Some d\<rparr>) (MustData as_goal e)
      else if t = ''status'' then map_option (\<lambda>d. st\<lparr>pr_status := Some d\<rparr>) (MustData as_status e)
      else if t = ''tasks'' then map_option (\<lambda>d. st\<lparr>pr_tasks := td_tasks d\<rparr>) (MustData as_tasks e)
      else if t = ''budget'' then map_option (\<lambda>d. st\<lparr>pr_budget := d\<rparr>) (MustData as_budget e)
      else if t = ''message'' then map_option (\<lambda>d. count_message d st) (MustData as_message e)
      else if t = ''compaction''
      then map_option (\<lambda>d. if cp_mode d = ''summarize'' then st\<lparr>pr_compacted := cp_end d\<rparr> else st)
             (MustData as_compaction e)
      else Some st)"

definition Project :: "Event list \<Rightarrow> State option" where
  "Project log = fold_opt project_step state_init log"

definition GoalActive :: "State \<Rightarrow> bool" where
  "GoalActive s = (case pr_goal s of None \<Rightarrow> False | Some g \<Rightarrow> gl_state g = ''set'' \<or> gl_state g = ''unmet'')"

definition OpenTasks :: "State \<Rightarrow> Task list" where
  "OpenTasks s = filter (\<lambda>t. tk_status t = ''pending'' \<or> tk_status t = ''in_progress'') (pr_tasks s)"

definition DoneTasks :: "State \<Rightarrow> int" where
  "DoneTasks s = int (length (filter (\<lambda>t. tk_status t = ''done'') (pr_tasks s)))"

section \<open>A fold over the payloads\<close>

text \<open>The step on a decoded payload, without the decoding.\<close>

fun project_payload :: "State \<Rightarrow> event_data \<Rightarrow> State" where
  "project_payload st (DSession d) = st\<lparr>pr_options := sd_options d\<rparr>"
| "project_payload st (DOptionsChange d) = st\<lparr>pr_options := apply_option d (pr_options st)\<rparr>"
| "project_payload st (DStateChange d) = st\<lparr>pr_state := sc_to d\<rparr>"
| "project_payload st (DGoal d) = st\<lparr>pr_goal := Some d\<rparr>"
| "project_payload st (DStatus d) = st\<lparr>pr_status := Some d\<rparr>"
| "project_payload st (DTasks d) = st\<lparr>pr_tasks := td_tasks d\<rparr>"
| "project_payload st (DBudget d) = st\<lparr>pr_budget := d\<rparr>"
| "project_payload st (DMessage d) = count_message d st"
| "project_payload st (DCompaction d) =
     (if cp_mode d = ''summarize'' then st\<lparr>pr_compacted := cp_end d\<rparr> else st)"
| "project_payload st _ = st"

lemma project_step_payload:
  assumes "DecodeData e = Inr p"
  shows "project_step st e = Some (project_payload (st\<lparr>pr_last := ev_id e\<rparr>) p)"
  using assms DecodeData_type [OF assms, symmetric]
  by (cases p) (simp_all add: project_step_def MustData_def as_defs)

definition decodes :: "Event \<Rightarrow> bool" where
  "decodes e \<longleftrightarrow> (\<exists>p. DecodeData e = Inr p)"

text \<open>The payload of an event known to decode.\<close>

definition payload :: "Event \<Rightarrow> event_data" where
  "payload e = (case DecodeData e of Inr p \<Rightarrow> p | Inl _ \<Rightarrow> undefined)"

lemma payload_Inr: "DecodeData e = Inr p \<Longrightarrow> payload e = p"
  by (simp add: payload_def)

lemma decodes_payload: "decodes e \<Longrightarrow> DecodeData e = Inr (payload e)"
  by (auto simp: decodes_def payload_def)

lemma ValidateLog_decodes: "ValidateLog log = None \<Longrightarrow> e \<in> set log \<Longrightarrow> decodes e"
  using ValidateLog_events(3) by (auto simp: decodes_def)

definition project_event :: "State \<Rightarrow> Event \<Rightarrow> State" where
  "project_event st e = project_payload (st\<lparr>pr_last := ev_id e\<rparr>) (payload e)"

lemma project_fold:
  "\<forall>e \<in> set log. decodes e \<Longrightarrow> fold_opt project_step st log = Some (foldl project_event st log)"
  by (induction log arbitrary: st)
     (auto simp: project_step_payload [OF decodes_payload] project_event_def)

lemma Project_foldl:
  "\<forall>e \<in> set log. decodes e \<Longrightarrow> Project log = Some (foldl project_event state_init log)"
  by (simp add: Project_def project_fold)

section \<open>What the projection says of the log\<close>

text \<open>The payloads of one type, in log order.\<close>

definition decoded :: "(event_data \<Rightarrow> 'a option) \<Rightarrow> Event list \<Rightarrow> 'a list" where
  "decoded sel log = List.map_filter (MustData sel) log"

definition last_of :: "'a \<Rightarrow> 'a list \<Rightarrow> 'a" where
  "last_of d xs = (if xs = [] then d else last xs)"

lemma last_of_snoc [simp]: "last_of d (xs @ [x]) = x" "last_of d [] = d"
  by (simp_all add: last_of_def)

lemma decoded_Nil [simp]: "decoded sel [] = []"
  by (simp add: decoded_def)

lemma decoded_snoc:
  "DecodeData e = Inr p \<Longrightarrow> decoded sel (log @ [e]) = decoded sel log @ (case sel p of None \<Rightarrow> [] | Some d \<Rightarrow> [d])"
  by (simp add: decoded_def List.map_filter_def MustData_def split: option.split)

definition assistant_turns :: "Event list \<Rightarrow> MessageData list" where
  "assistant_turns log = filter (\<lambda>d. msg_role d = ''assistant'') (decoded as_message log)"

definition usage_sum :: "(Usage \<Rightarrow> int) \<Rightarrow> Event list \<Rightarrow> int" where
  "usage_sum f log = (\<Sum>d \<leftarrow> assistant_turns log. case msg_usage d of None \<Rightarrow> 0 | Some u \<Rightarrow> f u)"

text \<open>The projection of a log, as its fields define it.\<close>

definition projection_of :: "Event list \<Rightarrow> State" where
  "projection_of log =
     \<lparr>pr_state = last_of ''idle'' (map sc_to (decoded as_state_change log)),
      pr_options = foldl (\<lambda>op f. f op) options_zero
        (List.map_filter (\<lambda>e. case DecodeData e of
            Inr (DSession d) \<Rightarrow> Some (\<lambda>_. sd_options d)
          | Inr (DOptionsChange d) \<Rightarrow> Some (apply_option d) | _ \<Rightarrow> None) log),
      pr_goal = last_of None (map Some (decoded as_goal log)),
      pr_tasks = last_of [] (map td_tasks (decoded as_tasks log)),
      pr_budget = last_of (budget_zero\<lparr>bd_source := ''daemon''\<rparr>) (decoded as_budget log),
      pr_turns = int (length (assistant_turns log)),
      pr_usage = \<lparr>us_input = wrap64 (usage_sum us_input log), us_output = wrap64 (usage_sum us_output log),
        us_cached = wrap64 (usage_sum us_cached log)\<rparr>,
      pr_last = last_of [] (map ev_id log),
      pr_compacted = last_of [] (map cp_end (filter (\<lambda>d. cp_mode d = ''summarize'') (decoded as_compaction log))),
      pr_status = last_of None (map Some (decoded as_status log))\<rparr>"

lemma wrap64_0 [simp]: "wrap64 0 = 0"
  by (simp add: wrap64_def)

lemma options_snoc:
  "foldl (\<lambda>op f. f op) s (xs @ (case m of None \<Rightarrow> [] | Some f \<Rightarrow> [f])) =
     (case m of None \<Rightarrow> foldl (\<lambda>op f. f op) s xs | Some f \<Rightarrow> f (foldl (\<lambda>op f. f op) s xs))"
  by (simp split: option.split)

lemma map_filter_snoc: "List.map_filter g (xs @ [x]) = List.map_filter g xs @ (case g x of None \<Rightarrow> [] | Some y \<Rightarrow> [y])"
  by (simp add: List.map_filter_def split: option.split)

lemma projection_of_snoc:
  assumes "DecodeData e = Inr p"
  shows "projection_of (log @ [e]) = project_payload ((projection_of log)\<lparr>pr_last := ev_id e\<rparr>) p"
  using assms
  by (cases p)
     (simp_all add: projection_of_def decoded_snoc map_filter_snoc as_defs assistant_turns_def usage_sum_def
        count_message_def add_usage_def add64_wrap_left Let_def split: option.split)

lemma foldl_projection:
  assumes "\<forall>e \<in> set log. decodes e"
  shows "foldl project_event state_init log = projection_of log"
  using assms
proof (induction log rule: rev_induct)
  case Nil
  then show ?case
    by (simp add: projection_of_def state_init_def assistant_turns_def usage_sum_def usage_zero_def List.map_filter_def)
next
  case (snoc e log)
  then have "DecodeData e = Inr (payload e)" by (simp add: decodes_payload)
  with snoc show ?case by (simp add: projection_of_snoc project_event_def)
qed

lemma Project_valid: "ValidateLog log = None \<Longrightarrow> Project log = Some (projection_of log)"
  by (simp add: Project_foldl foldl_projection ValidateLog_decodes)

text \<open>Appending an event is one step of the projection.\<close>

lemma Project_snoc:
  "Project (log @ [e]) = (case Project log of None \<Rightarrow> None | Some st \<Rightarrow> project_step st e)"
  by (simp add: Project_def fold_opt_append split: option.split)

section \<open>The options of a valid log keep their limits\<close>

definition options_limits :: "Options \<Rightarrow> bool" where
  "options_limits op \<longleftrightarrow>
     ValidLabels (op_labels op) = None \<and> ValidDescription (op_description op) = None \<and>
     ValidContext (op_context op) = None \<and> ValidEffort (op_effort op) = None"

lemma options_limits_zero: "options_limits options_zero"
  by (simp add: options_limits_def options_zero_def ValidLabels_def ValidDescription_def ValidContext_def
      ValidEffort_def MaxLabels_def MaxDescription_def)

lemma validateOptions_limits: "validateOptions op = None \<Longrightarrow> options_limits op"
  by (simp add: validateOptions_def options_limits_def split: if_splits option.splits)

lemma unmarshal_into_strs:
  "unmarshal_strs raw = Some ss \<Longrightarrow> unmarshal_into dec_strs [] raw = ss"
  by (auto simp: unmarshal_strs_def unmarshal_into_def split: option.splits)

lemma unmarshal_into_str:
  "unmarshal_str raw = Some s \<Longrightarrow> unmarshal_into dec_str [] raw = s"
  by (auto simp: unmarshal_str_def unmarshal_into_def split: option.splits)

lemma apply_option_limits:
  assumes "validate_options_change d = None" "options_limits op"
  shows "options_limits (apply_option d op)"
proof -
  have v: "validate_option_value d = None"
    using assms(1) by (simp add: validate_options_change_def split: option.splits)
  consider "oc_key d \<in> {''model'', ''compaction_enabled'', ''permission_mode''}" | "oc_key d = ''labels''"
    | "oc_key d = ''description''" | "oc_key d = ''context''" | "oc_key d = ''effort''"
    using v by (auto simp: validate_option_value_def split: if_splits)
  then show ?thesis
  proof cases
    case 1
    then show ?thesis using assms(2) by (auto simp: apply_option_def options_limits_def)
  next
    case 2
    then obtain ss where "unmarshal_strs (oc_to d) = Some ss" "ValidLabels ss = None"
      using v by (auto simp: validate_option_value_def split: option.splits)
    with 2 show ?thesis using assms(2) by (simp add: apply_option_def options_limits_def unmarshal_into_strs)
  next
    case 3
    then obtain s where "unmarshal_str (oc_to d) = Some s" "ValidDescription s = None"
      using v by (auto simp: validate_option_value_def split: option.splits)
    with 3 show ?thesis using assms(2) by (simp add: apply_option_def options_limits_def unmarshal_into_str)
  next
    case 4
    then obtain s where "unmarshal_str (oc_to d) = Some s" "ValidContext s = None"
      using v by (auto simp: validate_option_value_def split: option.splits if_splits)
    with 4 show ?thesis using assms(2) by (simp add: apply_option_def options_limits_def unmarshal_into_str)
  next
    case 5
    then obtain s where "unmarshal_str (oc_to d) = Some s" "ValidEffort s = None"
      using v by (auto simp: validate_option_value_def split: option.splits)
    with 5 show ?thesis using assms(2) by (simp add: apply_option_def options_limits_def unmarshal_into_str)
  qed
qed

lemma count_message_options [simp]: "pr_options (count_message d st) = pr_options st"
  by (simp add: count_message_def Let_def split: option.split)

lemma project_payload_limits:
  assumes "validate_payload p = None" "options_limits (pr_options st)"
  shows "options_limits (pr_options (project_payload st p))"
  using assms
  by (cases p)
     (simp_all add: validate_session_def validateOptions_limits apply_option_limits split: if_splits)

lemma projected_limits:
  assumes "\<forall>e \<in> set log. ValidateEvent e = None"
  shows "options_limits (pr_options (foldl project_event state_init log))"
  using assms
proof (induction log rule: rev_induct)
  case Nil
  then show ?case by (simp add: state_init_def options_limits_zero)
next
  case (snoc e log)
  then obtain p where "DecodeData e = Inr p" "validate_payload p = None" by (auto simp: ValidateEvent_None)
  with snoc show ?case by (simp add: project_event_def payload_Inr project_payload_limits)
qed

section \<open>Properties\<close>

text \<open>On a valid log \<open>Project\<close> does not panic, and what it returns is: the state of the last
  state_change (idle without one), the goal, tasks, budget and status last set, the number of
  assistant messages, the 64-bit sums of their usage, the last event's id, and the end of the last
  summarized range.\<close>
theorem Project_fields:
  assumes "ValidateLog log = None"
  shows "\<exists>st. Project log = Some st \<and>
    pr_state st = last_of ''idle'' (map sc_to (decoded as_state_change log)) \<and>
    pr_goal st = last_of None (map Some (decoded as_goal log)) \<and>
    pr_tasks st = last_of [] (map td_tasks (decoded as_tasks log)) \<and>
    pr_budget st = last_of (budget_zero\<lparr>bd_source := ''daemon''\<rparr>) (decoded as_budget log) \<and>
    pr_status st = last_of None (map Some (decoded as_status log)) \<and>
    pr_turns st = int (length (assistant_turns log)) \<and>
    us_input (pr_usage st) = wrap64 (usage_sum us_input log) \<and>
    us_output (pr_usage st) = wrap64 (usage_sum us_output log) \<and>
    us_cached (pr_usage st) = wrap64 (usage_sum us_cached log) \<and>
    pr_last st = ev_id (last log) \<and>
    pr_compacted st = last_of [] (map cp_end (filter (\<lambda>d. cp_mode d = ''summarize'') (decoded as_compaction log)))"
proof -
  have "last_of [] (map ev_id log) = ev_id (last log)"
    using assms by (auto simp: last_of_def last_map ValidateLog_def)
  then show ?thesis using Project_valid [OF assms] by (simp add: projection_of_def)
qed

lemma Project_fields_witness:
  "\<exists>st. Project (sample_log [sample_session, sample_said ''hi'', sample_answer ''ok'']) = Some st \<and>
     pr_state st = ''idle'' \<and> pr_turns st = 1 \<and> us_input (pr_usage st) = 10"
proof -
  let ?log = "sample_log [sample_session, sample_said ''hi'', sample_answer ''ok'']"
  have "decoded as_state_change ?log = []" "length (assistant_turns ?log) = 1" "usage_sum us_input ?log = 10"
    by (simp_all add: sample_log3 decoded_def List.map_filter_simps assistant_turns_def usage_sum_def message_zero_def)
  then show ?thesis using Project_fields [OF sample_log_valid3 [of "''hi''" "''ok''"]]
    by (auto simp: wrap64_def)
qed

text \<open>The options a valid log projects keep the limits on labels, description, context and effort,
  whatever options_change events it holds.\<close>
theorem Project_options_limits:
  assumes "ValidateLog log = None"
  shows "\<exists>st. Project log = Some st \<and> ValidLabels (op_labels (pr_options st)) = None \<and>
    ValidDescription (op_description (pr_options st)) = None \<and>
    ValidContext (op_context (pr_options st)) = None \<and> ValidEffort (op_effort (pr_options st)) = None"
proof -
  have "options_limits (pr_options (foldl project_event state_init log))"
    using assms by (intro projected_limits) (auto dest: ValidateLog_events(2))
  then show ?thesis
    using Project_foldl [of log] ValidateLog_decodes [OF assms] by (auto simp: options_limits_def)
qed

lemma Project_options_limits_witness:
  "\<exists>st. Project (sample_log [sample_session, sample_said ''hi'', sample_answer ''ok'']) = Some st \<and>
     ValidEffort (op_effort (pr_options st)) = None"
  using Project_options_limits [OF sample_log_valid3] by blast

end
