(* ===== verification/Render.thy ===== *)
theory Render
  imports Projection
begin

text \<open>
  \<open>protocol/render.go\<close>: the Current state block of a request and the veto message. A user
  message's time is printed to the minute (\<open>format_minute\<close> is the layout
  \<open>2006-01-02 15:04Z\<close> of \<open>time.Format\<close>). \<open>keep_said\<close> and \<open>said_lines\<close> are the two loops of
  \<open>renderSaid\<close>: which lines fit, and the lines with a marker where some were left out.

  The lemmas show that the lines kept are the first and a run at the end that fits the bound, that
  every message is either kept or counted by a marker, and that the renderers do not panic on a valid
  log.
\<close>

section \<open>The Current state block\<close>

definition em_dash :: string where
  "em_dash = [CHR 0xE2, CHR 0x80, CHR 0x94]"

definition renderTaskLine :: "Task \<Rightarrow> string" where
  "renderTaskLine t =
     (if tk_status t = ''done'' then ''- [x] '' @ tk_id t @ '' '' @ tk_title t
      else if tk_status t = ''in_progress'' then ''- [>] '' @ tk_id t @ '' '' @ tk_title t
      else if tk_status t = ''pending'' then ''- [ ] '' @ tk_id t @ '' '' @ tk_title t
      else if tk_status t = ''blocked''
      then ''- [!] '' @ tk_id t @ '' '' @ tk_title t @ '' '' @ em_dash @ '' blocked: '' @ tk_note t
      else ''- [-] '' @ tk_id t @ '' '' @ tk_title t @ '' '' @ em_dash @ '' '' @ tk_status t)"

definition RenderTasks :: "Task list \<Rightarrow> string" where
  "RenderTasks tasks =
     (if tasks = [] then ''Tasks: none''
      else (let done_n = length (filter (\<lambda>t. tk_status t = ''done'') tasks) in
        join [newline]
          ((''Tasks ('' @ itoa (int done_n) @ ''/'' @ itoa (int (length tasks)) @ '' done):'') #
           map renderTaskLine tasks)))"

definition RenderCurrentState :: "State \<Rightarrow> string" where
  "RenderCurrentState s =
     join [newline]
       ([''## Current state''] @
        [case pr_goal s of
           None \<Rightarrow> ''Goal: none''
         | Some g \<Rightarrow> if gl_state g = ''cleared'' then ''Goal: none''
                     else ''Goal: '' @ gl_condition g @ '' ('' @ gl_state g @ '')''] @
        (if pr_tasks s \<noteq> [] then [RenderTasks (pr_tasks s)] else []) @
        [if bd_turns (pr_budget s) > 0
         then ''Budget: turn '' @ itoa (pr_turns s) @ '' of '' @ itoa (bd_turns (pr_budget s))
         else ''Budget: turn '' @ itoa (pr_turns s) @ '' (unlimited)''])"

section \<open>What the person said\<close>

definition MaxSaidBytes :: nat where "MaxSaidBytes = 4096"

text \<open>The date of a day count from 1970-01-01 in the Gregorian calendar.\<close>

definition civil_date :: "int \<Rightarrow> int \<times> int \<times> int" where
  "civil_date days =
     (let z = days + 719468;
          era = z div 146097;
          doe = z mod 146097;
          yoe = (doe - doe div 1460 + doe div 36524 - doe div 146096) div 365;
          doy = doe - (365 * yoe + yoe div 4 - yoe div 100);
          mp = (5 * doy + 2) div 153;
          d = doy - (153 * mp + 2) div 5 + 1;
          m = (if mp < 10 then mp + 3 else mp - 9)
      in (yoe + era * 400 + (if m \<le> 2 then 1 else 0), m, d))"

definition pad_left :: "nat \<Rightarrow> string \<Rightarrow> string" where
  "pad_left n s = replicate (n - length s) (CHR ''0'') @ s"

text \<open>\<open>t.UTC().Format("2006-01-02 15:04Z")\<close> of a time in nanoseconds.\<close>

definition format_minute :: "int \<Rightarrow> string" where
  "format_minute ns =
     (let secs = ns div 1000000000;
          tod = secs mod 86400;
          (y, m, d) = civil_date (secs div 86400);
          year = (if y < 0 then CHR ''-'' # pad_left 4 (itoa (- y)) else pad_left 4 (itoa y))
      in year @ ''-'' @ pad_left 2 (itoa m) @ ''-'' @ pad_left 2 (itoa d) @ '' '' @
         pad_left 2 (itoa (tod div 3600)) @ '':'' @ pad_left 2 (itoa (tod mod 3600 div 60)) @ ''Z'')"

text \<open>The first loop: one line for each user message.\<close>

definition said_line :: "Event \<Rightarrow> MessageData \<Rightarrow> string" where
  "said_line e d = ''- '' @ format_minute (ev_time e) @ '': '' @ replace_newline [newline, CHR '' '', CHR '' ''] (msg_content d)"

definition said_step :: "string list \<Rightarrow> Event \<Rightarrow> string list option" where
  "said_step lines e =
     (if ev_type e \<noteq> ''message'' then Some lines
      else map_option (\<lambda>d. if msg_role d = ''user'' then lines @ [said_line e d] else lines) (MustData as_message e))"

text \<open>The second loop, from the last line down to line 1: the lines that fit.\<close>

fun keep_said :: "string list \<Rightarrow> nat \<Rightarrow> nat \<Rightarrow> nat set \<Rightarrow> nat set" where
  "keep_said lines 0 sz kept = kept"
| "keep_said lines (Suc i) sz kept =
     (if sz + 1 + length (lines ! Suc i) > MaxSaidBytes then kept
      else keep_said lines i (sz + (1 + length (lines ! Suc i))) (insert (Suc i) kept))"

text \<open>The third loop: a line that is kept, or one marker for a run that is not.\<close>

definition left_run :: "string list \<Rightarrow> nat set \<Rightarrow> nat \<Rightarrow> nat" where
  "left_run lines kept i = length (takeWhile (\<lambda>j. j \<notin> kept) [i..<length lines])"

function said_lines :: "string list \<Rightarrow> nat set \<Rightarrow> nat \<Rightarrow> string list" where
  "said_lines lines kept i =
     (if i \<ge> length lines then []
      else if i \<in> kept then (lines ! i) # said_lines lines kept (i + 1)
      else (''- ('' @ itoa (int (left_run lines kept i)) @ '' left out)'') #
           said_lines lines kept (i + left_run lines kept i))"
  by pat_completeness auto

lemma left_run_pos: "i < length lines \<Longrightarrow> i \<notin> kept \<Longrightarrow> 0 < left_run lines kept i"
  by (simp add: left_run_def upt_conv_Cons)

termination said_lines
proof (relation "measure (\<lambda>(lines, kept, i). length lines - i)")
  fix lines :: "string list" and kept i
  assume "\<not> i \<ge> length lines" "i \<notin> kept"
  then show "((lines, kept, i + left_run lines kept i), lines, kept, i) \<in> measure (\<lambda>(lines, kept, i). length lines - i)"
    using left_run_pos [of i lines kept] by simp
qed auto

declare said_lines.simps [simp del]

definition said_block :: "string list \<Rightarrow> string" where
  "said_block lines =
     (if lines = [] then []
      else (let kept = keep_said lines (length lines - 1) (length (lines ! 0)) {0} in
        join [newline]
          ((''The person said ('' @ itoa (int (card kept)) @ '' of '' @ itoa (int (length lines)) @ '', oldest first):'') #
           said_lines lines kept 0)))"

definition renderSaid :: "Event list \<Rightarrow> string option" where
  "renderSaid log = map_option said_block (fold_opt said_step [] log)"

definition RenderStateBlock :: "Event list \<Rightarrow> string option" where
  "RenderStateBlock log =
     (case Project log of
        None \<Rightarrow> None
      | Some st \<Rightarrow>
          (case renderSaid log of
             None \<Rightarrow> None
           | Some said \<Rightarrow>
               Some (if said \<noteq> [] then RenderCurrentState st @ [newline] @ said else RenderCurrentState st)))"

section \<open>Vetoes\<close>

text \<open>The index after the last assistant message: the loop counts down from the end.\<close>

fun after_assistant :: "Event list \<Rightarrow> nat \<Rightarrow> nat option" where
  "after_assistant log 0 = Some 0"
| "after_assistant log (Suc i) =
     (if ev_type (log ! i) = ''message''
      then (case MustData as_message (log ! i) of
              None \<Rightarrow> None
            | Some d \<Rightarrow> if msg_role d = ''assistant'' then Some (i + 1) else after_assistant log i)
      else after_assistant log i)"

definition veto_step :: "StopVetoData list \<Rightarrow> Event \<Rightarrow> StopVetoData list option" where
  "veto_step out e =
     (if ev_type e = ''stop_veto'' then map_option (\<lambda>d. out @ [d]) (MustData as_stop_veto e) else Some out)"

definition OutstandingVetoes :: "Event list \<Rightarrow> StopVetoData list option" where
  "OutstandingVetoes log =
     (case after_assistant log (length log) of
        None \<Rightarrow> None
      | Some start \<Rightarrow> fold_opt veto_step [] (drop start log))"

definition RenderVetoes :: "StopVetoData list \<Rightarrow> string" where
  "RenderVetoes vetoes =
     (if vetoes = [] then []
      else join [newline]
        (''Before stopping, the following must be addressed:'' #
         map (\<lambda>v. ''- ('' @ sv_module v @ '') '' @ sv_reason v) vetoes))"

section \<open>The renderers return on every log that decodes\<close>

definition user_lines :: "Event list \<Rightarrow> string list" where
  "user_lines log = List.map_filter
     (\<lambda>e. case MustData as_message e of None \<Rightarrow> None
        | Some d \<Rightarrow> if msg_role d = ''user'' then Some (said_line e d) else None) log"

lemma MustData_type:
  assumes "decodes e"
  shows "ev_type e = ''message'' \<longleftrightarrow> (\<exists>d. MustData as_message e = Some d)"
    and "ev_type e = ''stop_veto'' \<longleftrightarrow> (\<exists>d. MustData as_stop_veto e = Some d)"
    and "ev_type e = ''compaction'' \<longleftrightarrow> (\<exists>d. MustData as_compaction e = Some d)"
    and "ev_type e = ''context'' \<longleftrightarrow> (\<exists>d. MustData as_context e = Some d)"
    and "ev_type e = ''tool_result'' \<longleftrightarrow> (\<exists>d. MustData as_tool_result e = Some d)"
    and "ev_type e = ''tool_call'' \<longleftrightarrow> (\<exists>d. MustData as_tool_call e = Some d)"
proof -
  obtain p where p: "DecodeData e = Inr p" using assms by (auto simp: decodes_def)
  then have t: "ev_type e = payload_type p" using DecodeData_type by simp
  show "ev_type e = ''message'' \<longleftrightarrow> (\<exists>d. MustData as_message e = Some d)"
    "ev_type e = ''stop_veto'' \<longleftrightarrow> (\<exists>d. MustData as_stop_veto e = Some d)"
    "ev_type e = ''compaction'' \<longleftrightarrow> (\<exists>d. MustData as_compaction e = Some d)"
    "ev_type e = ''context'' \<longleftrightarrow> (\<exists>d. MustData as_context e = Some d)"
    "ev_type e = ''tool_result'' \<longleftrightarrow> (\<exists>d. MustData as_tool_result e = Some d)"
    "ev_type e = ''tool_call'' \<longleftrightarrow> (\<exists>d. MustData as_tool_call e = Some d)"
    using p t by (cases p; simp add: MustData_def as_defs)+
qed

lemma fold_said:
  assumes "\<forall>e \<in> set log. decodes e"
  shows "fold_opt said_step ls log = Some (ls @ user_lines log)"
  using assms
proof (induction log arbitrary: ls)
  case Nil
  then show ?case by (simp add: user_lines_def List.map_filter_simps)
next
  case (Cons e log)
  then have t: "ev_type e = ''message'' \<longleftrightarrow> (\<exists>d. MustData as_message e = Some d)" by (simp add: MustData_type)
  show ?case
  proof (cases "MustData as_message e")
    case None
    with t Cons show ?thesis by (simp add: said_step_def user_lines_def List.map_filter_simps)
  next
    case (Some d)
    with t Cons show ?thesis by (simp add: said_step_def user_lines_def List.map_filter_simps)
  qed
qed

lemma renderSaid_decodes: "\<forall>e \<in> set log. decodes e \<Longrightarrow> renderSaid log = Some (said_block (user_lines log))"
  by (simp add: renderSaid_def fold_said)

section \<open>Which lines are kept\<close>

text \<open>The first line and those from \<open>k\<close> on, as they are printed.\<close>

definition said_part :: "string list \<Rightarrow> nat \<Rightarrow> string" where
  "said_part lines k = join [newline] (lines ! 0 # drop k lines)"

lemma said_part_step:
  "k < length lines \<Longrightarrow> length (said_part lines k) = length (said_part lines (Suc k)) + 1 + length (lines ! k)"
  by (simp add: said_part_def length_join Cons_nth_drop_Suc [symmetric])

lemma said_part_end: "length (said_part lines (length lines)) = length (lines ! 0)"
  by (simp add: said_part_def)

lemma insert_upt: "i < n \<Longrightarrow> insert i {Suc i..<n} = {i..<n}"
  by auto

text \<open>The loop keeps the lines from some \<open>k\<close> on: they fit, and one more would not.\<close>

lemma keep_said_suffix:
  assumes "i < length lines"
  shows "\<exists>k. 1 \<le> k \<and> k \<le> Suc i \<and>
    keep_said lines i (length (said_part lines (Suc i))) (insert 0 {Suc i..<length lines}) = insert 0 {k..<length lines} \<and>
    (k \<le> i \<longrightarrow> length (said_part lines k) \<le> MaxSaidBytes) \<and>
    (1 < k \<longrightarrow> length (said_part lines (k - 1)) > MaxSaidBytes)"
  using assms
proof (induction i)
  case 0
  then show ?case by (intro exI [of _ 1]) simp
next
  case (Suc i)
  let ?n = "length lines"
  have step: "length (said_part lines (Suc i)) = length (said_part lines (Suc (Suc i))) + 1 + length (lines ! Suc i)"
    using Suc.prems by (rule said_part_step)
  show ?case
  proof (cases "length (said_part lines (Suc i)) > MaxSaidBytes")
    case True
    with step show ?thesis by (intro exI [of _ "Suc (Suc i)"]) simp
  next
    case False
    have "insert (Suc i) (insert 0 {Suc (Suc i)..<?n}) = insert 0 {Suc i..<?n}" using Suc.prems by auto
    with False step have one: "keep_said lines (Suc i) (length (said_part lines (Suc (Suc i)))) (insert 0 {Suc (Suc i)..<?n}) =
        keep_said lines i (length (said_part lines (Suc i))) (insert 0 {Suc i..<?n})"
      by simp
    from Suc obtain k where k: "1 \<le> k" "k \<le> Suc i"
      "keep_said lines i (length (said_part lines (Suc i))) (insert 0 {Suc i..<?n}) = insert 0 {k..<?n}"
      "k \<le> i \<longrightarrow> length (said_part lines k) \<le> MaxSaidBytes"
      "1 < k \<longrightarrow> length (said_part lines (k - 1)) > MaxSaidBytes"
      by auto
    have "length (said_part lines k) \<le> MaxSaidBytes"
      using k(2,4) False by (cases "k = Suc i") simp_all
    with one k show ?thesis by (intro exI [of _ k]) simp
  qed
qed

lemma keep_said_start:
  assumes "lines \<noteq> []"
  obtains k where "1 \<le> k" "k \<le> length lines"
    "keep_said lines (length lines - 1) (length (lines ! 0)) {0} = insert 0 {k..<length lines}"
    "k < length lines \<Longrightarrow> length (said_part lines k) \<le> MaxSaidBytes"
    "1 < k \<Longrightarrow> length (said_part lines (k - 1)) > MaxSaidBytes"
proof -
  obtain i where n: "length lines = Suc i" using assms by (cases lines) auto
  from keep_said_suffix [of i lines] n obtain k where
    "1 \<le> k" "k \<le> Suc i"
    "keep_said lines i (length (said_part lines (Suc i))) (insert 0 {Suc i..<Suc i}) = insert 0 {k..<Suc i}"
    "k \<le> i \<longrightarrow> length (said_part lines k) \<le> MaxSaidBytes"
    "1 < k \<longrightarrow> length (said_part lines (k - 1)) > MaxSaidBytes"
    by auto
  moreover have "length (said_part lines (Suc i)) = length (lines ! 0)" using said_part_end [of lines] n by simp
  ultimately show ?thesis using that [of k] n by (simp add: less_Suc_eq_le)
qed

section \<open>What is printed of them\<close>

definition left_marker :: "nat \<Rightarrow> string list" where
  "left_marker c = (if c = 0 then [] else [''- ('' @ itoa (int c) @ '' left out)''])"

lemma said_lines_kept: "1 \<le> k \<Longrightarrow> k \<le> i \<Longrightarrow> said_lines lines (insert 0 {k..<length lines}) i = drop i lines"
proof (induction "length lines - i" arbitrary: i)
  case 0
  then show ?case by (subst said_lines.simps) simp
next
  case (Suc m)
  then have "i < length lines" by simp
  with Suc show ?case by (subst said_lines.simps) (simp add: Cons_nth_drop_Suc)
qed

lemma left_run_gap:
  assumes "1 \<le> i" "i < k" "k \<le> length lines"
  shows "left_run lines (insert 0 {k..<length lines}) i = k - i"
proof -
  have "[i..<length lines] = [i..<k] @ [k..<length lines]" using assms upt_add_eq_append [of i k "length lines - k"] by simp
  moreover have "takeWhile (\<lambda>j. j \<notin> insert 0 {k..<length lines}) [k..<length lines] = []"
    by (cases "k < length lines") (simp_all add: upt_conv_Cons)
  moreover have "takeWhile (\<lambda>j. j \<notin> insert 0 {k..<length lines}) ([i..<k] @ [k..<length lines]) =
      [i..<k] @ takeWhile (\<lambda>j. j \<notin> insert 0 {k..<length lines}) [k..<length lines]"
    by (rule takeWhile_append2) (use assms in auto)
  ultimately show ?thesis unfolding left_run_def by (simp only: append_Nil2 length_upt)
qed

lemma said_lines_all:
  assumes "1 \<le> k" "k \<le> length lines"
  shows "said_lines lines (insert 0 {k..<length lines}) 0 = lines ! 0 # left_marker (k - 1) @ drop k lines"
proof (cases "k = 1")
  case True
  moreover have "lines \<noteq> []" using assms by auto
  ultimately show ?thesis using assms
    by (subst said_lines.simps) (simp add: said_lines_kept left_marker_def)
next
  case False
  with assms have k: "1 < k" by simp
  then have "left_run lines (insert 0 {k..<length lines}) 1 = k - 1" using assms by (intro left_run_gap) simp_all
  then have "said_lines lines (insert 0 {k..<length lines}) 1 = left_marker (k - 1) @ drop k lines"
    using assms k by (subst said_lines.simps) (simp add: said_lines_kept left_marker_def)
  moreover have "lines \<noteq> []" using assms by auto
  ultimately show ?thesis using assms by (subst said_lines.simps) simp
qed

lemma renderSaid_lines:
  assumes "\<forall>e \<in> set log. decodes e" "user_lines log \<noteq> []"
  shows "\<exists>k. 1 \<le> k \<and> k \<le> length (user_lines log) \<and>
    renderSaid log = Some (join [newline]
      ((''The person said ('' @ itoa (1 + int (length (user_lines log) - k)) @ '' of '' @
          itoa (int (length (user_lines log))) @ '', oldest first):'') #
       hd (user_lines log) # left_marker (k - 1) @ drop k (user_lines log))) \<and>
    (k < length (user_lines log) \<longrightarrow> length (said_part (user_lines log) k) \<le> MaxSaidBytes) \<and>
    (1 < k \<longrightarrow> length (said_part (user_lines log) (k - 1)) > MaxSaidBytes)"
proof -
  let ?ls = "user_lines log"
  obtain k where k: "1 \<le> k" "k \<le> length ?ls"
    "keep_said ?ls (length ?ls - 1) (length (?ls ! 0)) {0} = insert 0 {k..<length ?ls}"
    "k < length ?ls \<Longrightarrow> length (said_part ?ls k) \<le> MaxSaidBytes"
    "1 < k \<Longrightarrow> length (said_part ?ls (k - 1)) > MaxSaidBytes"
    using keep_said_start [OF assms(2)] by blast
  have "card (insert 0 {k..<length ?ls}) = Suc (length ?ls - k)" using k(1) by simp
  then have "renderSaid log = Some (join [newline]
      ((''The person said ('' @ itoa (1 + int (length ?ls - k)) @ '' of '' @ itoa (int (length ?ls)) @ '', oldest first):'') #
       hd ?ls # left_marker (k - 1) @ drop k ?ls))"
    using assms k(1-3) by (simp add: renderSaid_decodes said_block_def said_lines_all hd_conv_nth Let_def)
  with k show ?thesis by blast
qed

section \<open>Vetoes\<close>

text \<open>The vetoes after the last assistant message, by the list.\<close>

definition is_assistant :: "Event \<Rightarrow> bool" where
  "is_assistant e = (case MustData as_message e of None \<Rightarrow> False | Some d \<Rightarrow> msg_role d = ''assistant'')"

definition since_assistant :: "Event list \<Rightarrow> Event list" where
  "since_assistant log = rev (takeWhile (\<lambda>e. \<not> is_assistant e) (rev log))"

lemma after_assistant_drop:
  assumes "i \<le> length log" "\<forall>e \<in> set log. decodes e"
  shows "\<exists>s. after_assistant log i = Some s \<and> s \<le> i \<and> drop s (take i log) = since_assistant (take i log)"
  using assms(1)
proof (induction i)
  case 0
  then show ?case by (simp add: since_assistant_def)
next
  case (Suc i)
  then have i: "i < length log" by simp
  with assms(2) have "decodes (log ! i)" by simp
  then have t: "ev_type (log ! i) = ''message'' \<longleftrightarrow> (\<exists>d. MustData as_message (log ! i) = Some d)" by (simp add: MustData_type)
  have tk: "take (Suc i) log = take i log @ [log ! i]" using i by (simp add: take_Suc_conv_app_nth)
  from Suc i obtain s where s: "after_assistant log i = Some s" "s \<le> i" "drop s (take i log) = since_assistant (take i log)"
    by auto
  have len: "length (take i log) = i" using i by simp
  show ?case
  proof (cases "is_assistant (log ! i)")
    case True
    then obtain d where "MustData as_message (log ! i) = Some d" "msg_role d = ''assistant''"
      by (auto simp: is_assistant_def split: option.splits)
    with t True tk len show ?thesis by (simp add: since_assistant_def)
  next
    case False
    then have "after_assistant log (Suc i) = after_assistant log i"
      using t by (auto simp: is_assistant_def split: option.splits)
    with False s tk len show ?thesis by (intro exI [of _ s]) (simp add: since_assistant_def)
  qed
qed

lemma fold_veto:
  assumes "\<forall>e \<in> set log. decodes e"
  shows "fold_opt veto_step vs log = Some (vs @ decoded as_stop_veto log)"
  using assms
proof (induction log arbitrary: vs)
  case (Cons e log)
  then have t: "ev_type e = ''stop_veto'' \<longleftrightarrow> (\<exists>d. MustData as_stop_veto e = Some d)" by (simp add: MustData_type)
  then show ?case using Cons
    by (cases "MustData as_stop_veto e") (simp_all add: veto_step_def decoded_def List.map_filter_simps)
qed simp

lemma OutstandingVetoes_decodes:
  assumes "\<forall>e \<in> set log. decodes e"
  shows "OutstandingVetoes log = Some (decoded as_stop_veto (since_assistant log))"
proof -
  obtain s where s: "after_assistant log (length log) = Some s" "drop s log = since_assistant log"
    using after_assistant_drop [of "length log" log] assms by auto
  moreover have "\<forall>e \<in> set (drop s log). decodes e" using assms by (meson in_set_dropD)
  ultimately show ?thesis by (simp add: OutstandingVetoes_def fold_veto)
qed

lemma RenderStateBlock_decodes:
  assumes "\<forall>e \<in> set log. decodes e"
  shows "\<exists>block. RenderStateBlock log = Some block"
  using assms by (simp add: RenderStateBlock_def Project_foldl renderSaid_decodes)

section \<open>Properties\<close>

text \<open>Of the user messages of a valid log, \<open>renderSaid\<close> prints the first one and the longest run at
  the end that fits: with the first line it is at most \<open>MaxSaidBytes\<close> when it holds any line, and one
  message more would pass the bound. The lines in between stand as one marker with their number, and
  the heading counts the ones kept.\<close>
theorem renderSaid_bound:
  assumes "ValidateLog log = None" "user_lines log \<noteq> []"
  shows "\<exists>k. 1 \<le> k \<and> k \<le> length (user_lines log) \<and>
    renderSaid log = Some (join [newline]
      ((''The person said ('' @ itoa (1 + int (length (user_lines log) - k)) @ '' of '' @
          itoa (int (length (user_lines log))) @ '', oldest first):'') #
       hd (user_lines log) # left_marker (k - 1) @ drop k (user_lines log))) \<and>
    (k < length (user_lines log) \<longrightarrow> length (said_part (user_lines log) k) \<le> MaxSaidBytes) \<and>
    (1 < k \<longrightarrow> length (said_part (user_lines log) (k - 1)) > MaxSaidBytes)"
  using assms ValidateLog_decodes by (intro renderSaid_lines) blast+

lemma renderSaid_bound_witness:
  "\<exists>k. renderSaid (sample_log [sample_session, sample_said ''hi'', sample_answer ''ok'']) = Some k \<and> k \<noteq> []"
proof -
  let ?log = "sample_log [sample_session, sample_said ''hi'', sample_answer ''ok'']"
  have "user_lines ?log \<noteq> []"
    by (simp add: sample_log3 user_lines_def List.map_filter_simps message_zero_def)
  from renderSaid_bound [OF sample_log_valid3 this] show ?thesis by (auto intro: join_nonempty)
qed

text \<open>On a valid log the outstanding vetoes are the payloads of the stop_veto events after the last
  assistant message, in log order.\<close>
theorem OutstandingVetoes_valid:
  assumes "ValidateLog log = None"
  shows "OutstandingVetoes log = Some (decoded as_stop_veto (since_assistant log))"
  using assms ValidateLog_decodes by (intro OutstandingVetoes_decodes) blast

lemma OutstandingVetoes_valid_witness:
  "OutstandingVetoes (sample_log [sample_session, sample_said ''hi'', sample_answer ''ok'']) \<noteq> None"
  using OutstandingVetoes_valid [OF sample_log_valid3 [of "''hi''" "''ok''"]] by simp

end
