(* ===== verification/Assemble.thy ===== *)
theory Assemble
  imports Render
begin

text \<open>
  \<open>protocol/assemble.go\<close>: the request body as a function of the log. \<open>summarizeAt\<close> is an option,
  \<^term>\<open>None\<close> for -1. The lemmas give the parts of the result, show that it does not panic on a log
  that decodes, that nothing logged before the last summary is in it, and that appending events which
  are no compaction and no prefix context keeps what was sent before, up to the vetoes at its end.
\<close>

record Segment =
  seg_kind :: string
  seg_id :: string
  seg_text :: string

section \<open>Compactions\<close>

text \<open>The map from an id to its position; a later event of the same id replaces an earlier one.\<close>

fun positions :: "nat \<Rightarrow> Event list \<Rightarrow> (string \<Rightarrow> nat option) \<Rightarrow> string \<Rightarrow> nat option" where
  "positions i [] pos = pos"
| "positions i (e # es) pos = positions (i + 1) es (pos(ev_id e := Some i))"

type_synonym scan = "nat option \<times> (nat \<times> nat) list"

definition compaction_step :: "(string \<Rightarrow> nat option) \<Rightarrow> nat \<Rightarrow> CompactionData \<Rightarrow> scan \<Rightarrow> scan" where
  "compaction_step pos i d s =
     (let (summarizeAt, cleared) = s in
      if cp_mode d = ''summarize'' then (Some i, cleared)
      else if cp_mode d = ''clear_results''
      then (case (pos (cp_start d), pos (cp_end d)) of
              (Some lo, Some hi) \<Rightarrow> if lo \<le> hi then (summarizeAt, cleared @ [(lo, hi)]) else (summarizeAt, cleared)
            | _ \<Rightarrow> (summarizeAt, cleared))
      else (summarizeAt, cleared))"

fun scan_compactions :: "(string \<Rightarrow> nat option) \<Rightarrow> nat \<Rightarrow> Event list \<Rightarrow> scan \<Rightarrow> scan option" where
  "scan_compactions pos i [] s = Some s"
| "scan_compactions pos i (e # es) s =
     (if ev_type e \<noteq> ''compaction'' then scan_compactions pos (i + 1) es s
      else (case MustData as_compaction e of
              None \<Rightarrow> None
            | Some d \<Rightarrow> scan_compactions pos (i + 1) es (compaction_step pos i d s)))"

definition is_cleared :: "(nat \<times> nat) list \<Rightarrow> nat \<Rightarrow> bool" where
  "is_cleared cleared i \<longleftrightarrow> list_ex (\<lambda>(lo, hi). lo \<le> i \<and> i \<le> hi) cleared"

section \<open>Segments\<close>

definition prefix_segment :: "Event \<Rightarrow> Segment list option" where
  "prefix_segment e =
     (if ev_type e = ''context''
      then map_option (\<lambda>d. if cx_slot d = ''prefix''
             then [\<lparr>seg_kind = ''prefix_context'', seg_id = ev_id e, seg_text = cx_content d\<rparr>] else [])
             (MustData as_context e)
      else Some [])"

definition conversation_segment :: "(nat \<times> nat) list \<Rightarrow> nat \<Rightarrow> Event \<Rightarrow> Segment list option" where
  "conversation_segment cleared i e =
     (if ev_type e = ''context''
      then map_option (\<lambda>d. if cx_slot d = ''suffix''
             then [\<lparr>seg_kind = ''suffix_context'', seg_id = ev_id e, seg_text = cx_content d\<rparr>] else [])
             (MustData as_context e)
      else if ev_type e = ''message'' then Some [\<lparr>seg_kind = ''message'', seg_id = ev_id e, seg_text = []\<rparr>]
      else if ev_type e = ''thinking'' then Some [\<lparr>seg_kind = ''thinking'', seg_id = ev_id e, seg_text = []\<rparr>]
      else if ev_type e = ''tool_call'' then Some [\<lparr>seg_kind = ''tool_call'', seg_id = ev_id e, seg_text = []\<rparr>]
      else if ev_type e = ''tool_result''
      then (if is_cleared cleared i
            then map_option (\<lambda>d.
                   [\<lparr>seg_kind = ''tool_result_cleared'', seg_id = ev_id e,
                     seg_text = ''[result cleared: '' @ tr_tool d @ '', '' @ itoa (int (length (tr_content d))) @ '' bytes]''\<rparr>])
                   (MustData as_tool_result e)
            else Some [\<lparr>seg_kind = ''tool_result'', seg_id = ev_id e, seg_text = []\<rparr>])
      else Some [])"

fun segments :: "(nat \<Rightarrow> Event \<Rightarrow> Segment list option) \<Rightarrow> nat \<Rightarrow> Event list \<Rightarrow> Segment list option" where
  "segments f i [] = Some []"
| "segments f i (e # es) =
     (case f i e of
        None \<Rightarrow> None
      | Some ss \<Rightarrow> (case segments f (i + 1) es of None \<Rightarrow> None | Some rest \<Rightarrow> Some (ss @ rest)))"

definition summary_segments :: "Event list \<Rightarrow> nat option \<Rightarrow> Segment list option" where
  "summary_segments log summarizeAt =
     (case summarizeAt of
        None \<Rightarrow> Some []
      | Some k \<Rightarrow>
          (case (MustData as_compaction (log ! k), RenderStateBlock (take (k + 1) log)) of
             (Some d, Some block) \<Rightarrow>
               Some [\<lparr>seg_kind = ''summary'', seg_id = ev_id (log ! k), seg_text = cp_summary d\<rparr>,
                     \<lparr>seg_kind = ''state'', seg_id = [], seg_text = block\<rparr>]
           | _ \<Rightarrow> None))"

definition veto_segments :: "Event list \<Rightarrow> Segment list option" where
  "veto_segments log =
     map_option (\<lambda>vs. let text = RenderVetoes vs in
       if text \<noteq> [] then [\<lparr>seg_kind = ''vetoes'', seg_id = [], seg_text = text\<rparr>] else []) (OutstandingVetoes log)"

definition Assemble :: "Event list \<Rightarrow> Segment list option" where
  "Assemble log =
     (let pos = positions 0 log Map.empty in
      case scan_compactions pos 0 log (None, []) of
        None \<Rightarrow> None
      | Some (summarizeAt, cleared) \<Rightarrow>
          (let start = (case summarizeAt of None \<Rightarrow> 0 | Some k \<Rightarrow> k + 1) in
           case (segments (\<lambda>i. prefix_segment) start (drop start log), summary_segments log summarizeAt,
                 segments (conversation_segment cleared) start (drop start log), veto_segments log) of
             (Some a, Some b, Some c, Some d) \<Rightarrow> Some (a @ b @ c @ d)
           | _ \<Rightarrow> None))"

section \<open>The result in parts\<close>

lemma segments_append:
  "segments f i (xs @ ys) =
     (case (segments f i xs, segments f (i + length xs) ys) of (Some a, Some b) \<Rightarrow> Some (a @ b) | _ \<Rightarrow> None)"
  by (induction f i xs rule: segments.induct) (simp_all split: option.split)

lemma segments_total: "(\<And>i e. e \<in> set es \<Longrightarrow> f i e \<noteq> None) \<Longrightarrow> \<exists>ss. segments f i es = Some ss"
proof (induction es arbitrary: i)
  case (Cons e es)
  then obtain ss where ss: "f i e = Some ss" by fastforce
  from Cons have "\<exists>rest. segments f (i + 1) es = Some rest" by simp
  with ss show ?case by auto
qed simp

lemma scan_append:
  "scan_compactions pos i (xs @ ys) s =
     (case scan_compactions pos i xs s of
        None \<Rightarrow> None | Some s' \<Rightarrow> scan_compactions pos (i + length xs) ys s')"
  by (induction pos i xs s rule: scan_compactions.induct) (simp_all split: option.split)

lemma scan_total:
  assumes "\<forall>e \<in> set es. decodes e"
  shows "\<exists>s'. scan_compactions pos i es s = Some s'"
  using assms
proof (induction es arbitrary: i s)
  case (Cons e es)
  then show ?case using MustData_type(3) [of e] by (cases "MustData as_compaction e") auto
qed simp

lemma prefix_segment_total: "decodes e \<Longrightarrow> prefix_segment e \<noteq> None"
  using MustData_type(4) [of e] by (auto simp: prefix_segment_def)

lemma conversation_segment_total: "decodes e \<Longrightarrow> conversation_segment cleared i e \<noteq> None"
  using MustData_type(4,5) [of e] by (auto simp: conversation_segment_def)

text \<open>A summary is at the position of a summarize compaction of the log.\<close>

definition is_summary :: "Event \<Rightarrow> bool" where
  "is_summary e = (case MustData as_compaction e of None \<Rightarrow> False | Some d \<Rightarrow> cp_mode d = ''summarize'')"

lemma compaction_step_fst:
  "fst (compaction_step pos i d s) = (if cp_mode d = ''summarize'' then Some i else fst s)"
  by (simp add: compaction_step_def split: prod.split option.split)

lemma scan_summary:
  assumes "scan_compactions pos i es (a, c) = Some (s, c')"
  shows "(s = a \<and> (\<forall>e \<in> set es. \<not> is_summary e)) \<or>
    (\<exists>k < length es. s = Some (i + k) \<and> is_summary (es ! k) \<and> (\<forall>j. k < j \<and> j < length es \<longrightarrow> \<not> is_summary (es ! j)))"
  using assms
proof (induction es arbitrary: i a c)
  case (Cons e es)
  have later: "\<exists>k < length (e # es). Some (i + 1 + m) = Some (i + k) \<and> is_summary ((e # es) ! k) \<and>
      (\<forall>j. k < j \<and> j < length (e # es) \<longrightarrow> \<not> is_summary ((e # es) ! j))"
    if "m < length es" "is_summary (es ! m)" "\<forall>j. m < j \<and> j < length es \<longrightarrow> \<not> is_summary (es ! j)" for m
    using that by (intro exI [of _ "Suc m"]) (auto simp: nth_Cons split: nat.splits)
  obtain a' c'' where step: "scan_compactions pos (i + 1) es (a', c'') = Some (s, c')"
    and a': "a' = (if is_summary e then Some i else a)"
  proof (cases "ev_type e = ''compaction''")
    case False
    moreover have "\<not> is_summary e"
      using False by (auto simp: is_summary_def MustData_def as_defs dest: DecodeData_type
          split: option.splits sum.splits event_data.splits)
    ultimately show ?thesis using Cons.prems that by auto
  next
    case True
    with Cons.prems obtain d where d: "MustData as_compaction e = Some d"
      and st: "scan_compactions pos (i + 1) es (compaction_step pos i d (a, c)) = Some (s, c')"
      by (auto split: option.splits)
    obtain a' c'' where s': "compaction_step pos i d (a, c) = (a', c'')" by fastforce
    then have "a' = (if is_summary e then Some i else a)"
      using compaction_step_fst [of pos i d "(a, c)"] d by (simp add: is_summary_def)
    with st s' that show ?thesis by simp
  qed
  from Cons.IH [OF step] show ?case
  proof
    assume "s = a' \<and> (\<forall>e \<in> set es. \<not> is_summary e)"
    then have s: "s = a'" and none: "\<forall>x \<in> set es. \<not> is_summary x" by simp_all
    show ?thesis
    proof (cases "is_summary e")
      case True
      have "\<not> is_summary ((e # es) ! j)" if "0 < j" "j < length (e # es)" for j
        using that none by (cases j) simp_all
      with True s a' show ?thesis by (intro disjI2 exI [of _ 0]) simp
    qed (use s a' none in simp)
  next
    assume "\<exists>k < length es. s = Some (i + 1 + k) \<and> is_summary (es ! k) \<and>
      (\<forall>j. k < j \<and> j < length es \<longrightarrow> \<not> is_summary (es ! j))"
    then obtain m where s: "s = Some (i + 1 + m)" and m: "m < length es" "is_summary (es ! m)"
      "\<forall>j. m < j \<and> j < length es \<longrightarrow> \<not> is_summary (es ! j)"
      by (elim exE conjE)
    from later [OF m] show ?thesis unfolding s by (rule disjI2)
  qed
qed simp

lemma segments_ids:
  assumes "segments f i es = Some ss" "seg \<in> set ss"
    and "\<And>i e l s. f i e = Some l \<Longrightarrow> s \<in> set l \<Longrightarrow> seg_id s = ev_id e"
  shows "\<exists>k < length es. seg_id seg = ev_id (es ! k)"
  using assms(1,2)
proof (induction es arbitrary: i ss)
  case (Cons e es)
  then obtain a b where ab: "f i e = Some a" "segments f (i + 1) es = Some b" "ss = a @ b"
    by (auto split: option.splits)
  show ?case
  proof (cases "seg \<in> set a")
    case True
    with assms(3) ab have "seg_id seg = ev_id e" by blast
    then show ?thesis by (intro exI [of _ 0]) simp
  next
    case False
    then have "seg \<in> set b" using Cons.prems(2) ab(3) by simp
    from Cons.IH [OF ab(2) this] obtain k where "k < length es" "seg_id seg = ev_id (es ! k)" by blast
    then show ?thesis by (intro exI [of _ "Suc k"]) simp
  qed
qed simp

text \<open>A kind that goes into the system message.\<close>

definition system_kind :: "Segment \<Rightarrow> bool" where
  "system_kind s \<longleftrightarrow> seg_kind s \<in> {''prefix_context'', ''summary'', ''state''}"

lemma conversation_segment_kind: "conversation_segment c i e = Some l \<Longrightarrow> s \<in> set l \<Longrightarrow> \<not> system_kind s"
  by (auto simp: conversation_segment_def system_kind_def split: if_splits)

lemma conversation_segments_kind:
  "segments (conversation_segment c) i es = Some ss \<Longrightarrow> s \<in> set ss \<Longrightarrow> \<not> system_kind s"
proof (induction es arbitrary: i ss)
  case (Cons e es)
  then obtain a b where ab: "conversation_segment c i e = Some a" "segments (conversation_segment c) (i + 1) es = Some b" "ss = a @ b"
    by (auto split: option.splits)
  with Cons.prems(2) Cons.IH [OF ab(2)] conversation_segment_kind [OF ab(1)] show ?case by auto
qed simp

lemma prefix_segment_id: "prefix_segment e = Some l \<Longrightarrow> s \<in> set l \<Longrightarrow> seg_id s = ev_id e"
  by (auto simp: prefix_segment_def split: if_splits)

lemma conversation_segment_id: "conversation_segment c i e = Some l \<Longrightarrow> s \<in> set l \<Longrightarrow> seg_id s = ev_id e"
  by (auto simp: conversation_segment_def split: if_splits)

text \<open>The parts of the request, for a log whose events decode.\<close>

lemma Assemble_parts:
  assumes "\<forall>e \<in> set log. decodes e"
  obtains s cleared a b c d where
    "scan_compactions (positions 0 log Map.empty) 0 log (None, []) = Some (s, cleared)"
    "segments (\<lambda>i. prefix_segment) (case s of None \<Rightarrow> 0 | Some k \<Rightarrow> k + 1)
       (drop (case s of None \<Rightarrow> 0 | Some k \<Rightarrow> k + 1) log) = Some a"
    "summary_segments log s = Some b"
    "segments (conversation_segment cleared) (case s of None \<Rightarrow> 0 | Some k \<Rightarrow> k + 1)
       (drop (case s of None \<Rightarrow> 0 | Some k \<Rightarrow> k + 1) log) = Some c"
    "veto_segments log = Some d"
    "Assemble log = Some (a @ b @ c @ d)"
proof -
  obtain s cleared where sc: "scan_compactions (positions 0 log Map.empty) 0 log (None, []) = Some (s, cleared)"
    using scan_total [OF assms] by fastforce
  let ?start = "case s of None \<Rightarrow> 0 | Some k \<Rightarrow> k + 1"
  have dec: "\<forall>e \<in> set (drop ?start log). decodes e" using assms by (meson in_set_dropD)
  obtain a where a: "segments (\<lambda>i. prefix_segment) ?start (drop ?start log) = Some a"
    using segments_total prefix_segment_total dec by meson
  obtain c where c: "segments (conversation_segment cleared) ?start (drop ?start log) = Some c"
    using segments_total conversation_segment_total dec by meson
  obtain d where d: "veto_segments log = Some d"
    using OutstandingVetoes_decodes [OF assms] by (simp add: veto_segments_def)
  obtain b where b: "summary_segments log s = Some b"
  proof (cases s)
    case None
    then show ?thesis using that by (simp add: summary_segments_def)
  next
    case (Some k)
    with scan_summary [OF sc] have "is_summary (log ! k)" by auto
    then obtain e where "MustData as_compaction (log ! k) = Some e" by (auto simp: is_summary_def split: option.splits)
    moreover have "\<forall>e \<in> set (take (k + 1) log). decodes e" using assms by (meson in_set_takeD)
    then obtain block where "RenderStateBlock (take (k + 1) log) = Some block" using RenderStateBlock_decodes by blast
    ultimately show ?thesis using that Some by (simp add: summary_segments_def)
  qed
  have "Assemble log = Some (a @ b @ c @ d)"
    using sc a b c d by (simp add: Assemble_def Let_def)
  with sc a b c d show ?thesis using that by blast
qed

lemma Assemble_ids:
  assumes dec: "\<forall>e \<in> set log. decodes e"
  shows "\<exists>segs. Assemble log = Some segs \<and>
    (\<forall>seg \<in> set segs. seg_id seg \<noteq> [] \<longrightarrow>
      (\<exists>i < length log. seg_id seg = ev_id (log ! i) \<and> (\<forall>j < length log. is_summary (log ! j) \<longrightarrow> j \<le> i)))"
proof -
  obtain s cleared a b c d where p:
    "scan_compactions (positions 0 log Map.empty) 0 log (None, []) = Some (s, cleared)"
    "segments (\<lambda>i. prefix_segment) (case s of None \<Rightarrow> 0 | Some k \<Rightarrow> k + 1)
       (drop (case s of None \<Rightarrow> 0 | Some k \<Rightarrow> k + 1) log) = Some a"
    "summary_segments log s = Some b"
    "segments (conversation_segment cleared) (case s of None \<Rightarrow> 0 | Some k \<Rightarrow> k + 1)
       (drop (case s of None \<Rightarrow> 0 | Some k \<Rightarrow> k + 1) log) = Some c"
    "veto_segments log = Some d" "Assemble log = Some (a @ b @ c @ d)"
    using Assemble_parts [OF dec] by blast
  let ?start = "case s of None \<Rightarrow> 0 | Some k \<Rightarrow> k + 1"
  let ?ok = "\<lambda>x. \<exists>i < length log. x = ev_id (log ! i) \<and> (\<forall>j < length log. is_summary (log ! j) \<longrightarrow> j \<le> i)"
  have after: "?ok (ev_id (log ! i))" if "i < length log" "?start \<le> i + (case s of None \<Rightarrow> 0 | Some k \<Rightarrow> 1)" for i
  proof (intro exI [of _ i] conjI allI impI)
    fix j assume j: "j < length log" "is_summary (log ! j)"
    then show "j \<le> i" using scan_summary [OF p(1)] that
      by (cases s) (auto simp: not_less [symmetric])
  qed (use that in simp_all)
  have body: "?ok (ev_id (drop ?start log ! k))" if "k < length (drop ?start log)" for k
    using that after [of "?start + k"] by simp
  have "?ok (seg_id seg)" if "seg \<in> set a" for seg
    using segments_ids [OF p(2) that] prefix_segment_id body by metis
  moreover have "?ok (seg_id seg)" if "seg \<in> set c" for seg
    using segments_ids [OF p(4) that] conversation_segment_id body by metis
  moreover have "?ok (seg_id seg)" if "seg \<in> set b" "seg_id seg \<noteq> []" for seg
  proof (cases s)
    case None
    then show ?thesis using p(3) that by (simp add: summary_segments_def)
  next
    case (Some k)
    then have "k < length log" using scan_summary [OF p(1)] by auto
    moreover have "seg_id seg = ev_id (log ! k)"
      using p(3) that Some by (auto simp: summary_segments_def split: option.splits)
    ultimately show ?thesis using after [of k] Some by simp
  qed
  moreover have "seg_id seg = []" if "seg \<in> set d" for seg
    using p(5) that by (auto simp: veto_segments_def Let_def split: if_splits)
  ultimately show ?thesis using p(6) by (intro exI [of _ "a @ b @ c @ d"]) auto
qed

section \<open>The request grows at its end\<close>

text \<open>The events that are sent in the conversation.\<close>

definition in_conversation :: "Event \<Rightarrow> bool" where
  "in_conversation e \<longleftrightarrow>
     ev_type e \<in> {''message'', ''thinking'', ''tool_call'', ''tool_result''} \<or>
     (case MustData as_context e of None \<Rightarrow> False | Some d \<Rightarrow> cx_slot d = ''suffix'')"

lemma conversation_segment_one:
  assumes "decodes e"
  shows "\<exists>l. conversation_segment c i e = Some l \<and> map seg_id l = (if in_conversation e then [ev_id e] else [])"
proof -
  have "ev_type e = ''context'' \<longleftrightarrow> (\<exists>d. MustData as_context e = Some d)"
    "ev_type e = ''tool_result'' \<longleftrightarrow> (\<exists>d. MustData as_tool_result e = Some d)"
    using MustData_type assms by simp_all
  then show ?thesis
    by (cases "MustData as_context e"; cases "MustData as_tool_result e")
       (auto simp: conversation_segment_def in_conversation_def)
qed

lemma conversation_segments_ids:
  assumes "\<forall>e \<in> set es. decodes e"
  shows "\<exists>ss. segments (conversation_segment c) i es = Some ss \<and> map seg_id ss = map ev_id (filter in_conversation es)"
  using assms
proof (induction es arbitrary: i)
  case (Cons e es)
  then obtain l ss where "conversation_segment c i e = Some l" "map seg_id l = (if in_conversation e then [ev_id e] else [])"
    "segments (conversation_segment c) (i + 1) es = Some ss" "map seg_id ss = map ev_id (filter in_conversation es)"
    using conversation_segment_one [of e c i] by fastforce
  then show ?case by simp
qed simp

definition no_prefix :: "Event \<Rightarrow> bool" where
  "no_prefix e \<longleftrightarrow> (case MustData as_context e of None \<Rightarrow> True | Some d \<Rightarrow> cx_slot d \<noteq> ''prefix'')"

lemma prefix_segments_none:
  assumes "\<forall>e \<in> set es. decodes e \<and> no_prefix e"
  shows "segments (\<lambda>i. prefix_segment) i es = Some []"
  using assms
proof (induction es arbitrary: i)
  case (Cons e es)
  then have "prefix_segment e = Some []"
    using MustData_type(4) [of e] by (auto simp: prefix_segment_def no_prefix_def)
  with Cons show ?case by simp
qed simp

lemma positions_append: "positions i (xs @ ys) pos = positions (i + length xs) ys (positions i xs pos)"
  by (induction i xs pos rule: positions.induct) (simp_all add: fun_upd_def)

lemma positions_other: "k \<notin> ev_id ` set es \<Longrightarrow> positions i es pos k = pos k"
  by (induction i es pos rule: positions.induct) auto

lemma scan_cong:
  assumes "\<And>d. d \<in> set (decoded as_compaction es) \<Longrightarrow> pos (cp_start d) = pos' (cp_start d) \<and> pos (cp_end d) = pos' (cp_end d)"
  shows "scan_compactions pos i es s = scan_compactions pos' i es s"
  using assms
proof (induction es arbitrary: i s)
  case (Cons e es)
  then have IH: "\<And>i s. scan_compactions pos i es s = scan_compactions pos' i es s"
    by (simp add: decoded_def List.map_filter_simps split: option.splits)
  show ?case
  proof (cases "MustData as_compaction e")
    case None
    then show ?thesis by (simp add: IH)
  next
    case (Some d)
    then have "pos (cp_start d) = pos' (cp_start d)" "pos (cp_end d) = pos' (cp_end d)"
      using Cons.prems [of d] by (simp_all add: decoded_def List.map_filter_simps)
    then have "compaction_step pos i d s = compaction_step pos' i d s" by (simp only: compaction_step_def)
    with Some show ?thesis by (simp add: IH)
  qed
qed simp

lemma scan_none: "\<forall>e \<in> set es. ev_type e \<noteq> ''compaction'' \<Longrightarrow> scan_compactions pos i es s = Some s"
  by (induction pos i es s rule: scan_compactions.induct) simp_all

definition foreign_ranges :: "Event list \<Rightarrow> Event list \<Rightarrow> bool" where
  "foreign_ranges log new \<longleftrightarrow>
     (\<forall>d \<in> set (decoded as_compaction log). cp_start d \<notin> ev_id ` set new \<and> cp_end d \<notin> ev_id ` set new)"

lemma scan_extend:
  assumes "\<forall>e \<in> set new. ev_type e \<noteq> ''compaction''" "foreign_ranges log new"
  shows "scan_compactions (positions 0 (log @ new) Map.empty) 0 (log @ new) s =
    scan_compactions (positions 0 log Map.empty) 0 log s"
proof -
  have "scan_compactions (positions 0 (log @ new) Map.empty) 0 log s =
      scan_compactions (positions 0 log Map.empty) 0 log s"
    using assms(2) by (intro scan_cong) (simp add: positions_append positions_other foreign_ranges_def)
  then show ?thesis using assms(1) by (simp add: scan_append scan_none split: option.split)
qed

lemma veto_segments_shape:
  "\<forall>e \<in> set log. decodes e \<Longrightarrow> \<exists>d. veto_segments log = Some d \<and> length d \<le> 1 \<and> (\<forall>s \<in> set d. seg_kind s = ''vetoes'')"
  by (simp add: veto_segments_def OutstandingVetoes_decodes Let_def)

lemma Assemble_extend:
  assumes dec: "\<forall>e \<in> set (log @ new). decodes e"
    and nc: "\<forall>e \<in> set new. ev_type e \<noteq> ''compaction'' \<and> no_prefix e" and fr: "foreign_ranges log new"
  shows "\<exists>body vetoes more vetoes'.
    Assemble log = Some (body @ vetoes) \<and> Assemble (log @ new) = Some (body @ more @ vetoes') \<and>
    map seg_id more = map ev_id (filter in_conversation new) \<and> (\<forall>s \<in> set more. \<not> system_kind s) \<and>
    length vetoes \<le> 1 \<and> (\<forall>s \<in> set (vetoes @ vetoes'). seg_kind s = ''vetoes'')"
proof -
  have decl: "\<forall>e \<in> set log. decodes e" and decn: "\<forall>e \<in> set new. decodes e" using dec by auto
  obtain s cleared a b c d where p:
    "scan_compactions (positions 0 log Map.empty) 0 log (None, []) = Some (s, cleared)"
    "segments (\<lambda>i. prefix_segment) (case s of None \<Rightarrow> 0 | Some k \<Rightarrow> k + 1)
       (drop (case s of None \<Rightarrow> 0 | Some k \<Rightarrow> k + 1) log) = Some a"
    "summary_segments log s = Some b"
    "segments (conversation_segment cleared) (case s of None \<Rightarrow> 0 | Some k \<Rightarrow> k + 1)
       (drop (case s of None \<Rightarrow> 0 | Some k \<Rightarrow> k + 1) log) = Some c"
    "veto_segments log = Some d" "Assemble log = Some (a @ b @ c @ d)"
    using Assemble_parts [OF decl] by blast
  define start where "start = (case s of None \<Rightarrow> 0 | Some k \<Rightarrow> k + 1)"
  have k: "s = Some k \<Longrightarrow> k < length log" for k using scan_summary [OF p(1)] by auto
  then have le: "start \<le> length log" by (cases s) (auto simp: start_def Suc_le_eq)
  have dr: "drop start (log @ new) = drop start log @ new" using le by simp
  have sc: "scan_compactions (positions 0 (log @ new) Map.empty) 0 (log @ new) (None, []) = Some (s, cleared)"
    using scan_extend [of new log] nc fr p(1) by simp
  have a: "segments (\<lambda>i. prefix_segment) start (drop start (log @ new)) = Some a"
    using p(2) prefix_segments_none [of new] nc decn unfolding dr by (simp add: segments_append start_def)
  obtain more where more: "segments (conversation_segment cleared) (start + length (drop start log)) new = Some more"
    "map seg_id more = map ev_id (filter in_conversation new)"
    using conversation_segments_ids [OF decn] by blast
  have c: "segments (conversation_segment cleared) start (drop start (log @ new)) = Some (c @ more)"
    using p(4) more(1) unfolding dr by (simp only: segments_append start_def option.case prod.case)
  have b: "summary_segments (log @ new) s = Some b"
  proof (cases s)
    case (Some j)
    then have "(log @ new) ! j = log ! j" "take (j + 1) (log @ new) = take (j + 1) log"
      using k by (simp_all add: nth_append Suc_le_eq)
    with p(3) Some show ?thesis by (simp only: summary_segments_def option.case)
  qed (use p(3) in \<open>simp add: summary_segments_def\<close>)
  obtain d' where d': "veto_segments (log @ new) = Some d'" "\<forall>s \<in> set d'. seg_kind s = ''vetoes''"
    using veto_segments_shape [OF dec] by blast
  have "Assemble (log @ new) = Some (a @ b @ (c @ more) @ d')"
    unfolding Assemble_def Let_def sc option.case prod.case start_def [symmetric] a b c d'(1) ..
  moreover have "length d \<le> 1 \<and> (\<forall>s \<in> set d. seg_kind s = ''vetoes'')" using veto_segments_shape [OF decl] p(5) by auto
  ultimately show ?thesis using p(6) more(2) d'(2) conversation_segments_kind [OF more(1)]
    by (intro exI [of _ "a @ b @ c"] exI [of _ d] exI [of _ more] exI [of _ d']) auto
qed

section \<open>Properties\<close>

text \<open>On a valid log \<open>Assemble\<close> does not panic, and every segment it backs by an event backs it by an
  event at or after the last summarize compaction: nothing summarized away is sent again.\<close>
theorem Assemble_after_summary:
  assumes "ValidateLog log = None"
  shows "\<exists>segs. Assemble log = Some segs \<and>
    (\<forall>seg \<in> set segs. seg_id seg \<noteq> [] \<longrightarrow>
      (\<exists>i < length log. seg_id seg = ev_id (log ! i) \<and> (\<forall>j < length log. is_summary (log ! j) \<longrightarrow> j \<le> i)))"
  using assms ValidateLog_decodes by (intro Assemble_ids) blast

lemma Assemble_after_summary_witness:
  "\<exists>segs. Assemble (sample_log [sample_session, sample_said ''hi'', sample_answer ''ok'']) = Some segs"
  using Assemble_after_summary [OF sample_log_valid3] by blast

text \<open>C2: Appending to a valid log events that are no compaction and no prefix context, and that no
  earlier compaction range names, only adds to the request: what was sent before stays, byte for
  byte and in place, up to the veto message at its end, and one segment follows for each new event of
  the conversation, in order.\<close>
theorem Assemble_append_only:
  assumes "ValidateLog (log @ new) = None"
    and "\<forall>e \<in> set new. ev_type e \<noteq> ''compaction'' \<and> no_prefix e" and "foreign_ranges log new"
  shows "\<exists>body vetoes more vetoes'.
    Assemble log = Some (body @ vetoes) \<and> Assemble (log @ new) = Some (body @ more @ vetoes') \<and>
    map seg_id more = map ev_id (filter in_conversation new) \<and>
    length vetoes \<le> 1 \<and> (\<forall>s \<in> set (vetoes @ vetoes'). seg_kind s = ''vetoes'')"
  using Assemble_extend [of log new] assms ValidateLog_decodes by metis

lemma Assemble_append_only_witness:
  "\<exists>body vetoes more vetoes'.
    Assemble [sample_event 0 sample_session, sample_event 1 (sample_said ''hi'')] = Some (body @ vetoes) \<and>
    Assemble (sample_log [sample_session, sample_said ''hi'', sample_answer ''ok'']) = Some (body @ more @ vetoes') \<and>
    map seg_id more = [sample_id 2]"
proof -
  let ?log = "[sample_event 0 sample_session, sample_event 1 (sample_said ''hi'')]"
  let ?new = "[sample_event 2 (sample_answer ''ok'')]"
  have all: "sample_log [sample_session, sample_said ''hi'', sample_answer ''ok''] = ?log @ ?new"
    by (simp add: sample_log3)
  have none: "as_context (sample_answer s) = None" "as_compaction sample_session = None"
    "as_compaction (sample_said s) = None" for s
    by (simp_all add: as_defs sample_session_def sample_said_def sample_answer_def)
  have "ValidateLog (?log @ ?new) = None" using sample_log_valid3 [of "''hi''" "''ok''"] unfolding all .
  moreover have "\<forall>e \<in> set ?new. ev_type e \<noteq> ''compaction'' \<and> no_prefix e" "foreign_ranges ?log ?new"
    by (simp_all add: none no_prefix_def foreign_ranges_def decoded_def List.map_filter_simps)
  ultimately obtain body vetoes more vetoes' where
    "Assemble ?log = Some (body @ vetoes)" "Assemble (?log @ ?new) = Some (body @ more @ vetoes')"
    "map seg_id more = map ev_id (filter in_conversation ?new)"
    using Assemble_append_only [of ?log ?new] by blast
  moreover have "map ev_id (filter in_conversation ?new) = [sample_id 2]" by (simp add: in_conversation_def)
  ultimately show ?thesis unfolding all by metis
qed

end
