(* ===== verification/Cursor.thy ===== *)
theory Cursor
  imports Projection
begin

text \<open>
  \<open>protocol/errors.go\<close> and \<open>protocol/cursor.go\<close>: the RPC error object, and a client's position in a
  session's log. The locale \<open>cursor_feed\<close> is the contract a client that catches up relies on: no
  position gives the whole log, the id of an event gives what follows it. Inside it, a client that
  holds a prefix of the log and appends what it is given holds the log, however the log has grown.
\<close>

section \<open>RPC errors\<close>

definition ErrorNames :: "int \<Rightarrow> string option" where
  "ErrorNames = map_of
     [(-32700, ''parse_error''), (-32600, ''invalid_request''), (-32601, ''method_not_found''),
      (-32602, ''invalid_params''), (-32603, ''internal_error''), (-32001, ''rho_session_not_found''),
      (-32002, ''rho_invalid_transition''), (-32003, ''rho_permission_denied''),
      (-32004, ''rho_already_resolved''), (-32005, ''rho_cursor_unknown''),
      (-32006, ''rho_protocol_mismatch''), (-32007, ''rho_unauthorized''),
      (-32008, ''rho_workspace_untrusted'')]"

record RPCError =
  rpc_code :: int
  rpc_message :: string
  rpc_name :: "string option"

definition NewRPCError :: "int \<Rightarrow> string \<Rightarrow> RPCError" where
  "NewRPCError code message = \<lparr>rpc_code = code, rpc_message = message, rpc_name = ErrorNames code\<rparr>"

definition RPCError_text :: "RPCError \<Rightarrow> string" where
  "RPCError_text e = (case rpc_name e of Some name \<Rightarrow> name @ '': '' @ rpc_message e | None \<Rightarrow> rpc_message e)"

section \<open>Events after a position\<close>

definition EventsAfter :: "Event list \<Rightarrow> string option \<Rightarrow> RPCError + (Event list \<times> bool)" where
  "EventsAfter log lastEventID =
     (case lastEventID of
        None \<Rightarrow> Inr (log, True)
      | Some last_id \<Rightarrow>
          (case index_of (\<lambda>e. ev_id e = last_id) log of
             Some i \<Rightarrow> Inr (drop (i + 1) log, True)
           | None \<Rightarrow> Inl (NewRPCError (-32005) (''last_event_id '' @ last_id @ '' is not in the log''))))"

definition Synced :: "Event list \<Rightarrow> string option \<Rightarrow> bool" where
  "Synced log lastEventID =
     (if log = [] then lastEventID = None
      else (case lastEventID of None \<Rightarrow> False | Some i \<Rightarrow> i = ev_id (log ! (length log - 1))))"

section \<open>A client that catches up\<close>

locale cursor_feed =
  fixes after :: "'e list \<Rightarrow> 'k option \<Rightarrow> 'r + ('e list \<times> bool)"
    and key :: "'e \<Rightarrow> 'k"
  assumes after_start: "after log None = Inr (log, True)"
    and after_event: "distinct (map key (xs @ e # ys)) \<Longrightarrow> after (xs @ e # ys) (Some (key e)) = Inr (ys, True)"
    and after_unknown: "k \<notin> key ` set log \<Longrightarrow> \<exists>r. after log (Some k) = Inl r"
begin

text \<open>A client's position is its last event, and one catch-up appends what the feed answers.\<close>

definition position :: "'e list \<Rightarrow> 'k option" where
  "position copy = (if copy = [] then None else Some (key (last copy)))"

definition catch_up :: "'e list \<Rightarrow> 'e list \<Rightarrow> 'e list" where
  "catch_up log copy = (case after log (position copy) of Inl _ \<Rightarrow> copy | Inr (es, _) \<Rightarrow> copy @ es)"

lemma catch_up_prefix:
  assumes "distinct (map key (copy @ rest))"
  shows "catch_up (copy @ rest) copy = copy @ rest"
proof (cases copy rule: rev_cases)
  case Nil
  then show ?thesis by (simp add: catch_up_def position_def after_start)
next
  case (snoc xs e)
  with assms have "after (xs @ e # rest) (Some (key e)) = Inr (rest, True)" by (intro after_event) simp
  with snoc show ?thesis by (simp add: catch_up_def position_def)
qed

text \<open>However the log grows between catch-ups, the client holds the last log it saw.\<close>

lemma catch_up_all:
  assumes "sorted_wrt (\<lambda>a b. \<exists>c. b = a @ c) (copy # logs)" "\<forall>l \<in> set logs. distinct (map key l)" "logs \<noteq> []"
  shows "foldl (\<lambda>c l. catch_up l c) copy logs = last logs"
  using assms
proof (induction logs arbitrary: copy)
  case (Cons l logs)
  then obtain c where l: "l = copy @ c" by auto
  then have one: "catch_up l copy = l" using Cons.prems by (simp add: catch_up_prefix)
  show ?case
  proof (cases "logs = []")
    case False
    with Cons one show ?thesis by simp
  qed (simp add: one)
qed simp

lemma catch_up_foreign: "copy \<noteq> [] \<Longrightarrow> key (last copy) \<notin> key ` set log \<Longrightarrow> catch_up log copy = copy"
  using after_unknown [of "key (last copy)" log] by (auto simp: catch_up_def position_def)

end

lemma EventsAfter_event:
  assumes "distinct (map ev_id (xs @ e # ys))"
  shows "EventsAfter (xs @ e # ys) (Some (ev_id e)) = Inr (ys, True)"
proof -
  have "index_of (\<lambda>x. ev_id x = ev_id ((xs @ e # ys) ! length xs)) (xs @ e # ys) = Some (length xs)"
    by (rule index_of_distinct [OF assms]) simp
  then show ?thesis by (simp add: EventsAfter_def)
qed

interpretation feed: cursor_feed EventsAfter ev_id
proof
  fix k :: string and log :: "Event list" assume "k \<notin> ev_id ` set log"
  then have "index_of (\<lambda>e. ev_id e = k) log = None" by (auto simp: index_of_None)
  then show "\<exists>r. EventsAfter log (Some k) = Inl r" by (simp add: EventsAfter_def)
qed (simp_all only: EventsAfter_event, simp add: EventsAfter_def)

lemma Synced_position: "Synced log (feed.position log)"
  by (simp add: Synced_def feed.position_def last_conv_nth)

text \<open>A client that holds a prefix of a log whose ids are distinct, and appends what
  \<open>EventsAfter\<close> answers for its last event, holds the whole log and is synced; a position that is
  not in the log is the error \<open>rho_cursor_unknown\<close>.\<close>
theorem EventsAfter_resync:
  assumes "distinct (map ev_id (copy @ rest))"
  shows "(\<exists>es. EventsAfter (copy @ rest) (if copy = [] then None else Some (ev_id (last copy))) = Inr (es, True) \<and>
           copy @ es = copy @ rest) \<and>
         (k \<notin> ev_id ` set (copy @ rest) \<longrightarrow>
           (\<exists>e. EventsAfter (copy @ rest) (Some k) = Inl e \<and> rpc_name e = Some ''rho_cursor_unknown''))"
proof -
  have "\<exists>es. EventsAfter (copy @ rest) (feed.position copy) = Inr (es, True) \<and> copy @ es = copy @ rest"
    by (cases copy rule: rev_cases)
       (use assms in \<open>auto simp: feed.position_def feed.after_start EventsAfter_event\<close>)
  moreover have "\<exists>e. EventsAfter (copy @ rest) (Some k) = Inl e \<and> rpc_name e = Some ''rho_cursor_unknown''"
    if "k \<notin> ev_id ` set (copy @ rest)"
  proof -
    have "index_of (\<lambda>e. ev_id e = k) (copy @ rest) = None" using that by (auto simp: index_of_None)
    then show ?thesis by (simp add: EventsAfter_def NewRPCError_def ErrorNames_def)
  qed
  ultimately show ?thesis by (auto simp: feed.position_def)
qed

lemma EventsAfter_resync_witness:
  "\<exists>es. EventsAfter (sample_log [sample_session, sample_said ''hi'']) (Some (sample_id 0)) = Inr (es, True)"
proof -
  have log: "sample_log [sample_session, sample_said ''hi''] =
      [sample_event 0 sample_session] @ [sample_event 1 (sample_said ''hi'')]"
    by (simp add: sample_log_def upt_conv_Cons)
  have "distinct (map ev_id ([sample_event 0 sample_session] @ [sample_event 1 (sample_said ''hi'')]))"
    by simp
  from EventsAfter_resync [OF this] show ?thesis unfolding log by auto
qed

text \<open>What a client does: it asks for what follows its last event and appends the answer.\<close>

definition client_catch_up :: "Event list \<Rightarrow> Event list \<Rightarrow> Event list" where
  "client_catch_up log copy =
     (case EventsAfter log (if copy = [] then None else Some (ev_id (last copy))) of
        Inl _ \<Rightarrow> copy
      | Inr (es, _) \<Rightarrow> copy @ es)"

lemma client_catch_up_feed: "client_catch_up = feed.catch_up"
  by (simp add: fun_eq_iff client_catch_up_def feed.catch_up_def feed.position_def)

text \<open>However often a client catches up while the log grows, it ends with exactly the last log:
  no event is lost, doubled or out of order.\<close>
theorem client_holds_log:
  assumes "sorted_wrt (\<lambda>a b. \<exists>c. b = a @ c) (copy # logs)" "\<forall>l \<in> set logs. distinct (map ev_id l)" "logs \<noteq> []"
  shows "foldl (\<lambda>c l. client_catch_up l c) copy logs = last logs"
  unfolding client_catch_up_feed using assms by (rule feed.catch_up_all)

lemma client_holds_log_witness:
  "foldl (\<lambda>c l. client_catch_up l c) []
     [[sample_event 0 sample_session], [sample_event 0 sample_session, sample_event 1 (sample_said ''hi'')]] =
   [sample_event 0 sample_session, sample_event 1 (sample_said ''hi'')]"
proof -
  have "sample_id 0 \<noteq> sample_id 1"
    by simp
  then show ?thesis by (subst client_holds_log) simp_all
qed

end
