(* ===== verification/Session.thy ===== *)
theory Session
  imports Cursor Render
begin

text \<open>
  \<open>daemon/session/session.go\<close>: one append-only log with its file and its subscribers.

  A line of the file is the event it decodes to, \<^term>\<open>None\<close> for one that does not decode. A failed write may
  leave nothing, a fragment of its line, or the whole line without its newline; whatever follows joins it.
  An unended last line is \<open>lf_torn\<close>: a fragment does not decode, since it lacks a closing brace, but a whole line
  does. \<open>json_text\<close> of \<open>event_json\<close> is the line of an event, which \<open>load\<close> refuses from 64 MiB on, the
  buffer of its scanner (a line that does not decode is refused at any length). A channel is kept in
  \<open>se_chans\<close> at the number its subscription got, with what it buffers, what its receiver took
  (\<open>ch_got\<close>) and, for the proofs only, how many events had been broadcast when it was made
  (\<open>ch_from\<close>); \<open>se_subs\<close> holds the numbers still in the map \<open>subs\<close>. Between the extension of the log
  and the broadcast a subscriber may come in, since \<open>Subscribe\<close> takes only the second lock:
  \<open>append_locked\<close> and \<open>broadcast\<close> are two steps, with the event between them in \<open>se_pending\<close>.

  The locale \<open>id_source\<close> is what \<open>Append\<close> relies on for the order of ids, provided by
  \<open>NewULIDAfter\<close>. The lemmas show that the log stays valid, ordered and on disk, and that each
  subscriber gets a gapless run of the log.
\<close>

record Chan =
  ch_from :: nat
  ch_cap :: nat
  ch_buf :: "Event list"
  ch_got :: "Event list"
  ch_closed :: bool

record LogFile =
  lf_lines :: "Event option list"
  lf_torn :: "Event option option"

record Session =
  se_id :: string
  se_file :: LogFile
  se_events :: "Event list"
  se_closed :: bool
  se_subs :: "nat list"
  se_chans :: "Chan list"
  se_observe :: bool
  se_observed :: "Event list"
  se_pending :: "Event option"

text \<open>What one append reads from outside: two clocks and two random reads, and how its write ends.\<close>

datatype write_result = Wrote | WroteNothing | WroteFragment | WroteUnended

record Env =
  en_time :: int
  en_now :: int
  en_rnd :: "byte list"
  en_rnd2 :: "byte list"
  en_write :: write_result

definition ErrClosed :: err where "ErrClosed = ''session closed''"

section \<open>Append\<close>

text \<open>What joins an unended line does not decode.\<close>

definition joined :: "LogFile \<Rightarrow> Event \<Rightarrow> Event option" where
  "joined lf e = (case lf_torn lf of None \<Rightarrow> Some e | Some _ \<Rightarrow> None)"

definition file_write :: "write_result \<Rightarrow> Event \<Rightarrow> LogFile \<Rightarrow> LogFile" where
  "file_write w e lf =
     (case w of
        Wrote \<Rightarrow> \<lparr>lf_lines = lf_lines lf @ [joined lf e], lf_torn = None\<rparr>
      | WroteNothing \<Rightarrow> lf
      | WroteFragment \<Rightarrow> lf\<lparr>lf_torn := Some None\<rparr>
      | WroteUnended \<Rightarrow> lf\<lparr>lf_torn := Some (joined lf e)\<rparr>)"

text \<open>The event of one append: stamped, chained and with a fresh id, or the refusal.\<close>

definition new_event :: "Env \<Rightarrow> Event list \<Rightarrow> string \<Rightarrow> json \<Rightarrow> err + Event" where
  "new_event en events t raw =
     (let stamp = en_time en - en_time en mod 1000000 in
      if events \<noteq> [] then
        (let prev = ev_id (last events) in
         Inr \<lparr>ev_id = NewULIDAfter (en_now en) (en_rnd en) (en_rnd2 en) prev, ev_parent = Some prev,
              ev_time = stamp, ev_type = t, ev_data = Some raw\<rparr>)
      else if t \<noteq> ''session'' then Inl (''first event must be session, got '' @ t)
      else Inr \<lparr>ev_id = NewULID (en_now en) (en_rnd en), ev_parent = None,
                ev_time = stamp, ev_type = t, ev_data = Some raw\<rparr>)"

text \<open>\<open>Append\<close> up to the extension of the log; \<open>raw\<close> is what \<open>json.Marshal\<close> returned.\<close>

definition append_locked :: "Env \<Rightarrow> string \<Rightarrow> err + json \<Rightarrow> Session \<Rightarrow> (err + Event) \<times> Session" where
  "append_locked en t raw s =
     (case raw of
        Inl err \<Rightarrow> (Inl err, s)
      | Inr v \<Rightarrow>
          if se_closed s then (Inl ErrClosed, s)
          else (case new_event en (se_events s) t v of
                  Inl err \<Rightarrow> (Inl err, s)
                | Inr e \<Rightarrow>
                    (case ValidateEvent e of
                       Some err \<Rightarrow> (Inl err, s)
                     | None \<Rightarrow>
                         (let s' = s\<lparr>se_file := file_write (en_write en) e (se_file s)\<rparr> in
                          if en_write en \<noteq> Wrote
                          then (Inl (''session '' @ se_id s @ '': write''), s')
                          else (Inr e, s'\<lparr>se_events := se_events s @ [e], se_pending := Some e\<rparr>)))))"

text \<open>One channel at a broadcast: the event is buffered, or the channel is closed when it is full.\<close>

definition deliver :: "Event \<Rightarrow> Chan \<Rightarrow> Chan" where
  "deliver e c =
     (if length (ch_buf c) < ch_cap c then c\<lparr>ch_buf := ch_buf c @ [e]\<rparr> else c\<lparr>ch_closed := True\<rparr>)"

definition update_chans :: "(nat \<Rightarrow> bool) \<Rightarrow> (Chan \<Rightarrow> Chan) \<Rightarrow> Chan list \<Rightarrow> Chan list" where
  "update_chans p f cs = map (\<lambda>(i, c). if p i then f c else c) (zip [0..<length cs] cs)"

definition broadcast :: "Event \<Rightarrow> Session \<Rightarrow> Session" where
  "broadcast e s =
     s\<lparr>se_chans := update_chans (\<lambda>i. i \<in> set (se_subs s)) (deliver e) (se_chans s),
       se_subs := filter (\<lambda>i. length (ch_buf (se_chans s ! i)) < ch_cap (se_chans s ! i)) (se_subs s)\<rparr>"

text \<open>The rest of \<open>Append\<close>: the broadcast and the observer.\<close>

definition append_finish :: "Session \<Rightarrow> Session" where
  "append_finish s =
     (case se_pending s of
        None \<Rightarrow> s
      | Some e \<Rightarrow>
          (let s' = (broadcast e s)\<lparr>se_pending := None\<rparr> in
           if se_observe s' then s'\<lparr>se_observed := se_observed s' @ [e]\<rparr> else s'))"

definition Append :: "Env \<Rightarrow> string \<Rightarrow> err + json \<Rightarrow> Session \<Rightarrow> (err + Event) \<times> Session" where
  "Append en t raw s =
     (case append_locked en t raw s of
        (Inl err, s') \<Rightarrow> (Inl err, s')
      | (Inr e, s') \<Rightarrow> (Inr e, append_finish s'))"

section \<open>Reading, subscribing, closing\<close>

definition session_workspace :: "Session \<Rightarrow> (string \<times> string) option" where
  "session_workspace s =
     (case se_events s of
        [] \<Rightarrow> None
      | e # _ \<Rightarrow> map_option (\<lambda>d. (sd_workspace d, sd_key d)) (MustData as_session e))"

definition session_events_after :: "Session \<Rightarrow> string option \<Rightarrow> RPCError + (Event list \<times> bool)" where
  "session_events_after s last_id = EventsAfter (se_events s) last_id"

definition session_state :: "Session \<Rightarrow> State option" where
  "session_state s = Project (se_events s)"

definition session_len :: "Session \<Rightarrow> nat" where
  "session_len s = length (se_events s)"

text \<open>How many events have been broadcast.\<close>

definition broadcasted :: "Session \<Rightarrow> nat" where
  "broadcasted s = (case se_pending s of None \<Rightarrow> length (se_events s) | Some _ \<Rightarrow> length (se_events s) - 1)"

definition Subscribe :: "nat \<Rightarrow> Session \<Rightarrow> nat \<times> Session" where
  "Subscribe buf s =
     (let cap = (if buf < 1 then 1 else buf);
          ch = \<lparr>ch_from = broadcasted s, ch_cap = cap, ch_buf = [], ch_got = [], ch_closed = False\<rparr>;
          i = length (se_chans s)
      in (i, s\<lparr>se_chans := se_chans s @ [ch], se_subs := se_subs s @ [i]\<rparr>))"

definition cancel :: "nat \<Rightarrow> Session \<Rightarrow> Session" where
  "cancel i s =
     (if i \<in> set (se_subs s)
      then s\<lparr>se_subs := filter (\<lambda>j. j \<noteq> i) (se_subs s),
             se_chans := update_chans (\<lambda>j. j = i) (\<lambda>c. c\<lparr>ch_closed := True\<rparr>) (se_chans s)\<rparr>
      else s)"

definition Close :: "Session \<Rightarrow> Session" where
  "Close s =
     (if se_closed s then s
      else s\<lparr>se_closed := True, se_subs := [],
             se_chans := update_chans (\<lambda>j. j \<in> set (se_subs s)) (\<lambda>c. c\<lparr>ch_closed := True\<rparr>) (se_chans s)\<rparr>)"

text \<open>A receive by the client that holds channel \<open>i\<close>.\<close>

definition receive :: "nat \<Rightarrow> Session \<Rightarrow> Session" where
  "receive i s =
     s\<lparr>se_chans := update_chans (\<lambda>j. j = i)
         (\<lambda>c. case ch_buf c of [] \<Rightarrow> c | e # es \<Rightarrow> c\<lparr>ch_buf := es, ch_got := ch_got c @ [e]\<rparr>) (se_chans s)\<rparr>"

section \<open>Loading\<close>

text \<open>The line of an event: what \<open>json.Marshal\<close> writes, with the time as \<open>time.RFC3339Nano\<close> in UTC.\<close>

definition time_text :: "int \<Rightarrow> string" where
  "time_text ns =
     (let secs = ns div 1000000000;
          nanos = ns mod 1000000000;
          tod = secs mod 86400;
          (y, m, d) = civil_date (secs div 86400);
          frac = (if nanos = 0 then [] else ''.'' @ rev (dropWhile (\<lambda>c. c = CHR ''0'') (rev (pad_left 9 (itoa nanos)))))
      in pad_left 4 (itoa y) @ ''-'' @ pad_left 2 (itoa m) @ ''-'' @ pad_left 2 (itoa d) @ ''T'' @
         pad_left 2 (itoa (tod div 3600)) @ '':'' @ pad_left 2 (itoa (tod mod 3600 div 60)) @ '':'' @ pad_left 2 (itoa (tod mod 60)) @
         frac @ ''Z'')"

definition event_json :: "Event \<Rightarrow> json" where
  "event_json e = JObj
     [(''id'', JStr (ev_id e)),
      (''parent_id'', case ev_parent e of None \<Rightarrow> JNull | Some p \<Rightarrow> JStr p),
      (''timestamp'', JStr (time_text (ev_time e))),
      (''type'', JStr (ev_type e)),
      (''data'', enc_raw (ev_data e))]"

definition max_line :: int where "max_line = 67108864"

definition line_fits :: "Event \<Rightarrow> bool" where
  "line_fits e \<longleftrightarrow> int (length (json_text (event_json e))) < max_line"

text \<open>\<open>load\<close>: the lines decoded in order, then \<open>ValidateLog\<close>. An unended line at the end is a last line.\<close>

fun load_lines :: "string \<Rightarrow> nat \<Rightarrow> Event option list \<Rightarrow> err + Event list" where
  "load_lines i n [] = Inr []"
| "load_lines i n (None # ls) = Inl (''session '' @ i @ '': line '' @ itoa (int n) @ '': '' @ json_error)"
| "load_lines i n (Some e # ls) =
     (if \<not> line_fits e then Inl (''session '' @ i @ '': bufio.Scanner: token too long'')
      else case load_lines i (n + 1) ls of Inl err \<Rightarrow> Inl err | Inr es \<Rightarrow> Inr (e # es))"

definition file_lines :: "LogFile \<Rightarrow> Event option list" where
  "file_lines lf = lf_lines lf @ (case lf_torn lf of None \<Rightarrow> [] | Some l \<Rightarrow> [l])"

definition load :: "string \<Rightarrow> LogFile \<Rightarrow> err + Session" where
  "load i lf =
     (case load_lines i 1 (file_lines lf) of
        Inl err \<Rightarrow> Inl err
      | Inr events \<Rightarrow>
          (case ValidateLog events of
             Some err \<Rightarrow> Inl (''session '' @ i @ '': '' @ err)
           | None \<Rightarrow> Inr \<lparr>se_id = i, se_file = lf, se_events = events, se_closed = False, se_subs = [],
                         se_chans = [], se_observe = False, se_observed = [], se_pending = None\<rparr>))"

section \<open>Ids in log order\<close>

text \<open>A source of ids: each fresh one is valid, and follows the one it is made after while there is room.\<close>

locale id_source =
  fixes next_id :: "'w \<Rightarrow> string \<Rightarrow> string" and room :: "string \<Rightarrow> bool"
  assumes next_valid: "ValidateULID (next_id w prev) = None"
    and next_after: "room prev \<Longrightarrow> prev < next_id w prev"
begin

lemma ordered_snoc:
  assumes "sorted_wrt (<) ids" "ids \<noteq> []" "room (last ids)"
  shows "sorted_wrt (<) (ids @ [next_id w (last ids)])"
proof -
  have "x \<le> last ids" if "x \<in> set ids" for x
    using assms(1,2) that by (induction ids) (auto simp: less_imp_le)
  then show ?thesis
    using assms next_after [OF assms(3), of w] by (auto simp: sorted_wrt_append intro: le_less_trans)
qed

text \<open>The ids of a whole run of the source.\<close>

fun run :: "string \<Rightarrow> 'w list \<Rightarrow> string list" where
  "run prev [] = [prev]"
| "run prev (w # ws) = prev # run (next_id w prev) ws"

lemma run_ordered:
  "\<forall>x \<in> set (run prev ws). room x \<Longrightarrow> sorted_wrt (<) (run prev ws) \<and> (\<forall>x \<in> set (run prev ws). prev \<le> x)"
proof (induction ws arbitrary: prev)
  case (Cons w ws)
  then have "prev < next_id w prev" by (simp add: next_after)
  with Cons show ?case by (force intro: less_le_trans less_imp_le)
qed simp

end

text \<open>Room: the time of the id is not the last one that 48 bits hold (the year 10889).\<close>

definition ulid_room :: "string \<Rightarrow> bool" where
  "ulid_room p \<longleftrightarrow> (\<exists>t. ULIDTime p = Inr t \<and> t < 2 ^ 48 - 1)"

definition session_id_after :: "Env \<Rightarrow> string \<Rightarrow> string" where
  "session_id_after en prev = NewULIDAfter (en_now en) (en_rnd en) (en_rnd2 en) prev"

interpretation ids: id_source session_id_after ulid_room
proof
  fix en prev
  show "ValidateULID (session_id_after en prev) = None"
    by (simp add: session_id_after_def NewULIDAfter_valid_gen)
  show "ulid_room prev \<Longrightarrow> prev < session_id_after en prev"
    by (auto simp: session_id_after_def ulid_room_def intro: NewULIDAfter_sorts_gen)
qed

definition ids_sorted :: "Event list \<Rightarrow> bool" where
  "ids_sorted log \<longleftrightarrow> sorted_wrt (<) (map ev_id log)"

lemma ids_sorted_distinct: "ids_sorted log \<Longrightarrow> distinct (map ev_id log)"
  unfolding ids_sorted_def by (induction log) auto

section \<open>What an append does to the log\<close>

lemma new_event_next:
  assumes "new_event en log t v = Inr e" "log \<noteq> []"
  shows "ev_id e = session_id_after en (ev_id (last log)) \<and> ev_parent e = Some (ev_id (last log)) \<and> ev_type e = t"
  using assms by (auto simp: new_event_def session_id_after_def Let_def)

lemma new_event_first:
  assumes "new_event en [] t v = Inr e"
  shows "t = ''session'' \<and> ValidateULID (ev_id e) = None \<and> ev_parent e = None \<and> ev_type e = t"
  using assms by (auto simp: new_event_def NewULID_def NewULIDAt_valid Let_def split: if_splits)

lemma append_valid:
  assumes "new_event en log t v = Inr e" "ValidateEvent e = None" "log = [] \<or> ValidateLog log = None"
    and "log \<noteq> [] \<Longrightarrow> t \<noteq> ''session''"
  shows "ValidateLog (log @ [e]) = None"
proof (cases "log = []")
  case True
  with assms show ?thesis using new_event_first [of en t v e]
    by (simp add: ValidateLog_def validate_entry_None split: option.split)
next
  case False
  with assms show ?thesis using new_event_next [of en log t v e] ids.next_valid
    by (simp add: ValidateLog_snoc validate_entry_None)
qed

lemma append_sorted:
  assumes "new_event en log t v = Inr e" "ids_sorted log" "log \<noteq> [] \<Longrightarrow> ulid_room (ev_id (last log))"
  shows "ids_sorted (log @ [e])"
proof (cases "log = []")
  case False
  then have "last (map ev_id log) = ev_id (last log)" by (simp add: last_map)
  then show ?thesis
    using ids.ordered_snoc [of "map ev_id log" en] new_event_next [OF assms(1) False] assms(2,3) False
    by (simp add: ids_sorted_def)
qed (simp add: ids_sorted_def)

lemma append_locked_cases:
  assumes "append_locked en t raw s = (r, s')"
  obtains (refused) err where "r = Inl err" "s' = s"
  | (unwritten) e err v where "r = Inl err" "en_write en \<noteq> Wrote"
      "s' = s\<lparr>se_file := file_write (en_write en) e (se_file s)\<rparr>" "new_event en (se_events s) t v = Inr e" "ValidateEvent e = None"
  | (appended) e v where "r = Inr e" "raw = Inr v" "\<not> se_closed s" "new_event en (se_events s) t v = Inr e"
      "ValidateEvent e = None" "en_write en = Wrote"
      "s' = s\<lparr>se_file := file_write Wrote e (se_file s), se_events := se_events s @ [e], se_pending := Some e\<rparr>"
proof (cases "\<exists>v e. raw = Inr v \<and> \<not> se_closed s \<and> new_event en (se_events s) t v = Inr e \<and> ValidateEvent e = None")
  case True
  then obtain v e where ok: "raw = Inr v" "\<not> se_closed s" "new_event en (se_events s) t v = Inr e" "ValidateEvent e = None"
    by blast
  show ?thesis
  proof (cases "en_write en = Wrote")
    case True
    with assms ok show ?thesis by (intro appended [of e v]) (simp_all add: append_locked_def Let_def)
  next
    case False
    with assms ok show ?thesis
      by (intro unwritten [of "''session '' @ se_id s @ '': write''" e]) (simp_all add: append_locked_def Let_def)
  qed
next
  case False
  then have "\<exists>err. r = Inl err \<and> s' = s"
    using assms by (auto simp: append_locked_def split: sum.splits if_splits option.splits) metis
  then show ?thesis using refused by blast
qed

section \<open>Channels\<close>

lemma length_update_chans [simp]: "length (update_chans p f cs) = length cs"
  by (simp add: update_chans_def)

lemma nth_update_chans [simp]:
  "i < length cs \<Longrightarrow> update_chans p f cs ! i = (if p i then f (cs ! i) else cs ! i)"
  by (simp add: update_chans_def)

text \<open>What was broadcast, and a channel that holds a gapless run of it from its first event on.\<close>

definition sent :: "Session \<Rightarrow> Event list" where
  "sent s = take (broadcasted s) (se_events s)"

definition chan_ok :: "Event list \<Rightarrow> nat list \<Rightarrow> nat \<Rightarrow> Chan \<Rightarrow> bool" where
  "chan_ok out subs i c \<longleftrightarrow>
     ch_from c \<le> length out \<and> prefix (ch_got c @ ch_buf c) (drop (ch_from c) out) \<and>
     (\<not> ch_closed c \<longrightarrow> ch_got c @ ch_buf c = drop (ch_from c) out) \<and>
     (i \<in> set subs \<longleftrightarrow> \<not> ch_closed c)"

definition chans_ok :: "Session \<Rightarrow> bool" where
  "chans_ok s \<longleftrightarrow>
     (\<forall>i < length (se_chans s). chan_ok (sent s) (se_subs s) i (se_chans s ! i)) \<and>
     (\<forall>i \<in> set (se_subs s). i < length (se_chans s))"

definition pending_ok :: "Session \<Rightarrow> bool" where
  "pending_ok s \<longleftrightarrow> (\<forall>e. se_pending s = Some e \<longrightarrow> se_events s \<noteq> [] \<and> last (se_events s) = e)"

lemma sent_idle: "se_pending s = None \<Longrightarrow> sent s = se_events s"
  by (simp add: sent_def broadcasted_def)

lemma sent_pending: "se_pending s = Some e \<Longrightarrow> sent s = butlast (se_events s)"
  by (simp add: sent_def broadcasted_def butlast_conv_take)

lemma length_sent: "broadcasted s = length (sent s)"
  by (simp add: sent_def broadcasted_def split: option.split)

lemma chan_ok_deliver:
  assumes "chan_ok out subs i c" and that: "cs ! i = c"
  shows "chan_ok (out @ [e]) (filter (\<lambda>j. length (ch_buf (cs ! j)) < ch_cap (cs ! j)) subs) i
    (if i \<in> set subs then deliver e c else c)"
proof (cases "i \<in> set subs")
  case False
  with assms that show ?thesis by (auto simp: chan_ok_def intro: prefix_order.trans)
next
  case True
  with assms have "ch_got c @ ch_buf c = drop (ch_from c) out" "ch_from c \<le> length out"
    by (auto simp: chan_ok_def)
  then have "(ch_got c @ ch_buf c) @ [e] = drop (ch_from c) (out @ [e])" by simp
  then have all: "ch_got c @ (ch_buf c @ [e]) = drop (ch_from c) (out @ [e])" by simp
  show ?thesis
  proof (cases "length (ch_buf c) < ch_cap c")
    case True
    with \<open>i \<in> set subs\<close> assms that all show ?thesis
      by (simp add: chan_ok_def deliver_def)
  next
    case False
    with \<open>i \<in> set subs\<close> assms that show ?thesis
      by (auto simp: chan_ok_def deliver_def intro: prefix_order.trans)
  qed
qed

lemma finish_chans:
  assumes "chans_ok s" "pending_ok s" "se_pending s = Some e"
  shows "chans_ok (append_finish s)"
proof -
  let ?s = "append_finish s"
  have fields: "se_events ?s = se_events s" "se_pending ?s = None"
    "se_chans ?s = update_chans (\<lambda>i. i \<in> set (se_subs s)) (deliver e) (se_chans s)"
    "se_subs ?s = filter (\<lambda>i. length (ch_buf (se_chans s ! i)) < ch_cap (se_chans s ! i)) (se_subs s)"
    using assms(3) by (simp_all add: append_finish_def broadcast_def Let_def)
  have "sent ?s = sent s @ [e]"
    using assms(2,3) sent_idle [of ?s] fields(1,2) by (auto simp: sent_pending pending_ok_def)
  then show ?thesis
    using assms(1) chan_ok_deliver [where cs = "se_chans s"] fields(3,4) by (auto simp: chans_ok_def)
qed

lemma sent_cong: "se_events s' = se_events s \<Longrightarrow> se_pending s' = se_pending s \<Longrightarrow> sent s' = sent s"
  by (simp only: sent_def broadcasted_def)

lemma subscribe_chans:
  assumes "chans_ok s"
  shows "chans_ok (snd (Subscribe buf s))"
proof -
  let ?s = "snd (Subscribe buf s)" and ?n = "length (se_chans s)"
  have new: "?n \<notin> set (se_subs s)" using assms by (auto simp: chans_ok_def)
  have "sent ?s = sent s" by (rule sent_cong) (simp_all add: Subscribe_def Let_def)
  moreover have "chan_ok (sent s) (se_subs s @ [?n]) i (se_chans s ! i)" if "i < ?n" for i
    using assms that by (auto simp: chans_ok_def chan_ok_def)
  ultimately show ?thesis using assms new
    by (auto simp: chans_ok_def Subscribe_def Let_def nth_append less_Suc_eq chan_ok_def length_sent)
qed

text \<open>Closing the channels of \<open>p\<close> and taking them off the map.\<close>

lemma chans_ok_close:
  assumes ok: "chans_ok s" and eq: "sent s' = sent s"
    "se_chans s' = update_chans p (\<lambda>c. c\<lparr>ch_closed := True\<rparr>) (se_chans s)"
    and subs: "set (se_subs s') = {i \<in> set (se_subs s). \<not> p i}"
  shows "chans_ok s'"
  unfolding chans_ok_def
proof (intro conjI allI impI ballI)
  fix i assume i: "i < length (se_chans s')"
  then have "chan_ok (sent s) (se_subs s) i (se_chans s ! i)" using ok eq(2) by (simp add: chans_ok_def)
  then show "chan_ok (sent s') (se_subs s') i (se_chans s' ! i)"
    using i subs by (cases "p i") (auto simp: eq chan_ok_def)
next
  fix i assume "i \<in> set (se_subs s')"
  then show "i < length (se_chans s')" using ok eq(2) subs by (simp add: chans_ok_def)
qed

lemma cancel_chans:
  assumes "chans_ok s"
  shows "chans_ok (cancel i s)"
proof (cases "i \<in> set (se_subs s)")
  case True
  show ?thesis
  proof (rule chans_ok_close [OF assms])
    show "sent (cancel i s) = sent s" by (rule sent_cong) (simp_all add: cancel_def)
    show "se_chans (cancel i s) = update_chans (\<lambda>j. j = i) (\<lambda>c. c\<lparr>ch_closed := True\<rparr>) (se_chans s)"
      using True by (simp add: cancel_def)
    show "set (se_subs (cancel i s)) = {j \<in> set (se_subs s). \<not> j = i}" using True by (simp add: cancel_def)
  qed
qed (use assms in \<open>simp add: cancel_def\<close>)

lemma close_chans:
  assumes "chans_ok s"
  shows "chans_ok (Close s)"
proof (cases "se_closed s")
  case False
  show ?thesis
  proof (rule chans_ok_close [OF assms])
    show "sent (Close s) = sent s" by (rule sent_cong) (simp_all add: Close_def)
    show "se_chans (Close s) = update_chans (\<lambda>j. j \<in> set (se_subs s)) (\<lambda>c. c\<lparr>ch_closed := True\<rparr>) (se_chans s)"
      using False by (simp add: Close_def)
    show "set (se_subs (Close s)) = {j \<in> set (se_subs s). \<not> j \<in> set (se_subs s)}" using False by (simp add: Close_def)
  qed
qed (use assms in \<open>simp add: Close_def\<close>)

lemma receive_chans: "chans_ok s \<Longrightarrow> chans_ok (receive i s)"
proof -
  assume ok: "chans_ok s"
  have "sent (receive i s) = sent s" by (rule sent_cong) (simp_all add: receive_def Let_def)
  moreover have "chan_ok out subs j (case ch_buf c of [] \<Rightarrow> c | e # es \<Rightarrow> c\<lparr>ch_buf := es, ch_got := ch_got c @ [e]\<rparr>)"
    if "chan_ok out subs j c" for out subs j c
    using that by (auto simp: chan_ok_def split: list.split)
  ultimately show ?thesis using ok by (auto simp: chans_ok_def receive_def)
qed

lemma locked_chans:
  assumes "append_locked en t raw s = (r, s')" "chans_ok s" "se_pending s = None"
  shows "chans_ok s'"
  using assms(1)
proof (cases rule: append_locked_cases)
  case (unwritten e err)
  have "sent s' = sent s" by (rule sent_cong) (simp_all add: unwritten)
  with unwritten assms(2) show ?thesis by (simp add: chans_ok_def)
next
  case (appended e v)
  have "sent s' = sent s" using appended assms(3) by (simp add: sent_idle sent_pending)
  with appended assms(2) show ?thesis by (simp add: chans_ok_def)
qed (use assms in simp)

section \<open>The session as a state machine\<close>

text \<open>The file: a line that does not decode, or exactly the log, or the log and behind it the whole line of one event
  whose append failed.\<close>

definition file_ok :: "Session \<Rightarrow> bool" where
  "file_ok s \<longleftrightarrow> None \<in> set (file_lines (se_file s)) \<or> file_lines (se_file s) = map Some (se_events s) \<or>
     (\<exists>x. lf_torn (se_file s) = Some (Some x) \<and> file_lines (se_file s) = map Some (se_events s @ [x]) \<and>
        ValidateLog (se_events s @ [x]) = None)"

definition session_inv :: "Session \<Rightarrow> bool" where
  "session_inv s \<longleftrightarrow>
     ValidateLog (se_events s) = None \<and> ids_sorted (se_events s) \<and> file_ok s \<and> chans_ok s \<and> pending_ok s"

text \<open>
  The atomic steps of the goroutines that use one session. An append holds the first lock from
  \<open>append_locked\<close> to \<open>append_finish\<close>, and so does \<open>Close\<close>; the others may come in between. Only
  \<open>Create\<close> appends a session event, so the other callers do not.
\<close>

inductive session_step :: "Session \<Rightarrow> Session \<Rightarrow> bool" where
  step_append: "\<lbrakk>se_pending s = None; t \<noteq> ''session''; ulid_room (ev_id (last (se_events s)));
    append_locked en t raw s = (r, s')\<rbrakk> \<Longrightarrow> session_step s s'"
| step_finish: "se_pending s = Some e \<Longrightarrow> session_step s (append_finish s)"
| step_close: "se_pending s = None \<Longrightarrow> session_step s (Close s)"
| step_subscribe: "session_step s (snd (Subscribe buf s))"
| step_cancel: "session_step s (cancel i s)"
| step_receive: "session_step s (receive i s)"

inductive_cases session_stepE: "session_step s s'"

lemma file_ok_append:
  assumes "file_ok s" "s' = s\<lparr>se_file := file_write Wrote e (se_file s), se_events := se_events s @ [e], se_pending := p\<rparr>"
  shows "file_ok s'"
  using assms by (auto simp: file_ok_def file_lines_def file_write_def joined_def split: option.splits)

lemma file_ok_unwritten:
  assumes "file_ok s" "w \<noteq> Wrote" "ValidateLog (se_events s @ [e]) = None"
  shows "file_ok (s\<lparr>se_file := file_write w e (se_file s)\<rparr>)"
proof (cases w)
  case WroteUnended
  then show ?thesis using assms by (cases "lf_torn (se_file s)") (auto simp: file_ok_def file_lines_def file_write_def joined_def)
qed (use assms in \<open>auto simp: file_ok_def file_lines_def file_write_def split: option.splits\<close>)

lemma append_inv:
  assumes "session_inv s" "se_pending s = None" "t \<noteq> ''session''" "ulid_room (ev_id (last (se_events s)))"
    and "append_locked en t raw s = (r, s')"
  shows "session_inv s'"
  using assms(5)
proof (cases rule: append_locked_cases)
  case refused
  with assms(1) show ?thesis by simp
next
  case (unwritten e err)
  have "ValidateLog (se_events s @ [e]) = None"
    using append_valid [OF unwritten(4,5)] assms(1,3) by (simp add: session_inv_def)
  with unwritten assms(1) locked_chans [OF assms(5)] assms(2) file_ok_unwritten [of s "en_write en" e] show ?thesis
    by (simp add: session_inv_def pending_ok_def)
next
  case (appended e v)
  have "ValidateLog (se_events s @ [e]) = None"
    using appended assms(1,3) append_valid by (simp add: session_inv_def)
  moreover have "ids_sorted (se_events s @ [e])"
    using appended assms(1,4) append_sorted by (simp add: session_inv_def)
  moreover have "file_ok s'" using file_ok_append [where s = s and s' = s' and e = e] appended assms(1) by (simp add: session_inv_def)
  moreover have "chans_ok s'" using locked_chans [OF assms(5)] assms(1,2) by (simp add: session_inv_def)
  ultimately show ?thesis using appended by (simp add: session_inv_def pending_ok_def)
qed

lemma same_log_inv:
  assumes "session_inv s" "chans_ok s'" "se_events s' = se_events s" "se_file s' = se_file s"
    "se_pending s' = se_pending s \<or> se_pending s' = None"
  shows "session_inv s'"
  using assms by (auto simp: session_inv_def file_ok_def pending_ok_def)

lemma session_step_inv:
  assumes "session_step s s'" "session_inv s"
  shows "session_inv s'"
  using assms
proof (induction rule: session_step.induct)
  case (step_append s t en raw r s')
  show ?case by (rule append_inv [OF step_append(5) step_append(1-4)])
next
  case (step_finish s e)
  then have "chans_ok (append_finish s)" by (intro finish_chans) (simp_all add: session_inv_def)
  with step_finish(2) show ?case
    by (rule same_log_inv) (simp_all add: append_finish_def broadcast_def Let_def split: option.split)
next
  case (step_close s)
  then have "chans_ok (Close s)" by (intro close_chans) (simp add: session_inv_def)
  with step_close(2) show ?case by (rule same_log_inv) (simp_all add: Close_def)
next
  case (step_subscribe s buf)
  then have "chans_ok (snd (Subscribe buf s))" by (intro subscribe_chans) (simp add: session_inv_def)
  with step_subscribe(1) show ?case by (rule same_log_inv) (simp_all add: Subscribe_def Let_def)
next
  case (step_cancel s i)
  then have "chans_ok (cancel i s)" by (intro cancel_chans) (simp add: session_inv_def)
  with step_cancel(1) show ?case by (rule same_log_inv) (simp_all add: cancel_def)
next
  case (step_receive s i)
  then have "chans_ok (receive i s)" by (intro receive_chans) (simp add: session_inv_def)
  with step_receive(1) show ?case by (rule same_log_inv) (simp_all add: receive_def)
qed

text \<open>The sessions of a running daemon: created or loaded, then any steps.\<close>

definition session_new :: "string \<Rightarrow> bool \<Rightarrow> Session" where
  "session_new i obs =
     \<lparr>se_id = i, se_file = \<lparr>lf_lines = [], lf_torn = None\<rparr>, se_events = [], se_closed = False, se_subs = [],
      se_chans = [], se_observe = obs, se_observed = [], se_pending = None\<rparr>"

inductive session_reach :: "Session \<Rightarrow> bool" where
  reach_created: "append_locked en ''session'' raw (session_new i obs) = (Inr e, s) \<Longrightarrow> session_reach s"
| reach_loaded: "load i lf = Inr s \<Longrightarrow> ids_sorted (se_events s) \<Longrightarrow> session_reach s"
| reach_step: "session_reach s \<Longrightarrow> session_step s s' \<Longrightarrow> session_reach s'"

lemma created_inv:
  assumes "append_locked en ''session'' raw (session_new i obs) = (Inr e, s)"
  shows "session_inv s"
  using assms
proof (cases rule: append_locked_cases)
  case (appended e' v)
  then have "ValidateLog ([] @ [e']) = None"
    by (intro append_valid [of en "[]" "''session''" v]) (simp_all add: session_new_def)
  moreover have "chans_ok s" "pending_ok s" "file_ok s" "ids_sorted (se_events s)"
    using appended by (simp_all add: session_new_def chans_ok_def pending_ok_def file_ok_def file_lines_def
        file_write_def joined_def ids_sorted_def)
  ultimately show ?thesis using appended by (simp add: session_inv_def session_new_def)
qed simp_all

lemma load_lines_Inr: "load_lines i n ls = Inr es \<Longrightarrow> ls = map Some es \<and> (\<forall>e \<in> set es. line_fits e)"
  by (induction i n ls arbitrary: es rule: load_lines.induct) (auto split: sum.splits if_splits)

lemma load_lines_Some: "\<forall>e \<in> set es. line_fits e \<Longrightarrow> load_lines i n (map Some es) = Inr es"
  by (induction es arbitrary: n) simp_all

lemma load_lines_None: "None \<in> set ls \<Longrightarrow> \<exists>err. load_lines i n ls = Inl err"
  by (induction i n ls rule: load_lines.induct) auto

lemma load_Inr:
  assumes "load i lf = Inr s"
  shows "ValidateLog (se_events s) = None" "se_file s = lf" "file_lines lf = map Some (se_events s)"
    "se_chans s = []" "se_subs s = []" "se_pending s = None"
  using assms load_lines_Inr by (auto simp: load_def split: sum.splits option.splits)

lemma loaded_inv: "load i lf = Inr s \<Longrightarrow> ids_sorted (se_events s) \<Longrightarrow> session_inv s"
  using load_Inr [of i lf s] by (simp add: session_inv_def file_ok_def chans_ok_def pending_ok_def)

lemma session_reach_inv: "session_reach s \<Longrightarrow> session_inv s"
proof (induction rule: session_reach.induct)
  case (reach_created en raw i obs e s)
  then show ?case by (rule created_inv)
next
  case (reach_loaded i lf s)
  then show ?case by (rule loaded_inv)
next
  case (reach_step s s')
  show ?case by (rule session_step_inv [OF reach_step(2,3)])
qed

section \<open>Sample sessions\<close>

lemma ValidateEvent_payload:
  assumes "payload_ok p" "validate_payload p = None" "ev_type e = payload_type p" "ev_data e = Some (enc_payload p)"
  shows "ValidateEvent e = None"
proof -
  have "DecodeData e = Inr p" using assms by (intro DecodeData_payload)
  then show ?thesis using assms enc_payload_text [OF assms(1)] by (simp add: ValidateEvent_None)
qed

definition sample_env :: "write_result \<Rightarrow> Env" where
  "sample_env w = \<lparr>en_time = 0, en_now = 1, en_rnd = replicate 10 0, en_rnd2 = replicate 10 0, en_write = w\<rparr>"

lemma sample_env_write [simp]: "en_write (sample_env w) = w"
  by (simp add: sample_env_def)

lemma session_new_sel [simp]:
  "se_events (session_new i obs) = []" "\<not> se_closed (session_new i obs)"
  by (simp_all add: session_new_def)

definition sample_created :: "(err + Event) \<times> Session" where
  "sample_created = Append (sample_env Wrote) ''session'' (Inr (enc_payload sample_session)) (session_new (sample_id 0) False)"

lemma append_ok:
  assumes "\<not> se_closed s" "new_event en (se_events s) t (enc_payload p) = Inr e" "en_write en = Wrote"
    "payload_ok p" "validate_payload p = None" "t = payload_type p"
  shows "append_locked en t (Inr (enc_payload p)) s =
    (Inr e, s\<lparr>se_file := file_write Wrote e (se_file s), se_events := se_events s @ [e], se_pending := Some e\<rparr>)"
proof -
  have "ev_type e = t \<and> ev_data e = Some (enc_payload p)"
    using assms(2) by (auto simp: new_event_def Let_def split: if_splits)
  then have "ValidateEvent e = None" using assms by (intro ValidateEvent_payload) simp_all
  with assms show ?thesis by (simp add: append_locked_def Let_def)
qed

lemma append_fail:
  assumes "\<not> se_closed s" "new_event en (se_events s) t (enc_payload p) = Inr e" "en_write en \<noteq> Wrote"
    "payload_ok p" "validate_payload p = None" "t = payload_type p"
  shows "append_locked en t (Inr (enc_payload p)) s =
    (Inl (''session '' @ se_id s @ '': write''), s\<lparr>se_file := file_write (en_write en) e (se_file s)\<rparr>)"
proof -
  have "ev_type e = t \<and> ev_data e = Some (enc_payload p)"
    using assms(2) by (auto simp: new_event_def Let_def split: if_splits)
  then have "ValidateEvent e = None" using assms by (intro ValidateEvent_payload) simp_all
  with assms show ?thesis by (simp add: append_locked_def Let_def)
qed

lemma new_event_some:
  "log \<noteq> [] \<or> t = ''session'' \<Longrightarrow> \<exists>e. new_event en log t v = Inr e"
  by (simp add: new_event_def Let_def)

lemma append_reach:
  assumes "session_reach s" "se_pending s = None" "t \<noteq> ''session''" "ulid_room (ev_id (last (se_events s)))"
    "append_locked en t raw s = (r, s')"
  shows "session_reach (append_finish s')"
proof -
  have s': "session_reach s'" using assms by (blast intro: reach_step step_append)
  show ?thesis
  proof (cases "se_pending s'")
    case None
    then show ?thesis using s' by (simp add: append_finish_def)
  next
    case (Some e)
    show ?thesis by (rule reach_step [OF s' step_finish [OF Some]])
  qed
qed

lemma append_finish_sel [simp]:
  "se_events (append_finish s) = se_events s" "se_file (append_finish s) = se_file s"
  "se_closed (append_finish s) = se_closed s" "se_pending (append_finish s) = None"
  "se_id (append_finish s) = se_id s"
  by (simp_all add: append_finish_def broadcast_def Let_def split: option.split)

lemma sample_created_ok:
  obtains e where "sample_created = (Inr e, snd sample_created)" "session_reach (snd sample_created)"
    "se_events (snd sample_created) = [e]" "ev_id e = sample_id 0" "ev_type e = ''session''"
    "\<not> se_closed (snd sample_created)" "se_pending (snd sample_created) = None"
    "se_file (snd sample_created) = \<lparr>lf_lines = [Some e], lf_torn = None\<rparr>"
proof -
  let ?new = "session_new (sample_id 0) False" and ?en = "sample_env Wrote"
  obtain e where e: "new_event ?en [] ''session'' (enc_payload sample_session) = Inr e"
    using new_event_some by blast
  have id: "ev_id e = sample_id 0" "ev_type e = ''session''"
    using e by (auto simp: new_event_def sample_env_def NewULID_def sample_id_def Let_def)
  let ?s = "?new\<lparr>se_file := file_write Wrote e (se_file ?new), se_events := [e], se_pending := Some e\<rparr>"
  have "append_locked ?en ''session'' (Inr (enc_payload sample_session)) ?new =
      (Inr e, ?new\<lparr>se_file := file_write Wrote e (se_file ?new), se_events := se_events ?new @ [e], se_pending := Some e\<rparr>)"
    by (rule append_ok) (simp_all only: session_new_sel e sample_env_write samples_ok not_False_eq_True)
  then have al: "append_locked ?en ''session'' (Inr (enc_payload sample_session)) ?new = (Inr e, ?s)"
    by (simp only: session_new_sel append_Nil)
  then have "session_reach ?s" by (rule reach_created)
  then have reach: "session_reach (append_finish ?s)" by (rule reach_step) (rule step_finish, simp)
  have sc: "sample_created = (Inr e, append_finish ?s)" by (simp add: sample_created_def Append_def al)
  have sn: "snd sample_created = append_finish ?s" unfolding sc snd_conv ..
  show ?thesis
  proof (rule that [of e])
    show "sample_created = (Inr e, snd sample_created)" unfolding sn by (rule sc)
    show "session_reach (snd sample_created)" unfolding sn by (rule reach)
  qed (unfold sn, simp_all add: id session_new_def file_write_def joined_def)
qed

lemma sample_room: "k < 1000 \<Longrightarrow> ulid_room (sample_id k)"
  by (simp add: ulid_room_def sample_id_def ULIDTime_NewULIDAt_gen)

section \<open>Properties\<close>

text \<open>C1: In every state a session reaches, its log is valid and its ids increase strictly in log
  order, whatever the clock, the random source, the writes and the other goroutines do.\<close>
theorem session_log_valid:
  assumes "session_reach s"
  shows "ValidateLog (se_events s) = None \<and> sorted_wrt (<) (map ev_id (se_events s))"
  using session_reach_inv [OF assms] by (simp add: session_inv_def ids_sorted_def)

lemma session_log_valid_witness: "ValidateLog (se_events (snd sample_created)) = None"
  using sample_created_ok session_log_valid by metis

text \<open>C10: What a subscriber took and still has buffered is a gapless run of the log from where it
  subscribed; while its channel is open and no broadcast is under way it is all of it; and after its
  channel was closed, what \<open>EventsAfter\<close> answers for the last event it took completes it.\<close>
theorem session_subscriber:
  assumes "session_reach s" "i < length (se_chans s)"
  defines "c \<equiv> se_chans s ! i"
  shows "prefix (ch_got c @ ch_buf c) (drop (ch_from c) (se_events s)) \<and>
    (\<not> ch_closed c \<and> se_pending s = None \<longrightarrow> ch_got c @ ch_buf c = drop (ch_from c) (se_events s)) \<and>
    (ch_got c \<noteq> [] \<longrightarrow>
      (\<exists>es. session_events_after s (Some (ev_id (last (ch_got c)))) = Inr (es, True) \<and>
            ch_got c @ es = drop (ch_from c) (se_events s)))"
proof -
  have inv: "session_inv s" using assms(1) by (rule session_reach_inv)
  then have ok: "chan_ok (sent s) (se_subs s) i c" using assms(2) by (simp add: session_inv_def chans_ok_def c_def)
  obtain rest where rest: "se_events s = sent s @ rest" by (metis append_take_drop_id sent_def)
  with ok have drop: "drop (ch_from c) (se_events s) = drop (ch_from c) (sent s) @ rest" by (simp add: chan_ok_def)
  have pre: "prefix (ch_got c @ ch_buf c) (drop (ch_from c) (se_events s))"
    using ok unfolding drop by (auto simp: chan_ok_def intro: prefix_order.trans)
  then obtain tl where all: "se_events s = take (ch_from c) (se_events s) @ (ch_got c @ ch_buf c) @ tl"
    by (metis append_take_drop_id prefix_def)
  have "\<exists>es. session_events_after s (Some (ev_id (last (ch_got c)))) = Inr (es, True) \<and>
      ch_got c @ es = drop (ch_from c) (se_events s)" if ne: "ch_got c \<noteq> []"
  proof -
    obtain xs e where g: "ch_got c = xs @ [e]" using ne by (cases "ch_got c" rule: rev_cases) auto
    let ?pre = "take (ch_from c) (se_events s) @ xs"
    have log: "se_events s = ?pre @ e # (ch_buf c @ tl)" using all g by simp
    have "distinct (map ev_id (se_events s))" using inv ids_sorted_distinct by (simp add: session_inv_def)
    then have "EventsAfter (?pre @ e # (ch_buf c @ tl)) (Some (ev_id e)) = Inr (ch_buf c @ tl, True)"
      using log by (intro EventsAfter_event) simp
    moreover have "ch_got c @ ch_buf c @ tl = drop (ch_from c) (se_events s)"
      using all by (metis append_assoc append_take_drop_id same_append_eq)
    ultimately show ?thesis using g log by (auto simp: session_events_after_def)
  qed
  moreover have "ch_got c @ ch_buf c = drop (ch_from c) (se_events s)" if "\<not> ch_closed c" "se_pending s = None"
    using ok that by (simp add: chan_ok_def sent_idle)
  ultimately show ?thesis using pre by blast
qed

text \<open>The states reached by writes of which none stopped part way.\<close>

inductive whole_reach :: "Session \<Rightarrow> bool" where
  whole_created: "append_locked en ''session'' raw (session_new i obs) = (Inr e, s) \<Longrightarrow> whole_reach s"
| whole_loaded: "load i lf = Inr s \<Longrightarrow> ids_sorted (se_events s) \<Longrightarrow> lf_torn lf = None \<Longrightarrow> whole_reach s"
| whole_step: "whole_reach s \<Longrightarrow> session_step s s' \<Longrightarrow> lf_torn (se_file s') = None \<Longrightarrow> whole_reach s'"

lemma step_whole:
  assumes "session_step s s'" "lf_torn (se_file s) = None" "lf_torn (se_file s') = None"
    "lf_lines (se_file s) = map Some (se_events s)"
  shows "lf_lines (se_file s') = map Some (se_events s')"
  using assms
proof (induction rule: session_step.induct)
  case (step_append s t en raw r s')
  from step_append(4) show ?case
  proof (cases rule: append_locked_cases)
    case (unwritten e err v)
    then show ?thesis using step_append(5-7) by (auto simp: file_write_def split: write_result.splits)
  next
    case (appended e v)
    then show ?thesis using step_append(5-7) by (simp add: file_write_def joined_def)
  qed (use step_append(7) in simp)
next
  case (step_finish s e)
  then show ?case by (simp add: append_finish_def broadcast_def Let_def)
qed (simp_all add: Close_def Subscribe_def cancel_def receive_def Let_def)

lemma whole_reach_lines:
  "whole_reach s \<Longrightarrow> session_reach s \<and> lf_torn (se_file s) = None \<and> lf_lines (se_file s) = map Some (se_events s)"
proof (induction rule: whole_reach.induct)
  case (whole_created en raw i obs e s)
  then have "se_file s = \<lparr>lf_lines = map Some (se_events s), lf_torn = None\<rparr>"
    by (cases rule: append_locked_cases) (simp_all add: session_new_def file_write_def joined_def)
  then show ?case using reach_created [OF whole_created] by simp
next
  case (whole_loaded i lf s)
  then show ?case using load_Inr [OF whole_loaded(1)] reach_loaded by (simp add: file_lines_def)
next
  case (whole_step s s')
  then show ?case using step_whole reach_step by blast
qed

text \<open>C21: What a reload brings back. It gives exactly the session's events, or those and behind them the one event
  whose line was written but for its newline, the append of which failed; and it fails only on a line that a
  torn write left or one of 64 MiB or more. While no write stops part way, the file is exactly the log.\<close>
theorem session_file_loads:
  assumes "session_reach s"
  shows "(case load (se_id s) (se_file s) of
       Inr s' \<Rightarrow> se_events s' = se_events s \<or>
         (\<exists>x. lf_torn (se_file s) = Some (Some x) \<and> se_events s' = se_events s @ [x])
     | Inl err \<Rightarrow> None \<in> set (file_lines (se_file s)) \<or> (\<exists>e. Some e \<in> set (file_lines (se_file s)) \<and> \<not> line_fits e)) \<and>
    (whole_reach s \<longrightarrow> file_lines (se_file s) = map Some (se_events s))"
proof
  have "file_ok s" using session_reach_inv [OF assms] by (simp add: session_inv_def)
  then obtain es where es: "None \<in> set (file_lines (se_file s)) \<or> file_lines (se_file s) = map Some es \<and> ValidateLog es = None \<and>
      (es = se_events s \<or> (\<exists>x. lf_torn (se_file s) = Some (Some x) \<and> es = se_events s @ [x]))"
    using session_reach_inv [OF assms] unfolding file_ok_def session_inv_def by blast
  show "case load (se_id s) (se_file s) of
       Inr s' \<Rightarrow> se_events s' = se_events s \<or>
         (\<exists>x. lf_torn (se_file s) = Some (Some x) \<and> se_events s' = se_events s @ [x])
     | Inl err \<Rightarrow> None \<in> set (file_lines (se_file s)) \<or> (\<exists>e. Some e \<in> set (file_lines (se_file s)) \<and> \<not> line_fits e)"
  proof (cases "load (se_id s) (se_file s)")
    case (Inl err)
    have "\<exists>e \<in> set es. \<not> line_fits e" if f: "file_lines (se_file s) = map Some es" "ValidateLog es = None"
    proof (rule ccontr)
      assume "\<not> ?thesis"
      then have "load_lines (se_id s) 1 (file_lines (se_file s)) = Inr es" unfolding f(1) by (intro load_lines_Some) blast
      then show False using Inl f(2) by (simp add: load_def)
    qed
    then show ?thesis using es Inl by (auto simp: image_iff)
  next
    case (Inr s')
    note l = load_Inr [OF Inr]
    then have "None \<notin> set (file_lines (se_file s))" by auto
    then have "es = se_events s'" using es l(3) by (auto simp: inj_map_eq_map)
    then show ?thesis using es Inr \<open>None \<notin> _\<close> by auto
  qed
  show "whole_reach s \<longrightarrow> file_lines (se_file s) = map Some (se_events s)"
    using whole_reach_lines by (auto simp: file_lines_def)
qed

lemma sample_created_event: "se_events (snd sample_created) = [sample_event 0 sample_session]"
proof -
  let ?en = "sample_env Wrote" and ?new = "session_new (sample_id 0) False" and ?e = "sample_event 0 sample_session"
  have e: "new_event ?en [] ''session'' (enc_payload sample_session) = Inr ?e"
    by (simp add: new_event_def sample_env_def sample_event_def NewULID_def sample_id_def Let_def)
  have "append_locked ?en ''session'' (Inr (enc_payload sample_session)) ?new =
      (Inr ?e, ?new\<lparr>se_file := file_write Wrote ?e (se_file ?new), se_events := se_events ?new @ [?e], se_pending := Some ?e\<rparr>)"
    by (rule append_ok) (simp_all only: session_new_sel e sample_env_write samples_ok not_False_eq_True)
  then show ?thesis by (simp add: sample_created_def Append_def)
qed

lemma sample_session_fits: "line_fits (sample_event 0 sample_session)"
  by code_simp

lemma session_file_loads_witness:
  "\<exists>s'. load (se_id (snd sample_created)) (se_file (snd sample_created)) = Inr s' \<and> se_events s' = [sample_event 0 sample_session]"
proof -
  obtain e where r: "session_reach (snd sample_created)" "se_events (snd sample_created) = [e]"
    and f: "se_file (snd sample_created) = \<lparr>lf_lines = [Some e], lf_torn = None\<rparr>"
    using sample_created_ok by metis
  have e: "e = sample_event 0 sample_session" using r(2) sample_created_event by simp
  from session_file_loads [OF r(1)] sample_session_fits show ?thesis
    by (cases "load (se_id (snd sample_created)) (se_file (snd sample_created))") (auto simp: f e file_lines_def sample_created_event)
qed

lemma sample_subscribed_reach: "session_reach (snd (Subscribe 1 (snd sample_created)))"
  using sample_created_ok session_reach.reach_step [OF _ step_subscribe] by metis

lemma session_subscriber_witness:
  "ch_got (se_chans (snd (Subscribe 1 (snd sample_created))) ! (length (se_chans (snd sample_created)))) = [] \<and>
   drop (ch_from (se_chans (snd (Subscribe 1 (snd sample_created))) ! (length (se_chans (snd sample_created)))))
     (se_events (snd (Subscribe 1 (snd sample_created)))) = []"
proof -
  let ?s = "snd (Subscribe 1 (snd sample_created))" and ?i = "length (se_chans (snd sample_created))"
  have p: "se_pending (snd sample_created) = None" using sample_created_ok by metis
  have i: "?i < length (se_chans ?s)" by (simp add: Subscribe_def Let_def)
  have c: "ch_got (se_chans ?s ! ?i) = []" "ch_buf (se_chans ?s ! ?i) = []" "\<not> ch_closed (se_chans ?s ! ?i)"
    "se_pending ?s = None"
    using p by (simp_all add: Subscribe_def Let_def)
  from session_subscriber [OF sample_subscribed_reach i] c show ?thesis by simp
qed

text \<open>Every branch of \<open>Append\<close>: a refused or unwritten event leaves the log, the subscribers and the
  observer as they were; an accepted one is valid, carries the type and the data given, is chained to
  the last event, is the last of the log, is written, and reaches the observer.\<close>
theorem Append_result:
  "case Append en t raw s of
     (Inl err, s') \<Rightarrow>
       se_events s' = se_events s \<and> se_chans s' = se_chans s \<and> se_subs s' = se_subs s \<and>
       se_observed s' = se_observed s
   | (Inr e, s') \<Rightarrow>
       \<not> se_closed s \<and> ValidateEvent e = None \<and> raw = Inr (the (ev_data e)) \<and> ev_type e = t \<and>
       ev_parent e = (if se_events s = [] then None else Some (ev_id (last (se_events s)))) \<and>
       se_events s' = se_events s @ [e] \<and> se_file s' = file_write Wrote e (se_file s) \<and>
       se_observed s' = (if se_observe s then se_observed s @ [e] else se_observed s)"
proof -
  obtain r s' where al: "append_locked en t raw s = (r, s')" by fastforce
  from al show ?thesis
  proof (cases rule: append_locked_cases)
    case (appended e v)
    have "ev_type e = t \<and> ev_data e = Some v \<and>
        ev_parent e = (if se_events s = [] then None else Some (ev_id (last (se_events s))))"
      using appended(4) by (auto simp: new_event_def Let_def split: if_splits)
    with al appended show ?thesis
      by (simp add: Append_def append_finish_def broadcast_def Let_def)
  qed (use al in \<open>simp_all add: Append_def\<close>)
qed

section \<open>Three ways for the file to part from the log\<close>

lemma sample_append:
  assumes "session_reach s" "se_events s = [e0]" "ev_id e0 = sample_id 0" "\<not> se_closed s" "se_pending s = None"
    "payload_ok p" "validate_payload p = None"
  shows "\<exists>e s'. Append (sample_env Wrote) (payload_type p) (Inr (enc_payload p)) s = (Inr e, s') \<and>
    se_events s' = [e0, e] \<and> ev_type e = payload_type p \<and> se_file s' = file_write Wrote e (se_file s)"
proof -
  let ?en = "sample_env Wrote" and ?t = "payload_type p" and ?v = "enc_payload p"
  obtain e where e: "new_event ?en (se_events s) ?t ?v = Inr e"
    using new_event_some [of "se_events s" ?t ?en ?v] assms(2) by auto
  have al: "append_locked ?en ?t (Inr ?v) s =
      (Inr e, s\<lparr>se_file := file_write Wrote e (se_file s), se_events := se_events s @ [e], se_pending := Some e\<rparr>)"
    by (rule append_ok [OF assms(4) e _ assms(6,7) refl]) simp
  have "ev_type e = ?t" using e by (auto simp: new_event_def Let_def split: if_splits)
  moreover define s' where "s' = append_finish
      (s\<lparr>se_file := file_write Wrote e (se_file s), se_events := se_events s @ [e], se_pending := Some e\<rparr>)"
  moreover have "Append ?en ?t (Inr ?v) s = (Inr e, s')" by (simp add: Append_def al s'_def)
  ultimately show ?thesis using assms(2) by (intro exI [of _ e] exI [of _ s']) simp
qed

text \<open>\<open>Append\<close> accepts a second session event, and the log it leaves is one that \<open>load\<close> refuses.\<close>
theorem Append_second_session:
  "\<exists>en raw s e s' err. session_reach s \<and> se_events s \<noteq> [] \<and>
     Append en ''session'' raw s = (Inr e, s') \<and> load (se_id s') (se_file s') = Inl err"
proof -
  obtain e0 where c: "session_reach (snd sample_created)" "se_events (snd sample_created) = [e0]"
    "ev_id e0 = sample_id 0" "\<not> se_closed (snd sample_created)" "se_pending (snd sample_created) = None"
    "se_file (snd sample_created) = \<lparr>lf_lines = [Some e0], lf_torn = None\<rparr>"
    using sample_created_ok by metis
  obtain e s' where a: "Append (sample_env Wrote) (payload_type sample_session) (Inr (enc_payload sample_session)) (snd sample_created) = (Inr e, s')"
    "ev_type e = payload_type sample_session" "se_file s' = file_write Wrote e (se_file (snd sample_created))"
    using sample_append [OF c(1-5) samples_ok(1) samples_ok(4)] by (elim exE conjE)
  have "ValidateLog [e0, e] \<noteq> None" using ValidateLog_first [of "[e0, e]"] a(2) by auto
  moreover have "file_lines (se_file s') = map Some [e0, e]" using a(3) c(6) by (simp add: file_lines_def file_write_def joined_def)
  ultimately have "load (se_id s') (se_file s') \<noteq> Inr x" for x
    using load_Inr [of "se_id s'" "se_file s'" x] by (auto simp: inj_map_eq_map)
  then obtain err where err: "load (se_id s') (se_file s') = Inl err" by (cases "load (se_id s') (se_file s')") auto
  have "Append (sample_env Wrote) ''session'' (Inr (enc_payload sample_session)) (snd sample_created) = (Inr e, s')"
    using a(1) by (simp only: samples_ok)
  with c(1,2) err show ?thesis by (intro exI conjI) (assumption | simp)+
qed

text \<open>After a write that failed half way, \<open>Append\<close> goes on succeeding, and the file it writes is one
  that \<open>load\<close> refuses.\<close>
theorem Append_after_torn_write:
  "\<exists>en t raw s s1 en' e s' err err'. session_reach s \<and>
     Append en t raw s = (Inl err, s1) \<and> session_reach s1 \<and> Append en' t raw s1 = (Inr e, s') \<and>
     se_events s' = se_events s @ [e] \<and> load (se_id s') (se_file s') = Inl err'"
proof -
  obtain e0 where c: "session_reach (snd sample_created)" "se_events (snd sample_created) = [e0]"
    "ev_id e0 = sample_id 0" "\<not> se_closed (snd sample_created)" "se_pending (snd sample_created) = None"
    "se_file (snd sample_created) = \<lparr>lf_lines = [Some e0], lf_torn = None\<rparr>"
    using sample_created_ok by metis
  let ?s = "snd sample_created" and ?p = "sample_said ''hi''" and ?en = "sample_env WroteFragment"
  let ?t = "payload_type ?p" and ?raw = "Inr (enc_payload ?p) :: err + json"
  define s1 where "s1 = ?s\<lparr>se_file := \<lparr>lf_lines = [Some e0], lf_torn = Some None\<rparr>\<rparr>"
  obtain x where x: "new_event ?en (se_events ?s) ?t (enc_payload ?p) = Inr x"
    using new_event_some [of "se_events ?s" ?t ?en "enc_payload ?p"] c(2) by auto
  have "append_locked ?en ?t ?raw ?s =
      (Inl (''session '' @ se_id ?s @ '': write''), ?s\<lparr>se_file := file_write (en_write ?en) x (se_file ?s)\<rparr>)"
    by (rule append_fail [OF c(4) x]) simp_all
  then have al: "append_locked ?en ?t ?raw ?s = (Inl (''session '' @ se_id ?s @ '': write''), s1)"
    by (simp add: s1_def file_write_def c(6))
  then have ap: "Append ?en ?t ?raw ?s = (Inl (''session '' @ se_id ?s @ '': write''), s1)" by (simp add: Append_def)
  have "session_step ?s s1" by (rule step_append [OF _ _ _ al]) (simp_all add: c sample_room)
  then have r1: "session_reach s1" by (rule reach_step [OF c(1)])
  have s1: "se_events s1 = [e0]" "\<not> se_closed s1" "se_pending s1 = None" using c by (simp_all add: s1_def)
  obtain e s' where a: "Append (sample_env Wrote) ?t ?raw s1 = (Inr e, s')" "se_events s' = [e0, e]"
    "se_file s' = file_write Wrote e (se_file s1)"
    using sample_append [OF r1 s1(1) c(3) s1(2,3) samples_ok(2) [of "''hi''"] samples_ok(5)] by (elim exE conjE)
  have "None \<in> set (file_lines (se_file s'))" using a(3) by (simp add: s1_def file_lines_def file_write_def joined_def)
  then obtain err' where err: "load (se_id s') (se_file s') = Inl err'"
    using load_lines_None [of "file_lines (se_file s')" "se_id s'" 1] by (auto simp: load_def)
  have ev: "se_events s' = se_events ?s @ [e]" using a(2) c(2) by simp
  show ?thesis by (intro exI conjI) (rule c(1), rule ap, rule r1, rule a(1), rule ev, rule err)
qed

text \<open>A write that stops just before the newline fails the append, and a reload brings its event back.\<close>

definition sample_second :: Event where
  "sample_second = projr (new_event (sample_env WroteUnended) [sample_event 0 sample_session] ''message'' (enc_payload (sample_said ''hi'')))"

lemma sample_second_fits: "line_fits sample_second"
  by code_simp

theorem Append_failed_comes_back:
  "\<exists>en t raw s s1 err s' x. session_reach s \<and> Append en t raw s = (Inl err, s1) \<and> session_reach s1 \<and>
     se_events s1 = se_events s \<and> load (se_id s1) (se_file s1) = Inr s' \<and> se_events s' = se_events s @ [x]"
proof -
  obtain e where c: "session_reach (snd sample_created)" "se_events (snd sample_created) = [e]"
    "\<not> se_closed (snd sample_created)" "se_pending (snd sample_created) = None"
    "se_file (snd sample_created) = \<lparr>lf_lines = [Some e], lf_torn = None\<rparr>"
    using sample_created_ok by metis
  let ?s = "snd sample_created" and ?p = "sample_said ''hi''" and ?en = "sample_env WroteUnended" and ?e = "sample_event 0 sample_session"
  have e: "e = ?e" using c(2) sample_created_event by simp
  have x: "new_event ?en (se_events ?s) (payload_type ?p) (enc_payload ?p) = Inr sample_second"
    using new_event_some [of "[?e]" "payload_type ?p" ?en "enc_payload ?p"] unfolding sample_second_def c(2) e samples_ok by auto
  define s1 where "s1 = ?s\<lparr>se_file := \<lparr>lf_lines = [Some ?e], lf_torn = Some (Some sample_second)\<rparr>\<rparr>"
  have "append_locked ?en (payload_type ?p) (Inr (enc_payload ?p)) ?s =
      (Inl (''session '' @ se_id ?s @ '': write''), ?s\<lparr>se_file := file_write (en_write ?en) sample_second (se_file ?s)\<rparr>)"
    by (rule append_fail [OF c(3) x]) simp_all
  then have al: "append_locked ?en (payload_type ?p) (Inr (enc_payload ?p)) ?s = (Inl (''session '' @ se_id ?s @ '': write''), s1)"
    by (simp add: s1_def file_write_def joined_def c(5) e)
  then have ap: "Append ?en (payload_type ?p) (Inr (enc_payload ?p)) ?s = (Inl (''session '' @ se_id ?s @ '': write''), s1)"
    by (simp add: Append_def)
  have "session_step ?s s1" by (rule step_append [OF _ _ _ al]) (simp_all add: c e sample_room)
  then have r1: "session_reach s1" by (rule reach_step [OF c(1)])
  have f: "file_lines (se_file s1) = map Some [?e, sample_second]" by (simp add: s1_def file_lines_def)
  have "ev_type sample_second = payload_type ?p" "ev_data sample_second = Some (enc_payload ?p)"
    by (simp_all add: sample_second_def new_event_def Let_def)
  then have "ValidateEvent sample_second = None" by (intro ValidateEvent_payload [of ?p]) simp_all
  then have "ValidateLog [?e, sample_second] = None"
    using append_valid [OF x] session_reach_inv [OF c(1)] by (simp add: session_inv_def c(2) e)
  then obtain s' where s': "load (se_id s1) (se_file s1) = Inr s'" "se_events s' = [?e, sample_second]"
    using load_lines_Some [of "[?e, sample_second]"] sample_session_fits sample_second_fits unfolding load_def f by simp
  have ev: "se_events s1 = se_events ?s" by (simp add: s1_def)
  have ev': "se_events s' = se_events ?s @ [sample_second]" using s'(2) c(2) e by simp
  show ?thesis by (intro exI conjI) (rule c(1), rule ap, rule r1, rule ev, rule s'(1), rule ev')
qed

end
