(* ===== verification/Run_State.thy ===== *)
theory Run_State
  imports Projection
begin

text \<open>
  \<open>clients/runs/state.go\<close>: a run, one brief on its way to a pull request, with its steps and its
  history. \<open>StepNone\<close> is the empty name, of a run that failed nowhere or whose plan no session
  disputed; a time is in nanoseconds, 0 being the zero time. A state directory maps a home to the run
  its file holds; the JSON of a state file is not modelled.
\<close>

datatype Step =
    StepNone | StepSetup | StepBrief | StepPlan | StepPlanReview | StepVerify | StepVerifyReview | StepTasks
  | StepWork | StepCheck | StepFix | StepRevise | StepFinalReview | StepPR | StepCI | StepCIFix | StepPush
  | StepMerge | StepReplanReview | StepReflect | StepDone | StepFailed

fun step_name :: "Step \<Rightarrow> string" where
  "step_name StepNone = []"
| "step_name StepSetup = ''setup''"
| "step_name StepBrief = ''brief''"
| "step_name StepPlan = ''plan''"
| "step_name StepPlanReview = ''plan-review''"
| "step_name StepVerify = ''verify''"
| "step_name StepVerifyReview = ''verify-review''"
| "step_name StepTasks = ''tasks''"
| "step_name StepWork = ''work''"
| "step_name StepCheck = ''check''"
| "step_name StepFix = ''fix''"
| "step_name StepRevise = ''revise''"
| "step_name StepFinalReview = ''final-review''"
| "step_name StepPR = ''pr''"
| "step_name StepCI = ''ci''"
| "step_name StepCIFix = ''ci-fix''"
| "step_name StepPush = ''push''"
| "step_name StepMerge = ''merge''"
| "step_name StepReplanReview = ''replan-review''"
| "step_name StepReflect = ''reflect''"
| "step_name StepDone = ''done''"
| "step_name StepFailed = ''failed''"

text \<open>The steps can be enumerated, in the order of the constants; no two have the same name.\<close>

instantiation Step :: enum
begin

definition enum_Step :: "Step list" where
  "enum_Step = [StepNone, StepSetup, StepBrief, StepPlan, StepPlanReview, StepVerify, StepVerifyReview, StepTasks,
   StepWork, StepCheck, StepFix, StepRevise, StepFinalReview, StepPR, StepCI, StepCIFix, StepPush,
   StepMerge, StepReplanReview, StepReflect, StepDone, StepFailed]"

definition enum_all_Step :: "(Step \<Rightarrow> bool) \<Rightarrow> bool" where
  "enum_all_Step P \<longleftrightarrow> list_all P (enum_class.enum :: Step list)"

definition enum_ex_Step :: "(Step \<Rightarrow> bool) \<Rightarrow> bool" where
  "enum_ex_Step P \<longleftrightarrow> list_ex P (enum_class.enum :: Step list)"

instance
proof
  show all: "(UNIV :: Step set) = set enum_class.enum"
  proof (intro set_eqI iffI)
    fix s :: Step
    show "s \<in> set enum_class.enum" by (cases s) (simp_all add: enum_Step_def)
  qed simp
  show "distinct (enum_class.enum :: Step list)" by (simp add: enum_Step_def)
  fix P :: "Step \<Rightarrow> bool"
  show "enum_class.enum_all P \<longleftrightarrow> Ball UNIV P" by (simp add: enum_all_Step_def list_all_iff all)
  show "enum_class.enum_ex P \<longleftrightarrow> Bex UNIV P" by (simp add: enum_ex_Step_def list_ex_iff all)
qed

end

lemma step_name_inj: "step_name s = step_name t \<longleftrightarrow> s = t"
proof -
  have "distinct (map step_name enum_class.enum)" by (simp add: enum_Step_def)
  then have "inj step_name" by (simp add: distinct_map enum_UNIV)
  then show ?thesis by (simp add: inj_eq)
qed

text \<open>Which steps a model session does, which are Claude's gates, and which end a run.\<close>

definition step_session :: "Step \<Rightarrow> bool" where
  "step_session s \<longleftrightarrow>
     s \<in> {StepBrief, StepPlan, StepTasks, StepVerify, StepWork, StepFix, StepCIFix, StepReflect}"

definition step_claude :: "Step \<Rightarrow> bool" where
  "step_claude s \<longleftrightarrow> s \<in> {StepPlanReview, StepVerifyReview, StepRevise, StepFinalReview, StepReplanReview}"

definition step_over :: "Step \<Rightarrow> bool" where
  "step_over s \<longleftrightarrow> s = StepDone \<or> s = StepFailed"

record Record =
  rec_step :: Step
  rec_task :: int
  rec_session :: string
  rec_ok :: bool
  rec_why :: string
  rec_result :: string
  rec_note :: string
  rec_at :: int

record Run =
  run_home :: string
  run_workspace :: string
  run_slug :: string
  run_branch :: string
  run_base :: string
  run_worktree :: string
  run_goal :: string
  run_brief :: string
  run_step :: Step
  run_failed_at :: Step
  run_why :: string
  run_attempt :: nat
  run_fixes :: nat
  run_ci_fixes :: nat
  run_revisions :: nat
  run_final_reviewed :: bool
  run_waiting :: bool
  run_parked :: string
  run_skip :: bool
  run_skipped :: "Step list"
  run_session :: string
  run_start :: string
  run_prompted :: bool
  run_stopped :: bool
  run_nudged_at :: int
  run_task :: int
  run_output :: string
  run_advice :: string
  run_replans :: nat
  run_refusals :: nat
  run_replan_from :: Step
  run_replan_advice :: string
  run_finding :: string
  run_seen :: string
  run_labelled :: string
  run_ci_since :: int
  run_issue :: int
  run_reported :: bool
  run_pr :: int
  run_pr_url :: string
  run_notes :: "string list"
  run_history :: "Record list"
  run_since :: int
  run_since_key :: string
  run_statused :: string
  run_started :: int
  run_updated :: int

definition maxNote :: nat where "maxNote = 2000"
definition maxHistory :: nat where "maxHistory = 200"

text \<open>\<open>cut\<close> keeps the end of a note.\<close>

definition cut :: "Record \<Rightarrow> Record" where
  "cut r =
     (if length (rec_note r) > maxNote
      then r\<lparr>rec_note := ''(earlier output cut)'' @ [newline] @ drop (length (rec_note r) - maxNote) (rec_note r)\<rparr>
      else r)"

text \<open>The history gets a cut record, and keeps its last entries.\<close>

definition add_history :: "Record \<Rightarrow> Record list \<Rightarrow> Record list" where
  "add_history r h =
     (let h' = h @ [cut r] in if length h' > maxHistory then drop (length h' - maxHistory) h' else h')"

section \<open>The bounds of the history\<close>

lemma cut_bound: "length (rec_note (cut r)) \<le> 21 + maxNote"
  by (auto simp: cut_def)

lemma cut_end:
  "\<exists>pre. rec_note (cut r) = pre @ drop (length (rec_note r) - maxNote) (rec_note r) \<and>
     (pre = [] \<longleftrightarrow> length (rec_note r) \<le> maxNote)"
  by (auto simp: cut_def)

definition history_ok :: "Record list \<Rightarrow> bool" where
  "history_ok h \<longleftrightarrow> length h \<le> maxHistory \<and> (\<forall>r \<in> set h. length (rec_note r) \<le> 21 + maxNote)"

lemma add_history_ok:
  assumes "history_ok h"
  shows "history_ok (add_history r h)"
proof -
  have "set (add_history r h) \<subseteq> set h \<union> {cut r}"
    by (auto simp: add_history_def Let_def dest: in_set_dropD)
  then have "\<forall>x \<in> set (add_history r h). length (rec_note x) \<le> 21 + maxNote"
    using assms cut_bound [of r] by (auto simp: history_ok_def)
  moreover have "length (add_history r h) \<le> maxHistory"
    by (simp add: add_history_def Let_def maxHistory_def)
  ultimately show ?thesis by (simp add: history_ok_def)
qed

lemma add_history_last: "last (add_history r h) = cut r \<and> add_history r h \<noteq> []"
  by (simp add: add_history_def Let_def maxHistory_def)

text \<open>A run's history stays within its bounds, the newest record is always kept, and a note that was
  cut keeps its end.\<close>
theorem history_bounded:
  "length (foldl (\<lambda>h r. add_history r h) [] (rs @ [r])) \<le> 200 \<and>
   rec_step (last (foldl (\<lambda>h r. add_history r h) [] (rs @ [r]))) = rec_step r \<and>
   (\<exists>pre. rec_note (last (foldl (\<lambda>h r. add_history r h) [] (rs @ [r]))) =
      pre @ drop (length (rec_note r) - 2000) (rec_note r) \<and> length pre \<le> 21)"
proof -
  have ok: "history_ok (foldl (\<lambda>h r. add_history r h) [] xs)" for xs
    by (induction xs rule: rev_induct) (simp_all add: history_ok_def [of "[]"] add_history_ok)
  have "length (add_history r (foldl (\<lambda>h r. add_history r h) [] rs)) \<le> 200"
    using ok [of "rs @ [r]"] by (simp add: history_ok_def maxHistory_def)
  then show ?thesis using add_history_last by (auto simp: cut_def maxNote_def)
qed

end
