(* ===== verification/Run_Transition.thy ===== *)
theory Run_Transition
  imports Run_State
begin

text \<open>
  \<open>clients/runs/transition.go\<close>: the workflow of a run as one function, with its caps, and the record
  \<open>runner.go\<close> adds to the history before each transition. The lemmas show the invariant of the
  counters, that a finished run stays finished, that a run which a session worked on reflects before
  it ends, that every step of a run lowers a lexicographic measure, so that a run which keeps getting
  outcomes ends, and what \<open>Resume\<close> restores.
\<close>

definition MaxFixes :: nat where "MaxFixes = 10"
definition MaxRevisions :: nat where "MaxRevisions = 2"
definition sessionTries :: nat where "sessionTries = 2"
definition otherTries :: nat where "otherTries = 3"
definition ciTries :: nat where "ciTries = 10"
definition MaxReplans :: nat where "MaxReplans = 2"
definition MaxRefusals :: nat where "MaxRefusals = 2"
definition MaxCIFixes :: nat where "MaxCIFixes = 5"

lemmas caps =
  MaxFixes_def MaxRevisions_def sessionTries_def otherTries_def ciTries_def MaxReplans_def MaxRefusals_def MaxCIFixes_def

record Outcome =
  o_ok :: bool
  o_why :: string
  o_check_passed :: bool
  o_revision :: bool
  o_tasks_left :: nat
  o_blockers :: nat
  o_ci :: string
  o_wait :: bool
  o_parked :: string
  o_note :: string
  o_replan_request :: bool
  o_replan :: string
  o_refused :: string
  o_skipped :: bool

definition claims :: "Step \<Rightarrow> bool" where
  "claims s \<longleftrightarrow> s = StepWork \<or> s = StepFix \<or> s = StepCIFix"

section \<open>Where a run goes\<close>

definition enter :: "Run \<Rightarrow> Step \<Rightarrow> bool \<Rightarrow> Run" where
  "enter r s fresh =
     (let r = r\<lparr>run_step := s\<rparr>;
          r = (if fresh then r\<lparr>run_attempt := 0\<rparr> else r) in
      r\<lparr>run_session := [], run_start := [], run_prompted := False, run_stopped := False, run_nudged_at := 0,
        run_seen := [], run_finding := [], run_waiting := step_session s\<rparr>)"

definition worked :: "Run \<Rightarrow> bool" where
  "worked r = list_ex (\<lambda>x. rec_session x \<noteq> []) (run_history r)"

definition finish :: "Run \<Rightarrow> Run" where
  "finish r =
     (if run_step r \<noteq> StepReflect \<and> worked r then enter r StepReflect True
      else if run_failed_at r \<noteq> StepNone then enter r StepFailed True
      else enter r StepDone True)"

definition fail :: "Run \<Rightarrow> Step \<Rightarrow> string \<Rightarrow> Run" where
  "fail r at why = finish (r\<lparr>run_failed_at := at, run_why := why\<rparr>)"

definition replan :: "Run \<Rightarrow> string \<Rightarrow> Run" where
  "replan r0 finding =
     (let r = r0\<lparr>run_replans := run_replans r0 + 1\<rparr> in
      if run_replans r > MaxReplans
      then fail r StepPlan (''the plan was found unworkable '' @ itoa (int (run_replans r)) @
             '' times; the last finding: '' @ finding)
      else enter (r\<lparr>run_final_reviewed := False, run_fixes := 0, run_revisions := 0, run_advice := [],
                    run_replan_advice := []\<rparr>) StepPlan True)"

text \<open>How many times a step is tried.\<close>

definition tries :: "Step \<Rightarrow> nat" where
  "tries s = (if step_session s then sessionTries else if s = StepCI then ciTries else otherTries)"

text \<open>The second switch of \<open>Transition\<close>: a step that did its job.\<close>

definition next_step :: "Run \<Rightarrow> Outcome \<Rightarrow> Run" where
  "next_step r oc =
     (case run_step r of
        StepSetup \<Rightarrow> if run_brief r \<noteq> [] then enter r StepPlan True else enter r StepBrief True
      | StepBrief \<Rightarrow> enter r StepPlan True
      | StepPlan \<Rightarrow> enter r StepPlanReview True
      | StepPlanReview \<Rightarrow> enter r StepVerify True
      | StepVerify \<Rightarrow> enter r StepVerifyReview True
      | StepVerifyReview \<Rightarrow> enter r StepTasks True
      | StepTasks \<Rightarrow> if o_tasks_left oc > 0 then enter r StepWork True else enter r StepCheck True
      | StepWork \<Rightarrow> if o_tasks_left oc > 0 then enter r StepWork True else enter r StepCheck True
      | StepCheck \<Rightarrow>
          if o_check_passed oc then
            (if run_pr r \<noteq> 0 then enter r StepPush True
             else if run_final_reviewed r then enter r StepPR True
             else enter r StepFinalReview True)
          else if run_fixes r \<ge> MaxFixes
          then fail r StepFix (''verify.sh still fails after '' @ itoa (int MaxFixes) @ '' fixes'')
          else enter (r\<lparr>run_fixes := run_fixes r + 1\<rparr>) StepFix True
      | StepFix \<Rightarrow>
          if o_revision oc then
            (if run_revisions r \<ge> MaxRevisions
             then fail r StepRevise (''a fix asked for a revision of verify.sh after '' @ itoa (int MaxRevisions) @ '' already'')
             else enter r StepRevise True)
          else enter r StepCheck True
      | StepCIFix \<Rightarrow>
          if o_revision oc then
            (if run_revisions r \<ge> MaxRevisions
             then fail r StepRevise (''a fix asked for a revision of verify.sh after '' @ itoa (int MaxRevisions) @ '' already'')
             else enter r StepRevise True)
          else enter r StepCheck True
      | StepRevise \<Rightarrow> enter (r\<lparr>run_revisions := run_revisions r + 1\<rparr>) StepCheck True
      | StepReplanReview \<Rightarrow>
          if o_replan oc \<noteq> [] then replan r (o_replan oc)
          else (let r = r\<lparr>run_refusals := run_refusals r + 1\<rparr> in
                if run_refusals r > MaxRefusals
                then fail r (run_replan_from r) (''the session said the plan cannot work '' @ itoa (int (run_refusals r)) @
                       '' times, and Claude disagreed each time: '' @ o_refused oc)
                else enter (r\<lparr>run_replan_advice := o_refused oc\<rparr>) (run_replan_from r) True)
      | StepFinalReview \<Rightarrow>
          (let r = r\<lparr>run_final_reviewed := True\<rparr> in
           if o_blockers oc > 0 then enter r StepWork True else enter r StepPR True)
      | StepPR \<Rightarrow> enter r StepCI True
      | StepPush \<Rightarrow> enter r StepCI True
      | StepMerge \<Rightarrow> finish r
      | StepCI \<Rightarrow>
          if o_ci oc = ''pass'' then (if run_goal r \<noteq> [] then enter r StepMerge True else finish r)
          else if o_ci oc = ''merged'' then finish r
          else if o_ci oc = ''closed'' then fail r StepCI ''the PR was closed''
          else if o_ci oc = ''fail'' then
            (if run_ci_fixes r \<ge> MaxCIFixes
             then fail r StepCIFix (''CI still fails after '' @ itoa (int MaxCIFixes) @ '' fixes'')
             else enter (r\<lparr>run_ci_fixes := run_ci_fixes r + 1\<rparr>) StepCIFix True)
          else r
      | _ \<Rightarrow> r)"

text \<open>\<open>Transition\<close>: a step that waits, failed, or did its job.\<close>

definition step_failed :: "Run \<Rightarrow> Outcome \<Rightarrow> Run" where
  "step_failed r0 oc =
     (let r = r0\<lparr>run_attempt := run_attempt r0 + 1\<rparr> in
      if run_attempt r \<ge> tries (run_step r) then fail r (run_step r) (o_why oc) else enter r (run_step r) False)"

definition step_done :: "Run \<Rightarrow> Outcome \<Rightarrow> Run" where
  "step_done r0 oc =
     (let r = r0\<lparr>run_skip := False\<rparr> in
      if claims (run_step r) then
        (if o_replan oc \<noteq> [] then replan r (o_replan oc)
         else if o_replan_request oc then enter (r\<lparr>run_replan_from := run_step r\<rparr>) StepReplanReview True
         else next_step (r\<lparr>run_replan_advice := []\<rparr>) oc)
      else next_step r oc)"

definition Transition :: "Run \<Rightarrow> Outcome \<Rightarrow> Run" where
  "Transition r0 oc =
     (if step_over (run_step r0) then r0
      else if o_wait oc then r0\<lparr>run_parked := o_parked oc\<rparr>
      else (let r = r0\<lparr>run_parked := []\<rparr> in
            if run_step r = StepReflect then finish r
            else if \<not> o_ok oc then step_failed r oc
            else step_done r oc))"

definition Resume :: "Run \<Rightarrow> Run" where
  "Resume r0 =
     (if run_step r0 \<noteq> StepFailed then r0
      else (let r = r0\<lparr>run_replans := 0, run_refusals := 0\<rparr>;
                r = (case run_failed_at r of
                       StepFix \<Rightarrow> enter (r\<lparr>run_fixes := 0\<rparr>) StepCheck True
                     | StepRevise \<Rightarrow> enter (r\<lparr>run_revisions := 0\<rparr>) StepRevise True
                     | StepCIFix \<Rightarrow> enter (r\<lparr>run_ci_fixes := 0\<rparr>) StepCI True
                     | s \<Rightarrow> enter r s True)
            in r\<lparr>run_failed_at := StepNone, run_why := []\<rparr>))"

text \<open>\<open>record\<close> of \<open>runner.go\<close>.\<close>

definition record_result :: "Run \<Rightarrow> Outcome \<Rightarrow> string" where
  "record_result r oc =
     (if \<not> o_ok oc then []
      else if o_skipped oc then ''skipped by the owner''
      else if o_replan_request oc then ''said the plan cannot work''
      else if run_step r = StepReplanReview \<and> o_replan oc \<noteq> [] then ''re-planned''
      else if run_step r = StepReplanReview then ''refused''
      else if o_replan oc \<noteq> [] then ''Claude judged the plan cannot work''
      else if run_step r = StepWork then []
      else if run_step r = StepCheck then (if o_check_passed oc then ''passed'' else ''failed'')
      else if run_step r = StepFinalReview then itoa (int (o_blockers oc)) @ '' blockers''
      else if run_step r = StepCI then o_ci oc
      else if o_revision oc then ''asked for a revision of verify.sh''
      else [])"

definition record_step :: "int \<Rightarrow> Run \<Rightarrow> Outcome \<Rightarrow> Run" where
  "record_step now r oc =
     r\<lparr>run_history := add_history
        \<lparr>rec_step = run_step r, rec_task = (if run_step r = StepWork then run_task r else 0),
         rec_session = run_session r, rec_ok = o_ok oc, rec_why = o_why oc, rec_result = record_result r oc,
         rec_note = o_note oc, rec_at = now\<rparr> (run_history r)\<rparr>"

section \<open>Fields that a move keeps\<close>

lemma enter_sel [simp]:
  "run_step (enter r s f) = s" "run_attempt (enter r s f) = (if f then 0 else run_attempt r)"
  "run_fixes (enter r s f) = run_fixes r" "run_ci_fixes (enter r s f) = run_ci_fixes r"
  "run_revisions (enter r s f) = run_revisions r" "run_final_reviewed (enter r s f) = run_final_reviewed r"
  "run_waiting (enter r s f) = step_session s" "run_replans (enter r s f) = run_replans r"
  "run_refusals (enter r s f) = run_refusals r" "run_replan_from (enter r s f) = run_replan_from r"
  "run_failed_at (enter r s f) = run_failed_at r" "run_why (enter r s f) = run_why r"
  "run_history (enter r s f) = run_history r" "run_pr (enter r s f) = run_pr r" "run_goal (enter r s f) = run_goal r"
  by (simp_all add: enter_def Let_def)

lemma finish_sel [simp]:
  "run_fixes (finish r) = run_fixes r" "run_ci_fixes (finish r) = run_ci_fixes r"
  "run_revisions (finish r) = run_revisions r" "run_final_reviewed (finish r) = run_final_reviewed r"
  "run_replans (finish r) = run_replans r" "run_refusals (finish r) = run_refusals r"
  "run_replan_from (finish r) = run_replan_from r" "run_failed_at (finish r) = run_failed_at r"
  "run_why (finish r) = run_why r" "run_history (finish r) = run_history r" "run_attempt (finish r) = 0"
  by (simp_all add: finish_def)

definition ending :: "Step \<Rightarrow> bool" where
  "ending s \<longleftrightarrow> s = StepReflect \<or> step_over s"

lemma finish_ending [simp]: "ending (run_step (finish r))"
  by (simp add: finish_def ending_def step_over_def)

lemma finish_step:
  "run_step (finish r) =
     (if run_step r \<noteq> StepReflect \<and> worked r then StepReflect
      else if run_failed_at r \<noteq> StepNone then StepFailed else StepDone)"
  by (simp add: finish_def)

section \<open>The invariant of a run\<close>

definition caps_ok :: "Run \<Rightarrow> bool" where
  "caps_ok r \<longleftrightarrow>
     run_fixes r \<le> MaxFixes \<and> run_revisions r \<le> MaxRevisions \<and> run_ci_fixes r \<le> MaxCIFixes \<and>
     run_replans r \<le> MaxReplans + 1 \<and> run_refusals r \<le> MaxRefusals + 1"

text \<open>What being at a step needs.\<close>

definition at_ok :: "Step \<Rightarrow> Run \<Rightarrow> bool" where
  "at_ok s r \<longleftrightarrow>
     s \<noteq> StepNone \<and> (s = StepFinalReview \<longrightarrow> \<not> run_final_reviewed r) \<and>
     (s = StepReplanReview \<longrightarrow> claims (run_replan_from r))"

definition going :: "Run \<Rightarrow> bool" where
  "going r \<longleftrightarrow> run_replans r \<le> MaxReplans \<and> run_refusals r \<le> MaxRefusals \<and> run_failed_at r = StepNone"

definition run_inv :: "Run \<Rightarrow> bool" where
  "run_inv r \<longleftrightarrow>
     caps_ok r \<and>
     (\<not> ending (run_step r) \<longrightarrow> going r \<and> at_ok (run_step r) r \<and> run_attempt r < tries (run_step r) \<and>
        (run_step r = StepRevise \<longrightarrow> run_revisions r < MaxRevisions)) \<and>
     (ending (run_step r) \<longrightarrow> run_failed_at r \<noteq> StepNone \<longrightarrow>
        \<not> ending (run_failed_at r) \<and> at_ok (run_failed_at r) r) \<and>
     (run_step r = StepFailed \<longrightarrow> run_failed_at r \<noteq> StepNone) \<and>
     (run_step r = StepDone \<longrightarrow> run_failed_at r = StepNone) \<and>
     (run_waiting r \<longrightarrow> step_session (run_step r))"

lemma tries_pos: "0 < tries s" "tries s \<le> 10"
  by (simp_all add: tries_def caps)

lemma enter_inv:
  assumes "caps_ok r" "going r" "\<not> ending s" "at_ok s r" "f \<or> run_attempt r < tries s"
    "s = StepRevise \<Longrightarrow> run_revisions r < MaxRevisions"
  shows "run_inv (enter r s f)"
  using assms tries_pos [of s]
  by (auto simp: run_inv_def caps_ok_def going_def at_ok_def ending_def step_over_def)

lemma finish_inv:
  assumes "caps_ok r" "run_failed_at r \<noteq> StepNone \<longrightarrow> \<not> ending (run_failed_at r) \<and> at_ok (run_failed_at r) r"
  shows "run_inv (finish r)"
proof -
  have "at_ok (run_failed_at r) (finish r) = at_ok (run_failed_at r) r" by (simp add: at_ok_def)
  moreover have "run_waiting (finish r) \<longrightarrow> step_session (run_step (finish r))" by (simp add: finish_def)
  ultimately show ?thesis using assms
    by (simp add: run_inv_def caps_ok_def) (simp add: finish_step)
qed

lemma fail_inv:
  assumes "caps_ok r" "\<not> ending at" "at_ok at r"
  shows "run_inv (fail r at w)"
  unfolding fail_def by (rule finish_inv) (use assms in \<open>simp_all add: caps_ok_def at_ok_def\<close>)

lemma replan_inv:
  assumes "caps_ok r" "going r"
  shows "run_inv (replan r f)"
proof (cases "run_replans r + 1 > MaxReplans")
  case True
  then show ?thesis unfolding replan_def Let_def using assms
    by (simp del: One_nat_def) (rule fail_inv, simp_all add: caps_ok_def going_def ending_def step_over_def at_ok_def)
next
  case False
  then show ?thesis unfolding replan_def Let_def using assms
    by (simp del: One_nat_def) (rule enter_inv, simp_all add: caps_ok_def going_def ending_def step_over_def at_ok_def)
qed

lemmas at_simps = caps_ok_def going_def ending_def step_over_def at_ok_def

lemma enter_plain:
  assumes "caps_ok r" "going r"
    "s \<notin> {StepNone, StepReflect, StepDone, StepFailed, StepFinalReview, StepReplanReview, StepRevise}"
  shows "run_inv (enter r s True)"
  by (rule enter_inv) (use assms in \<open>auto simp: ending_def step_over_def at_ok_def\<close>)

text \<open>A step that does its job keeps the invariant.\<close>

lemma next_step_inv:
  assumes inv: "caps_ok r" "going r" "at_ok (run_step r) r" "\<not> ending (run_step r)"
    "run_attempt r < tries (run_step r)" "run_step r = StepRevise \<Longrightarrow> run_revisions r < MaxRevisions" "run_inv r"
  shows "run_inv (next_step r oc)"
proof (cases "run_step r")
  case StepCheck
  then show ?thesis using inv
    by (simp add: next_step_def) (auto intro!: enter_inv fail_inv simp: at_simps)
next
  case StepFix
  then show ?thesis using inv
    by (simp add: next_step_def) (auto intro!: enter_inv fail_inv simp: at_simps)
next
  case StepCIFix
  then show ?thesis using inv
    by (simp add: next_step_def) (auto intro!: enter_inv fail_inv simp: at_simps)
next
  case StepRevise
  then show ?thesis using inv
    by (simp add: next_step_def) (rule enter_inv, simp_all add: at_simps)
next
  case StepCI
  then show ?thesis using inv
    by (simp add: next_step_def) (auto intro!: enter_inv fail_inv finish_inv simp: at_simps)
next
  case StepReplanReview
  then have rf: "claims (run_replan_from r)" using inv by (simp add: at_ok_def)
  then have s: "\<not> ending (run_replan_from r)" "at_ok (run_replan_from r) r" "run_replan_from r \<noteq> StepRevise"
    by (auto simp: claims_def ending_def step_over_def at_ok_def)
  show ?thesis
  proof (cases "o_replan oc \<noteq> []")
    case True
    then show ?thesis using StepReplanReview inv by (simp add: next_step_def replan_inv)
  next
    case False
    then show ?thesis using StepReplanReview inv s
      by (simp add: next_step_def Let_def) (auto intro!: enter_inv fail_inv simp: at_simps)
  qed
next
  case StepFinalReview
  then show ?thesis using inv
    by (simp add: next_step_def Let_def) (auto intro!: enter_inv simp: at_simps)
next
  case StepMerge
  then show ?thesis using inv by (simp add: next_step_def) (rule finish_inv, simp_all add: at_simps)
qed (use inv in \<open>simp_all add: next_step_def enter_plain\<close>)

lemma step_failed_inv:
  assumes "run_inv r" "\<not> ending (run_step r)"
  shows "run_inv (step_failed r oc)"
proof -
  have i: "caps_ok r" "going r" "at_ok (run_step r) r" "run_step r = StepRevise \<Longrightarrow> run_revisions r < MaxRevisions"
    using assms by (simp_all add: run_inv_def)
  show ?thesis
  proof (cases "run_attempt r + 1 \<ge> tries (run_step r)")
    case True
    then have "step_failed r oc = fail (r\<lparr>run_attempt := run_attempt r + 1\<rparr>) (run_step r) (o_why oc)"
      by (simp add: step_failed_def Let_def)
    then show ?thesis using i assms(2) by (simp only:) (rule fail_inv, simp_all add: caps_ok_def at_ok_def)
  next
    case False
    then have "step_failed r oc = enter (r\<lparr>run_attempt := run_attempt r + 1\<rparr>) (run_step r) False"
      by (simp add: step_failed_def Let_def)
    then show ?thesis using i assms(2) False
      by (simp only:) (rule enter_inv, simp_all add: caps_ok_def going_def at_ok_def)
  qed
qed

text \<open>The fields the invariant does not read.\<close>

lemma run_inv_keep [simp]:
  "run_inv (r\<lparr>run_parked := p\<rparr>) = run_inv r" "run_inv (r\<lparr>run_skip := b\<rparr>) = run_inv r"
  "run_inv (r\<lparr>run_replan_advice := a\<rparr>) = run_inv r" "run_inv (r\<lparr>run_history := h\<rparr>) = run_inv r"
  by (simp_all add: run_inv_def caps_ok_def going_def at_ok_def)

lemma next_step_run_inv:
  assumes "run_inv r" "\<not> ending (run_step r)"
  shows "run_inv (next_step r oc)"
  by (rule next_step_inv) (use assms in \<open>simp_all add: run_inv_def\<close>)

lemma step_done_inv:
  assumes "run_inv r" "\<not> ending (run_step r)"
  shows "run_inv (step_done r oc)"
proof -
  have i: "caps_ok r" "going r" using assms by (simp_all add: run_inv_def)
  consider "\<not> claims (run_step r)" | "claims (run_step r)" "o_replan oc \<noteq> []"
    | "claims (run_step r)" "o_replan oc = []" "o_replan_request oc"
    | "claims (run_step r)" "o_replan oc = []" "\<not> o_replan_request oc" by blast
  then show ?thesis
  proof cases
    case 1
    then show ?thesis using next_step_run_inv [of "r\<lparr>run_skip := False\<rparr>"] assms
      by (simp add: step_done_def Let_def)
  next
    case 2
    then show ?thesis using replan_inv [of "r\<lparr>run_skip := False\<rparr>"] i
      by (simp add: step_done_def Let_def caps_ok_def going_def)
  next
    case 3
    then have "step_done r oc = enter (r\<lparr>run_skip := False, run_replan_from := run_step r\<rparr>) StepReplanReview True"
      by (simp add: step_done_def Let_def)
    moreover have "run_inv (enter (r\<lparr>run_skip := False, run_replan_from := run_step r\<rparr>) StepReplanReview True)"
      by (rule enter_inv) (use i 3 in \<open>simp_all add: at_simps\<close>)
    ultimately show ?thesis by simp
  next
    case 4
    then show ?thesis using next_step_run_inv [of "r\<lparr>run_skip := False, run_replan_advice := []\<rparr>"] assms
      by (simp add: step_done_def Let_def)
  qed
qed

lemma reflect_inv:
  assumes "run_inv r" "run_step r = StepReflect"
  shows "run_inv (finish r)"
  by (rule finish_inv) (use assms in \<open>auto simp: run_inv_def ending_def\<close>)

lemma Transition_inv:
  assumes "run_inv r"
  shows "run_inv (Transition r oc)"
proof (cases "step_over (run_step r) \<or> o_wait oc")
  case True
  then show ?thesis using assms by (auto simp: Transition_def)
next
  case False
  let ?r = "r\<lparr>run_parked := []\<rparr>"
  have i: "run_inv ?r" using assms by simp
  show ?thesis
  proof (cases "run_step r = StepReflect")
    case True
    then show ?thesis using False reflect_inv [OF i] by (simp add: Transition_def Let_def)
  next
    case no: False
    then have "\<not> ending (run_step ?r)" using False by (simp add: ending_def)
    then show ?thesis using False no step_failed_inv [OF i] step_done_inv [OF i]
      by (simp add: Transition_def Let_def)
  qed
qed

lemma run_inv_record [simp]: "run_inv (record_step now r oc) = run_inv r"
  by (simp add: record_step_def)

lemma Resume_inv:
  assumes "run_inv r"
  shows "run_inv (Resume r)"
proof (cases "run_step r = StepFailed")
  case True
  let ?r = "r\<lparr>run_replans := 0, run_refusals := 0, run_failed_at := StepNone, run_why := []\<rparr>"
  have f: "\<not> ending (run_failed_at r)" "at_ok (run_failed_at r) r" "caps_ok r"
    using assms True by (auto simp: run_inv_def ending_def step_over_def)
  have base: "caps_ok ?r" "going ?r" "\<And>s. at_ok s ?r = at_ok s r"
    using f(3) by (simp_all add: caps_ok_def going_def at_ok_def)
  have eq: "Resume r =
      (case run_failed_at r of
         StepFix \<Rightarrow> enter (?r\<lparr>run_fixes := 0\<rparr>) StepCheck True
       | StepRevise \<Rightarrow> enter (?r\<lparr>run_revisions := 0\<rparr>) StepRevise True
       | StepCIFix \<Rightarrow> enter (?r\<lparr>run_ci_fixes := 0\<rparr>) StepCI True
       | s \<Rightarrow> enter ?r s True)"
    using True by (cases "run_failed_at r") (simp_all add: Resume_def Let_def enter_def)
  show ?thesis
  proof (cases "run_failed_at r \<in> {StepFix, StepRevise, StepCIFix}")
    case True
    have "run_inv (enter (?r\<lparr>run_fixes := 0\<rparr>) StepCheck True)" "run_inv (enter (?r\<lparr>run_ci_fixes := 0\<rparr>) StepCI True)"
      by (rule enter_plain; use base(1,2) in \<open>simp add: caps_ok_def going_def\<close>)+
    moreover have "run_inv (enter (?r\<lparr>run_revisions := 0\<rparr>) StepRevise True)"
      by (rule enter_inv) (use base(1,2) in \<open>simp_all add: at_simps MaxRevisions_def\<close>)
    ultimately show ?thesis using True unfolding eq by (elim insertE emptyE) (simp_all only: Step.case)
  next
    case False
    then have "Resume r = enter ?r (run_failed_at r) True" unfolding eq by (cases "run_failed_at r") simp_all
    moreover have "run_inv (enter ?r (run_failed_at r) True)"
      by (rule enter_inv) (use base f False in auto)
    ultimately show ?thesis by simp
  qed
qed (use assms in \<open>simp add: Resume_def\<close>)

section \<open>The runs of the runner\<close>

text \<open>One outcome of a run's step, as the runner takes it: a wait is not recorded.\<close>

definition run_advance :: "int \<Rightarrow> Run \<Rightarrow> Outcome \<Rightarrow> Run" where
  "run_advance now r oc = (if o_wait oc then Transition r oc else Transition (record_step now r oc) oc)"

definition run_start :: "Run \<Rightarrow> bool" where
  "run_start r \<longleftrightarrow>
     run_step r = StepSetup \<and> run_failed_at r = StepNone \<and> run_attempt r = 0 \<and> run_fixes r = 0 \<and>
     run_ci_fixes r = 0 \<and> run_revisions r = 0 \<and> run_replans r = 0 \<and> run_refusals r = 0 \<and>
     \<not> run_final_reviewed r \<and> \<not> run_waiting r \<and> run_history r = []"

text \<open>What doing a step may set: anything but the fields the workflow is decided by.\<close>

definition same_control :: "Run \<Rightarrow> Run \<Rightarrow> bool" where
  "same_control r r' \<longleftrightarrow>
     run_step r' = run_step r \<and> run_failed_at r' = run_failed_at r \<and> run_attempt r' = run_attempt r \<and>
     run_fixes r' = run_fixes r \<and> run_ci_fixes r' = run_ci_fixes r \<and> run_revisions r' = run_revisions r \<and>
     run_replans r' = run_replans r \<and> run_refusals r' = run_refusals r \<and>
     run_final_reviewed r' = run_final_reviewed r \<and> run_replan_from r' = run_replan_from r \<and>
     (run_waiting r' \<longrightarrow> run_waiting r)"

lemma same_control_inv: "same_control r r' \<Longrightarrow> run_inv r \<Longrightarrow> run_inv r'"
  by (auto simp: same_control_def run_inv_def caps_ok_def going_def at_ok_def)

inductive run_reach :: "Run \<Rightarrow> bool" where
  reach_start: "run_start r \<Longrightarrow> run_reach r"
| reach_work: "run_reach r \<Longrightarrow> same_control r r' \<Longrightarrow> run_reach r'"
| reach_advance: "run_reach r \<Longrightarrow> run_reach (run_advance now r oc)"
| reach_resume: "run_reach r \<Longrightarrow> run_reach (Resume r)"

lemma run_advance_inv: "run_inv r \<Longrightarrow> run_inv (run_advance now r oc)"
  by (simp add: run_advance_def Transition_inv)

lemma run_reach_inv: "run_reach r \<Longrightarrow> run_inv r"
proof (induction rule: run_reach.induct)
  case (reach_start r)
  then show ?case
    by (simp add: run_start_def run_inv_def caps_ok_def going_def at_ok_def ending_def step_over_def tries_pos)
qed (simp_all add: run_advance_inv Resume_inv same_control_inv)

section \<open>Every outcome brings a run nearer its end\<close>

fun rank :: "Step \<Rightarrow> nat" where
  "rank StepSetup = 20" | "rank StepBrief = 19" | "rank StepPlan = 18" | "rank StepPlanReview = 17"
| "rank StepVerify = 16" | "rank StepVerifyReview = 15" | "rank StepTasks = 14" | "rank StepWork = 13"
| "rank StepFix = 12" | "rank StepCIFix = 12" | "rank StepRevise = 11" | "rank StepCheck = 10"
| "rank StepFinalReview = 9" | "rank StepPR = 8" | "rank StepPush = 8" | "rank StepCI = 7"
| "rank StepMerge = 6" | "rank StepReplanReview = 5" | "rank StepReflect = 2" | "rank _ = 0"

text \<open>The counters of a run and the number of tasks left, most significant first.\<close>

definition run_measures :: "(Run \<times> nat \<Rightarrow> nat) list" where
  "run_measures =
     [\<lambda>(r, n). MaxReplans + 1 - run_replans r, \<lambda>(r, n). MaxRefusals + 1 - run_refusals r,
      \<lambda>(r, n). (MaxFixes - run_fixes r) + (MaxCIFixes - run_ci_fixes r) + (MaxRevisions - run_revisions r),
      \<lambda>(r, n). if run_final_reviewed r then 0 else 1, \<lambda>(r, n). rank (run_step r),
      \<lambda>(r, n). if run_step r = StepWork then n else 0, \<lambda>(r, n). 10 - run_attempt r]"

definition run_less :: "(Run \<times> nat) \<Rightarrow> (Run \<times> nat) \<Rightarrow> bool" where
  "run_less a b \<longleftrightarrow> (a, b) \<in> measures run_measures"

lemma run_less_wf: "wfP run_less"
  by (simp add: run_less_def wfp_def)

lemma run_lessI:
  "run_less (r', n') (r, n) \<longleftrightarrow>
     (let a = MaxReplans + 1 - run_replans r; a' = MaxReplans + 1 - run_replans r';
          b = MaxRefusals + 1 - run_refusals r; b' = MaxRefusals + 1 - run_refusals r';
          c = (MaxFixes - run_fixes r) + (MaxCIFixes - run_ci_fixes r) + (MaxRevisions - run_revisions r);
          c' = (MaxFixes - run_fixes r') + (MaxCIFixes - run_ci_fixes r') + (MaxRevisions - run_revisions r');
          d = (if run_final_reviewed r then 0 else 1 :: nat); d' = (if run_final_reviewed r' then 0 else 1);
          w = (if run_step r = StepWork then n else 0); w' = (if run_step r' = StepWork then n' else 0) in
      a' < a \<or> a' = a \<and> (b' < b \<or> b' = b \<and> (c' < c \<or> c' = c \<and> (d' < d \<or> d' = d \<and>
        (rank (run_step r') < rank (run_step r) \<or> rank (run_step r') = rank (run_step r) \<and>
          (w' < w \<or> w' = w \<and> 10 - run_attempt r' < 10 - run_attempt r))))))"
  by (simp add: run_less_def run_measures_def measures_less measures_lesseq Let_def)

text \<open>The same counters, and a step further on.\<close>

definition same_counts :: "Run \<Rightarrow> Run \<Rightarrow> bool" where
  "same_counts r r' \<longleftrightarrow>
     run_replans r' = run_replans r \<and> run_refusals r' = run_refusals r \<and> run_fixes r' = run_fixes r \<and>
     run_ci_fixes r' = run_ci_fixes r \<and> run_revisions r' = run_revisions r \<and>
     run_final_reviewed r' = run_final_reviewed r"

lemma less_rank: "same_counts r r' \<Longrightarrow> rank (run_step r') < rank (run_step r) \<Longrightarrow> run_less (r', n') (r, n)"
  by (simp add: run_lessI Let_def same_counts_def)

lemma enter_less: "rank s < rank (run_step r) \<Longrightarrow> run_less (enter r s f, n') (r, n)"
  by (rule less_rank) (simp_all add: same_counts_def)

lemma rank_pos: "\<not> ending s \<Longrightarrow> s \<noteq> StepNone \<Longrightarrow> 2 < rank s"
  by (cases s) (simp_all add: ending_def step_over_def)

lemma rank_ending: "ending s \<Longrightarrow> rank s \<le> 2"
  by (cases s) (simp_all add: ending_def step_over_def)

lemma less_finish:
  assumes "\<not> ending (run_step r)" "run_step r \<noteq> StepNone" "same_counts r r'"
  shows "run_less (finish r', n') (r, n)"
proof (rule less_rank)
  show "same_counts r (finish r')" using assms(3) by (simp add: same_counts_def)
  show "rank (run_step (finish r')) < rank (run_step r)"
    using rank_ending [OF finish_ending, of r'] rank_pos [OF assms(1,2)] by simp
qed

lemma less_fail:
  assumes "\<not> ending (run_step r)" "run_step r \<noteq> StepNone" "same_counts r r'"
  shows "run_less (fail r' at w, n') (r, n)"
  unfolding fail_def by (rule less_finish) (use assms in \<open>simp_all add: same_counts_def\<close>)

lemma less_replans:
  assumes "run_replans r \<le> MaxReplans" "run_replans r' = run_replans r + 1"
  shows "run_less (r', n') (r, n)"
proof -
  have "MaxReplans + 1 - run_replans r' < MaxReplans + 1 - run_replans r" using assms by linarith
  then show ?thesis by (simp add: run_less_def run_measures_def measures_less)
qed

text \<open>A refusal spends one, as long as no replan was counted.\<close>

lemma less_refusals:
  assumes "run_replans r' = run_replans r" "run_refusals r \<le> MaxRefusals" "run_refusals r' = run_refusals r + 1"
  shows "run_less (r', n') (r, n)"
proof -
  have "MaxRefusals + 1 - run_refusals r' < MaxRefusals + 1 - run_refusals r" using assms by linarith
  then show ?thesis using assms(1) by (simp add: run_less_def run_measures_def measures_less measures_lesseq)
qed

text \<open>A fix, a CI fix or a revision spends one.\<close>

lemma less_fixes:
  assumes "run_replans r' = run_replans r" "run_refusals r' = run_refusals r"
    "(MaxFixes - run_fixes r') + (MaxCIFixes - run_ci_fixes r') + (MaxRevisions - run_revisions r') <
     (MaxFixes - run_fixes r) + (MaxCIFixes - run_ci_fixes r) + (MaxRevisions - run_revisions r)"
  shows "run_less (r', n') (r, n)"
  using assms by (simp add: run_less_def run_measures_def measures_less measures_lesseq)

lemma less_replan:
  assumes "run_replans r \<le> MaxReplans" "run_replans r0 = run_replans r"
  shows "run_less (replan r0 f, n') (r, n)"
  by (rule less_replans) (use assms in \<open>simp_all add: replan_def Let_def fail_def\<close>)

text \<open>
  What the measure needs of an outcome: the run is not over and does not wait, a work session that did
  its job leaves fewer tasks than there were, and a poll of CI that worked says how it ended.
\<close>

definition progress :: "Run \<Rightarrow> nat \<Rightarrow> Outcome \<Rightarrow> bool" where
  "progress r n oc \<longleftrightarrow>
     \<not> step_over (run_step r) \<and> \<not> o_wait oc \<and>
     (run_step r = StepWork \<and> o_ok oc \<longrightarrow> o_tasks_left oc < n \<or> o_tasks_left oc = 0) \<and>
     (run_step r = StepCI \<and> o_ok oc \<longrightarrow> o_ci oc \<in> {''pass'', ''merged'', ''closed'', ''fail''})"

definition tasks_after :: "nat \<Rightarrow> Outcome \<Rightarrow> nat" where
  "tasks_after n oc = (if o_ok oc then o_tasks_left oc else n)"

lemma next_step_less:
  assumes "run_inv r" "\<not> ending (run_step r)"
    "run_step r = StepWork \<Longrightarrow> o_tasks_left oc < n \<or> o_tasks_left oc = 0"
    "run_step r = StepCI \<Longrightarrow> o_ci oc \<in> {''pass'', ''merged'', ''closed'', ''fail''}"
  shows "run_less (next_step r oc, o_tasks_left oc) (r, n)"
proof -
  have i: "caps_ok r" "going r" "at_ok (run_step r) r" "run_step r = StepRevise \<Longrightarrow> run_revisions r < MaxRevisions"
    using assms(1,2) by (simp_all add: run_inv_def)
  have sn: "run_step r \<noteq> StepNone" using i(3) by (simp add: at_ok_def)
  have self: "same_counts r r" by (simp add: same_counts_def)
  show ?thesis
  proof (cases "run_step r")
    case StepWork
    then show ?thesis using assms(3)
      by (cases "o_tasks_left oc > 0") (simp_all add: next_step_def run_lessI Let_def)
  next
    case StepCheck
    consider "o_check_passed oc" | "\<not> o_check_passed oc" "run_fixes r \<ge> MaxFixes"
      | "\<not> o_check_passed oc" "run_fixes r < MaxFixes" by linarith
    then show ?thesis
    proof cases
      case 2
      then show ?thesis using StepCheck less_fail [OF assms(2) sn self] by (simp add: next_step_def)
    next
      case 3
      then show ?thesis using StepCheck by (intro less_fixes) (simp_all add: next_step_def)
    qed (use StepCheck in \<open>simp_all add: next_step_def less_rank same_counts_def\<close>)
  next
    case StepFix
    then show ?thesis using less_fail [OF assms(2) sn self]
      by (simp add: next_step_def less_rank same_counts_def)
  next
    case StepCIFix
    then show ?thesis using less_fail [OF assms(2) sn self]
      by (simp add: next_step_def less_rank same_counts_def)
  next
    case StepReplanReview
    have rp: "run_replans r \<le> MaxReplans" "run_refusals r \<le> MaxRefusals" using i(2) by (simp_all add: going_def)
    show ?thesis
    proof (cases "o_replan oc \<noteq> []")
      case True
      then show ?thesis using StepReplanReview less_replan [OF rp(1), of r] by (simp add: next_step_def)
    next
      case False
      then have "run_refusals (next_step r oc) = run_refusals r + 1 \<and> run_replans (next_step r oc) = run_replans r"
        using StepReplanReview by (simp add: next_step_def Let_def fail_def)
      then show ?thesis using rp by (intro less_refusals) simp_all
    qed
  next
    case StepCI
    have fin: "run_less (finish r, o_tasks_left oc) (r, n)" by (rule less_finish [OF assms(2) sn self])
    have fl: "run_less (fail r at w, o_tasks_left oc) (r, n)" for at w by (rule less_fail [OF assms(2) sn self])
    consider "o_ci oc = ''pass''" | "o_ci oc = ''merged''" | "o_ci oc = ''closed''" | "o_ci oc = ''fail''"
      using assms(4) [OF StepCI] by blast
    then show ?thesis
    proof cases
      case 1
      then have "next_step r oc = (if run_goal r \<noteq> [] then enter r StepMerge True else finish r)"
        using StepCI by (simp add: next_step_def)
      moreover have "run_less (enter r StepMerge True, o_tasks_left oc) (r, n)"
        by (rule less_rank) (simp_all add: StepCI same_counts_def)
      ultimately show ?thesis using fin by simp
    next
      case 4
      have "run_less (enter (r\<lparr>run_ci_fixes := run_ci_fixes r + 1\<rparr>) StepCIFix True, o_tasks_left oc) (r, n)"
        if "run_ci_fixes r < MaxCIFixes" by (rule less_fixes) (use that in simp_all)
      then show ?thesis using 4 StepCI fl by (simp add: next_step_def)
    qed (use StepCI fin fl in \<open>simp_all add: next_step_def\<close>)
  next
    case StepFinalReview
    then show ?thesis using i(3) by (simp add: next_step_def run_lessI Let_def at_ok_def)
  next
    case StepRevise
    then show ?thesis using i(4) by (intro less_fixes) (simp_all add: next_step_def)
  next
    case StepMerge
    then show ?thesis using less_finish [OF assms(2) sn self] by (simp add: next_step_def)
  qed (use sn assms(2) in \<open>simp_all add: next_step_def enter_less ending_def step_over_def\<close>)
qed

lemma same_less:
  assumes "run_less (r', n') (r, n)" "same_counts r r0" "run_step r0 = run_step r" "run_attempt r0 = run_attempt r"
  shows "run_less (r', n') (r0, n)"
  using assms by (simp add: run_lessI Let_def same_counts_def)

lemma Transition_less:
  assumes "run_inv r" "progress r n oc"
  shows "run_less (Transition r oc, tasks_after n oc) (r, n)"
proof -
  let ?r = "r\<lparr>run_parked := []\<rparr>"
  have go: "\<not> step_over (run_step r)" "\<not> o_wait oc" using assms(2) by (simp_all add: progress_def)
  show ?thesis
  proof (cases "run_step r = StepReflect")
    case True
    then have T: "Transition r oc = finish ?r" using go by (simp add: Transition_def Let_def)
    show ?thesis unfolding T by (rule less_rank) (use True in \<open>simp_all add: same_counts_def finish_step\<close>)
  next
    case no: False
    then have ne: "\<not> ending (run_step r)" using go by (simp add: ending_def)
    have i: "caps_ok r" "going r" "at_ok (run_step r) r" "run_attempt r < tries (run_step r)"
      using assms(1) ne by (simp_all add: run_inv_def)
    have sn: "run_step r \<noteq> StepNone" using i(3) by (simp add: at_ok_def)
    show ?thesis
    proof (cases "o_ok oc")
      case False
      then have T: "Transition r oc = step_failed ?r oc" using go no by (simp add: Transition_def Let_def)
      show ?thesis
      proof (cases "run_attempt r + 1 \<ge> tries (run_step r)")
        case True
        then have "Transition r oc = fail (?r\<lparr>run_attempt := run_attempt r + 1\<rparr>) (run_step r) (o_why oc)"
          unfolding T by (simp add: step_failed_def Let_def)
        then show ?thesis by (simp only:) (rule less_fail [OF ne sn], simp add: same_counts_def)
      next
        case False
        then have "Transition r oc = enter (?r\<lparr>run_attempt := run_attempt r + 1\<rparr>) (run_step r) False"
          unfolding T by (simp add: step_failed_def Let_def)
        moreover have "run_attempt r + 1 < 10" using False tries_pos(2) [of "run_step r"] by linarith
        ultimately show ?thesis using \<open>\<not> o_ok oc\<close> by (simp add: run_lessI Let_def tasks_after_def)
      qed
    next
      case True
      then have T: "Transition r oc = step_done ?r oc" using go no by (simp add: Transition_def Let_def)
      have pr: "run_step r = StepWork \<Longrightarrow> o_tasks_left oc < n \<or> o_tasks_left oc = 0"
        "run_step r = StepCI \<Longrightarrow> o_ci oc \<in> {''pass'', ''merged'', ''closed'', ''fail''}"
        using assms(2) True by (auto simp: progress_def)
      have nx: "run_less (next_step r0 oc, o_tasks_left oc) (r, n)"
        if "same_control r r0" for r0
      proof (rule same_less)
        have s: "run_step r0 = run_step r" using that by (simp add: same_control_def)
        show "run_less (next_step r0 oc, o_tasks_left oc) (r0, n)"
          by (rule next_step_less) (use that s pr ne assms(1) in \<open>simp_all add: same_control_inv\<close>)
      qed (use that in \<open>simp_all add: same_counts_def same_control_def\<close>)
      consider "\<not> claims (run_step r)" | "claims (run_step r)" "o_replan oc \<noteq> []"
        | "claims (run_step r)" "o_replan oc = []" "o_replan_request oc"
        | "claims (run_step r)" "o_replan oc = []" "\<not> o_replan_request oc" by blast
      then show ?thesis
      proof cases
        case 1
        then show ?thesis using nx [of "?r\<lparr>run_skip := False\<rparr>"] T True
          by (simp add: step_done_def Let_def tasks_after_def same_control_def)
      next
        case 2
        then show ?thesis using less_replan [of r "?r\<lparr>run_skip := False\<rparr>"] i(2) T
          by (simp add: step_done_def Let_def going_def)
      next
        case 3
        then have "rank StepReplanReview < rank (run_step r)" by (auto simp: claims_def)
        with 3 show ?thesis using T by (simp add: step_done_def Let_def) (rule less_rank, simp_all add: same_counts_def)
      next
        case 4
        then show ?thesis using nx [of "?r\<lparr>run_skip := False, run_replan_advice := []\<rparr>"] T True
          by (simp add: step_done_def Let_def tasks_after_def same_control_def)
      qed
    qed
  qed
qed

lemma progress_control:
  assumes "progress r n oc" "same_control r r'"
  shows "progress r' n oc"
  using assms by (simp add: progress_def same_control_def)

lemma same_control_record: "same_control r (record_step now r oc)"
  by (simp add: same_control_def record_step_def)

lemma same_control_trans: "same_control a b \<Longrightarrow> same_control b c \<Longrightarrow> same_control a c"
  by (simp add: same_control_def)

lemma run_advance_less:
  assumes "run_inv r" "progress r n oc" "same_control r r'"
  shows "run_less (run_advance now r' oc, tasks_after n oc) (r, n)"
proof -
  let ?q = "record_step now r' oc"
  have c: "same_control r ?q" using assms(3) same_control_record by (rule same_control_trans)
  have "run_less (Transition ?q oc, tasks_after n oc) (?q, n)"
    by (rule Transition_less) (use assms(1,2) c same_control_inv progress_control in blast)+
  then have "run_less (Transition ?q oc, tasks_after n oc) (r, n)"
    by (rule same_less) (use c in \<open>simp_all add: same_counts_def same_control_def\<close>)
  moreover have "\<not> o_wait oc" using assms(2) by (simp add: progress_def)
  ultimately show ?thesis by (simp add: run_advance_def)
qed

lemma fail_gate: "run_step (fail r at w) \<noteq> StepPR \<and> run_failed_at (fail r at w) = at \<and>
    (step_over (run_step (fail r at w)) \<longrightarrow> run_step r = StepReflect \<or> \<not> worked r)"
  by (auto simp: fail_def finish_step worked_def step_over_def)

text \<open>What the gates say of one move, for a step that did not do its job and for one that did.\<close>

lemma failed_gate:
  assumes "run_inv r" "\<not> ending (run_step r)"
  shows "(run_step (step_failed r oc) = StepPR \<longrightarrow> run_step r = StepPR) \<and>
    (ending (run_step (step_failed r oc)) \<longrightarrow> run_failed_at (step_failed r oc) \<noteq> StepNone) \<and>
    (step_over (run_step (step_failed r oc)) \<longrightarrow> \<not> worked r)"
proof -
  have "run_step r \<noteq> StepNone" "run_step r \<noteq> StepReflect"
    using assms by (auto simp: run_inv_def at_ok_def ending_def)
  then show ?thesis using fail_gate [of "r\<lparr>run_attempt := run_attempt r + 1\<rparr>" "run_step r" "o_why oc"] assms(2)
    by (auto simp: step_failed_def Let_def worked_def ending_def)
qed

lemma replan_gate:
  assumes "run_step r \<noteq> StepReflect"
  shows "run_step (replan r f) \<noteq> StepPR \<and> (ending (run_step (replan r f)) \<longrightarrow> run_failed_at (replan r f) \<noteq> StepNone) \<and>
    (step_over (run_step (replan r f)) \<longrightarrow> \<not> worked r)"
  using assms fail_gate [of "r\<lparr>run_replans := run_replans r + 1\<rparr>" StepPlan]
  by (auto simp: replan_def Let_def ending_def step_over_def worked_def)

definition good_end :: "Run \<Rightarrow> Outcome \<Rightarrow> bool" where
  "good_end r oc \<longleftrightarrow>
     run_step r = StepMerge \<or> run_step r = StepCI \<and> (o_ci oc = ''merged'' \<or> o_ci oc = ''pass'' \<and> run_goal r = [])"

definition pr_gate :: "Run \<Rightarrow> Outcome \<Rightarrow> bool" where
  "pr_gate r oc \<longleftrightarrow>
     run_step r = StepCheck \<and> o_check_passed oc \<and> run_final_reviewed r \<or>
     run_step r = StepFinalReview \<and> o_blockers oc = 0"

lemma next_gate:
  assumes "run_inv r" "\<not> ending (run_step r)"
  shows "(run_step (next_step r oc) = StepPR \<longrightarrow> pr_gate r oc) \<and>
    (ending (run_step (next_step r oc)) \<and> run_failed_at (next_step r oc) = StepNone \<longrightarrow> good_end r oc) \<and>
    (step_over (run_step (next_step r oc)) \<longrightarrow> \<not> worked r)"
proof -
  have nr: "run_step r \<noteq> StepReflect" using assms(2) by (simp add: ending_def)
  have at: "at_ok (run_step r) r" using assms by (simp add: run_inv_def)
  show ?thesis
  proof (cases "run_step r")
    case StepReplanReview
    then have rf: "run_replan_from r \<in> {StepWork, StepFix, StepCIFix}" using at by (auto simp: at_ok_def claims_def)
    show ?thesis
    proof (cases "o_replan oc \<noteq> []")
      case True
      then show ?thesis using StepReplanReview replan_gate [OF nr] by (auto simp: next_step_def)
    next
      case False
      let ?q = "r\<lparr>run_refusals := run_refusals r + 1\<rparr>"
      have "run_replan_from r \<noteq> StepNone" "run_replan_from r \<noteq> StepPR" "\<not> ending (run_replan_from r)"
        using rf by (auto simp: ending_def step_over_def)
      then show ?thesis using False StepReplanReview nr fail_gate [of ?q "run_replan_from r"]
        by (auto simp: next_step_def Let_def worked_def ending_def)
    qed
  next
    case StepCheck
    then show ?thesis using nr fail_gate [of r StepFix]
      by (auto simp: next_step_def pr_gate_def ending_def step_over_def)
  next
    case StepFix
    then show ?thesis using nr fail_gate [of r StepRevise] by (auto simp: next_step_def ending_def step_over_def)
  next
    case StepCIFix
    then show ?thesis using nr fail_gate [of r StepRevise] by (auto simp: next_step_def ending_def step_over_def)
  next
    case StepCI
    then show ?thesis using nr fail_gate [of r StepCI] fail_gate [of r StepCIFix]
      by (auto simp: next_step_def good_end_def ending_def step_over_def finish_step)
  next
    case StepMerge
    then show ?thesis using nr by (auto simp: next_step_def good_end_def step_over_def finish_step)
  next
    case StepFinalReview
    then show ?thesis by (simp add: next_step_def pr_gate_def Let_def ending_def step_over_def)
  qed (use at assms(2) in \<open>simp_all add: next_step_def ending_def step_over_def at_ok_def\<close>)
qed

lemma done_gate:
  assumes "run_inv r" "\<not> ending (run_step r)"
  shows "(run_step (step_done r oc) = StepPR \<longrightarrow> pr_gate r oc) \<and>
    (ending (run_step (step_done r oc)) \<and> run_failed_at (step_done r oc) = StepNone \<longrightarrow> good_end r oc) \<and>
    (step_over (run_step (step_done r oc)) \<longrightarrow> \<not> worked r)"
proof -
  have nr: "run_step r \<noteq> StepReflect" using assms(2) by (simp add: ending_def)
  let ?a = "r\<lparr>run_skip := False\<rparr>" and ?b = "r\<lparr>run_skip := False, run_replan_advice := []\<rparr>"
  have a: "pr_gate ?a oc = pr_gate r oc" "good_end ?a oc = good_end r oc" "worked ?a = worked r"
    and b: "pr_gate ?b oc = pr_gate r oc" "good_end ?b oc = good_end r oc" "worked ?b = worked r"
    by (simp_all add: pr_gate_def good_end_def worked_def)
  have e: "\<not> ending StepReplanReview" "\<not> step_over StepReplanReview" by (simp_all add: ending_def step_over_def)
  show ?thesis
    using next_gate [of ?a oc] next_gate [of ?b oc] replan_gate [of ?a "o_replan oc"] assms nr
    unfolding a b by (auto simp: step_done_def Let_def e)
qed

section \<open>Properties\<close>

definition sample_run :: Run where
  "sample_run =
     \<lparr>run_home = ''h'', run_workspace = ''w'', run_slug = ''s'', run_branch = ''b'', run_base = [], run_worktree = ''t'',
      run_goal = [], run_brief = ''x'', run_step = StepSetup, run_failed_at = StepNone, run_why = [], run_attempt = 0,
      run_fixes = 0, run_ci_fixes = 0, run_revisions = 0, run_final_reviewed = False, run_waiting = False,
      run_parked = [], run_skip = False, run_skipped = [], run_session = [], run_start = [], run_prompted = False,
      run_stopped = False, run_nudged_at = 0, run_task = 0, run_output = [], run_advice = [], run_replans = 0,
      run_refusals = 0, run_replan_from = StepNone, run_replan_advice = [], run_finding = [], run_seen = [],
      run_labelled = [], run_ci_since = 0, run_issue = 0, run_reported = False, run_pr = 0, run_pr_url = [],
      run_notes = [], run_history = [], run_since = 0, run_since_key = [], run_statused = [], run_started = 0,
      run_updated = 0\<rparr>"

definition failed_outcome :: Outcome where
  "failed_outcome =
     \<lparr>o_ok = False, o_why = ''no'', o_check_passed = False, o_revision = False, o_tasks_left = 0, o_blockers = 0,
      o_ci = [], o_wait = False, o_parked = [], o_note = [], o_replan_request = False, o_replan = [],
      o_refused = [], o_skipped = False\<rparr>"

lemma sample_run_reach: "run_reach sample_run"
  by (rule reach_start) (simp add: run_start_def sample_run_def)

text \<open>Every run the runner can reach keeps its caps: the fixes, CI fixes, revisions, replans, refusals
  and tries; it has failed exactly when it names the step it failed at, a disputed plan names a step
  that carries the plan out, and only a step done by a session waits for a slot.\<close>
theorem run_caps:
  assumes "run_reach r"
  shows "run_fixes r \<le> 10 \<and> run_ci_fixes r \<le> 5 \<and> run_revisions r \<le> 2 \<and> run_replans r \<le> 3 \<and> run_refusals r \<le> 3 \<and>
    (\<not> ending (run_step r) \<longrightarrow> run_replans r \<le> 2 \<and> run_refusals r \<le> 2 \<and> run_attempt r < tries (run_step r)) \<and>
    (run_step r = StepReplanReview \<longrightarrow> run_replan_from r \<in> {StepWork, StepFix, StepCIFix}) \<and>
    (run_step r = StepFailed \<longrightarrow> run_failed_at r \<noteq> StepNone) \<and>
    (run_step r = StepDone \<longrightarrow> run_failed_at r = StepNone) \<and>
    (run_waiting r \<longrightarrow> step_session (run_step r))"
proof -
  have i: "run_inv r" using assms by (rule run_reach_inv)
  then have "run_step r = StepReplanReview \<Longrightarrow> claims (run_replan_from r)"
    by (auto simp: run_inv_def at_ok_def ending_def step_over_def)
  then show ?thesis using i by (auto simp: run_inv_def caps_ok_def going_def caps claims_def)
qed

lemma run_caps_witness: "run_fixes (run_advance 0 sample_run failed_outcome) \<le> 10"
  using run_caps [OF reach_advance [OF sample_run_reach]] by blast

text \<open>C7: A run that keeps getting outcomes ends. Whatever the outcomes are, as long as none is a wait, a
  work session that did its job leaves fewer tasks, and a poll of CI that worked says how CI ended,
  the run reaches done or failed, and whatever doing its steps sets beside its counters.\<close>
theorem run_ends:
  assumes "run_reach (r 0)"
    and "\<And>k. same_control (r k) (r' k)" "\<And>k. r (Suc k) = run_advance (now k) (r' k) (oc k)"
    and "\<And>k. n (Suc k) = tasks_after (n k) (oc k)"
    and "\<And>k. \<not> step_over (run_step (r k)) \<Longrightarrow> progress (r k) (n k) (oc k)"
  shows "\<exists>k. step_over (run_step (r k))"
proof (rule ccontr)
  assume "\<not> ?thesis"
  then have pr: "progress (r k) (n k) (oc k)" for k using assms(5) by blast
  have "run_inv (r k)" for k
  proof (induction k)
    case 0
    then show ?case using assms(1) by (rule run_reach_inv)
  next
    case (Suc k)
    have "run_inv (r' k)" using assms(2) Suc by (rule same_control_inv)
    then show ?case using assms(3) by (simp add: run_advance_inv)
  qed
  then have "run_less (r (Suc k), n (Suc k)) (r k, n k)" for k
    using run_advance_less [OF _ pr assms(2)] assms(3,4) by simp
  then have "\<forall>k. ((r (Suc k), n (Suc k)), (r k, n k)) \<in> measures run_measures" by (simp add: run_less_def)
  then show False using wf_iff_no_infinite_down_chain [of "measures run_measures"] by auto
qed

lemma run_ends_witness:
  "\<exists>k. step_over (run_step (((\<lambda>r. run_advance 0 r failed_outcome) ^^ k) sample_run))"
  by (rule run_ends [where r' = "\<lambda>k. ((\<lambda>r. run_advance 0 r failed_outcome) ^^ k) sample_run"
        and now = "\<lambda>_. 0" and oc = "\<lambda>_. failed_outcome" and n = "\<lambda>_. 0"])
     (simp_all add: sample_run_reach same_control_def tasks_after_def failed_outcome_def progress_def)

text \<open>C30: The gates. A run opens its pull request only after the check passed with the final review done,
  or from a final review without blockers; it ends well only after CI passed or the PR was merged, or
  from its merge; and if a session worked on it, it ends only from the reflection.\<close>
theorem run_gates:
  assumes "run_reach r"
  shows "(run_step (Transition r oc) = StepPR \<and> run_step r \<noteq> StepPR \<longrightarrow>
      o_ok oc \<and> (run_step r = StepCheck \<and> o_check_passed oc \<and> run_final_reviewed r \<or>
        run_step r = StepFinalReview \<and> o_blockers oc = 0)) \<and>
    (\<not> ending (run_step r) \<and> ending (run_step (Transition r oc)) \<and> run_failed_at (Transition r oc) = StepNone \<longrightarrow>
      o_ok oc \<and> (run_step r = StepMerge \<or> run_step r = StepCI \<and> (o_ci oc = ''merged'' \<or> o_ci oc = ''pass'' \<and> run_goal r = []))) \<and>
    (\<not> step_over (run_step r) \<and> step_over (run_step (Transition r oc)) \<and> worked r \<longrightarrow> run_step r = StepReflect)"
proof -
  have inv: "run_inv r" using assms by (rule run_reach_inv)
  let ?t = "Transition r oc"
  consider "step_over (run_step r) \<or> o_wait oc" | "\<not> step_over (run_step r)" "\<not> o_wait oc" "run_step r = StepReflect"
    | "\<not> ending (run_step r)" "\<not> o_wait oc" "\<not> o_ok oc" | "\<not> ending (run_step r)" "\<not> o_wait oc" "o_ok oc"
    unfolding ending_def by blast
  then show ?thesis
  proof cases
    case 1
    then show ?thesis by (auto simp: Transition_def ending_def step_over_def)
  next
    case 2
    then show ?thesis by (simp add: Transition_def Let_def finish_step ending_def)
  next
    case 3
    then have "run_step r \<noteq> StepReflect" "\<not> step_over (run_step r)" by (simp_all add: ending_def)
    with 3 have "?t = step_failed (r\<lparr>run_parked := []\<rparr>) oc" by (simp add: Transition_def Let_def)
    then show ?thesis using 3(1) failed_gate [of "r\<lparr>run_parked := []\<rparr>" oc] inv by (auto simp: worked_def)
  next
    case 4
    then have "run_step r \<noteq> StepReflect" "\<not> step_over (run_step r)" by (simp_all add: ending_def)
    with 4 have "?t = step_done (r\<lparr>run_parked := []\<rparr>) oc" by (simp add: Transition_def Let_def)
    then show ?thesis using 4 done_gate [of "r\<lparr>run_parked := []\<rparr>" oc] inv
      by (auto simp: worked_def pr_gate_def good_end_def)
  qed
qed

lemma run_gates_witness: "run_step (Transition sample_run failed_outcome) \<noteq> StepPR"
  using run_gates [OF sample_run_reach, of failed_outcome] by (auto simp: sample_run_def failed_outcome_def)

text \<open>Asking again for a failed run puts it back where it failed, at the check for a fix and at CI for a
  CI fix, with no failure recorded, a fresh attempt, and the counters of the step it failed at and of
  the replans cleared; a run that did not fail is left alone.\<close>
theorem Resume_restarts:
  assumes "run_reach r"
  shows "(run_step r \<noteq> StepFailed \<longrightarrow> Resume r = r) \<and>
    (run_step r = StepFailed \<longrightarrow>
      (let s = run_failed_at r; q = Resume r in
       run_step q = (if s = StepFix then StepCheck else if s = StepCIFix then StepCI else s) \<and>
       \<not> ending (run_step q) \<and> run_failed_at q = StepNone \<and> run_why q = [] \<and> run_attempt q = 0 \<and>
       run_replans q = 0 \<and> run_refusals q = 0 \<and> (s = StepFix \<longrightarrow> run_fixes q = 0) \<and>
       (s = StepRevise \<longrightarrow> run_revisions q = 0) \<and> (s = StepCIFix \<longrightarrow> run_ci_fixes q = 0) \<and>
       run_history q = run_history r))"
proof (cases "run_step r = StepFailed")
  case True
  then have "\<not> ending (run_failed_at r)"
    using run_reach_inv [OF assms] by (auto simp: run_inv_def ending_def step_over_def)
  with True show ?thesis
    by (cases "run_failed_at r") (simp_all add: Resume_def Let_def ending_def step_over_def)
qed (simp add: Resume_def)

lemma Resume_restarts_witness: "Resume sample_run = sample_run"
  using Resume_restarts [OF sample_run_reach] by (simp add: sample_run_def)

end
