(* ===== verification/CI_Checks.thy ===== *)
theory CI_Checks
  imports Rho_Prelude
begin

text \<open>
  \<open>clients/runs/ci.go\<close>: what a pull request's checks add up to. \<open>to_upper\<close> is \<open>strings.ToUpper\<close>
  as far as a comparison with an ASCII word goes: the letters, and the two characters outside ASCII
  whose upper case is an ASCII letter. The lemmas say when each verdict is given and that the order of
  the checks does not matter.
\<close>

record Check =
  chk_name :: string
  chk_state :: string
  chk_link :: string

definition upper_char :: "char \<Rightarrow> char" where
  "upper_char c = (let n = (of_char c :: nat) in if 97 \<le> n \<and> n \<le> 122 then char_of (n - 32) else c)"

fun to_upper :: "string \<Rightarrow> string" where
  "to_upper [] = []"
| "to_upper [c] = [upper_char c]"
| "to_upper (c # d # s) =
     (if c = CHR 0xC4 \<and> d = CHR 0xB1 then CHR ''I'' # to_upper s
      else if c = CHR 0xC5 \<and> d = CHR 0xBF then CHR ''S'' # to_upper s
      else upper_char c # to_upper (d # s))"

definition pendingStates :: "string list" where
  "pendingStates = [''QUEUED'', ''IN_PROGRESS'', ''PENDING'', ''EXPECTED'', ''WAITING'', ''REQUESTED'', []]"

definition failedStates :: "string list" where
  "failedStates =
     [''FAILURE'', ''ERROR'', ''CANCELLED'', ''TIMED_OUT'', ''ACTION_REQUIRED'', ''STARTUP_FAILURE'', ''STALE'']"

definition is_pending :: "Check \<Rightarrow> bool" where
  "is_pending c \<longleftrightarrow> to_upper (chk_state c) \<in> set pendingStates"

definition is_failed :: "Check \<Rightarrow> bool" where
  "is_failed c \<longleftrightarrow> to_upper (chk_state c) \<in> set failedStates"

text \<open>The loop: a pending check answers at once, a failed one is remembered.\<close>

fun classify_loop :: "bool \<Rightarrow> Check list \<Rightarrow> string" where
  "classify_loop failed [] = (if failed then ''fail'' else ''pass'')"
| "classify_loop failed (c # cs) =
     (if is_pending c then ''pending'' else classify_loop (failed \<or> is_failed c) cs)"

definition Classify :: "Check list \<Rightarrow> string" where
  "Classify checks = (if checks = [] then ''none'' else classify_loop False checks)"

definition Failed :: "Check list \<Rightarrow> Check list" where
  "Failed checks = filter is_failed checks"

text \<open>The number after the first \<open>/actions/runs/\<close> that one follows, as the regular expression finds it.\<close>

definition is_digit :: "char \<Rightarrow> bool" where
  "is_digit c \<longleftrightarrow> CHR ''0'' \<le> c \<and> c \<le> CHR ''9''"

fun RunID :: "string \<Rightarrow> string" where
  "RunID [] = []"
| "RunID (c # s) =
     (if has_prefix (c # s) ''/actions/runs/'' \<and> takeWhile is_digit (drop 14 (c # s)) \<noteq> []
      then takeWhile is_digit (drop 14 (c # s)) else RunID s)"

section \<open>What the verdicts mean\<close>

lemma classify_loop_cases:
  "classify_loop f cs =
     (if \<exists>c \<in> set cs. is_pending c then ''pending''
      else if f \<or> (\<exists>c \<in> set cs. is_failed c) then ''fail'' else ''pass'')"
  by (induction f cs rule: classify_loop.induct) auto

lemma Classify_cases:
  "Classify cs =
     (if cs = [] then ''none'' else if \<exists>c \<in> set cs. is_pending c then ''pending''
      else if \<exists>c \<in> set cs. is_failed c then ''fail'' else ''pass'')"
  by (simp add: Classify_def classify_loop_cases)

text \<open>No state is both, so a check that failed is not pending.\<close>

lemma states_disjoint: "set pendingStates \<inter> set failedStates = {}"
  by (simp add: pendingStates_def failedStates_def)

lemma not_both: "is_pending c \<Longrightarrow> \<not> is_failed c"
  using states_disjoint by (auto simp: is_pending_def is_failed_def)

lemma RunID_digits: "list_all is_digit (RunID s)"
  by (induction s) (auto simp: list_all_iff dest: set_takeWhileD)

lemma RunID_found:
  "RunID s \<noteq> [] \<Longrightarrow> \<exists>pre post. s = pre @ ''/actions/runs/'' @ RunID s @ post \<and> (post = [] \<or> \<not> is_digit (hd post))"
proof (induction s)
  case (Cons c s)
  show ?case
  proof (cases "has_prefix (c # s) ''/actions/runs/'' \<and> takeWhile is_digit (drop 14 (c # s)) \<noteq> []")
    case True
    then obtain w where eq: "c # s = ''/actions/runs/'' @ w" by (auto simp: has_prefix_append)
    then have "drop 14 (c # s) = w" by simp
    then have r: "RunID (c # s) = takeWhile is_digit w" using True by (simp only: RunID.simps simp_thms if_True)
    have "w = takeWhile is_digit w @ dropWhile is_digit w" by simp
    moreover have "dropWhile is_digit w = [] \<or> \<not> is_digit (hd (dropWhile is_digit w))" by (metis hd_dropWhile)
    ultimately show ?thesis unfolding r using eq by (metis append_Nil)
  next
    case False
    then have r: "RunID (c # s) = RunID s" by (simp only: RunID.simps if_False)
    with Cons obtain pre post where "s = pre @ ''/actions/runs/'' @ RunID s @ post" "post = [] \<or> \<not> is_digit (hd post)"
      by auto
    then show ?thesis unfolding r by (metis append_Cons)
  qed
qed simp

text \<open>The verdict on a pull request's checks. Pending wins over failed and failed over passed, an empty
  list is none, the verdict is fail exactly when nothing is pending and \<open>Failed\<close> lists a check, and it
  depends neither on the order of the checks nor on how often one is listed.\<close>
theorem Classify_verdict:
  assumes "set cs = set ds"
  shows "(Classify cs = Classify ds) \<and>
     (Classify cs = ''none'' \<longleftrightarrow> cs = []) \<and>
     (Classify cs = ''pending'' \<longleftrightarrow> (\<exists>c \<in> set cs. is_pending c)) \<and>
     (Classify cs = ''fail'' \<longleftrightarrow> \<not> (\<exists>c \<in> set cs. is_pending c) \<and> Failed cs \<noteq> []) \<and>
     (Classify cs = ''pass'' \<longleftrightarrow> cs \<noteq> [] \<and> list_all (\<lambda>c. \<not> is_pending c \<and> \<not> is_failed c) cs)"
proof -
  have c1: "Classify cs = Classify ds" and c2: "Classify cs = ''none'' \<longleftrightarrow> cs = []" and c3: "Classify cs = ''pending'' \<longleftrightarrow> (\<exists>c \<in> set cs. is_pending c)" and c4: "Classify cs = ''fail'' \<longleftrightarrow> \<not> (\<exists>c \<in> set cs. is_pending c) \<and> Failed cs \<noteq> []" and c5: "Classify cs = ''pass'' \<longleftrightarrow> cs \<noteq> [] \<and> list_all (\<lambda>c. \<not> is_pending c \<and> \<not> is_failed c) cs"
  proof -
    have "cs = [] \<longleftrightarrow> ds = []" using assms by (cases cs; cases ds) auto
    then show "Classify cs = Classify ds" using assms by (simp add: Classify_cases)
  qed (auto simp: Classify_cases Failed_def filter_empty_conv list_all_iff)
  from c1 c2 c3 c4 c5 show ?thesis by blast
qed

definition sample_check :: "string \<Rightarrow> Check" where
  "sample_check s = \<lparr>chk_name = ''c'', chk_state = s, chk_link = []\<rparr>"

lemma Classify_verdict_witness:
  "Classify [sample_check ''failure'', sample_check ''success''] =
     Classify [sample_check ''success'', sample_check ''failure'', sample_check ''success'']"
  by (rule Classify_verdict [THEN conjunct1]) auto

end
