(* ===== verification/Goal.thy ===== *)
theory Goal
  imports Run_State
begin

text \<open>
  \<open>clients/runs/goal.go\<close>, \<open>goaltransition.go\<close> and \<open>goalparse.go\<close>: a goal, worked as runs one after
  another, its workflow as one function, and the reading of Claude's answers. The JSON of the last
  fenced block of an answer is an argument of the parsers (\<^term>\<open>None\<close> when there is no block or it
  is not JSON). The allowance of rounds, \<open>maxRounds\<close>, comes from the configuration.

  The lemmas show the bounds on failures and rounds, what each move does to the briefs, that a goal
  which keeps getting outcomes ends unless CI keeps failing under a check that says met, and that
  this exception is real.
\<close>

datatype GoalStep =
    GoalNone | GoalSetup | GoalBreakdown | GoalRuns | GoalCheck | GoalPR | GoalCI | GoalDone | GoalBlocked

definition goal_over :: "GoalStep \<Rightarrow> bool" where
  "goal_over s \<longleftrightarrow> s = GoalDone \<or> s = GoalBlocked"

datatype BriefState = BriefPending | BriefRunning | BriefDone | BriefFailed | BriefDropped

record GoalBrief =
  br_title :: string
  br_brief :: string
  br_round :: int
  br_state :: BriefState
  br_run :: string
  br_pr_url :: string
  br_notes :: "string list"
  br_failed_at :: Step
  br_why :: string

record Verdict =
  vd_round :: int
  vd_met :: bool
  vd_reason :: string
  vd_skipped :: bool
  vd_at :: int

record Goal =
  go_home :: string
  go_workspace :: string
  go_slug :: string
  go_branch :: string
  go_base :: string
  go_worktree :: string
  go_text :: string
  go_done_when :: "string list"
  go_briefs :: "GoalBrief list"
  go_verdicts :: "Verdict list"
  go_step :: GoalStep
  go_blocked_at :: GoalStep
  go_why :: string
  go_round :: int
  go_rounds_from :: int
  go_failures :: nat
  go_attempt :: nat
  go_parked :: string
  go_skip :: bool
  go_ci_failure :: string
  go_pr :: int
  go_pr_url :: string
  go_ci_since :: int
  go_labelled :: string
  go_tasked :: string
  go_since :: int
  go_since_key :: string
  go_statused :: string
  go_started :: int
  go_updated :: int

text \<open>The index of the brief being worked on or next to start; -1 is \<^term>\<open>None\<close>.\<close>

definition current_brief :: "Goal \<Rightarrow> GoalBrief \<Rightarrow> bool" where
  "current_brief g b \<longleftrightarrow> br_round b = go_round g \<and> (br_state b = BriefPending \<or> br_state b = BriefRunning)"

definition Current :: "Goal \<Rightarrow> nat option" where
  "Current g = index_of (current_brief g) (go_briefs g)"

definition InRound :: "Goal \<Rightarrow> int \<Rightarrow> GoalBrief list" where
  "InRound g n = filter (\<lambda>b. br_round b = n) (go_briefs g)"

section \<open>Where a goal goes\<close>

definition maxFailures :: nat where "maxFailures = 2"
definition goalOtherTries :: nat where "goalOtherTries = 3"
definition goalCITries :: nat where "goalCITries = 10"

datatype RunEnd = RunEnded | RunFailed | RoundOver

record GoalOutcome =
  go_ok :: bool
  go_owhy :: string
  go_wait :: bool
  go_oparked :: string
  go_odone_when :: "string list"
  go_obriefs :: "GoalBrief list"
  go_met :: bool
  go_reason :: string
  go_oskipped :: bool
  go_run :: RunEnd
  go_oprurl :: string
  go_onotes :: "string list"
  go_ofailed_at :: Step
  go_run_why :: string
  go_ci :: string

definition addRound :: "Goal \<Rightarrow> GoalBrief list \<Rightarrow> Goal" where
  "addRound g briefs =
     g\<lparr>go_briefs := go_briefs g @ map (\<lambda>b. b\<lparr>br_round := go_round g, br_state := BriefPending\<rparr>) briefs\<rparr>"

definition goal_block :: "Goal \<Rightarrow> GoalStep \<Rightarrow> string \<Rightarrow> Goal" where
  "goal_block g at why = g\<lparr>go_step := GoalBlocked, go_blocked_at := at, go_why := why, go_attempt := 0\<rparr>"

definition update_current :: "(GoalBrief \<Rightarrow> GoalBrief) \<Rightarrow> Goal \<Rightarrow> Goal" where
  "update_current f g =
     (case Current g of None \<Rightarrow> g | Some i \<Rightarrow> g\<lparr>go_briefs := (go_briefs g)[i := f (go_briefs g ! i)]\<rparr>)"

text \<open>The rest of the round was planned on the run working.\<close>

definition drop_pending :: "Goal \<Rightarrow> Goal" where
  "drop_pending g =
     g\<lparr>go_briefs := map (\<lambda>b. if br_round b = go_round g \<and> br_state b = BriefPending
        then b\<lparr>br_state := BriefDropped\<rparr> else b) (go_briefs g)\<rparr>"

definition goal_runs_step :: "Goal \<Rightarrow> GoalOutcome \<Rightarrow> Goal" where
  "goal_runs_step g oc =
     (case go_run oc of
        RunEnded \<Rightarrow>
          (let g = update_current (\<lambda>b. b\<lparr>br_state := BriefDone, br_pr_url := go_oprurl oc, br_notes := go_onotes oc\<rparr>) g;
               g = g\<lparr>go_failures := 0\<rparr> in
           if Current g = None then g\<lparr>go_step := GoalCheck\<rparr> else g)
      | RunFailed \<Rightarrow>
          (let g = update_current (\<lambda>b. b\<lparr>br_state := BriefFailed, br_failed_at := go_ofailed_at oc, br_why := go_run_why oc\<rparr>) g;
               g = drop_pending g;
               g = g\<lparr>go_failures := go_failures g + 1\<rparr> in
           if go_failures g \<ge> maxFailures
           then goal_block g GoalRuns (itoa (int (go_failures g)) @ '' runs in a row failed; the last at its '' @
                  step_name (go_ofailed_at oc) @ '' step: '' @ go_run_why oc)
           else g\<lparr>go_step := GoalCheck\<rparr>)
      | RoundOver \<Rightarrow> g\<lparr>go_step := GoalCheck\<rparr>)"

definition goal_check_step :: "Goal \<Rightarrow> GoalOutcome \<Rightarrow> int \<Rightarrow> Goal" where
  "goal_check_step g0 oc maxRounds =
     (let g = g0\<lparr>go_verdicts := go_verdicts g0 @
            [\<lparr>vd_round = go_round g0, vd_met = go_met oc, vd_reason = go_reason oc, vd_skipped = go_oskipped oc, vd_at = 0\<rparr>],
          go_ci_failure := []\<rparr> in
      if go_met oc then g\<lparr>go_step := GoalPR\<rparr>
      else if go_round g - go_rounds_from g + 1 \<ge> maxRounds
      then goal_block g GoalCheck (''not met after '' @ itoa maxRounds @ '' rounds: '' @ go_reason oc)
      else (addRound (g\<lparr>go_round := go_round g + 1\<rparr>) (go_obriefs oc))\<lparr>go_step := GoalRuns\<rparr>)"

definition goal_next :: "Goal \<Rightarrow> GoalOutcome \<Rightarrow> int \<Rightarrow> Goal" where
  "goal_next g oc maxRounds =
     (case go_step g of
        GoalSetup \<Rightarrow> g\<lparr>go_step := GoalBreakdown\<rparr>
      | GoalBreakdown \<Rightarrow>
          (addRound (g\<lparr>go_done_when := go_odone_when oc, go_round := 1, go_rounds_from := 1\<rparr>) (go_obriefs oc))
            \<lparr>go_step := GoalRuns\<rparr>
      | GoalRuns \<Rightarrow> goal_runs_step g oc
      | GoalCheck \<Rightarrow> goal_check_step g oc maxRounds
      | GoalPR \<Rightarrow> g\<lparr>go_step := GoalCI\<rparr>
      | GoalCI \<Rightarrow>
          if go_ci oc = ''pass'' \<or> go_ci oc = ''merged'' then g\<lparr>go_step := GoalDone\<rparr>
          else if go_ci oc = ''closed'' then goal_block g GoalCI ''the pull request was closed''
          else if go_ci oc = ''fail'' then g\<lparr>go_step := GoalCheck\<rparr>
          else g
      | _ \<Rightarrow> g)"

definition GoalTransition :: "Goal \<Rightarrow> GoalOutcome \<Rightarrow> int \<Rightarrow> Goal" where
  "GoalTransition g0 oc maxRounds =
     (if goal_over (go_step g0) then g0
      else if go_wait oc then g0\<lparr>go_parked := go_oparked oc\<rparr>
      else (let g = g0\<lparr>go_parked := []\<rparr> in
            if \<not> go_ok oc then
              (let g = g\<lparr>go_attempt := go_attempt g + 1\<rparr>;
                   tries = (if go_step g = GoalCI then goalCITries else goalOtherTries) in
               if go_attempt g \<ge> tries then goal_block g (go_step g) (go_owhy oc) else g)
            else goal_next (g\<lparr>go_attempt := 0, go_skip := False\<rparr>) oc maxRounds))"

definition ResumeGoal :: "Goal \<Rightarrow> Goal" where
  "ResumeGoal g0 =
     (if go_step g0 \<noteq> GoalBlocked then g0
      else (let at = go_blocked_at g0;
                g = g0\<lparr>go_blocked_at := GoalNone, go_why := [], go_attempt := 0\<rparr> in
            if at = GoalRuns \<or> at = GoalCheck
            then g\<lparr>go_failures := 0, go_rounds_from := go_round g + 1, go_step := GoalCheck\<rparr>
            else if at = GoalCI then g\<lparr>go_step := GoalPR\<rparr>
            else g\<lparr>go_step := at\<rparr>))"

section \<open>Reading Claude's answers\<close>

record briefJSON =
  bj_title :: string
  bj_brief :: string

definition brief_json_fields :: "briefJSON fields" where
  "brief_json_fields =
     [(''title'', fld bj_title bj_title_update dec_str), (''brief'', fld bj_brief bj_brief_update dec_str)]"

definition brief_json_zero :: briefJSON where
  "brief_json_zero = \<lparr>bj_title = [], bj_brief = []\<rparr>"

definition new_brief :: "string \<Rightarrow> string \<Rightarrow> GoalBrief" where
  "new_brief t text =
     \<lparr>br_title = t, br_brief = text, br_round = 0, br_state = BriefPending, br_run = [], br_pr_url = [],
      br_notes = [], br_failed_at = StepNone, br_why = []\<rparr>"

definition briefsOf :: "briefJSON list \<Rightarrow> GoalBrief list" where
  "briefsOf bs = List.map_filter
     (\<lambda>b. let t = trim_space (bj_title b); text = trim_space (bj_brief b) in
          if t \<noteq> [] \<and> text \<noteq> [] then Some (new_brief t text) else None) bs"

record BreakdownAnswer =
  ba_done_when :: "string list"
  ba_briefs :: "briefJSON list"

definition breakdown_fields :: "BreakdownAnswer fields" where
  "breakdown_fields =
     [(''done_when'', fld ba_done_when ba_done_when_update dec_strs),
      (''briefs'', fld ba_briefs ba_briefs_update
         (\<lambda>_ v. map_option Json.slice (dec_slice (dec_struct brief_json_fields) brief_json_zero v)))]"

definition ParseBreakdown :: "json option \<Rightarrow> (string list \<times> GoalBrief list) option" where
  "ParseBreakdown block =
     (case block of
        None \<Rightarrow> None
      | Some v \<Rightarrow>
          (case dec_struct breakdown_fields \<lparr>ba_done_when = [], ba_briefs = []\<rparr> v of
             None \<Rightarrow> None
           | Some a \<Rightarrow>
               (let done_when = filter (\<lambda>d. d \<noteq> []) (map trim_space (ba_done_when a));
                    briefs = briefsOf (ba_briefs a) in
                if briefs = [] then None else Some (done_when, briefs))))"

record CheckAnswer =
  ca_met :: "bool option"
  ca_reason :: string
  ca_briefs :: "briefJSON list"

definition check_answer_fields :: "CheckAnswer fields" where
  "check_answer_fields =
     [(''met'', fld ca_met ca_met_update (dec_ptr dec_bool False)),
      (''reason'', fld ca_reason ca_reason_update dec_str),
      (''briefs'', fld ca_briefs ca_briefs_update
         (\<lambda>_ v. map_option Json.slice (dec_slice (dec_struct brief_json_fields) brief_json_zero v)))]"

definition ParseCheck :: "json option \<Rightarrow> (bool \<times> string \<times> GoalBrief list) option" where
  "ParseCheck block =
     (case block of
        None \<Rightarrow> None
      | Some v \<Rightarrow>
          (case dec_struct check_answer_fields \<lparr>ca_met = None, ca_reason = [], ca_briefs = []\<rparr> v of
             None \<Rightarrow> None
           | Some a \<Rightarrow>
               (case ca_met a of
                  None \<Rightarrow> None
                | Some met \<Rightarrow>
                    (let reason = trim_space (ca_reason a) in
                     if met then Some (True, reason, [])
                     else (let briefs = briefsOf (ca_briefs a) in
                           if briefs = [] then None else Some (False, reason, briefs))))))"

section \<open>The bounds of a goal\<close>

definition goal_tries :: "GoalStep \<Rightarrow> nat" where
  "goal_tries s = (if s = GoalCI then goalCITries else goalOtherTries)"

lemmas goal_caps = maxFailures_def goalOtherTries_def goalCITries_def goal_tries_def

text \<open>The round a goal is in, counted from where its allowance began.\<close>

definition round_used :: "Goal \<Rightarrow> int" where
  "round_used g = go_round g - go_rounds_from g + 1"

definition early :: "GoalStep \<Rightarrow> bool" where
  "early s \<longleftrightarrow> s = GoalSetup \<or> s = GoalBreakdown"

definition goal_inv :: "int \<Rightarrow> Goal \<Rightarrow> bool" where
  "goal_inv m g \<longleftrightarrow>
     go_step g \<noteq> GoalNone \<and>
     (go_step g \<noteq> GoalBlocked \<longrightarrow> go_failures g < maxFailures \<and> go_blocked_at g = GoalNone) \<and>
     (\<not> goal_over (go_step g) \<longrightarrow> go_attempt g < goal_tries (go_step g)) \<and>
     (go_step g = GoalBlocked \<longrightarrow>
        go_blocked_at g \<noteq> GoalNone \<and> \<not> goal_over (go_blocked_at g) \<and> go_failures g \<le> maxFailures \<and>
        (go_blocked_at g \<noteq> GoalRuns \<longrightarrow> go_failures g < maxFailures)) \<and>
     (\<not> early (go_step g) \<and> \<not> early (go_blocked_at g) \<longrightarrow> round_used g \<le> max m 1)"

lemma goal_next_inv:
  assumes "goal_inv m g" "\<not> goal_over (go_step g)" "go_attempt g = 0"
  shows "goal_inv m (goal_next g oc m)"
proof (cases "go_step g")
  case GoalRuns
  have upd: "go_step (update_current f g) = go_step g" "go_blocked_at (update_current f g) = go_blocked_at g"
    "go_failures (update_current f g) = go_failures g" "go_attempt (update_current f g) = go_attempt g"
    "go_round (update_current f g) = go_round g" "go_rounds_from (update_current f g) = go_rounds_from g" for f
    by (simp_all add: update_current_def split: option.split)
  from GoalRuns assms show ?thesis
    by (cases "go_run oc")
       (auto simp: goal_next_def goal_runs_step_def Let_def goal_inv_def goal_block_def drop_pending_def upd
          round_used_def goal_over_def early_def goal_caps)
next
  case GoalCheck
  with assms show ?thesis
    by (auto simp: goal_next_def goal_check_step_def Let_def goal_inv_def goal_block_def addRound_def
        round_used_def goal_over_def early_def goal_caps)
qed (use assms in \<open>auto simp: goal_next_def goal_inv_def goal_block_def addRound_def round_used_def goal_over_def
       early_def goal_caps\<close>)

lemma goal_inv_keep [simp]: "goal_inv m (g\<lparr>go_parked := p\<rparr>) = goal_inv m g"
  by (simp add: goal_inv_def round_used_def)

lemma GoalTransition_inv:
  assumes "goal_inv m g"
  shows "goal_inv m (GoalTransition g oc m)"
proof -
  consider "goal_over (go_step g) \<or> go_wait oc" | "\<not> goal_over (go_step g)" "\<not> go_wait oc" "\<not> go_ok oc"
    | "\<not> goal_over (go_step g)" "\<not> go_wait oc" "go_ok oc" by blast
  then show ?thesis
  proof cases
    case 1
    then show ?thesis using assms by (auto simp: GoalTransition_def)
  next
    case 2
    then show ?thesis using assms
      by (auto simp: GoalTransition_def Let_def goal_inv_def goal_block_def round_used_def goal_caps goal_over_def early_def)
  next
    case 3
    let ?g = "g\<lparr>go_parked := [], go_attempt := 0, go_skip := False\<rparr>"
    have "goal_inv m ?g" using assms 3(1) by (auto simp: goal_inv_def round_used_def goal_caps)
    then have "goal_inv m (goal_next ?g oc m)" using 3(1) by (intro goal_next_inv) simp_all
    then show ?thesis using 3 by (simp add: GoalTransition_def Let_def)
  qed
qed

lemma ResumeGoal_inv:
  assumes "goal_inv m g"
  shows "goal_inv m (ResumeGoal g)"
  using assms
  by (cases "go_blocked_at g")
     (auto simp: ResumeGoal_def Let_def goal_inv_def round_used_def goal_over_def early_def goal_caps)

text \<open>What doing a step may set: the briefs keep their rounds and whether they are open.\<close>

definition brief_open :: "GoalBrief \<Rightarrow> bool" where
  "brief_open b \<longleftrightarrow> br_state b = BriefPending \<or> br_state b = BriefRunning"

definition same_goal_control :: "Goal \<Rightarrow> Goal \<Rightarrow> bool" where
  "same_goal_control g g' \<longleftrightarrow>
     go_step g' = go_step g \<and> go_blocked_at g' = go_blocked_at g \<and> go_round g' = go_round g \<and>
     go_rounds_from g' = go_rounds_from g \<and> go_failures g' = go_failures g \<and> go_attempt g' = go_attempt g \<and>
     map (\<lambda>b. (br_round b, brief_open b)) (go_briefs g') = map (\<lambda>b. (br_round b, brief_open b)) (go_briefs g)"

lemma same_goal_control_inv: "same_goal_control g g' \<Longrightarrow> goal_inv m g \<Longrightarrow> goal_inv m g'"
  by (simp add: same_goal_control_def goal_inv_def round_used_def)

definition goal_start :: "Goal \<Rightarrow> bool" where
  "goal_start g \<longleftrightarrow>
     go_step g = GoalSetup \<and> go_blocked_at g = GoalNone \<and> go_failures g = 0 \<and> go_attempt g = 0 \<and> go_briefs g = []"

inductive goal_reach :: "int \<Rightarrow> Goal \<Rightarrow> bool" for m :: int where
  goal_reach_start: "goal_start g \<Longrightarrow> goal_reach m g"
| goal_reach_work: "goal_reach m g \<Longrightarrow> same_goal_control g g' \<Longrightarrow> goal_reach m g'"
| goal_reach_move: "goal_reach m g \<Longrightarrow> goal_reach m (GoalTransition g oc m)"
| goal_reach_resume: "goal_reach m g \<Longrightarrow> goal_reach m (ResumeGoal g)"

lemma goal_reach_inv: "goal_reach m g \<Longrightarrow> goal_inv m g"
proof (induction rule: goal_reach.induct)
  case (goal_reach_start g)
  then show ?case by (simp add: goal_start_def goal_inv_def early_def goal_caps)
qed (simp_all add: GoalTransition_inv ResumeGoal_inv same_goal_control_inv)


section \<open>A goal ends\<close>

text \<open>Whether the check that is next follows a failed CI.\<close>

definition after_ci :: "bool \<Rightarrow> Goal \<Rightarrow> GoalOutcome \<Rightarrow> bool" where
  "after_ci c g oc =
     (if go_step g = GoalCI \<and> go_ok oc then go_ci oc = ''fail''
      else if go_step g = GoalCheck \<and> go_ok oc then False else c)"

text \<open>An outcome that is not a wait; a poll that worked says how CI ended; and a check that follows a failed
  CI does not say met.\<close>

definition goal_progress :: "bool \<Rightarrow> Goal \<Rightarrow> GoalOutcome \<Rightarrow> bool" where
  "goal_progress c g oc \<longleftrightarrow>
     \<not> go_wait oc \<and>
     (go_step g = GoalCI \<and> go_ok oc \<longrightarrow> go_ci oc \<in> {''pass'', ''merged'', ''closed'', ''fail''}) \<and>
     (go_step g = GoalCheck \<and> go_ok oc \<and> c \<longrightarrow> \<not> go_met oc)"

fun goal_rank :: "GoalStep \<Rightarrow> bool \<Rightarrow> nat" where
  "goal_rank GoalSetup _ = 9" | "goal_rank GoalBreakdown _ = 8" | "goal_rank GoalRuns _ = 5"
| "goal_rank GoalCheck c = (if c then 1 else 4)" | "goal_rank GoalPR _ = 3" | "goal_rank GoalCI _ = 2"
| "goal_rank _ _ = 0"

definition open_briefs :: "Goal \<Rightarrow> nat" where
  "open_briefs g = length (filter (current_brief g) (go_briefs g))"

definition goal_measures :: "int \<Rightarrow> (Goal \<times> bool \<Rightarrow> nat) list" where
  "goal_measures m =
     [\<lambda>(g, c). if early (go_step g) then 1 else 0, \<lambda>(g, c). nat (max m 1 - round_used g),
      \<lambda>(g, c). goal_rank (go_step g) c, \<lambda>(g, c). if go_step g = GoalRuns then open_briefs g else 0,
      \<lambda>(g, c). 10 - go_attempt g]"

definition goal_less :: "int \<Rightarrow> Goal \<times> bool \<Rightarrow> Goal \<times> bool \<Rightarrow> bool" where
  "goal_less m a b \<longleftrightarrow> (a, b) \<in> measures (goal_measures m)"

lemma goal_lessI:
  "goal_less m (g', c') (g, c) \<longleftrightarrow>
     (let a = (if early (go_step g) then 1 else 0 :: nat); a' = (if early (go_step g') then 1 else 0);
          b = nat (max m 1 - round_used g); b' = nat (max m 1 - round_used g');
          r = goal_rank (go_step g) c; r' = goal_rank (go_step g') c';
          w = (if go_step g = GoalRuns then open_briefs g else 0);
          w' = (if go_step g' = GoalRuns then open_briefs g' else 0) in
      a' < a \<or> a' = a \<and> (b' < b \<or> b' = b \<and> (r' < r \<or> r' = r \<and>
        (w' < w \<or> w' = w \<and> 10 - go_attempt g' < 10 - go_attempt g))))"
  by (simp add: goal_less_def goal_measures_def measures_less measures_lesseq Let_def)

lemma filter_update_less:
  "i < length xs \<Longrightarrow> P (xs ! i) \<Longrightarrow> \<not> P y \<Longrightarrow> length (filter P (xs[i := y])) < length (filter P xs)"
  by (induction xs arbitrary: i) (auto split: nat.splits)

lemma open_update:
  assumes "Current g = Some i" "\<not> current_brief g (f (go_briefs g ! i))"
  shows "open_briefs (update_current f g) < open_briefs g"
proof -
  have i: "i < length (go_briefs g)" "current_brief g (go_briefs g ! i)"
    using assms(1) index_of_Some by (auto simp: Current_def)
  have eq: "current_brief (g\<lparr>go_briefs := bs\<rparr>) = current_brief g" for bs
    by (simp add: current_brief_def fun_eq_iff)
  from filter_update_less [of i "go_briefs g" "current_brief g", OF i assms(2)] assms(1) show ?thesis
    by (simp add: open_briefs_def update_current_def eq)
qed

lemma update_current_sel [simp]:
  "go_step (update_current f g) = go_step g" "go_blocked_at (update_current f g) = go_blocked_at g"
  "go_failures (update_current f g) = go_failures g" "go_attempt (update_current f g) = go_attempt g"
  "go_round (update_current f g) = go_round g" "go_rounds_from (update_current f g) = go_rounds_from g"
  by (simp_all add: update_current_def split: option.split)

lemma goal_runs_less:
  assumes "go_step g = GoalRuns" "go_attempt g0 \<le> 10"
    and "g = g0\<lparr>go_parked := [], go_attempt := 0, go_skip := False\<rparr>"
  shows "goal_less m (goal_runs_step g oc, c) (g0, c)"
proof (cases "go_run oc")
  case RunEnded
  let ?u = "update_current (\<lambda>b. b\<lparr>br_state := BriefDone, br_pr_url := go_oprurl oc, br_notes := go_onotes oc\<rparr>) g"
  show ?thesis
  proof (cases "Current (?u\<lparr>go_failures := 0\<rparr>) = None")
    case True
    then show ?thesis using assms RunEnded by (simp add: goal_runs_step_def Let_def goal_lessI round_used_def early_def)
  next
    case False
    have "Current g \<noteq> None"
    proof
      assume n: "Current g = None"
      then have "?u = g" by (simp add: update_current_def)
      moreover have "Current (g\<lparr>go_failures := 0\<rparr>) = Current g"
        by (simp add: Current_def current_brief_def [abs_def])
      ultimately show False using False n by simp
    qed
    then obtain i where i: "Current g = Some i" by blast
    have "open_briefs ?u < open_briefs g"
      using i by (rule open_update) (simp add: current_brief_def)
    moreover have "open_briefs (?u\<lparr>go_failures := 0\<rparr>) = open_briefs ?u" "open_briefs g = open_briefs g0"
      using assms(3) by (simp_all add: open_briefs_def current_brief_def [abs_def])
    ultimately show ?thesis using assms False RunEnded
      by (simp add: goal_runs_step_def Let_def goal_lessI round_used_def early_def)
  qed
next
  case RunFailed
  then show ?thesis using assms
    by (simp add: goal_runs_step_def Let_def goal_lessI round_used_def early_def goal_block_def drop_pending_def)
next
  case RoundOver
  then show ?thesis using assms by (simp add: goal_runs_step_def Let_def goal_lessI round_used_def early_def)
qed


lemma goal_check_less:
  assumes "go_step g = GoalCheck" "c \<longrightarrow> \<not> go_met oc"
    and "g = g0\<lparr>go_parked := [], go_attempt := 0, go_skip := False\<rparr>"
  shows "goal_less m (goal_check_step g oc m, False) (g0, c)"
  using assms
  by (auto simp: goal_check_step_def Let_def goal_lessI round_used_def early_def goal_block_def addRound_def)

lemma goal_next_less:
  assumes "\<not> goal_over (go_step g0)" "go_step g0 \<noteq> GoalNone" "goal_progress c g0 oc" "go_ok oc" "go_attempt g0 \<le> 10"
    and "g = g0\<lparr>go_parked := [], go_attempt := 0, go_skip := False\<rparr>"
  shows "goal_less m (goal_next g oc m, after_ci c g0 oc) (g0, c)"
proof (cases "go_step g0")
  case GoalRuns
  then show ?thesis using assms goal_runs_less [of g g0 m oc c] by (simp add: goal_next_def after_ci_def)
next
  case GoalCheck
  then show ?thesis using assms goal_check_less [of g c oc g0 m]
    by (simp add: goal_next_def after_ci_def goal_progress_def)
next
  case GoalCI
  with assms have "go_ci oc \<in> {''pass'', ''merged'', ''closed'', ''fail''}" by (simp add: goal_progress_def)
  then show ?thesis using assms GoalCI
    by (auto simp: goal_next_def after_ci_def goal_lessI Let_def round_used_def early_def goal_block_def)
qed (use assms in \<open>auto simp: goal_next_def after_ci_def goal_lessI Let_def round_used_def early_def addRound_def goal_over_def\<close>)

lemma open_briefs_keep [simp]:
  "open_briefs (g\<lparr>go_parked := p, go_attempt := n\<rparr>) = open_briefs g"
  by (simp add: open_briefs_def current_brief_def [abs_def])

lemma GoalTransition_less:
  assumes "goal_inv m g" "\<not> goal_over (go_step g)" "goal_progress c g oc"
  shows "goal_less m (GoalTransition g oc m, after_ci c g oc) (g, c)"
proof -
  have a: "go_attempt g \<le> 10" "go_attempt g < goal_tries (go_step g)" "go_step g \<noteq> GoalNone"
    using assms(1,2) by (auto simp: goal_inv_def goal_caps split: if_splits)
  show ?thesis
  proof (cases "go_ok oc")
    case True
    then show ?thesis
      using assms(2,3) goal_next_less [OF assms(2) a(3) assms(3) True a(1) refl, of m]
      by (simp add: GoalTransition_def goal_progress_def Let_def)
  next
    case False
    then have "\<not> go_wait oc" "after_ci c g oc = c" using assms(3) by (auto simp: goal_progress_def after_ci_def)
    then show ?thesis using assms(2) False a
      by (cases "go_step g")
         (auto simp: GoalTransition_def Let_def goal_lessI goal_block_def round_used_def early_def goal_caps goal_over_def)
  qed
qed

lemma same_goal_control_less:
  assumes "same_goal_control g g'"
  shows "goal_less m x (g', c) = goal_less m x (g, c)"
proof -
  have o: "open_briefs g = length (filter (\<lambda>(n, b). n = go_round g \<and> b) (map (\<lambda>b. (br_round b, brief_open b)) (go_briefs g)))" for g
    by (simp add: open_briefs_def filter_map o_def current_brief_def [abs_def] brief_open_def)
  have "map (\<lambda>b. (br_round b, brief_open b)) (go_briefs g') = map (\<lambda>b. (br_round b, brief_open b)) (go_briefs g)"
    "go_round g' = go_round g" using assms by (simp_all add: same_goal_control_def)
  then have "open_briefs g' = open_briefs g" by (simp only: o)
  then show ?thesis using assms
    by (cases x) (simp add: goal_lessI same_goal_control_def round_used_def)
qed

section \<open>The properties of a goal\<close>

definition sample_goal :: Goal where
  "sample_goal =
     \<lparr>go_home = ''h'', go_workspace = ''w'', go_slug = [], go_branch = [], go_base = [], go_worktree = [],
      go_text = ''t'', go_done_when = [], go_briefs = [], go_verdicts = [], go_step = GoalSetup,
      go_blocked_at = GoalNone, go_why = [], go_round = 0, go_rounds_from = 0, go_failures = 0, go_attempt = 0,
      go_parked = [], go_skip = False, go_ci_failure = [], go_pr = 0, go_pr_url = [], go_ci_since = 0,
      go_labelled = [], go_tasked = [], go_since = 0, go_since_key = [], go_statused = [], go_started = 0,
      go_updated = 0\<rparr>"

definition goal_outcome :: "bool \<Rightarrow> bool \<Rightarrow> string \<Rightarrow> GoalOutcome" where
  "goal_outcome ok met ci =
     \<lparr>go_ok = ok, go_owhy = [], go_wait = False, go_oparked = [], go_odone_when = [], go_obriefs = [],
      go_met = met, go_reason = [], go_oskipped = False, go_run = RoundOver, go_oprurl = [], go_onotes = [],
      go_ofailed_at = StepNone, go_run_why = [], go_ci = ci\<rparr>"

lemma goal_outcome_sel [simp]:
  "go_ok (goal_outcome ok met ci) = ok" "go_met (goal_outcome ok met ci) = met"
  "go_ci (goal_outcome ok met ci) = ci" "go_wait (goal_outcome ok met ci) = False"
  by (simp_all add: goal_outcome_def)

lemma sample_goal_start: "goal_start sample_goal"
  by (simp add: goal_start_def sample_goal_def)

text \<open>The bounds of a goal. However its steps come out and however often its owner resumes it, with an
  allowance of \<open>m\<close> rounds: at most two runs fail in a row, and a goal that goes on has had fewer than
  two; a step that is not over has tries left; past its breakdown a goal has used no more rounds than
  its allowance (one round at the least); and a blocked goal knows the step it goes back to.\<close>
theorem goal_bounds:
  assumes "goal_reach m g"
  shows "go_failures g \<le> maxFailures"
    and "go_step g \<noteq> GoalBlocked \<Longrightarrow> go_failures g < maxFailures"
    and "\<not> goal_over (go_step g) \<Longrightarrow> go_attempt g < (if go_step g = GoalCI then goalCITries else goalOtherTries)"
    and "go_step g \<in> {GoalRuns, GoalCheck, GoalPR, GoalCI, GoalDone} \<Longrightarrow> go_blocked_at g = GoalNone \<and>
         go_round g - go_rounds_from g + 1 \<le> max m 1"
    and "go_step g = GoalBlocked \<Longrightarrow> go_blocked_at g \<notin> {GoalNone, GoalDone, GoalBlocked}"
    and "ResumeGoal g = g \<longleftrightarrow> go_step g \<noteq> GoalBlocked"
proof -
  have i: "goal_inv m g" using assms by (rule goal_reach_inv)
  then show "go_failures g \<le> maxFailures" by (cases "go_step g = GoalBlocked") (auto simp: goal_inv_def)
  show "go_step g \<noteq> GoalBlocked \<Longrightarrow> go_failures g < maxFailures" using i by (simp add: goal_inv_def)
  show "\<not> goal_over (go_step g) \<Longrightarrow> go_attempt g < (if go_step g = GoalCI then goalCITries else goalOtherTries)"
    using i by (simp add: goal_inv_def goal_tries_def)
  show "go_step g \<in> {GoalRuns, GoalCheck, GoalPR, GoalCI, GoalDone} \<Longrightarrow> go_blocked_at g = GoalNone \<and>
      go_round g - go_rounds_from g + 1 \<le> max m 1"
    using i by (auto simp: goal_inv_def early_def round_used_def)
  show "go_step g = GoalBlocked \<Longrightarrow> go_blocked_at g \<notin> {GoalNone, GoalDone, GoalBlocked}"
    using i by (auto simp: goal_inv_def goal_over_def)
  have "go_step (ResumeGoal g) \<noteq> GoalBlocked" if "go_step g = GoalBlocked"
    using i that by (auto simp: ResumeGoal_def Let_def goal_inv_def goal_over_def)
  then show "ResumeGoal g = g \<longleftrightarrow> go_step g \<noteq> GoalBlocked" by (auto simp: ResumeGoal_def)
qed

lemma goal_bounds_witness: "go_failures (GoalTransition sample_goal (goal_outcome False False []) 3) \<le> maxFailures"
  using goal_bounds(1) [OF goal_reach_move [OF goal_reach_start [OF sample_goal_start]]] by blast

text \<open>C31: A goal that keeps getting outcomes is done or blocked in the end. Whatever the outcomes are, as long
  as none is a wait, a poll of CI that worked says how CI ended, and a check that follows a failed CI
  does not say met, the goal gets there, and whatever doing its steps sets beside its counters.\<close>
theorem goal_ends:
  assumes "goal_reach m (g 0)"
    and "\<And>k. same_goal_control (g k) (g' k)" "\<And>k. g (Suc k) = GoalTransition (g' k) (oc k) m"
    and "\<And>k. c (Suc k) = after_ci (c k) (g k) (oc k)"
    and "\<And>k. \<not> goal_over (go_step (g k)) \<Longrightarrow> goal_progress (c k) (g k) (oc k)"
  shows "\<exists>k. goal_over (go_step (g k))"
proof (rule ccontr)
  assume "\<not> ?thesis"
  then have o: "\<not> goal_over (go_step (g k))" for k by blast
  have r: "goal_reach m (g k)" for k
  proof (induction k)
    case (Suc k)
    show ?case using goal_reach_move [OF goal_reach_work [OF Suc assms(2)]] assms(3) by simp
  qed (rule assms(1))
  have "goal_less m (g (Suc k), c (Suc k)) (g k, c k)" for k
  proof -
    have s: "go_step (g' k) = go_step (g k)" using assms(2) [of k] by (simp add: same_goal_control_def)
    then have "goal_progress (c k) (g' k) (oc k)" "after_ci (c k) (g' k) (oc k) = c (Suc k)"
      using assms(4,5) o by (auto simp: goal_progress_def after_ci_def)
    moreover have "goal_inv m (g' k)" using same_goal_control_inv [OF assms(2) goal_reach_inv [OF r]] .
    ultimately have "goal_less m (g (Suc k), c (Suc k)) (g' k, c k)"
      using GoalTransition_less [of m "g' k" "c k" "oc k"] o s assms(3) by simp
    then show ?thesis using same_goal_control_less [OF assms(2)] by simp
  qed
  then have "\<forall>k. ((g (Suc k), c (Suc k)), (g k, c k)) \<in> measures (goal_measures m)" by (simp add: goal_less_def)
  then show False using wf_iff_no_infinite_down_chain [of "measures (goal_measures m)"] by auto
qed

lemma goal_ends_witness:
  "\<exists>k. goal_over (go_step (((\<lambda>g. GoalTransition g (goal_outcome False False []) 3) ^^ k) sample_goal))"
  by (rule goal_ends [where g' = "\<lambda>k. ((\<lambda>g. GoalTransition g (goal_outcome False False []) 3) ^^ k) sample_goal"
        and m = 3 and oc = "\<lambda>_. goal_outcome False False []" and c = "\<lambda>_. False"])
     (simp_all add: goal_reach_start sample_goal_start same_goal_control_def goal_progress_def after_ci_def)

primrec goal_after :: "Goal \<Rightarrow> (nat \<Rightarrow> GoalOutcome) \<Rightarrow> int \<Rightarrow> nat \<Rightarrow> Goal" where
  "goal_after g oc m 0 = g"
| "goal_after g oc m (Suc k) = GoalTransition (goal_after g oc m k) (oc k) m"

definition ci_cycle :: "nat \<Rightarrow> GoalOutcome" where
  "ci_cycle k = (if k mod 3 = 0 then goal_outcome True True [] else if k mod 3 = 1 then goal_outcome True False []
                 else goal_outcome True False ''fail'')"

lemma ci_cycle_step:
  assumes "go_step g = GoalCheck"
  shows "go_step (goal_after g ci_cycle m k) =
       (if k mod 3 = 0 then GoalCheck else if k mod 3 = 1 then GoalPR else GoalCI) \<and>
     go_round (goal_after g ci_cycle m k) = go_round g \<and>
     go_rounds_from (goal_after g ci_cycle m k) = go_rounds_from g \<and>
     go_briefs (goal_after g ci_cycle m k) = go_briefs g"
proof (induction k)
  case (Suc k)
  have "k mod 3 = 0 \<or> k mod 3 = 1 \<or> k mod 3 = 2" by presburger
  then show ?case using Suc
    by (elim disjE)
       (simp_all add: GoalTransition_def goal_over_def goal_next_def goal_check_step_def Let_def ci_cycle_def mod_Suc)
qed (simp add: assms)

text \<open>Nothing bounds the way back from CI to the check. From any goal at its check there are outcomes,
  each of a step that did its job, under which the goal goes round check, pull request and CI for
  ever, in the same round and with the same briefs, whatever its allowance of rounds is.\<close>
theorem goal_ci_forever:
  assumes "go_step g = GoalCheck"
  shows "\<exists>oc. (\<forall>k. go_ok (oc k) \<and> \<not> go_wait (oc k)) \<and>
     (\<forall>k. \<not> goal_over (go_step (goal_after g oc m k)) \<and> go_round (goal_after g oc m k) = go_round g \<and>
          go_briefs (goal_after g oc m k) = go_briefs g)"
  by (rule exI [of _ ci_cycle]) (simp add: ci_cycle_step [OF assms] goal_over_def ci_cycle_def)

lemma goal_ci_forever_witness:
  "\<exists>oc. \<forall>k. \<not> goal_over (go_step (goal_after (sample_goal\<lparr>go_step := GoalCheck\<rparr>) oc 3 k))"
  using goal_ci_forever [of "sample_goal\<lparr>go_step := GoalCheck\<rparr>" 3] by fastforce


text \<open>Briefs read from an answer can be worked: they have a title and a text and no run yet.\<close>

definition workable :: "GoalBrief \<Rightarrow> bool" where
  "workable b \<longleftrightarrow> br_title b \<noteq> [] \<and> br_brief b \<noteq> [] \<and> br_run b = []"

lemma briefsOf_workable: "b \<in> set (briefsOf bs) \<Longrightarrow> workable b"
  by (auto simp: briefsOf_def List.map_filter_def Let_def new_brief_def workable_def split: if_splits)

lemma ParseCheck_briefs:
  assumes "ParseCheck block = Some (met, reason, bs)"
  shows "(bs = [] \<longleftrightarrow> met) \<and> (\<forall>b \<in> set bs. workable b)"
  using assms by (auto simp: ParseCheck_def Let_def split: option.splits if_splits dest: briefsOf_workable)

lemma ParseBreakdown_briefs:
  assumes "ParseBreakdown block = Some (ds, bs)"
  shows "bs \<noteq> [] \<and> (\<forall>b \<in> set bs. workable b)"
  using assms by (auto simp: ParseBreakdown_def Let_def split: option.splits if_splits dest: briefsOf_workable)

lemma addRound_current:
  assumes "bs \<noteq> []"
  shows "Current (addRound g bs) \<noteq> None"
proof -
  obtain b where "b \<in> set bs" using assms by (cases bs) auto
  then have "current_brief (addRound g bs) (b\<lparr>br_round := go_round g, br_state := BriefPending\<rparr>)"
    and "b\<lparr>br_round := go_round g, br_state := BriefPending\<rparr> \<in> set (go_briefs (addRound g bs))"
    by (auto simp: addRound_def current_brief_def)
  then show ?thesis by (auto simp: Current_def index_of_None)
qed

lemma InRound_addRound:
  assumes "\<forall>b \<in> set bs. workable b" "\<forall>b \<in> set (go_briefs g). br_round b < go_round g"
  shows "length (InRound (addRound g bs) (go_round g)) = length bs \<and> (\<forall>b \<in> set (InRound (addRound g bs) (go_round g)). workable b)"
proof -
  have "filter (\<lambda>b. br_round b = go_round g) (go_briefs g) = []" using assms(2) by (auto simp: filter_empty_conv)
  moreover have "filter (\<lambda>b. br_round b = go_round g) (map (\<lambda>b. b\<lparr>br_round := go_round g, br_state := BriefPending\<rparr>) bs) =
      map (\<lambda>b. b\<lparr>br_round := go_round g, br_state := BriefPending\<rparr>) bs" by (simp add: filter_map o_def)
  ultimately show ?thesis using assms(1) by (auto simp: InRound_def addRound_def workable_def)
qed

definition round_started :: "Goal \<Rightarrow> GoalBrief list \<Rightarrow> bool" where
  "round_started g bs \<longleftrightarrow>
     go_step g = GoalRuns \<and> Current g \<noteq> None \<and> length (InRound g (go_round g)) = length bs \<and>
     (\<forall>b \<in> set (InRound g (go_round g)). workable b)"

lemma round_startedI:
  assumes "bs \<noteq> [] \<and> (\<forall>b \<in> set bs. workable b)" "\<forall>b \<in> set (go_briefs h). br_round b < go_round h"
  shows "round_started ((addRound h bs)\<lparr>go_step := GoalRuns\<rparr>) bs"
proof -
  have keep: "Current (h\<lparr>go_step := s\<rparr>) = Current h" "InRound (h\<lparr>go_step := s\<rparr>) n = InRound h n" for h s n
    by (simp_all add: Current_def InRound_def current_brief_def [abs_def])
  have "go_round (addRound h bs) = go_round h" by (simp add: addRound_def)
  then show ?thesis using assms addRound_current [of bs h] InRound_addRound [of bs h]
    by (simp add: round_started_def keep)
qed

definition sample_brief :: GoalBrief where
  "sample_brief = new_brief ''t'' ''x''"

text \<open>An answer that is taken starts a round that can be worked. When the check says unmet and its answer
  parsed, the goal is blocked for having used its rounds, or it is at its runs in the next round, with
  exactly the briefs of the answer in that round, each with a title and a text and no run, and one of
  them is next; and the same holds for a breakdown that parsed, in round one.\<close>
theorem answer_starts_round:
  assumes "go_ok oc" "\<not> go_wait oc" "\<forall>b \<in> set (go_briefs g). br_round b \<le> go_round g"
  shows "go_step g = GoalCheck \<Longrightarrow> ParseCheck block = Some (False, reason, go_obriefs oc) \<Longrightarrow> \<not> go_met oc \<Longrightarrow>
      (if go_round g - go_rounds_from g + 1 \<ge> m
       then go_step (GoalTransition g oc m) = GoalBlocked \<and> go_blocked_at (GoalTransition g oc m) = GoalCheck
       else go_round (GoalTransition g oc m) = go_round g + 1 \<and>
         round_started (GoalTransition g oc m) (go_obriefs oc))"
    and "go_step g = GoalBreakdown \<Longrightarrow> ParseBreakdown block = Some (ds, go_obriefs oc) \<Longrightarrow> go_briefs g = [] \<Longrightarrow>
      go_round (GoalTransition g oc m) = 1 \<and> round_started (GoalTransition g oc m) (go_obriefs oc)"
proof -
  assume c: "go_step g = GoalCheck" "ParseCheck block = Some (False, reason, go_obriefs oc)" "\<not> go_met oc"
  let ?h = "g\<lparr>go_parked := [], go_attempt := 0, go_skip := False, go_verdicts := go_verdicts g @
     [\<lparr>vd_round = go_round g, vd_met = False, vd_reason = go_reason oc, vd_skipped = go_oskipped oc, vd_at = 0\<rparr>],
     go_ci_failure := [], go_round := go_round g + 1\<rparr>"
  have "round_started ((addRound ?h (go_obriefs oc))\<lparr>go_step := GoalRuns\<rparr>) (go_obriefs oc)"
    using ParseCheck_briefs [OF c(2)] assms(3) by (intro round_startedI) auto
  then show "if go_round g - go_rounds_from g + 1 \<ge> m
       then go_step (GoalTransition g oc m) = GoalBlocked \<and> go_blocked_at (GoalTransition g oc m) = GoalCheck
       else go_round (GoalTransition g oc m) = go_round g + 1 \<and>
         round_started (GoalTransition g oc m) (go_obriefs oc)"
    using c assms(1,2) by (simp add: GoalTransition_def goal_over_def goal_next_def goal_check_step_def Let_def
        goal_block_def) (simp add: addRound_def)
next
  assume c: "go_step g = GoalBreakdown" "ParseBreakdown block = Some (ds, go_obriefs oc)" "go_briefs g = []"
  let ?h = "g\<lparr>go_parked := [], go_attempt := 0, go_skip := False, go_done_when := go_odone_when oc,
     go_round := 1, go_rounds_from := 1\<rparr>"
  have "round_started ((addRound ?h (go_obriefs oc))\<lparr>go_step := GoalRuns\<rparr>) (go_obriefs oc)"
    using ParseBreakdown_briefs [OF c(2)] c(3) by (intro round_startedI) auto
  then show "go_round (GoalTransition g oc m) = 1 \<and> round_started (GoalTransition g oc m) (go_obriefs oc)"
    using c assms(1,2) by (simp add: GoalTransition_def goal_over_def goal_next_def Let_def) (simp add: addRound_def)
qed

lemma answer_starts_round_witness:
  "go_step (GoalTransition (sample_goal\<lparr>go_step := GoalCheck, go_round := 1, go_rounds_from := 1\<rparr>)
     ((goal_outcome True False [])\<lparr>go_obriefs := [sample_brief]\<rparr>) 3) = GoalRuns"
proof -
  let ?v = "JObj [(''met'', JBool False), (''reason'', JStr ''r''),
      (''briefs'', JArr [JObj [(''title'', JStr ''t''), (''brief'', JStr ''x'')]])]"
  have "ParseCheck (Some ?v) = Some (False, ''r'', [sample_brief])" by code_simp
  then show ?thesis
    using answer_starts_round(1) [of "(goal_outcome True False [])\<lparr>go_obriefs := [sample_brief]\<rparr>"
        "sample_goal\<lparr>go_step := GoalCheck, go_round := 1, go_rounds_from := 1\<rparr>" "Some ?v" "''r''" 3]
    by (simp add: goal_outcome_def sample_goal_def round_started_def)
qed

text \<open>What the end of a run does to the briefs. The brief being worked is marked as done or failed and no
  other brief moves on: after a run that ended the others stay as they are, and the goal goes to its
  check exactly when none is left in the round; after a run that failed the pending ones of the round
  are dropped, and the second failure in a row blocks the goal.\<close>
theorem goal_run_outcome:
  assumes "go_step g = GoalRuns" "go_ok oc" "\<not> go_wait oc" "Current g = Some i"
  shows "(go_run oc = RunEnded \<longrightarrow> (go_briefs (GoalTransition g oc m) = (go_briefs g)[i := (go_briefs g ! i)\<lparr>br_state := BriefDone,
          br_pr_url := go_oprurl oc, br_notes := go_onotes oc\<rparr>] \<and>
      go_failures (GoalTransition g oc m) = 0 \<and>
      go_step (GoalTransition g oc m) = (if \<exists>j < length (go_briefs g). j \<noteq> i \<and> current_brief g (go_briefs g ! j)
        then GoalRuns else GoalCheck))) \<and>
     (go_run oc = RunFailed \<longrightarrow> (go_briefs (GoalTransition g oc m) = map (\<lambda>b. if br_round b = go_round g \<and> br_state b = BriefPending
          then b\<lparr>br_state := BriefDropped\<rparr> else b)
        ((go_briefs g)[i := (go_briefs g ! i)\<lparr>br_state := BriefFailed, br_failed_at := go_ofailed_at oc,
          br_why := go_run_why oc\<rparr>]) \<and>
      go_step (GoalTransition g oc m) = (if go_failures g + 1 \<ge> maxFailures then GoalBlocked else GoalCheck)))"
proof -
  have c1: "go_run oc = RunEnded \<Longrightarrow>
      go_briefs (GoalTransition g oc m) = (go_briefs g)[i := (go_briefs g ! i)\<lparr>br_state := BriefDone,
          br_pr_url := go_oprurl oc, br_notes := go_onotes oc\<rparr>] \<and>
      go_failures (GoalTransition g oc m) = 0 \<and>
      go_step (GoalTransition g oc m) = (if \<exists>j < length (go_briefs g). j \<noteq> i \<and> current_brief g (go_briefs g ! j)
        then GoalRuns else GoalCheck)" and c2: "go_run oc = RunFailed \<Longrightarrow>
      go_briefs (GoalTransition g oc m) = map (\<lambda>b. if br_round b = go_round g \<and> br_state b = BriefPending
          then b\<lparr>br_state := BriefDropped\<rparr> else b)
        ((go_briefs g)[i := (go_briefs g ! i)\<lparr>br_state := BriefFailed, br_failed_at := go_ofailed_at oc,
          br_why := go_run_why oc\<rparr>]) \<and>
      go_step (GoalTransition g oc m) = (if go_failures g + 1 \<ge> maxFailures then GoalBlocked else GoalCheck)"
  proof -
    have i: "i < length (go_briefs g)" using assms(4) index_of_Some by (auto simp: Current_def)
    let ?g = "g\<lparr>go_parked := [], go_attempt := 0, go_skip := False\<rparr>"
    have t: "GoalTransition g oc m = goal_runs_step ?g oc"
      using assms by (simp add: GoalTransition_def goal_over_def goal_next_def Let_def)
    have cb: "current_brief ?g = current_brief g" by (simp add: current_brief_def fun_eq_iff)
    have u: "update_current f ?g = ?g\<lparr>go_briefs := (go_briefs g)[i := f (go_briefs g ! i)]\<rparr>" for f
      using assms(4) by (simp add: update_current_def Current_def cb)
    {
      assume e: "go_run oc = RunEnded"
      let ?b = "(go_briefs g ! i)\<lparr>br_state := BriefDone, br_pr_url := go_oprurl oc, br_notes := go_onotes oc\<rparr>"
      let ?h = "?g\<lparr>go_briefs := (go_briefs g)[i := ?b], go_failures := 0\<rparr>"
      have "Current ?h = None \<longleftrightarrow> (\<forall>j < length (go_briefs g). \<not> current_brief g ((go_briefs g)[i := ?b] ! j))"
        by (simp add: Current_def index_of_None all_set_conv_all_nth current_brief_def)
      also have "\<dots> \<longleftrightarrow> \<not> (\<exists>j < length (go_briefs g). j \<noteq> i \<and> current_brief g (go_briefs g ! j))"
        using i by (auto simp: nth_list_update current_brief_def)
      finally have "Current ?h = None \<longleftrightarrow> \<dots>" .
      then show "go_briefs (GoalTransition g oc m) = (go_briefs g)[i := ?b] \<and>
        go_failures (GoalTransition g oc m) = 0 \<and>
        go_step (GoalTransition g oc m) = (if \<exists>j < length (go_briefs g). j \<noteq> i \<and> current_brief g (go_briefs g ! j)
          then GoalRuns else GoalCheck)"
        using e assms(1) by (simp add: t goal_runs_step_def Let_def u)
    }
    assume "go_run oc = RunFailed"
    then show "go_briefs (GoalTransition g oc m) = map (\<lambda>b. if br_round b = go_round g \<and> br_state b = BriefPending
            then b\<lparr>br_state := BriefDropped\<rparr> else b)
          ((go_briefs g)[i := (go_briefs g ! i)\<lparr>br_state := BriefFailed, br_failed_at := go_ofailed_at oc,
            br_why := go_run_why oc\<rparr>]) \<and>
        go_step (GoalTransition g oc m) = (if go_failures g + 1 \<ge> maxFailures then GoalBlocked else GoalCheck)"
      using assms(1) by (simp add: t goal_runs_step_def Let_def u goal_block_def drop_pending_def)
  qed
  from c1 c2 show ?thesis by blast
qed

lemma goal_run_outcome_witness:
  "go_failures (GoalTransition (sample_goal\<lparr>go_step := GoalRuns, go_failures := 1, go_briefs := [sample_brief]\<rparr>)
     ((goal_outcome True False [])\<lparr>go_run := RunEnded\<rparr>) 3) = 0"
proof -
  have "Current (sample_goal\<lparr>go_step := GoalRuns, go_failures := 1, go_briefs := [sample_brief]\<rparr>) = Some 0"
    by (simp add: Current_def current_brief_def sample_brief_def new_brief_def sample_goal_def)
  then show ?thesis
    using goal_run_outcome [of "sample_goal\<lparr>go_step := GoalRuns, go_failures := 1, go_briefs := [sample_brief]\<rparr>"
        "(goal_outcome True False [])\<lparr>go_run := RunEnded\<rparr>" 0 3] by simp
qed

end

