(* ===== verification/Task_List.thy ===== *)
theory Task_List
  imports Session
begin

text \<open>
  \<open>daemon/module/tasks.go\<close> and \<open>daemon/tools/tasks.go\<close>: a snapshot of the task list. \<open>TaskIDs\<close> gives
  each task the id it is stored under, and \<open>Merge\<close> makes the next snapshot from the last one, what was
  sent and the log. The Go map of titles is a HOL map; the number of a minted id is a 64-bit sum.

  The lemmas show that the ids of a snapshot are distinct, that what \<open>Merge\<close> accepts the log accepts,
  and where evidence comes from.
\<close>

section \<open>Ids\<close>

definition maxSeq :: "int \<Rightarrow> string \<Rightarrow> int" where
  "maxSeq cur i =
     (if has_prefix i ''t''
      then (case parse_int (drop 1 i) of Some n \<Rightarrow> if n > cur then n else cur | None \<Rightarrow> cur)
      else cur)"

definition prev_seq :: "Task list \<Rightarrow> int" where
  "prev_seq prev = foldl (\<lambda>n t. maxSeq n (tk_id t)) 0 prev"

text \<open>The second loop: the ids that were sent, and the largest number among all.\<close>

fun seen_ids :: "string set \<Rightarrow> int \<Rightarrow> Task list \<Rightarrow> err + (string set \<times> int)" where
  "seen_ids seen n [] = Inr (seen, n)"
| "seen_ids seen n (t # ts) =
     (if tk_id t = [] then seen_ids seen n ts
      else if tk_id t \<in> seen then Inl (''duplicate task id '' @ fmt_q (tk_id t))
      else seen_ids (insert (tk_id t) seen) (maxSeq n (tk_id t)) ts)"

text \<open>The earlier tasks by title, those that were sent by id left out; a title keeps its first id.\<close>

fun by_title :: "string set \<Rightarrow> (string \<Rightarrow> string option) \<Rightarrow> Task list \<Rightarrow> (string \<Rightarrow> string option)" where
  "by_title seen m [] = m"
| "by_title seen m (t # ts) =
     (let k = trim_space (tk_title t) in
      by_title seen (if tk_id t \<notin> seen \<and> (m k = None \<or> m k = Some []) then m(k \<mapsto> tk_id t) else m) ts)"

fun assign_ids :: "(string \<Rightarrow> string option) \<Rightarrow> int \<Rightarrow> Task list \<Rightarrow> Task list" where
  "assign_ids m n [] = []"
| "assign_ids m n (t # ts) =
     (if tk_id t = [] then
        (let k = trim_space (tk_title t) in
         case m k of
           Some (c # cs) \<Rightarrow> t\<lparr>tk_id := c # cs\<rparr> # assign_ids (m(k := None)) n ts
         | _ \<Rightarrow> (let n' = add64 n 1 in t\<lparr>tk_id := ''t'' @ itoa n'\<rparr> # assign_ids m n' ts))
      else t # assign_ids m n ts)"

definition TaskIDs :: "Task list \<Rightarrow> Task list \<Rightarrow> err + Task list" where
  "TaskIDs prev incoming =
     (case seen_ids {} (prev_seq prev) incoming of
        Inl err \<Rightarrow> Inl err
      | Inr (seen, n) \<Rightarrow> Inr (assign_ids (by_title seen Map.empty prev) n incoming))"

section \<open>Merging a snapshot\<close>

definition latestPassingCheck :: "Event list \<Rightarrow> string \<Rightarrow> string" where
  "latestPassingCheck log task =
     (case find_last (\<lambda>e. ev_type e = ''check'' \<and>
        (case MustData as_check e of None \<Rightarrow> False | Some c \<Rightarrow> ck_task c = task \<and> ck_status c = ''pass'')) log of
        None \<Rightarrow> [] | Some e \<Rightarrow> ev_id e)"

definition latestTasks :: "Event list \<Rightarrow> TasksData" where
  "latestTasks log =
     (case find_last (\<lambda>e. ev_type e = ''tasks'') log of
        None \<Rightarrow> tasks_zero
      | Some e \<Rightarrow> (case MustData as_tasks e of None \<Rightarrow> tasks_zero | Some d \<Rightarrow> d))"

definition prev_by_id :: "Task list \<Rightarrow> string \<Rightarrow> Task option" where
  "prev_by_id prev = foldl (\<lambda>m t. m(tk_id t \<mapsto> t)) Map.empty prev"

text \<open>What a task carries over from the earlier one with its id, and its evidence.\<close>

definition carry_over :: "Task option \<Rightarrow> Task \<Rightarrow> Task" where
  "carry_over p t =
     (case p of
        None \<Rightarrow> t
      | Some p \<Rightarrow>
          t\<lparr>tk_done_when := if tk_done_when t = [] then tk_done_when p else tk_done_when t,
            tk_check := if tk_check t = [] then tk_check p else tk_check t,
            tk_note := if tk_note t = [] then tk_note p else tk_note t\<rparr>)"

definition evidence_of :: "Event list \<Rightarrow> Task option \<Rightarrow> Task \<Rightarrow> string" where
  "evidence_of log p t =
     (if tk_status t = ''done'' then
        (case p of
           Some q \<Rightarrow> if tk_status q = ''done'' \<and> tk_evidence q \<noteq> [] then tk_evidence q
                     else latestPassingCheck log (tk_id t)
         | None \<Rightarrow> latestPassingCheck log (tk_id t))
      else [])"

definition merge_task :: "(string \<Rightarrow> Task option) \<Rightarrow> Event list \<Rightarrow> Task \<Rightarrow> err + Task" where
  "merge_task by_id log t0 =
     (if trim_space (tk_title t0) = [] then Inl ''every task needs a title''
      else if \<not> isTaskStatus (tk_status t0)
      then Inl (''task '' @ fmt_q (tk_title t0) @ '': status '' @ fmt_q (tk_status t0) @
                '' invalid (pending|in_progress|blocked|done|failed|cancelled)'')
      else (let t = t0\<lparr>tk_blocked := (case tk_blocked t0 of None \<Rightarrow> Some [] | b \<Rightarrow> b)\<rparr>;
                p = by_id (tk_id t);
                t = carry_over p t
            in Inr (t\<lparr>tk_evidence := evidence_of log p t\<rparr>)))"

fun merge_tasks :: "(string \<Rightarrow> Task option) \<Rightarrow> Event list \<Rightarrow> Task list \<Rightarrow> err + Task list" where
  "merge_tasks by_id log [] = Inr []"
| "merge_tasks by_id log (t # ts) =
     (case merge_task by_id log t of
        Inl err \<Rightarrow> Inl err
      | Inr t' \<Rightarrow> (case merge_tasks by_id log ts of Inl err \<Rightarrow> Inl err | Inr ts' \<Rightarrow> Inr (t' # ts')))"

definition Merge :: "TasksData \<Rightarrow> Task list \<Rightarrow> Event list \<Rightarrow> string \<Rightarrow> err + TasksData" where
  "Merge prev incoming log source =
     (if incoming = [] then Inl ''tasks must not be empty; mark tasks done or cancelled instead of removing them''
      else (case TaskIDs (td_tasks prev) incoming of
              Inl err \<Rightarrow> Inl err
            | Inr ts \<Rightarrow>
                (case merge_tasks (prev_by_id (td_tasks prev)) log ts of
                   Inl err \<Rightarrow> Inl err
                 | Inr out \<Rightarrow> Inr \<lparr>td_revision = add64 (td_revision prev) 1, td_source = source, td_tasks = out\<rparr>)))"

text \<open>What \<open>task.update\<close> answers, from the snapshot before and the one that was stored.\<close>

definition task_reply :: "TasksData \<Rightarrow> TasksData \<Rightarrow> string" where
  "task_reply prev data =
     (let out = RenderTasks (td_tasks data) in
      if td_revision prev > 0 \<and> td_tasks prev = td_tasks data
      then ''no change: the plan is the same as revision '' @ itoa (td_revision prev) @ [newline] @ out
      else out)"

section \<open>The ids of a snapshot are distinct\<close>

text \<open>An id that would be minted above \<open>n\<close>.\<close>

definition minted :: "int \<Rightarrow> int \<Rightarrow> string set" where
  "minted n m = {''t'' @ itoa j | j. n < j \<and> j \<le> m}"

lemma itoa_inj: "int64_ok i \<Longrightarrow> int64_ok j \<Longrightarrow> itoa i = itoa j \<Longrightarrow> i = j"
  using parse_int_itoa by (metis option.inject)

text \<open>The number of an id, when it has one, is at most \<open>n\<close>.\<close>

definition num_le :: "string \<Rightarrow> int \<Rightarrow> bool" where
  "num_le i n \<longleftrightarrow> (\<forall>j. i = ''t'' @ itoa j \<and> int64_ok j \<longrightarrow> j \<le> n)"

lemma maxSeq_ge: "cur \<le> maxSeq cur i"
  by (simp add: maxSeq_def split: option.split)

lemma maxSeq_num: "num_le i (maxSeq cur i)"
  by (auto simp: num_le_def maxSeq_def has_prefix_append parse_int_itoa)

lemma num_le_mono: "num_le i m \<Longrightarrow> m \<le> n \<Longrightarrow> num_le i n"
  by (auto simp: num_le_def intro: order_trans)

lemma num_le_not_minted: "num_le i n \<Longrightarrow> 0 \<le> n \<Longrightarrow> m \<le> int64_max \<Longrightarrow> i \<notin> minted n m"
  by (force simp: num_le_def minted_def int64_ok_def int64_min_def)

lemma prev_seq_bound:
  "n \<le> foldl (\<lambda>n t. maxSeq n (tk_id t)) n prev \<and>
   (\<forall>t \<in> set prev. num_le (tk_id t) (foldl (\<lambda>n t. maxSeq n (tk_id t)) n prev))"
proof (induction prev arbitrary: n)
  case (Cons t ts)
  have "n \<le> maxSeq n (tk_id t)" "num_le (tk_id t) (maxSeq n (tk_id t))" by (rule maxSeq_ge, rule maxSeq_num)
  then show ?case using Cons.IH [of "maxSeq n (tk_id t)"] by (auto intro: order_trans num_le_mono)
qed simp

text \<open>The ids a task list came with.\<close>

definition own_ids :: "Task list \<Rightarrow> string list" where
  "own_ids ts = filter (\<lambda>i. i \<noteq> []) (map tk_id ts)"

lemma own_ids_Cons: "own_ids (t # ts) = (if tk_id t = [] then own_ids ts else tk_id t # own_ids ts)"
  by (simp add: own_ids_def)

lemma seen_ids_Inr:
  assumes "seen_ids seen n ts = Inr (seen', n')"
  shows "seen' = seen \<union> set (own_ids ts) \<and> n \<le> n' \<and> distinct (own_ids ts) \<and> set (own_ids ts) \<inter> seen = {} \<and>
    (\<forall>i \<in> set (own_ids ts). num_le i n')"
  using assms
proof (induction seen n ts rule: seen_ids.induct)
  case (2 seen n t ts)
  show ?case
  proof (cases "tk_id t = []")
    case True
    with 2 show ?thesis by (simp add: own_ids_Cons)
  next
    case False
    with "2.prems" have new: "tk_id t \<notin> seen" and
      r: "seen_ids (insert (tk_id t) seen) (maxSeq n (tk_id t)) ts = Inr (seen', n')" by (auto split: if_splits)
    have "n \<le> maxSeq n (tk_id t)" "num_le (tk_id t) (maxSeq n (tk_id t))" by (rule maxSeq_ge, rule maxSeq_num)
    with "2.IH"(2) [OF False new r] False new show ?thesis
      by (auto simp: own_ids_Cons intro: order_trans num_le_mono)
  qed
qed (simp add: own_ids_def)

lemma seen_ids_Inl:
  "(\<exists>err. seen_ids seen n ts = Inl err) \<longleftrightarrow> \<not> distinct (own_ids ts) \<or> set (own_ids ts) \<inter> seen \<noteq> {}"
  by (induction seen n ts rule: seen_ids.induct) (auto simp: own_ids_def)

lemma ran_upd: "ran (m(k \<mapsto> i)) \<subseteq> insert i (ran m)"
  by (auto simp: ran_def)

lemma by_title_ran:
  "ran (by_title seen m ts) \<subseteq> ran m \<union> (tk_id ` set ts - seen)"
proof (induction seen m ts rule: by_title.induct)
  case (2 seen m t ts)
  let ?k = "trim_space (tk_title t)"
  let ?m = "if tk_id t \<notin> seen \<and> (m ?k = None \<or> m ?k = Some []) then m(?k \<mapsto> tk_id t) else m"
  have "ran ?m \<subseteq> ran m \<union> (tk_id ` set (t # ts) - seen)" using ran_upd [of m ?k "tk_id t"] by auto
  moreover have "ran (by_title seen ?m ts) \<subseteq> ran ?m \<union> (tk_id ` set ts - seen)" by (rule "2.IH") simp
  moreover have "by_title seen m (t # ts) = by_title seen ?m ts" by (simp add: Let_def)
  ultimately show ?case by auto
qed simp

text \<open>Titles keep different ids: those of a list of tasks with different ids.\<close>

definition title_inj :: "(string \<Rightarrow> string option) \<Rightarrow> bool" where
  "title_inj m \<longleftrightarrow> (\<forall>k l i. m k = Some i \<and> m l = Some i \<and> i \<noteq> [] \<longrightarrow> k = l)"

lemma title_inj_upd:
  assumes "title_inj m" "i \<notin> ran m"
  shows "title_inj (m(k \<mapsto> i))"
  unfolding title_inj_def
proof (intro allI impI)
  fix k' l j
  assume a: "(m(k \<mapsto> i)) k' = Some j \<and> (m(k \<mapsto> i)) l = Some j \<and> j \<noteq> []"
  show "k' = l"
  proof (cases "j = i")
    case True
    then show ?thesis using a assms(2) by (auto simp: ran_def split: if_splits)
  next
    case False
    then show ?thesis using a assms(1) unfolding title_inj_def by (auto split: if_splits)
  qed
qed

lemma title_inj_del: "title_inj m \<Longrightarrow> title_inj (m(k := None))"
  by (simp add: title_inj_def)

lemma disjoint_insert: "R' \<subseteq> insert x R \<Longrightarrow> x \<notin> A \<Longrightarrow> A \<inter> R = {} \<Longrightarrow> A \<inter> R' = {}"
  by blast

lemma by_title_inj:
  assumes "distinct (map tk_id ts)" "title_inj m" "tk_id ` set ts \<inter> ran m = {}"
  shows "title_inj (by_title seen m ts)"
  using assms
proof (induction seen m ts rule: by_title.induct)
  case (2 seen m t ts)
  let ?k = "trim_space (tk_title t)"
  define m' where "m' = (if tk_id t \<notin> seen \<and> (m ?k = None \<or> m ?k = Some []) then m(?k \<mapsto> tk_id t) else m)"
  have t: "tk_id t \<notin> tk_id ` set ts" "tk_id ` set ts \<inter> ran m = {}" "tk_id t \<notin> ran m" "distinct (map tk_id ts)"
    using "2.prems" by auto
  have i: "title_inj m'" using "2.prems"(2) title_inj_upd [OF _ t(3)] by (simp add: m'_def)
  have "ran m' \<subseteq> insert (tk_id t) (ran m)" unfolding m'_def by (simp add: ran_upd subset_insertI)
  then have d: "tk_id ` set ts \<inter> ran m' = {}" using t(1,2) by (rule disjoint_insert)
  have "title_inj (by_title seen m' ts)" by (rule "2.IH" [OF refl, folded m'_def, OF t(4) i d])
  then show ?case by (simp add: Let_def m'_def)
qed simp

lemma minted_step: "minted n m = {} \<or> n < m" "minted (n + 1) m \<subseteq> minted n m" "m \<le> m' \<Longrightarrow> minted n m \<subseteq> minted n m'"
  by (auto simp: minted_def)

lemma ran_del:
  assumes "title_inj m" "m k = Some i" "i \<noteq> []"
  shows "ran (m(k := None)) = ran m - {i}"
proof -
  have "l = k" if "m l = Some i" for l using assms that unfolding title_inj_def by blast
  then have "i \<notin> ran (m(k := None))" by (auto simp: ran_def)
  moreover have "ran m \<subseteq> insert i (ran (m(k := None)))"
  proof
    fix j
    assume "j \<in> ran m"
    then obtain l where "m l = Some j" by (auto simp: ran_def)
    then show "j \<in> insert i (ran (m(k := None)))" using assms(2) by (cases "l = k") (auto simp: ran_def)
  qed
  moreover have "ran (m(k := None)) \<subseteq> ran m" by (auto simp: ran_def)
  ultimately show ?thesis by blast
qed

lemma distinct_step:
  "distinct D \<Longrightarrow> set D \<subseteq> A \<Longrightarrow> i \<notin> A \<Longrightarrow> insert i A \<subseteq> B \<Longrightarrow> distinct (i # D) \<and> set (i # D) \<subseteq> B"
  by auto

lemma assign_ids_distinct:
  assumes "title_inj m" "ran m \<inter> set (own_ids ts) = {}" "distinct (own_ids ts)"
    and "(ran m \<union> set (own_ids ts)) \<inter> minted n (n + int (length ts)) = {}" "0 \<le> n" "n + int (length ts) \<le> int64_max"
  shows "distinct (map tk_id (assign_ids m n ts)) \<and>
    set (map tk_id (assign_ids m n ts)) \<subseteq> set (own_ids ts) \<union> (ran m - {[]}) \<union> minted n (n + int (length ts))"
  using assms
proof (induction ts arbitrary: m n)
  case (Cons t ts)
  let ?k = "trim_space (tk_title t)"
  let ?M = "minted n (n + int (length (t # ts)))"
  have sub: "minted n (n + int (length ts)) \<subseteq> ?M" by (rule minted_step(3)) simp
  note p = Cons.prems(2-4) and b = Cons.prems(5,6)
  consider (own) "tk_id t \<noteq> []" | (reuse) i where "tk_id t = []" "m ?k = Some i" "i \<noteq> []"
    | (mint) "tk_id t = []" "m ?k = None \<or> m ?k = Some []" by (cases "m ?k") auto
  then show ?case
  proof cases
    case own
    then have o: "own_ids (t # ts) = tk_id t # own_ids ts" by (simp add: own_ids_Cons)
    have d: "distinct (map tk_id (assign_ids m n ts)) \<and>
      set (map tk_id (assign_ids m n ts)) \<subseteq> set (own_ids ts) \<union> (ran m - {[]}) \<union> minted n (n + int (length ts))"
      using p b sub unfolding o by (intro Cons.IH Cons.prems(1)) auto
    have "map tk_id (assign_ids m n (t # ts)) = tk_id t # map tk_id (assign_ids m n ts)" using own by simp
    with distinct_step [OF d [THEN conjunct1] d [THEN conjunct2]] p sub show ?thesis unfolding o by auto
  next
    case reuse
    then have o: "own_ids (t # ts) = own_ids ts" by (simp add: own_ids_Cons)
    define m' where "m' = m(?k := None)"
    have r: "ran m' = ran m - {i}" using Cons.prems(1) reuse unfolding m'_def by (intro ran_del)
    have i: "i \<in> ran m" using reuse by (auto simp: ran_def)
    have "title_inj m'" using Cons.prems(1) unfolding m'_def by (rule title_inj_del)
    then have d: "distinct (map tk_id (assign_ids m' n ts)) \<and>
      set (map tk_id (assign_ids m' n ts)) \<subseteq> set (own_ids ts) \<union> (ran m' - {[]}) \<union> minted n (n + int (length ts))"
      using p b sub unfolding o by (intro Cons.IH) (auto simp: r)
    have "map tk_id (assign_ids m n (t # ts)) = i # map tk_id (assign_ids m' n ts)"
      using reuse by (cases i) (simp_all add: m'_def Let_def)
    moreover have "i \<notin> set (own_ids ts) \<union> (ran m' - {[]}) \<union> minted n (n + int (length ts))"
      using i p sub unfolding o r by blast
    ultimately show ?thesis
      using distinct_step [OF d [THEN conjunct1] d [THEN conjunct2]] i reuse(3) sub unfolding o r by auto
  next
    case mint
    then have o: "own_ids (t # ts) = own_ids ts" by (simp add: own_ids_Cons)
    have n': "add64 n 1 = n + 1" using b by (simp add: add64_def wrap64_id int64_ok_def int64_min_def)
    have e: "n + 1 + int (length ts) = n + int (length (t # ts))" by simp
    have sub': "minted (n + 1) (n + int (length (t # ts))) \<subseteq> ?M" by (rule minted_step(2))
    have d: "distinct (map tk_id (assign_ids m (n + 1) ts)) \<and>
      set (map tk_id (assign_ids m (n + 1) ts)) \<subseteq>
        set (own_ids ts) \<union> (ran m - {[]}) \<union> minted (n + 1) (n + 1 + int (length ts))"
      using p b sub' unfolding o e [symmetric] by (intro Cons.IH Cons.prems(1)) auto
    have new: "''t'' @ itoa (n + 1) \<in> ?M" by (auto simp: minted_def)
    moreover have "''t'' @ itoa (n + 1) \<notin> minted (n + 1) (n + 1 + int (length ts))"
      using b by (intro num_le_not_minted) (auto simp: num_le_def int64_ok_def int64_min_def dest!: itoa_inj [rotated 2])
    ultimately have "''t'' @ itoa (n + 1) \<notin> set (own_ids ts) \<union> (ran m - {[]}) \<union> minted (n + 1) (n + 1 + int (length ts))"
      using p unfolding o by blast
    moreover have "map tk_id (assign_ids m n (t # ts)) = (''t'' @ itoa (n + 1)) # map tk_id (assign_ids m (n + 1) ts)"
      using mint by (auto simp: Let_def n')
    ultimately show ?thesis
      using distinct_step [OF d [THEN conjunct1] d [THEN conjunct2]] new sub' unfolding o e by auto
  qed
qed (simp add: own_ids_def)


lemma title_inj_empty: "title_inj Map.empty"
  by (simp add: title_inj_def)

lemma TaskIDs_cases:
  assumes "TaskIDs prev incoming = Inr ts"
  obtains seen n where "seen_ids {} (prev_seq prev) incoming = Inr (seen, n)"
    "ts = assign_ids (by_title seen Map.empty prev) n incoming"
  using assms by (auto simp: TaskIDs_def split: sum.splits)

text \<open>A snapshot with ids keeps everything else of its tasks.\<close>

definition same_but_id :: "Task \<Rightarrow> Task \<Rightarrow> bool" where
  "same_but_id t t' \<longleftrightarrow> t' = t\<lparr>tk_id := tk_id t'\<rparr> \<and> (tk_id t \<noteq> [] \<longrightarrow> tk_id t' = tk_id t) \<and> tk_id t' \<noteq> []"

lemma assign_ids_same: "list_all2 same_but_id ts (assign_ids m n ts)"
  by (induction m n ts rule: assign_ids.induct)
     (auto simp: same_but_id_def Let_def simp del: fun_upd_apply split: option.split list.split)

text \<open>Numbers that leave room for the tasks that were sent: no id is \<open>t<n>\<close> with \<open>n\<close> near the last int.\<close>

definition id_room :: "Task list \<Rightarrow> Task list \<Rightarrow> bool" where
  "id_room prev incoming \<longleftrightarrow>
     foldl (\<lambda>n t. maxSeq n (tk_id t)) 0 (prev @ incoming) + int (length incoming) \<le> int64_max"

lemma seen_ids_number:
  "seen_ids seen n ts = Inr (seen', n') \<Longrightarrow> n' = foldl (\<lambda>n t. maxSeq n (tk_id t)) n ts"
proof (induction seen n ts rule: seen_ids.induct)
  case (2 seen n t ts)
  have "maxSeq n [] = n" by (simp add: maxSeq_def has_prefix_def)
  with 2 show ?case by (auto split: if_splits)
qed simp

lemma TaskIDs_distinct_gen:
  assumes "TaskIDs prev incoming = Inr ts" "distinct (map tk_id prev)" "id_room prev incoming"
  shows "distinct (map tk_id ts)"
proof -
  obtain seen n where s: "seen_ids {} (prev_seq prev) incoming = Inr (seen, n)"
    and ts: "ts = assign_ids (by_title seen Map.empty prev) n incoming" using assms(1) by (rule TaskIDs_cases)
  let ?m = "by_title seen Map.empty prev"
  have i: "seen = set (own_ids incoming)" "prev_seq prev \<le> n" "distinct (own_ids incoming)"
    "\<forall>i \<in> set (own_ids incoming). num_le i n" using seen_ids_Inr [OF s] by auto
  have pb: "0 \<le> prev_seq prev" "\<forall>t \<in> set prev. num_le (tk_id t) (prev_seq prev)"
    using prev_seq_bound [of 0 prev] by (simp_all add: prev_seq_def)
  have n: "n + int (length incoming) \<le> int64_max"
    using assms(3) seen_ids_number [OF s] by (simp add: id_room_def prev_seq_def)
  have r: "ran ?m \<subseteq> tk_id ` set prev - seen" using by_title_ran [of seen Map.empty prev] by simp
  have le: "num_le j n" if jj: "j \<in> ran ?m \<union> set (own_ids incoming)" for j
  proof (cases "j \<in> set (own_ids incoming)")
    case False
    then obtain t where "t \<in> set prev" "j = tk_id t" using jj r by blast
    then show ?thesis using pb(2) i(2) by (blast intro: num_le_mono)
  qed (use i(4) in blast)
  have "j \<notin> minted n (n + int (length incoming))" if "j \<in> ran ?m \<union> set (own_ids incoming)" for j
    using le [OF that] pb(1) i(2) n by (intro num_le_not_minted) auto
  then have "(ran ?m \<union> set (own_ids incoming)) \<inter> minted n (n + int (length incoming)) = {}" by blast
  moreover have "title_inj ?m" using assms(2) by (intro by_title_inj title_inj_empty) simp_all
  moreover have "ran ?m \<inter> set (own_ids incoming) = {}" using r i(1) by blast
  ultimately show ?thesis using assign_ids_distinct [of ?m incoming n] i pb(1) n unfolding ts by simp
qed

section \<open>What Merge makes\<close>

lemma carry_over_sel [simp]:
  "tk_id (carry_over p t) = tk_id t" "tk_title (carry_over p t) = tk_title t" "tk_status (carry_over p t) = tk_status t"
  "tk_blocked (carry_over p t) = tk_blocked t"
  by (simp_all add: carry_over_def split: option.split)

lemma evidence_of_cong: "tk_id t = tk_id u \<Longrightarrow> tk_status t = tk_status u \<Longrightarrow> evidence_of log p t = evidence_of log p u"
  by (simp add: evidence_of_def split: option.split)

lemma merge_task_Inr:
  assumes "merge_task by_id log t = Inr t'"
  shows "tk_title t' = tk_title t \<and> tk_title t \<noteq> [] \<and> isTaskStatus (tk_status t') \<and> tk_status t' = tk_status t \<and>
    tk_id t' = tk_id t \<and> tk_blocked t' \<noteq> None \<and> tk_evidence t' = evidence_of log (by_id (tk_id t)) t"
proof -
  let ?u = "t\<lparr>tk_blocked := (case tk_blocked t of None \<Rightarrow> Some [] | b \<Rightarrow> b)\<rparr>"
  have c: "trim_space (tk_title t) \<noteq> []" "isTaskStatus (tk_status t)"
    using assms by (auto simp: merge_task_def split: if_splits)
  then have t': "t' = (carry_over (by_id (tk_id t)) ?u)\<lparr>tk_evidence :=
      evidence_of log (by_id (tk_id t)) (carry_over (by_id (tk_id t)) ?u)\<rparr>"
    using assms by (simp add: merge_task_def Let_def)
  have "evidence_of log (by_id (tk_id t)) (carry_over (by_id (tk_id t)) ?u) = evidence_of log (by_id (tk_id t)) t"
    by (rule evidence_of_cong) simp_all
  moreover have "tk_title t \<noteq> []" using c(1) by auto
  ultimately show ?thesis using c(2) unfolding t' by (simp split: option.split)
qed

lemma merge_tasks_Inr:
  "merge_tasks by_id log ts = Inr out \<Longrightarrow> list_all2 (\<lambda>t t'. merge_task by_id log t = Inr t') ts out"
  by (induction ts arbitrary: out) (auto split: sum.splits)

lemma merge_tasks_Inl:
  "(\<exists>err. merge_tasks by_id log ts = Inl err) \<longleftrightarrow> (\<exists>t \<in> set ts. \<exists>err. merge_task by_id log t = Inl err)"
  by (induction ts) (auto split: sum.splits)

lemma find_last_in: "find_last P xs = Some x \<Longrightarrow> x \<in> set xs \<and> P x"
  unfolding find_last_def find_Some_iff by (metis length_rev nth_mem set_rev)

lemma latestPassingCheck_in:
  assumes "ValidateLog log = None"
  shows "latestPassingCheck log task = [] \<or> ValidateULID (latestPassingCheck log task) = None"
  using assms ValidateLog_events(1)
  by (auto simp: latestPassingCheck_def dest!: find_last_in split: option.split)

lemma latestTasks_valid:
  assumes "ValidateLog log = None"
  shows "latestTasks log = tasks_zero \<or> validate_tasks (latestTasks log) = None"
proof (cases "find_last (\<lambda>e. ev_type e = ''tasks'') log")
  case (Some e)
  then have "e \<in> set log" by (simp add: find_last_in)
  then have "ValidateEvent e = None" using assms ValidateLog_events(2) by blast
  then show ?thesis using Some
    by (auto simp: latestTasks_def MustData_def as_tasks_def ValidateEvent_None split: option.split sum.split event_data.splits)
qed (simp add: latestTasks_def)

lemma prev_by_id_in: "prev_by_id ts i = Some t \<Longrightarrow> t \<in> set ts \<and> tk_id t = i"
  unfolding prev_by_id_def by (induction ts rule: rev_induct) (auto split: if_splits)


section \<open>Properties\<close>

lemma resent_keeps:
  "distinct (map (\<lambda>t. trim_space (tk_title t)) ts) \<Longrightarrow>
   \<forall>t \<in> set ts. m (trim_space (tk_title t)) = Some (tk_id t) \<and> tk_id t \<noteq> [] \<Longrightarrow>
   assign_ids m n (map (\<lambda>t. t\<lparr>tk_id := []\<rparr>) ts) = ts"
proof (induction ts arbitrary: m)
  case (Cons t ts)
  have "trim_space (tk_title t) \<notin> (\<lambda>t. trim_space (tk_title t)) ` set ts" using Cons.prems(1) by simp
  then have "\<forall>v \<in> set ts. trim_space (tk_title v) \<noteq> trim_space (tk_title t)" by (metis image_eqI)
  then have "assign_ids (m(trim_space (tk_title t) := None)) n (map (\<lambda>t. t\<lparr>tk_id := []\<rparr>) ts) = ts"
    using Cons.prems by (intro Cons.IH) simp_all
  then show ?case using Cons.prems(2) by (cases "tk_id t") (auto simp: Let_def)
qed simp

lemma by_title_other: "k \<notin> (\<lambda>t. trim_space (tk_title t)) ` set ts \<Longrightarrow> by_title {} m ts k = m k"
  by (induction ts arbitrary: m) (simp_all add: Let_def)

lemma by_title_find:
  assumes "distinct (map (\<lambda>t. trim_space (tk_title t)) ts)" "\<forall>t \<in> set ts. m (trim_space (tk_title t)) = None" "t \<in> set ts"
  shows "by_title {} m ts (trim_space (tk_title t)) = Some (tk_id t)"
  using assms
proof (induction ts arbitrary: m)
  case (Cons u ts)
  let ?m = "m(trim_space (tk_title u) \<mapsto> tk_id u)"
  have e: "by_title {} m (u # ts) = by_title {} ?m ts" using Cons.prems(2) by (simp add: Let_def)
  have u: "trim_space (tk_title u) \<notin> (\<lambda>t. trim_space (tk_title t)) ` set ts" using Cons.prems(1) by simp
  then have ne: "\<forall>v \<in> set ts. trim_space (tk_title v) \<noteq> trim_space (tk_title u)" by (metis image_eqI)
  show ?case
  proof (cases "t = u")
    case True
    then show ?thesis using by_title_other [OF u, of ?m] e by simp
  next
    case False
    have "by_title {} ?m ts (trim_space (tk_title t)) = Some (tk_id t)"
      using Cons.prems False ne by (intro Cons.IH) simp_all
    then show ?thesis using e by simp
  qed
qed simp

text \<open>The ids of a snapshot. It is refused exactly when two of its tasks were sent with the same id;
  otherwise each task keeps its id if it had one, nothing but ids changes, and the stored ids are
  non-empty and all different, whatever the earlier snapshot was. A plan resent without ids, when its
  titles are different, gets back exactly the ids it had.\<close>
theorem TaskIDs_distinct:
  assumes "distinct (map tk_id prev)"
  shows "((\<exists>err. TaskIDs prev incoming = Inl err) \<longleftrightarrow> \<not> distinct (filter (\<lambda>i. i \<noteq> []) (map tk_id incoming))) \<and>
     (TaskIDs prev incoming = Inr ts \<longrightarrow> list_all2 same_but_id incoming ts) \<and>
     (TaskIDs prev incoming = Inr ts \<longrightarrow> id_room prev incoming \<longrightarrow> distinct (map tk_id ts)) \<and>
     (distinct (map (\<lambda>t. trim_space (tk_title t)) prev) \<longrightarrow> [] \<notin> set (map tk_id prev) \<longrightarrow> TaskIDs prev (map (\<lambda>t. t\<lparr>tk_id := []\<rparr>) prev) = Inr prev)"
proof -
  have c1: "(\<exists>err. TaskIDs prev incoming = Inl err) \<longleftrightarrow> \<not> distinct (filter (\<lambda>i. i \<noteq> []) (map tk_id incoming))" and c2: "TaskIDs prev incoming = Inr ts \<Longrightarrow> list_all2 same_but_id incoming ts" and c3: "TaskIDs prev incoming = Inr ts \<Longrightarrow> id_room prev incoming \<Longrightarrow> distinct (map tk_id ts)" and c4: "distinct (map (\<lambda>t. trim_space (tk_title t)) prev) \<Longrightarrow> [] \<notin> set (map tk_id prev) \<Longrightarrow>
      TaskIDs prev (map (\<lambda>t. t\<lparr>tk_id := []\<rparr>) prev) = Inr prev"
  proof -
    have "(\<exists>err. TaskIDs prev incoming = Inl err) \<longleftrightarrow> (\<exists>err. seen_ids {} (prev_seq prev) incoming = Inl err)"
      by (auto simp: TaskIDs_def split: sum.split)
    then show "(\<exists>err. TaskIDs prev incoming = Inl err) \<longleftrightarrow> \<not> distinct (filter (\<lambda>i. i \<noteq> []) (map tk_id incoming))"
      using seen_ids_Inl [of "{}" "prev_seq prev" incoming] by (simp add: own_ids_def)
    show "TaskIDs prev incoming = Inr ts \<Longrightarrow> list_all2 same_but_id incoming ts"
      using assign_ids_same by (auto elim: TaskIDs_cases)
    show "TaskIDs prev incoming = Inr ts \<Longrightarrow> id_room prev incoming \<Longrightarrow> distinct (map tk_id ts)"
      using assms by (rule TaskIDs_distinct_gen [rotated])
  next
    assume t: "distinct (map (\<lambda>t. trim_space (tk_title t)) prev)" "[] \<notin> set (map tk_id prev)"
    have "seen_ids {} n (map (\<lambda>t. t\<lparr>tk_id := []\<rparr>) ts) = Inr ({}, n)" for n and ts :: "Task list" by (induction ts) simp_all
    moreover have "\<forall>t \<in> set prev. by_title {} Map.empty prev (trim_space (tk_title t)) = Some (tk_id t) \<and> tk_id t \<noteq> []"
      using t by (force intro: by_title_find)
    ultimately show "TaskIDs prev (map (\<lambda>t. t\<lparr>tk_id := []\<rparr>) prev) = Inr prev"
      using resent_keeps [OF t(1), of "by_title {} Map.empty prev" "prev_seq prev"] by (simp add: TaskIDs_def)
  qed
  from c1 c2 c3 c4 show ?thesis by blast
qed

definition sample_task :: "string \<Rightarrow> string \<Rightarrow> string \<Rightarrow> Task" where
  "sample_task i t st = task_zero\<lparr>tk_id := i, tk_title := t, tk_status := st\<rparr>"

lemma TaskIDs_distinct_witness:
  "TaskIDs [sample_task ''t3'' ''a'' ''done'', sample_task ''x'' ''b'' ''done'']
     (map (\<lambda>t. t\<lparr>tk_id := []\<rparr>) [sample_task ''t3'' ''a'' ''done'', sample_task ''x'' ''b'' ''done'']) =
   Inr [sample_task ''t3'' ''a'' ''done'', sample_task ''x'' ''b'' ''done'']"
proof (rule TaskIDs_distinct [THEN conjunct2, THEN conjunct2, THEN conjunct2, THEN mp, THEN mp])
  show "distinct (map (\<lambda>t. trim_space (tk_title t)) [sample_task ''t3'' ''a'' ''done'', sample_task ''x'' ''b'' ''done''])"
    by code_simp
qed (simp_all add: sample_task_def)

text \<open>The id of the last passing check of a task, none if there is none.\<close>

definition passes :: "string \<Rightarrow> Event \<Rightarrow> bool" where
  "passes task e \<longleftrightarrow>
     ev_type e = ''check'' \<and> (\<exists>c. MustData as_check e = Some c \<and> ck_task c = task \<and> ck_status c = ''pass'')"

definition last_pass :: "Event list \<Rightarrow> string \<Rightarrow> string \<Rightarrow> bool" where
  "last_pass log task i \<longleftrightarrow>
     (\<exists>pre e post. log = pre @ e # post \<and> passes task e \<and> list_all (\<lambda>x. \<not> passes task x) post \<and> i = ev_id e) \<or>
     i = [] \<and> list_all (\<lambda>x. \<not> passes task x) log"

lemma latestPassingCheck_last: "last_pass log task (latestPassingCheck log task)"
proof (induction log rule: rev_induct)
  case (snoc e log)
  have p: "passes task e \<longleftrightarrow> ev_type e = ''check'' \<and>
      (case MustData as_check e of None \<Rightarrow> False | Some c \<Rightarrow> ck_task c = task \<and> ck_status c = ''pass'')"
    by (auto simp: passes_def split: option.split)
  show ?case
  proof (cases "passes task e")
    case True
    then have "latestPassingCheck (log @ [e]) task = ev_id e" using p by (simp add: latestPassingCheck_def)
    with True show ?thesis unfolding last_pass_def
      by (intro disjI1 exI [of _ log] exI [of _ e] exI [of _ "[]"]) simp
  next
    case False
    then have "latestPassingCheck (log @ [e]) task = latestPassingCheck log task"
      using p by (auto simp: latestPassingCheck_def)
    with snoc False show ?thesis unfolding last_pass_def
      by (elim disjE exE conjE) (force, simp)
  qed
qed (simp add: last_pass_def latestPassingCheck_def)

lemma Merge_Inr:
  assumes "Merge prev incoming log source = Inr d"
  obtains ts where "incoming \<noteq> []" "TaskIDs (td_tasks prev) incoming = Inr ts"
    "list_all2 (\<lambda>u t. merge_task (prev_by_id (td_tasks prev)) log u = Inr t) ts (td_tasks d)"
    "td_revision d = add64 (td_revision prev) 1" "td_source d = source"
  using assms by (auto simp: Merge_def split: if_splits sum.splits dest!: merge_tasks_Inr)

lemma list_all2_witness: "list_all2 P xs ys \<Longrightarrow> y \<in> set ys \<Longrightarrow> \<exists>x \<in> set xs. P x y"
  by (induction xs ys rule: list_all2_induct) auto

lemma merged_task:
  assumes "list_all2 (\<lambda>u t. merge_task by_id log u = Inr t) ts ds" "t \<in> set ds"
  shows "tk_title t \<noteq> [] \<and> isTaskStatus (tk_status t) \<and> tk_blocked t \<noteq> None \<and>
    tk_evidence t = evidence_of log (by_id (tk_id t)) t \<and> (\<exists>u \<in> set ts. tk_id t = tk_id u)"
proof -
  obtain u where u: "u \<in> set ts" "merge_task by_id log u = Inr t"
    using list_all2_witness [OF assms] by blast
  from merge_task_Inr [OF u(2)] u(1) evidence_of_cong [of t u] show ?thesis by auto
qed

lemma merged_ids: "list_all2 (\<lambda>u t. merge_task by_id log u = Inr t) ts ds \<Longrightarrow> map tk_id ds = map tk_id ts"
  by (induction ts ds rule: list_all2_induct) (auto dest: merge_task_Inr)

text \<open>C23: Evidence comes from the log, never from the sender. In a snapshot that \<open>Merge\<close> made, a task that
  is not done has no evidence; a done one has the evidence it had when it was done before, or else the
  id of the last passing check of that task in the log, or none if there is no such check.\<close>
theorem Merge_evidence:
  assumes "Merge prev incoming log source = Inr d" "t \<in> set (td_tasks d)"
  shows "if tk_status t \<noteq> ''done'' then tk_evidence t = []
    else (\<exists>p \<in> set (td_tasks prev). tk_id p = tk_id t \<and> tk_status p = ''done'' \<and> tk_evidence p \<noteq> [] \<and> tk_evidence t = tk_evidence p) \<or>
      last_pass log (tk_id t) (tk_evidence t)"
proof -
  obtain ts where "list_all2 (\<lambda>u t. merge_task (prev_by_id (td_tasks prev)) log u = Inr t) ts (td_tasks d)"
    using assms(1) by (rule Merge_Inr)
  then have ev: "tk_evidence t = evidence_of log (prev_by_id (td_tasks prev) (tk_id t)) t"
    using merged_task assms(2) by blast
  show ?thesis
  proof (cases "prev_by_id (td_tasks prev) (tk_id t)")
    case None
    then show ?thesis using ev latestPassingCheck_last by (simp add: evidence_of_def)
  next
    case (Some p)
    then show ?thesis using ev prev_by_id_in [OF Some] latestPassingCheck_last [of log "tk_id t"]
      by (cases "tk_status p = ''done'' \<and> tk_evidence p \<noteq> []") (auto simp: evidence_of_def)
  qed
qed

lemma sample_merge:
  "Merge tasks_zero [sample_task [] ''a'' ''pending''] log ''model'' =
     Inr \<lparr>td_revision = 1, td_source = ''model'', td_tasks = [(sample_task ''t1'' ''a'' ''pending'')\<lparr>tk_blocked := Some []\<rparr>]\<rparr>"
proof -
  have "TaskIDs [] [sample_task [] ''a'' ''pending''] = Inr [sample_task ''t1'' ''a'' ''pending'']"
    by code_simp
  moreover have "merge_task Map.empty log (sample_task ''t1'' ''a'' ''pending'') =
      Inr ((sample_task ''t1'' ''a'' ''pending'')\<lparr>tk_blocked := Some []\<rparr>)"
  proof -
    have "trim_space ''a'' \<noteq> []" by code_simp
    then show ?thesis
      by (simp add: merge_task_def sample_task_def isTaskStatus_def carry_over_def evidence_of_def task_zero_def)
  qed
  ultimately show ?thesis
    by (simp add: Merge_def tasks_zero_def prev_by_id_def add64_def wrap64_def)
qed

lemma Merge_evidence_witness:
  "tk_evidence ((sample_task ''t1'' ''a'' ''pending'')\<lparr>tk_blocked := Some []\<rparr>) = []"
  using Merge_evidence [OF sample_merge [of "[]"]] by (simp add: sample_task_def)

lemma evidence_of_ok:
  assumes "ValidateLog log = None" "\<And>q. p = Some q \<Longrightarrow> tk_evidence q = [] \<or> ValidateULID (tk_evidence q) = None"
  shows "evidence_of log p t = [] \<or> ValidateULID (evidence_of log p t) = None"
  using latestPassingCheck_in [OF assms(1)] assms(2) by (cases p) (auto simp: evidence_of_def)

text \<open>What \<open>Merge\<close> accepts, the log accepts. Made from the last snapshot of a valid log, with a known
  source and numbers that fit, the new snapshot has the next revision and passes the validation of a
  tasks event; so appending it to an open session succeeds when the write does, and the session's last
  snapshot is then the merged one.\<close>
theorem Merge_appends:
  assumes "ValidateLog (se_events s) = None" "\<not> se_closed s"
    and "Merge (latestTasks (se_events s)) incoming (se_events s) source = Inr d" "isSource source True"
    and "td_revision (latestTasks (se_events s)) < int64_max"
    and "id_room (td_tasks (latestTasks (se_events s))) incoming"
    and "en_write en = Wrote"
  shows "td_revision d = td_revision (latestTasks (se_events s)) + 1 \<and> validate_tasks d = None \<and>
    (\<exists>e s'. Append en ''tasks'' (Inr (enc_payload (DTasks d))) s = (Inr e, s') \<and>
       latestTasks (se_events s') = d)"
proof -
  let ?log = "se_events s"
  let ?p = "latestTasks ?log"
  obtain ts where m: "TaskIDs (td_tasks ?p) incoming = Inr ts"
    "list_all2 (\<lambda>u t. merge_task (prev_by_id (td_tasks ?p)) ?log u = Inr t) ts (td_tasks d)"
    "td_revision d = add64 (td_revision ?p) 1" "td_source d = source"
    using assms(3) by (rule Merge_Inr)
  have p: "?p = tasks_zero \<or> validate_tasks ?p = None" using assms(1) by (rule latestTasks_valid)
  then have r: "0 \<le> td_revision ?p" "distinct (map tk_id (td_tasks ?p))"
    "\<forall>t \<in> set (td_tasks ?p). tk_evidence t = [] \<or> ValidateULID (tk_evidence t) = None"
    by (auto simp: tasks_zero_def validate_tasks_def validate_task_list_None split: if_splits)
  have rev: "td_revision d = td_revision ?p + 1" "int64_ok (td_revision d)"
    using m(3) r(1) assms(5) by (simp_all add: add64_def wrap64_id int64_ok_def int64_min_def)
  have same: "list_all2 same_but_id incoming ts" using m(1) assign_ids_same by (auto elim: TaskIDs_cases)
  have ids: "distinct (map tk_id ts)" using TaskIDs_distinct_gen [OF m(1) r(2) assms(6)] .
  have ne: "tk_id u \<noteq> []" if "u \<in> set ts" for u
    using list_all2_witness [OF same that] by (auto simp: same_but_id_def)
  have ev: "tk_evidence t = [] \<or> ValidateULID (tk_evidence t) = None" if "t \<in> set (td_tasks d)" for t
  proof -
    have "tk_evidence q = [] \<or> ValidateULID (tk_evidence q) = None" if "prev_by_id (td_tasks ?p) (tk_id t) = Some q" for q
      by (rule r(3) [THEN bspec, OF prev_by_id_in [OF that, THEN conjunct1]])
    then show ?thesis using merged_task [OF m(2) that] evidence_of_ok [OF assms(1)] by simp
  qed
  have "tk_id t \<noteq> [] \<and> tk_title t \<noteq> [] \<and> isTaskStatus (tk_status t) \<and> tk_blocked t \<noteq> None \<and>
      (tk_evidence t = [] \<or> ValidateULID (tk_evidence t) = None)" if "t \<in> set (td_tasks d)" for t
    using merged_task [OF m(2) that] ne ev [OF that] by metis
  then have "validate_task_list {} (td_tasks d) = None"
    unfolding validate_task_list_None merged_ids [OF m(2)] using ids by simp
  then have v: "validate_tasks d = None" using rev(1) r(1) m(4) assms(4) by (simp add: validate_tasks_def)
  have "?log \<noteq> []" using assms(1) by (auto simp: ValidateLog_def)
  then obtain e where e: "new_event en ?log ''tasks'' (enc_payload (DTasks d)) = Inr e"
    "ev_type e = ''tasks''" "ev_data e = Some (enc_payload (DTasks d))"
    by (simp add: new_event_def Let_def)
  have ok: "payload_ok (DTasks d)" using rev(2) by (simp add: tasks_ok_def)
  have "DecodeData e = Inr (DTasks d)" using ok e(2,3) by (intro DecodeData_payload) simp_all
  then have "latestTasks (?log @ [e]) = d" using e(2) by (simp add: latestTasks_def MustData_def as_tasks_def)
  moreover have "append_locked en ''tasks'' (Inr (enc_payload (DTasks d))) s =
      (Inr e, s\<lparr>se_file := file_write Wrote e (se_file s), se_events := ?log @ [e], se_pending := Some e\<rparr>)"
    using append_ok [OF assms(2) e(1) assms(7) ok] v by simp
  ultimately show ?thesis using rev(1) v by (auto simp: Append_def)
qed

lemma Merge_appends_witness:
  "\<exists>e s'. Append (sample_env Wrote) ''tasks'' (Inr (enc_payload (DTasks \<lparr>td_revision = 1, td_source = ''model'',
       td_tasks = [(sample_task ''t1'' ''a'' ''pending'')\<lparr>tk_blocked := Some []\<rparr>]\<rparr>))) (snd sample_created) = (Inr e, s')"
proof -
  obtain e where c: "session_reach (snd sample_created)" "se_events (snd sample_created) = [e]" "ev_type e = ''session''"
    "\<not> se_closed (snd sample_created)" using sample_created_ok by metis
  have l: "latestTasks (se_events (snd sample_created)) = tasks_zero" using c(2,3) by (simp add: latestTasks_def find_last_def)
  have v: "ValidateLog (se_events (snd sample_created)) = None"
    using session_reach_inv [OF c(1)] by (simp add: session_inv_def)
  have m: "Merge (latestTasks (se_events (snd sample_created))) [sample_task [] ''a'' ''pending''] (se_events (snd sample_created)) ''model'' =
     Inr \<lparr>td_revision = 1, td_source = ''model'', td_tasks = [(sample_task ''t1'' ''a'' ''pending'')\<lparr>tk_blocked := Some []\<rparr>]\<rparr>"
    unfolding l by (rule sample_merge)
  have r: "id_room [] [sample_task [] ''a'' ''pending'']"
    by (simp add: id_room_def maxSeq_def has_prefix_def sample_task_def int64_max_def)
  show ?thesis
    by (insert Merge_appends [OF v c(4) m, of "sample_env Wrote"])
       (simp only: l tasks_zero_def TasksData.simps r isSource_def int64_max_def sample_env_write, fastforce)
qed

end
