(* ===== verification/Agent_Ops.thy ===== *)
theory Agent_Ops
  imports Task_List "HOL-Library.Monad_Syntax"
begin

text \<open>
  \<open>daemon/agent/manager.go\<close> and \<open>handle.go\<close>: what is done to a live session, each operation a whole
  handler over the session and its runtime. An \<open>Agent\<close> is one entry of the manager's map with its
  session; the clocks, random reads and write results of its appends are the sequence \<open>ag_env\<close>, of
  which \<open>ag_n\<close> have been used. The loop's goroutine is the flag \<open>ag_running\<close>: \<open>ensureRunning\<close> sets it,
  \<open>loop_exit\<close> is its last statement, and \<open>stop_running\<close> is the wait for it. \<open>ag_disabled\<close> is the registry's
  entry for the session and \<open>ag_halted\<close> the handle's signal. Each definition is one handler
  from its first statement to its last, with nothing of another in between; \<open>compactMu\<close> and \<open>mu\<close> give that only
  to the part of a handler they guard, and of a prompt the check for a known client id comes before the lock.
  The hooks of modules are parameters here; the theory of the registry provides them. \<^term>\<open>None\<close> is the panic of \<open>MustData\<close>.

  The lemmas show that every operation only extends the log by valid events, what each does to the
  projected state, and that a session that has ended takes no prompt.
\<close>

record Agent =
  ag_s :: Session
  ag_env :: "nat \<Rightarrow> Env"
  ag_n :: nat
  ag_running :: bool
  ag_closed :: bool
  ag_disabled :: "string set"
  ag_halted :: "string option"

datatype fault = Rpc RPCError | Plain err

record ReportFields =
  rf_files :: "string list"
  rf_commits :: "string list"
  rf_dirty :: "bool option"
  rf_checks :: "ReportCheck list"

text \<open>What modules do at a hook: they may append to the session, and answer.\<close>

record Hooks =
  hk_session_end :: "Agent \<Rightarrow> Agent"
  hk_resume :: "Agent \<Rightarrow> Agent"
  hk_report :: "Agent \<Rightarrow> ReportFields \<times> Agent"

abbreviation CodeInvalidTransition :: int where "CodeInvalidTransition \<equiv> -32002"
abbreviation CodeInvalidParams :: int where "CodeInvalidParams \<equiv> -32602"

abbreviation ag_log :: "Agent \<Rightarrow> Event list" where "ag_log a \<equiv> se_events (ag_s a)"

section \<open>Appending\<close>

definition h_append :: "event_data \<Rightarrow> Agent \<Rightarrow> (err + Event) \<times> Agent" where
  "h_append p a =
     (case Append (ag_env a (ag_n a)) (payload_type p) (Inr (enc_payload p)) (ag_s a) of
        (r, s) \<Rightarrow> (r, a\<lparr>ag_s := s, ag_n := ag_n a + 1\<rparr>))"

definition h_state :: "Agent \<Rightarrow> State option" where
  "h_state a = Project (ag_log a)"

text \<open>The error an operation passes on.\<close>

definition plain :: "err + 'a \<Rightarrow> fault + 'a" where
  "plain r = (case r of Inl e \<Rightarrow> Inl (Plain e) | Inr x \<Rightarrow> Inr x)"

definition refuse :: "int \<Rightarrow> string \<Rightarrow> fault + 'a" where
  "refuse code msg = Inl (Rpc (NewRPCError code msg))"

text \<open>\<open>sessionHandle.Append\<close>: what a module may append.\<close>

definition handle_append :: "event_data \<Rightarrow> Agent \<Rightarrow> (err + Event) \<times> Agent" where
  "handle_append p a =
     (case p of
        DCheck _ \<Rightarrow> h_append p a
      | DNotice _ \<Rightarrow> h_append p a
      | DGoal g \<Rightarrow>
          if gl_state g \<in> {''met'', ''unmet'', ''impossible''} then h_append p a
          else (Inl (''modules may only append goal verdicts (met|unmet|impossible), not '' @ fmt_q (gl_state g)), a)
      | _ \<Rightarrow> (Inl (''modules may not append '' @ payload_type p @ '' events''), a))"

definition notice :: "string \<Rightarrow> string \<Rightarrow> event_data" where
  "notice level msg = DNotice \<lparr>nt_source = ''daemon'', nt_level = level, nt_message = msg\<rparr>"

text \<open>\<open>plural\<close>.\<close>

definition plural :: "int \<Rightarrow> string \<Rightarrow> string" where
  "plural n noun = itoa n @ '' '' @ noun @ (if n = 1 then [] else ''s'')"

section \<open>Changing the state\<close>

definition change_state :: "string \<Rightarrow> string \<Rightarrow> Agent \<Rightarrow> ((err + Event) \<times> Agent) option" where
  "change_state to reason a = do {
     st \<leftarrow> h_state a;
     Some (h_append (DStateChange \<lparr>sc_from = Some (pr_state st), sc_to = to, sc_reason = reason\<rparr>) a)
   }"

definition ensureRunning :: "string \<Rightarrow> Agent \<Rightarrow> Agent option" where
  "ensureRunning reason a =
     (if ag_closed a \<or> ag_running a then Some a
      else do {
        (r, a') \<leftarrow> change_state ''running'' reason a;
        Some (case r of Inl _ \<Rightarrow> a' | Inr _ \<Rightarrow> a'\<lparr>ag_running := True\<rparr>)
      })"

definition loop_exit :: "Agent \<Rightarrow> Agent" where
  "loop_exit a = a\<lparr>ag_running := False\<rparr>"

definition stop_running :: "Agent \<Rightarrow> Agent" where
  "stop_running a = (if ag_running a then loop_exit a else a)"

definition toIdle :: "string \<Rightarrow> Agent \<Rightarrow> ((err + unit) \<times> Agent) option" where
  "toIdle reason a = do {
     st \<leftarrow> h_state a;
     if pr_state st = ''idle'' then Some (Inr (), a)
     else do {
       (r, a') \<leftarrow> change_state ''idle'' reason a;
       Some (case r of Inl e \<Rightarrow> (Inl e, a') | Inr _ \<Rightarrow> (Inr (), a'))
     }
   }"

text \<open>The checks of a log, in order; a check that does not decode panics.\<close>

fun report_checks :: "Event list \<Rightarrow> ReportCheck list option" where
  "report_checks [] = Some []"
| "report_checks (e # es) =
     (if ev_type e \<noteq> ''check'' then report_checks es
      else do {
        c \<leftarrow> MustData as_check e;
        cs \<leftarrow> report_checks es;
        Some (\<lparr>rk_name = ck_name c, rk_status = ck_status c, rk_summary = ck_summary c\<rparr> # cs)
      })"

definition emitReport :: "Hooks \<Rightarrow> string \<Rightarrow> Agent \<Rightarrow> ((err + unit) \<times> Agent) option" where
  "emitReport hk exit a = do {
     st \<leftarrow> h_state a;
     checks \<leftarrow> report_checks (ag_log a);
     let (f, a1) = hk_report hk a;
         r = \<lparr>rp_exit = exit,
              rp_goal = map_option (\<lambda>g. \<lparr>rg_condition = gl_condition g, rg_state = gl_state g, rg_reason = gl_reason g\<rparr>) (pr_goal st),
              rp_tasks = \<lparr>rt_total = int (length (pr_tasks st)), rt_done = DoneTasks st,
                rt_open = Some (map (\<lambda>t. \<lparr>rr_id = tk_id t, rr_title = tk_title t, rr_status = tk_status t\<rparr>) (OpenTasks st))\<rparr>,
              rp_checks = Some (checks @ rf_checks f), rp_files = rf_files f, rp_commits = rf_commits f, rp_dirty = rf_dirty f\<rparr>
     in Some (case h_append (DReport r) a1 of (Inl e, a2) \<Rightarrow> (Inl e, a2) | (Inr _, a2) \<Rightarrow> (Inr (), a2))
   }"

definition finish :: "Hooks \<Rightarrow> string \<Rightarrow> string \<Rightarrow> Agent \<Rightarrow> ((err + unit) \<times> Agent) option" where
  "finish hk to reason a0 = do {
     let a = hk_session_end hk a0;
     st \<leftarrow> h_state a;
     (r, a1) \<leftarrow> emitReport hk to a;
     (case r of
        Inl e \<Rightarrow> Some (Inl e, a1)
      | Inr _ \<Rightarrow>
          if pr_state st = to then Some (Inr (), a1)
          else Some (case h_append (DStateChange \<lparr>sc_from = Some (pr_state st), sc_to = to, sc_reason = reason\<rparr>) a1 of
                       (Inl e, a2) \<Rightarrow> (Inl e, a2) | (Inr _, a2) \<Rightarrow> (Inr (), a2)))
   }"

section \<open>Prompts\<close>

text \<open>The message a client id already produced.\<close>

definition promptFor :: "Event list \<Rightarrow> string \<Rightarrow> Event option" where
  "promptFor log client =
     List.find (\<lambda>e. ev_type e = ''message'' \<and>
       (case MustData as_message e of None \<Rightarrow> False | Some d \<Rightarrow> msg_client d = client)) log"

definition prompt_append :: "string \<Rightarrow> string \<Rightarrow> Agent \<Rightarrow> ((fault + Event) \<times> Agent) option" where
  "prompt_append content client a =
     (case h_append (DMessage \<lparr>msg_role = ''user'', msg_content = content, msg_client = client,
             msg_usage = None, msg_interrupted = False\<rparr>) a of
        (Inl e, a1) \<Rightarrow> Some (Inl (Plain e), a1)
      | (Inr e, a1) \<Rightarrow> do { a2 \<leftarrow> ensureRunning ''prompt'' a1; Some (Inr e, a2) })"

text \<open>Before the lock \<open>compactMu\<close>: whether the client id has been seen. Under it: whether the state takes a prompt.\<close>

definition prompt_seen :: "Event list \<Rightarrow> string \<Rightarrow> Event option" where
  "prompt_seen log client = (if client \<noteq> [] then promptFor log client else None)"

definition prompt_refusal :: "State \<Rightarrow> RPCError option" where
  "prompt_refusal st =
     (if pr_state st = ''paused''
      then Some (NewRPCError CodeInvalidTransition ''session is paused; resume it first'')
      else if pr_state st = ''completed'' \<or> pr_state st = ''error''
      then Some (NewRPCError CodeInvalidTransition (''session has ended ('' @ pr_state st @ ''); start a new session instead''))
      else None)"

text \<open>A call with nothing in between; the theory of prompts lets other goroutines in.\<close>

definition PromptWithID :: "string \<Rightarrow> string \<Rightarrow> Agent \<Rightarrow> ((fault + Event) \<times> Agent) option" where
  "PromptWithID content client a =
     (case prompt_seen (ag_log a) client of
        Some e \<Rightarrow> Some (Inr e, a)
      | None \<Rightarrow> do {
          st \<leftarrow> h_state a;
          (case prompt_refusal st of
             Some err \<Rightarrow> Some (Inl (Rpc err), a)
           | None \<Rightarrow> prompt_append content client a)
        })"

definition Prompt :: "string \<Rightarrow> Agent \<Rightarrow> ((fault + Event) \<times> Agent) option" where
  "Prompt content a = PromptWithID content [] a"

section \<open>Goal, status, budget\<close>

definition SetGoal :: "string \<Rightarrow> Agent \<Rightarrow> ((fault + Event) \<times> Agent) option" where
  "SetGoal condition a =
     (if trim_space condition = [] then Some (refuse CodeInvalidParams ''condition is required'', a)
      else (case h_append (DGoal \<lparr>gl_condition = condition, gl_state = ''set'', gl_reason = [], gl_source = ''client''\<rparr>) a of
              (Inl e, a1) \<Rightarrow> Some (Inl (Plain e), a1)
            | (Inr e, a1) \<Rightarrow> do {
                st \<leftarrow> h_state a1;
                a2 \<leftarrow> (if pr_state st = ''idle'' then ensureRunning ''goal'' a1 else Some a1);
                Some (Inr e, a2)
              }))"

definition ClearGoal :: "Agent \<Rightarrow> ((fault + Event) \<times> Agent) option" where
  "ClearGoal a = do {
     st \<leftarrow> h_state a;
     (case pr_goal st of
        Some g \<Rightarrow>
          if GoalActive st
          then (case h_append (DGoal \<lparr>gl_condition = gl_condition g, gl_state = ''cleared'', gl_reason = [], gl_source = ''client''\<rparr>) a of
                  (r, a1) \<Rightarrow> Some (plain r, a1))
          else Some (refuse CodeInvalidTransition ''no active goal'', a)
      | None \<Rightarrow> Some (refuse CodeInvalidTransition ''no active goal'', a))
   }"

definition SetStatus :: "string \<Rightarrow> json option \<Rightarrow> Agent \<Rightarrow> (fault + Event) \<times> Agent" where
  "SetStatus kind data a =
     (let d = \<lparr>st_source = ''client'', st_kind = kind, st_data = data\<rparr> in
      case ValidateStatus d of
        Some e \<Rightarrow> (refuse CodeInvalidParams e, a)
      | None \<Rightarrow> (case h_append (DStatus d) a of (r, a1) \<Rightarrow> (plain r, a1)))"

definition SetBudget :: "BudgetData \<Rightarrow> Agent \<Rightarrow> (fault + Event) \<times> Agent" where
  "SetBudget b a =
     (case h_append (DBudget (if bd_source b = [] then b\<lparr>bd_source := ''client''\<rparr> else b)) a of
        (r, a1) \<Rightarrow> (plain r, a1))"

section \<open>Options\<close>

text \<open>A decoded JSON value as a list of strings.\<close>

fun str_of :: "json \<Rightarrow> string option" where
  "str_of (JStr s) = Some s" | "str_of _ = None"

fun all_strs :: "json list \<Rightarrow> string list option" where
  "all_strs [] = Some []"
| "all_strs (v # vs) = do { s \<leftarrow> str_of v; ss \<leftarrow> all_strs vs; Some (s # ss) }"

fun stringList :: "json \<Rightarrow> string list option" where
  "stringList (JArr vs) = all_strs vs" | "stringList _ = None"

text \<open>The switch of \<open>SetOption\<close>: the option's value before, as JSON, and the refusal of a bad one.\<close>

definition option_from :: "string \<Rightarrow> json \<Rightarrow> Options \<Rightarrow> fault + json" where
  "option_from key v op =
     (if key = ''model'' then
        (if str_of v = None then refuse CodeInvalidParams ''model must be a string'' else Inr (JStr (op_model op)))
      else if key = ''compaction_enabled'' then
        (case v of JBool _ \<Rightarrow> Inr (JBool (op_compaction op))
         | _ \<Rightarrow> refuse CodeInvalidParams ''compaction_enabled must be a boolean'')
      else if key = ''permission_mode'' then
        (if str_of v \<in> {Some ''ask'', Some ''auto'', Some ''bypass''} then Inr (JStr (op_mode op))
         else refuse CodeInvalidParams ''permission_mode must be ask, auto or bypass'')
      else if key = ''labels'' then
        (case stringList v of
           None \<Rightarrow> refuse CodeInvalidParams ''labels must be an array of strings''
         | Some ls \<Rightarrow>
             (case ValidLabels ls of Some e \<Rightarrow> refuse CodeInvalidParams e | None \<Rightarrow> Inr (enc_strs (op_labels op))))
      else if key = ''description'' then
        (case str_of v of
           None \<Rightarrow> refuse CodeInvalidParams ''description must be a string''
         | Some d \<Rightarrow>
             (case ValidDescription d of Some e \<Rightarrow> refuse CodeInvalidParams e | None \<Rightarrow> Inr (JStr (op_description op))))
      else if key = ''context'' then
        (case str_of v of
           Some sz \<Rightarrow>
             if sz = [] \<or> ValidContext sz \<noteq> None then refuse CodeInvalidParams ''context must be normal or large''
             else Inr (JStr (if op_context op = [] then ''normal'' else op_context op))
         | None \<Rightarrow> refuse CodeInvalidParams ''context must be normal or large'')
      else if key = ''effort'' then
        (case str_of v of
           Some ef \<Rightarrow>
             if ValidEffort ef \<noteq> None
             then refuse CodeInvalidParams ''effort must be none, low, medium, high, xhigh, max or empty''
             else Inr (JStr (op_effort op))
         | None \<Rightarrow> refuse CodeInvalidParams ''effort must be none, low, medium, high, xhigh, max or empty'')
      else if key = ''parent'' then refuse CodeInvalidParams ''parent is set at creation and never changes''
      else refuse CodeInvalidParams (''unknown option '' @ key))"

definition bypass_notice :: event_data where
  "bypass_notice = notice ''warn'' ''permission_mode set to bypass: every tool call is approved without asking''"

definition SetOption :: "string \<Rightarrow> json \<Rightarrow> Agent \<Rightarrow> ((fault + Event) \<times> Agent) option" where
  "SetOption key v a = do {
     st \<leftarrow> h_state a;
     (case option_from key v (pr_options st) of
        Inl f \<Rightarrow> Some (Inl f, a)
      | Inr old \<Rightarrow>
          (case h_append (DOptionsChange \<lparr>oc_key = key, oc_from = Some old, oc_to = Some v, oc_source = ''client''\<rparr>) a of
             (Inl e, a1) \<Rightarrow> Some (Inl (Plain e), a1)
           | (Inr e, a1) \<Rightarrow>
               Some (Inr e, if key = ''permission_mode'' \<and> v = JStr ''bypass'' then snd (h_append bypass_notice a1) else a1)))
   }"

section \<open>Tasks\<close>

definition prev_tasks :: "Event list \<Rightarrow> TasksData option" where
  "prev_tasks log =
     (case find_last (\<lambda>e. ev_type e = ''tasks'') log of None \<Rightarrow> Some tasks_zero | Some e \<Rightarrow> MustData as_tasks e)"

definition UpdateTasks :: "Task list \<Rightarrow> string \<Rightarrow> Agent \<Rightarrow> ((err + TasksData) \<times> Agent) option" where
  "UpdateTasks incoming source a = do {
     prev \<leftarrow> prev_tasks (ag_log a);
     (case Merge prev incoming (ag_log a) source of
        Inl e \<Rightarrow> Some (Inl e, a)
      | Inr d \<Rightarrow> (case h_append (DTasks d) a of (Inl e, a1) \<Rightarrow> Some (Inl e, a1) | (Inr _, a1) \<Rightarrow> Some (Inr d, a1)))
   }"

section \<open>Interrupting, stopping, resuming, shutting down\<close>

definition Interrupt :: "Agent \<Rightarrow> ((err + unit) \<times> Agent) option" where
  "Interrupt a = toIdle ''interrupted'' (stop_running a)"

definition Stop :: "Hooks \<Rightarrow> Agent \<Rightarrow> ((err + unit) \<times> Agent) option" where
  "Stop hk a0 = do {
     let a = stop_running a0;
     st \<leftarrow> h_state a;
     if pr_state st = ''completed'' \<or> pr_state st = ''error'' then Some (Inr (), a)
     else finish hk ''completed'' ''stopped'' a
   }"

definition Resume_session :: "Hooks \<Rightarrow> BudgetData option \<Rightarrow> Agent \<Rightarrow> ((fault + unit) \<times> Agent) option" where
  "Resume_session hk budget a = do {
     st \<leftarrow> h_state a;
     if pr_state st \<noteq> ''paused'' then Some (refuse CodeInvalidTransition ''session is not paused'', a)
     else
       (case (case budget of None \<Rightarrow> (Inr (), a) | Some b \<Rightarrow> (case SetBudget b a of (Inl f, a1) \<Rightarrow> (Inl f, a1) | (Inr _, a1) \<Rightarrow> (Inr (), a1))) of
          (Inl f, a1) \<Rightarrow> Some (Inl f, a1)
        | (Inr _, a1) \<Rightarrow> do { a2 \<leftarrow> ensureRunning ''resumed'' (hk_resume hk a1); Some (Inr (), a2) })
   }"

text \<open>\<open>Shutdown\<close> for one session of the map.\<close>

definition Shutdown :: "Agent \<Rightarrow> Agent option" where
  "Shutdown a0 =
     (if ag_closed a0 then Some a0
      else if \<not> ag_running a0 then Some (a0\<lparr>ag_closed := True\<rparr>)
      else do {
        let a = stop_running (a0\<lparr>ag_closed := True\<rparr>);
        st \<leftarrow> h_state a;
        if pr_state st \<noteq> ''running'' then Some a
        else (let a1 = snd (h_append (notice ''warn'' ''daemon is shutting down; session paused'') a) in
              Some (snd (h_append (DStateChange \<lparr>sc_from = Some ''running'', sc_to = ''paused'', sc_reason = ''daemon_shutdown''\<rparr>) a1)))
      })"

section \<open>Creating a session\<close>

record CreateOptions =
  co_model :: string
  co_mode :: string
  co_compaction :: "bool option"
  co_parent :: string
  co_labels :: "string list"
  co_description :: string
  co_context :: string
  co_effort :: string

definition resolve_options :: "CreateOptions \<Rightarrow> string \<Rightarrow> Options" where
  "resolve_options co default_model =
     \<lparr>op_model = (if co_model co = [] then default_model else co_model co),
      op_compaction = (case co_compaction co of None \<Rightarrow> True | Some b \<Rightarrow> b),
      op_mode = (if co_mode co = [] then ''auto'' else co_mode co),
      op_parent = co_parent co, op_labels = co_labels co, op_description = co_description co,
      op_context = (if co_context co = [] then ''normal'' else co_context co), op_effort = co_effort co\<rparr>"

text \<open>The refusals of \<open>Create\<close>; \<open>known\<close> is the store's \<open>Exists\<close>.\<close>

definition create_refusal :: "(string \<Rightarrow> bool) \<Rightarrow> CreateOptions \<Rightarrow> RPCError option" where
  "create_refusal known co =
     (if co_parent co \<noteq> [] \<and> \<not> known (co_parent co)
      then Some (NewRPCError CodeInvalidParams (''parent '' @ co_parent co @ '' is not a session''))
      else map_option (NewRPCError CodeInvalidParams)
        (case ValidLabels (co_labels co) of Some e \<Rightarrow> Some e | None \<Rightarrow>
        (case ValidDescription (co_description co) of Some e \<Rightarrow> Some e | None \<Rightarrow>
        (case ValidContext (co_context co) of Some e \<Rightarrow> Some e | None \<Rightarrow> ValidEffort (co_effort co)))))"


section \<open>Operations extend a valid log\<close>

definition agent_ok :: "Agent \<Rightarrow> bool" where
  "agent_ok a \<longleftrightarrow> ValidateLog (ag_log a) = None"

definition grows :: "Agent \<Rightarrow> Agent \<Rightarrow> bool" where
  "grows a a' \<longleftrightarrow> agent_ok a' \<and> prefix (ag_log a) (ag_log a')"

text \<open>Modules only append, and no state changes: \<open>handle_append\<close> takes none.\<close>

definition hooks_ok :: "Hooks \<Rightarrow> bool" where
  "hooks_ok hk \<longleftrightarrow>
     (\<forall>a. agent_ok a \<longrightarrow>
        grows a (hk_session_end hk a) \<and> grows a (hk_resume hk a) \<and> grows a (snd (hk_report hk a)) \<and>
        (\<forall>b \<in> {hk_session_end hk a, hk_resume hk a, snd (hk_report hk a)}.
           pr_state (projection_of (ag_log b)) = pr_state (projection_of (ag_log a))))"

lemma grows_refl: "agent_ok a \<Longrightarrow> grows a a"
  by (simp add: grows_def)

lemma grows_trans: "grows a b \<Longrightarrow> grows b c \<Longrightarrow> grows a c"
  by (auto simp: grows_def intro: prefix_order.trans)

lemma grows_ok: "grows a b \<Longrightarrow> agent_ok b"
  by (simp add: grows_def)

interpretation growth: extension agent_ok grows
  by unfold_locales (auto intro: grows_refl grows_trans grows_ok)

lemma grows_flags [simp]:
  "grows a (b\<lparr>ag_running := x\<rparr>) = grows a b" "grows a (b\<lparr>ag_closed := x\<rparr>) = grows a b"
  "grows a (b\<lparr>ag_disabled := d\<rparr>) = grows a b" "grows a (b\<lparr>ag_halted := h\<rparr>) = grows a b"
  "agent_ok (b\<lparr>ag_running := x\<rparr>) = agent_ok b" "agent_ok (b\<lparr>ag_closed := x\<rparr>) = agent_ok b"
  "agent_ok (b\<lparr>ag_disabled := d\<rparr>) = agent_ok b" "agent_ok (b\<lparr>ag_halted := h\<rparr>) = agent_ok b"
  by (simp_all add: grows_def agent_ok_def)

lemma stop_running_log [simp]: "ag_log (stop_running a) = ag_log a" "agent_ok (stop_running a) = agent_ok a"
  by (simp_all add: stop_running_def loop_exit_def agent_ok_def)

text \<open>What an append leaves.\<close>

lemma h_append_cases:
  assumes "h_append p a = (r, a')" "agent_ok a" "payload_type p \<noteq> ''session''"
  obtains (refused) err where "r = Inl err" "ag_log a' = ag_log a" "agent_ok a'"
      "ag_running a' = ag_running a" "ag_closed a' = ag_closed a"
  | (appended) e where "r = Inr e" "ag_log a' = ag_log a @ [e]" "agent_ok a'" "ev_type e = payload_type p"
      "ev_data e = Some (enc_payload p)" "ag_running a' = ag_running a" "ag_closed a' = ag_closed a" "ValidateEvent e = None"
proof -
  let ?en = "ag_env a (ag_n a)"
  obtain r0 s where l: "append_locked ?en (payload_type p) (Inr (enc_payload p)) (ag_s a) = (r0, s)" by fastforce
  have A: "Append ?en (payload_type p) (Inr (enc_payload p)) (ag_s a) = (case r0 of Inl e \<Rightarrow> (Inl e, s) | Inr e \<Rightarrow> (Inr e, append_finish s))"
    by (simp add: Append_def l split: sum.split)
  show ?thesis
    using l
  proof (cases rule: append_locked_cases)
    case (refused err)
    with A assms(1,2) show ?thesis
      by (intro that(1) [of err]) (auto simp: h_append_def agent_ok_def)
  next
    case (unwritten e err)
    with A assms(1,2) show ?thesis
      by (intro that(1) [of err]) (auto simp: h_append_def agent_ok_def)
  next
    case (appended e v)
    have ne: "ag_log a \<noteq> []" using assms(2) by (auto simp: agent_ok_def ValidateLog_def)
    have "ev_type e = payload_type p" "ev_data e = Some (enc_payload p)"
      using appended(2,4) ne by (auto simp: new_event_def Let_def)
    moreover have "ValidateLog (ag_log a @ [e]) = None"
      using append_valid [OF appended(4,5)] assms(2,3) by (simp add: agent_ok_def)
    ultimately show ?thesis using A assms(1) appended
      by (intro that(2) [of e]) (auto simp: h_append_def agent_ok_def append_finish_sel)
  qed
qed

lemma h_append_grows:
  assumes "h_append p a = (r, a')" "agent_ok a" "payload_type p \<noteq> ''session''"
  shows "grows a a'"
  using assms by (cases rule: h_append_cases) (simp_all add: grows_def)

lemma h_append_snd: "agent_ok a \<Longrightarrow> payload_type p \<noteq> ''session'' \<Longrightarrow> grows a (snd (h_append p a))"
  using h_append_grows [of p a "fst (h_append p a)" "snd (h_append p a)"] by simp

lemma h_state_ok: "agent_ok a \<Longrightarrow> h_state a = Some (projection_of (ag_log a))"
  by (simp add: h_state_def agent_ok_def Project_valid)

text \<open>An operation that returned, with the log extended.\<close>

definition returns :: "Agent \<Rightarrow> ('r \<times> Agent) option \<Rightarrow> bool" where
  "returns a m \<longleftrightarrow> (\<exists>r a'. m = Some (r, a') \<and> grows a a')"

lemma returns_Some [simp]: "returns a (Some x) = grows a (snd x)"
  by (cases x) (simp add: returns_def)

lemma change_state_returns: "agent_ok a \<Longrightarrow> returns a (change_state to reason a)"
  by (cases "h_append (DStateChange \<lparr>sc_from = Some (pr_state (projection_of (ag_log a))), sc_to = to, sc_reason = reason\<rparr>) a")
     (auto simp: change_state_def h_state_ok dest: h_append_grows)

lemma ensureRunning_grows:
  assumes "agent_ok a"
  shows "\<exists>a'. ensureRunning reason a = Some a' \<and> grows a a'"
  using change_state_returns [OF assms, of "''running''" reason] assms
  by (auto simp: ensureRunning_def returns_def grows_refl split: sum.split)

lemma toIdle_returns:
  assumes "agent_ok a"
  shows "returns a (toIdle reason a)"
  using change_state_returns [OF assms, of "''idle''" reason] assms
  by (auto simp: toIdle_def h_state_ok returns_def grows_refl split: sum.split)

lemma report_checks_total: "\<forall>e \<in> set es. ev_type e = ''check'' \<longrightarrow> MustData as_check e \<noteq> None \<Longrightarrow> \<exists>cs. report_checks es = Some cs"
  by (induction es) auto

lemma valid_check: "ValidateLog log = None \<Longrightarrow> e \<in> set log \<Longrightarrow> ev_type e = ''check'' \<Longrightarrow> MustData as_check e \<noteq> None"
  using ValidateLog_events(3) [of log e]
  by (auto simp: MustData_def as_check_def elim: payload_type.elims split: event_data.splits)


lemma emitReport_returns:
  assumes "agent_ok a" "hooks_ok hk"
  shows "returns a (emitReport hk exit a)"
proof -
  obtain cs where c: "report_checks (ag_log a) = Some cs"
    using report_checks_total valid_check assms(1) unfolding agent_ok_def by blast
  obtain f a1 where f: "hk_report hk a = (f, a1)" by fastforce
  then have g: "grows a a1" using assms unfolding hooks_ok_def by (metis snd_conv)
  have "grows a a2" if "h_append (DReport r) a1 = (x, a2)" for r x a2
    using h_append_grows [OF that grows_ok [OF g]] by (intro grows_trans [OF g]) simp
  then show ?thesis
    by (auto simp: emitReport_def h_state_ok [OF assms(1)] c f split: prod.split sum.split)
qed

lemma finish_returns:
  assumes "agent_ok a" "hooks_ok hk"
  shows "returns a (finish hk to reason a)"
proof -
  let ?a = "hk_session_end hk a"
  have g: "grows a ?a" using assms by (simp add: hooks_ok_def)
  obtain r a1 where e: "emitReport hk to ?a = Some (r, a1)" "grows ?a a1"
    using emitReport_returns [OF grows_ok [OF g] assms(2), of to] by (auto simp: returns_def)
  note g1 = grows_trans [OF g e(2)]
  have "grows a a2" if "h_append (DStateChange d) a1 = (x, a2)" for d x a2
    using h_append_grows [OF that grows_ok [OF g1]] by (intro grows_trans [OF g1]) simp
  then show ?thesis using g1
    by (auto simp: finish_def h_state_ok [OF grows_ok [OF g]] e(1) Let_def split: sum.split prod.split)
qed

text \<open>An append followed by what is done with its event.\<close>

lemma append_then_returns:
  assumes "agent_ok a" "payload_type p \<noteq> ''session''" "\<And>e a1. grows a a1 \<Longrightarrow> returns a (f e a1)"
  shows "returns a (case h_append p a of (Inl err, a1) \<Rightarrow> Some (g err, a1) | (Inr e, a1) \<Rightarrow> f e a1)"
proof -
  obtain r a1 where h: "h_append p a = (r, a1)" by fastforce
  then have "grows a a1" using assms(1,2) by (rule h_append_grows)
  then show ?thesis using assms(3) h by (cases r) simp_all
qed

lemma ensure_then_returns:
  assumes "grows a a1" "\<And>a2. grows a a2 \<Longrightarrow> grows a (snd (h a2))"
  shows "returns a (ensureRunning reason a1 \<bind> (\<lambda>a2. Some (h a2)))"
  using ensureRunning_grows [OF grows_ok [OF assms(1)], of reason] grows_trans [OF assms(1)] assms(2)
  by (auto simp: returns_def) (metis prod.collapse)

lemma prompt_append_returns: "agent_ok a \<Longrightarrow> returns a (prompt_append content client a)"
  unfolding prompt_append_def by (rule append_then_returns) (simp_all add: ensure_then_returns)

lemma PromptWithID_returns:
  assumes "agent_ok a"
  shows "returns a (PromptWithID content client a)"
  using assms prompt_append_returns [OF assms]
  by (simp add: PromptWithID_def h_state_ok grows_refl split: option.split)

lemma SetGoal_returns:
  assumes "agent_ok a"
  shows "returns a (SetGoal condition a)"
proof -
  have "returns a (case h_append (DGoal d) a of (Inl e, a1) \<Rightarrow> Some (Inl (Plain e), a1)
      | (Inr e, a1) \<Rightarrow> do {
          st \<leftarrow> h_state a1;
          a2 \<leftarrow> (if pr_state st = ''idle'' then ensureRunning ''goal'' a1 else Some a1);
          Some (Inr e, a2)
        })" for d
    by (rule append_then_returns [OF assms])
       (auto simp: h_state_ok [OF grows_ok] ensure_then_returns)
  then show ?thesis using assms by (simp add: SetGoal_def grows_refl)
qed

lemma append_plain_grows: "agent_ok a \<Longrightarrow> payload_type p \<noteq> ''session'' \<Longrightarrow> grows a (snd (case h_append p a of (r, a1) \<Rightarrow> (f r, a1)))"
  by (cases "h_append p a") (simp add: h_append_grows)

lemma ClearGoal_returns:
  assumes "agent_ok a"
  shows "returns a (ClearGoal a)"
  using assms h_append_grows [OF _ assms]
  by (auto simp: ClearGoal_def h_state_ok grows_refl split: option.split prod.split)

lemma SetStatus_grows:
  assumes "agent_ok a"
  shows "grows a (snd (SetStatus kind data a))"
  using assms append_plain_grows [of a "DStatus _" plain]
  by (simp add: SetStatus_def Let_def grows_refl split: option.split)

lemma SetBudget_grows:
  assumes "agent_ok a"
  shows "grows a (snd (SetBudget b a))"
  unfolding SetBudget_def by (rule append_plain_grows [OF assms]) simp

lemma SetOption_returns:
  assumes "agent_ok a"
  shows "returns a (SetOption key v a)"
proof -
  have b: "grows a1 (snd (h_append bypass_notice a1))" if "agent_ok a1" for a1
    using h_append_grows [of bypass_notice a1 _ _, OF _ that]
    by (cases "h_append bypass_notice a1") (simp add: bypass_notice_def notice_def)
  have "returns a (case h_append (DOptionsChange d) a of
      (Inl e, a1) \<Rightarrow> Some (Inl (Plain e), a1)
    | (Inr e, a1) \<Rightarrow> Some (Inr e, if key = ''permission_mode'' \<and> v = JStr ''bypass'' then snd (h_append bypass_notice a1) else a1))" for d
    by (rule append_then_returns [OF assms]) (auto intro: grows_trans b grows_ok)
  then show ?thesis using assms by (simp add: SetOption_def h_state_ok grows_refl split: sum.split)
qed

lemma valid_tasks:
  assumes "ValidateLog log = None" "e \<in> set log" "ev_type e = ''tasks''"
  shows "\<exists>d. MustData as_tasks e = Some d"
proof -
  obtain p where "DecodeData e = Inr p" "payload_type p = ''tasks''" using ValidateLog_events(3) assms by metis
  then show ?thesis by (cases p) (simp_all add: MustData_def as_tasks_def)
qed

lemma prev_tasks_valid: "ValidateLog log = None \<Longrightarrow> prev_tasks log = Some (latestTasks log)"
proof (cases "find_last (\<lambda>e. ev_type e = ''tasks'') log")
  case (Some e)
  assume "ValidateLog log = None"
  then obtain d where "MustData as_tasks e = Some d" using valid_tasks find_last_in [OF Some] by blast
  then show ?thesis by (simp add: prev_tasks_def latestTasks_def Some)
qed (simp add: prev_tasks_def latestTasks_def)

lemma UpdateTasks_returns:
  assumes "agent_ok a"
  shows "returns a (UpdateTasks incoming source a)"
proof (cases "Merge (latestTasks (ag_log a)) incoming (ag_log a) source")
  case (Inr d)
  obtain r a1 where h: "h_append (DTasks d) a = (r, a1)" by fastforce
  have "grows a a1" using h_append_grows [OF h assms] by simp
  then show ?thesis using Inr prev_tasks_valid assms
    by (simp add: UpdateTasks_def h agent_ok_def split: sum.split)
qed (use prev_tasks_valid assms in \<open>simp add: UpdateTasks_def grows_refl agent_ok_def\<close>)

lemma Interrupt_returns: "agent_ok a \<Longrightarrow> returns a (Interrupt a)"
  using toIdle_returns [of "stop_running a" "''interrupted''"] by (auto simp: Interrupt_def returns_def grows_def)

lemma Stop_returns:
  assumes "agent_ok a" "hooks_ok hk"
  shows "returns a (Stop hk a)"
proof -
  have s: "agent_ok (stop_running a)" "grows a (stop_running a)" using assms(1) by (simp_all add: grows_def)
  have "returns a (finish hk ''completed'' ''stopped'' (stop_running a))"
    using finish_returns [OF s(1) assms(2), of "''completed''" "''stopped''"] grows_trans [OF s(2)] by (auto simp: returns_def)
  then show ?thesis using s by (simp add: Stop_def h_state_ok Let_def)
qed

lemma Resume_returns:
  assumes "agent_ok a" "hooks_ok hk"
  shows "returns a (Resume_session hk budget a)"
proof -
  have r: "returns a (ensureRunning ''resumed'' (hk_resume hk b) \<bind> (\<lambda>a2. Some (Inr (), a2)))" if "grows a b" for b
  proof -
    have "grows b (hk_resume hk b)" using assms(2) grows_ok [OF that] by (simp add: hooks_ok_def)
    then show ?thesis by (intro ensure_then_returns [OF grows_trans [OF that]]) simp_all
  qed
  define set where "set = (case budget of None \<Rightarrow> (Inr (), a)
     | Some b \<Rightarrow> (case SetBudget b a of (Inl f, a1) \<Rightarrow> (Inl f, a1) | (Inr _, a1) \<Rightarrow> (Inr (), a1)))"
  have "grows a (snd set)"
    using SetBudget_grows [OF assms(1)] grows_refl [OF assms(1)]
    by (auto simp: set_def split: option.split prod.split sum.split) (metis snd_conv)+
  then have "returns a (case set of (Inl f, a1) \<Rightarrow> Some (Inl f, a1)
      | (Inr _, a1) \<Rightarrow> do { a2 \<leftarrow> ensureRunning ''resumed'' (hk_resume hk a1); Some (Inr (), a2) })"
    using r by (cases set; cases "fst set") simp_all
  then show ?thesis using assms(1) by (simp add: Resume_session_def h_state_ok grows_refl set_def)
qed

lemma Shutdown_grows:
  assumes "agent_ok a"
  shows "\<exists>a'. Shutdown a = Some a' \<and> grows a a'"
proof -
  let ?a = "stop_running (a\<lparr>ag_closed := True\<rparr>)"
  have s: "agent_ok ?a" "grows a ?a" using assms by (simp_all add: grows_def)
  obtain r1 a1 where h1: "h_append (notice ''warn'' ''daemon is shutting down; session paused'') ?a = (r1, a1)" by fastforce
  have g1: "grows a a1" using h_append_grows [OF h1 s(1)] grows_trans [OF s(2)] by (simp add: notice_def)
  have "grows a (snd (h_append (DStateChange d) a1))" for d
    using h_append_grows [of "DStateChange d" a1] grows_ok [OF g1] grows_trans [OF g1]
    by (cases "h_append (DStateChange d) a1") simp
  then show ?thesis using assms s by (simp add: Shutdown_def h_state_ok Let_def h1 grows_refl)
qed

lemma handle_append_grows: "agent_ok a \<Longrightarrow> grows a (snd (handle_append p a))"
  by (cases p) (simp_all add: handle_append_def grows_refl h_append_snd)


section \<open>What operations do to the projected state\<close>

lemma appended_projection:
  assumes "payload_ok p" "ev_type e = payload_type p" "ev_data e = Some (enc_payload p)"
  shows "projection_of (log @ [e]) = project_payload ((projection_of log)\<lparr>pr_last := ev_id e\<rparr>) p"
  using assms by (intro projection_of_snoc DecodeData_payload)

text \<open>An append that succeeded, with the projection it leaves.\<close>

lemma h_append_Inr:
  assumes "h_append p a = (Inr e, a')" "agent_ok a" "payload_type p \<noteq> ''session''" "payload_ok p"
  shows "ag_log a' = ag_log a @ [e] \<and> agent_ok a' \<and> DecodeData e = Inr p \<and> ev_type e = payload_type p \<and>
    projection_of (ag_log a') = project_payload ((projection_of (ag_log a))\<lparr>pr_last := ev_id e\<rparr>) p \<and>
    ag_running a' = ag_running a \<and> ag_closed a' = ag_closed a"
  using assms(1-3)
proof (cases rule: h_append_cases)
  case (appended e')
  then show ?thesis using assms(4) by (auto simp: appended_projection intro: DecodeData_payload)
qed simp

lemmas h_append_log = h_append_Inr [THEN conjunct1]
lemmas h_append_proj = h_append_Inr [THEN conjunct2, THEN conjunct2, THEN conjunct2, THEN conjunct2, THEN conjunct1]

lemma h_append_Inl:
  assumes "h_append p a = (Inl err, a')" "agent_ok a" "payload_type p \<noteq> ''session''"
  shows "ag_log a' = ag_log a \<and> ag_running a' = ag_running a \<and> ag_closed a' = ag_closed a"
  using assms by (cases rule: h_append_cases) simp_all

text \<open>The state of a session.\<close>

abbreviation ag_state :: "Agent \<Rightarrow> string" where "ag_state a \<equiv> pr_state (projection_of (ag_log a))"

lemma change_state_cases:
  assumes "change_state to reason a = Some (r, a')" "agent_ok a"
  obtains (refused) err where "r = Inl err" "ag_log a' = ag_log a" "ag_running a' = ag_running a"
  | (changed) e where "r = Inr e" "ag_log a' = ag_log a @ [e]" "ag_state a' = to" "ag_running a' = ag_running a"
      "MustData as_state_change e = Some \<lparr>sc_from = Some (ag_state a), sc_to = to, sc_reason = reason\<rparr>"
proof -
  let ?p = "DStateChange \<lparr>sc_from = Some (ag_state a), sc_to = to, sc_reason = reason\<rparr>"
  have h: "h_append ?p a = (r, a')" using assms by (simp add: change_state_def h_state_ok)
  show ?thesis
  proof (cases r)
    case (Inl err)
    then show ?thesis using h_append_Inl [of ?p a err a'] h assms(2) by (intro refused) simp_all
  next
    case (Inr e)
    note i = h_append_Inr [of ?p a e a', OF h [unfolded Inr] assms(2), simplified]
    then have "projection_of (ag_log a') = (projection_of (ag_log a))\<lparr>pr_last := ev_id e, pr_state := to\<rparr>" by (elim conjE)
    then have "ag_state a' = to" by simp
    then show ?thesis using Inr i by (intro changed [of e]) (simp_all add: MustData_def as_state_change_def)
  qed
qed

lemma ensureRunning_cases:
  assumes "ensureRunning reason a = Some a'" "agent_ok a" "\<not> ag_closed a" "\<not> ag_running a"
  shows "ag_log a' = ag_log a \<and> \<not> ag_running a' \<or>
    ag_running a' \<and> ag_state a' = ''running'' \<and> (\<exists>e. ag_log a' = ag_log a @ [e])"
proof -
  obtain r b where c: "change_state ''running'' reason a = Some (r, b)"
    using change_state_returns [OF assms(2), of "''running''" reason] by (auto simp: returns_def)
  from c assms(2) show ?thesis
  proof (cases rule: change_state_cases)
    case (refused err)
    then show ?thesis using assms c by (simp add: ensureRunning_def)
  next
    case (changed e)
    then show ?thesis using assms c by (auto simp: ensureRunning_def)
  qed
qed

section \<open>Properties\<close>

text \<open>C15: No operation on a live session panics or rewrites its history. Over a valid log, and with modules
  that only append, every operation returns, and the log it leaves is valid and extends the one before.\<close>
theorem operations_extend_log:
  assumes "agent_ok a" "hooks_ok hk"
  shows "returns a (PromptWithID content client a) \<and> returns a (SetGoal condition a) \<and> returns a (ClearGoal a) \<and>
    grows a (snd (SetStatus kind data a)) \<and> grows a (snd (SetBudget b a)) \<and> returns a (SetOption key v a) \<and>
    returns a (UpdateTasks incoming source a) \<and> returns a (Interrupt a) \<and> returns a (Stop hk a) \<and>
    returns a (Resume_session hk budget a) \<and> (\<exists>a'. Shutdown a = Some a' \<and> grows a a') \<and>
    grows a (snd (handle_append p a)) \<and> returns a (finish hk to reason a) \<and> returns a (toIdle reason a)"
  using assms
  by (intro conjI PromptWithID_returns SetGoal_returns ClearGoal_returns SetStatus_grows SetBudget_grows SetOption_returns
      UpdateTasks_returns Interrupt_returns Stop_returns Resume_returns Shutdown_grows handle_append_grows
      finish_returns toIdle_returns)

definition sample_agent :: Agent where
  "sample_agent = \<lparr>ag_s = snd sample_created, ag_env = (\<lambda>_. sample_env Wrote), ag_n = 0, ag_running = False, ag_closed = False,
     ag_disabled = {}, ag_halted = None\<rparr>"

definition sample_hooks :: Hooks where
  "sample_hooks = \<lparr>hk_session_end = (\<lambda>a. a), hk_resume = (\<lambda>a. a),
     hk_report = (\<lambda>a. (\<lparr>rf_files = [], rf_commits = [], rf_dirty = None, rf_checks = []\<rparr>, a))\<rparr>"

lemma sample_agent_ok: "agent_ok sample_agent"
proof -
  obtain e where "session_reach (snd sample_created)" using sample_created_ok by metis
  then show ?thesis using session_reach_inv by (auto simp: agent_ok_def sample_agent_def session_inv_def)
qed

lemma sample_hooks_ok: "hooks_ok sample_hooks"
  by (simp add: hooks_ok_def sample_hooks_def grows_refl)

lemma operations_extend_log_witness: "returns sample_agent (Stop sample_hooks sample_agent)"
  using operations_extend_log [OF sample_agent_ok sample_hooks_ok] by blast


lemma promptFor_append:
  "promptFor (xs @ ys) c = (case promptFor xs c of None \<Rightarrow> promptFor ys c | Some e \<Rightarrow> Some e)"
  unfolding promptFor_def by (rule find_append)

lemma prompt_append_not_Rpc: "prompt_append content client a \<noteq> Some (Inl (Rpc f), b)"
  by (auto simp: prompt_append_def split: prod.splits sum.splits bind_splits)

lemma prompt_append_Inr:
  assumes "prompt_append content client a = Some (Inr e, a1)" "agent_ok a"
  shows "MustData as_message e = Some \<lparr>msg_role = ''user'', msg_content = content, msg_client = client,
      msg_usage = None, msg_interrupted = False\<rparr> \<and> ev_type e = ''message'' \<and> prefix (ag_log a @ [e]) (ag_log a1)"
proof -
  let ?p = "DMessage \<lparr>msg_role = ''user'', msg_content = content, msg_client = client, msg_usage = None, msg_interrupted = False\<rparr>"
  obtain r b where h: "h_append ?p a = (r, b)" by fastforce
  then obtain a2 where r: "r = Inr e" "ensureRunning ''prompt'' b = Some a2" "a1 = a2"
    using assms(1) by (auto simp: prompt_append_def split: sum.splits bind_splits)
  note i = h_append_Inr [OF h [unfolded r(1)] assms(2), simplified]
  have "payload_ok ?p" by (simp add: message_ok_def)
  with i have "ag_log b = ag_log a @ [e]" "agent_ok b" "DecodeData e = Inr ?p" "ev_type e = ''message''" by (auto simp: message_ok_def)
  moreover have "prefix (ag_log b) (ag_log a1)"
    using ensureRunning_grows [OF calculation(2), of "''prompt''"] r by (auto simp: grows_def)
  ultimately show ?thesis by (simp add: MustData_def as_message_def)
qed

text \<open>A prompt by itself, when no other comes in between: a client id that was accepted is answered with the
  event it has, and a new prompt is refused, with nothing changed, exactly when the session is paused or has ended.\<close>

lemma PromptWithID_again:
  assumes "agent_ok a" "client \<noteq> []" "PromptWithID content client a = Some (Inr e, a1)" "prefix (ag_log a1) (ag_log b)"
  shows "PromptWithID content' client b = Some (Inr e, b)"
proof -
  have "promptFor (ag_log a1) client = Some e"
  proof (cases "promptFor (ag_log a) client")
    case None
    then have "prompt_append content client a = Some (Inr e, a1)"
      using assms by (auto simp: PromptWithID_def prompt_seen_def h_state_ok split: option.splits)
    note m = prompt_append_Inr [OF this assms(1)]
    then obtain zs where "ag_log a1 = ag_log a @ [e] @ zs" by (auto simp: prefix_def)
    moreover have "promptFor (e # zs) client = Some e" using m by (simp add: promptFor_def)
    ultimately show ?thesis using None by (simp add: promptFor_append)
  next
    case (Some x)
    then show ?thesis using assms(2,3) by (simp add: PromptWithID_def prompt_seen_def)
  qed
  then have "promptFor (ag_log b) client = Some e" using assms(4) by (auto simp: prefix_def promptFor_append)
  then show ?thesis using assms(2) by (simp add: PromptWithID_def prompt_seen_def)
qed

lemma prompt_refusal_None: "prompt_refusal st = None \<longleftrightarrow> pr_state st \<notin> {''paused'', ''completed'', ''error''}"
  by (auto simp: prompt_refusal_def)

lemma PromptWithID_refused:
  assumes "agent_ok a" "prompt_seen (ag_log a) client = None"
  shows "(\<exists>f. PromptWithID content client a = Some (Inl (Rpc f), a)) \<longleftrightarrow> ag_state a \<in> {''paused'', ''completed'', ''error''}"
  using assms prompt_refusal_None [of "projection_of (ag_log a)"]
  by (cases "prompt_refusal (projection_of (ag_log a))") (simp_all add: PromptWithID_def h_state_ok prompt_append_not_Rpc)

text \<open>An append whose write succeeds.\<close>

definition writes :: "Agent \<Rightarrow> bool" where
  "writes a \<longleftrightarrow> \<not> se_closed (ag_s a) \<and> (\<forall>n. en_write (ag_env a n) = Wrote)"

lemma h_append_writes:
  assumes "agent_ok a" "writes a" "payload_ok p" "validate_payload p = None" "payload_type p \<noteq> ''session''"
  shows "\<exists>e a'. h_append p a = (Inr e, a') \<and> writes a'"
proof -
  let ?en = "ag_env a (ag_n a)"
  have ne: "ag_log a \<noteq> []" using assms(1) by (auto simp: agent_ok_def ValidateLog_def)
  then obtain e where e: "new_event ?en (ag_log a) (payload_type p) (enc_payload p) = Inr e"
    using new_event_some by blast
  have "append_locked ?en (payload_type p) (Inr (enc_payload p)) (ag_s a) =
      (Inr e, (ag_s a)\<lparr>se_file := file_write Wrote e (se_file (ag_s a)), se_events := ag_log a @ [e], se_pending := Some e\<rparr>)"
    using assms e by (intro append_ok) (simp_all add: writes_def)
  then show ?thesis using assms(2) by (simp add: h_append_def Append_def writes_def append_finish_sel)
qed

lemma sample_agent_writes: "writes sample_agent"
proof -
  have "\<not> se_closed (snd sample_created)" using sample_created_ok by metis
  then show ?thesis by (simp add: writes_def sample_agent_def)
qed

text \<open>A session over a given log.\<close>

definition logged :: "Event list \<Rightarrow> Agent" where
  "logged log = sample_agent\<lparr>ag_s := (ag_s sample_agent)\<lparr>se_events := log\<rparr>\<rparr>"

lemma logged_simps [simp]: "ag_log (logged log) = log" "agent_ok (logged log) \<longleftrightarrow> ValidateLog log = None" "writes (logged log)"
  using sample_agent_writes by (simp_all add: logged_def agent_ok_def writes_def)

lemma promptFor_sample: "promptFor (ag_log sample_agent) c = None"
proof -
  obtain e where "se_events (snd sample_created) = [e]" "ev_type e = ''session''" using sample_created_ok by metis
  then show ?thesis by (simp add: promptFor_def sample_agent_def)
qed

lemma sample_agent_projection:
  "ag_state sample_agent = ''idle'' \<and> pr_tasks (projection_of (ag_log sample_agent)) = [] \<and>
   pr_goal (projection_of (ag_log sample_agent)) = None"
proof -
  obtain x where x: "se_events (snd sample_created) = [x]" "ev_type x = ''session''" using sample_created_ok by metis
  moreover obtain p where "DecodeData x = Inr p" "payload_type p = ''session''"
    using sample_agent_ok ValidateLog_events(3) [of "[x]" x] x by (auto simp: agent_ok_def sample_agent_def)
  ultimately show ?thesis
    by (cases p) (simp_all add: projection_of_def decoded_def List.map_filter_def sample_agent_def MustData_def as_defs)
qed

lemmas sample_agent_idle = sample_agent_projection [THEN conjunct1]

text \<open>As many tasks as an int counts.\<close>

definition tasks_fit :: "Agent \<Rightarrow> bool" where
  "tasks_fit a \<longleftrightarrow> int (length (pr_tasks (projection_of (ag_log a)))) \<le> int64_max"

lemma emitReport_Inr:
  assumes "emitReport hk to a = Some (Inr (), a1)" "agent_ok a" "hooks_ok hk" "tasks_fit a"
  shows "\<exists>pre rep d. ag_log a1 = pre @ [rep] \<and> prefix (ag_log a) pre \<and> DecodeData rep = Inr (DReport d) \<and>
    rp_exit d = to \<and> ag_state a1 = ag_state a \<and> agent_ok a1"
proof -
  obtain f b where f: "hk_report hk a = (f, b)" by fastforce
  have b: "grows a b" "ag_state b = ag_state a" using assms(2,3) f unfolding hooks_ok_def by force+
  obtain cs d rep where h: "h_append (DReport d) b = (Inr rep, a1)" "rp_exit d = to"
    "rp_tasks d = \<lparr>rt_total = int (length (pr_tasks (projection_of (ag_log a)))), rt_done = DoneTasks (projection_of (ag_log a)),
       rt_open = cs\<rparr>"
    using assms(1) by (fastforce simp: emitReport_def h_state_ok [OF assms(2)] f Let_def split: bind_splits sum.splits prod.splits)
  have dt: "0 \<le> DoneTasks (projection_of (ag_log a))"
    "DoneTasks (projection_of (ag_log a)) \<le> int (length (pr_tasks (projection_of (ag_log a))))" by (simp_all add: DoneTasks_def)
  have "report_ok d" using assms(4) dt
    by (simp add: report_ok_def report_tasks_ok_def int64_ok_def int64_min_def tasks_fit_def h(3))
  then have ok: "payload_ok (DReport d)" by simp
  have i: "ag_log a1 = ag_log b @ [rep] \<and> agent_ok a1 \<and> DecodeData rep = Inr (DReport d)"
    using h_append_Inr [OF h(1) grows_ok [OF b(1)] _ ok] by simp
  have "ag_state a1 = ag_state b" using h_append_proj [OF h(1) grows_ok [OF b(1)] _ ok] by simp
  then show ?thesis using i b h(2) by (auto simp: grows_def)
qed

lemma emitReport_sample:
  "\<exists>b. emitReport sample_hooks ''completed'' sample_agent = Some (Inr (), b) \<and> writes b \<and> agent_ok b \<and> ag_state b = ''idle''"
proof -
  let ?st = "projection_of (ag_log sample_agent)"
  let ?r = "\<lparr>rp_exit = ''completed'', rp_goal = None, rp_tasks = \<lparr>rt_total = 0, rt_done = 0, rt_open = Some []\<rparr>,
    rp_checks = Some [], rp_files = [], rp_commits = [], rp_dirty = None\<rparr>"
  have d: "DoneTasks ?st = 0" "OpenTasks ?st = []"
    using sample_agent_projection by (simp_all add: DoneTasks_def OpenTasks_def)
  have ok: "payload_ok (DReport ?r)" "validate_payload (DReport ?r) = None"
    by (simp_all add: report_ok_def report_tasks_ok_def int64_ok_def int64_min_def int64_max_def validate_report_def)
  obtain e b where h: "h_append (DReport ?r) sample_agent = (Inr e, b)" "writes b"
    using h_append_writes [OF sample_agent_ok sample_agent_writes ok] by auto
  have c: "report_checks (ag_log sample_agent) = Some []"
  proof -
    obtain x where "se_events (snd sample_created) = [x]" "ev_type x = ''session''" using sample_created_ok by metis
    then show ?thesis by (simp add: sample_agent_def)
  qed
  have "emitReport sample_hooks ''completed'' sample_agent = Some (Inr (), b)"
    using sample_agent_projection d c
    by (simp add: emitReport_def h_state_ok [OF sample_agent_ok] sample_hooks_def h(1))
  then show ?thesis
    using h(2) h_append_grows [OF h(1) sample_agent_ok] h_append_proj [OF h(1) sample_agent_ok _ ok(1)] sample_agent_idle
    by (auto dest: grows_ok)
qed

text \<open>The report comes first and the state last. When \<open>finish\<close> succeeds the session is in the state it was
  told, its log has grown by what modules appended and one report with that exit status, and then, if
  the state was another, by the change of state, which is the last event of the log.\<close>
theorem finish_order:
  assumes "finish hk to reason a = Some (Inr (), a')" "agent_ok a" "hooks_ok hk" "tasks_fit (hk_session_end hk a)"
  shows "(ag_state a' = to) \<and>
     (\<exists>pre rep d post. ag_log a' = pre @ rep # post \<and> prefix (ag_log a) pre \<and> DecodeData rep = Inr (DReport d) \<and>
      rp_exit d = to \<and> (if ag_state a = to then post = []
        else \<exists>c. post = [c] \<and> MustData as_state_change c = Some \<lparr>sc_from = Some (ag_state a), sc_to = to, sc_reason = reason\<rparr>))"
proof -
  have c1: "ag_state a' = to" and c2: "\<exists>pre rep d post. ag_log a' = pre @ rep # post \<and> prefix (ag_log a) pre \<and> DecodeData rep = Inr (DReport d) \<and>
      rp_exit d = to \<and> (if ag_state a = to then post = []
        else \<exists>c. post = [c] \<and> MustData as_state_change c = Some \<lparr>sc_from = Some (ag_state a), sc_to = to, sc_reason = reason\<rparr>)"
  proof -
    let ?b = "hk_session_end hk a"
    have b: "grows a ?b" "ag_state ?b = ag_state a" using assms(2,3) unfolding hooks_ok_def by auto
    obtain a1 where e: "emitReport hk to ?b = Some (Inr (), a1)"
      and k: "if ag_state ?b = to then a' = a1 else \<exists>c. h_append (DStateChange \<lparr>sc_from = Some (ag_state ?b), sc_to = to, sc_reason = reason\<rparr>) a1 = (Inr c, a')"
      using assms(1) by (auto simp: finish_def h_state_ok [OF grows_ok [OF b(1)]] Let_def split: bind_splits sum.splits prod.splits if_splits)
    obtain pre rep d where r: "ag_log a1 = pre @ [rep]" "prefix (ag_log ?b) pre" "DecodeData rep = Inr (DReport d)"
      "rp_exit d = to" "ag_state a1 = ag_state ?b" "agent_ok a1"
      using emitReport_Inr [OF e grows_ok [OF b(1)] assms(3,4)] by blast
    have pre: "prefix (ag_log a) pre" using b(1) r(2) unfolding grows_def by (blast intro: prefix_order.trans)
    have "ag_state a' = to \<and> (\<exists>post. ag_log a' = pre @ rep # post \<and> (if ag_state a = to then post = []
          else \<exists>c. post = [c] \<and> MustData as_state_change c = Some \<lparr>sc_from = Some (ag_state a), sc_to = to, sc_reason = reason\<rparr>))"
    proof (cases "ag_state a = to")
      case True
      then show ?thesis using k r b(2) by simp
    next
      case False
      then obtain c where h: "h_append (DStateChange \<lparr>sc_from = Some (ag_state ?b), sc_to = to, sc_reason = reason\<rparr>) a1 = (Inr c, a')"
        using k b(2) by auto
      note i = h_append_Inr [OF h r(6), simplified]
      then have "projection_of (ag_log a') = (projection_of (ag_log a1))\<lparr>pr_last := ev_id c, pr_state := to\<rparr>" by (elim conjE)
      then have "ag_state a' = to" by simp
      with i show ?thesis using False r(1) b(2) by (auto simp: MustData_def as_state_change_def)
    qed
    then show "ag_state a' = to"
      and "\<exists>pre rep d post. ag_log a' = pre @ rep # post \<and> prefix (ag_log a) pre \<and> DecodeData rep = Inr (DReport d) \<and>
        rp_exit d = to \<and> (if ag_state a = to then post = []
          else \<exists>c. post = [c] \<and> MustData as_state_change c = Some \<lparr>sc_from = Some (ag_state a), sc_to = to, sc_reason = reason\<rparr>)"
      using pre r(3,4) by blast+
  qed
  from c1 c2 show ?thesis by blast
qed


lemma finish_order_witness: "\<exists>b. finish sample_hooks ''completed'' ''stopped'' sample_agent = Some (Inr (), b) \<and> ag_state b = ''completed''"
proof -
  obtain b where e: "emitReport sample_hooks ''completed'' sample_agent = Some (Inr (), b)" "writes b" "agent_ok b" "ag_state b = ''idle''"
    using emitReport_sample by blast
  obtain c b' where c: "h_append (DStateChange \<lparr>sc_from = Some ''idle'', sc_to = ''completed'', sc_reason = ''stopped''\<rparr>) b = (Inr c, b')"
    using h_append_writes [OF e(3,2), of "DStateChange \<lparr>sc_from = Some ''idle'', sc_to = ''completed'', sc_reason = ''stopped''\<rparr>"]
    by (auto simp: validate_state_change_def isState_def)
  have se: "hk_session_end sample_hooks sample_agent = sample_agent" by (simp add: sample_hooks_def)
  have f: "finish sample_hooks ''completed'' ''stopped'' sample_agent = Some (Inr (), b')"
    by (simp add: finish_def se h_state_ok [OF sample_agent_ok] sample_agent_idle e(1) c)
  have "tasks_fit sample_agent" using sample_agent_projection by (simp add: tasks_fit_def int64_max_def)
  then have "ag_state b' = ''completed''" using finish_order [OF f sample_agent_ok sample_hooks_ok, THEN conjunct1] se by simp
  with f show ?thesis by blast
qed

text \<open>The option a value was set for, with the value it takes; the others keep theirs.\<close>

definition option_set :: "string \<Rightarrow> json \<Rightarrow> Options \<Rightarrow> Options \<Rightarrow> bool" where
  "option_set key v op op' \<longleftrightarrow>
     key = ''model'' \<and> (\<exists>s. v = JStr s \<and> op' = op\<lparr>op_model := s\<rparr>) \<or>
     key = ''compaction_enabled'' \<and> (\<exists>b. v = JBool b \<and> op' = op\<lparr>op_compaction := b\<rparr>) \<or>
     key = ''permission_mode'' \<and> (\<exists>s \<in> {''ask'', ''auto'', ''bypass''}. v = JStr s \<and> op' = op\<lparr>op_mode := s\<rparr>) \<or>
     key = ''labels'' \<and> (\<exists>ls. v = enc_strs ls \<and> ValidLabels ls = None \<and> op' = op\<lparr>op_labels := ls\<rparr>) \<or>
     key = ''description'' \<and> (\<exists>s. v = JStr s \<and> ValidDescription s = None \<and> op' = op\<lparr>op_description := s\<rparr>) \<or>
     key = ''context'' \<and> (\<exists>s \<in> {''normal'', ''large''}. v = JStr s \<and> op' = op\<lparr>op_context := s\<rparr>) \<or>
     key = ''effort'' \<and> (\<exists>s. v = JStr s \<and> ValidEffort s = None \<and> op' = op\<lparr>op_effort := s\<rparr>)"

lemma str_of_Some: "str_of v = Some s \<longleftrightarrow> v = JStr s"
  by (cases v) auto

lemma all_strs_Some: "all_strs vs = Some ss \<Longrightarrow> vs = map JStr ss"
  by (induction vs arbitrary: ss) (auto simp: str_of_Some split: bind_splits)

lemma stringList_Some: "stringList v = Some ss \<Longrightarrow> v = enc_strs ss"
  by (cases v) (auto simp: enc_strs_def dest: all_strs_Some)

lemma option_from_set:
  assumes "option_from key v op = Inr old"
  shows "option_set key v op (apply_option \<lparr>oc_key = key, oc_from = Some old, oc_to = Some v, oc_source = src\<rparr> op)"
proof -
  have str: "unmarshal_into dec_str x (Some (JStr s)) = s" for x s by (simp add: unmarshal_into_def dec_str_JStr)
  have strs: "unmarshal_into dec_strs [] (Some (enc_strs ls)) = ls" for ls by (simp add: unmarshal_into_def dec_strs_enc)
  have bool: "unmarshal_into dec_bool x (Some (JBool b)) = b" for x b by (simp add: unmarshal_into_def dec_bool_JBool)
  have keys: "key \<in> {''model'', ''compaction_enabled'', ''permission_mode'', ''labels'', ''description'', ''context'', ''effort''}"
  proof (rule ccontr)
    assume "\<not> ?thesis"
    then have "option_from key v op = (if key = ''parent'' then refuse CodeInvalidParams ''parent is set at creation and never changes''
        else refuse CodeInvalidParams (''unknown option '' @ key))"
      unfolding option_from_def by simp
    then show False using assms by (simp add: refuse_def split: if_splits)
  qed
  from keys show ?thesis
  proof (elim insertE emptyE, goal_cases)
    case 1
    with assms obtain s where "v = JStr s" by (auto simp: option_from_def refuse_def str_of_Some split: if_splits)
    with 1 show ?thesis by (simp add: option_set_def apply_option_def str)
  next
    case 2
    with assms obtain b where "v = JBool b" by (auto simp: option_from_def refuse_def split: json.splits)
    with 2 show ?thesis by (simp add: option_set_def apply_option_def bool)
  next
    case 3
    with assms obtain s where "v = JStr s" "s \<in> {''ask'', ''auto'', ''bypass''}"
      by (auto simp: option_from_def refuse_def str_of_Some split: if_splits)
    with 3 show ?thesis by (simp add: option_set_def apply_option_def str)
  next
    case 4
    with assms obtain ls where "v = enc_strs ls" "ValidLabels ls = None"
      by (auto simp: option_from_def refuse_def split: option.splits dest: stringList_Some)
    with 4 show ?thesis by (simp add: option_set_def apply_option_def strs) blast
  next
    case 5
    with assms obtain s where "v = JStr s" "ValidDescription s = None"
      by (auto simp: option_from_def refuse_def str_of_Some split: option.splits)
    with 5 show ?thesis by (simp add: option_set_def apply_option_def str)
  next
    case 6
    with assms obtain s where "v = JStr s" "s \<noteq> []" "ValidContext s = None"
      by (auto simp: option_from_def refuse_def str_of_Some split: option.splits if_splits)
    then have "v = JStr s" "s \<in> {''normal'', ''large''}" by (auto simp: ValidContext_def split: if_splits)
    with 6 show ?thesis by (simp add: option_set_def apply_option_def str)
  next
    case 7
    with assms obtain s where "v = JStr s" "ValidEffort s = None"
      by (auto simp: option_from_def refuse_def str_of_Some split: option.splits if_splits)
    with 7 show ?thesis by (simp add: option_set_def apply_option_def str)
  qed
qed

text \<open>An option that was set is the option the session then has, and no other option changes; a value
  the option does not take is refused and nothing is appended.\<close>
theorem SetOption_sets:
  assumes "agent_ok a" "SetOption key v a = Some (r, a')"
  shows "case r of Inl f \<Rightarrow> ag_log a' = ag_log a
    | Inr e \<Rightarrow> option_set key v (pr_options (projection_of (ag_log a))) (pr_options (projection_of (ag_log a')))"
proof -
  let ?op = "pr_options (projection_of (ag_log a))"
  have st: "h_state a = Some (projection_of (ag_log a))" using assms(1) by (rule h_state_ok)
  show ?thesis
  proof (cases r)
    case (Inl f)
    then show ?thesis using assms(1,2)
      by (auto simp: SetOption_def st split: sum.splits prod.splits dest: h_append_Inl)
  next
    case (Inr e)
    then obtain old a1 where o: "option_from key v ?op = Inr old"
      "h_append (DOptionsChange \<lparr>oc_key = key, oc_from = Some old, oc_to = Some v, oc_source = ''client''\<rparr>) a = (Inr e, a1)"
      "a' = (if key = ''permission_mode'' \<and> v = JStr ''bypass'' then snd (h_append bypass_notice a1) else a1)"
      using assms(2) by (auto simp: SetOption_def st split: sum.splits prod.splits)
    have ok: "payload_ok (DOptionsChange \<lparr>oc_key = key, oc_from = Some old, oc_to = Some v, oc_source = ''client''\<rparr>)"
      by (simp add: options_change_ok_def)
    have a1: "agent_ok a1" using h_append_Inr [OF o(2) assms(1) _ ok] by simp
    have p: "pr_options (projection_of (ag_log a1)) =
        apply_option \<lparr>oc_key = key, oc_from = Some old, oc_to = Some v, oc_source = ''client''\<rparr> ?op"
      using h_append_proj [OF o(2) assms(1) _ ok] by simp
    have "pr_options (projection_of (ag_log (snd (h_append bypass_notice a1)))) = pr_options (projection_of (ag_log a1))"
    proof (cases "h_append bypass_notice a1")
      case (Pair x b)
      have n: "payload_type bypass_notice \<noteq> ''session''" "payload_ok bypass_notice" by (simp_all add: bypass_notice_def notice_def)
      show ?thesis
      proof (cases x)
        case Inl
        then show ?thesis using h_append_Inl [of bypass_notice a1 _ b] Pair a1 n by simp
      next
        case (Inr c)
        then show ?thesis using h_append_proj [of bypass_notice a1 c b] Pair a1 n
          by (simp add: bypass_notice_def notice_def)
      qed
    qed
    then have "pr_options (projection_of (ag_log a')) = apply_option \<lparr>oc_key = key, oc_from = Some old, oc_to = Some v, oc_source = ''client''\<rparr> ?op"
      using o(3) p by simp
    then show ?thesis using Inr option_from_set [OF o(1)] by simp
  qed
qed

lemma SetOption_sets_witness:
  "\<exists>e b. SetOption ''model'' (JStr ''m2'') sample_agent = Some (Inr e, b) \<and> op_model (pr_options (projection_of (ag_log b))) = ''m2''"
proof -
  let ?op = "pr_options (projection_of (ag_log sample_agent))"
  let ?p = "DOptionsChange \<lparr>oc_key = ''model'', oc_from = Some (JStr (op_model ?op)), oc_to = Some (JStr ''m2''), oc_source = ''client''\<rparr>"
  have "raw_len (Some (JStr s)) > 0" for s using json_text_nonempty [of "JStr s"] by (simp add: raw_len_def del: json_text.simps)
  then have "validate_payload ?p = None" by (simp add: validate_options_change_def validate_option_value_def isSource_def unmarshal_into_def dec_str_JStr)
  then obtain e b where h: "h_append ?p sample_agent = (Inr e, b)"
    using h_append_writes [OF sample_agent_ok sample_agent_writes, of ?p] by (auto simp: options_change_ok_def)
  have f: "option_from ''model'' (JStr ''m2'') ?op = Inr (JStr (op_model ?op))" by (simp add: option_from_def)
  have s: "SetOption ''model'' (JStr ''m2'') sample_agent = Some (Inr e, b)"
    by (simp add: SetOption_def h_state_ok [OF sample_agent_ok] f h)
  from SetOption_sets [OF sample_agent_ok s] have "option_set ''model'' (JStr ''m2'') ?op (pr_options (projection_of (ag_log b)))" by simp
  then have "op_model (pr_options (projection_of (ag_log b))) = ''m2''" by (auto simp: option_set_def)
  with s show ?thesis by blast
qed

text \<open>Interrupting is not a no-op when nothing runs: whatever state but idle the session is in, ended ones
  included, it is set to idle, and a session that had ended then takes prompts again.\<close>
theorem Interrupt_revives:
  assumes "agent_ok a" "Interrupt a = Some (Inr (), a')"
  shows "(ag_state a' = ''idle'' \<and> \<not> ag_running a') \<and>
     ((ag_log a' = ag_log a) = (ag_state a = ''idle'')) \<and>
     ((client = [] \<or> promptFor (ag_log a') client = None) \<longrightarrow> PromptWithID content client a' \<noteq> Some (Inl (Rpc f), a'))"
proof -
  have c1: "ag_state a' = ''idle'' \<and> \<not> ag_running a'" and c2: "(ag_log a' = ag_log a) = (ag_state a = ''idle'')" and c3: "client = [] \<or> promptFor (ag_log a') client = None \<Longrightarrow> PromptWithID content client a' \<noteq> Some (Inl (Rpc f), a')"
  proof -
    let ?s = "stop_running a"
    have i: "ag_state a' = ''idle'' \<and> \<not> ag_running a' \<and> (ag_log a' = ag_log a) = (ag_state a = ''idle'') \<and> agent_ok a'"
    proof (cases "ag_state a = ''idle''")
      case True
      then have "a' = ?s" using assms by (simp add: Interrupt_def toIdle_def h_state_ok)
      then show ?thesis using True assms(1) by (simp add: stop_running_def loop_exit_def)
    next
      case False
      then obtain r where c: "change_state ''idle'' ''interrupted'' ?s = Some (Inr r, a')"
        using assms by (auto simp: Interrupt_def toIdle_def h_state_ok split: bind_splits sum.splits)
      have ok: "agent_ok a'" using change_state_returns [of ?s "''idle''" "''interrupted''"] assms(1) c by (auto simp: returns_def grows_def)
      have "agent_ok ?s" using assms(1) by simp
      with c show ?thesis
      proof (cases rule: change_state_cases)
        case (changed e)
        then have "ag_log a' \<noteq> ag_log a" "ag_state a' = ''idle''" by simp_all
        moreover have "\<not> ag_running a'" using changed by (simp add: stop_running_def loop_exit_def)
        ultimately show ?thesis using False ok by blast
      qed (use assms(1) in simp_all)
    qed
    then show "ag_state a' = ''idle'' \<and> \<not> ag_running a'" "(ag_log a' = ag_log a) = (ag_state a = ''idle'')" by blast+
    assume "client = [] \<or> promptFor (ag_log a') client = None"
    then have "PromptWithID content client a' = prompt_append content client a'" using i by (auto simp: PromptWithID_def prompt_seen_def prompt_refusal_def h_state_ok)
    then show "PromptWithID content client a' \<noteq> Some (Inl (Rpc f), a')" by (simp add: prompt_append_not_Rpc)
  qed
  from c1 c2 c3 show ?thesis by blast
qed

text \<open>A change of state that is written.\<close>

lemma change_state_writes:
  assumes "agent_ok a" "writes a" "validate_payload (DStateChange \<lparr>sc_from = Some (ag_state a), sc_to = to, sc_reason = reason\<rparr>) = None"
  shows "\<exists>e b. change_state to reason a = Some (Inr e, b) \<and> writes b \<and> agent_ok b \<and> ag_state b = to"
proof -
  let ?p = "DStateChange \<lparr>sc_from = Some (ag_state a), sc_to = to, sc_reason = reason\<rparr>"
  obtain e b where h: "h_append ?p a = (Inr e, b)" "writes b"
    using h_append_writes [OF assms(1,2) _ assms(3)] by auto
  have c: "change_state to reason a = Some (Inr e, b)" using h(1) assms(1) by (simp add: change_state_def h_state_ok)
  have "ag_state b = to" using c assms(1) by (cases rule: change_state_cases) simp_all
  moreover have "agent_ok b" using h_append_grows [OF h(1) assms(1)] by (simp add: grows_def)
  ultimately show ?thesis using c h(2) by blast
qed

lemma Interrupt_revives_witness:
  "\<exists>b c. ag_state b = ''completed'' \<and> Interrupt b = Some (Inr (), c) \<and> (\<forall>f. PromptWithID ''again'' [] c \<noteq> Some (Inl (Rpc f), c))"
proof -
  obtain b where b: "writes b" "agent_ok b" "ag_state b = ''completed''"
    using change_state_writes [OF sample_agent_ok sample_agent_writes, of "''completed''" "''stopped''"] sample_agent_idle
    by (auto simp: validate_state_change_def isState_def)
  have w: "writes (stop_running b)" using b(1) by (simp add: writes_def stop_running_def loop_exit_def)
  obtain e c where "change_state ''idle'' ''interrupted'' (stop_running b) = Some (Inr e, c)"
    using change_state_writes [of "stop_running b" "''idle''" "''interrupted''"] w b by (auto simp: validate_state_change_def isState_def)
  then have i: "Interrupt b = Some (Inr (), c)" using b by (simp add: Interrupt_def toIdle_def h_state_ok)
  show ?thesis using Interrupt_revives [OF b(2) i, of "[]"] b(3) i by blast
qed

end
