(* ===== verification/Module_Registry.thy ===== *)
theory Module_Registry
  imports Agent_Ops
begin

text \<open>
  \<open>daemon/module/registry.go\<close>, the types of \<open>module.go\<close> and \<open>toolerror.go\<close>, and the tool calls of
  \<open>daemon/agent/manager.go\<close>. A module is the record of the optional interfaces it implements; a hook is a
  function of the session's \<open>Agent\<close>, which it may extend, with the way its call ended: it completed, it
  panicked or timed out (\<open>Crashed\<close>), or the caller cancelled. \<open>hook_call\<close> is \<open>call\<close>: a module that crashed is
  disabled for the session. What a hook does after its timeout is not modelled.

  The lemmas show that a crash of one module leaves the session valid and the others running, that
  the registry provides what the manager asks of its hooks, which verdict a set of gates gives, and
  that a refused tool does not run.
\<close>

section \<open>Modules\<close>

datatype 'a ended = Completed 'a | Crashed err | Cancelled

type_synonym 'a hook_fn = "Agent \<Rightarrow> 'a ended \<times> Agent"

datatype Decision = Allow | Deny | Ask | Halt

record Verdict =
  vd_decision :: Decision
  vd_reason :: string
  vd_summary :: string
  vd_risk :: string

record ContextBlock =
  cb_slot :: string
  cb_content :: string

record StopInfo =
  si_goal :: "GoalData option"
  si_tasks :: "Task list"
  si_last :: string
  si_turns :: nat
  si_vetoes :: nat

record StopVerdict =
  so_allow :: bool
  so_reason :: string

record Range =
  rn_start :: string
  rn_end :: string

text \<open>A tool's error: what it says and, for a \<open>ToolError\<close> in its chain, the kind and exit code.\<close>

record ToolError =
  te_text :: string
  te_class :: "(string \<times> int option) option"

definition ClassifyToolError :: "ToolError \<Rightarrow> string \<times> int option" where
  "ClassifyToolError e = (case te_class e of Some (kind, exit) \<Rightarrow> (kind, exit) | None \<Rightarrow> ([], None))"

record Tool =
  tl_name :: string
  tl_description :: string
  tl_schema :: json
  tl_run :: "json option \<Rightarrow> Agent \<Rightarrow> (string \<times> ToolError option) \<times> Agent"

datatype init_end = Init_ok | Init_failed err | Init_panic err

record Module =
  md_name :: string
  md_init :: init_end
  md_start :: "(err + ContextBlock list) hook_fn option"
  md_request :: "(err + ContextBlock list) hook_fn option"
  md_gate :: "(ToolCallData \<Rightarrow> Verdict hook_fn) option"
  md_tools :: "Tool list option"
  md_session_tools :: "(Agent \<Rightarrow> Tool list) option"
  md_tool_result :: "(ToolCallData \<Rightarrow> ToolResultData \<Rightarrow> unit hook_fn) option"
  md_turn_end :: "unit hook_fn option"
  md_before_stop :: "(StopInfo \<Rightarrow> StopVerdict hook_fn) option"
  md_before_compaction :: "(Range \<Rightarrow> string list hook_fn) option"
  md_after_compaction :: "(err + ContextBlock list) hook_fn option"
  md_resume :: "err option hook_fn option"
  md_end :: "unit hook_fn option"
  md_report :: "(err + ReportFields) hook_fn option"

section \<open>Starting modules\<close>

type_synonym dead = "string \<Rightarrow> err option"

definition init_step :: "(string \<Rightarrow> bool) \<Rightarrow> dead \<Rightarrow> Module \<Rightarrow> dead" where
  "init_step enabled dead m =
     (if \<not> enabled (md_name m) then dead(md_name m \<mapsto> ''disabled by config'')
      else case md_init m of
        Init_ok \<Rightarrow> dead
      | Init_failed e \<Rightarrow> dead(md_name m \<mapsto> e)
      | Init_panic p \<Rightarrow> dead(md_name m \<mapsto> ''panic in Init: '' @ p))"

definition Init :: "(string \<Rightarrow> bool) \<Rightarrow> Module list \<Rightarrow> dead" where
  "Init enabled ms = foldl (init_step enabled) (\<lambda>_. None) ms"

definition Modules :: "dead \<Rightarrow> Module list \<Rightarrow> Module list" where
  "Modules dead ms = filter (\<lambda>m. dead (md_name m) = None) ms"

text \<open>\<open>Tools\<close>; \<open>seen\<close> maps a tool's name to the module that has it.\<close>

fun add_tools :: "string \<Rightarrow> Tool list \<Rightarrow> (string \<Rightarrow> string option) \<Rightarrow> err + (string \<Rightarrow> string option)" where
  "add_tools m [] seen = Inr seen"
| "add_tools m (t # ts) seen =
     (case seen (tl_name t) of
        Some prev \<Rightarrow> Inl (''tool '' @ fmt_q (tl_name t) @ '' provided by both '' @ prev @ '' and '' @ m)
      | None \<Rightarrow> add_tools m ts (seen(tl_name t \<mapsto> m)))"

fun tools_from :: "(string \<Rightarrow> string option) \<Rightarrow> Module list \<Rightarrow> err + Tool list" where
  "tools_from seen [] = Inr []"
| "tools_from seen (m # ms) =
     (case md_tools m of
        None \<Rightarrow> tools_from seen ms
      | Some ts \<Rightarrow>
          (case add_tools (md_name m) ts seen of
             Inl e \<Rightarrow> Inl e
           | Inr seen' \<Rightarrow> (case tools_from seen' ms of Inl e \<Rightarrow> Inl e | Inr rest \<Rightarrow> Inr (ts @ rest))))"

definition Tools :: "Module list \<Rightarrow> err + Tool list" where
  "Tools ms = tools_from (\<lambda>_. None) ms"

fun take_tools :: "(string \<Rightarrow> bool) \<Rightarrow> string set \<Rightarrow> Tool list \<Rightarrow> Tool list \<times> string set" where
  "take_tools taken seen [] = ([], seen)"
| "take_tools taken seen (t # ts) =
     (if tl_name t \<in> seen \<or> taken (tl_name t) then take_tools taken seen ts
      else case take_tools taken (insert (tl_name t) seen) ts of (rest, seen') \<Rightarrow> (t # rest, seen'))"

fun session_tools_from :: "(string \<Rightarrow> bool) \<Rightarrow> string set \<Rightarrow> Agent \<Rightarrow> Module list \<Rightarrow> Tool list" where
  "session_tools_from taken seen a [] = []"
| "session_tools_from taken seen a (m # ms) =
     (case md_session_tools m of
        None \<Rightarrow> session_tools_from taken seen a ms
      | Some f \<Rightarrow>
          if md_name m \<in> ag_disabled a then session_tools_from taken seen a ms
          else (case take_tools taken seen (f a) of (ts, seen') \<Rightarrow> ts @ session_tools_from taken seen' a ms))"

definition SessionTools :: "(string \<Rightarrow> bool) \<Rightarrow> Module list \<Rightarrow> Agent \<Rightarrow> Tool list" where
  "SessionTools taken ms a = session_tools_from taken {} a ms"

section \<open>Calling a hook\<close>

definition disable :: "string \<Rightarrow> string \<Rightarrow> err \<Rightarrow> Agent \<Rightarrow> Agent" where
  "disable name hook e a =
     snd (h_append (notice ''error'' (''module '' @ name @ '' disabled for this session: '' @ hook @ '' failed: '' @ e))
       (a\<lparr>ag_disabled := insert name (ag_disabled a)\<rparr>))"

definition hook_call :: "string \<Rightarrow> string \<Rightarrow> 'a hook_fn \<Rightarrow> Agent \<Rightarrow> 'a option \<times> Agent" where
  "hook_call name hook f a =
     (if name \<in> ag_disabled a then (None, a)
      else case f a of
        (Completed x, a') \<Rightarrow> (Some x, a')
      | (Crashed e, a') \<Rightarrow> (None, disable name hook e a')
      | (Cancelled, a') \<Rightarrow> (None, a'))"

definition ForgetSession :: "Agent \<Rightarrow> Agent" where
  "ForgetSession a = a\<lparr>ag_disabled := {}\<rparr>"

section \<open>Dispatchers\<close>

type_synonym Sourced = "(string \<times> ContextBlock) list"

definition appendSourced :: "Sourced \<Rightarrow> string \<Rightarrow> ContextBlock list \<Rightarrow> Sourced" where
  "appendSourced out name blocks = out @ map (\<lambda>b. (name, b)) blocks"

text \<open>A hook that answers blocks or an error; an error disables like a crash.\<close>

definition blocks_step :: "string \<Rightarrow> (Module \<Rightarrow> (err + ContextBlock list) hook_fn option) \<Rightarrow> Sourced \<times> Agent \<Rightarrow> Module \<Rightarrow> Sourced \<times> Agent" where
  "blocks_step hook sel acc m =
     (case sel m of
        None \<Rightarrow> acc
      | Some f \<Rightarrow>
          (case hook_call (md_name m) hook f (snd acc) of
             (None, a) \<Rightarrow> (fst acc, a)
           | (Some (Inl e), a) \<Rightarrow> (fst acc, disable (md_name m) hook e a)
           | (Some (Inr blocks), a) \<Rightarrow> (appendSourced (fst acc) (md_name m) blocks, a)))"

definition SessionStart :: "Module list \<Rightarrow> Agent \<Rightarrow> Sourced \<times> Agent" where
  "SessionStart ms a = foldl (blocks_step ''SessionStart'' md_start) ([], a) ms"

definition AfterCompaction :: "Module list \<Rightarrow> Agent \<Rightarrow> Sourced \<times> Agent" where
  "AfterCompaction ms a = foldl (blocks_step ''AfterCompaction'' md_after_compaction) ([], a) ms"

definition request_block :: "string \<Rightarrow> Sourced \<times> Agent \<Rightarrow> ContextBlock \<Rightarrow> Sourced \<times> Agent" where
  "request_block name acc b =
     (if cb_slot b \<noteq> ''suffix''
      then (fst acc, snd (h_append (notice ''warn'' (''module '' @ name @ '' returned a '' @ cb_slot b @
              '' block from BeforeRequest; only suffix is allowed, dropped'')) (snd acc)))
      else (fst acc @ [(name, b)], snd acc))"

definition request_step :: "Sourced \<times> Agent \<Rightarrow> Module \<Rightarrow> Sourced \<times> Agent" where
  "request_step acc m =
     (case md_request m of
        None \<Rightarrow> acc
      | Some f \<Rightarrow>
          (case hook_call (md_name m) ''BeforeRequest'' f (snd acc) of
             (None, a) \<Rightarrow> (fst acc, a)
           | (Some (Inl e), a) \<Rightarrow> (fst acc, disable (md_name m) ''BeforeRequest'' e a)
           | (Some (Inr blocks), a) \<Rightarrow> foldl (request_block (md_name m)) (fst acc, a) blocks))"

definition BeforeRequest :: "Module list \<Rightarrow> Agent \<Rightarrow> Sourced \<times> Agent" where
  "BeforeRequest ms a = foldl request_step ([], a) ms"

fun gate_from :: "Verdict \<Rightarrow> Module list \<Rightarrow> ToolCallData \<Rightarrow> Agent \<Rightarrow> Verdict \<times> Agent" where
  "gate_from final [] call a = (final, a)"
| "gate_from final (m # ms) call a =
     (case md_gate m of
        None \<Rightarrow> gate_from final ms call a
      | Some g \<Rightarrow>
          (case hook_call (md_name m) ''GateTool'' (g call) a of
             (None, a') \<Rightarrow> gate_from final ms call a'
           | (Some v, a') \<Rightarrow>
               (case vd_decision v of
                  Deny \<Rightarrow> (v, a')
                | Halt \<Rightarrow> (v, a')
                | Ask \<Rightarrow> gate_from (if vd_decision final = Allow then v else final) ms call a'
                | Allow \<Rightarrow> gate_from final ms call a')))"

definition allow :: Verdict where
  "allow = \<lparr>vd_decision = Allow, vd_reason = [], vd_summary = [], vd_risk = []\<rparr>"

definition GateTool :: "Module list \<Rightarrow> ToolCallData \<Rightarrow> Agent \<Rightarrow> Verdict \<times> Agent" where
  "GateTool ms call a = gate_from allow ms call a"

definition stop_step :: "StopInfo \<Rightarrow> StopVetoData list \<times> Agent \<Rightarrow> Module \<Rightarrow> StopVetoData list \<times> Agent" where
  "stop_step info acc m =
     (case md_before_stop m of
        None \<Rightarrow> acc
      | Some g \<Rightarrow>
          (case hook_call (md_name m) ''BeforeStop'' (g info) (snd acc) of
             (None, a) \<Rightarrow> (fst acc, a)
           | (Some v, a) \<Rightarrow>
               (if \<not> so_allow v
                then fst acc @ [\<lparr>sv_module = md_name m, sv_reason = (if so_reason v = [] then ''no reason given'' else so_reason v)\<rparr>]
                else fst acc, a)))"

definition BeforeStop :: "Module list \<Rightarrow> StopInfo \<Rightarrow> Agent \<Rightarrow> StopVetoData list \<times> Agent" where
  "BeforeStop ms info a = foldl (stop_step info) ([], a) ms"

text \<open>A hook that answers nothing.\<close>

definition notify_step :: "string \<Rightarrow> (Module \<Rightarrow> unit hook_fn option) \<Rightarrow> Agent \<Rightarrow> Module \<Rightarrow> Agent" where
  "notify_step hook sel a m = (case sel m of None \<Rightarrow> a | Some f \<Rightarrow> snd (hook_call (md_name m) hook f a))"

definition ToolResult :: "Module list \<Rightarrow> ToolCallData \<Rightarrow> ToolResultData \<Rightarrow> Agent \<Rightarrow> Agent" where
  "ToolResult ms call res a =
     foldl (notify_step ''ToolResult'' (\<lambda>m. map_option (\<lambda>f. f call res) (md_tool_result m))) a ms"

definition TurnEnd :: "Module list \<Rightarrow> Agent \<Rightarrow> Agent" where
  "TurnEnd ms a = foldl (notify_step ''TurnEnd'' md_turn_end) a ms"

definition SessionEnd :: "Module list \<Rightarrow> Agent \<Rightarrow> Agent" where
  "SessionEnd ms a = foldl (notify_step ''SessionEnd'' md_end) a ms"

definition before_compaction_step :: "Range \<Rightarrow> string list \<times> Agent \<Rightarrow> Module \<Rightarrow> string list \<times> Agent" where
  "before_compaction_step rg acc m =
     (case md_before_compaction m of
        None \<Rightarrow> acc
      | Some f \<Rightarrow>
          (case hook_call (md_name m) ''BeforeCompaction'' (f rg) (snd acc) of
             (None, a) \<Rightarrow> (fst acc, a)
           | (Some p, a) \<Rightarrow> (fst acc @ p, a)))"

definition BeforeCompaction :: "Module list \<Rightarrow> Range \<Rightarrow> Agent \<Rightarrow> string list \<times> Agent" where
  "BeforeCompaction ms rg a = foldl (before_compaction_step rg) ([], a) ms"

definition resume_step :: "Agent \<Rightarrow> Module \<Rightarrow> Agent" where
  "resume_step a m =
     (case md_resume m of
        None \<Rightarrow> a
      | Some f \<Rightarrow>
          (case hook_call (md_name m) ''SessionResume'' f a of
             (Some (Some e), a') \<Rightarrow> disable (md_name m) ''SessionResume'' e a'
           | (_, a') \<Rightarrow> a'))"

definition SessionResume :: "Module list \<Rightarrow> Agent \<Rightarrow> Agent" where
  "SessionResume ms a = foldl resume_step a ms"

definition merge_fields :: "ReportFields \<Rightarrow> ReportFields \<Rightarrow> ReportFields" where
  "merge_fields out f =
     \<lparr>rf_files = rf_files out @ rf_files f, rf_commits = rf_commits out @ rf_commits f,
      rf_dirty = (case rf_dirty f of None \<Rightarrow> rf_dirty out | Some d \<Rightarrow> Some d),
      rf_checks = rf_checks out @ rf_checks f\<rparr>"

definition report_step :: "ReportFields \<times> Agent \<Rightarrow> Module \<Rightarrow> ReportFields \<times> Agent" where
  "report_step acc m =
     (case md_report m of
        None \<Rightarrow> acc
      | Some g \<Rightarrow>
          (case hook_call (md_name m) ''Report'' g (snd acc) of
             (None, a) \<Rightarrow> (fst acc, a)
           | (Some (Inl e), a) \<Rightarrow> (fst acc, disable (md_name m) ''Report'' e a)
           | (Some (Inr f), a) \<Rightarrow> (merge_fields (fst acc) f, a)))"

definition Report :: "Module list \<Rightarrow> Agent \<Rightarrow> ReportFields \<times> Agent" where
  "Report ms a = foldl report_step (\<lparr>rf_files = [], rf_commits = [], rf_dirty = None, rf_checks = []\<rparr>, a) ms"

text \<open>The registry as the hooks of the operations.\<close>

definition registry_hooks :: "Module list \<Rightarrow> Hooks" where
  "registry_hooks ms = \<lparr>hk_session_end = SessionEnd ms, hk_resume = SessionResume ms, hk_report = Report ms\<rparr>"

section \<open>Tool calls\<close>

text \<open>\<open>tools\<close> are the manager's, \<open>toolsByName\<close>, in the order they were registered.\<close>

definition has_tool :: "Tool list \<Rightarrow> string \<Rightarrow> bool" where
  "has_tool tools name \<longleftrightarrow> name \<in> tl_name ` set tools"

definition sessionTools :: "Tool list \<Rightarrow> Module list \<Rightarrow> Agent \<Rightarrow> Tool list" where
  "sessionTools tools ms a = SessionTools (has_tool tools) ms a"

definition find_tool :: "Tool list \<Rightarrow> Module list \<Rightarrow> Agent \<Rightarrow> string \<Rightarrow> Tool option" where
  "find_tool tools ms a name =
     (case List.find (\<lambda>t. tl_name t = name) tools of
        Some t \<Rightarrow> Some t
      | None \<Rightarrow> List.find (\<lambda>t. tl_name t = name) (sessionTools tools ms a))"

definition toolNames :: "Tool list \<Rightarrow> string list" where
  "toolNames tools = sort (map tl_name tools)"

definition toolsFor :: "Tool list \<Rightarrow> Module list \<Rightarrow> bool option \<Rightarrow> Agent \<Rightarrow> Tool list" where
  "toolsFor tools ms tasks_enabled a =
     filter (\<lambda>t. \<not> (tasks_enabled = Some False \<and> has_prefix (tl_name t) ''task.'')) tools @ sessionTools tools ms a"

text \<open>The person's answer to a permission request: approved, reason, answered.\<close>

type_synonym Asker = "(ToolCallData \<Rightarrow> string \<Rightarrow> string \<Rightarrow> bool \<times> string \<times> bool) option"

definition unanswered :: "string \<Rightarrow> string" where
  "unanswered why =
     ''not run: this call needs a person's approval and nobody answered'' @
     (if trim_space why \<noteq> [] then '' ('' @ trim_space why @ '')'' else []) @
     ''. Nobody refused it, and the session is still running. '' @
     ''Do it another way that needs no approval, or finish what you can '' @
     ''and say what is still waiting on approval.''"

definition tool_fail :: "ToolCallData \<Rightarrow> string \<Rightarrow> string \<Rightarrow> ToolResultData" where
  "tool_fail call kind msg =
     \<lparr>tr_call = tc_call call, tr_tool = tc_tool call, tr_content = msg, tr_status = ''error'', tr_kind = kind, tr_exit = None\<rparr>"

text \<open>The refusal of a call that a gate wants asked, or none.\<close>

definition ask_refusal :: "Asker \<Rightarrow> ToolCallData \<Rightarrow> Verdict \<Rightarrow> string option" where
  "ask_refusal asker call v =
     (case asker of
        None \<Rightarrow> Some (unanswered ''no client is attached'')
      | Some f \<Rightarrow>
          (case f call (if vd_summary v = [] then tc_tool call else vd_summary v) (vd_risk v) of
             (approved, reason, answered) \<Rightarrow>
               if \<not> approved \<and> \<not> answered then Some (unanswered reason)
               else if \<not> approved then Some (''denied by the user: '' @ (if reason = [] then ''not approved'' else reason))
               else None))"

definition run_tool :: "Tool \<Rightarrow> ToolCallData \<Rightarrow> Agent \<Rightarrow> ToolResultData \<times> Agent" where
  "run_tool tool call a =
     (case tl_run tool (tc_args call) a of
        ((out, Some e), a') \<Rightarrow>
          (case ClassifyToolError e of
             (kind, exit) \<Rightarrow> ((tool_fail call kind (if trim_space out \<noteq> [] then out else te_text e))\<lparr>tr_exit := exit\<rparr>, a'))
      | ((out, None), a') \<Rightarrow>
          (\<lparr>tr_call = tc_call call, tr_tool = tc_tool call, tr_content = out, tr_status = ''ok'', tr_kind = [], tr_exit = None\<rparr>, a'))"

definition executeTool :: "Tool list \<Rightarrow> Module list \<Rightarrow> Asker \<Rightarrow> ToolCallData \<Rightarrow> Agent \<Rightarrow> (ToolResultData \<times> Agent) option" where
  "executeTool tools ms asker call a =
     (case find_tool tools ms a (tc_tool call) of
        None \<Rightarrow> Some (tool_fail call ''not_found'' (''unknown tool '' @ fmt_q (tc_tool call) @ ''; available: '' @
                  join '', '' (toolNames tools)), a)
      | Some tool \<Rightarrow>
          (case GateTool ms call a of
             (v, a1) \<Rightarrow>
               (case vd_decision v of
                  Deny \<Rightarrow> Some (tool_fail call ''denied'' (''denied: '' @ vd_reason v), a1)
                | Halt \<Rightarrow> Some (tool_fail call ''denied'' (''denied: '' @ vd_reason v),
                    a1\<lparr>ag_halted := Some (if vd_summary v = [] then ''a tool gate stopped the session'' else vd_summary v)\<rparr>)
                | Allow \<Rightarrow> Some (run_tool tool call a1)
                | Ask \<Rightarrow>
                    do {
                      st \<leftarrow> h_state a1;
                      Some (case (if op_mode (pr_options st) = ''bypass'' then None else ask_refusal asker call v) of
                              Some why \<Rightarrow> (tool_fail call ''denied'' why, a1)
                            | None \<Rightarrow> run_tool tool call a1)
                    })))"

definition with_args :: "ToolCallData \<Rightarrow> ToolCallData" where
  "with_args call = (if raw_len (tc_args call) = 0 then call\<lparr>tc_args := Some (JObj [])\<rparr> else call)"

definition invokeTool :: "Tool list \<Rightarrow> Module list \<Rightarrow> Asker \<Rightarrow> ToolCallData \<Rightarrow> Agent \<Rightarrow> (ToolResultData \<times> Agent) option" where
  "invokeTool tools ms asker call0 a0 =
     (let call = with_args call0 in
      case h_append (DToolCall call) a0 of
        (Inl e, a) \<Rightarrow> Some (tool_fail call ''io'' e, a)
      | (Inr _, a) \<Rightarrow> do {
          (res, a1) \<leftarrow> executeTool tools ms asker call a;
          let a2 = snd (h_append (DToolResult res) a1);
          Some (res, ToolResult ms call res a2)
        })"

definition refuseTool :: "ToolCallData \<Rightarrow> string \<Rightarrow> string \<Rightarrow> Agent \<Rightarrow> Agent" where
  "refuseTool call0 kind why a0 =
     (let call = with_args call0 in
      case h_append (DToolCall call) a0 of
        (Inl _, a) \<Rightarrow> a
      | (Inr _, a) \<Rightarrow> snd (h_append (DToolResult (tool_fail call kind why)) a))"

text \<open>\<open>appendContexts\<close>: the blocks of modules as context events, blank ones left out.\<close>

definition append_context :: "Agent \<Rightarrow> string \<times> ContextBlock \<Rightarrow> Agent" where
  "append_context a sb =
     (if trim_space (cb_content (snd sb)) = [] then a
      else snd (h_append (DContext \<lparr>cx_source = ''module:'' @ fst sb,
                  cx_slot = (if cb_slot (snd sb) = [] then ''prefix'' else cb_slot (snd sb)),
                  cx_content = cb_content (snd sb)\<rparr>) a))"

definition appendContexts :: "Sourced \<Rightarrow> Agent \<Rightarrow> Agent" where
  "appendContexts blocks a = foldl append_context a blocks"

section \<open>What a hook may do to a session\<close>

text \<open>The session was extended by valid events, in the state it was in; no module came back.\<close>

definition quiet :: "Agent \<Rightarrow> Agent \<Rightarrow> bool" where
  "quiet a b \<longleftrightarrow> grows a b \<and> ag_state b = ag_state a \<and> ag_disabled a \<subseteq> ag_disabled b \<and> (writes a \<longrightarrow> writes b)"

definition hook_quiet :: "'a hook_fn \<Rightarrow> bool" where
  "hook_quiet f \<longleftrightarrow> (\<forall>a. agent_ok a \<longrightarrow> quiet a (snd (f a)))"

definition tool_quiet :: "Tool \<Rightarrow> bool" where
  "tool_quiet t \<longleftrightarrow> (\<forall>args a. agent_ok a \<longrightarrow> quiet a (snd (tl_run t args a)))"

definition optional :: "('f \<Rightarrow> bool) \<Rightarrow> 'f option \<Rightarrow> bool" where
  "optional p x \<longleftrightarrow> (\<forall>f. x = Some f \<longrightarrow> p f)"

definition module_ok :: "Module \<Rightarrow> bool" where
  "module_ok m \<longleftrightarrow>
     optional hook_quiet (md_start m) \<and> optional hook_quiet (md_request m) \<and>
     optional (\<lambda>f. \<forall>c. hook_quiet (f c)) (md_gate m) \<and>
     optional (\<lambda>f. \<forall>a. \<forall>t \<in> set (f a). tool_quiet t) (md_session_tools m) \<and>
     optional (\<lambda>f. \<forall>c r. hook_quiet (f c r)) (md_tool_result m) \<and>
     optional hook_quiet (md_turn_end m) \<and> optional (\<lambda>f. \<forall>i. hook_quiet (f i)) (md_before_stop m) \<and>
     optional (\<lambda>f. \<forall>r. hook_quiet (f r)) (md_before_compaction m) \<and> optional hook_quiet (md_after_compaction m) \<and>
     optional hook_quiet (md_resume m) \<and> optional hook_quiet (md_end m) \<and> optional hook_quiet (md_report m)"

lemma quiet_refl: "agent_ok a \<Longrightarrow> quiet a a"
  by (simp add: quiet_def grows_refl)

lemma quiet_trans: "quiet a b \<Longrightarrow> quiet b c \<Longrightarrow> quiet a c"
  by (auto simp: quiet_def intro: grows_trans)

lemma quiet_ok: "quiet a b \<Longrightarrow> agent_ok b"
  by (auto simp: quiet_def grows_def)

interpretation calm: extension agent_ok quiet
  by unfold_locales (auto intro: quiet_refl quiet_trans quiet_ok)

lemma quiet_grows: "quiet a b \<Longrightarrow> grows a b"
  by (simp add: quiet_def)

lemma project_payload_state: "payload_type q \<noteq> ''state_change'' \<Longrightarrow> pr_state (project_payload st q) = pr_state st"
  by (cases q) (simp_all add: count_message_def Let_def split: option.split)

lemma h_append_state:
  assumes "h_append p a = (r, a')" "agent_ok a" "payload_type p \<notin> {''session'', ''state_change''}"
  shows "ag_state a' = ag_state a"
proof -
  have "payload_type p \<noteq> ''session''" using assms(3) by simp
  with assms(1,2) show ?thesis
  proof (cases rule: h_append_cases)
  case (appended e)
  then obtain q where "DecodeData e = Inr q" "payload_type q = payload_type p" using ValidateEvent_decodes by metis
  then have "ag_state a' = pr_state (project_payload ((projection_of (ag_log a))\<lparr>pr_last := ev_id e\<rparr>) q)"
    using appended by (simp add: projection_of_snoc)
    with \<open>payload_type q = _\<close> show ?thesis using assms(3) by (simp add: project_payload_state)
  qed simp
qed

lemma h_append_sel [simp]:
  "ag_disabled (snd (h_append p a)) = ag_disabled a" "ag_halted (snd (h_append p a)) = ag_halted a"
  "ag_env (snd (h_append p a)) = ag_env a"
  by (simp_all add: h_append_def split: prod.split)

lemma append_locked_closed: "append_locked en t raw s = (r, s') \<Longrightarrow> se_closed s' = se_closed s"
  by (erule append_locked_cases) simp_all

lemma h_append_keeps_writes: "writes a \<Longrightarrow> writes (snd (h_append p a))"
  by (auto simp: writes_def h_append_def Append_def append_finish_sel dest: append_locked_closed split: prod.splits sum.splits)

lemma h_append_quiet:
  assumes "agent_ok a" "payload_type p \<notin> {''session'', ''state_change''}"
  shows "quiet a (snd (h_append p a))"
proof -
  obtain r b where h: "h_append p a = (r, b)" by fastforce
  with assms show ?thesis using h_append_grows [OF h] h_append_state [OF h] h_append_keeps_writes [of a p] h_append_sel(1) [of p a]
    by (simp add: quiet_def)
qed

lemma disable_quiet: "agent_ok a \<Longrightarrow> quiet a (disable name hook e a)"
proof -
  assume "agent_ok a"
  then have "quiet (a\<lparr>ag_disabled := insert name (ag_disabled a)\<rparr>) (disable name hook e a)"
    unfolding disable_def by (intro h_append_quiet) (simp_all add: notice_def)
  moreover have "quiet a (a\<lparr>ag_disabled := insert name (ag_disabled a)\<rparr>)"
    using \<open>agent_ok a\<close> by (auto simp: quiet_def grows_refl writes_def)
  ultimately show ?thesis using quiet_trans by blast
qed

lemma disable_disabled: "name \<in> ag_disabled (disable name hook e a)"
  by (simp add: disable_def)

lemma hook_call_quiet:
  assumes "hook_quiet f" "agent_ok a"
  shows "quiet a (snd (hook_call name hook f a))"
proof -
  have q: "quiet a (snd (f a))" using assms by (simp add: hook_quiet_def)
  then have "quiet a (disable name hook e (snd (f a)))" for e by (rule calm.then_later) (rule disable_quiet)
  with q show ?thesis using assms(2) by (auto simp: hook_call_def quiet_refl split: prod.split ended.split)
qed

text \<open>A step of a dispatcher is quiet: its hook ran, and after an error the module is disabled.\<close>

lemma called:
  assumes "hook_call name hook f a = (r, b)" "hook_quiet f" "agent_ok a"
  shows "quiet a b" "quiet a (disable name h e b)"
  using hook_call_quiet [OF assms(2,3), of name hook] assms(1) disable_quiet quiet_ok quiet_trans by (metis snd_conv)+

lemma blocks_step_quiet:
  assumes "optional hook_quiet (sel m)" "agent_ok (snd acc)"
  shows "quiet (snd acc) (snd (blocks_step hook sel acc m))"
proof (cases "sel m")
  case (Some f)
  then have f: "hook_quiet f" using assms(1) by (simp add: optional_def)
  obtain r b where h: "hook_call (md_name m) hook f (snd acc) = (r, b)" by fastforce
  show ?thesis using called [OF h f assms(2)]
    by (cases r; cases "the r") (simp_all add: blocks_step_def Some h)
qed (simp add: blocks_step_def assms(2) quiet_refl)

lemma notify_step_quiet:
  assumes "optional hook_quiet (sel m)" "agent_ok a"
  shows "quiet a (notify_step hook sel a m)"
  using assms by (auto simp: notify_step_def optional_def quiet_refl hook_call_quiet split: option.split)

lemma resume_step_quiet:
  assumes "module_ok m" "agent_ok a"
  shows "quiet a (resume_step a m)"
proof (cases "md_resume m")
  case (Some f)
  then have f: "hook_quiet f" using assms(1) by (simp add: module_ok_def optional_def)
  obtain r b where h: "hook_call (md_name m) ''SessionResume'' f a = (r, b)" by fastforce
  show ?thesis using called [OF h f assms(2)]
    by (cases r; cases "the r") (simp_all add: resume_step_def Some h)
qed (simp add: resume_step_def assms(2) quiet_refl)

lemma report_step_quiet:
  assumes "module_ok m" "agent_ok (snd acc)"
  shows "quiet (snd acc) (snd (report_step acc m))"
proof (cases "md_report m")
  case (Some f)
  then have f: "hook_quiet f" using assms(1) by (simp add: module_ok_def optional_def)
  obtain r b where h: "hook_call (md_name m) ''Report'' f (snd acc) = (r, b)" by fastforce
  show ?thesis using called [OF h f assms(2)]
    by (cases r; cases "the r") (simp_all add: report_step_def Some h)
qed (simp add: report_step_def assms(2) quiet_refl)

lemma stop_step_quiet:
  assumes "module_ok m" "agent_ok (snd acc)"
  shows "quiet (snd acc) (snd (stop_step info acc m))"
proof (cases "md_before_stop m")
  case (Some f)
  then have f: "hook_quiet (f info)" using assms(1) by (simp add: module_ok_def optional_def)
  obtain r b where h: "hook_call (md_name m) ''BeforeStop'' (f info) (snd acc) = (r, b)" by fastforce
  show ?thesis using called(1) [OF h f assms(2)]
    by (cases r) (simp_all add: stop_step_def Some h)
qed (simp add: stop_step_def assms(2) quiet_refl)

lemma before_compaction_step_quiet:
  assumes "module_ok m" "agent_ok (snd acc)"
  shows "quiet (snd acc) (snd (before_compaction_step rg acc m))"
proof (cases "md_before_compaction m")
  case (Some f)
  then have f: "hook_quiet (f rg)" using assms(1) by (simp add: module_ok_def optional_def)
  obtain r b where h: "hook_call (md_name m) ''BeforeCompaction'' (f rg) (snd acc) = (r, b)" by fastforce
  show ?thesis using called(1) [OF h f assms(2)]
    by (cases r) (simp_all add: before_compaction_step_def Some h)
qed (simp add: before_compaction_step_def assms(2) quiet_refl)

lemma notice_quiet: "agent_ok a \<Longrightarrow> quiet a (snd (h_append (notice level msg) a))"
  by (rule h_append_quiet) (simp_all add: notice_def)

lemma request_step_quiet:
  assumes "module_ok m" "agent_ok (snd acc)"
  shows "quiet (snd acc) (snd (request_step acc m))"
proof (cases "md_request m")
  case (Some f)
  then have f: "hook_quiet f" using assms(1) by (simp add: module_ok_def optional_def)
  obtain r b where h: "hook_call (md_name m) ''BeforeRequest'' f (snd acc) = (r, b)" by fastforce
  have "quiet (snd x) (snd (request_block name x blk))" if "agent_ok (snd x)" for x name blk
    using notice_quiet that quiet_refl by (simp add: request_block_def)
  then have "quiet b (snd (foldl (request_block (md_name m)) (fst acc, b) blocks))" for blocks
    using calm.fold_later [of blocks snd "request_block (md_name m)" "(fst acc, b)"] quiet_ok [OF called(1) [OF h f assms(2)]] by simp
  then show ?thesis using called [OF h f assms(2)] quiet_trans
    by (cases r; cases "the r") (simp_all add: request_step_def Some h)
qed (simp add: request_step_def assms(2) quiet_refl)

definition modules_ok :: "Module list \<Rightarrow> bool" where
  "modules_ok ms \<longleftrightarrow> (\<forall>m \<in> set ms. module_ok m)"

lemma dispatch_quiet:
  assumes "modules_ok ms" "agent_ok a"
  shows "quiet a (snd (SessionStart ms a))" "quiet a (snd (AfterCompaction ms a))" "quiet a (snd (BeforeRequest ms a))"
    "quiet a (snd (BeforeStop ms info a))" "quiet a (ToolResult ms call res a)" "quiet a (TurnEnd ms a)"
    "quiet a (SessionEnd ms a)" "quiet a (snd (BeforeCompaction ms rg a))" "quiet a (SessionResume ms a)"
    "quiet a (snd (Report ms a))"
proof -
  have m: "m \<in> set ms \<Longrightarrow> module_ok m" for m using assms(1) by (simp add: modules_ok_def)
  note fold = calm.fold_later [where f = snd] calm.fold_later [where f = "\<lambda>a. a"]
  show "quiet a (snd (SessionStart ms a))" "quiet a (snd (AfterCompaction ms a))"
    unfolding SessionStart_def AfterCompaction_def
    using fold(1) [of ms "blocks_step ''SessionStart'' md_start" "([], a)"]
      fold(1) [of ms "blocks_step ''AfterCompaction'' md_after_compaction" "([], a)"] m blocks_step_quiet assms(2)
    by (simp_all add: module_ok_def)
  show "quiet a (snd (BeforeRequest ms a))" "quiet a (snd (BeforeStop ms info a))"
    unfolding BeforeRequest_def BeforeStop_def
    using fold(1) [of ms request_step "([], a)"] fold(1) [of ms "stop_step info" "([], a)"] m
      request_step_quiet stop_step_quiet assms(2) by simp_all
  show "quiet a (snd (BeforeCompaction ms rg a))" "quiet a (snd (Report ms a))"
    unfolding BeforeCompaction_def Report_def
    using fold(1) [of ms "before_compaction_step rg" "([], a)"] fold(1) [of ms report_step "(_, a)"] m
      before_compaction_step_quiet report_step_quiet assms(2) by simp_all
  have "optional hook_quiet (map_option (\<lambda>f. f call res) (md_tool_result m))" if "m \<in> set ms" for m
    using m [OF that] by (auto simp: module_ok_def optional_def)
  then show "quiet a (ToolResult ms call res a)"
    unfolding ToolResult_def using assms(2) by (intro fold(2) notify_step_quiet) simp_all
  show "quiet a (TurnEnd ms a)"
    unfolding TurnEnd_def using assms(2) m by (intro fold(2) notify_step_quiet) (simp_all add: module_ok_def)
  show "quiet a (SessionEnd ms a)"
    unfolding SessionEnd_def using assms(2) m by (intro fold(2) notify_step_quiet) (simp_all add: module_ok_def)
  show "quiet a (SessionResume ms a)"
    unfolding SessionResume_def using assms(2) m by (intro fold(2) resume_step_quiet)
qed

lemma gate_from_quiet: "modules_ok ms \<Longrightarrow> agent_ok a \<Longrightarrow> quiet a (snd (gate_from final ms call a))"
proof (induction ms arbitrary: final a)
  case (Cons m ms)
  show ?case
  proof (cases "md_gate m")
    case None
    then show ?thesis using Cons by (simp add: modules_ok_def)
  next
    case (Some g)
    then have g: "hook_quiet (g call)" using Cons(2) by (simp add: modules_ok_def module_ok_def optional_def)
    obtain r b where h: "hook_call (md_name m) ''GateTool'' (g call) a = (r, b)" by fastforce
    have b: "quiet a b" using called(1) [OF h g Cons(3)] .
    have "quiet a (snd (gate_from f ms call b))" for f
      using Cons(1) [of b f] Cons(2) quiet_trans [OF b] quiet_ok [OF b] by (simp add: modules_ok_def)
    then show ?thesis using b by (simp add: Some h split: option.split Decision.split)
  qed
qed (simp add: quiet_refl)

lemma GateTool_quiet: "modules_ok ms \<Longrightarrow> agent_ok a \<Longrightarrow> quiet a (snd (GateTool ms call a))"
  by (simp add: GateTool_def gate_from_quiet)

section \<open>Properties\<close>

text \<open>The registry gives the operations what they rely on of their hooks. Whatever its modules do, as
  long as they only append, and whether their calls return, crash or are cancelled, the hooks built
  from them extend the log by valid events and leave the state.\<close>
theorem registry_hooks_ok:
  assumes "modules_ok ms"
  shows "hooks_ok (registry_hooks ms)"
  using dispatch_quiet [OF assms] quiet_grows quiet_def by (auto simp: hooks_ok_def registry_hooks_def)

definition quiet_module :: "string \<Rightarrow> Module" where
  "quiet_module name = \<lparr>md_name = name, md_init = Init_ok, md_start = None, md_request = None, md_gate = None,
     md_tools = None, md_session_tools = None, md_tool_result = None, md_turn_end = None, md_before_stop = None,
     md_before_compaction = None, md_after_compaction = None, md_resume = None, md_end = None, md_report = None\<rparr>"

text \<open>A module whose end hook crashes after a notice.\<close>

definition crashing_module :: Module where
  "crashing_module = (quiet_module ''frail'')\<lparr>md_end := Some (\<lambda>a. (Crashed ''panic: nil'', snd (h_append (notice ''info'' ''ending'') a)))\<rparr>"

lemma quiet_module_ok: "module_ok (quiet_module n)"
  by (simp add: module_ok_def quiet_module_def optional_def)

lemma crashing_module_ok: "module_ok crashing_module"
  by (simp add: module_ok_def crashing_module_def quiet_module_def optional_def hook_quiet_def notice_quiet)

lemma registry_hooks_ok_witness: "hooks_ok (registry_hooks [crashing_module])"
  using registry_hooks_ok [of "[crashing_module]"] crashing_module_ok by (simp add: modules_ok_def)

text \<open>A module that crashed has no say any more. From the moment its name is in the session's set,
  tool calls are decided as if the registry did not have it, a gate that would have denied included.\<close>
theorem GateTool_disabled:
  assumes "modules_ok ms" "quiet a b"
  shows "GateTool ms call b = GateTool (filter (\<lambda>m. md_name m \<notin> ag_disabled a) ms) call b"
proof -
  have "gate_from final ms call b = gate_from final (filter (\<lambda>m. md_name m \<notin> ag_disabled a) ms) call b" for final
    using assms
  proof (induction ms arbitrary: final b)
    case (Cons m ms)
    show ?case
    proof (cases "md_gate m")
      case None
      then show ?thesis using Cons by (simp add: modules_ok_def)
    next
      case (Some g)
      then have g: "hook_quiet (g call)" using Cons(2) by (simp add: modules_ok_def module_ok_def optional_def)
      obtain r c where h: "hook_call (md_name m) ''GateTool'' (g call) b = (r, c)" by fastforce
      have "quiet a c" using called(1) [OF h g] Cons(3) quiet_ok quiet_trans by blast
      then have i: "gate_from f ms call c = gate_from f (filter (\<lambda>m. md_name m \<notin> ag_disabled a) ms) call c" for f
        using Cons by (simp add: modules_ok_def)
      show ?thesis
      proof (cases "md_name m \<in> ag_disabled a")
        case True
        then have "md_name m \<in> ag_disabled b" using Cons(3) by (auto simp: quiet_def)
        then have "r = None" "c = b" using h by (simp_all add: hook_call_def)
        then show ?thesis using True i by (simp add: Some h)
      next
        case False
        then show ?thesis using i by (simp add: Some h split: option.split Decision.split)
      qed
    qed
  qed simp
  then show ?thesis by (simp add: GateTool_def)
qed

text \<open>A gate that denies every call.\<close>

definition denying_module :: Module where
  "denying_module = (quiet_module ''guard'')\<lparr>md_gate := Some (\<lambda>_ a. (Completed (allow\<lparr>vd_decision := Deny\<rparr>), a))\<rparr>"

lemma denying_module_ok: "module_ok denying_module"
  by (simp add: module_ok_def denying_module_def quiet_module_def optional_def hook_quiet_def quiet_refl)

definition sample_call :: ToolCallData where
  "sample_call = \<lparr>tc_call = ''c1'', tc_tool = ''bash'', tc_args = None, tc_source = ''model''\<rparr>"

lemma GateTool_disabled_witness:
  "GateTool [denying_module] sample_call (disable ''guard'' ''TurnEnd'' ''timed out'' sample_agent) =
     (allow, disable ''guard'' ''TurnEnd'' ''timed out'' sample_agent)"
proof -
  let ?b = "disable ''guard'' ''TurnEnd'' ''timed out'' sample_agent"
  have "quiet ?b ?b" using disable_quiet [OF sample_agent_ok] quiet_ok quiet_refl by blast
  from GateTool_disabled [OF _ this, of "[denying_module]" sample_call] show ?thesis
    using denying_module_ok disable_disabled [of "''guard''"]
    by (simp add: modules_ok_def denying_module_def quiet_module_def GateTool_def)
qed

text \<open>The answers of all gates, as if none of them ended the asking.\<close>

fun gate_answers :: "Module list \<Rightarrow> ToolCallData \<Rightarrow> Agent \<Rightarrow> Verdict list" where
  "gate_answers [] call a = []"
| "gate_answers (m # ms) call a =
     (case md_gate m of
        None \<Rightarrow> gate_answers ms call a
      | Some g \<Rightarrow>
          (case hook_call (md_name m) ''GateTool'' (g call) a of
             (None, a') \<Rightarrow> gate_answers ms call a'
           | (Some v, a') \<Rightarrow> v # gate_answers ms call a'))"

definition refuses :: "Verdict \<Rightarrow> bool" where
  "refuses v \<longleftrightarrow> vd_decision v = Deny \<or> vd_decision v = Halt"

lemma gate_from_answers:
  "fst (gate_from final ms call a) =
     (case List.find refuses (gate_answers ms call a) of Some v \<Rightarrow> v
      | None \<Rightarrow> if vd_decision final = Allow
          then (case List.find (\<lambda>v. vd_decision v = Ask) (gate_answers ms call a) of Some v \<Rightarrow> v | None \<Rightarrow> final)
          else final)"
  by (induction final ms call a rule: gate_from.induct)
     (auto simp: refuses_def split: option.split prod.split Decision.split)

text \<open>C20: The verdict on a tool call. It is the first refusal among the answers of all gates, were they all
  asked; without one it is the first request to ask, and without that the call is allowed. A gate that
  crashed, timed out or is disabled has no answer.\<close>
theorem GateTool_verdict:
  "fst (GateTool ms call a) =
     (case List.find refuses (gate_answers ms call a) of Some v \<Rightarrow> v
      | None \<Rightarrow> (case List.find (\<lambda>v. vd_decision v = Ask) (gate_answers ms call a) of Some v \<Rightarrow> v | None \<Rightarrow> allow))"
  by (simp add: GateTool_def gate_from_answers) (simp add: allow_def)

section \<open>Tool calls\<close>

text \<open>Tools that only extend the log, and classify their errors with kinds the protocol knows.\<close>

definition error_ok :: "ToolError \<Rightarrow> bool" where
  "error_ok x \<longleftrightarrow> (fst (ClassifyToolError x) = [] \<or> IsToolErrorKind (fst (ClassifyToolError x))) \<and>
     (\<forall>i. snd (ClassifyToolError x) = Some i \<longrightarrow> int64_ok i)"

definition tool_ok :: "Tool \<Rightarrow> bool" where
  "tool_ok t \<longleftrightarrow> tool_quiet t \<and> (\<forall>args a out x b. agent_ok a \<longrightarrow> tl_run t args a = ((out, Some x), b) \<longrightarrow> error_ok x)"

definition offered_ok :: "Tool list \<Rightarrow> Module list \<Rightarrow> bool" where
  "offered_ok tools ms \<longleftrightarrow> modules_ok ms \<and> (\<forall>t \<in> set tools. tool_ok t) \<and>
     (\<forall>m \<in> set ms. \<forall>f. md_session_tools m = Some f \<longrightarrow> (\<forall>a. \<forall>t \<in> set (f a). tool_ok t))"

lemma take_tools_in: "set (fst (take_tools taken seen ts)) \<subseteq> set ts"
  by (induction ts arbitrary: seen) (auto split: prod.split simp: image_iff, (metis fst_conv subsetD)+)

lemma session_tools_in: "t \<in> set (session_tools_from taken seen a ms) \<Longrightarrow> \<exists>m \<in> set ms. \<exists>f. md_session_tools m = Some f \<and> t \<in> set (f a)"
proof (induction ms arbitrary: seen)
  case (Cons m ms)
  show ?case
  proof (cases "md_session_tools m")
    case None
    then show ?thesis using Cons by simp
  next
    case (Some f)
    obtain ts seen' where ts: "take_tools taken seen (f a) = (ts, seen')" by fastforce
    with Cons Some take_tools_in [of taken seen "f a"] show ?thesis by (auto split: if_splits)
  qed
qed simp

lemma find_tool_ok:
  assumes "find_tool tools ms a name = Some t" "offered_ok tools ms"
  shows "tool_ok t \<and> tl_name t = name"
proof (cases "List.find (\<lambda>t. tl_name t = name) tools")
  case None
  then have "List.find (\<lambda>t. tl_name t = name) (sessionTools tools ms a) = Some t" using assms(1) by (simp add: find_tool_def)
  then have "t \<in> set (sessionTools tools ms a)" "tl_name t = name" by (auto simp: find_Some_iff)
  then show ?thesis using session_tools_in assms(2) unfolding sessionTools_def SessionTools_def offered_ok_def by blast
next
  case (Some x)
  then have "x = t" using assms(1) by (simp add: find_tool_def)
  moreover have "x \<in> set tools" "tl_name x = name" using Some by (auto simp: find_Some_iff)
  ultimately show ?thesis using assms(2) by (simp add: offered_ok_def)
qed

text \<open>A call that is let through: no gate refused it, and where one asks, the session bypasses or a person approved.\<close>

definition let_through :: "Asker \<Rightarrow> ToolCallData \<Rightarrow> Verdict \<Rightarrow> Agent \<Rightarrow> bool" where
  "let_through asker call v a \<longleftrightarrow> vd_decision v = Allow \<or>
     vd_decision v = Ask \<and> (op_mode (pr_options (projection_of (ag_log a))) = ''bypass'' \<or> ask_refusal asker call v = None)"

definition halt_signal :: "Verdict \<Rightarrow> string option \<Rightarrow> string option" where
  "halt_signal v old = (if vd_decision v = Halt
     then Some (if vd_summary v = [] then ''a tool gate stopped the session'' else vd_summary v) else old)"

lemma executeTool_cases:
  assumes "find_tool tools ms a (tc_tool call) = Some tool" "GateTool ms call a = (v, a1)" "agent_ok a1"
  shows "\<exists>why. executeTool tools ms asker call a =
    Some (if let_through asker call v a1 then run_tool tool call a1
          else (tool_fail call ''denied'' why, a1\<lparr>ag_halted := halt_signal v (ag_halted a1)\<rparr>))"
proof -
  let ?mode = "op_mode (pr_options (projection_of (ag_log a1)))"
  show ?thesis
  proof (cases "vd_decision v")
    case Ask
    show ?thesis
    proof (cases "?mode = ''bypass''")
      case True
      then show ?thesis by (simp add: executeTool_def assms(1,2) Ask let_through_def h_state_ok [OF assms(3)])
    next
      case False
      then show ?thesis
        by (cases "ask_refusal asker call v")
           (auto simp: executeTool_def assms(1,2) Ask let_through_def h_state_ok [OF assms(3)] halt_signal_def)
    qed
  qed (auto simp: executeTool_def assms(1,2) let_through_def halt_signal_def)
qed

text \<open>What a call comes to, from the answers of all its gates.\<close>

abbreviation gate_question :: "ToolCallData \<Rightarrow> Verdict \<Rightarrow> string" where
  "gate_question call w \<equiv> (if vd_summary w = [] then tc_tool call else vd_summary w)"

lemma executeTool_refused:
  assumes "find_tool tools ms a (tc_tool call) = Some tool" "GateTool ms call a = (v, a1)"
    "List.find refuses (gate_answers ms call a) = Some w"
  shows "executeTool tools ms asker call a =
    Some (tool_fail call ''denied'' (''denied: '' @ vd_reason w), a1\<lparr>ag_halted := halt_signal w (ag_halted a1)\<rparr>)"
proof -
  have v: "v = w" using gate_from_answers [of allow ms call a] assms(2,3) by (simp add: GateTool_def)
  have "refuses w" using assms(3) by (auto simp: find_Some_iff)
  then consider "vd_decision w = Deny" | "vd_decision w = Halt" by (auto simp: refuses_def)
  then show ?thesis by cases (simp_all add: executeTool_def assms(1,2) v halt_signal_def)
qed

lemma executeTool_allowed:
  assumes "find_tool tools ms a (tc_tool call) = Some tool" "GateTool ms call a = (v, a1)"
    "List.find refuses (gate_answers ms call a) = None"
    "List.find (\<lambda>w. vd_decision w = Ask) (gate_answers ms call a) = None"
  shows "executeTool tools ms asker call a = Some (run_tool tool call a1)"
proof -
  have "v = allow" using gate_from_answers [of allow ms call a] assms(2,3,4) by (simp add: GateTool_def)
  then show ?thesis by (simp add: executeTool_def assms(1,2) allow_def)
qed

lemma executeTool_asked:
  assumes "find_tool tools ms a (tc_tool call) = Some tool" "GateTool ms call a = (v, a1)" "agent_ok a1"
    "List.find refuses (gate_answers ms call a) = None"
    "List.find (\<lambda>w. vd_decision w = Ask) (gate_answers ms call a) = Some w"
  shows "executeTool tools ms asker call a = Some
    (if op_mode (pr_options (projection_of (ag_log a1))) = ''bypass'' \<or> ask_refusal asker call w = None then run_tool tool call a1
     else (tool_fail call ''denied'' (the (ask_refusal asker call w)), a1))"
proof -
  have v: "v = w" using gate_from_answers [of allow ms call a] assms(2,4,5) by (simp add: GateTool_def allow_def)
  have "vd_decision w = Ask" using assms(5) by (auto simp: find_Some_iff)
  then show ?thesis
    by (cases "ask_refusal asker call w") (simp_all add: executeTool_def assms(1,2) v h_state_ok [OF assms(3)])
qed

lemma run_tool_outcome:
  "\<exists>res b out e. run_tool tool call a = (res, b) \<and> tl_run tool (tc_args call) a = ((out, e), b) \<and>
     tr_call res = tc_call call \<and> tr_tool res = tc_tool call \<and>
     (case e of None \<Rightarrow> tr_status res = ''ok'' \<and> tr_content res = out
      | Some x \<Rightarrow> tr_status res = ''error'' \<and> (tr_kind res, tr_exit res) = ClassifyToolError x)"
proof -
  obtain out e b where r: "tl_run tool (tc_args call) a = ((out, e), b)" by (metis prod.exhaust)
  obtain kind exit where "ClassifyToolError (the e) = (kind, exit)" by fastforce
  with r show ?thesis by (cases e) (simp_all add: run_tool_def tool_fail_def)
qed

text \<open>C3: A tool runs exactly when it is cleared, whatever its gates and the person do: no gate's answer denies
  or halts, and where a gate asks, the session bypasses permissions or the person asked the first such question
  said yes. Then what is answered is what the tool's own function did. Otherwise the tool does not run: the answer
  is an error of kind denied, naming the first refusal or what the person said, and the session is as the gates
  left it, but for the signal of a gate that halts.\<close>
theorem executeTool_gated:
  fixes asker :: Asker
  assumes "find_tool tools ms a (tc_tool call) = Some tool" "modules_ok ms" "agent_ok a" "snd (GateTool ms call a) = a1"
  defines "answers \<equiv> gate_answers ms call a"
  defines "cleared \<equiv> (\<forall>w \<in> set answers. vd_decision w \<noteq> Deny \<and> vd_decision w \<noteq> Halt) \<and>
    (\<forall>w. List.find (\<lambda>w. vd_decision w = Ask) answers = Some w \<longrightarrow>
       op_mode (pr_options (projection_of (ag_log a1))) = ''bypass'' \<or>
       (\<exists>f why ans. asker = Some f \<and> f call (gate_question call w) (vd_risk w) = (True, why, ans)))"
  shows "\<exists>res b. executeTool tools ms asker call a = Some (res, b) \<and> tr_call res = tc_call call \<and> tr_tool res = tc_tool call \<and>
    (cleared \<longrightarrow> (\<exists>out e. tl_run tool (tc_args call) a1 = ((out, e), b) \<and>
       (case e of None \<Rightarrow> tr_status res = ''ok'' \<and> tr_content res = out
        | Some x \<Rightarrow> tr_status res = ''error'' \<and> (tr_kind res, tr_exit res) = ClassifyToolError x))) \<and>
    (\<not> cleared \<longrightarrow> tr_status res = ''error'' \<and> tr_kind res = ''denied'' \<and> b = a1\<lparr>ag_halted := ag_halted b\<rparr>) \<and>
    (\<forall>w. List.find (\<lambda>w. vd_decision w = Deny \<or> vd_decision w = Halt) answers = Some w \<longrightarrow> tr_content res = ''denied: '' @ vd_reason w \<and>
       (vd_decision w = Deny \<longrightarrow> b = a1) \<and> (vd_decision w = Halt \<longrightarrow>
         ag_halted b = Some (if vd_summary w = [] then ''a tool gate stopped the session'' else vd_summary w))) \<and>
    (\<forall>w f why. (\<forall>u \<in> set answers. vd_decision u \<noteq> Deny \<and> vd_decision u \<noteq> Halt) \<and>
       List.find (\<lambda>w. vd_decision w = Ask) answers = Some w \<and> op_mode (pr_options (projection_of (ag_log a1))) \<noteq> ''bypass'' \<and>
       asker = Some f \<and> f call (gate_question call w) (vd_risk w) = (False, why, True) \<longrightarrow>
       b = a1 \<and> tr_content res = ''denied by the user: '' @ (if why = [] then ''not approved'' else why))"
proof -
  obtain v where g: "GateTool ms call a = (v, a1)" using assms(4) by (cases "GateTool ms call a") simp
  have ok: "agent_ok a1" using GateTool_quiet [OF assms(2,3), of call] g quiet_ok by simp
  have r: "refuses = (\<lambda>w. vd_decision w = Deny \<or> vd_decision w = Halt)" by (auto simp: refuses_def)
  show ?thesis
  proof (cases "List.find refuses answers")
    case (Some w)
    then have "w \<in> set answers" "refuses w" by (auto simp: find_Some_iff)
    then have n: "\<not> cleared" "vd_decision w = Deny \<or> vd_decision w = Halt"
      "\<not> (\<forall>u \<in> set answers. vd_decision u \<noteq> Deny \<and> vd_decision u \<noteq> Halt)" by (auto simp: cleared_def refuses_def)
    have "executeTool tools ms asker call a =
      Some (tool_fail call ''denied'' (''denied: '' @ vd_reason w), a1\<lparr>ag_halted := halt_signal w (ag_halted a1)\<rparr>)"
      using executeTool_refused [OF assms(1) g] Some by (simp add: answers_def)
    then show ?thesis using n Some [unfolded r] by (auto simp: tool_fail_def halt_signal_def)
  next
    case None
    then have nr: "\<forall>u \<in> set answers. vd_decision u \<noteq> Deny \<and> vd_decision u \<noteq> Halt" by (auto simp: find_None_iff refuses_def)
    note none = None [unfolded r]
    obtain res b out e where t: "run_tool tool call a1 = (res, b)" "tl_run tool (tc_args call) a1 = ((out, e), b)"
      "tr_call res = tc_call call" "tr_tool res = tc_tool call"
      "case e of None \<Rightarrow> tr_status res = ''ok'' \<and> tr_content res = out
        | Some x \<Rightarrow> tr_status res = ''error'' \<and> (tr_kind res, tr_exit res) = ClassifyToolError x"
      using run_tool_outcome [of tool call a1] by blast
    show ?thesis
    proof (cases "List.find (\<lambda>w. vd_decision w = Ask) answers")
      case None
      then have "executeTool tools ms asker call a = Some (res, b)" "cleared"
        using executeTool_allowed [OF assms(1) g] nr none t(1) by (simp_all add: answers_def cleared_def r)
      then show ?thesis using t none None by (intro exI [of _ res] exI [of _ b]) simp
    next
      case (Some w)
      note ex = executeTool_asked [OF assms(1) g ok, of w asker]
      show ?thesis
      proof (cases "op_mode (pr_options (projection_of (ag_log a1))) = ''bypass'' \<or> ask_refusal asker call w = None")
        case True
        then have "executeTool tools ms asker call a = Some (res, b)"
          using ex none Some t(1) by (simp add: answers_def r)
        moreover have "cleared" using True nr Some
          by (auto simp: cleared_def ask_refusal_def split: option.splits prod.splits if_splits)
        ultimately show ?thesis using t none True Some
          by (intro exI [of _ res] exI [of _ b]) (auto simp: ask_refusal_def split: if_splits)
      next
        case False
        then have "executeTool tools ms asker call a = Some (tool_fail call ''denied'' (the (ask_refusal asker call w)), a1)"
          using ex none Some by (auto simp: answers_def r)
        moreover have "\<not> cleared" using False nr Some
          by (auto simp: cleared_def ask_refusal_def split: option.splits prod.splits if_splits)
        ultimately show ?thesis using none Some by (auto simp: tool_fail_def ask_refusal_def)
      qed
    qed
  qed
qed

text \<open>A tool, a call of it, and a gate that asks about every call.\<close>

definition asking_module :: Module where
  "asking_module = (quiet_module ''guard'')\<lparr>md_gate := Some (\<lambda>_ a. (Completed (allow\<lparr>vd_decision := Ask, vd_risk := ''high''\<rparr>), a))\<rparr>"

lemma asking_module_ok: "module_ok asking_module"
  by (simp add: module_ok_def asking_module_def quiet_module_def optional_def hook_quiet_def quiet_refl)

definition sample_tool :: Tool where
  "sample_tool = \<lparr>tl_name = ''bash'', tl_description = [], tl_schema = JObj [], tl_run = (\<lambda>_ a. ((''done'', None), a))\<rparr>"

lemma sample_log_mode: "op_mode (pr_options (projection_of (sample_log [sample_session, sample_said t, sample_answer u]))) = ''auto''"
proof -
  have d: "DecodeData (sample_event 0 sample_session) = Inr sample_session" "DecodeData (sample_event 1 (sample_said t)) = Inr (sample_said t)"
    "DecodeData (sample_event 2 (sample_answer u)) = Inr (sample_answer u)" by (simp_all only: sample_event_decodes samples_ok)
  show ?thesis
    using d [unfolded sample_session_def sample_said_def sample_answer_def]
    by (simp add: projection_of_def sample_log3 decoded_def List.map_filter_simps sample_session_def sample_said_def sample_answer_def as_defs)
qed

lemma executeTool_gated_witness:
  "\<exists>a. agent_ok a \<and>
   (\<exists>res. executeTool [sample_tool] [asking_module] (Some (\<lambda>_ _ _. (False, ''not now'', True))) sample_call a = Some (res, a) \<and>
     tr_kind res = ''denied'' \<and> tr_content res = ''denied by the user: not now'') \<and>
   (\<exists>res. executeTool [sample_tool] [asking_module] (Some (\<lambda>_ _ _. (True, [], True))) sample_call a = Some (res, a) \<and>
     tr_status res = ''ok'' \<and> tr_content res = ''done'')"
proof -
  let ?a = "logged (sample_log [sample_session, sample_said ''hi'', sample_answer ''ok''])"
  let ?ask = "allow\<lparr>vd_decision := Ask, vd_risk := ''high''\<rparr>"
  have ok: "agent_ok ?a" using sample_log_valid3 by simp
  have f: "find_tool [sample_tool] [asking_module] ?a (tc_tool sample_call) = Some sample_tool"
    by (simp add: find_tool_def sample_tool_def sample_call_def)
  have g: "snd (GateTool [asking_module] sample_call ?a) = ?a"
    by (simp add: GateTool_def asking_module_def quiet_module_def hook_call_def logged_def sample_agent_def allow_def)
  have answers: "gate_answers [asking_module] sample_call ?a = [?ask]"
    by (simp add: asking_module_def quiet_module_def hook_call_def logged_def sample_agent_def)
  have mode: "op_mode (pr_options (projection_of (ag_log ?a))) \<noteq> ''bypass''" by (simp add: sample_log_mode)
  have ms: "modules_ok [asking_module]" using asking_module_ok by (simp add: modules_ok_def)
  have run: "tl_run sample_tool (tc_args sample_call) ?a = ((''done'', None), ?a)" by (simp add: sample_tool_def)
  note gated = executeTool_gated [OF f ms ok g]
  have "\<exists>res. executeTool [sample_tool] [asking_module] (Some (\<lambda>_ _ _. (False, ''not now'', True))) sample_call ?a = Some (res, ?a) \<and>
     tr_kind res = ''denied'' \<and> tr_content res = ''denied by the user: not now''"
    using gated [of "Some (\<lambda>_ _ _. (False, ''not now'', True))"] mode unfolding answers by auto
  moreover have "\<exists>res. executeTool [sample_tool] [asking_module] (Some (\<lambda>_ _ _. (True, [], True))) sample_call ?a = Some (res, ?a) \<and>
     tr_status res = ''ok'' \<and> tr_content res = ''done''"
    using gated [of "Some (\<lambda>_ _ _. (True, [], True))"] unfolding answers run by auto
  ultimately show ?thesis using ok by blast
qed

text \<open>What a call answers.\<close>

lemma run_tool_answer:
  assumes "tool_ok tool" "agent_ok a" "run_tool tool call a = (res, b)"
  shows "quiet a b \<and> tr_call res = tc_call call \<and> tr_tool res = tc_tool call \<and> tool_result_ok res \<and>
    (tc_call call \<noteq> [] \<longrightarrow> tc_tool call \<noteq> [] \<longrightarrow> validate_tool_result res = None)"
proof -
  obtain out e c where r: "tl_run tool (tc_args call) a = ((out, e), c)" by (cases "tl_run tool (tc_args call) a") auto
  have q: "quiet a c" using assms(1,2) r unfolding tool_ok_def tool_quiet_def by (metis snd_conv)
  show ?thesis
  proof (cases e)
    case None
    then have "b = c" "res = \<lparr>tr_call = tc_call call, tr_tool = tc_tool call, tr_content = out, tr_status = ''ok'', tr_kind = [], tr_exit = None\<rparr>"
      using assms(3) r by (auto simp: run_tool_def)
    then show ?thesis using q by (simp add: tool_result_ok_def validate_tool_result_def)
  next
    case (Some x)
    obtain kind exit where k: "ClassifyToolError x = (kind, exit)" by fastforce
    have "error_ok x" using assms(1,2) r Some unfolding tool_ok_def by blast
    then have "kind = [] \<or> IsToolErrorKind kind" "\<forall>i. exit = Some i \<longrightarrow> int64_ok i"
      using k by (simp_all add: error_ok_def)
    moreover have "b = c" "res = (tool_fail call kind (if trim_space out \<noteq> [] then out else te_text x))\<lparr>tr_exit := exit\<rparr>"
      using assms(3) r Some k by (auto simp: run_tool_def)
    ultimately show ?thesis using q by (auto simp: tool_result_ok_def validate_tool_result_def tool_fail_def)
  qed
qed

lemma tool_fail_answer:
  assumes "kind \<in> {''denied'', ''not_found''}"
  shows "tr_call (tool_fail call kind why) = tc_call call \<and> tr_tool (tool_fail call kind why) = tc_tool call \<and>
    tool_result_ok (tool_fail call kind why) \<and>
    (tc_call call \<noteq> [] \<longrightarrow> tc_tool call \<noteq> [] \<longrightarrow> validate_tool_result (tool_fail call kind why) = None)"
  using assms by (auto simp: tool_fail_def tool_result_ok_def validate_tool_result_def IsToolErrorKind_def ToolErrorKinds_def)

lemma halted_quiet: "quiet a b \<Longrightarrow> quiet a (b\<lparr>ag_halted := h\<rparr>)"
  by (simp add: quiet_def writes_def)

lemma executeTool_answer:
  assumes "offered_ok tools ms" "agent_ok a"
  shows "\<exists>res b. executeTool tools ms asker call a = Some (res, b) \<and> quiet a b \<and> tr_call res = tc_call call \<and>
    tr_tool res = tc_tool call \<and> tool_result_ok res \<and>
    (tc_call call \<noteq> [] \<longrightarrow> tc_tool call \<noteq> [] \<longrightarrow> validate_tool_result res = None)"
proof (cases "find_tool tools ms a (tc_tool call)")
  case None
  then show ?thesis using tool_fail_answer [of "''not_found''" call] quiet_refl [OF assms(2)] by (simp add: executeTool_def)
next
  case (Some tool)
  obtain v a1 where g: "GateTool ms call a = (v, a1)" by fastforce
  have q: "quiet a a1" using GateTool_quiet [of ms a call] assms g by (simp add: offered_ok_def)
  obtain why where e: "executeTool tools ms asker call a =
    Some (if let_through asker call v a1 then run_tool tool call a1
          else (tool_fail call ''denied'' why, a1\<lparr>ag_halted := halt_signal v (ag_halted a1)\<rparr>))"
    using executeTool_cases [OF Some g quiet_ok [OF q]] by blast
  show ?thesis
  proof (cases "let_through asker call v a1")
    case True
    obtain res b where r: "run_tool tool call a1 = (res, b)" by fastforce
    have "tool_ok tool" using find_tool_ok Some assms(1) by blast
    from run_tool_answer [OF this quiet_ok [OF q] r] True e r show ?thesis using quiet_trans [OF q] by auto
  next
    case False
    then show ?thesis using e tool_fail_answer [of "''denied''" call why] halted_quiet [OF q] by simp
  qed
qed

lemma with_args_ok: "tool_call_ok (with_args call)"
  by (cases "tc_args call") (simp_all add: with_args_def tool_call_ok_def raw_len_def)

lemma invokeTool_logs:
  assumes "offered_ok tools ms" "agent_ok a" "writes a"
  shows "\<exists>res b. invokeTool tools ms asker call a = Some (res, b) \<and> ((\<exists>e. fst (h_append (DToolCall (with_args call)) a) = Inl e) \<and> ag_log b = ag_log a \<and> tr_kind res = ''io'' \<or>
    (\<exists>c mid r post. ag_log b = ag_log a @ c # mid @ r # post \<and> MustData as_tool_call c = Some (with_args call) \<and>
       MustData as_tool_result r = Some res \<and> tr_call res = tc_call call))"
proof -
  let ?c = "with_args call"
  obtain r1 a1 where h: "h_append (DToolCall ?c) a = (r1, a1)" by fastforce
  show ?thesis
  proof (cases r1)
    case (Inl e)
    then have "ag_log a1 = ag_log a" using h_append_Inl [of "DToolCall ?c" a e a1] h assms(2) by simp
    then show ?thesis using Inl h by (simp add: invokeTool_def Let_def tool_fail_def)
  next
    case (Inr c)
    have i: "ag_log a1 = ag_log a @ [c] \<and> agent_ok a1 \<and> DecodeData c = Inr (DToolCall ?c)"
      using h_append_Inr [of "DToolCall ?c" a c a1] h Inr assms(2) with_args_ok by simp
    have "c \<in> set (ag_log a1)" using i by simp
    then have "ValidateEvent c = None" using i ValidateLog_events(2) unfolding agent_ok_def by blast
    then have "validate_tool_call ?c = None" using i by (auto simp: ValidateEvent_None)
    then have ne: "tc_call ?c \<noteq> []" "tc_tool ?c \<noteq> []" by (auto simp: validate_tool_call_def split: if_splits)
    have w: "writes a1" using h_append_keeps_writes [OF assms(3), of "DToolCall ?c"] h by simp
    obtain res' a2 where x: "executeTool tools ms asker ?c a1 = Some (res', a2)" "quiet a1 a2" "tr_call res' = tc_call ?c"
      "tool_result_ok res'" "validate_tool_result res' = None"
      using executeTool_answer [OF assms(1), of a1 asker ?c] i ne by blast
    have w2: "writes a2" "agent_ok a2" using x(2) w quiet_ok by (auto simp: quiet_def)
    obtain r a3 where r: "h_append (DToolResult res') a2 = (Inr r, a3)"
      using h_append_writes [OF w2(2,1), of "DToolResult res'"] x(4,5) by auto
    have j: "ag_log a3 = ag_log a2 @ [r] \<and> agent_ok a3 \<and> DecodeData r = Inr (DToolResult res')"
      using h_append_Inr [OF r w2(2)] x(4) by simp
    have inv: "invokeTool tools ms asker call a = Some (res', ToolResult ms ?c res' a3)"
      by (simp add: invokeTool_def Let_def h Inr x(1) r)
    have "quiet a3 (ToolResult ms ?c res' a3)" using dispatch_quiet(5) [of ms a3 ?c res'] assms(1) j by (simp add: offered_ok_def)
    then have "prefix (ag_log a3) (ag_log (ToolResult ms ?c res' a3))" by (simp add: quiet_def grows_def)
    moreover have "prefix (ag_log a1) (ag_log a2)" using x(2) by (simp add: quiet_def grows_def)
    ultimately obtain mid post where "ag_log (ToolResult ms ?c res' a3) = ag_log a @ c # mid @ r # post"
      using i j by (auto simp: prefix_def)
    moreover have "MustData as_tool_call c = Some ?c" "MustData as_tool_result r = Some res'" "tr_call res' = tc_call call"
      using i j x(3) by (simp_all add: MustData_def as_tool_call_def as_tool_result_def with_args_def)
    ultimately show ?thesis using inv by blast
  qed
qed

text \<open>C16: A tool call that reached the log has its answer in the log behind it. While writes succeed, either the
  call itself was refused, nothing ran and the answer says so, or the log has grown by the call, what
  the gates and the tool appended, and the answer with the call's id, whatever crashed on the way.\<close>
theorem invokeTool_answers:
  assumes "offered_ok tools ms" "agent_ok a" "writes a"
  shows "\<exists>res b. invokeTool tools ms asker call a = Some (res, b) \<and> (ag_log b = ag_log a \<and> tr_kind res = ''io'' \<or>
    (\<exists>c mid r post. ag_log b = ag_log a @ c # mid @ r # post \<and> MustData as_tool_call c = Some (with_args call) \<and>
       MustData as_tool_result r = Some res \<and> tr_call res = tc_call call))"
  using invokeTool_logs [OF assms, of asker call] by blast

lemma sample_tool_ok: "tool_ok sample_tool"
  by (simp add: tool_ok_def tool_quiet_def sample_tool_def quiet_refl)

lemma invokeTool_answers_witness:
  "invokeTool [sample_tool] [denying_module, crashing_module] None sample_call sample_agent \<noteq> None"
proof -
  have "offered_ok [sample_tool] [denying_module, crashing_module]"
    using denying_module_ok crashing_module_ok sample_tool_ok
    by (simp add: offered_ok_def modules_ok_def denying_module_def crashing_module_def quiet_module_def)
  from invokeTool_answers [OF this sample_agent_ok sample_agent_writes] show ?thesis by blast
qed

section \<open>The tools of a session\<close>

lemma add_tools_Inr:
  "add_tools m ts seen = Inr seen' \<Longrightarrow>
     distinct (map tl_name ts) \<and> tl_name ` set ts \<inter> dom seen = {} \<and> dom seen' = dom seen \<union> tl_name ` set ts"
proof (induction ts arbitrary: seen)
  case (Cons t ts)
  then have "seen (tl_name t) = None" "add_tools m ts (seen(tl_name t \<mapsto> m)) = Inr seen'" by (auto split: option.splits)
  with Cons(1) [OF this(2)] show ?case by auto
qed simp

lemma tools_from_Inr:
  "tools_from seen ms = Inr out \<Longrightarrow> distinct (map tl_name out) \<and> tl_name ` set out \<inter> dom seen = {}"
proof (induction ms arbitrary: seen out)
  case (Cons m ms)
  show ?case
  proof (cases "md_tools m")
    case None
    then show ?thesis using Cons by simp
  next
    case (Some ts)
    then obtain seen' rest where r: "add_tools (md_name m) ts seen = Inr seen'" "tools_from seen' ms = Inr rest" "out = ts @ rest"
      using Cons(2) by (auto split: sum.splits)
    from add_tools_Inr [OF r(1)] Cons(1) [OF r(2)] show ?thesis unfolding r(3) by auto
  qed
qed simp

lemma take_tools_names:
  "take_tools taken seen ts = (out, seen') \<Longrightarrow>
     distinct (map tl_name out) \<and> tl_name ` set out \<inter> seen = {} \<and> (\<forall>t \<in> set out. \<not> taken (tl_name t)) \<and> seen' = seen \<union> tl_name ` set out"
proof (induction ts arbitrary: seen out)
  case (Cons t ts)
  show ?case
  proof (cases "tl_name t \<in> seen \<or> taken (tl_name t)")
    case True
    then show ?thesis using Cons by simp
  next
    case False
    then obtain rest where r: "take_tools taken (insert (tl_name t) seen) ts = (rest, seen')" "out = t # rest"
      using Cons(2) by (auto split: prod.splits)
    from Cons(1) [OF r(1)] False show ?thesis unfolding r(2) by auto
  qed
qed simp

lemma session_tools_names:
  "distinct (map tl_name (session_tools_from taken seen a ms)) \<and>
   tl_name ` set (session_tools_from taken seen a ms) \<inter> seen = {} \<and>
   (\<forall>t \<in> set (session_tools_from taken seen a ms). \<not> taken (tl_name t))"
proof (induction ms arbitrary: seen)
  case (Cons m ms)
  show ?case
  proof (cases "md_session_tools m")
    case None
    then show ?thesis using Cons by simp
  next
    case (Some f)
    obtain ts seen' where ts: "take_tools taken seen (f a) = (ts, seen')" by fastforce
    from take_tools_names [OF ts] Cons [of seen] Cons [of seen'] show ?thesis by (auto simp: Some ts)
  qed
qed simp

text \<open>A session is offered no two tools of one name: what every session has is free of duplicates, or the
  daemon does not start, and what modules add for a session is taken only under a free name.\<close>
theorem toolsFor_distinct:
  assumes "Tools ms = Inr tools"
  shows "distinct (map tl_name (toolsFor tools ms' flag a))"
proof -
  have d: "distinct (map tl_name tools)" using tools_from_Inr assms unfolding Tools_def by blast
  note n = session_tools_names [of "has_tool tools" "{}" a ms', folded SessionTools_def sessionTools_def]
  have s1: "distinct (map tl_name (sessionTools tools ms' a))" by (rule n [THEN conjunct1])
  have s2: "\<forall>t \<in> set (sessionTools tools ms' a). tl_name t \<notin> tl_name ` set tools"
    using n [THEN conjunct2, THEN conjunct2] unfolding has_tool_def .
  have "tl_name ` set (sessionTools tools ms' a) \<inter> tl_name ` set tools = {}"
    unfolding disjoint_iff by (metis imageE s2)
  moreover have "tl_name ` set (filter P tools) \<subseteq> tl_name ` set tools" for P by (intro image_mono) (simp add: filter_is_subset)
  ultimately have "tl_name ` set (filter P tools) \<inter> tl_name ` set (sessionTools tools ms' a) = {}" for P by (metis Int_commute disjoint_iff subsetD)
  then show ?thesis unfolding toolsFor_def map_append distinct_append set_map
    by (intro conjI s1 distinct_map_filter [OF d])
qed

definition tool_module :: Module where
  "tool_module = (quiet_module ''tools'')\<lparr>md_tools := Some [sample_tool], md_session_tools := Some (\<lambda>_. [sample_tool])\<rparr>"

lemma toolsFor_distinct_witness: "distinct (map tl_name (toolsFor [sample_tool] [tool_module] None sample_agent))"
proof -
  have "Tools [tool_module] = Inr [sample_tool]" by (simp add: Tools_def tool_module_def quiet_module_def sample_tool_def)
  then show ?thesis by (rule toolsFor_distinct)
qed

end
