(* ===== verification/Stop_Gate.thy ===== *)
theory Stop_Gate
  imports Module_Registry
begin

text \<open>
  \<open>daemon/agent/stop.go\<close>: what happens when the model stops calling tools. Every stop gate is asked; while
  one objects the loop takes another turn, within bounds. \<open>StopConfig\<close> holds the two fields of the
  manager's config that it reads. \<^term>\<open>None\<close> is the panic of \<open>MustData\<close>.

  The lemmas give the veto rounds of a log by recursion from its end, and show that vetoes alone keep a
  session going for only so many rounds.
\<close>

record StopConfig =
  sg_max_vetoes :: int
  sg_no_progress :: int

section \<open>What a gate is told\<close>

text \<open>The loop from the end of the log: the last assistant message and the length of the streak.\<close>

fun stop_scan :: "string \<Rightarrow> nat \<Rightarrow> Event list \<Rightarrow> (string \<times> nat) option" where
  "stop_scan said n [] = Some (said, n)"
| "stop_scan said n (e # es) =
     (if ev_type e \<noteq> ''message'' then stop_scan said n es
      else case MustData as_message e of
        None \<Rightarrow> None
      | Some d \<Rightarrow>
          if msg_role d = ''assistant'' then stop_scan (if said = [] then msg_content d else said) (n + 1) es
          else Some (said, n))"

text \<open>The state of the scan: the rounds so far, the one being read, and whether one is.\<close>

type_synonym VetoScan = "string list list \<times> string list \<times> bool"

fun closeRound :: "VetoScan \<Rightarrow> VetoScan" where
  "closeRound (rounds, cur, open) = (if open \<and> cur \<noteq> [] then rounds @ [cur] else rounds, [], False)"

fun round_step :: "VetoScan \<Rightarrow> Event \<Rightarrow> VetoScan option" where
  "round_step (rounds, cur, open) e =
     (if ev_type e = ''message'' then
        (case MustData as_message e of
           None \<Rightarrow> None
         | Some d \<Rightarrow>
             if msg_role d = ''assistant''
             then (case closeRound (rounds, cur, open) of (rounds', cur', _) \<Rightarrow> Some (rounds', cur', True))
             else Some ([], [], False))
      else if ev_type e = ''tool_call'' then Some ([], [], False)
      else if ev_type e = ''stop_veto'' then
        (if open then map_option (\<lambda>d. (rounds, cur @ [sv_reason d], open)) (MustData as_stop_veto e)
         else Some (rounds, cur, open))
      else Some (rounds, cur, open))"

definition vetoRounds :: "Event list \<Rightarrow> string list list option" where
  "vetoRounds log = map_option (\<lambda>s. fst (closeRound s)) (fold_opt round_step ([], [], False) log)"

definition stopInfo :: "Event list \<Rightarrow> State \<Rightarrow> StopInfo option" where
  "stopInfo log st = do {
     (said, n) \<leftarrow> stop_scan [] 0 (rev log);
     rounds \<leftarrow> vetoRounds log;
     Some \<lparr>si_goal = pr_goal st, si_tasks = pr_tasks st, si_last = said, si_turns = n, si_vetoes = length rounds\<rparr>
   }"

text \<open>\<open>sameReasons\<close> is equality of lists.\<close>

definition stalled :: "Event list \<Rightarrow> string list \<Rightarrow> int \<Rightarrow> bool option" where
  "stalled log reasons n =
     (if n < 2 then Some False
      else map_option (\<lambda>rounds.
        if int (length rounds) < n - 1 then False
        else list_all (\<lambda>r. r = reasons) (drop (length rounds - nat (n - 1)) rounds)) (vetoRounds log))"

section \<open>Asking\<close>

definition appendVetoes :: "StopVetoData list \<Rightarrow> Agent \<Rightarrow> Agent" where
  "appendVetoes vetoes a = foldl (\<lambda>a v. snd (h_append (DStopVeto v) a)) a vetoes"

definition blocked_with :: "Hooks \<Rightarrow> string \<Rightarrow> string \<Rightarrow> Agent \<Rightarrow> ((err + bool) \<times> Agent) option" where
  "blocked_with hk msg reason a = do {
     (r, a') \<leftarrow> finish hk ''blocked'' reason (snd (h_append (notice ''warn'' msg) a));
     Some (case r of Inl e \<Rightarrow> Inl e | Inr _ \<Rightarrow> Inr False, a')
   }"

text \<open>The objections of this round: \<open>log\<close> is the log as it was before the gates were asked.\<close>

definition objected :: "StopConfig \<Rightarrow> Hooks \<Rightarrow> Event list \<Rightarrow> StopVetoData list \<Rightarrow> Agent \<Rightarrow> ((err + bool) \<times> Agent) option" where
  "objected cfg hk log vetoes a = do {
     stuck \<leftarrow> stalled log (map sv_reason vetoes) (sg_no_progress cfg);
     rounds \<leftarrow> vetoRounds log;
     let a' = appendVetoes vetoes a;
     if stuck then
       blocked_with hk (''stopping: the same objections stood for '' @ itoa (sg_no_progress cfg) @ '' turns with no tool use'')
         ''no progress against outstanding vetoes'' a'
     else if int (length rounds) + 1 > sg_max_vetoes cfg then
       blocked_with hk (''stopping: '' @ itoa (sg_max_vetoes cfg) @ '' consecutive veto rounds'') ''veto limit reached'' a'
     else Some (Inr True, a')
   }"

definition turn_complete :: "Agent \<Rightarrow> ((err + bool) \<times> Agent) option" where
  "turn_complete a = do {
     (r, a') \<leftarrow> toIdle ''turn_complete'' a;
     Some (case r of Inl e \<Rightarrow> Inl e | Inr _ \<Rightarrow> Inr False, a')
   }"

definition askStopGate :: "StopConfig \<Rightarrow> Module list \<Rightarrow> Agent \<Rightarrow> ((err + bool) \<times> Agent) option" where
  "askStopGate cfg ms a = do {
     let log = ag_log a;
     st \<leftarrow> h_state a;
     info \<leftarrow> stopInfo log st;
     let (vetoes, a') = BeforeStop ms info a;
     if vetoes = [] then turn_complete a' else objected cfg (registry_hooks ms) log vetoes a'
   }"

definition budgetExceeded :: "State \<Rightarrow> string option" where
  "budgetExceeded st =
     (let b = pr_budget st in
      if bd_turns b > 0 \<and> pr_turns st \<ge> bd_turns b
      then Some (''budget: '' @ itoa (pr_turns st) @ '' of '' @ itoa (bd_turns b) @ '' turns used'')
      else if bd_tokens b > 0 \<and> add64 (us_input (pr_usage st)) (us_output (pr_usage st)) \<ge> bd_tokens b
      then Some ''budget: token cap reached''
      else None)"

section \<open>The rounds of a log\<close>

definition message_by :: "string \<Rightarrow> Event \<Rightarrow> bool" where
  "message_by role e \<longleftrightarrow> (\<exists>d. MustData as_message e = Some d \<and> msg_role d = role)"

text \<open>An event that counts as progress: a tool call, or a message that is not the assistant's.\<close>

definition progress :: "Event \<Rightarrow> bool" where
  "progress e \<longleftrightarrow> ev_type e = ''tool_call'' \<or> ev_type e = ''message'' \<and> \<not> message_by ''assistant'' e"

definition since_progress :: "Event list \<Rightarrow> Event list" where
  "since_progress log = rev (takeWhile (\<lambda>e. \<not> progress e) (rev log))"

text \<open>The reasons in front of the first assistant message, and behind each one.\<close>

fun split_rounds :: "Event list \<Rightarrow> string list \<times> string list list" where
  "split_rounds [] = ([], [])"
| "split_rounds (e # es) =
     (case split_rounds es of (pre, rounds) \<Rightarrow>
        if ev_type e = ''message'' then ([], pre # rounds)
        else case MustData as_stop_veto e of Some d \<Rightarrow> (sv_reason d # pre, rounds) | None \<Rightarrow> (pre, rounds))"

definition close :: "VetoScan \<Rightarrow> string list list" where
  "close s = fst (closeRound s)"

lemma fold_quiet_rounds:
  assumes "\<forall>e \<in> set es. decodes e" "\<forall>e \<in> set es. \<not> progress e" "\<not> open \<longrightarrow> cur = []" "split_rounds es = (pre, rounds)"
  shows "map_option close (fold_opt round_step (rs, cur, open) es) =
    Some (rs @ filter (\<lambda>r. r \<noteq> []) ((if open then [cur @ pre] else []) @ rounds))"
  using assms
proof (induction es arbitrary: rs cur "open" pre rounds)
  case Nil
  then show ?case by (simp add: close_def)
next
  case (Cons e es)
  obtain pre' rounds' where s: "split_rounds es = (pre', rounds')" by fastforce
  have es: "\<forall>e \<in> set es. decodes e" "\<forall>e \<in> set es. \<not> progress e" using Cons.prems by simp_all
  note IH = Cons.IH [OF es _ s]
  consider (msg) d where "ev_type e = ''message''" "MustData as_message e = Some d" "msg_role d = ''assistant''"
    | (veto) d where "ev_type e = ''stop_veto''" "MustData as_stop_veto e = Some d"
    | (other) "ev_type e \<noteq> ''message''" "ev_type e \<noteq> ''stop_veto''" "ev_type e \<noteq> ''tool_call''" "MustData as_stop_veto e = None"
    using Cons.prems(1,2) by (auto simp: progress_def message_by_def MustData_type)
  then show ?case
  proof cases
    case msg
    then have p: "pre = []" "rounds = pre' # rounds'" using Cons.prems(4) s by auto
    show ?thesis
      using IH [of True "[]" "if open \<and> cur \<noteq> [] then rs @ [cur] else rs"] msg p Cons.prems(3) by auto
  next
    case veto
    then have p: "pre = sv_reason d # pre'" "rounds = rounds'" using Cons.prems(4) s by auto
    show ?thesis
    proof (cases "open")
      case True
      then show ?thesis using IH [of True "cur @ [sv_reason d]" rs] veto p by simp
    next
      case False
      then show ?thesis using IH [of False "[]" rs] veto p Cons.prems(3) by simp
    qed
  next
    case other
    then have p: "pre = pre'" "rounds = rounds'" using Cons.prems(4) s by auto
    have "fold_opt round_step (rs, cur, open) (e # es) = fold_opt round_step (rs, cur, open) es" using other by simp
    then show ?thesis unfolding p using IH [of "open" cur rs] Cons.prems(3) by metis
  qed
qed

lemma round_step_total:
  assumes "decodes e"
  shows "round_step s e \<noteq> None"
proof -
  obtain rs cur op where s: "s = (rs, cur, op)" by (cases s)
  consider (m) d where "ev_type e = ''message''" "MustData as_message e = Some d"
    | (v) d where "ev_type e = ''stop_veto''" "MustData as_stop_veto e = Some d"
    | (o) "ev_type e \<noteq> ''message''" "ev_type e \<noteq> ''stop_veto''"
    using MustData_type(1,2) [OF assms] by blast
  then show ?thesis by cases (simp_all add: s, auto)
qed

lemma round_step_progress:
  assumes "decodes e" "progress e"
  shows "round_step s e = Some ([], [], False)"
proof -
  obtain rs cur op where s: "s = (rs, cur, op)" by (cases s)
  show ?thesis
  proof (cases "ev_type e = ''message''")
    case True
    then obtain d where "MustData as_message e = Some d" using MustData_type(1) [OF assms(1)] by blast
    then show ?thesis using True assms(2) by (simp add: s progress_def message_by_def)
  next
    case False
    then show ?thesis using assms(2) by (simp add: s progress_def)
  qed
qed

lemma since_progress_split:
  obtains (all) "log = since_progress log" | (part) xs p where "log = xs @ p # since_progress log" "progress p"
proof -
  let ?t = "takeWhile (\<lambda>e. \<not> progress e) (rev log)" and ?d = "dropWhile (\<lambda>e. \<not> progress e) (rev log)"
  have l: "log = rev ?d @ since_progress log"
    unfolding since_progress_def rev_append [symmetric] takeWhile_dropWhile_id by simp
  show thesis
  proof (cases ?d)
    case Nil
    with l have "log = since_progress log" by (simp only: rev.simps append.simps)
    then show ?thesis by (rule all)
  next
    case (Cons p ds)
    moreover have "progress p" using hd_dropWhile [of "\<lambda>e. \<not> progress e" "rev log"] Cons by simp
    ultimately show ?thesis using l part [of "rev ds" p] by simp
  qed
qed

lemma since_progress_none: "e \<in> set (since_progress log) \<Longrightarrow> \<not> progress e"
  by (auto simp: since_progress_def dest: set_takeWhileD)

lemma vetoRounds_eq:
  assumes "ValidateLog log = None"
  shows "vetoRounds log = Some (filter (\<lambda>r. r \<noteq> []) (snd (split_rounds (since_progress log))))"
proof -
  have d: "\<forall>e \<in> set log. decodes e" using ValidateLog_decodes assms by blast
  obtain pre rounds where s: "split_rounds (since_progress log) = (pre, rounds)" by fastforce
  have dt: "\<forall>e \<in> set (since_progress log). decodes e" using d by (auto simp: since_progress_def dest: set_takeWhileD)
  have tail: "map_option close (fold_opt round_step ([], [], False) (since_progress log)) = Some (filter (\<lambda>r. r \<noteq> []) rounds)"
    using fold_quiet_rounds [OF dt _ _ s, of False "[]" "[]"] since_progress_none by auto
  have "fold_opt round_step ([], [], False) log = fold_opt round_step ([], [], False) (since_progress log)"
  proof (cases rule: since_progress_split [of log])
    case all
    then show ?thesis by simp
  next
    case (part xs p)
    have p: "decodes p" "\<forall>e \<in> set xs. decodes e" using d part(1) by (metis in_set_conv_decomp, metis UnCI set_append)
    obtain s' where "fold_opt round_step ([], [], False) xs = Some s'"
      using fold_opt_total [of xs round_step] round_step_total p(2) by blast
    then have "fold_opt round_step ([], [], False) (xs @ p # since_progress log) = fold_opt round_step ([], [], False) (since_progress log)"
      using round_step_progress [OF p(1) part(2)] by (simp add: fold_opt_append)
    then show ?thesis using part(1) by metis
  qed
  then show ?thesis using tail s by (simp add: vetoRounds_def close_def [symmetric])
qed

text \<open>The rounds of vetoes that count. Of a valid log they are the non-empty lists of reasons logged behind each
  assistant message since the last progress, which is a tool call of anyone or a user's message; what
  was logged before it does not count.\<close>
theorem vetoRounds_valid:
  assumes "ValidateLog log = None"
  shows "vetoRounds log = Some (filter (\<lambda>r. r \<noteq> []) (snd (split_rounds (since_progress log))))"
  using assms by (rule vetoRounds_eq)

lemma vetoRounds_valid_witness:
  "vetoRounds (sample_log [sample_session, sample_said ''hi'', sample_answer ''ok'']) \<noteq> None"
  using vetoRounds_valid [OF sample_log_valid3 [of "''hi''" "''ok''"]] by simp

section \<open>Vetoes run out\<close>

lemma since_progress_append:
  "\<forall>e \<in> set ys. \<not> progress e \<Longrightarrow> since_progress (xs @ ys) = since_progress xs @ ys"
  by (simp add: since_progress_def takeWhile_append)

lemma split_rounds_append:
  "split_rounds (xs @ ys) =
     (case (split_rounds xs, split_rounds ys) of ((px, rx), (py, ry)) \<Rightarrow>
        if rx = [] then (px @ py, ry) else (px, butlast rx @ [last rx @ py] @ ry))"
  by (induction xs) (auto split: prod.splits option.splits)

definition round_count :: "Event list \<Rightarrow> nat" where
  "round_count es = length (filter (\<lambda>r. r \<noteq> []) (snd (split_rounds es)))"

lemma round_count_append: "round_count xs + round_count ys \<le> round_count (xs @ ys)"
proof -
  obtain px rx py ry where s: "split_rounds xs = (px, rx)" "split_rounds ys = (py, ry)" by fastforce
  show ?thesis
  proof (cases rx rule: rev_cases)
    case Nil
    then show ?thesis by (simp add: round_count_def split_rounds_append s)
  next
    case (snoc rs r)
    then show ?thesis by (simp add: round_count_def split_rounds_append s)
  qed
qed

lemma split_rounds_message: "e \<in> set es \<Longrightarrow> ev_type e = ''message'' \<Longrightarrow> snd (split_rounds es) \<noteq> []"
  by (induction es) (auto split: prod.split option.split)

lemma split_rounds_veto:
  "e \<in> set es \<Longrightarrow> ev_type e \<noteq> ''message'' \<Longrightarrow> MustData as_stop_veto e = Some d \<Longrightarrow>
     fst (split_rounds es) \<noteq> [] \<or> (\<exists>r \<in> set (snd (split_rounds es)). r \<noteq> [])"
  by (induction es) (auto split: prod.splits option.split)

lemma round_count_pos:
  assumes "m \<in> set xs" "ev_type m = ''message''" "e \<in> set ys" "ev_type e \<noteq> ''message''" "MustData as_stop_veto e = Some d"
  shows "0 < round_count (xs @ ys)"
proof -
  obtain px rx py ry where s: "split_rounds xs = (px, rx)" "split_rounds ys = (py, ry)" by fastforce
  have "rx \<noteq> []" using split_rounds_message [OF assms(1,2)] s by simp
  moreover have "py \<noteq> [] \<or> (\<exists>r \<in> set ry. r \<noteq> [])" using split_rounds_veto [OF assms(3-5)] s by simp
  ultimately have "\<exists>r \<in> set (snd (split_rounds (xs @ ys))). r \<noteq> []" by (auto simp: split_rounds_append s)
  then have "filter (\<lambda>r. r \<noteq> []) (snd (split_rounds (xs @ ys))) \<noteq> []" by (auto simp: filter_empty_conv)
  then show ?thesis by (simp add: round_count_def)
qed

lemma vetoRounds_count:
  "agent_ok a \<Longrightarrow> vetoRounds (ag_log a) = Some rounds \<Longrightarrow> length rounds = round_count (since_progress (ag_log a))"
  using vetoRounds_eq by (auto simp: agent_ok_def round_count_def)

text \<open>The vetoes of \<open>BeforeStop\<close> are valid, and are logged while writes succeed.\<close>

lemma BeforeStop_vetoes:
  assumes "\<forall>m \<in> set ms. md_name m \<noteq> []"
  shows "\<forall>v \<in> set (fst (BeforeStop ms info a)). validate_stop_veto v = None"
proof -
  have "\<forall>v \<in> set (fst (foldl (stop_step info) acc ms)). validate_stop_veto v = None"
    if "\<forall>v \<in> set (fst acc). validate_stop_veto v = None" for acc
    using assms that
  proof (induction ms arbitrary: acc)
    case (Cons m ms)
    have "\<forall>v \<in> set (fst (stop_step info acc m)). validate_stop_veto v = None"
      using Cons.prems by (auto simp: stop_step_def validate_stop_veto_def split: option.split prod.split)
    then show ?case using Cons by simp
  qed simp
  from this [of "([], a)"] show ?thesis by (simp add: BeforeStop_def)
qed

lemma appendVetoes_writes:
  assumes "agent_ok a" "writes a" "\<forall>v \<in> set vs. validate_stop_veto v = None"
  shows "\<exists>es. ag_log (appendVetoes vs a) = ag_log a @ es \<and> map (MustData as_stop_veto) es = map Some vs \<and>
    (\<forall>e \<in> set es. ev_type e = ''stop_veto'') \<and> agent_ok (appendVetoes vs a)"
  using assms
proof (induction vs arbitrary: a)
  case (Cons v vs)
  obtain e b where h: "h_append (DStopVeto v) a = (Inr e, b)" "writes b"
    using h_append_writes [OF Cons.prems(1,2), of "DStopVeto v"] Cons.prems(3) by auto
  have i: "ag_log b = ag_log a @ [e] \<and> agent_ok b \<and> DecodeData e = Inr (DStopVeto v) \<and> ev_type e = ''stop_veto''"
    using h_append_Inr [OF h(1) Cons.prems(1)] by simp
  then obtain es where "ag_log (appendVetoes vs b) = ag_log b @ es" "map (MustData as_stop_veto) es = map Some vs"
    "\<forall>e \<in> set es. ev_type e = ''stop_veto''" "agent_ok (appendVetoes vs b)"
    using Cons.IH [of b] h(2) Cons.prems(3) by auto
  moreover have "appendVetoes (v # vs) a = appendVetoes vs b" by (simp add: appendVetoes_def h)
  moreover have "MustData as_stop_veto e = Some v" using i by (simp add: MustData_def as_stop_veto_def)
  ultimately show ?case using i by (intro exI [of _ "e # es"]) simp
qed (simp add: appendVetoes_def)

text \<open>What it takes to continue.\<close>

lemma askStopGate_continues:
  assumes "askStopGate cfg ms a = Some (Inr True, b)" "agent_ok a"
  shows "\<exists>info vetoes a1 rounds. BeforeStop ms info a = (vetoes, a1) \<and> vetoes \<noteq> [] \<and> vetoRounds (ag_log a) = Some rounds \<and>
    int (length rounds) + 1 \<le> sg_max_vetoes cfg \<and> b = appendVetoes vetoes a1"
proof -
  have blocked: "blocked_with hk msg reason x \<noteq> Some (Inr True, y)" for hk msg reason x y
    by (auto simp: blocked_with_def split: bind_splits sum.splits)
  have idle: "turn_complete x \<noteq> Some (Inr True, y)" for x y
    by (auto simp: turn_complete_def split: bind_splits sum.splits)
  show ?thesis
  proof (cases "stopInfo (ag_log a) (projection_of (ag_log a))")
    case None
    then show ?thesis using assms by (simp add: askStopGate_def h_state_ok)
  next
    case (Some info)
    obtain vetoes a1 where v: "BeforeStop ms info a = (vetoes, a1)" by fastforce
    have "(if vetoes = [] then turn_complete a1 else objected cfg (registry_hooks ms) (ag_log a) vetoes a1) = Some (Inr True, b)"
      using assms by (simp add: askStopGate_def h_state_ok Some v)
    then have o: "vetoes \<noteq> []" "objected cfg (registry_hooks ms) (ag_log a) vetoes a1 = Some (Inr True, b)"
      using idle by (metis (full_types))+
    then obtain stuck rounds where s: "stalled (ag_log a) (map sv_reason vetoes) (sg_no_progress cfg) = Some stuck"
      "vetoRounds (ag_log a) = Some rounds"
      by (auto simp: objected_def split: bind_splits)
    then have "int (length rounds) + 1 \<le> sg_max_vetoes cfg \<and> b = appendVetoes vetoes a1"
      using o(2) blocked by (auto simp: objected_def Let_def split: if_splits)
    then show ?thesis using v s(2) o(1) by blast
  qed
qed

text \<open>A run of rounds without progress: between two askings the log grows by an assistant message and whatever
  else is not progress, and the gates object.\<close>

inductive vetoed_rounds :: "StopConfig \<Rightarrow> Module list \<Rightarrow> nat \<Rightarrow> Agent \<Rightarrow> Agent \<Rightarrow> bool" for cfg ms where
  none: "agent_ok a \<Longrightarrow> vetoed_rounds cfg ms 0 a a"
| round: "vetoed_rounds cfg ms n a b \<Longrightarrow> agent_ok c \<Longrightarrow> writes c \<Longrightarrow> ag_log c = ag_log b @ es \<Longrightarrow>
    m \<in> set es \<Longrightarrow> message_by ''assistant'' m \<Longrightarrow> askStopGate cfg ms c = Some (Inr True, d) \<Longrightarrow>
    ag_log d = ag_log b @ es @ es' \<Longrightarrow> \<forall>e \<in> set (es @ es'). \<not> progress e \<Longrightarrow> vetoed_rounds cfg ms (Suc n) a d"

lemma message_by_type: "message_by r e \<Longrightarrow> ev_type e = ''message''"
  by (auto dest!: DecodeData_type simp: message_by_def MustData_def as_message_def split: sum.splits event_data.splits)

text \<open>A round adds to the count.\<close>

lemma round_counts:
  assumes "agent_ok c" "writes c" "ag_log c = log @ es" "m \<in> set es" "message_by ''assistant'' m"
    "askStopGate cfg ms c = Some (Inr True, d)" "ag_log d = log @ es @ es'" "\<forall>e \<in> set (es @ es'). \<not> progress e"
    "modules_ok ms" "\<forall>m \<in> set ms. md_name m \<noteq> []"
  shows "agent_ok d \<and> round_count (since_progress log) < round_count (since_progress (ag_log d)) \<and>
    int (round_count (since_progress log)) + 1 \<le> sg_max_vetoes cfg"
proof -
  obtain info vetoes a1 rounds where g: "BeforeStop ms info c = (vetoes, a1)" "vetoes \<noteq> []" "vetoRounds (ag_log c) = Some rounds"
    "int (length rounds) + 1 \<le> sg_max_vetoes cfg" "d = appendVetoes vetoes a1"
    using askStopGate_continues [OF assms(6,1)] by blast
  have q: "quiet c a1" using dispatch_quiet(4) [OF assms(9,1), of info] g(1) by simp
  then have a1: "agent_ok a1" "writes a1" using assms(2) quiet_ok by (auto simp: quiet_def)
  have "\<forall>v \<in> set vetoes. validate_stop_veto v = None" using BeforeStop_vetoes [OF assms(10), of info c] g(1) by simp
  then obtain vs where vs: "ag_log d = ag_log a1 @ vs" "map (MustData as_stop_veto) vs = map Some vetoes"
    "\<forall>e \<in> set vs. ev_type e = ''stop_veto''" "agent_ok d"
    using appendVetoes_writes [OF a1] g(5) by blast
  obtain x xs where v: "vetoes = x # xs" using g(2) by (cases vetoes) auto
  then obtain e es2 where e: "vs = e # es2" "MustData as_stop_veto e = Some x" using vs(2) by (cases vs) auto
  have "prefix (ag_log c) (ag_log a1)" using q by (simp add: quiet_def grows_def)
  then obtain zs where "ag_log a1 = ag_log c @ zs" by (auto simp: prefix_def)
  then have es': "es' = zs @ vs" using vs(1) assms(3,7) by simp
  have tail: "since_progress (ag_log d) = since_progress log @ es @ es'" "since_progress (ag_log c) = since_progress log @ es"
    using since_progress_append [of "es @ es'" log] since_progress_append [of es log] assms(3,7,8) by simp_all
  have "0 < round_count (es @ es')"
    using round_count_pos [of m es e es' x] assms(4) message_by_type [OF assms(5)] e vs(3) es' by simp
  then have "round_count (since_progress log) < round_count (since_progress (ag_log d))"
    using round_count_append [of "since_progress log" "es @ es'"] tail by simp
  moreover have "round_count (since_progress log) \<le> length rounds"
    using vetoRounds_count [OF assms(1) g(3)] round_count_append [of "since_progress log" es] tail by simp
  ultimately show ?thesis using vs(4) g(4) by simp
qed

text \<open>C14: Gates alone cannot keep a session going. However its gates answer, a run of rounds in which the model
  answers without a tool call and nobody prompts it is at most as long as the configured number of
  consecutive vetoes: then the session blocks.\<close>
theorem vetoes_run_out:
  assumes "vetoed_rounds cfg ms n a b" "modules_ok ms" "\<forall>m \<in> set ms. md_name m \<noteq> []"
  shows "n \<le> nat (sg_max_vetoes cfg)"
proof -
  have "agent_ok b \<and> n \<le> round_count (since_progress (ag_log b)) \<and> (n = 0 \<or> int n \<le> sg_max_vetoes cfg)"
    using assms
  proof (induction rule: vetoed_rounds.induct)
    case (round n a b c es m d es')
    then show ?case using round_counts [of c "ag_log b" es m cfg ms d es'] by simp
  qed simp
  then show ?thesis by auto
qed

text \<open>A session whose model stops while a gate objects.\<close>

definition vetoing_module :: Module where
  "vetoing_module = (quiet_module ''verify'')\<lparr>md_before_stop := Some (\<lambda>_ a. (Completed \<lparr>so_allow = False, so_reason = ''tests fail''\<rparr>, a))\<rparr>"

definition sample_stop_config :: StopConfig where
  "sample_stop_config = \<lparr>sg_max_vetoes = 5, sg_no_progress = 3\<rparr>"

lemma vetoes_run_out_witness:
  "\<exists>b. vetoed_rounds sample_stop_config [vetoing_module] 1 sample_agent b \<and> 1 \<le> nat (sg_max_vetoes sample_stop_config)"
proof -
  let ?p = "DMessage \<lparr>msg_role = ''assistant'', msg_content = ''done'', msg_client = [], msg_usage = None, msg_interrupted = False\<rparr>"
  let ?v = "\<lparr>sv_module = ''verify'', sv_reason = ''tests fail''\<rparr>"
  have ok: "payload_ok ?p" "validate_payload ?p = None" by (simp_all add: message_ok_def validate_message_def)
  obtain m c where h: "h_append ?p sample_agent = (Inr m, c)" "writes c"
    using h_append_writes [OF sample_agent_ok sample_agent_writes ok] by auto
  have i: "ag_log c = ag_log sample_agent @ [m] \<and> agent_ok c \<and> DecodeData m = Inr ?p \<and> ev_type m = ''message''"
    using h_append_Inr [OF h(1) sample_agent_ok _ ok(1)] by simp
  obtain e0 where c0: "se_events (snd sample_created) = [e0]" "ev_type e0 = ''session''" using sample_created_ok by metis
  then have e0: "ag_log sample_agent = [e0]" "ev_type e0 = ''session''" by (simp_all add: sample_agent_def)
  have m: "MustData as_message m = Some \<lparr>msg_role = ''assistant'', msg_content = ''done'', msg_client = [], msg_usage = None, msg_interrupted = False\<rparr>"
    using i by (simp add: MustData_def as_message_def)
  have rounds: "vetoRounds (ag_log c) = Some []" using i e0 m by (simp add: vetoRounds_def)
  obtain said n where scan: "stop_scan [] 0 (rev (ag_log c)) = Some (said, n)" using i e0 m by simp
  define info where "info = \<lparr>si_goal = pr_goal (projection_of (ag_log c)), si_tasks = pr_tasks (projection_of (ag_log c)),
    si_last = said, si_turns = n, si_vetoes = 0\<rparr>"
  have si: "stopInfo (ag_log c) (projection_of (ag_log c)) = Some info" by (simp add: stopInfo_def scan rounds info_def)
  have "ag_disabled c = ag_disabled sample_agent" using h_append_sel(1) [of ?p sample_agent] by (simp only: h(1) snd_conv)
  then have dis: "ag_disabled c = {}" by (simp add: sample_agent_def)
  have g: "BeforeStop [vetoing_module] info c = ([?v], c)"
    by (simp add: BeforeStop_def stop_step_def vetoing_module_def quiet_module_def hook_call_def dis)
  let ?d = "appendVetoes [?v] c"
  have ask: "askStopGate sample_stop_config [vetoing_module] c = Some (Inr True, ?d)"
    by (simp add: askStopGate_def h_state_ok [OF conjunct1 [OF conjunct2 [OF i]]] si g objected_def stalled_def rounds sample_stop_config_def)
  obtain es where es: "ag_log ?d = ag_log c @ es" "\<forall>e \<in> set es. ev_type e = ''stop_veto''"
    using appendVetoes_writes [of c "[?v]"] i h(2) by (auto simp: validate_stop_veto_def)
  have "vetoed_rounds sample_stop_config [vetoing_module] (Suc 0) sample_agent ?d"
    by (rule vetoed_rounds.round [OF vetoed_rounds.none [OF sample_agent_ok] _ h(2) _ _ _ ask, of "[m]" m es])
       (use i es m in \<open>auto simp: message_by_def progress_def\<close>)
  then have r: "vetoed_rounds sample_stop_config [vetoing_module] 1 sample_agent ?d" by simp
  have "modules_ok [vetoing_module]"
    by (simp add: modules_ok_def module_ok_def vetoing_module_def quiet_module_def optional_def hook_quiet_def quiet_refl)
  from vetoes_run_out [OF r this] r show ?thesis by (auto simp: vetoing_module_def quiet_module_def)
qed

end
