(* ===== verification/Repeat_Watch.thy ===== *)
theory Repeat_Watch
  imports Byte_Strings "HOL-Library.Sublist"
begin

text \<open>
  \<open>daemon/agent/repeat.go\<close>: the watch over a stream of the model's text that trips when its end has become one
  passage repeated. Strings are byte strings. Lengths are natural numbers: a limit whose product with a length
  leaves the int is not modelled.

  The lemmas show that the check finds the smallest period that holds for enough copies, that a
  tripped watch has seen them, and what is kept of a stream.
\<close>

section \<open>The watch\<close>

definition repeatMinSpan :: nat where "repeatMinSpan = 40"
definition repeatEvery :: nat where "repeatEvery = 256"
definition repeatWindow :: nat where "repeatWindow = 65536"

record RepeatWatch =
  rw_limit :: int
  rw_text :: string
  rw_checked :: nat
  rw_period :: nat
  rw_start :: nat

definition newRepeatWatch :: "int \<Rightarrow> RepeatWatch" where
  "newRepeatWatch limit = \<lparr>rw_limit = limit, rw_text = [], rw_checked = 0, rw_period = 0, rw_start = 0\<rparr>"

fun walk_back :: "string \<Rightarrow> nat \<Rightarrow> nat \<Rightarrow> nat" where
  "walk_back text p 0 = 0"
| "walk_back text p (Suc s) = (if text ! s = text ! (s + p) then walk_back text p s else Suc s)"

text \<open>The loop of \<open>check\<close>: the period and the start of the repetition. It is not reached with a stream
  shorter than a passage, where the slice would panic.\<close>

function check_loop :: "string \<Rightarrow> nat \<Rightarrow> nat \<Rightarrow> string \<Rightarrow> (nat \<times> nat) option" where
  "check_loop text limit lo hay =
     (let n = length text; needle = drop (n - repeatMinSpan) text in
      case last_index hay needle of
        None \<Rightarrow> None
      | Some i \<Rightarrow>
          let p = n - repeatMinSpan - (lo + i);
              hay' = take (i + repeatMinSpan - 1) hay;
              span = limit * max p repeatMinSpan in
          if length needle < repeatMinSpan then None
          else if span > n then check_loop text limit lo hay'
          else if sub text (n - span) (n - p) \<noteq> drop (n - span + p) text then check_loop text limit lo hay'
          else if p < repeatMinSpan then None
          else Some (p, walk_back text p (n - span)))"
  by auto

termination
  by (relation "measure (\<lambda>(_, _, _, hay). length hay)")
     (auto dest!: last_index_bound simp: repeatMinSpan_def)

declare check_loop.simps [simp del]

definition check :: "RepeatWatch \<Rightarrow> bool \<times> RepeatWatch" where
  "check w =
     (let text = rw_text w; n = length text; lo = n - repeatWindow in
      case check_loop text (nat (rw_limit w)) lo (sub text lo (n - 1)) of
        None \<Rightarrow> (False, w)
      | Some (p, s) \<Rightarrow> (True, w\<lparr>rw_period := p, rw_start := s\<rparr>))"

definition add :: "string \<Rightarrow> RepeatWatch \<Rightarrow> bool \<times> RepeatWatch" where
  "add s w =
     (if rw_limit w < 1 \<or> rw_period w > 0 then (rw_period w > 0, w)
      else let w1 = w\<lparr>rw_text := rw_text w @ s\<rparr> in
        if length (rw_text w1) - rw_checked w1 < repeatEvery then (False, w1)
        else check (w1\<lparr>rw_checked := length (rw_text w1)\<rparr>))"

definition kept :: "RepeatWatch \<Rightarrow> string" where
  "kept w = (if rw_period w = 0 then rw_text w else to_valid_utf8 (take (rw_start w + rw_period w) (rw_text w)))"

text \<open>The copies of a passage in front of a string: what is left, and how many there were.\<close>

function strip_copies :: "string \<Rightarrow> string \<Rightarrow> nat \<Rightarrow> string \<times> nat" where
  "strip_copies passage rest dropped =
     (if passage \<noteq> [] \<and> has_prefix rest passage then strip_copies passage (drop (length passage) rest) (dropped + 1)
      else (rest, dropped))"
  by auto

termination by (relation "measure (\<lambda>(_, rest, _). length rest)") (auto simp: has_prefix_append)

declare strip_copies.simps [simp del]

text \<open>The ellipsis of the marker is one character in three bytes.\<close>

definition marker :: "nat \<Rightarrow> string" where
  "marker dropped = [newline, CHR ''['', CHR 0xE2, CHR 0x80, CHR 0xA6] @ '' the passage above repeated '' @ itoa (int dropped) @
     '' more times; dropped from the log]'' @ [newline]"

definition collapsed :: "string \<Rightarrow> RepeatWatch \<Rightarrow> string \<times> nat" where
  "collapsed full w =
     (if rw_period w = 0 then (full, 0)
      else let head = take (rw_start w + rw_period w) (rw_text w) in
        if \<not> has_prefix full head then (kept w, 0)
        else case strip_copies (drop (rw_start w) head) (drop (length head) full) 0 of
          (rest, dropped) \<Rightarrow> (to_valid_utf8 (head @ marker dropped @ rest), dropped))"

definition repeats :: "RepeatWatch \<Rightarrow> nat" where
  "repeats w = (if rw_period w = 0 then 0 else (length (rw_text w) - rw_start w) div rw_period w)"

definition passage :: "RepeatWatch \<Rightarrow> string" where
  "passage w = (if rw_period w = 0 then [] else to_valid_utf8 (sub (rw_text w) (rw_start w) (rw_start w + rw_period w)))"

definition stream_length :: "RepeatWatch \<Rightarrow> nat" where
  "stream_length w = length (rw_text w)"

section \<open>The check finds the smallest period\<close>

text \<open>The last \<open>k\<close> bytes of a text repeat with period \<open>p\<close>.\<close>

definition periodic_end :: "string \<Rightarrow> nat \<Rightarrow> nat \<Rightarrow> bool" where
  "periodic_end text p k \<longleftrightarrow> k \<le> length text \<and> (\<forall>i. length text - k \<le> i \<and> i + p < length text \<longrightarrow> text ! i = text ! (i + p))"

text \<open>The last bytes recur one period back, within the window from \<open>lo\<close>.\<close>

definition recurs :: "string \<Rightarrow> nat \<Rightarrow> nat \<Rightarrow> bool" where
  "recurs text lo p \<longleftrightarrow> 1 \<le> p \<and> lo + p + repeatMinSpan \<le> length text \<and>
     has_prefix (drop (length text - repeatMinSpan - p) text) (drop (length text - repeatMinSpan) text)"

definition candidate :: "string \<Rightarrow> nat \<Rightarrow> nat \<Rightarrow> nat \<Rightarrow> bool" where
  "candidate text limit lo p \<longleftrightarrow> recurs text lo p \<and> periodic_end text p (limit * max p repeatMinSpan)"

lemma sub_eq_periodic:
  assumes "k \<le> length text" "p \<le> k"
  shows "sub text (length text - k) (length text - p) = drop (length text - k + p) text \<longleftrightarrow> periodic_end text p k"
proof -
  let ?n = "length text"
  have l: "length (sub text (?n - k) (?n - p)) = k - p" "length (drop (?n - k + p) text) = k - p"
    using assms by (auto simp: min_def)
  have "sub text (?n - k) (?n - p) ! j = text ! (?n - k + j)" "drop (?n - k + p) text ! j = text ! (?n - k + j + p)" if "j < k - p" for j
    using that assms by (simp_all add: sub_def add.commute add.left_commute)
  then have "sub text (?n - k) (?n - p) = drop (?n - k + p) text \<longleftrightarrow> (\<forall>j < k - p. text ! (?n - k + j) = text ! (?n - k + j + p))"
    using l by (simp add: list_eq_iff_nth_eq)
  also have "\<dots> \<longleftrightarrow> (\<forall>i. ?n - k \<le> i \<and> i + p < ?n \<longrightarrow> text ! i = text ! (i + p))"
  proof (intro iffI allI impI)
    fix i assume a: "\<forall>j < k - p. text ! (?n - k + j) = text ! (?n - k + j + p)" "?n - k \<le> i \<and> i + p < ?n"
    then have "i - (?n - k) < k - p" "?n - k + (i - (?n - k)) = i" using assms by auto
    then show "text ! i = text ! (i + p)" using a(1) by metis
  next
    fix j assume a: "\<forall>i. ?n - k \<le> i \<and> i + p < ?n \<longrightarrow> text ! i = text ! (i + p)" "j < k - p"
    then have "?n - k \<le> ?n - k + j \<and> ?n - k + j + p < ?n" using assms by auto
    then show "text ! (?n - k + j) = text ! (?n - k + j + p)" using a(1) by blast
  qed
  finally show ?thesis using assms by (simp add: periodic_end_def)
qed

text \<open>The outcome of the loop, for periods from \<open>P\<close> on.\<close>

definition least_candidate :: "string \<Rightarrow> nat \<Rightarrow> nat \<Rightarrow> nat \<Rightarrow> nat \<Rightarrow> bool" where
  "least_candidate text limit lo P p \<longleftrightarrow> P \<le> p \<and> candidate text limit lo p \<and> (\<forall>q. P \<le> q \<and> q < p \<longrightarrow> \<not> candidate text limit lo q)"

lemma check_loop_outcome:
  assumes "1 \<le> limit" "repeatMinSpan \<le> length text" "1 \<le> P"
  shows "case check_loop text limit lo (sub text lo (length text - P)) of
      Some (p, s) \<Rightarrow> repeatMinSpan \<le> p \<and> least_candidate text limit lo P p \<and> s = walk_back text p (length text - limit * p)
    | None \<Rightarrow> (\<forall>p \<ge> P. \<not> candidate text limit lo p) \<or> (\<exists>p < repeatMinSpan. least_candidate text limit lo P p)"
  using assms(3)
proof (induction "length text - P" arbitrary: P rule: less_induct)
  case less
  let ?n = "length text" and ?m = repeatMinSpan
  let ?hay = "sub text lo (?n - P)" and ?needle = "drop (?n - ?m) text"
  have nd: "length ?needle = ?m" using assms(2) by simp
  have hay: "length ?hay = ?n - P - lo" by simp
  note unf = check_loop.simps [of "text" limit lo ?hay]
  show ?case
  proof (cases "last_index ?hay ?needle")
    case None
    have "\<not> recurs text lo p" if "P \<le> p" for p
    proof
      assume r: "recurs text lo p"
      let ?k = "?n - ?m - p - lo"
      have k: "?k + ?m \<le> ?n - P - lo" "lo + ?k = ?n - ?m - p" using r that by (auto simp: recurs_def)
      then have "last_index_at ?hay ?needle (length ?hay - ?m) = None" using None nd hay by (auto simp: last_index_def split: if_splits)
      then have "\<not> has_prefix (drop ?k ?hay) ?needle" using last_index_at_None k hay by simp
      then show False using r k has_prefix_sub [of ?k ?needle "?n - P" lo "text"] nd by (simp add: recurs_def)
    qed
    then have "\<forall>p \<ge> P. \<not> candidate text limit lo p" by (simp add: candidate_def)
    moreover have "check_loop text limit lo ?hay = None" unfolding unf by (simp add: None Let_def)
    ultimately show ?thesis by simp
  next
    case (Some i)
    define p where "p = ?n - ?m - (lo + i)"
    define span where "span = limit * max p ?m"
    have i: "i + ?m \<le> ?n - P - lo" using last_index_bound [OF Some] nd hay by simp
    then have p: "P \<le> p" "lo + i = ?n - ?m - p" "lo + p + ?m \<le> ?n" unfolding p_def repeatMinSpan_def by arith+
    have li: "last_index_at ?hay ?needle (length ?hay - ?m) = Some i" using Some nd by (simp add: last_index_def split: if_splits)
    have "recurs text lo p"
      using last_index_at_Some [OF li] has_prefix_sub [of i ?needle "?n - P" lo "text"] i nd p less.prems by (simp add: recurs_def)
    have earlier: "\<not> candidate text limit lo q" if "P \<le> q" "q < p" for q
    proof
      assume "candidate text limit lo q"
      then have r: "recurs text lo q" by (simp add: candidate_def)
      let ?k = "?n - ?m - q - lo"
      have k: "?k + ?m \<le> ?n - P - lo" "lo + ?k = ?n - ?m - q" using r that by (auto simp: recurs_def)
      have "i < ?k" using that p k by linarith
      then have "\<not> has_prefix (drop ?k ?hay) ?needle" using last_index_at_Some [OF li] k hay by auto
      then show False using r k has_prefix_sub [of ?k ?needle "?n - P" lo "text"] nd by (simp add: recurs_def)
    qed
    have sp: "p \<le> span" "?m \<le> span"
    proof -
      have "max p ?m * 1 \<le> max p ?m * limit" by (rule mult_le_mono2 [OF assms(1)])
      then show "p \<le> span" "?m \<le> span" by (auto simp: span_def mult.commute)
    qed
    have cand: "candidate text limit lo p \<longleftrightarrow> span \<le> ?n \<and> sub text (?n - span) (?n - p) = drop (?n - span + p) text"
      using \<open>recurs text lo p\<close> sub_eq_periodic [of span "text" p] sp by (auto simp: candidate_def span_def periodic_end_def)
    have hay': "take (i + ?m - 1) ?hay = sub text lo (?n - Suc p)"
    proof -
      have "i + ?m - 1 = ?n - Suc p - lo" "i + ?m - 1 \<le> ?n - P - lo" using i p unfolding repeatMinSpan_def by arith+
      then show ?thesis by (simp add: sub_def min_def)
    qed
    have raw: "check_loop text limit lo ?hay =
      (if length ?needle < ?m then None
       else if span > ?n then check_loop text limit lo (take (i + ?m - 1) ?hay)
       else if sub text (?n - span) (?n - p) \<noteq> drop (?n - span + p) text then check_loop text limit lo (take (i + ?m - 1) ?hay)
       else if p < ?m then None else Some (p, walk_back text p (?n - span)))"
      by (simp only: unf Let_def Some option.case p_def [symmetric] span_def [symmetric])
    have loop: "check_loop text limit lo ?hay =
      (if candidate text limit lo p then (if p < ?m then None else Some (p, walk_back text p (?n - span)))
       else check_loop text limit lo (sub text lo (?n - Suc p)))"
      unfolding raw hay' cand using nd by auto
    show ?thesis
    proof (cases "candidate text limit lo p")
      case True
      then have "least_candidate text limit lo P p" using earlier p(1) by (simp add: least_candidate_def)
      moreover have "span = limit * p" if "?m \<le> p" using that by (simp add: span_def max_def)
      ultimately show ?thesis using loop True by auto
    next
      case False
      have "?n - Suc p < ?n - P" using p i less.prems unfolding repeatMinSpan_def by linarith
      from less.hyps [OF this] have ih: "case check_loop text limit lo (sub text lo (?n - Suc p)) of
          Some (p', s) \<Rightarrow> ?m \<le> p' \<and> least_candidate text limit lo (Suc p) p' \<and> s = walk_back text p' (?n - limit * p')
        | None \<Rightarrow> (\<forall>p' \<ge> Suc p. \<not> candidate text limit lo p') \<or> (\<exists>p' < ?m. least_candidate text limit lo (Suc p) p')" by simp
      have none: "\<not> candidate text limit lo q" if "P \<le> q" "q \<le> p" for q using earlier [OF that(1)] that(2) False by (cases "q = p") auto
      have shift: "least_candidate text limit lo (Suc p) p' \<Longrightarrow> least_candidate text limit lo P p'" for p'
        using none p(1) unfolding least_candidate_def by (metis Suc_leD Suc_leI linorder_not_le order_trans)
      have all: "\<forall>p' \<ge> Suc p. \<not> candidate text limit lo p' \<Longrightarrow> \<forall>p' \<ge> P. \<not> candidate text limit lo p'"
        using none by (metis not_less_eq_eq)
      show ?thesis using ih loop False shift all by (auto split: option.splits)
    qed
  qed
qed

text \<open>A smallest period that trips is a passage; with two copies or more to see, recurring is no condition.\<close>

lemma periodic_recurs:
  assumes "2 \<le> limit" "periodic_end text p (limit * max p repeatMinSpan)" "1 \<le> p" "lo + p + repeatMinSpan \<le> length text"
  shows "recurs text lo p"
proof -
  let ?n = "length text" and ?m = repeatMinSpan and ?k = "limit * max p repeatMinSpan"
  have k: "p + ?m \<le> ?k"
  proof -
    have "2 * max p ?m \<le> ?k" using assms(1) by simp
    then show ?thesis by linarith
  qed
  have kn: "?k \<le> ?n" using assms(2) by (simp add: periodic_end_def)
  have "drop (?n - ?m - p) text ! j = drop (?n - ?m) text ! j" if "j < ?m" for j
  proof -
    let ?i = "?n - ?m - p + j"
    have "?n - ?k \<le> ?i" "?i + p < ?n" using k kn that by linarith+
    then have "text ! ?i = text ! (?i + p)" using assms(2) unfolding periodic_end_def by blast
    moreover have "?i + p = ?n - ?m + j" using k kn by linarith
    ultimately show ?thesis using k kn by simp
  qed
  then have "take ?m (drop (?n - ?m - p) text) = drop (?n - ?m) text"
    using k kn by (intro nth_equalityI) simp_all
  then show ?thesis using assms(3,4) k kn by (simp add: recurs_def has_prefix_def)
qed

text \<open>C17: The watch trips exactly when the smallest period that holds over the end of the stream for the
  limit's copies, of a passage or of the 40 bytes a shorter period is measured over, is that of a
  passage of at least 40 bytes. The period it records is that one.\<close>
theorem check_smallest:
  assumes "2 \<le> rw_limit w" "repeatMinSpan \<le> length (rw_text w)" "rw_period w = 0"
  defines "holds p \<equiv> 1 \<le> p \<and> length (rw_text w) - repeatWindow + p + repeatMinSpan \<le> length (rw_text w) \<and>
     periodic_end (rw_text w) p (nat (rw_limit w) * max p repeatMinSpan)"
  shows "(fst (check w) \<longleftrightarrow> (\<exists>p \<ge> repeatMinSpan. holds p \<and> (\<forall>q < p. \<not> holds q))) \<and>
     (fst (check w) \<longrightarrow> (holds (rw_period (snd (check w))) \<and> (\<forall>q < rw_period (snd (check w)). \<not> holds q)))"
proof -
  have c1: "fst (check w) \<longleftrightarrow> (\<exists>p \<ge> repeatMinSpan. holds p \<and> (\<forall>q < p. \<not> holds q))" and c2: "fst (check w) \<Longrightarrow> holds (rw_period (snd (check w))) \<and> (\<forall>q < rw_period (snd (check w)). \<not> holds q)"
  proof -
    let ?text = "rw_text w" and ?l = "nat (rw_limit w)"
    let ?lo = "length ?text - repeatWindow"
    have "2 \<le> ?l" using assms(1) by simp
    then have h: "candidate ?text ?l ?lo p \<longleftrightarrow> holds p" for p
      using periodic_recurs [of ?l ?text p ?lo] by (auto simp: candidate_def holds_def recurs_def)
    have l: "least_candidate ?text ?l ?lo 1 p \<longleftrightarrow> holds p \<and> (\<forall>q < p. \<not> holds q)" for p
    proof -
      have "\<not> holds 0" "holds p \<Longrightarrow> 1 \<le> p" by (simp_all add: holds_def)
      then show ?thesis unfolding least_candidate_def h by (metis One_nat_def Suc_leI neq0_conv)
    qed
    define r where "r = check_loop ?text ?l ?lo (sub ?text ?lo (length ?text - 1))"
    have ck: "check w = (case r of None \<Rightarrow> (False, w) | Some (p, s) \<Rightarrow> (True, w\<lparr>rw_period := p, rw_start := s\<rparr>))"
      by (simp add: check_def Let_def r_def)
    have o: "case r of Some (p, s) \<Rightarrow> repeatMinSpan \<le> p \<and> least_candidate ?text ?l ?lo 1 p \<and> s = walk_back ?text p (length ?text - ?l * p)
      | None \<Rightarrow> (\<forall>p \<ge> 1. \<not> candidate ?text ?l ?lo p) \<or> (\<exists>p < repeatMinSpan. least_candidate ?text ?l ?lo 1 p)"
      using check_loop_outcome [of ?l ?text 1 ?lo] \<open>2 \<le> ?l\<close> assms(2) by (simp add: r_def)
    show "fst (check w) \<longleftrightarrow> (\<exists>p \<ge> repeatMinSpan. holds p \<and> (\<forall>q < p. \<not> holds q))"
    proof (cases r)
      case None
      have "(\<forall>p \<ge> 1. \<not> holds p) \<or> (\<exists>p < repeatMinSpan. holds p \<and> (\<forall>q < p. \<not> holds q))" using o unfolding None option.case h l .
      moreover have "repeatMinSpan \<ge> 1" by (simp add: repeatMinSpan_def)
      ultimately have "\<not> (\<exists>p \<ge> repeatMinSpan. holds p \<and> (\<forall>q < p. \<not> holds q))" by (meson le_trans less_le_trans)
      then show ?thesis using ck None by simp
    next
      case (Some x)
      then show ?thesis using o ck by (cases x) (auto simp: l [simplified])
    qed
    assume "fst (check w)"
    then show "holds (rw_period (snd (check w))) \<and> (\<forall>q < rw_period (snd (check w)). \<not> holds q)"
      using o ck by (cases r) (auto simp: l [simplified] split: prod.splits)
  qed
  from c1 c2 show ?thesis by blast
qed

section \<open>A tripped watch\<close>

lemma walk_back_spec:
  "walk_back text p s \<le> s \<and> (\<forall>i. walk_back text p s \<le> i \<and> i < s \<longrightarrow> text ! i = text ! (i + p))"
  by (induction s) (auto simp: less_Suc_eq)

text \<open>What a watch records: a passage, copied as often as its limit, up to the end of what it has read.\<close>

definition watch_ok :: "RepeatWatch \<Rightarrow> bool" where
  "watch_ok w \<longleftrightarrow> rw_period w > 0 \<longrightarrow>
     1 \<le> rw_limit w \<and> repeatMinSpan \<le> rw_period w \<and> rw_start w + nat (rw_limit w) * rw_period w \<le> length (rw_text w) \<and>
     (\<forall>i. rw_start w \<le> i \<and> i + rw_period w < length (rw_text w) \<longrightarrow> rw_text w ! i = rw_text w ! (i + rw_period w))"

lemma check_ok:
  assumes "1 \<le> rw_limit w" "repeatMinSpan \<le> length (rw_text w)" "rw_period w = 0"
  shows "watch_ok (snd (check w)) \<and> fst (check w) = (rw_period (snd (check w)) > 0)"
proof -
  let ?text = "rw_text w" and ?l = "nat (rw_limit w)"
  let ?lo = "length ?text - repeatWindow"
  define r where "r = check_loop ?text ?l ?lo (sub ?text ?lo (length ?text - 1))"
  have ck: "check w = (case r of None \<Rightarrow> (False, w) | Some (p, s) \<Rightarrow> (True, w\<lparr>rw_period := p, rw_start := s\<rparr>))"
    by (simp add: check_def Let_def r_def)
  have o: "case r of Some (p, s) \<Rightarrow> repeatMinSpan \<le> p \<and> least_candidate ?text ?l ?lo 1 p \<and> s = walk_back ?text p (length ?text - ?l * p)
    | None \<Rightarrow> (\<forall>p \<ge> 1. \<not> candidate ?text ?l ?lo p) \<or> (\<exists>p < repeatMinSpan. least_candidate ?text ?l ?lo 1 p)"
    using check_loop_outcome [of ?l ?text 1 ?lo] assms by (simp add: r_def)
  show ?thesis
  proof (cases r)
    case None
    then show ?thesis using ck assms(3) by (simp add: watch_ok_def)
  next
    case (Some x)
    obtain p s where x: "x = (p, s)" by fastforce
    then have p: "repeatMinSpan \<le> p" "least_candidate ?text ?l ?lo 1 p" "s = walk_back ?text p (length ?text - ?l * p)"
      using o Some by auto
    then have per: "periodic_end ?text p (?l * p)" by (simp add: least_candidate_def candidate_def max_def)
    then have le: "?l * p \<le> length ?text" by (simp add: periodic_end_def)
    have "?text ! i = ?text ! (i + p)" if "s \<le> i" "i + p < length ?text" for i
      using that per walk_back_spec [of ?text p "length ?text - ?l * p"] p(3) unfolding periodic_end_def by (metis not_le)
    moreover have "s \<le> length ?text - ?l * p" unfolding p(3) by (rule walk_back_spec [THEN conjunct1])
    then have "s + ?l * p \<le> length ?text" using le by linarith
    ultimately show ?thesis using ck Some x p(1) assms(1) by (simp add: watch_ok_def repeatMinSpan_def)
  qed
qed

lemma add_ok:
  assumes "watch_ok w" "rw_checked w \<le> length (rw_text w)"
  shows "watch_ok (snd (add s w))" "rw_checked (snd (add s w)) \<le> length (rw_text (snd (add s w)))"
    "fst (add s w) = (rw_period (snd (add s w)) > 0)" "rw_limit (snd (add s w)) = rw_limit w"
    "rw_period w > 0 \<Longrightarrow> snd (add s w) = w" 
    "rw_period w = 0 \<Longrightarrow> 1 \<le> rw_limit w \<Longrightarrow> rw_text (snd (add s w)) = rw_text w @ s"
proof -
  let ?w = "w\<lparr>rw_text := rw_text w @ s, rw_checked := length (rw_text w @ s)\<rparr>"
  have c: "watch_ok (snd (check ?w)) \<and> fst (check ?w) = (rw_period (snd (check ?w)) > 0)"
    if "1 \<le> rw_limit w" "rw_period w = 0" "repeatEvery \<le> length (rw_text w @ s) - rw_checked w"
    using check_ok [of ?w] that by (simp add: repeatMinSpan_def repeatEvery_def)
  have sel: "rw_text (snd (check v)) = rw_text v" "rw_checked (snd (check v)) = rw_checked v" "rw_limit (snd (check v)) = rw_limit v" for v
    by (simp_all add: check_def Let_def split: option.split prod.split)
  have u: "watch_ok (w\<lparr>rw_text := rw_text w @ s\<rparr>)" if "rw_period w = 0" using that by (simp add: watch_ok_def)
  show "watch_ok (snd (add s w))" using assms c u by (auto simp: add_def Let_def)
  show "rw_checked (snd (add s w)) \<le> length (rw_text (snd (add s w)))" using assms(2) by (auto simp: add_def Let_def sel)
  show "fst (add s w) = (rw_period (snd (add s w)) > 0)" using c by (auto simp: add_def Let_def)
  show "rw_limit (snd (add s w)) = rw_limit w" by (simp add: add_def Let_def sel)
  show "rw_period w > 0 \<Longrightarrow> snd (add s w) = w" by (simp add: add_def)
  show "rw_period w = 0 \<Longrightarrow> 1 \<le> rw_limit w \<Longrightarrow> rw_text (snd (add s w)) = rw_text w @ s" by (simp add: add_def Let_def sel)
qed

text \<open>A stream fed to a new watch.\<close>

definition feed :: "int \<Rightarrow> string list \<Rightarrow> RepeatWatch" where
  "feed limit chunks = foldl (\<lambda>w s. snd (add s w)) (newRepeatWatch limit) chunks"

lemma feed_inv:
  assumes "1 \<le> limit"
  shows "watch_ok (feed limit chunks) \<and> rw_checked (feed limit chunks) \<le> length (rw_text (feed limit chunks)) \<and>
    rw_limit (feed limit chunks) = limit \<and> prefix (rw_text (feed limit chunks)) (concat chunks) \<and>
    (rw_period (feed limit chunks) = 0 \<longrightarrow> rw_text (feed limit chunks) = concat chunks)"
proof (induction chunks rule: rev_induct)
  case Nil
  then show ?case by (simp add: feed_def newRepeatWatch_def watch_ok_def)
next
  case (snoc s chunks)
  let ?w = "feed limit chunks"
  have f: "feed limit (chunks @ [s]) = snd (add s ?w)" by (simp add: feed_def)
  have w: "watch_ok ?w" "rw_checked ?w \<le> length (rw_text ?w)" "rw_limit ?w = limit" using snoc by simp_all
  note a = add_ok [OF w(1,2), of s]
  show ?case
  proof (cases "rw_period ?w = 0")
    case True
    then have "rw_text (snd (add s ?w)) = concat (chunks @ [s])" using a(6) snoc assms w True by simp
    then show ?thesis using a(1,2,4) w f by simp
  next
    case False
    then have "snd (add s ?w) = ?w" using a(5) False by simp
    then show ?thesis using snoc f False by (simp add: prefix_order.trans [OF _ prefixI])
  qed
qed

text \<open>Copies in front of a string.\<close>

lemma strip_copies_spec:
  assumes "p \<noteq> []" "strip_copies p s k = (rest, d)"
  shows "k \<le> d \<and> s = concat (replicate (d - k) p) @ rest \<and> \<not> has_prefix rest p"
  using assms
proof (induction p s k arbitrary: rest d rule: strip_copies.induct)
  case (1 p s k)
  show ?case
  proof (cases "has_prefix s p")
    case True
    then obtain t where s: "s = p @ t" by (auto simp: has_prefix_append)
    have "strip_copies p t (k + 1) = (rest, d)" using "1.prems" True s by (simp add: strip_copies.simps [of p "p @ t"])
    then have "k + 1 \<le> d \<and> t = concat (replicate (d - (k + 1)) p) @ rest \<and> \<not> has_prefix rest p"
      using "1.IH" [of rest d] True "1.prems"(1) s by simp
    moreover have "d - k = Suc (d - (k + 1))" if "k + 1 \<le> d" using that by simp
    ultimately show ?thesis using s by simp
  next
    case False
    then show ?thesis using "1.prems" by (simp add: strip_copies.simps [of p s])
  qed
qed

lemma strip_copies_at_least:
  assumes "p \<noteq> []"
  shows "m + k \<le> snd (strip_copies p (concat (replicate m p) @ t) k)"
proof (induction m arbitrary: k)
  case 0
  then show ?case using strip_copies_spec [OF assms, of t k] by (cases "strip_copies p t k") auto
next
  case (Suc m)
  have "strip_copies p (concat (replicate (Suc m) p) @ t) k = strip_copies p (concat (replicate m p) @ t) (k + 1)"
    using assms by (simp add: strip_copies.simps [of p "p @ _"] has_prefix_append)
  then show ?case using Suc [of "k + 1"] by simp
qed

text \<open>A text with a period is copies of its passage.\<close>

lemma periodic_copies:
  assumes "\<forall>i. s \<le> i \<and> i + p < length text \<longrightarrow> text ! i = text ! (i + p)" "s + m * p \<le> length text"
  shows "take (m * p) (drop s text) = concat (replicate m (take p (drop s text)))"
  using assms(2)
proof (induction m)
  case (Suc m)
  let ?P = "take p (drop s text)"
  have le: "s + m * p + p \<le> length text" using Suc.prems by simp
  have step: "text ! (s + j) = text ! (s + j + m * p)" if "j < p" "m * p + j + s < length text" for j m
    using that(2)
  proof (induction m)
    case (Suc m)
    then have "text ! (s + j) = text ! (s + j + m * p)" by simp
    moreover have "text ! (s + j + m * p) = text ! (s + j + m * p + p)" using assms(1) Suc.prems by (simp add: add.commute add.left_commute)
    ultimately show ?case by (simp add: add.commute add.left_commute)
  qed simp
  have "take p (drop (s + m * p) text) = ?P"
  proof (intro nth_equalityI)
    show "length (take p (drop (s + m * p) text)) = length ?P" using le by simp
    fix j assume "j < length (take p (drop (s + m * p) text))"
    then have j: "j < p" by simp
    with le have "m * p + j + s < length text" by linarith
    then show "take p (drop (s + m * p) text) ! j = ?P ! j" using step [OF j, of m] j le by (simp add: ac_simps)
  qed
  moreover have "take (Suc m * p) (drop s text) = take (m * p) (drop s text) @ take p (drop (s + m * p) text)"
    using take_add [of "m * p" p "drop s text"] by (simp add: add.commute)
  ultimately show ?case using Suc le by (simp flip: replicate_append_same)
qed simp

text \<open>A tripped watch has seen what it says. The stream it read ends in at least as many copies of a passage
  as its limit; and when the finished stream begins with what it read, collapsing it drops copies of
  that passage and nothing else, all that follow the first, at least the limit's less one.\<close>
theorem collapsed_drops_copies:
  assumes "1 \<le> limit" "rw_period (feed limit chunks) > 0" "prefix (rw_text (feed limit chunks)) full"
  defines "w \<equiv> feed limit chunks"
  defines "head \<equiv> take (rw_start w + rw_period w) (rw_text w)" and "pass \<equiv> sub (rw_text w) (rw_start w) (rw_start w + rw_period w)"
  shows "(\<exists>d rest. limit - 1 \<le> int d \<and> full = head @ concat (replicate d pass) @ rest \<and> \<not> has_prefix rest pass \<and>
      collapsed full w = (to_valid_utf8 (head @ marker d @ rest), d)) \<and>
     (limit \<le> int (repeats w)) \<and>
     (repeatMinSpan \<le> length pass)"
proof -
  have c1: "\<exists>d rest. limit - 1 \<le> int d \<and> full = head @ concat (replicate d pass) @ rest \<and> \<not> has_prefix rest pass \<and>
      collapsed full w = (to_valid_utf8 (head @ marker d @ rest), d)" and c2: "limit \<le> int (repeats w)" and c3: "repeatMinSpan \<le> length pass"
  proof -
    have ok: "watch_ok w" "rw_limit w = limit" using feed_inv [OF assms(1)] by (simp_all add: w_def)
    let ?p = "rw_period w" and ?s = "rw_start w" and ?l = "nat limit" and ?t = "rw_text w"
    have p: "repeatMinSpan \<le> ?p" "?s + ?l * ?p \<le> length ?t" "\<forall>i. ?s \<le> i \<and> i + ?p < length ?t \<longrightarrow> ?t ! i = ?t ! (i + ?p)"
      using ok assms(2) by (simp_all add: watch_ok_def w_def)
    have "1 * ?p \<le> ?l * ?p" using assms(1) by (intro mult_le_mono1) simp
    then have sp: "?s + ?p \<le> length ?t" using p(2) by linarith
    then have len: "length pass = ?p" by (simp add: pass_def)
    then show "repeatMinSpan \<le> length pass" using p(1) by simp
    have pass: "pass = take ?p (drop ?s ?t)" by (simp add: pass_def sub_def)
    have ne: "pass \<noteq> []" using len p(1) by (auto simp: repeatMinSpan_def)
    have "take (?l * ?p) (drop ?s ?t) = concat (replicate ?l pass)" using periodic_copies [OF p(3,2)] pass by simp
    moreover obtain l where l: "?l = Suc l" using assms(1) by (cases ?l) auto
    ultimately have cp: "take (?l * ?p) (drop ?s ?t) = pass @ concat (replicate l pass)" by simp
    have "?t = take ?s ?t @ take (?l * ?p) (drop ?s ?t) @ drop (?l * ?p) (drop ?s ?t)" by (simp only: append_take_drop_id)
    also have "\<dots> = (take ?s ?t @ pass) @ concat (replicate l pass) @ drop (?l * ?p) (drop ?s ?t)" unfolding cp by simp
    also have "take ?s ?t @ pass = head" unfolding head_def pass by (simp add: take_add)
    finally have t: "?t = head @ concat (replicate l pass) @ drop (?l * ?p) (drop ?s ?t)" .
    obtain u where u: "full = ?t @ u" using assms(3) by (auto simp: prefix_def w_def)
    let ?tail = "concat (replicate l pass) @ drop (?l * ?p) (drop ?s ?t) @ u"
    have full: "full = head @ ?tail" using u t by simp
    obtain rest d where r: "strip_copies pass ?tail 0 = (rest, d)" by fastforce
    have d: "?tail = concat (replicate d pass) @ rest" "\<not> has_prefix rest pass" using strip_copies_spec [OF ne r] by simp_all
    have ld: "l \<le> d" using strip_copies_at_least [OF ne, of l 0 "drop (?l * ?p) (drop ?s ?t) @ u"] r by simp
    have "drop ?s head = pass" unfolding head_def pass by (simp add: drop_take)
    then have "collapsed full w = (to_valid_utf8 (head @ marker d @ rest), d)"
      using assms(2) r by (simp add: collapsed_def Let_def head_def [symmetric] full has_prefix_append w_def [symmetric])
    moreover have "limit - 1 \<le> int d" using l ld by linarith
    ultimately show "\<exists>d rest. limit - 1 \<le> int d \<and> full = head @ concat (replicate d pass) @ rest \<and> \<not> has_prefix rest pass \<and>
        collapsed full w = (to_valid_utf8 (head @ marker d @ rest), d)"
      using full d by metis
    have "?l * ?p div ?p \<le> (length ?t - ?s) div ?p" using p(2) by (intro div_le_mono) linarith
    then show "limit \<le> int (repeats w)" using assms(2) by (simp add: repeats_def w_def)
  qed
  from c1 c2 c3 show ?thesis by blast
qed

lemma check_smallest_witness:
  "\<not> fst (check ((newRepeatWatch 2)\<lparr>rw_text := replicate 80 CHR ''x''\<rparr>))"
proof -
  let ?w = "(newRepeatWatch 2)\<lparr>rw_text := replicate 80 CHR ''x''\<rparr>"
  have w: "2 \<le> rw_limit ?w" "repeatMinSpan \<le> length (rw_text ?w)" "rw_period ?w = 0"
    by (simp_all add: newRepeatWatch_def repeatMinSpan_def)
  have "periodic_end (rw_text ?w) 1 (nat (rw_limit ?w) * max 1 repeatMinSpan)"
    by (simp add: periodic_end_def newRepeatWatch_def repeatMinSpan_def)
  then show ?thesis using check_smallest [OF w, THEN conjunct1] by (auto simp: repeatMinSpan_def repeatWindow_def newRepeatWatch_def intro!: exI [of _ 1])
qed

text \<open>A stream of period 58.\<close>

definition sample_stream :: string where
  "sample_stream = map (\<lambda>i. char_of (32 + i mod 58)) [0..<290]"

lemma sample_stream_candidates:
  "candidate sample_stream 2 0 58" "candidate sample_stream 2 0 q \<Longrightarrow> repeatMinSpan \<le> q"
proof -
  have len: "length sample_stream = 290" by (simp add: sample_stream_def)
  have nth: "i < 290 \<Longrightarrow> sample_stream ! i = char_of (32 + i mod 58)" for i by (simp add: sample_stream_def)
  have inj: "char_of (32 + a mod 58) = (char_of (32 + b mod 58) :: char) \<Longrightarrow> a mod 58 = b mod 58" for a b :: nat
  proof -
    assume "char_of (32 + a mod 58) = (char_of (32 + b mod 58) :: char)"
    then have "(of_char (char_of (32 + a mod 58)) :: nat) = of_char (char_of (32 + b mod 58))" by simp
    moreover have "32 + a mod 58 < 256" "32 + b mod 58 < 256" using mod_less_divisor [of 58 a] mod_less_divisor [of 58 b] by linarith+
    ultimately show "a mod 58 = b mod 58" by simp
  qed
  have p: "periodic_end sample_stream 58 (2 * max 58 repeatMinSpan)"
    by (auto simp: periodic_end_def len nth repeatMinSpan_def)
  have "recurs sample_stream 0 58" by (rule periodic_recurs [OF _ p]) (simp_all add: len repeatMinSpan_def)
  with p show "candidate sample_stream 2 0 58" by (simp add: candidate_def)
  show "repeatMinSpan \<le> q" if "candidate sample_stream 2 0 q"
  proof (rule ccontr)
    assume "\<not> ?thesis"
    then have q: "1 \<le> q" "q < 40" "periodic_end sample_stream q 80"
      using that by (auto simp: candidate_def recurs_def repeatMinSpan_def max_def)
    then have "sample_stream ! (289 - q) = sample_stream ! (289 - q + q)" unfolding periodic_end_def len by auto
    then have "(289 - q) mod 58 = 289 mod 58" using q by (intro inj) (simp add: nth)
    moreover have "(289 - q) mod 58 = 57 - q"
    proof -
      have "(57 - q + 58 * 4) mod 58 = (57 - q) mod 58" by (rule mod_mult_self2)
      moreover have "57 - q + 58 * 4 = 289 - q" using q(2) by linarith
      ultimately show ?thesis by simp
    qed
    ultimately show False using q by simp
  qed
qed

lemma sample_stream_trips: "rw_period (feed 2 [sample_stream]) > 0"
proof -
  let ?r = "check_loop sample_stream 2 0 (sub sample_stream 0 (length sample_stream - 1))"
  have len: "length sample_stream = 290" by (simp add: sample_stream_def)
  have "case ?r of Some (p, s) \<Rightarrow> repeatMinSpan \<le> p \<and> least_candidate sample_stream 2 0 1 p \<and> s = walk_back sample_stream p (length sample_stream - 2 * p)
    | None \<Rightarrow> (\<forall>p \<ge> 1. \<not> candidate sample_stream 2 0 p) \<or> (\<exists>p < repeatMinSpan. least_candidate sample_stream 2 0 1 p)"
    using check_loop_outcome [of 2 sample_stream 1 0] by (simp add: len repeatMinSpan_def)
  then obtain p s where "?r = Some (p, s)" "repeatMinSpan \<le> p"
    using sample_stream_candidates by (cases ?r) (force simp: least_candidate_def)+
  then show ?thesis
    by (simp add: feed_def newRepeatWatch_def add_def Let_def len repeatEvery_def check_def repeatWindow_def repeatMinSpan_def)
qed

lemma collapsed_drops_copies_witness: "2 \<le> int (repeats (feed 2 [sample_stream]))"
  using collapsed_drops_copies [of 2 "[sample_stream]" "rw_text (feed 2 [sample_stream])", THEN conjunct2, THEN conjunct1] sample_stream_trips by simp

end
