(* ===== verification/Session_Store.thy ===== *)
theory Session_Store
  imports Session Byte_Strings "HOL-Library.AList" "HOL-Library.Monad_Syntax"
begin

text \<open>
  \<open>daemon/session/store.go\<close>: the sessions of a daemon, one log file each. A \<open>Dir\<close> is what a directory holds
  of files \<open><id>.jsonl\<close>, by id; other entries are skipped by the code and are not in it. The file of an
  open session is in its directory, and \<open>on_disk\<close> gives a session object the file as it is. Of the
  operating system only a write may fail (\<open>Env\<close>), and an exclusive create on a file that is there.

  \<open>Create\<close> gives up the store's lock twice, so it is three steps. The lemmas show that the store's
  invariant is kept, what a listing holds, that archiving and restoring loses nothing, and that a
  restart leaves no session running.
\<close>

type_synonym Dir = "(string \<times> LogFile) list"

record Store =
  so_open :: "string \<Rightarrow> Session option"
  so_dir :: Dir
  so_archive :: Dir
  so_last :: string
  so_closed :: bool
  so_observe :: bool

definition ErrNotFound :: err where "ErrNotFound = ''session not found''"

text \<open>The ids of \<open>os.ReadDir\<close>, in its order.\<close>

definition ReadDir :: "Dir \<Rightarrow> string list" where
  "ReadDir d = sort (map fst d)"

definition SetObserver :: "Store \<Rightarrow> Store" where
  "SetObserver st = st\<lparr>so_observe := True, so_open := (\<lambda>i. map_option (\<lambda>s. s\<lparr>se_observe := True\<rparr>) (so_open st i))\<rparr>"

definition Open :: "Dir \<Rightarrow> Dir \<Rightarrow> Store" where
  "Open dir archive = \<lparr>so_open = (\<lambda>_. None), so_dir = dir, so_archive = archive, so_last = [], so_closed = False, so_observe = False\<rparr>"

section \<open>Creating and getting\<close>

definition on_disk :: "Store \<Rightarrow> Session \<Rightarrow> Session" where
  "on_disk st s = (case map_of (so_dir st) (se_id s) of None \<Rightarrow> s | Some f \<Rightarrow> s\<lparr>se_file := f\<rparr>)"

text \<open>An append to a session object: its line goes to the file, the object is the caller's.\<close>

definition store_append :: "Env \<Rightarrow> event_data \<Rightarrow> Session \<Rightarrow> Store \<Rightarrow> (err + Event) \<times> Session \<times> Store" where
  "store_append en p s st =
     (case Append en (payload_type p) (Inr (enc_payload p)) (on_disk st s) of
        (r, s') \<Rightarrow> (r, s', st\<lparr>so_dir := AList.update (se_id s) (se_file s') (so_dir st)\<rparr>))"

definition put_open :: "Session \<Rightarrow> Store \<Rightarrow> Store" where
  "put_open s st = st\<lparr>so_open := (so_open st)(se_id s \<mapsto> s)\<rparr>"

definition create_begin :: "Env \<Rightarrow> Store \<Rightarrow> (err + string) \<times> Store" where
  "create_begin en st =
     (if so_closed st then (Inl ErrClosed, st)
      else let i = NewULIDAfter (en_now en) (en_rnd en) (en_rnd2 en) (so_last st);
               st1 = st\<lparr>so_last := i\<rparr> in
        if map_of (so_dir st1) i \<noteq> None then (Inl ''file exists'', st1)
        else (Inr i, st1\<lparr>so_dir := AList.update i \<lparr>lf_lines = [], lf_torn = None\<rparr> (so_dir st1)\<rparr>))"

definition create_write :: "Env \<Rightarrow> string \<Rightarrow> SessionData \<Rightarrow> Store \<Rightarrow> (err + Session) \<times> Store" where
  "create_write en i d st =
     (case store_append en (DSession d) (session_new i (so_observe st)) st of
        (Inl e, _, st') \<Rightarrow> (Inl e, st'\<lparr>so_dir := AList.delete i (so_dir st')\<rparr>)
      | (Inr _, s, st') \<Rightarrow> (Inr s, st'))"

definition Create :: "Env \<Rightarrow> Env \<Rightarrow> SessionData \<Rightarrow> Store \<Rightarrow> (err + Session) \<times> Store" where
  "Create en en' d st =
     (case create_begin en st of
        (Inl e, st1) \<Rightarrow> (Inl e, st1)
      | (Inr i, st1) \<Rightarrow>
          (case create_write en' i d st1 of
             (Inl e, st2) \<Rightarrow> (Inl e, st2)
           | (Inr s, st2) \<Rightarrow> (Inr s, put_open s st2)))"

definition Get :: "string \<Rightarrow> Store \<Rightarrow> (err + Session) \<times> Store" where
  "Get i st =
     (if so_closed st then (Inl ErrClosed, st)
      else case so_open st i of
        Some s \<Rightarrow> (Inr s, st)
      | None \<Rightarrow>
          if ValidateULID i \<noteq> None then (Inl ErrNotFound, st)
          else case map_of (so_dir st) i of
            None \<Rightarrow> (Inl ErrNotFound, st)
          | Some f \<Rightarrow>
              (case load i f of
                 Inl e \<Rightarrow> (Inl e, st)
               | Inr s \<Rightarrow> (let s' = s\<lparr>se_observe := so_observe st\<rparr> in (Inr s', put_open s' st))))"

definition Exists :: "string \<Rightarrow> Store \<Rightarrow> bool" where
  "Exists i st \<longleftrightarrow> so_open st i \<noteq> None \<or>
     ValidateULID i = None \<and> (map_of (so_dir st) i \<noteq> None \<or> map_of (so_archive st) i \<noteq> None)"

text \<open>\<open>Close\<close>: the sessions as their holders see them, and the store.\<close>

definition store_close :: "Store \<Rightarrow> (string \<Rightarrow> Session option) \<times> Store" where
  "store_close st = (\<lambda>i. map_option Close (so_open st i), st\<lparr>so_open := (\<lambda>_. None), so_closed := True\<rparr>)"

section \<open>Listing\<close>

record Summary =
  su_id :: string
  su_workspace :: string
  su_key :: string
  su_state :: string
  su_count :: nat
  su_created :: int
  su_updated :: int
  su_goal :: "GoalData option"
  su_total :: nat
  su_done :: int
  su_prompt :: string
  su_archived :: bool
  su_parent :: string
  su_labels :: "string list"

definition lastPromptRunes :: nat where "lastPromptRunes = 200"

definition user_content :: "Event \<Rightarrow> string option" where
  "user_content e =
     (if ev_type e \<noteq> ''message'' then None
      else case DecodeData e of
        Inr (DMessage d) \<Rightarrow> if msg_role d = ''user'' then Some (msg_content d) else None
      | _ \<Rightarrow> None)"

definition lastPrompt :: "Event list \<Rightarrow> string" where
  "lastPrompt ev =
     (case find_last (\<lambda>e. user_content e \<noteq> None) ev of
        None \<Rightarrow> []
      | Some e \<Rightarrow> concat (take lastPromptRunes (runes (trim_space (the (user_content e))))))"

definition session_summary :: "Session \<Rightarrow> Summary option" where
  "session_summary s =
     (let ev = se_events s in do {
        st \<leftarrow> Project ev;
        (path, key) \<leftarrow> session_workspace s;
        if ev = [] then None
        else Some \<lparr>su_id = se_id s, su_workspace = path, su_key = key, su_state = pr_state st, su_count = length ev,
          su_created = ev_time (hd ev), su_updated = ev_time (last ev), su_goal = pr_goal st,
          su_total = length (pr_tasks st), su_done = DoneTasks st, su_prompt = lastPrompt ev, su_archived = False,
          su_parent = op_parent (pr_options st), su_labels = op_labels (pr_options st)\<rparr>
      })"

text \<open>Newest first.\<close>

definition newest_first :: "Summary list \<Rightarrow> Summary list" where
  "newest_first out = rev (sort_key su_id out)"

fun list_from :: "string list \<Rightarrow> Store \<Rightarrow> (Summary list \<times> err list \<times> Store) option" where
  "list_from [] st = Some ([], [], st)"
| "list_from (i # is) st =
     (case Get i st of
        (Inl e, st1) \<Rightarrow> map_option (\<lambda>(out, errs, st2). (out, e # errs, st2)) (list_from is st1)
      | (Inr s, st1) \<Rightarrow> do {
          sm \<leftarrow> session_summary s;
          (out, errs, st2) \<leftarrow> list_from is st1;
          Some (sm # out, errs, st2)
        })"

definition List_sessions :: "Store \<Rightarrow> (Summary list \<times> err list \<times> Store) option" where
  "List_sessions st = map_option (\<lambda>(out, errs, st'). (newest_first out, errs, st')) (list_from (ReadDir (so_dir st)) st)"

section \<open>After a restart\<close>

definition interrupted_notice :: event_data where
  "interrupted_notice = DNotice \<lparr>nt_source = ''daemon'', nt_level = ''warn'', nt_message = ''session was running when the daemon stopped; paused''\<rparr>"

definition restart_pause :: event_data where
  "restart_pause = DStateChange \<lparr>sc_from = Some ''running'', sc_to = ''paused'', sc_reason = ''daemon_restart''\<rparr>"

definition recover_one :: "Env \<times> Env \<Rightarrow> string \<Rightarrow> string list \<times> err list \<times> Store \<Rightarrow> string list \<times> err list \<times> Store" where
  "recover_one en i acc =
     (case acc of (paused, errs, st) \<Rightarrow>
        (case Get i st of
           (Inl e, st1) \<Rightarrow> (paused, errs @ [e], st1)
         | (Inr s, st1) \<Rightarrow>
             (case store_append (fst en) interrupted_notice s st1 of
                (Inl e, s1, st2) \<Rightarrow> (paused, errs @ [e], put_open s1 st2)
              | (Inr _, s1, st2) \<Rightarrow>
                  (case store_append (snd en) restart_pause s1 (put_open s1 st2) of
                     (Inl e, s2, st3) \<Rightarrow> (paused, errs @ [e], put_open s2 st3)
                   | (Inr _, s2, st3) \<Rightarrow> (paused @ [i], errs, put_open s2 st3)))))"

definition RecoverInterrupted :: "(string \<Rightarrow> Env \<times> Env) \<Rightarrow> Store \<Rightarrow> (string list \<times> err list \<times> Store) option" where
  "RecoverInterrupted en st = do {
     (sums, errs, st1) \<leftarrow> List_sessions st;
     Some (foldl (\<lambda>acc sm. if su_state sm \<noteq> ''running'' then acc else recover_one (en (su_id sm)) (su_id sm) acc) ([], errs, st1) sums)
   }"

section \<open>The archive\<close>

text \<open>The answer holds the session it closed, as its holders see it.\<close>

definition Archive :: "string \<Rightarrow> Store \<Rightarrow> (err + Session option) \<times> Store" where
  "Archive i st =
     (if ValidateULID i \<noteq> None then (Inl ErrNotFound, st)
      else case map_of (so_dir st) i of
        None \<Rightarrow> (if map_of (so_archive st) i \<noteq> None then Inr None else Inl ErrNotFound, st)
      | Some f \<Rightarrow> (Inr (map_option Close (so_open st i)),
            st\<lparr>so_open := (so_open st)(i := None), so_dir := AList.delete i (so_dir st),
               so_archive := AList.update i f (so_archive st)\<rparr>))"

definition Restore :: "string \<Rightarrow> Store \<Rightarrow> (err + unit) \<times> Store" where
  "Restore i st =
     (if ValidateULID i \<noteq> None then (Inl ErrNotFound, st)
      else case map_of (so_archive st) i of
        None \<Rightarrow> (if map_of (so_dir st) i \<noteq> None then Inr () else Inl ErrNotFound, st)
      | Some f \<Rightarrow> (Inr (), st\<lparr>so_archive := AList.delete i (so_archive st), so_dir := AList.update i f (so_dir st)\<rparr>))"

fun list_archived_from :: "string list \<Rightarrow> Dir \<Rightarrow> (Summary list \<times> err list) option" where
  "list_archived_from [] d = Some ([], [])"
| "list_archived_from (i # is) d =
     (case load i (the (map_of d i)) of
        Inl e \<Rightarrow> map_option (\<lambda>(out, errs). (out, e # errs)) (list_archived_from is d)
      | Inr s \<Rightarrow> do {
          sm \<leftarrow> session_summary s;
          (out, errs) \<leftarrow> list_archived_from is d;
          Some (sm\<lparr>su_archived := True\<rparr> # out, errs)
        })"

definition ListArchived :: "Store \<Rightarrow> (Summary list \<times> err list) option" where
  "ListArchived st = map_option (\<lambda>(out, errs). (newest_first out, errs)) (list_archived_from (ReadDir (so_archive st)) (so_archive st))"

definition ArchivedEvents :: "string \<Rightarrow> Store \<Rightarrow> err + Event list" where
  "ArchivedEvents i st =
     (if ValidateULID i \<noteq> None then Inl ErrNotFound
      else case map_of (so_archive st) i of
        None \<Rightarrow> Inl ErrNotFound
      | Some f \<Rightarrow> (case load i f of Inl e \<Rightarrow> Inl e | Inr s \<Rightarrow> Inr (se_events s)))"

fun archived_logs_from :: "string list \<Rightarrow> Dir \<Rightarrow> (string \<times> Event list) list \<times> err list" where
  "archived_logs_from [] d = ([], [])"
| "archived_logs_from (i # is) d =
     (case archived_logs_from is d of (out, errs) \<Rightarrow>
        (case load i (the (map_of d i)) of
           Inl e \<Rightarrow> (out, e # errs)
         | Inr s \<Rightarrow> ((i, se_events s) # out, errs)))"

definition ArchivedLogs :: "Store \<Rightarrow> (string \<times> Event list) list \<times> err list" where
  "ArchivedLogs st = archived_logs_from (ReadDir (so_archive st)) (so_archive st)"

section \<open>The store's invariant\<close>

definition store_ok :: "Store \<Rightarrow> bool" where
  "store_ok st \<longleftrightarrow> distinct (map fst (so_dir st)) \<and> distinct (map fst (so_archive st)) \<and>
     (so_closed st \<longrightarrow> so_open st = (\<lambda>_. None)) \<and>
     (\<forall>i s. so_open st i = Some s \<longrightarrow> se_id s = i \<and> ValidateULID i = None \<and> ValidateLog (se_events s) = None \<and>
        \<not> se_closed s \<and> map_of (so_dir st) i = Some (se_file s))"

lemma store_okD:
  assumes "store_ok st" "so_open st i = Some s"
  shows "se_id s = i" "ValidateULID i = None" "ValidateLog (se_events s) = None" "\<not> se_closed s"
    "map_of (so_dir st) i = Some (se_file s)"
  using assms by (simp_all add: store_ok_def)

lemma load_sel: "load i f = Inr s \<Longrightarrow> se_id s = i \<and> \<not> se_closed s \<and> se_file s = f \<and> ValidateLog (se_events s) = None"
  by (auto simp: load_def split: sum.splits option.splits)

lemma open_not_closed: "store_ok st \<Longrightarrow> so_open st i = Some s \<Longrightarrow> \<not> so_closed st"
  by (auto simp: store_ok_def)

text \<open>What \<open>Get\<close> answers, as a function of the store, and what it leaves.\<close>

definition session_of :: "Store \<Rightarrow> string \<Rightarrow> Session option" where
  "session_of st i = (case fst (Get i st) of Inr s \<Rightarrow> Some s | Inl _ \<Rightarrow> None)"

lemma session_of_eq:
  "session_of st i =
     (if so_closed st then None
      else case so_open st i of Some s \<Rightarrow> Some s
      | None \<Rightarrow> if ValidateULID i \<noteq> None then None
        else case map_of (so_dir st) i of None \<Rightarrow> None
        | Some f \<Rightarrow> (case load i f of Inl _ \<Rightarrow> None | Inr s \<Rightarrow> Some (s\<lparr>se_observe := so_observe st\<rparr>)))"
  by (auto simp: session_of_def Get_def Let_def split: option.split sum.split)

lemma session_of_cong:
  "so_closed a = so_closed b \<Longrightarrow> so_open a j = so_open b j \<Longrightarrow> map_of (so_dir a) j = map_of (so_dir b) j \<Longrightarrow>
     so_observe a = so_observe b \<Longrightarrow> session_of a j = session_of b j"
  by (simp only: session_of_eq)

lemma Get_ok:
  assumes "store_ok st" "Get i st = (r, st')"
  shows "store_ok st' \<and> so_dir st' = so_dir st \<and> so_archive st' = so_archive st \<and> so_closed st' = so_closed st \<and>
    so_last st' = so_last st \<and> (\<forall>s. r = Inr s \<longrightarrow> so_open st' i = Some s) \<and> (\<forall>j. session_of st' j = session_of st j)"
proof (cases "so_closed st \<or> so_open st i \<noteq> None \<or> (\<forall>s f. map_of (so_dir st) i = Some f \<longrightarrow> load i f \<noteq> Inr s) \<or> ValidateULID i \<noteq> None")
  case True
  then show ?thesis using assms by (auto simp: Get_def split: if_splits option.splits sum.splits)
next
  case False
  then obtain f s where f: "map_of (so_dir st) i = Some f" "load i f = Inr s" "\<not> so_closed st" "so_open st i = None"
    "ValidateULID i = None" by auto
  let ?s = "s\<lparr>se_observe := so_observe st\<rparr>"
  have g: "Get i st = (Inr ?s, put_open ?s st)" using f by (simp add: Get_def Let_def)
  have l: "se_id s = i \<and> \<not> se_closed s \<and> se_file s = f \<and> ValidateLog (se_events s) = None" using load_sel [OF f(2)] .
  have "store_ok (put_open ?s st)" using assms(1) f l by (auto simp: store_ok_def put_open_def)
  moreover have "session_of (put_open ?s st) j = session_of st j" for j
    using f l g by (auto simp: session_of_def Get_def put_open_def Let_def split: option.split sum.split)
  ultimately show ?thesis using assms(2) g f l by (auto simp: put_open_def)
qed

lemma session_of_Some:
  assumes "store_ok st" "session_of st i = Some s"
  shows "\<not> so_closed st \<and> se_id s = i \<and> ValidateULID i = None \<and> ValidateLog (se_events s) = None \<and> i \<in> fst ` set (so_dir st)"
proof -
  obtain st' where g: "Get i st = (Inr s, st')" using assms(2) by (cases "Get i st") (auto simp: session_of_def split: sum.splits)
  have o: "so_open st' i = Some s" "store_ok st'" "so_dir st' = so_dir st" using Get_ok [OF assms(1) g] by simp_all
  have "\<not> so_closed st" using g by (auto simp: Get_def)
  then show ?thesis using store_okD [OF o(2,1)] o(3) map_of_SomeD by (metis fst_conv image_eqI)
qed

lemma summary_valid:
  assumes "ValidateLog (se_events s) = None"
  shows "\<exists>sm. session_summary s = Some sm \<and> su_id sm = se_id s \<and> su_state sm = pr_state (projection_of (se_events s)) \<and>
    su_count sm = length (se_events s)"
proof -
  obtain e es where l: "se_events s = e # es" "ev_type e = ''session''" using ValidateLog_first [OF assms] by blast
  obtain p where p: "DecodeData e = Inr p" "payload_type p = ''session''" using ValidateLog_events(3) [OF assms, of e] l by auto
  then obtain d where "MustData as_session e = Some d" by (cases p) (simp_all add: MustData_def as_session_def)
  then have "session_workspace s = Some (sd_workspace d, sd_key d)" using l by (simp add: session_workspace_def)
  then show ?thesis using Project_valid [OF assms] l by (simp add: session_summary_def Let_def)
qed

lemma list_from_total:
  assumes "store_ok st"
  shows "\<exists>out errs st'. list_from is st = Some (out, errs, st') \<and> store_ok st' \<and> so_dir st' = so_dir st \<and>
    so_archive st' = so_archive st \<and> so_closed st' = so_closed st \<and> (\<forall>j. session_of st' j = session_of st j) \<and>
    map su_id out = filter (\<lambda>i. session_of st i \<noteq> None) is \<and>
    length errs = length (filter (\<lambda>i. session_of st i = None) is) \<and>
    (\<forall>sm \<in> set out. \<exists>s. session_of st (su_id sm) = Some s \<and> session_summary s = Some sm)"
  using assms
proof (induction "is" arbitrary: st)
  case (Cons i "is")
  obtain r st1 where g: "Get i st = (r, st1)" by fastforce
  note k = Get_ok [OF Cons.prems g]
  then obtain out errs st' where r: "list_from is st1 = Some (out, errs, st')" "store_ok st'" "so_dir st' = so_dir st"
    "so_archive st' = so_archive st" "so_closed st' = so_closed st" "\<forall>j. session_of st' j = session_of st j"
    "map su_id out = filter (\<lambda>i. session_of st i \<noteq> None) is"
    "length errs = length (filter (\<lambda>i. session_of st i = None) is)"
    "\<forall>sm \<in> set out. \<exists>s. session_of st (su_id sm) = Some s \<and> session_summary s = Some sm"
    using Cons.IH [of st1] by auto
  show ?case
  proof (cases r)
    case (Inl e)
    then have "session_of st i = None" using g by (simp add: session_of_def)
    then show ?thesis using g Inl r by simp
  next
    case (Inr s)
    then have s: "session_of st i = Some s" using g by (simp add: session_of_def)
    note v = session_of_Some [OF Cons.prems s]
    then obtain sm where "session_summary s = Some sm" "su_id sm = i" using summary_valid [of s] by auto
    then show ?thesis using g Inr r s by simp
  qed
qed simp

lemma newest_first_sorted:
  assumes "distinct (map su_id out)"
  shows "sorted_wrt (\<lambda>a b. su_id b < su_id a) (newest_first out)" "set (newest_first out) = set out"
proof -
  have "distinct (map su_id (sort_key su_id out))" using assms by (simp add: distinct_map)
  then have "sorted_wrt (<) (map su_id (sort_key su_id out))" by (simp add: strict_sorted_iff)
  then show "sorted_wrt (\<lambda>a b. su_id b < su_id a) (newest_first out)"
    by (simp add: newest_first_def sorted_wrt_rev sorted_wrt_map)
qed (simp add: newest_first_def)

lemma List_sessions_total:
  assumes "store_ok st"
  shows "\<exists>out errs st'. List_sessions st = Some (out, errs, st') \<and> store_ok st' \<and> so_dir st' = so_dir st \<and> so_archive st' = so_archive st \<and>
    (\<forall>j. session_of st' j = session_of st j) \<and> sorted_wrt (\<lambda>a b. su_id b < su_id a) out \<and> distinct (map su_id out) \<and>
    su_id ` set out = {i \<in> fst ` set (so_dir st). session_of st i \<noteq> None} \<and>
    length out + length errs = length (so_dir st) \<and>
    (\<forall>sm \<in> set out. \<exists>s. session_of st (su_id sm) = Some s \<and> session_summary s = Some sm)"
proof -
  obtain out errs st' where r: "list_from (ReadDir (so_dir st)) st = Some (out, errs, st')" "store_ok st'" "so_dir st' = so_dir st"
    "so_archive st' = so_archive st" "\<forall>j. session_of st' j = session_of st j"
    "map su_id out = filter (\<lambda>i. session_of st i \<noteq> None) (ReadDir (so_dir st))"
    "length errs = length (filter (\<lambda>i. session_of st i = None) (ReadDir (so_dir st)))"
    "\<forall>sm \<in> set out. \<exists>s. session_of st (su_id sm) = Some s \<and> session_summary s = Some sm"
    using list_from_total [OF assms] by blast
  have d: "distinct (ReadDir (so_dir st))" "set (ReadDir (so_dir st)) = fst ` set (so_dir st)"
    "length (ReadDir (so_dir st)) = length (so_dir st)"
    using assms by (simp_all add: ReadDir_def store_ok_def)
  have ids: "distinct (map su_id out)" using d(1) unfolding r(6) by simp
  then have dn: "distinct (map su_id (newest_first out))" by (simp add: newest_first_def distinct_map rev_map [symmetric])
  have "su_id ` set out = set (map su_id out)" by simp
  also have "\<dots> = {i \<in> fst ` set (so_dir st). session_of st i \<noteq> None}" unfolding r(6) using d(2) by auto
  finally have s: "su_id ` set out = {i \<in> fst ` set (so_dir st). session_of st i \<noteq> None}" .
  have "length out = length (filter (\<lambda>i. session_of st i \<noteq> None) (ReadDir (so_dir st)))" using r(6) by (metis length_map)
  then have "length out + length errs = length (so_dir st)"
    using r(7) d(3) sum_length_filter_compl [of "\<lambda>i. session_of st i \<noteq> None" "ReadDir (so_dir st)"] by simp
  moreover have "length (newest_first out) = length out" by (simp add: newest_first_def)
  ultimately show ?thesis using r newest_first_sorted [OF ids] s dn by (simp add: List_sessions_def)
qed

text \<open>A listing holds every session on disk that can be read, once, newest first, and reports every other file,
  so that one bad file hides no session. It changes no file.\<close>
theorem List_complete:
  assumes "store_ok st"
  shows "\<exists>out errs st'. List_sessions st = Some (out, errs, st') \<and> so_dir st' = so_dir st \<and>
    sorted_wrt (\<lambda>a b. su_id b < su_id a) out \<and>
    su_id ` set out = {i \<in> fst ` set (so_dir st). session_of st i \<noteq> None} \<and>
    length out + length errs = length (so_dir st) \<and>
    (\<forall>sm \<in> set out. \<exists>s. session_of st (su_id sm) = Some s \<and> session_summary s = Some sm)"
  using List_sessions_total [OF assms] by blast

lemma Archive_ok: "store_ok st \<Longrightarrow> store_ok (snd (Archive i st))"
  by (auto simp: store_ok_def Archive_def distinct_update distinct_delete delete_conv' simp del: map_of_eq_Some_iff split: option.split)

lemma Restore_ok: "store_ok st \<Longrightarrow> map_of (so_dir st) i = None \<or> map_of (so_archive st) i = None \<Longrightarrow> store_ok (snd (Restore i st))"
  by (auto simp: store_ok_def Restore_def distinct_update distinct_delete update_conv' simp del: map_of_eq_Some_iff split: option.split)

text \<open>Archiving a session and restoring it loses nothing. Meanwhile it is unknown to \<open>Get\<close> and known to
  \<open>Exists\<close>, and its events can be read from the archive; restored, the directories are as before and the
  session has the same events, read from its file.\<close>
theorem Archive_Restore:
  assumes "store_ok st" "\<not> so_closed st" "map_of (so_dir st) i = Some f" "load i f = Inr s" "ValidateULID i = None"
    "map_of (so_archive st) i = None"
  defines "st1 \<equiv> snd (Archive i st)"
  defines "st2 \<equiv> snd (Restore i st1)"
  shows "(fst (Get i st1) = Inl ErrNotFound \<and> Exists i st1 \<and> ArchivedEvents i st1 = Inr (se_events s)) \<and>
     (map_of (so_dir st2) = map_of (so_dir st) \<and> map_of (so_archive st2) = map_of (so_archive st)) \<and>
     (store_ok st2 \<and> (\<exists>s2. session_of st2 i = Some s2 \<and> se_events s2 = se_events s)) \<and>
     (j \<noteq> i \<longrightarrow> session_of st2 j = session_of st j)"
proof -
  have c1: "fst (Get i st1) = Inl ErrNotFound \<and> Exists i st1 \<and> ArchivedEvents i st1 = Inr (se_events s)" and c2: "map_of (so_dir st2) = map_of (so_dir st) \<and> map_of (so_archive st2) = map_of (so_archive st)" and c3: "store_ok st2 \<and> (\<exists>s2. session_of st2 i = Some s2 \<and> se_events s2 = se_events s)" and c4: "j \<noteq> i \<Longrightarrow> session_of st2 j = session_of st j"
  proof -
    have a: "Archive i st = (Inr (map_option Close (so_open st i)), st1)"
      using assms(3,5) by (simp add: Archive_def st1_def)
    have st1: "st1 = st\<lparr>so_open := (so_open st)(i := None), so_dir := AList.delete i (so_dir st), so_archive := AList.update i f (so_archive st)\<rparr>"
      using assms(3,5) by (simp add: Archive_def st1_def)
    have st2: "st2 = st1\<lparr>so_archive := AList.delete i (so_archive st1), so_dir := AList.update i f (so_dir st1)\<rparr>"
      using assms(5) by (simp add: Restore_def st2_def st1 update_conv')
    show "fst (Get i st1) = Inl ErrNotFound \<and> Exists i st1 \<and> ArchivedEvents i st1 = Inr (se_events s)"
      using assms(2,4,5) by (simp add: Get_def Exists_def ArchivedEvents_def st1 delete_conv' update_conv')
    have dir: "map_of (so_dir st2) = map_of (so_dir st)"
      using assms(3) by (simp add: st2 st1 delete_conv' update_conv' fun_upd_idem)
    moreover have "map_of (so_archive st2) = map_of (so_archive st)"
      using assms(6) by (simp add: st2 st1 delete_conv' update_conv' fun_upd_idem)
    ultimately show "map_of (so_dir st2) = map_of (so_dir st) \<and> map_of (so_archive st2) = map_of (so_archive st)" ..
    have "map_of (so_dir st1) i = None" by (simp add: st1 delete_conv')
    then have "store_ok st2" using Restore_ok Archive_ok [OF assms(1), of i] by (simp add: st2_def st1_def [symmetric])
    moreover have o: "so_open st2 = (so_open st)(i := None)" "so_closed st2 = so_closed st" "so_observe st2 = so_observe st"
      by (simp_all add: st2 st1)
    ultimately show "store_ok st2 \<and> (\<exists>s2. session_of st2 i = Some s2 \<and> se_events s2 = se_events s)"
      using assms(2-5) dir by (simp add: session_of_eq)
    show "session_of st2 j = session_of st j" if "j \<noteq> i"
      using that dir o by (intro session_of_cong) simp_all
  qed
  from c1 c2 c3 c4 show ?thesis by blast
qed

section \<open>Appending to a session of the store\<close>

lemma on_disk_open: "store_ok st \<Longrightarrow> so_open st i = Some s \<Longrightarrow> on_disk st s = s"
  using store_okD [of st i s] by (simp add: on_disk_def)

text \<open>An append that is written.\<close>

lemma store_append_open:
  assumes "store_ok st" "so_open st i = Some s" "en_write en = Wrote" "payload_ok p" "validate_payload p = None"
    "payload_type p \<noteq> ''session''"
  shows "\<exists>e s' st'. store_append en p s st = (Inr e, s', st') \<and> store_ok (put_open s' st') \<and> so_open (put_open s' st') i = Some s' \<and>
    projection_of (se_events s') = project_payload ((projection_of (se_events s))\<lparr>pr_last := ev_id e\<rparr>) p \<and>
    so_closed st' = so_closed st \<and> so_archive st' = so_archive st \<and> so_dir st' = AList.update i (se_file s') (so_dir st) \<and>
    (\<forall>j. j \<noteq> i \<longrightarrow> session_of (put_open s' st') j = session_of st j)"
proof -
  note d = store_okD [OF assms(1,2)]
  have ne: "se_events s \<noteq> []" using d(3) by (auto simp: ValidateLog_def)
  then obtain e where e: "new_event en (se_events s) (payload_type p) (enc_payload p) = Inr e"
    using new_event_some by blast
  let ?s1 = "s\<lparr>se_file := file_write Wrote e (se_file s), se_events := se_events s @ [e], se_pending := Some e\<rparr>"
  let ?s' = "append_finish ?s1"
  have l: "append_locked en (payload_type p) (Inr (enc_payload p)) s = (Inr e, ?s1)"
    using assms d(4) e by (intro append_ok) simp_all
  let ?st' = "st\<lparr>so_dir := AList.update i (se_file ?s') (so_dir st)\<rparr>"
  have a: "store_append en p s st = (Inr e, ?s', ?st')"
    by (simp add: store_append_def on_disk_open [OF assms(1,2)] Append_def l d(1))
  have ev: "ev_type e = payload_type p" "ev_data e = Some (enc_payload p)"
    using e ne by (auto simp: new_event_def Let_def)
  then have dec: "DecodeData e = Inr p" using assms(4) by (intro DecodeData_payload)
  have "ValidateEvent e = None" using ev assms(4,5) by (intro ValidateEvent_payload)
  then have v: "ValidateLog (se_events s @ [e]) = None" using append_valid [OF e] d(3) assms(6) by simp
  have ok: "store_ok (put_open ?s' ?st')"
    using assms(1) d v open_not_closed [OF assms(1,2)]
    by (auto simp: store_ok_def put_open_def distinct_update update_conv' simp del: map_of_eq_Some_iff)
  have "session_of (put_open ?s' ?st') j = session_of st j" if "j \<noteq> i" for j
    using that d(1) by (intro session_of_cong) (simp_all add: put_open_def update_conv')
  then show ?thesis using a ok d(1) projection_of_snoc [OF dec] by (intro exI [of _ e] exI [of _ ?s'] exI [of _ ?st']) (simp add: put_open_def)
qed

section \<open>A restart\<close>

definition state_of :: "Store \<Rightarrow> string \<Rightarrow> string option" where
  "state_of st i = map_option (\<lambda>s. pr_state (projection_of (se_events s))) (session_of st i)"

definition env_writes :: "Env \<times> Env \<Rightarrow> bool" where
  "env_writes en \<longleftrightarrow> en_write (fst en) = Wrote \<and> en_write (snd en) = Wrote"

lemma session_of_open: "store_ok st \<Longrightarrow> \<not> so_closed st \<Longrightarrow> so_open st i = Some s \<Longrightarrow> session_of st i = Some s"
  by (simp add: session_of_def Get_def)

lemma recover_one_pauses:
  assumes "store_ok st" "session_of st i \<noteq> None" "env_writes en"
  shows "\<exists>st'. recover_one en i (paused, errs, st) = (paused @ [i], errs, st') \<and> store_ok st' \<and>
    state_of st' i = Some ''paused'' \<and> (\<forall>j. j \<noteq> i \<longrightarrow> session_of st' j = session_of st j)"
proof -
  obtain s where s: "session_of st i = Some s" using assms(2) by blast
  then obtain st1 where g: "Get i st = (Inr s, st1)" by (cases "Get i st") (auto simp: session_of_def split: sum.splits)
  have c: "\<not> so_closed st" using session_of_Some [OF assms(1) s] by simp
  have k: "store_ok st1" "so_closed st1 = so_closed st" "so_open st1 i = Some s" "\<forall>j. session_of st1 j = session_of st j"
    using Get_ok [OF assms(1) g] by simp_all
  have w: "en_write (fst en) = Wrote" "en_write (snd en) = Wrote" using assms(3) by (simp_all add: env_writes_def)
  have p1: "payload_ok interrupted_notice" "validate_payload interrupted_notice = None" "payload_type interrupted_notice \<noteq> ''session''"
    by (simp_all add: interrupted_notice_def validate_notice_def isSource_def)
  have p2: "payload_ok restart_pause" "validate_payload restart_pause = None" "payload_type restart_pause \<noteq> ''session''"
    by (simp_all add: restart_pause_def validate_state_change_def isState_def)
  obtain e1 s1 st2 where a1: "store_append (fst en) interrupted_notice s st1 = (Inr e1, s1, st2)" "store_ok (put_open s1 st2)"
    "so_open (put_open s1 st2) i = Some s1" "so_closed st2 = so_closed st1"
    "\<forall>j. j \<noteq> i \<longrightarrow> session_of (put_open s1 st2) j = session_of st1 j"
    using store_append_open [OF k(1,3) w(1) p1] by blast
  obtain e2 s2 st3 where a2: "store_append (snd en) restart_pause s1 (put_open s1 st2) = (Inr e2, s2, st3)" "store_ok (put_open s2 st3)"
    "so_open (put_open s2 st3) i = Some s2" "so_closed st3 = so_closed (put_open s1 st2)"
    "projection_of (se_events s2) = project_payload ((projection_of (se_events s1))\<lparr>pr_last := ev_id e2\<rparr>) restart_pause"
    "\<forall>j. j \<noteq> i \<longrightarrow> session_of (put_open s2 st3) j = session_of (put_open s1 st2) j"
    using store_append_open [OF a1(2,3) w(2) p2] by blast
  have "\<not> so_closed (put_open s2 st3)" using a1(4) a2(4) k(2) c by (simp add: put_open_def)
  then have "state_of (put_open s2 st3) i = Some ''paused''"
    using session_of_open [OF a2(2) _ a2(3)] a2(5) by (simp add: state_of_def restart_pause_def)
  then show ?thesis using g a1 a2 k(4) by (simp add: recover_one_def)
qed

lemma recover_fold:
  assumes "store_ok st" "distinct (map su_id sums)" "\<forall>sm \<in> set sums. session_of st (su_id sm) \<noteq> None" "\<forall>i. env_writes (en i)"
  shows "\<exists>st'. foldl (\<lambda>acc sm. if su_state sm \<noteq> ''running'' then acc else recover_one (en (su_id sm)) (su_id sm) acc) (paused, errs, st) sums
      = (paused @ map su_id (filter (\<lambda>sm. su_state sm = ''running'') sums), errs, st') \<and> store_ok st' \<and>
    (\<forall>sm \<in> set sums. su_state sm = ''running'' \<longrightarrow> state_of st' (su_id sm) = Some ''paused'') \<and>
    (\<forall>j. j \<notin> su_id ` {sm \<in> set sums. su_state sm = ''running''} \<longrightarrow> session_of st' j = session_of st j)"
  using assms(1-3)
proof (induction sums arbitrary: st paused)
  case (Cons sm sums)
  show ?case
  proof (cases "su_state sm = ''running''")
    case False
    then have "{x \<in> set (sm # sums). su_state x = ''running''} = {x \<in> set sums. su_state x = ''running''}" by auto
    with False show ?thesis using Cons.IH [OF Cons.prems(1), of paused] Cons.prems(2,3) by auto
  next
    case True
    obtain st1 where r: "recover_one (en (su_id sm)) (su_id sm) (paused, errs, st) = (paused @ [su_id sm], errs, st1)" "store_ok st1"
      "state_of st1 (su_id sm) = Some ''paused''" "\<forall>j. j \<noteq> su_id sm \<longrightarrow> session_of st1 j = session_of st j"
      using recover_one_pauses [OF Cons.prems(1) bspec [OF Cons.prems(3) list.set_intros(1)] spec [OF assms(4)]] by blast
    have "su_id sm \<notin> su_id ` set sums" using Cons.prems(2) by simp
    then have ne: "x \<in> set sums \<Longrightarrow> su_id x \<noteq> su_id sm" for x by (metis image_eqI)
    then have "\<forall>x \<in> set sums. session_of st1 (su_id x) \<noteq> None" using Cons.prems(3) r(4) by simp
    then obtain st' where f: "foldl (\<lambda>acc sm. if su_state sm \<noteq> ''running'' then acc else recover_one (en (su_id sm)) (su_id sm) acc)
        (paused @ [su_id sm], errs, st1) sums
        = (paused @ [su_id sm] @ map su_id (filter (\<lambda>sm. su_state sm = ''running'') sums), errs, st')" "store_ok st'"
      "\<forall>x \<in> set sums. su_state x = ''running'' \<longrightarrow> state_of st' (su_id x) = Some ''paused''"
      "\<forall>j. j \<notin> su_id ` {sm \<in> set sums. su_state sm = ''running''} \<longrightarrow> session_of st' j = session_of st1 j"
      using Cons.IH [OF r(2), of "paused @ [su_id sm]"] Cons.prems(2) by auto
    have "su_id sm \<notin> su_id ` {sm \<in> set sums. su_state sm = ''running''}" using ne by (metis (no_types, lifting) imageE mem_Collect_eq)
    then have "state_of st' (su_id sm) = Some ''paused''" using f(4) r(3) by (simp add: state_of_def)
    moreover have "su_id ` {x \<in> set (sm # sums). su_state x = ''running''} = insert (su_id sm) (su_id ` {x \<in> set sums. su_state x = ''running''})"
      using True by auto
    ultimately show ?thesis using f(1-3) r(1) f(4) r(4) True by (intro exI [of _ st']) simp
  qed
qed simp

text \<open>C8: After a restart no session is running. With every append written, \<open>RecoverInterrupted\<close> pauses exactly the
  sessions whose logs say running, returns their ids, newest first, and leaves every other session alone.\<close>
theorem RecoverInterrupted_pauses:
  assumes "store_ok st" "\<forall>i. env_writes (en i)"
  shows "\<exists>paused errs st'. RecoverInterrupted en st = Some (paused, errs, st') \<and> store_ok st' \<and>
    set paused = {i. state_of st i = Some ''running''} \<and> sorted_wrt (>) paused \<and>
    (\<forall>i. state_of st' i = (if i \<in> set paused then Some ''paused'' else state_of st i)) \<and>
    (\<forall>i. i \<notin> set paused \<longrightarrow> session_of st' i = session_of st i)"
proof -
  obtain out errs st1 where r: "list_from (ReadDir (so_dir st)) st = Some (out, errs, st1)" "store_ok st1"
    "\<forall>j. session_of st1 j = session_of st j" "map su_id out = filter (\<lambda>i. session_of st i \<noteq> None) (ReadDir (so_dir st))"
    "\<forall>sm \<in> set out. \<exists>s. session_of st (su_id sm) = Some s \<and> session_summary s = Some sm"
    using list_from_total [OF assms(1)] by blast
  let ?sums = "newest_first out"
  have rd: "distinct (ReadDir (so_dir st))" "set (ReadDir (so_dir st)) = fst ` set (so_dir st)"
    using assms(1) by (simp_all add: ReadDir_def store_ok_def)
  have ids: "distinct (map su_id out)" using rd(1) unfolding r(4) by simp
  note nf = newest_first_sorted [OF ids]
  have dn: "distinct (map su_id ?sums)" using ids by (simp add: newest_first_def distinct_map rev_map [symmetric])
  have "\<forall>sm \<in> set ?sums. session_of st1 (su_id sm) \<noteq> None" using r(3,5) nf(2) by fastforce
  from recover_fold [OF r(2) dn this assms(2), of "[]" errs] obtain st' where f:
    "foldl (\<lambda>acc sm. if su_state sm \<noteq> ''running'' then acc else recover_one (en (su_id sm)) (su_id sm) acc) ([], errs, st1) ?sums
      = (map su_id (filter (\<lambda>sm. su_state sm = ''running'') ?sums), errs, st')" "store_ok st'"
    "\<forall>sm \<in> set ?sums. su_state sm = ''running'' \<longrightarrow> state_of st' (su_id sm) = Some ''paused''"
    "\<forall>j. j \<notin> su_id ` {sm \<in> set ?sums. su_state sm = ''running''} \<longrightarrow> session_of st' j = session_of st1 j" by auto
  let ?paused = "map su_id (filter (\<lambda>sm. su_state sm = ''running'') ?sums)"
  have st: "state_of st (su_id sm) = Some (su_state sm)" if sm: "sm \<in> set out" for sm
  proof -
    obtain s where s: "session_of st (su_id sm) = Some s" "session_summary s = Some sm" using bspec [OF r(5) sm] by (elim exE conjE)
    then have "ValidateLog (se_events s) = None" using session_of_Some [OF assms(1) s(1)] by simp
    from summary_valid [OF this] s show ?thesis by (auto simp: state_of_def)
  qed
  have all: "\<exists>sm \<in> set out. su_id sm = i" if known: "state_of st i \<noteq> None" for i
  proof -
    obtain s where "session_of st i = Some s" using known by (auto simp: state_of_def)
    moreover have "i \<in> fst ` set (so_dir st)" using session_of_Some [OF assms(1) calculation] by blast
    ultimately have "i \<in> set (map su_id out)" unfolding r(4) set_filter rd(2) by simp
    then show ?thesis unfolding set_map by (metis imageE)
  qed
  have sp: "set ?paused = {i. state_of st i = Some ''running''}"
  proof (intro set_eqI iffI)
    fix i assume "i \<in> set ?paused"
    then obtain sm where "sm \<in> set out" "su_state sm = ''running''" "su_id sm = i" using nf(2) by auto
    then show "i \<in> {i. state_of st i = Some ''running''}" using st by force
  next
    fix i assume "i \<in> {i. state_of st i = Some ''running''}"
    then have i: "state_of st i = Some ''running''" by simp
    then obtain sm where sm: "sm \<in> set out" "su_id sm = i" using all [of i] by auto
    then have "su_state sm = ''running''" using st [OF sm(1)] i by simp
    then show "i \<in> set ?paused" using sm nf(2) by force
  qed
  have im: "su_id ` {sm \<in> set ?sums. su_state sm = ''running''} = set ?paused" by auto
  have same: "\<forall>i. i \<notin> set ?paused \<longrightarrow> session_of st' i = session_of st i" using f(4) r(3) unfolding im by simp
  have "state_of st' i = (if i \<in> set ?paused then Some ''paused'' else state_of st i)" for i
    using f(3) same by (auto simp: state_of_def)
  moreover have "sorted_wrt (>) ?paused" using nf(1) by (simp add: sorted_wrt_map sorted_wrt_filter)
  moreover have "RecoverInterrupted en st = Some (?paused, errs, st')"
    using r(1) f(1) by (simp add: RecoverInterrupted_def List_sessions_def)
  ultimately show ?thesis using f(2) sp same by blast
qed

section \<open>A sample store\<close>

definition sample_running :: event_data where
  "sample_running = DStateChange \<lparr>sc_from = None, sc_to = ''running'', sc_reason = ''prompt''\<rparr>"

definition sample_file :: LogFile where
  "sample_file = \<lparr>lf_lines = map Some (sample_log [sample_session, sample_running]), lf_torn = None\<rparr>"

text \<open>A store just opened on a directory with one session, running when the daemon stopped.\<close>

definition sample_store :: Store where
  "sample_store = Open [(sample_id 0, sample_file)] []"

lemma sample_store_ok: "store_ok sample_store"
  by (simp add: store_ok_def sample_store_def Open_def)

lemma sample_running_valid: "ValidateLog (sample_log [sample_session, sample_running]) = None"
  by (rule sample_log_valid) (auto simp: sample_running_def validate_state_change_def isState_def)

lemma sample_running_state: "pr_state (projection_of (sample_log [sample_session, sample_running])) = ''running''"
proof -
  have "projection_of (sample_log [sample_session] @ [sample_event 1 sample_running]) =
      project_payload ((projection_of (sample_log [sample_session]))\<lparr>pr_last := sample_id 1\<rparr>) sample_running"
    using projection_of_snoc [of "sample_event 1 sample_running" sample_running "sample_log [sample_session]"]
    by (simp add: sample_event_decodes sample_running_def)
  moreover have "sample_log [sample_session, sample_running] = sample_log [sample_session] @ [sample_event 1 sample_running]"
    by (simp add: sample_log_def)
  ultimately show ?thesis by (simp add: sample_running_def)
qed

lemma sample_running_fits: "line_fits (sample_event 1 sample_running)"
  by code_simp

lemma sample_file_load:
  "load_lines i n (map Some (sample_log [sample_session, sample_running])) = Inr (sample_log [sample_session, sample_running])"
proof (rule load_lines_Some)
  have "sample_log [sample_session, sample_running] = [sample_event 0 sample_session, sample_event 1 sample_running]"
    by (simp add: sample_log_def)
  then show "\<forall>e \<in> set (sample_log [sample_session, sample_running]). line_fits e"
    using sample_session_fits sample_running_fits by simp
qed

lemma sample_store_session:
  "\<exists>s. load (sample_id 0) sample_file = Inr s \<and> session_of sample_store (sample_id 0) = Some s \<and>
     se_events s = sample_log [sample_session, sample_running]"
  using sample_running_valid sample_file_load
  by (simp add: load_def sample_file_def file_lines_def session_of_eq sample_store_def Open_def sample_id_valid)

lemma List_complete_witness:
  "\<exists>out errs st'. List_sessions sample_store = Some (out, errs, st') \<and> su_id ` set out = {sample_id 0}"
proof -
  obtain s where "session_of sample_store (sample_id 0) = Some s" using sample_store_session by blast
  then have "{i \<in> fst ` set (so_dir sample_store). session_of sample_store i \<noteq> None} = {sample_id 0}"
    by (auto simp: sample_store_def Open_def)
  with List_complete [OF sample_store_ok] show ?thesis by metis
qed

lemma Archive_Restore_witness:
  "\<exists>s2. session_of (snd (Restore (sample_id 0) (snd (Archive (sample_id 0) sample_store)))) (sample_id 0) = Some s2 \<and>
     se_events s2 = sample_log [sample_session, sample_running]"
proof -
  obtain s where s: "load (sample_id 0) sample_file = Inr s" "se_events s = sample_log [sample_session, sample_running]"
    using sample_store_session by blast
  from Archive_Restore [OF sample_store_ok _ _ s(1) sample_id_valid, THEN conjunct2, THEN conjunct2, THEN conjunct1] s(2) show ?thesis
    by (simp add: sample_store_def Open_def)
qed

lemma RecoverInterrupted_pauses_witness:
  "\<exists>errs st'. RecoverInterrupted (\<lambda>_. (sample_env Wrote, sample_env Wrote)) sample_store = Some ([sample_id 0], errs, st') \<and>
     state_of st' (sample_id 0) = Some ''paused''"
proof -
  have "state_of sample_store i = Some ''running'' \<longleftrightarrow> i = sample_id 0" for i
  proof -
    obtain s where s: "session_of sample_store (sample_id 0) = Some s" "se_events s = sample_log [sample_session, sample_running]"
      using sample_store_session by blast
    have "state_of sample_store (sample_id 0) = Some ''running''" using s sample_running_state by (simp add: state_of_def)
    moreover have "session_of sample_store i = None" if "i \<noteq> sample_id 0" using that by (simp add: session_of_eq sample_store_def Open_def)
    ultimately show ?thesis by (cases "i = sample_id 0") (simp_all add: state_of_def)
  qed
  moreover obtain paused errs st' where r:
    "RecoverInterrupted (\<lambda>_. (sample_env Wrote, sample_env Wrote)) sample_store = Some (paused, errs, st')"
    "set paused = {i. state_of sample_store i = Some ''running''}" "sorted_wrt (>) paused"
    "\<forall>i. state_of st' i = (if i \<in> set paused then Some ''paused'' else state_of sample_store i)"
    using RecoverInterrupted_pauses [OF sample_store_ok, of "\<lambda>_. (sample_env Wrote, sample_env Wrote)"]
    by (auto simp: env_writes_def)
  ultimately have p: "set paused = {sample_id 0}" by simp
  have "distinct paused" using r(3) by (induction paused) auto
  then have "paused = [sample_id 0]" using p by (cases paused; cases "tl paused") auto
  then show ?thesis using r(1,4) by auto
qed

end
