(* ===== verification/Archiving.thy ===== *)
theory Archiving
  imports Session_Store Agent_Ops
begin

text \<open>
  The archiving part of \<open>daemon/agent/manager.go\<close>, over the store: a session is archived with every session
  descended from it, and restored with those. \<open>mg_running\<close> says for which sessions the manager has a loop
  running; the sessions themselves are those of the store. \<open>en\<close> gives the environment of the append to
  each session. The number of days in \<open>ArchiveIdle\<close>'s reason is an argument.

  The lemmas show that \<open>descendants\<close> is the transitive closure of the parent relation, and what
  becomes of a family when one of it runs.
\<close>

record Mgr =
  mg_store :: Store
  mg_running :: "string \<Rightarrow> bool"

section \<open>Descendants\<close>

definition children :: "Summary list \<Rightarrow> string \<Rightarrow> string list" where
  "children sums p = map su_id (filter (\<lambda>s. su_parent s \<noteq> [] \<and> su_parent s = p) sums)"

fun visit :: "string set \<Rightarrow> string list \<Rightarrow> string list" where
  "visit seen [] = []"
| "visit seen (c # cs) = (if c \<in> seen then visit seen cs else c # visit (insert c seen) cs)"

lemma visit_set: "set (visit seen cs) = set cs - seen \<and> distinct (visit seen cs)"
  by (induction cs arbitrary: seen) auto

function walk :: "Summary list \<Rightarrow> string list \<Rightarrow> string set \<Rightarrow> string list \<Rightarrow> string list" where
  "walk sums [] seen out = out"
| "walk sums (x # queue) seen out =
     (let new = visit seen (children sums x) in walk sums (queue @ new) (seen \<union> set new) (out @ new))"
  by pat_completeness auto

termination
proof (relation "measure (\<lambda>(sums, queue, seen, _). card (su_id ` set sums - seen) + length queue)", simp)
  fix sums x queue seen out new
  assume new: "new = visit seen (children sums x)"
  then have n: "set new \<subseteq> su_id ` set sums - seen" "distinct new"
    using visit_set [of seen "children sums x"] by (auto simp: children_def)
  have "su_id ` set sums - (seen \<union> set new) = (su_id ` set sums - seen) - set new" by blast
  then have "card (su_id ` set sums - (seen \<union> set new)) + length new = card (su_id ` set sums - seen)"
    using n card_mono [OF _ n(1)] by (simp add: card_Diff_subset distinct_card le_add_diff_inverse2)
  then show "((sums, queue @ new, seen \<union> set new, out @ new), sums, x # queue, seen, out)
      \<in> measure (\<lambda>(sums, queue, seen, _). card (su_id ` set sums - seen) + length queue)" by simp
qed

definition descendants :: "Summary list \<Rightarrow> string \<Rightarrow> string list" where
  "descendants sums i = walk sums [i] {i} []"

section \<open>Archiving\<close>

definition archivedWith :: "string \<Rightarrow> string" where
  "archivedWith i = ''archived with '' @ i @ '': ''"

definition isRunning :: "Mgr \<Rightarrow> string \<Rightarrow> string \<Rightarrow> bool" where
  "isRunning m i state \<longleftrightarrow> mg_running m i \<or> state = ''running''"

definition session_running :: "Mgr \<Rightarrow> Session \<Rightarrow> bool" where
  "session_running m s \<longleftrightarrow> isRunning m (se_id s) (pr_state (projection_of (se_events s)))"

definition archiveOne :: "(string \<Rightarrow> Env) \<Rightarrow> string \<Rightarrow> string \<Rightarrow> Mgr \<Rightarrow> (fault + unit) \<times> Mgr" where
  "archiveOne en i msg m =
     (case Get i (mg_store m) of
        (Inl e, st) \<Rightarrow> (Inl (Plain e), m\<lparr>mg_store := st\<rparr>)
      | (Inr s, st) \<Rightarrow>
          if session_running m s
          then (refuse CodeInvalidTransition ''session is running; interrupt or stop it before archiving'', m\<lparr>mg_store := st\<rparr>)
          else (case store_append (en i) (notice ''info'' msg) s st of
             (Inl e, s', st') \<Rightarrow> (Inl (Plain e), m\<lparr>mg_store := put_open s' st'\<rparr>)
           | (Inr _, s', st') \<Rightarrow>
               (case Archive i (put_open s' st') of
                  (r, st'') \<Rightarrow> (case r of Inl e \<Rightarrow> Inl (Plain e) | Inr _ \<Rightarrow> Inr (),
                    m\<lparr>mg_store := st'', mg_running := (mg_running m)(i := False)\<rparr>))))"

fun archive_all :: "(string \<Rightarrow> Env) \<Rightarrow> string \<Rightarrow> string list \<Rightarrow> Mgr \<Rightarrow> (fault + unit) \<times> Mgr" where
  "archive_all en msg [] m = (Inr (), m)"
| "archive_all en msg (d # ds) m =
     (case archiveOne en d msg m of
        (Inl e, m') \<Rightarrow> (Inl e, m')
      | (Inr _, m') \<Rightarrow> archive_all en msg ds m')"

text \<open>The state a listing gives for an id; an id it has not gives the zero value.\<close>

definition listed_state :: "Summary list \<Rightarrow> string \<Rightarrow> string" where
  "listed_state sums i = (case find_last (\<lambda>s. su_id s = i) sums of None \<Rightarrow> [] | Some s \<Rightarrow> su_state s)"

definition Archive_family :: "(string \<Rightarrow> Env) \<Rightarrow> string \<Rightarrow> string \<Rightarrow> Mgr \<Rightarrow> ((fault + unit) \<times> Mgr) option" where
  "Archive_family en i why m0 =
     (case Get i (mg_store m0) of
        (Inl e, st) \<Rightarrow> Some (Inl (Plain e), m0\<lparr>mg_store := st\<rparr>)
      | (Inr _, st) \<Rightarrow> do {
          (sums, errs, st') \<leftarrow> List_sessions st;
          let m = m0\<lparr>mg_store := st'\<rparr>;
          let family = descendants sums i;
          Some (if errs \<noteq> [] then (Inl (Plain (join [newline] errs)), m)
            else (case List.find (\<lambda>d. isRunning m d (listed_state sums d)) family of
              Some d \<Rightarrow> (refuse CodeInvalidTransition (''session '' @ d @ '', under this one, is running; interrupt or stop it before archiving''), m)
            | None \<Rightarrow>
                (case archive_all en (archivedWith i @ why) family m of
                   (Inl e, m1) \<Rightarrow> (Inl e, m1)
                 | (Inr _, m1) \<Rightarrow> archiveOne en i (''archived: '' @ why) m1)))
        })"

definition restoreOne :: "(string \<Rightarrow> Env) \<Rightarrow> string \<Rightarrow> Mgr \<Rightarrow> (fault + unit) \<times> Mgr" where
  "restoreOne en i m =
     (case Restore i (mg_store m) of
        (Inl e, st) \<Rightarrow> (Inl (Plain e), m\<lparr>mg_store := st\<rparr>)
      | (Inr _, st) \<Rightarrow>
          (case Get i st of
             (Inl e, st1) \<Rightarrow> (Inl (Plain e), m\<lparr>mg_store := st1\<rparr>)
           | (Inr s, st1) \<Rightarrow>
               (case store_append (en i) (notice ''info'' ''restored from the archive'') s st1 of
                  (r, s', st2) \<Rightarrow> (case r of Inl e \<Rightarrow> Inl (Plain e) | Inr _ \<Rightarrow> Inr (), m\<lparr>mg_store := put_open s' st2\<rparr>))))"

definition as_notice :: "event_data \<Rightarrow> NoticeData option" where
  "as_notice d = (case d of DNotice x \<Rightarrow> Some x | _ \<Rightarrow> None)"

text \<open>Whether an archived log says it went with \<open>i\<close>; \<open>None\<close> is the panic of \<open>MustData\<close>.\<close>

definition went_with :: "string \<Rightarrow> Event list \<Rightarrow> bool option" where
  "went_with i events =
     (if events = [] \<or> ev_type (last events) \<noteq> ''notice'' then Some False
      else map_option (\<lambda>d. has_prefix (nt_message d) (archivedWith i)) (MustData as_notice (last events)))"

fun restore_all :: "(string \<Rightarrow> Env) \<Rightarrow> string \<Rightarrow> string list \<Rightarrow> Mgr \<Rightarrow> ((fault + unit) \<times> Mgr) option" where
  "restore_all en i [] m = Some (Inr (), m)"
| "restore_all en i (x # xs) m =
     (case ArchivedEvents x (mg_store m) of
        Inl _ \<Rightarrow> restore_all en i xs m
      | Inr events \<Rightarrow> do {
          w \<leftarrow> went_with i events;
          if \<not> w then restore_all en i xs m
          else (case restoreOne en x m of (Inl e, m') \<Rightarrow> Some (Inl e, m') | (Inr _, m') \<Rightarrow> restore_all en i xs m')
        })"

definition Restore_family :: "(string \<Rightarrow> Env) \<Rightarrow> string \<Rightarrow> Mgr \<Rightarrow> ((fault + unit) \<times> Mgr) option" where
  "Restore_family en i m =
     (case restoreOne en i m of
        (Inl e, m') \<Rightarrow> Some (Inl e, m')
      | (Inr _, m') \<Rightarrow> do {
          (archived, _) \<leftarrow> ListArchived (mg_store m');
          restore_all en i (map su_id archived) m'
        })"

text \<open>Whether a family has sat untouched.\<close>

definition family_idle :: "Summary list \<Rightarrow> int \<Rightarrow> int \<Rightarrow> Summary \<Rightarrow> bool" where
  "family_idle sums now after s \<longleftrightarrow>
     su_state s \<noteq> ''running'' \<and> now - su_updated s \<ge> after \<and>
     list_all (\<lambda>d. case find_last (\<lambda>x. su_id x = d) sums of
        None \<Rightarrow> True | Some x \<Rightarrow> su_state x \<noteq> ''running'' \<and> \<not> now - su_updated x < after) (descendants sums (su_id s))"

fun archive_idle :: "(string \<Rightarrow> Env) \<Rightarrow> int \<Rightarrow> int \<Rightarrow> string \<Rightarrow> Summary list \<Rightarrow> Summary list \<Rightarrow> Mgr \<Rightarrow> (string list \<times> Mgr) option" where
  "archive_idle en now after why sums [] m = Some ([], m)"
| "archive_idle en now after why sums (s # ss) m =
     (if su_parent s \<noteq> [] \<and> su_parent s \<in> su_id ` set sums \<or> \<not> family_idle sums now after s
      then archive_idle en now after why sums ss m
      else do {
        (r, m') \<leftarrow> Archive_family en (su_id s) why m;
        (out, m'') \<leftarrow> archive_idle en now after why sums ss m';
        Some (case r of Inl _ \<Rightarrow> out | Inr _ \<Rightarrow> su_id s # out, m'')
      })"

definition ArchiveIdle :: "(string \<Rightarrow> Env) \<Rightarrow> int \<Rightarrow> int \<Rightarrow> int \<Rightarrow> Mgr \<Rightarrow> (string list \<times> Mgr) option" where
  "ArchiveIdle en now after days m = do {
     (sums, errs, st) \<leftarrow> List_sessions (mg_store m);
     archive_idle en now after (''untouched for '' @ plural days ''day'') sums sums (m\<lparr>mg_store := st\<rparr>)
   }"

section \<open>The family of a session\<close>

definition child_of :: "Summary list \<Rightarrow> (string \<times> string) set" where
  "child_of sums = {(p, c). c \<in> set (children sums p)}"

lemma walk_reach:
  assumes "set queue \<subseteq> seen" "seen = insert i (set out)" "i \<notin> set out" "distinct out"
    "\<forall>x \<in> seen - set queue. set (children sums x) \<subseteq> seen" "seen \<subseteq> (child_of sums)\<^sup>* `` {i}"
  shows "distinct (walk sums queue seen out) \<and> i \<notin> set (walk sums queue seen out) \<and>
    insert i (set (walk sums queue seen out)) = (child_of sums)\<^sup>* `` {i}"
  using assms
proof (induction sums queue seen out rule: walk.induct)
  case (1 sums seen out)
  have "(child_of sums)\<^sup>* `` {i} \<subseteq> seen"
  proof
    fix x assume "x \<in> (child_of sums)\<^sup>* `` {i}"
    then have "(i, x) \<in> (child_of sums)\<^sup>*" by simp
    then show "x \<in> seen" using 1 by (induction rule: rtrancl_induct) (auto simp: child_of_def)
  qed
  with 1 show ?case by auto
next
  case (2 sums x queue seen out)
  let ?new = "visit seen (children sums x)"
  note v = visit_set [of seen "children sums x"]
  have r: "set (children sums x) \<subseteq> (child_of sums)\<^sup>* `` {i}"
  proof
    fix c assume "c \<in> set (children sums x)"
    then have "(x, c) \<in> child_of sums" by (simp add: child_of_def)
    moreover have "(i, x) \<in> (child_of sums)\<^sup>*" using "2.prems"(1,6) by auto
    ultimately show "c \<in> (child_of sums)\<^sup>* `` {i}" by (auto intro: rtrancl_into_rtrancl)
  qed
  have "distinct (walk sums (queue @ ?new) (seen \<union> set ?new) (out @ ?new)) \<and>
    i \<notin> set (walk sums (queue @ ?new) (seen \<union> set ?new) (out @ ?new)) \<and>
    insert i (set (walk sums (queue @ ?new) (seen \<union> set ?new) (out @ ?new))) = (child_of sums)\<^sup>* `` {i}"
  proof (rule "2.IH" [OF refl])
    show "set (queue @ ?new) \<subseteq> seen \<union> set ?new" using "2.prems"(1) by auto
    show "seen \<union> set ?new = insert i (set (out @ ?new))" using "2.prems"(2) by auto
    show "i \<notin> set (out @ ?new)" "distinct (out @ ?new)" using "2.prems"(2-4) v by auto
    show "\<forall>y \<in> seen \<union> set ?new - set (queue @ ?new). set (children sums y) \<subseteq> seen \<union> set ?new"
      using "2.prems"(5) v by auto
    show "seen \<union> set ?new \<subseteq> (child_of sums)\<^sup>* `` {i}" using "2.prems"(6) r v by auto
  qed
  then show ?case by (simp add: Let_def)
qed

lemma descendants_walk:
  "distinct (descendants sums i) \<and> i \<notin> set (descendants sums i) \<and> insert i (set (descendants sums i)) = (child_of sums)\<^sup>* `` {i}"
  unfolding descendants_def by (rule walk_reach) auto

lemma descendants_listed: "distinct (descendants sums i) \<and> i \<notin> set (descendants sums i) \<and> set (descendants sums i) \<subseteq> su_id ` set sums"
proof -
  have "x = i \<or> x \<in> su_id ` set sums" if "(i, x) \<in> (child_of sums)\<^sup>*" for x
    using that by (induction rule: rtrancl_induct) (auto simp: child_of_def children_def)
  then show ?thesis using descendants_walk [of sums i] by blast
qed

text \<open>The family of a session is every listed session under it, its children, theirs and so on, each once,
  whatever parents the listing names, cycles included.\<close>
theorem descendants_closure:
  "distinct (descendants sums i) \<and> set (descendants sums i) = {d. (i, d) \<in> (child_of sums)\<^sup>+ \<and> d \<noteq> i}"
proof -
  have "d \<in> (child_of sums)\<^sup>* `` {i} \<longleftrightarrow> (i, d) \<in> (child_of sums)\<^sup>+ \<or> d = i" for d by (auto simp: rtrancl_eq_or_trancl)
  then show ?thesis using descendants_walk [of sums i] by blast
qed

section \<open>A family that runs\<close>

text \<open>One session archived: it leaves the directory for the archive, and the others stay.\<close>

lemma archiveOne_archives:
  assumes "store_ok (mg_store m)" "session_of (mg_store m) i = Some s" "\<not> session_running m s" "en_write (en i) = Wrote"
    "map_of (so_archive (mg_store m)) i = None"
  shows "\<exists>m'. archiveOne en i msg m = (Inr (), m') \<and> store_ok (mg_store m') \<and>
    map_of (so_dir (mg_store m')) i = None \<and> map_of (so_archive (mg_store m')) i \<noteq> None \<and>
    (\<forall>j. j \<noteq> i \<longrightarrow> session_of (mg_store m') j = session_of (mg_store m) j \<and>
       map_of (so_archive (mg_store m')) j = map_of (so_archive (mg_store m)) j \<and>
       map_of (so_dir (mg_store m')) j = map_of (so_dir (mg_store m)) j \<and> mg_running m' j = mg_running m j)"
proof -
  let ?st = "mg_store m"
  obtain st1 where g: "Get i ?st = (Inr s, st1)" using assms(2) by (cases "Get i ?st") (auto simp: session_of_def split: sum.splits)
  note k = Get_ok [OF assms(1) g]
  have o: "so_open st1 i = Some s" using k by simp
  have p: "payload_ok (notice ''info'' msg)" "validate_payload (notice ''info'' msg) = None" "payload_type (notice ''info'' msg) \<noteq> ''session''"
    by (simp_all add: notice_def validate_notice_def isSource_def)
  obtain e s' st2 where a: "store_append (en i) (notice ''info'' msg) s st1 = (Inr e, s', st2)" "store_ok (put_open s' st2)"
    "so_open (put_open s' st2) i = Some s'" "so_archive st2 = so_archive st1" "so_dir st2 = AList.update i (se_file s') (so_dir st1)"
    "\<forall>j. j \<noteq> i \<longrightarrow> session_of (put_open s' st2) j = session_of st1 j"
    using store_append_open [OF conjunct1 [OF k] o assms(4) p] by blast
  define st3 where "st3 = (put_open s' st2)\<lparr>so_open := (so_open (put_open s' st2))(i := None), so_dir := AList.delete i (so_dir st2),
        so_archive := AList.update i (se_file s') (so_archive st2)\<rparr>"
  have v: "ValidateULID i = None" using session_of_Some [OF assms(1,2)] by simp
  have r: "Archive i (put_open s' st2) = (Inr (map_option Close (so_open (put_open s' st2) i)), st3)"
    using v a(5) by (simp add: Archive_def put_open_def update_conv' st3_def)
  have one: "archiveOne en i msg m = (Inr (), m\<lparr>mg_store := st3, mg_running := (mg_running m)(i := False)\<rparr>)"
    using g a(1) r assms(3) by (simp add: archiveOne_def)
  have others: "session_of st3 j = session_of ?st j" if "j \<noteq> i" for j
  proof -
    have "session_of st3 j = session_of (put_open s' st2) j"
      using that unfolding st3_def by (intro session_of_cong) (simp_all add: put_open_def delete_conv')
    then show ?thesis using a(6) k that by simp
  qed
  show ?thesis
    using one Archive_ok [OF a(2), of i] r others k a(4,5)
    by (intro exI [of _ "m\<lparr>mg_store := st3, mg_running := (mg_running m)(i := False)\<rparr>"])
       (simp add: st3_def put_open_def delete_conv' update_conv')
qed

lemma archive_all_archives:
  assumes "store_ok (mg_store m)" "distinct ds" "\<forall>d \<in> set ds. \<exists>s. session_of (mg_store m) d = Some s \<and> \<not> session_running m s"
    "\<forall>d. en_write (en d) = Wrote" "\<forall>d \<in> set ds. map_of (so_archive (mg_store m)) d = None"
  shows "\<exists>m'. archive_all en msg ds m = (Inr (), m') \<and> store_ok (mg_store m') \<and>
    (\<forall>d \<in> set ds. map_of (so_dir (mg_store m')) d = None \<and> map_of (so_archive (mg_store m')) d \<noteq> None) \<and>
    (\<forall>j. j \<notin> set ds \<longrightarrow> session_of (mg_store m') j = session_of (mg_store m) j \<and>
       map_of (so_archive (mg_store m')) j = map_of (so_archive (mg_store m)) j \<and>
       map_of (so_dir (mg_store m')) j = map_of (so_dir (mg_store m)) j \<and> mg_running m' j = mg_running m j)"
  using assms(1-3,5)
proof (induction ds arbitrary: m)
  case (Cons d ds)
  obtain s where s: "session_of (mg_store m) d = Some s" "\<not> session_running m s" using Cons.prems(3) by auto
  have w: "en_write (en d) = Wrote" "map_of (so_archive (mg_store m)) d = None" using assms(4) Cons.prems(4) by simp_all
  obtain m1 where m1: "archiveOne en d msg m = (Inr (), m1)" "store_ok (mg_store m1)"
    "map_of (so_dir (mg_store m1)) d = None" "map_of (so_archive (mg_store m1)) d \<noteq> None"
    "\<forall>j. j \<noteq> d \<longrightarrow> session_of (mg_store m1) j = session_of (mg_store m) j \<and>
       map_of (so_archive (mg_store m1)) j = map_of (so_archive (mg_store m)) j \<and>
       map_of (so_dir (mg_store m1)) j = map_of (so_dir (mg_store m)) j \<and> mg_running m1 j = mg_running m j"
    using archiveOne_archives [OF Cons.prems(1) s, of en msg] w by blast
  have "\<exists>s. session_of (mg_store m1) x = Some s \<and> \<not> session_running m1 s" if x: "x \<in> set ds" for x
  proof -
    have ne: "x \<noteq> d" using Cons.prems(2) x by auto
    obtain s' where s': "session_of (mg_store m) x = Some s'" "\<not> session_running m s'" using Cons.prems(3) x by auto
    then have "se_id s' = x" using session_of_Some [OF Cons.prems(1)] by blast
    then show ?thesis using s' m1(5) ne by (auto simp: session_running_def isRunning_def)
  qed
  moreover have "\<forall>x \<in> set ds. map_of (so_archive (mg_store m1)) x = None" using Cons.prems(2,4) m1(5) by auto
  ultimately obtain m' where m': "archive_all en msg ds m1 = (Inr (), m')" "store_ok (mg_store m')"
    "\<forall>x \<in> set ds. map_of (so_dir (mg_store m')) x = None \<and> map_of (so_archive (mg_store m')) x \<noteq> None"
    "\<forall>j. j \<notin> set ds \<longrightarrow> session_of (mg_store m') j = session_of (mg_store m1) j \<and>
       map_of (so_archive (mg_store m')) j = map_of (so_archive (mg_store m1)) j \<and>
       map_of (so_dir (mg_store m')) j = map_of (so_dir (mg_store m1)) j \<and> mg_running m' j = mg_running m1 j"
    using Cons.IH [OF m1(2)] Cons.prems(2) by auto
  have "d \<notin> set ds" using Cons.prems(2) by simp
  then have "map_of (so_dir (mg_store m')) d = None" "map_of (so_archive (mg_store m')) d \<noteq> None" using m'(4) m1(3,4) by simp_all
  then show ?case using m1(1,5) m' by (intro exI [of _ m']) simp
qed simp

text \<open>What a listing says of the state of a session it holds.\<close>

lemma listed_state_of:
  assumes "store_ok st" "\<forall>sm \<in> set sums. \<exists>s. session_of st (su_id sm) = Some s \<and> session_summary s = Some sm"
    "d \<in> su_id ` set sums" "session_of st d = Some s"
  shows "listed_state sums d = pr_state (projection_of (se_events s))"
proof -
  obtain sm where f: "find_last (\<lambda>x. su_id x = d) sums = Some sm"
  proof (cases "find_last (\<lambda>x. su_id x = d) sums")
    case None
    then have "\<forall>x \<in> set sums. su_id x \<noteq> d" by (simp add: find_last_def find_None_iff)
    then show ?thesis using assms(3) by auto
  qed
  then have sm: "sm \<in> set sums" "su_id sm = d" by (auto simp: find_last_def find_Some_iff) (metis length_rev nth_mem set_rev)
  then have "session_summary s = Some sm" using bspec [OF assms(2) sm(1)] assms(4) by auto
  moreover have "ValidateLog (se_events s) = None" using session_of_Some [OF assms(1,4)] by simp
  ultimately show ?thesis using summary_valid [of s] f by (auto simp: listed_state_def)
qed

text \<open>Archiving a session that runs archives its family all the same. The members under it are checked before
  anything moves, the session itself is not: when they all rest, they go to the archive, and only then is
  the call refused because the session runs, which stays behind without them.\<close>
theorem Archive_family_partial:
  assumes "store_ok (mg_store m)" "session_of (mg_store m) i = Some s" "session_running m s"
    "\<forall>j \<in> fst ` set (so_dir (mg_store m)). session_of (mg_store m) j \<noteq> None"
    "\<forall>j t. j \<noteq> i \<longrightarrow> session_of (mg_store m) j = Some t \<longrightarrow> \<not> session_running m t"
    "so_archive (mg_store m) = []" "\<forall>d. en_write (en d) = Wrote"
  shows "\<exists>sums st m'. List_sessions (snd (Get i (mg_store m))) = Some (sums, [], st) \<and>
    Archive_family en i why m = Some (refuse CodeInvalidTransition ''session is running; interrupt or stop it before archiving'', m') \<and>
    (\<forall>d \<in> set (descendants sums i). map_of (so_dir (mg_store m')) d = None \<and> map_of (so_archive (mg_store m')) d \<noteq> None) \<and>
    session_of (mg_store m') i = Some s"
proof -
  let ?st = "mg_store m"
  obtain st1 where g: "Get i ?st = (Inr s, st1)" using assms(2) by (cases "Get i ?st") (auto simp: session_of_def split: sum.splits)
  note k = Get_ok [OF assms(1) g]
  obtain sums errs st2 where l: "List_sessions st1 = Some (sums, errs, st2)" "store_ok st2" "so_archive st2 = so_archive st1"
    "\<forall>j. session_of st2 j = session_of st1 j" "su_id ` set sums = {j \<in> fst ` set (so_dir st1). session_of st1 j \<noteq> None}"
    "length sums + length errs = length (so_dir st1)" "distinct (map su_id sums)"
    "\<forall>sm \<in> set sums. \<exists>s. session_of st1 (su_id sm) = Some s \<and> session_summary s = Some sm"
    using List_sessions_total [OF conjunct1 [OF k]] by blast
  have k': "store_ok st1" "so_dir st1 = so_dir ?st" "so_archive st1 = []" "\<forall>j. session_of st1 j = session_of ?st j"
    using k assms(6) by simp_all
  have ids: "su_id ` set sums = fst ` set (so_dir st1)" using l(5) assms(4) k' by auto
  have "length sums = card (su_id ` set sums)" using l(7) by (metis distinct_card length_map set_map)
  also have "\<dots> = length (so_dir st1)" unfolding ids using k'(1) by (metis distinct_card length_map set_map store_ok_def)
  finally have errs: "errs = []" using l(6) by simp
  let ?ds = "descendants sums i" and ?m = "m\<lparr>mg_store := st2\<rparr>"
  have ds: "distinct ?ds" "i \<notin> set ?ds" "set ?ds \<subseteq> su_id ` set sums" using descendants_listed by blast+
  have member: "\<exists>t. session_of st2 d = Some t \<and> \<not> session_running ?m t \<and> \<not> isRunning ?m d (listed_state sums d)" if "d \<in> set ?ds" for d
  proof -
    have d: "d \<in> su_id ` set sums" "d \<noteq> i" using that ds by auto
    then obtain t where t: "session_of st1 d = Some t" using l(5) by auto
    have r: "\<not> session_running m t" using assms(5) d(2) t k'(4) by metis
    have "se_id t = d" using session_of_Some [OF k'(1) t] by simp
    then show ?thesis using r t l(4) listed_state_of [OF k'(1) l(8) d(1) t] by (simp add: session_running_def isRunning_def)
  qed
  have none: "List.find (\<lambda>d. isRunning ?m d (listed_state sums d)) ?ds = None" using member by (simp add: find_None_iff) blast
  obtain m1 where m1: "archive_all en (archivedWith i @ why) ?ds ?m = (Inr (), m1)" "store_ok (mg_store m1)"
    "\<forall>d \<in> set ?ds. map_of (so_dir (mg_store m1)) d = None \<and> map_of (so_archive (mg_store m1)) d \<noteq> None"
    "\<forall>j. j \<notin> set ?ds \<longrightarrow> session_of (mg_store m1) j = session_of st2 j \<and> mg_running m1 j = mg_running m j"
    using archive_all_archives [of ?m ?ds en "archivedWith i @ why"] l(2,3) ds(1) member assms(7) k'(3) by fastforce
  have si: "session_of (mg_store m1) i = Some s" using m1(4) ds(2) l(4) k'(4) assms(2) by simp
  then obtain st3 where g3: "Get i (mg_store m1) = (Inr s, st3)" by (cases "Get i (mg_store m1)") (auto simp: session_of_def split: sum.splits)
  note k3 = Get_ok [OF m1(2) g3]
  have "se_id s = i" using session_of_Some [OF assms(1,2)] by simp
  then have "session_running m1 s" using assms(3) m1(4) ds(2) by (simp add: session_running_def isRunning_def)
  then have "Archive_family en i why m =
      Some (refuse CodeInvalidTransition ''session is running; interrupt or stop it before archiving'', m1\<lparr>mg_store := st3\<rparr>)"
    using g l(1) errs none m1(1) g3 by (simp add: Archive_family_def Let_def archiveOne_def)
  moreover have "\<forall>d \<in> set ?ds. map_of (so_dir st3) d = None \<and> map_of (so_archive st3) d \<noteq> None" "session_of st3 i = Some s"
    using m1(3) k3 si by simp_all
  ultimately show ?thesis using l(1) errs g by auto
qed

section \<open>A sample family\<close>

text \<open>The session of \<open>sample_store\<close> with a child that rests.\<close>

definition sample_child :: Event where
  "sample_child = (sample_event 0 (DSession \<lparr>sd_workspace = ''w'', sd_key = ''k'',
     sd_options = options_zero\<lparr>op_model := ''m'', op_mode := ''auto'', op_parent := sample_id 0\<rparr>, sd_window = 0\<rparr>))\<lparr>ev_id := sample_id 5\<rparr>"

definition sample_family :: Mgr where
  "sample_family = \<lparr>mg_store = Open [(sample_id 0, sample_file), (sample_id 5, \<lparr>lf_lines = [Some sample_child], lf_torn = None\<rparr>)] [],
     mg_running = (\<lambda>_. False)\<rparr>"

lemma sample_child_facts:
  "payload_ok (DSession \<lparr>sd_workspace = ''w'', sd_key = ''k'', sd_options = options_zero\<lparr>op_model := ''m'', op_mode := ''auto'', op_parent := sample_id 0\<rparr>, sd_window = 0\<rparr>)"
  "validate_payload (DSession \<lparr>sd_workspace = ''w'', sd_key = ''k'', sd_options = options_zero\<lparr>op_model := ''m'', op_mode := ''auto'', op_parent := sample_id 0\<rparr>, sd_window = 0\<rparr>) = None"
  by (simp_all add: session_ok_def int64_ok_def int64_min_def int64_max_def validate_session_def validateOptions_def ValidLabels_def
      ValidDescription_def ValidContext_def ValidEffort_def options_zero_def MaxLabels_def MaxDescription_def sample_id_valid)

lemma sample_child_valid: "ValidateLog [sample_child] = None"
proof -
  note f = sample_child_facts
  have "ValidateEvent sample_child = None"
    using enc_payload_text [OF f(1)] DecodeData_payload [OF f(1), of sample_child] f(2)
    by (simp add: ValidateEvent_None sample_child_def)
  then show ?thesis by (simp add: ValidateLog_entries entry_ok_def sample_child_def sample_id_valid)
qed

lemma sample_child_fits: "line_fits sample_child"
  by code_simp

lemma sample_child_projection:
  "pr_state (projection_of [sample_child]) \<noteq> ''running'' \<and> op_parent (pr_options (projection_of [sample_child])) = sample_id 0"
  using projection_of_snoc [OF DecodeData_payload [OF sample_child_facts(1), of sample_child], of "[]"]
  by (simp add: sample_child_def projection_of_def)

lemma summary_parent:
  "ValidateLog (se_events s) = None \<Longrightarrow> session_summary s = Some sm \<Longrightarrow> su_parent sm = op_parent (pr_options (projection_of (se_events s)))"
  using Project_valid [of "se_events s"] by (auto simp: session_summary_def Let_def split: option.splits bind_splits if_splits)

lemma Archive_family_partial_witness:
  "\<exists>m'. Archive_family (\<lambda>_. sample_env Wrote) (sample_id 0) ''old'' sample_family =
       Some (refuse CodeInvalidTransition ''session is running; interrupt or stop it before archiving'', m') \<and>
     map_of (so_dir (mg_store m')) (sample_id 5) = None \<and> session_of (mg_store m') (sample_id 0) \<noteq> None"
proof -
  let ?st = "mg_store sample_family"
  have ok: "store_ok ?st" by (simp add: store_ok_def sample_family_def Open_def)
  obtain s where s: "load (sample_id 0) sample_file = Inr s" "se_events s = sample_log [sample_session, sample_running]"
    using sample_store_session by blast
  have p: "session_of ?st (sample_id 0) = Some (s\<lparr>se_observe := False\<rparr>)"
    using s(1) by (simp add: session_of_eq sample_family_def Open_def sample_id_valid)
  obtain c where c: "session_of ?st (sample_id 5) = Some c" "se_events c = [sample_child]"
    using sample_child_valid sample_child_fits load_lines_Some [of "[sample_child]" "sample_id 5" 1]
    by (simp add: session_of_eq sample_family_def Open_def sample_id_valid load_def file_lines_def)
  have dom: "j \<in> fst ` set (so_dir ?st) \<longleftrightarrow> j = sample_id 0 \<or> j = sample_id 5" for j by (auto simp: sample_family_def Open_def)
  have run: "session_running sample_family (s\<lparr>se_observe := False\<rparr>)" using sample_running_state s(2)
    by (simp add: session_running_def isRunning_def)
  have rest: "\<not> session_running sample_family c" using sample_child_projection c(2)
    by (simp add: session_running_def isRunning_def sample_family_def)
  have others: "\<forall>j t. j \<noteq> sample_id 0 \<longrightarrow> session_of ?st j = Some t \<longrightarrow> \<not> session_running sample_family t"
  proof (intro allI impI)
    fix j t assume j: "j \<noteq> sample_id 0" "session_of ?st j = Some t"
    then have "j = sample_id 5" using session_of_Some [OF ok j(2)] dom by blast
    then show "\<not> session_running sample_family t" using rest c(1) j(2) by simp
  qed
  have known: "\<forall>j \<in> fst ` set (so_dir ?st). session_of ?st j \<noteq> None"
  proof
    fix j assume "j \<in> fst ` set (so_dir ?st)"
    then have "j = sample_id 0 \<or> j = sample_id 5" using dom by blast
    then show "session_of ?st j \<noteq> None" using p c(1) by fastforce
  qed
  have arch: "so_archive ?st = []" by (simp add: sample_family_def Open_def)
  obtain sums st m' where r: "List_sessions (snd (Get (sample_id 0) ?st)) = Some (sums, [], st)"
    "Archive_family (\<lambda>_. sample_env Wrote) (sample_id 0) ''old'' sample_family =
       Some (refuse CodeInvalidTransition ''session is running; interrupt or stop it before archiving'', m')"
    "\<forall>d \<in> set (descendants sums (sample_id 0)). map_of (so_dir (mg_store m')) d = None \<and> map_of (so_archive (mg_store m')) d \<noteq> None"
    "session_of (mg_store m') (sample_id 0) = Some (s\<lparr>se_observe := False\<rparr>)"
    using Archive_family_partial [OF ok p run known others arch, of "\<lambda>_. sample_env Wrote" "''old''"] by auto
  obtain st1 where g: "Get (sample_id 0) ?st = (Inr (s\<lparr>se_observe := False\<rparr>), st1)" using p
    by (cases "Get (sample_id 0) ?st") (auto simp: session_of_def split: sum.splits)
  note k = Get_ok [OF ok g]
  have l: "su_id ` set sums = {j \<in> fst ` set (so_dir st1). session_of st1 j \<noteq> None}"
    "\<forall>sm \<in> set sums. \<exists>s. session_of st1 (su_id sm) = Some s \<and> session_summary s = Some sm"
    using List_sessions_total [OF conjunct1 [OF k]] r(1) g by auto
  have "sample_id 5 \<in> su_id ` set sums" using l(1) k c(1) dom by simp
  then obtain sm where sm: "sm \<in> set sums" "su_id sm = sample_id 5" by (metis imageE)
  then have sc: "session_summary c = Some sm" using bspec [OF l(2) sm(1)] k c(1) by auto
  have "ValidateLog (se_events c) = None" using c(2) sample_child_valid by simp
  from summary_parent [OF this sc] have "su_parent sm = sample_id 0" using sample_child_projection c(2) by simp
  moreover have "sample_id 0 \<noteq> []" using sample_id_valid [of 0] by (auto simp: ValidateULID_def)
  ultimately have "sample_id 5 \<in> set (children sums (sample_id 0))" using sm by (force simp: children_def)
  then have "sample_id 5 \<in> (child_of sums)\<^sup>* `` {sample_id 0}" by (auto simp: child_of_def)
  then have "sample_id 5 \<in> insert (sample_id 0) (set (descendants sums (sample_id 0)))" using descendants_walk [of sums "sample_id 0"] by metis
  then have "sample_id 5 \<in> set (descendants sums (sample_id 0))" by simp
  then show ?thesis using r(2-4) by auto
qed

end
