(* ===== verification/Float64.thy ===== *)
theory Float64
  imports Main
begin

text \<open>
  Go's \<open>float64\<close> as far as the program uses it: the quotient of two integers, a product, the comparison and the
  format \<open>%.0f\<close>. A float is a mantissa and an exponent, \<open>m * 2 ^ e\<close>; a result is rounded to 53 bits, ties to
  even. NaN, the infinities and subnormal numbers are not modelled: the quotients and products are of 64-bit
  integers and small constants. The lemmas show that the order is one and that rounding keeps it.
\<close>

type_synonym float64 = "int \<times> int"

fun bit_length :: "nat \<Rightarrow> nat" where
  "bit_length n = (if n = 0 then 0 else Suc (bit_length (n div 2)))"

declare bit_length.simps [simp del]

text \<open>The nearest integer of \<open>a / b\<close>, ties to even.\<close>

definition rdiv :: "int \<Rightarrow> int \<Rightarrow> int" where
  "rdiv a b =
     (let q = a div b; r = a mod b in
      if 2 * r < b then q else if 2 * r > b then q + 1 else if even q then q else q + 1)"

text \<open>The exponent of the last of 53 bits of \<open>a / b\<close>; \<open>b\<close> is at most \<open>a * 2 ^ 64\<close>.\<close>

definition last_place :: "int \<Rightarrow> int \<Rightarrow> int" where
  "last_place a b = int (bit_length (nat (a * 2 ^ 64 div b))) - 117"

definition round_pos :: "int \<Rightarrow> int \<Rightarrow> float64" where
  "round_pos a b =
     (let k = last_place a b in (if 0 \<le> k then rdiv a (b * 2 ^ nat k) else rdiv (a * 2 ^ nat (- k)) b, k))"

definition round_ratio :: "int \<Rightarrow> int \<Rightarrow> float64" where
  "round_ratio a b =
     (if a = 0 then (0, 0) else if a < 0 then (case round_pos (- a) b of (m, k) \<Rightarrow> (- m, k)) else round_pos a b)"

definition float_le :: "float64 \<Rightarrow> float64 \<Rightarrow> bool" where
  "float_le x y =
     (case (x, y) of ((m1, e1), (m2, e2)) \<Rightarrow>
        if e1 \<le> e2 then m1 \<le> m2 * 2 ^ nat (e2 - e1) else m1 * 2 ^ nat (e1 - e2) \<le> m2)"

text \<open>\<open>float64(i)\<close>, exact up to 53 bits.\<close>

definition float_int :: "int \<Rightarrow> float64" where
  "float_int i = (if \<bar>i\<bar> \<le> 2 ^ 53 then (i, 0) else round_ratio i 1)"

definition float_div :: "float64 \<Rightarrow> float64 \<Rightarrow> float64" where
  "float_div x y = (case (x, y) of ((m1, e1), (m2, e2)) \<Rightarrow> (case round_ratio m1 m2 of (m, k) \<Rightarrow> (m, k + e1 - e2)))"

definition float_mult :: "float64 \<Rightarrow> float64 \<Rightarrow> float64" where
  "float_mult x y = (case (x, y) of ((m1, e1), (m2, e2)) \<Rightarrow> (case round_ratio (m1 * m2) 1 of (m, k) \<Rightarrow> (m, k + e1 + e2)))"

text \<open>\<open>float64(a) / float64(b)\<close>.\<close>

definition float_ratio :: "int \<Rightarrow> int \<Rightarrow> float64" where
  "float_ratio a b = float_div (float_int a) (float_int b)"

text \<open>What \<open>%.0f\<close> prints.\<close>

definition float_round :: "float64 \<Rightarrow> int" where
  "float_round x = (case x of (m, e) \<Rightarrow> if 0 \<le> e then m * 2 ^ nat e else rdiv m (2 ^ nat (- e)))"

section \<open>The order\<close>

text \<open>A float scaled to an exponent no greater than its own.\<close>

definition scaled :: "float64 \<Rightarrow> int \<Rightarrow> int" where
  "scaled x e0 = (case x of (m, e) \<Rightarrow> m * 2 ^ nat (e - e0))"

lemma float_le_scaled:
  assumes "e0 \<le> snd x" "e0 \<le> snd y"
  shows "float_le x y \<longleftrightarrow> scaled x e0 \<le> scaled y e0"
proof -
  obtain m1 e1 m2 e2 where xy: "x = (m1, e1)" "y = (m2, e2)" by fastforce
  show ?thesis
  proof (cases "e1 \<le> e2")
    case True
    then have e: "nat (e2 - e0) = nat (e2 - e1) + nat (e1 - e0)" using assms xy by simp
    have "scaled y e0 = m2 * 2 ^ nat (e2 - e1) * 2 ^ nat (e1 - e0)" by (simp only: scaled_def xy e prod.case power_add mult.assoc)
    moreover have "scaled x e0 = m1 * 2 ^ nat (e1 - e0)" using xy by (simp add: scaled_def)
    moreover have "float_le x y \<longleftrightarrow> m1 \<le> m2 * 2 ^ nat (e2 - e1)" using True xy by (simp add: float_le_def)
    ultimately show ?thesis by (simp only: mult_le_cancel_right_pos zero_less_power zero_less_numeral)
  next
    case False
    then have e: "nat (e1 - e0) = nat (e1 - e2) + nat (e2 - e0)" using assms xy by simp
    have "scaled x e0 = m1 * 2 ^ nat (e1 - e2) * 2 ^ nat (e2 - e0)" by (simp only: scaled_def xy e prod.case power_add mult.assoc)
    moreover have "scaled y e0 = m2 * 2 ^ nat (e2 - e0)" using xy by (simp add: scaled_def)
    moreover have "float_le x y \<longleftrightarrow> m1 * 2 ^ nat (e1 - e2) \<le> m2" using False xy by (simp add: float_le_def)
    ultimately show ?thesis by (simp only: mult_le_cancel_right_pos zero_less_power zero_less_numeral)
  qed
qed

lemma float_le_trans:
  assumes "float_le x y" "float_le y z"
  shows "float_le x z"
proof -
  let ?e = "min (snd x) (min (snd y) (snd z))"
  have e: "?e \<le> snd x" "?e \<le> snd y" "?e \<le> snd z" by simp_all
  have "scaled x ?e \<le> scaled y ?e" "scaled y ?e \<le> scaled z ?e"
    using assms float_le_scaled [OF e(1,2)] float_le_scaled [OF e(2,3)] by simp_all
  then show ?thesis unfolding float_le_scaled [OF e(1,3)] by (rule order_trans)
qed

lemma float_le_total: "float_le x y \<or> float_le y x"
  using float_le_scaled [of "min (snd x) (snd y)" x y] float_le_scaled [of "min (snd x) (snd y)" y x] by auto

section \<open>Rounding keeps the order\<close>

lemma bit_length_bounds: "n > 0 \<Longrightarrow> 2 ^ (bit_length n - 1) \<le> n \<and> n < 2 ^ bit_length n \<and> bit_length n > 0"
proof (induction n rule: bit_length.induct)
  case (1 n)
  show ?case
  proof (cases "n div 2 = 0")
    case True
    with "1.prems" have "n = 1" by simp
    then show ?thesis by (simp add: bit_length.simps)
  next
    case False
    with 1 have IH: "2 ^ (bit_length (n div 2) - 1) \<le> n div 2" "n div 2 < 2 ^ bit_length (n div 2)" "bit_length (n div 2) > 0"
      by simp_all
    have b: "bit_length n = Suc (bit_length (n div 2))" using "1.prems" by (subst bit_length.simps) simp
    obtain j where j: "bit_length (n div 2) = Suc j" using IH(3) by (cases "bit_length (n div 2)") simp_all
    have "2 * (n div 2) \<le> n" "n < 2 * (n div 2) + 2" by simp_all
    then have "2 * 2 ^ j \<le> n" "n < 2 * 2 ^ Suc j" using IH(1,2) unfolding j by simp_all
    then show ?thesis unfolding b j by simp
  qed
qed

lemma bit_length_mono: "m \<le> n \<Longrightarrow> bit_length m \<le> bit_length n"
proof (induction m arbitrary: n rule: bit_length.induct)
  case (1 m)
  then show ?case
  proof (cases "m = 0")
    case False
    then have "bit_length (m div 2) \<le> bit_length (n div 2)" using 1 by (simp add: div_le_mono)
    then show ?thesis using False 1(2) by (subst (1 2) bit_length.simps) simp
  qed (simp add: bit_length.simps)
qed

lemma rdiv_mono:
  assumes "0 < b" "a \<le> a'"
  shows "rdiv a b \<le> rdiv a' b"
proof (cases "a div b = a' div b")
  case True
  then have "a mod b \<le> a' mod b" using assms by (metis add_le_cancel_left mult_div_mod_eq)
  with True show ?thesis by (auto simp: rdiv_def Let_def)
next
  case False
  then have "a div b + 1 \<le> a' div b" using assms zdiv_mono1 by fastforce
  then show ?thesis by (auto simp: rdiv_def Let_def)
qed

lemma rdiv_exact: "0 < b \<Longrightarrow> rdiv (m * b) b = m"
  by (simp add: rdiv_def)


lemma rdiv_bounds:
  assumes "0 < b" "l * b \<le> a" "a \<le> h * b"
  shows "l \<le> rdiv a b" "rdiv a b \<le> h"
  using rdiv_mono [OF assms(1,2)] rdiv_mono [OF assms(1,3)] assms(1) by (simp_all add: rdiv_exact)

text \<open>The mantissa has 53 bits, or is the power of two above.\<close>

lemma between_div:
  fixes a b :: int
  assumes "0 < b" "l \<le> a div b" "a div b < h"
  shows "l * b \<le> a" "a < h * b"
proof -
  have a: "a = (a div b) * b + a mod b" "0 \<le> a mod b" "a mod b < b" using assms(1) by simp_all
  have "l * b \<le> (a div b) * b" "(a div b + 1) * b \<le> h * b" using assms by (auto intro!: mult_right_mono)
  with a show "l * b \<le> a" "a < h * b" by (simp_all only: distrib_right mult_1)
qed

lemma last_place_bounds:
  assumes "0 < a" "0 < b" "b \<le> a * 2 ^ 64"
  shows "2 ^ nat (last_place a b + 116) * b \<le> a * 2 ^ 64" "a * 2 ^ 64 < 2 ^ nat (last_place a b + 117) * b" "-116 \<le> last_place a b"
proof -
  let ?q = "a * 2 ^ 64 div b" let ?n = "bit_length (nat ?q)"
  have q: "1 \<le> ?q" using assms zdiv_mono1 [of b "a * 2 ^ 64" b] by simp
  then have n: "2 ^ (?n - 1) \<le> nat ?q" "nat ?q < 2 ^ ?n" "?n > 0" using bit_length_bounds [of "nat ?q"] by simp_all
  have e: "nat (last_place a b + 116) = ?n - 1" "nat (last_place a b + 117) = ?n" using n(3) by (simp_all add: last_place_def)
  show "-116 \<le> last_place a b" using n(3) by (simp add: last_place_def)
  have "2 ^ (?n - 1) \<le> ?q" "?q < 2 ^ ?n" using n(1,2) q by (simp_all add: nat_less_iff le_nat_iff)
  from between_div [OF assms(2) this]
  show "2 ^ nat (last_place a b + 116) * b \<le> a * 2 ^ 64" "a * 2 ^ 64 < 2 ^ nat (last_place a b + 117) * b"
    unfolding e by simp_all
qed

lemma round_pos_bounds:
  assumes "0 < a" "0 < b" "b \<le> a * 2 ^ 64"
  shows "2 ^ 52 \<le> fst (round_pos a b) \<and> fst (round_pos a b) \<le> 2 ^ 53"
proof -
  let ?k = "last_place a b"
  note l = last_place_bounds [OF assms]
  show ?thesis
  proof (cases "0 \<le> ?k")
    case True
    have e: "nat (?k + 116) = nat ?k + 52 + 64" "nat (?k + 117) = nat ?k + 53 + 64" using True by simp_all
    have "2 ^ 52 * (b * 2 ^ nat ?k) * 2 ^ 64 \<le> a * 2 ^ 64" "a * 2 ^ 64 \<le> 2 ^ 53 * (b * 2 ^ nat ?k) * 2 ^ 64"
      using l(1,2) unfolding e power_add by (simp_all add: algebra_simps)
    then have "2 ^ 52 * (b * 2 ^ nat ?k) \<le> a" "a \<le> 2 ^ 53 * (b * 2 ^ nat ?k)" by simp_all
    with rdiv_bounds [of "b * 2 ^ nat ?k" "2 ^ 52" a "2 ^ 53"] assms(2) True show ?thesis by (simp add: round_pos_def Let_def)
  next
    case False
    define i where "i = nat (- ?k)"
    have k: "?k = - int i" "i \<le> 116" "0 < i" using False l(3) by (simp_all add: i_def)
    have e: "(2::int) ^ nat (?k + 116) * 2 ^ i = 2 ^ 52 * 2 ^ 64" "(2::int) ^ nat (?k + 117) * 2 ^ i = 2 ^ 53 * 2 ^ 64"
    proof -
      have "nat (?k + 116) + i = 52 + 64" "nat (?k + 117) + i = 53 + 64" using k by simp_all
      then show "(2::int) ^ nat (?k + 116) * 2 ^ i = 2 ^ 52 * 2 ^ 64" "(2::int) ^ nat (?k + 117) * 2 ^ i = 2 ^ 53 * 2 ^ 64"
        by (simp_all only: power_add [symmetric])
    qed
    have "2 ^ nat (?k + 116) * 2 ^ i * b \<le> a * 2 ^ i * 2 ^ 64" "a * 2 ^ i * 2 ^ 64 \<le> 2 ^ nat (?k + 117) * 2 ^ i * b"
      using mult_right_mono [OF l(1), of "2 ^ i"] mult_right_mono [OF less_imp_le [OF l(2)], of "2 ^ i"] by (simp_all add: algebra_simps)
    then have "2 ^ 52 * b \<le> a * 2 ^ i" "a * 2 ^ i \<le> 2 ^ 53 * b" unfolding e by (simp_all add: algebra_simps)
    with rdiv_bounds [of b "2 ^ 52" "a * 2 ^ i" "2 ^ 53"] assms(2) False show ?thesis by (simp add: round_pos_def Let_def i_def)
  qed
qed

lemma last_place_mono: "0 < b \<Longrightarrow> a \<le> a' \<Longrightarrow> last_place a b \<le> last_place a' b"
  by (simp add: last_place_def bit_length_mono nat_mono zdiv_mono1)

lemma round_pos_mono:
  assumes "0 < a" "0 < b" "b \<le> a * 2 ^ 64" "a \<le> a'"
  shows "float_le (round_pos a b) (round_pos a' b)"
proof -
  let ?k = "last_place a b" let ?k' = "last_place a' b"
  have s: "snd (round_pos a b) = ?k" "snd (round_pos a' b) = ?k'" by (simp_all add: round_pos_def Let_def)
  have a': "0 < a'" "b \<le> a' * 2 ^ 64" using assms by simp_all
  have kk: "?k \<le> ?k'" using last_place_mono assms by blast
  then have e: "?k \<le> snd (round_pos a b)" "?k \<le> snd (round_pos a' b)" by (simp_all add: s)
  show ?thesis
  proof (cases "?k = ?k'")
    case True
    have "fst (round_pos a b) \<le> fst (round_pos a' b)"
      using assms True by (auto simp: round_pos_def Let_def intro!: rdiv_mono)
    then show ?thesis unfolding float_le_scaled [OF e] using True s by (cases "round_pos a b"; cases "round_pos a' b") (simp add: scaled_def)
  next
    case False
    then have "1 \<le> nat (?k' - ?k)" using kk by simp
    then have p: "(2::int) ^ 1 \<le> 2 ^ nat (?k' - ?k)" by (intro power_increasing) simp_all
    have "fst (round_pos a b) \<le> 2 ^ 53" "2 ^ 52 \<le> fst (round_pos a' b)"
      using round_pos_bounds [OF assms(1-3)] round_pos_bounds [OF a'(1) assms(2) a'(2)] by simp_all
    moreover from this(2) have "2 ^ 52 * 2 ^ 1 \<le> fst (round_pos a' b) * 2 ^ nat (?k' - ?k)"
      using p by (intro mult_mono) simp_all
    ultimately have "fst (round_pos a b) \<le> fst (round_pos a' b) * 2 ^ nat (?k' - ?k)" by simp
    then show ?thesis unfolding float_le_scaled [OF e] using s by (cases "round_pos a b"; cases "round_pos a' b") (simp add: scaled_def)
  qed
qed


lemma float_ratio_exact: "0 \<le> a \<Longrightarrow> a \<le> 2 ^ 53 \<Longrightarrow> 0 < b \<Longrightarrow> b \<le> 2 ^ 53 \<Longrightarrow> float_ratio a b = round_ratio a b"
  by (simp add: float_ratio_def float_div_def float_int_def)

lemma float_ratio_mono:
  assumes "0 \<le> a" "a \<le> a'" "a' \<le> 2 ^ 53" "0 < b" "b \<le> 2 ^ 53"
  shows "float_le (float_ratio a b) (float_ratio a' b)"
proof -
  have r: "float_ratio a b = round_ratio a b" "float_ratio a' b = round_ratio a' b"
    using assms by (simp_all add: float_ratio_exact)
  show ?thesis
  proof (cases "a = 0")
    case True
    have "0 \<le> fst (round_ratio a' b)"
    proof (cases "a' = 0")
      case False
      then have "0 < a'" "b \<le> a' * 2 ^ 64" using assms by simp_all
      then show ?thesis using round_pos_bounds [of a' b] assms(4) by (simp add: round_ratio_def)
    qed (simp add: round_ratio_def)
    moreover have "float_ratio a b = (0, 0)" using r(1) True by (simp add: round_ratio_def)
    ultimately show ?thesis unfolding r(2) by (cases "round_ratio a' b") (simp add: float_le_def)
  next
    case False
    then have p: "0 < a" "b \<le> a * 2 ^ 64" "0 < a'" using assms by simp_all
    show ?thesis using round_pos_mono [OF p(1) assms(4) p(2) assms(2)] p unfolding r by (simp add: round_ratio_def)
  qed
qed

section \<open>Evaluation\<close>

lemma bit_length_numeral: "bit_length (numeral k) = Suc (bit_length (numeral k div 2))" "bit_length 0 = 0"
    "bit_length 1 = 1" "bit_length (Suc 0) = 1"
  by (subst bit_length.simps, simp)+

lemmas float_eval = float_le_def float_ratio_def float_div_def float_int_def round_ratio_def round_pos_def rdiv_def
  last_place_def bit_length_numeral Let_def

end
