(* ===== verification/Model_Request.thy ===== *)
theory Model_Request
  imports Assemble Module_Registry
begin

text \<open>
  \<open>daemon/agent/request.go\<close> and the types of \<open>daemon/provider/provider.go\<close> it fills: the segments of a log
  folded into the messages a model is sent. A tool is offered by its name; its description and schema go
  along unread. \<^term>\<open>None\<close> is the panic of \<open>MustData\<close>.

  The lemmas show that a valid log is never the cause of a panic, that no message, tool call or tool
  result of the segments is lost or moved, and that a request which only grows at its end in segments
  does so in messages, up to the last two.
\<close>

section \<open>What a provider is asked and answers\<close>

record ToolCall =
  pt_id :: string
  pt_name :: string
  pt_args :: "json option"

record Message =
  pm_role :: string
  pm_content :: string
  pm_calls :: "ToolCall list"
  pm_call_id :: string
  pm_reasoning :: string

record Request =
  rq_model :: string
  rq_messages :: "Message list"
  rq_tools :: "string list"
  rq_max :: int
  rq_no_thinking :: bool
  rq_effort :: string

record Response =
  rs_content :: string
  rs_reasoning :: string
  rs_calls :: "ToolCall list"
  rs_usage :: Usage
  rs_finish :: string
  rs_recovered :: int

section \<open>Messages from segments\<close>

definition plain_message :: "string \<Rightarrow> string \<Rightarrow> Message" where
  "plain_message role content = \<lparr>pm_role = role, pm_content = content, pm_calls = [], pm_call_id = [], pm_reasoning = []\<rparr>"

definition tool_message :: "string \<Rightarrow> string \<Rightarrow> Message" where
  "tool_message call content = (plain_message ''tool'' content)\<lparr>pm_call_id := call\<rparr>"

record Build =
  rb_sys :: string
  rb_msgs :: "Message list"
  rb_pending :: "Message option"
  rb_suffix :: "string list"
  rb_thought :: "string list"

definition blank :: string where "blank = [newline, newline]"

definition flush_pending :: "Build \<Rightarrow> Build" where
  "flush_pending b = (case rb_pending b of None \<Rightarrow> b | Some m \<Rightarrow> b\<lparr>rb_msgs := rb_msgs b @ [m], rb_pending := None\<rparr>)"

definition flush :: "Build \<Rightarrow> Build" where
  "flush b0 =
     (let b = flush_pending b0 in
      if rb_suffix b = [] then b
      else b\<lparr>rb_msgs := rb_msgs b @ [plain_message ''user'' (join blank (rb_suffix b))], rb_suffix := []\<rparr>)"

definition add_message :: "MessageData \<Rightarrow> Build \<Rightarrow> Build" where
  "add_message d b =
     (let m = plain_message (msg_role d) (msg_content d) in
      if msg_role d = ''assistant''
      then b\<lparr>rb_pending := Some (m\<lparr>pm_reasoning := join blank (rb_thought b),
               pm_content := (if msg_interrupted d \<and> msg_content d = [] then ''(interrupted)'' else msg_content d)\<rparr>),
             rb_thought := []\<rparr>
      else b\<lparr>rb_msgs := rb_msgs b @ [m], rb_thought := []\<rparr>)"

definition add_call :: "ToolCallData \<Rightarrow> Build \<Rightarrow> Build" where
  "add_call d b0 =
     (let b = (if rb_pending b0 = None then flush b0 else b0);
          m = (case rb_pending b of None \<Rightarrow> plain_message ''assistant'' [] | Some m \<Rightarrow> m) in
      b\<lparr>rb_pending := Some (m\<lparr>pm_calls := pm_calls m @ [\<lparr>pt_id = tc_call d, pt_name = tc_tool d, pt_args = tc_args d\<rparr>]\<rparr>)\<rparr>)"

definition add_msg :: "Message \<Rightarrow> Build \<Rightarrow> Build" where
  "add_msg m b = b\<lparr>rb_msgs := rb_msgs b @ [m]\<rparr>"

definition add_sys :: "string \<Rightarrow> Build \<Rightarrow> Build" where
  "add_sys text b = b\<lparr>rb_sys := rb_sys b @ text\<rparr>"

definition add_suffix :: "string \<Rightarrow> Build \<Rightarrow> Build" where
  "add_suffix text b0 = (let b = flush_pending b0 in b\<lparr>rb_suffix := rb_suffix b @ [text]\<rparr>)"

text \<open>The event behind a segment; a segment without one is read as the zero event, which panics.\<close>

definition seg_data :: "(event_data \<Rightarrow> 'a option) \<Rightarrow> Event list \<Rightarrow> Segment \<Rightarrow> 'a option" where
  "seg_data sel log s = (case find_last (\<lambda>e. ev_id e = seg_id s) log of None \<Rightarrow> None | Some e \<Rightarrow> MustData sel e)"

definition as_thinking :: "event_data \<Rightarrow> ThinkingData option" where
  "as_thinking d = (case d of DThinking x \<Rightarrow> Some x | _ \<Rightarrow> None)"

definition build_step :: "Event list \<Rightarrow> bool \<Rightarrow> Build \<Rightarrow> Segment \<Rightarrow> Build option" where
  "build_step log keep b s =
     (if seg_kind s = ''prefix_context'' then Some (add_sys (blank @ seg_text s) b)
      else if seg_kind s = ''summary'' then Some (add_sys (blank @ ''## Earlier conversation (summarized)'' @ [newline] @ seg_text s) b)
      else if seg_kind s = ''state'' then Some (add_sys (blank @ seg_text s) b)
      else if seg_kind s = ''thinking''
      then (if keep then map_option (\<lambda>d. b\<lparr>rb_thought := rb_thought b @ [th_content d]\<rparr>) (seg_data as_thinking log s) else Some b)
      else if seg_kind s = ''message'' then map_option (\<lambda>d. add_message d (flush b)) (seg_data as_message log s)
      else if seg_kind s = ''tool_call'' then map_option (\<lambda>d. add_call d b) (seg_data as_tool_call log s)
      else if seg_kind s = ''tool_result''
      then map_option (\<lambda>d. add_msg (tool_message (tr_call d) (tr_content d)) (flush b)) (seg_data as_tool_result log s)
      else if seg_kind s = ''tool_result_cleared''
      then map_option (\<lambda>d. add_msg (tool_message (tr_call d) (seg_text s)) (flush b)) (seg_data as_tool_result log s)
      else if seg_kind s = ''suffix_context'' then Some (add_suffix (seg_text s) b)
      else if seg_kind s = ''vetoes'' then Some (add_msg (plain_message ''user'' (seg_text s)) (flush b))
      else Some b)"

text \<open>The first event that holds session data.\<close>

definition first_session :: "Event list \<Rightarrow> SessionData option" where
  "first_session log = (case List.map_filter (MustData as_session) log of [] \<Rightarrow> None | d # _ \<Rightarrow> Some d)"

definition build_start :: "Event list \<Rightarrow> string \<Rightarrow> Build" where
  "build_start log prompt =
     \<lparr>rb_sys = prompt @ (case first_session log of None \<Rightarrow> [] | Some d \<Rightarrow> blank @ ''Workspace: '' @ sd_workspace d),
      rb_msgs = [], rb_pending = None, rb_suffix = [], rb_thought = []\<rparr>"

definition buildRequest :: "Event list \<Rightarrow> string \<Rightarrow> string \<Rightarrow> string list \<Rightarrow> int \<Rightarrow> bool \<Rightarrow> Request option" where
  "buildRequest log prompt model tools max_tokens keep =
     (case Assemble log of
        None \<Rightarrow> None
      | Some segs \<Rightarrow>
          map_option (\<lambda>b0. let b = flush b0 in
            \<lparr>rq_model = model, rq_messages = plain_message ''system'' (rb_sys b) # rb_msgs b, rq_tools = tools,
             rq_max = max_tokens, rq_no_thinking = False, rq_effort = []\<rparr>)
            (fold_opt (build_step log keep) (build_start log prompt) segs))"


section \<open>Segments and their events\<close>

lemma find_last_id: "distinct (map ev_id log) \<Longrightarrow> e \<in> set log \<Longrightarrow> find_last (\<lambda>x. ev_id x = ev_id e) log = Some e"
  by (induction log rule: rev_induct) (auto simp: image_iff)

text \<open>A segment that names an event names one of the log, of its own type.\<close>

definition backed :: "Event list \<Rightarrow> Segment \<Rightarrow> bool" where
  "backed log s \<longleftrightarrow>
     (seg_kind s \<in> {''message'', ''thinking'', ''tool_call'', ''tool_result'', ''tool_result_cleared''} \<longrightarrow>
       (\<exists>e \<in> set log. ev_id e = seg_id s \<and>
          ev_type e = (if seg_kind s = ''tool_result_cleared'' then ''tool_result'' else seg_kind s)))"

lemma segments_origin:
  assumes "segments f i es = Some ss" "s \<in> set ss"
  shows "\<exists>k e l. e \<in> set es \<and> f k e = Some l \<and> s \<in> set l"
  using assms
proof (induction es arbitrary: i ss)
  case (Cons e es)
  then obtain a b where ab: "f i e = Some a" "segments f (i + 1) es = Some b" "ss = a @ b"
    by (auto split: option.splits)
  show ?case
  proof (cases "s \<in> set a")
    case False
    then have "s \<in> set b" using Cons.prems(2) ab(3) by simp
    from Cons.IH [OF ab(2) this] show ?thesis by (meson list.set_intros(2))
  qed (use ab in \<open>meson list.set_intros(1)\<close>)
qed simp

lemma prefix_segment_kind: "prefix_segment e = Some l \<Longrightarrow> s \<in> set l \<Longrightarrow> seg_kind s = ''prefix_context''"
  by (auto simp: prefix_segment_def split: if_splits)

lemma conversation_segment_backed:
  "conversation_segment c i e = Some l \<Longrightarrow> s \<in> set l \<Longrightarrow> e \<in> set log \<Longrightarrow> backed log s"
  by (auto simp: conversation_segment_def backed_def split: if_splits)

lemma Assemble_backed:
  assumes dec: "\<forall>e \<in> set log. decodes e" and segs: "Assemble log = Some segs" and s: "s \<in> set segs"
  shows "backed log s"
proof -
  obtain k cleared a b c d where p:
    "segments (\<lambda>i. prefix_segment) (case k of None \<Rightarrow> 0 | Some k \<Rightarrow> k + 1)
       (drop (case k of None \<Rightarrow> 0 | Some k \<Rightarrow> k + 1) log) = Some a"
    "summary_segments log k = Some b"
    "segments (conversation_segment cleared) (case k of None \<Rightarrow> 0 | Some k \<Rightarrow> k + 1)
       (drop (case k of None \<Rightarrow> 0 | Some k \<Rightarrow> k + 1) log) = Some c"
    "veto_segments log = Some d" "Assemble log = Some (a @ b @ c @ d)"
    using Assemble_parts [OF dec] by metis
  have "backed log s" if "s \<in> set a"
    using segments_origin [OF p(1) that] prefix_segment_kind by (fastforce simp: backed_def)
  moreover have "backed log s" if "s \<in> set b"
    using p(2) that by (auto simp: summary_segments_def backed_def split: option.splits)
  moreover have "backed log s" if "s \<in> set c"
    using segments_origin [OF p(3) that] conversation_segment_backed by (meson in_set_dropD)
  moreover have "backed log s" if "s \<in> set d"
    using veto_segments_shape [OF dec] p(4) that by (auto simp: backed_def)
  ultimately show ?thesis using p(5) segs s by auto
qed

lemma MustData_thinking: "decodes e \<Longrightarrow> ev_type e = ''thinking'' \<Longrightarrow> MustData as_thinking e \<noteq> None"
proof -
  assume "decodes e" "ev_type e = ''thinking''"
  then obtain p where p: "DecodeData e = Inr p" "payload_type p = ''thinking''"
    using DecodeData_type by (auto simp: decodes_def)
  then show ?thesis by (cases p) (simp_all add: MustData_def as_thinking_def)
qed

text \<open>The event of such a segment decodes to its data.\<close>

lemma seg_data_backed:
  assumes dec: "\<forall>e \<in> set log. decodes e" and ids: "distinct (map ev_id log)" and s: "backed log s"
  shows "seg_kind s = ''message'' \<Longrightarrow> seg_data as_message log s \<noteq> None"
    and "seg_kind s = ''thinking'' \<Longrightarrow> seg_data as_thinking log s \<noteq> None"
    and "seg_kind s = ''tool_call'' \<Longrightarrow> seg_data as_tool_call log s \<noteq> None"
    and "seg_kind s \<in> {''tool_result'', ''tool_result_cleared''} \<Longrightarrow> seg_data as_tool_result log s \<noteq> None"
proof -
  have *: "\<exists>e. decodes e \<and> ev_type e = t \<and> seg_data sel log s = MustData sel e"
    if "\<exists>e \<in> set log. ev_id e = seg_id s \<and> ev_type e = t" for t and sel :: "event_data \<Rightarrow> 'x option"
    using that find_last_id [OF ids] dec by (fastforce simp: seg_data_def)
  show "seg_kind s = ''message'' \<Longrightarrow> seg_data as_message log s \<noteq> None"
    using * [of "''message''" as_message] s MustData_type(1) by (fastforce simp: backed_def)
  show "seg_kind s = ''thinking'' \<Longrightarrow> seg_data as_thinking log s \<noteq> None"
    using * [of "''thinking''" as_thinking] s MustData_thinking by (fastforce simp: backed_def)
  show "seg_kind s = ''tool_call'' \<Longrightarrow> seg_data as_tool_call log s \<noteq> None"
    using * [of "''tool_call''" as_tool_call] s MustData_type(6) by (fastforce simp: backed_def)
  show "seg_kind s \<in> {''tool_result'', ''tool_result_cleared''} \<Longrightarrow> seg_data as_tool_result log s \<noteq> None"
    using * [of "''tool_result''" as_tool_result] s MustData_type(5) by (fastforce simp: backed_def)
qed


section \<open>Nothing is lost\<close>

definition messages_of :: "Build \<Rightarrow> Message list" where
  "messages_of b = rb_msgs b @ (case rb_pending b of None \<Rightarrow> [] | Some m \<Rightarrow> [m])"

definition calls_of :: "Message list \<Rightarrow> ToolCall list" where
  "calls_of ms = concat (map pm_calls ms)"

definition results_of :: "Message list \<Rightarrow> string list" where
  "results_of ms = concat (map (\<lambda>m. if pm_call_id m = [] then [] else [pm_call_id m]) ms)"

lemma calls_of_simps [simp]:
  "calls_of [] = []" "calls_of (m # ms) = pm_calls m @ calls_of ms" "calls_of (xs @ ys) = calls_of xs @ calls_of ys"
  by (simp_all add: calls_of_def)

lemma results_of_simps [simp]:
  "results_of [] = []" "results_of (m # ms) = (if pm_call_id m = [] then [] else [pm_call_id m]) @ results_of ms"
  "results_of (xs @ ys) = results_of xs @ results_of ys"
  by (simp_all add: results_of_def)

text \<open>The tool call and the result a segment stands for.\<close>

definition seg_call :: "Event list \<Rightarrow> Segment \<Rightarrow> ToolCall list" where
  "seg_call log s =
     (if seg_kind s = ''tool_call''
      then (case seg_data as_tool_call log s of None \<Rightarrow> [] | Some d \<Rightarrow> [\<lparr>pt_id = tc_call d, pt_name = tc_tool d, pt_args = tc_args d\<rparr>])
      else [])"

definition seg_result :: "Event list \<Rightarrow> Segment \<Rightarrow> string list" where
  "seg_result log s =
     (if seg_kind s \<in> {''tool_result'', ''tool_result_cleared''}
      then (case seg_data as_tool_result log s of None \<Rightarrow> [] | Some d \<Rightarrow> if tr_call d = [] then [] else [tr_call d])
      else [])"

text \<open>A build is well formed when its open message is no result and has no suffix after it.\<close>

definition build_ok :: "Build \<Rightarrow> bool" where
  "build_ok b \<longleftrightarrow> (\<forall>m. rb_pending b = Some m \<longrightarrow> rb_suffix b = [] \<and> pm_role m = ''assistant'' \<and> pm_call_id m = []) \<and>
     (\<forall>m \<in> set (rb_msgs b). pm_calls m \<noteq> [] \<longrightarrow> pm_role m = ''assistant'')"

lemmas build_defs = add_message_def add_call_def add_msg_def add_sys_def add_suffix_def tool_message_def
  plain_message_def Let_def

lemma flush_simps [simp]:
  "rb_pending (flush b) = None" "rb_suffix (flush b) = []" "rb_thought (flush b) = rb_thought b" "rb_sys (flush b) = rb_sys b"
  by (simp_all add: flush_def flush_pending_def Let_def split: option.split)

lemma flush_calls: "calls_of (rb_msgs (flush b)) = calls_of (messages_of b)"
  by (simp add: flush_def flush_pending_def messages_of_def plain_message_def Let_def split: option.split)

lemma flush_results: "build_ok b \<Longrightarrow> results_of (rb_msgs (flush b)) = results_of (messages_of b)"
  by (simp add: flush_def flush_pending_def messages_of_def plain_message_def Let_def build_ok_def split: option.split)

lemma flush_ok: "build_ok b \<Longrightarrow> build_ok (flush b)"
  by (auto simp: flush_def flush_pending_def plain_message_def Let_def build_ok_def split: option.split)

lemma messages_of_flush: "messages_of (flush b) = rb_msgs (flush b)"
  by (simp add: messages_of_def)

lemma add_message_ok: "build_ok b \<Longrightarrow> rb_suffix b = [] \<Longrightarrow> build_ok (add_message d b)"
  by (auto simp: build_ok_def build_defs)

lemma add_call_ok: "build_ok b \<Longrightarrow> build_ok (add_call d b)"
  using flush_ok [of b] by (auto simp: build_ok_def build_defs split: option.splits)

lemma add_msg_ok: "build_ok b \<Longrightarrow> pm_calls m = [] \<Longrightarrow> build_ok (add_msg m b)"
  by (auto simp: build_ok_def build_defs)

lemma add_suffix_ok: "build_ok b \<Longrightarrow> build_ok (add_suffix t b)"
  by (auto simp: build_ok_def build_defs flush_pending_def split: option.splits)

text \<open>What a step does to the messages.\<close>

lemma build_step_cases:
  assumes "build_step log keep b s = Some b'"
  obtains (quiet) "rb_msgs b' = rb_msgs b" "rb_pending b' = rb_pending b" "rb_suffix b' = rb_suffix b"
      "seg_kind s \<notin> {''message'', ''tool_call'', ''tool_result'', ''tool_result_cleared'', ''suffix_context'', ''vetoes''}"
  | (message) d where "b' = add_message d (flush b)" "seg_kind s = ''message''" "seg_data as_message log s = Some d"
  | (call) d where "b' = add_call d b" "seg_kind s = ''tool_call''" "seg_data as_tool_call log s = Some d"
  | (result) d t where "b' = add_msg (tool_message (tr_call d) t) (flush b)"
      "seg_kind s \<in> {''tool_result'', ''tool_result_cleared''}" "seg_data as_tool_result log s = Some d"
  | (suffix) t where "b' = add_suffix t b" "seg_kind s = ''suffix_context''"
  | (vetoes) t where "b' = add_msg (plain_message ''user'' t) (flush b)" "seg_kind s = ''vetoes''"
proof (cases "seg_kind s \<in> {''message'', ''tool_call'', ''tool_result'', ''tool_result_cleared'', ''suffix_context'', ''vetoes''}")
  case False
  then have "rb_msgs b' = rb_msgs b \<and> rb_pending b' = rb_pending b \<and> rb_suffix b' = rb_suffix b"
    using assms by (auto simp: build_step_def add_sys_def split: if_splits)
  then show ?thesis using quiet False by blast
next
  case True
  then consider "seg_kind s = ''message''" | "seg_kind s = ''tool_call''" | "seg_kind s = ''tool_result''" |
    "seg_kind s = ''tool_result_cleared''" | "seg_kind s = ''suffix_context''" | "seg_kind s = ''vetoes''" by blast
  then show ?thesis using assms message call result suffix vetoes
    by cases (simp_all add: build_step_def, blast+)
qed

lemma build_step_ok:
  assumes "build_step log keep b s = Some b'" "build_ok b"
  shows "build_ok b'"
  using assms(1)
proof (cases rule: build_step_cases)
  case quiet
  then show ?thesis using assms(2) by (simp add: build_ok_def)
qed (use add_suffix_ok add_call_ok add_msg_ok [OF flush_ok] add_message_ok [OF flush_ok] assms(2) in
  \<open>simp_all add: tool_message_def plain_message_def\<close>)

lemma messages_of_add [simp]:
  "messages_of (add_msg m (flush b)) = rb_msgs (flush b) @ [m]"
  "calls_of (messages_of (add_message d (flush b))) = calls_of (rb_msgs (flush b))"
  "results_of (messages_of (add_message d (flush b))) = results_of (rb_msgs (flush b))"
  by (simp_all add: messages_of_def build_defs)

lemma messages_of_suffix [simp]: "messages_of (add_suffix t b) = messages_of b"
  by (simp add: messages_of_def build_defs flush_pending_def split: option.split)

lemma add_call_calls:
  "calls_of (messages_of (add_call d b)) = calls_of (messages_of b) @ [\<lparr>pt_id = tc_call d, pt_name = tc_tool d, pt_args = tc_args d\<rparr>]"
  using flush_calls [of b] by (cases "rb_pending b") (simp_all add: messages_of_def build_defs)

lemma add_call_results: "build_ok b \<Longrightarrow> results_of (messages_of (add_call d b)) = results_of (messages_of b)"
  using flush_results [of b] by (cases "rb_pending b") (simp_all add: messages_of_def build_defs)

lemma build_step_calls:
  assumes "build_step log keep b s = Some b'"
  shows "calls_of (messages_of b') = calls_of (messages_of b) @ seg_call log s"
  using assms
proof (cases rule: build_step_cases)
  case quiet
  then show ?thesis by (simp add: messages_of_def seg_call_def)
qed (auto simp: flush_calls add_call_calls seg_call_def tool_message_def plain_message_def)

lemma build_step_results:
  assumes "build_step log keep b s = Some b'" "build_ok b"
  shows "results_of (messages_of b') = results_of (messages_of b) @ seg_result log s"
  using assms(1)
proof (cases rule: build_step_cases)
  case quiet
  then show ?thesis by (simp add: messages_of_def seg_result_def)
qed (use assms(2) in \<open>auto simp: flush_results add_call_results seg_result_def tool_message_def plain_message_def\<close>)

lemma build_fold:
  assumes "fold_opt (build_step log keep) b segs = Some b'" "build_ok b"
  shows "build_ok b' \<and> calls_of (messages_of b') = calls_of (messages_of b) @ concat (map (seg_call log) segs) \<and>
    results_of (messages_of b') = results_of (messages_of b) @ concat (map (seg_result log) segs)"
  using assms
proof (induction segs arbitrary: b)
  case (Cons s segs)
  then obtain b1 where b1: "build_step log keep b s = Some b1" "fold_opt (build_step log keep) b1 segs = Some b'"
    by (auto split: option.splits)
  from Cons.IH [OF b1(2) build_step_ok [OF b1(1) Cons.prems(2)]]
    build_step_calls [OF b1(1)] build_step_results [OF b1(1) Cons.prems(2)]
  show ?case by simp
qed simp

lemma build_start_ok: "build_ok (build_start log prompt)" "messages_of (build_start log prompt) = []"
  by (simp_all add: build_ok_def build_start_def messages_of_def)

lemma build_total:
  assumes "\<forall>e \<in> set log. decodes e" "distinct (map ev_id log)" "\<forall>s \<in> set segs. backed log s"
  shows "\<exists>b'. fold_opt (build_step log keep) b segs = Some b'"
proof (rule fold_opt_total)
  fix b s assume "s \<in> set segs"
  then have "backed log s" using assms(3) by blast
  from seg_data_backed [OF assms(1,2) this] show "build_step log keep b s \<noteq> None" by (auto simp: build_step_def)
qed

section \<open>The request grows at its end\<close>

lemma seg_data_append:
  assumes "distinct (map ev_id (log @ new))" "seg_id s \<in> ev_id ` set log"
  shows "seg_data sel (log @ new) s = seg_data sel log s"
proof -
  obtain e where e: "e \<in> set log" "ev_id e = seg_id s" using assms(2) by auto
  then show ?thesis using find_last_id [OF assms(1), of e] find_last_id [of log e] assms(1) by (simp add: seg_data_def)
qed

lemma build_step_append:
  assumes "distinct (map ev_id (log @ new))" "backed log s"
  shows "build_step (log @ new) keep b s = build_step log keep b s"
proof (cases "seg_kind s \<in> {''message'', ''thinking'', ''tool_call'', ''tool_result'', ''tool_result_cleared''}")
  case True
  then obtain e where "e \<in> set log" "ev_id e = seg_id s" using assms(2) by (auto simp: backed_def)
  then have "seg_id s \<in> ev_id ` set log" by (metis image_eqI)
  then show ?thesis by (simp add: build_step_def seg_data_append [OF assms(1)])
qed (simp add: build_step_def)

lemma fold_opt_cong: "(\<And>x s. x \<in> set xs \<Longrightarrow> f s x = g s x) \<Longrightarrow> fold_opt f s xs = fold_opt g s xs"
  by (induction xs arbitrary: s) (simp_all split: option.split)

lemma flush_extends: "\<exists>t. rb_msgs (flush b) = rb_msgs b @ t \<and> (build_ok b \<longrightarrow> length t \<le> 1)"
  by (auto simp: flush_def flush_pending_def Let_def build_ok_def split: option.splits)

text \<open>A segment that is no part of the system message only adds messages.\<close>

lemma build_step_extends:
  assumes "build_step log keep b s = Some b'" "\<not> system_kind s"
  shows "rb_sys b' = rb_sys b \<and> (\<exists>t. rb_msgs b' = rb_msgs b @ t)"
proof -
  have "rb_sys b' = rb_sys b"
    using assms by (auto simp: build_step_def build_defs flush_pending_def system_kind_def split: if_splits option.splits)
  moreover from assms(1) have "\<exists>t. rb_msgs b' = rb_msgs b @ t"
  proof (cases rule: build_step_cases)
    case (message d)
    then show ?thesis using flush_extends [of b] by (auto simp: build_defs)
  next
    case (call d)
    then show ?thesis using flush_extends [of b] by (auto simp: build_defs)
  next
    case (result d t)
    then show ?thesis using flush_extends [of b] by (auto simp: build_defs)
  next
    case (suffix t)
    then show ?thesis by (auto simp: build_defs flush_pending_def split: option.splits)
  next
    case (vetoes t)
    then show ?thesis using flush_extends [of b] by (auto simp: build_defs)
  qed simp
  ultimately show ?thesis by blast
qed


lemma build_fold_extends:
  assumes "fold_opt (build_step log keep) b segs = Some b'"
    "\<forall>s \<in> set segs. \<not> system_kind s"
  shows "rb_sys b' = rb_sys b \<and> (\<exists>t. rb_msgs b' = rb_msgs b @ t)"
  using assms
proof (induction segs arbitrary: b)
  case (Cons s segs)
  then obtain b1 where b1: "build_step log keep b s = Some b1" "fold_opt (build_step log keep) b1 segs = Some b'"
    by (auto split: option.splits)
  have "rb_sys b1 = rb_sys b \<and> (\<exists>t. rb_msgs b1 = rb_msgs b @ t)"
    using build_step_extends [OF b1(1)] Cons.prems(2) by simp
  moreover have "rb_sys b' = rb_sys b1 \<and> (\<exists>t. rb_msgs b' = rb_msgs b1 @ t)"
    using Cons.IH [OF b1(2)] Cons.prems(2) by simp
  ultimately show ?case by auto
qed simp

lemma buildRequest_parts:
  assumes "\<forall>e \<in> set log. decodes e" "distinct (map ev_id log)"
  obtains segs b where "Assemble log = Some segs" "\<forall>s \<in> set segs. backed log s"
    "fold_opt (build_step log keep) (build_start log prompt) segs = Some b" "build_ok b"
    "buildRequest log prompt model tools mx keep =
       Some \<lparr>rq_model = model, rq_messages = plain_message ''system'' (rb_sys b) # rb_msgs (flush b), rq_tools = tools,
         rq_max = mx, rq_no_thinking = False, rq_effort = []\<rparr>"
proof -
  obtain segs where segs: "Assemble log = Some segs" using Assemble_ids [OF assms(1)] by blast
  have bk: "\<forall>s \<in> set segs. backed log s" using Assemble_backed [OF assms(1) segs] by blast
  obtain b where b: "fold_opt (build_step log keep) (build_start log prompt) segs = Some b"
    using build_total [OF assms bk] by blast
  with segs bk build_fold [OF b build_start_ok(1)] show ?thesis
    by (intro that [of segs b]) (simp_all add: buildRequest_def Let_def)
qed

lemma first_session_append: "first_session log \<noteq> None \<Longrightarrow> first_session (log @ new) = first_session log"
  by (auto simp: first_session_def List.map_filter_def split: list.splits)


lemma flush_idle: "rb_pending b = None \<Longrightarrow> rb_suffix b = [] \<Longrightarrow> flush b = b"
  by (simp add: flush_def flush_pending_def)

lemma veto_fold:
  assumes "fold_opt (build_step log keep) b vetoes = Some b'" "build_ok b"
    "length vetoes \<le> 1" "\<forall>s \<in> set vetoes. seg_kind s = ''vetoes''"
  shows "rb_sys b' = rb_sys b \<and> (\<exists>t. rb_msgs (flush b') = rb_msgs b @ t \<and> length t \<le> 2)"
proof (cases vetoes)
  case Nil
  with assms(1) flush_extends [of b] assms(2) show ?thesis by fastforce
next
  case (Cons s rest)
  with assms(3) have v: "vetoes = [s]" by simp
  have b': "b' = add_msg (plain_message ''user'' (seg_text s)) (flush b)"
    using assms(1,4) v by (simp add: build_step_def)
  obtain t where t: "rb_msgs (flush b) = rb_msgs b @ t" "length t \<le> 1" using flush_extends [of b] assms(2) by blast
  have "rb_msgs (flush b') = rb_msgs (flush b) @ [plain_message ''user'' (seg_text s)]"
    using flush_idle [of b'] by (simp add: b' add_msg_def)
  with t show ?thesis by (simp add: b' add_msg_def)
qed

section \<open>Properties\<close>

text \<open>C18: On a valid log with increasing ids a request is built without panic, and it carries each tool call and
  each result of the segments exactly once, in the order of the log; tool calls are only ever on
  assistant messages, after one system message.\<close>
theorem buildRequest_complete:
  assumes "ValidateLog log = None" "ids_sorted log"
  shows "\<exists>segs r. Assemble log = Some segs \<and> buildRequest log prompt model tools mx keep = Some r \<and>
    calls_of (rq_messages r) = concat (map (seg_call log) segs) \<and>
    results_of (rq_messages r) = concat (map (seg_result log) segs) \<and>
    pm_role (hd (rq_messages r)) = ''system'' \<and>
    (\<forall>m \<in> set (rq_messages r). pm_calls m \<noteq> [] \<longrightarrow> pm_role m = ''assistant'')"
proof -
  have dec: "\<forall>e \<in> set log. decodes e" using assms(1) ValidateLog_decodes by blast
  obtain segs b where p: "Assemble log = Some segs"
    "fold_opt (build_step log keep) (build_start log prompt) segs = Some b" "build_ok b"
    "buildRequest log prompt model tools mx keep =
       Some \<lparr>rq_model = model, rq_messages = plain_message ''system'' (rb_sys b) # rb_msgs (flush b), rq_tools = tools,
         rq_max = mx, rq_no_thinking = False, rq_effort = []\<rparr>"
    using buildRequest_parts [OF dec ids_sorted_distinct [OF assms(2)]] by metis
  have "\<forall>m \<in> set (rb_msgs (flush b)). pm_calls m \<noteq> [] \<longrightarrow> pm_role m = ''assistant''"
    using flush_ok [OF p(3)] by (simp add: build_ok_def)
  with p build_fold [OF p(2) build_start_ok(1)] flush_calls [of b] flush_results [OF p(3)] build_start_ok(2) [of log prompt]
  show ?thesis by (simp add: plain_message_def)
qed

lemma buildRequest_complete_witness:
  "\<exists>segs r. Assemble (sample_log [sample_session, sample_said ''hi'', sample_answer ''ok'']) = Some segs \<and>
    buildRequest (sample_log [sample_session, sample_said ''hi'', sample_answer ''ok'']) ''be brief'' ''qwen'' [] 100 False = Some r \<and>
    pm_role (hd (rq_messages r)) = ''system''"
  using buildRequest_complete [of "sample_log [sample_session, sample_said ''hi'', sample_answer ''ok'']" "''be brief''"
    "''qwen''" "[]" 100 False, OF sample_log_valid3] by (auto simp: ids_sorted_def sample_log3 sample_id_mono)

text \<open>The prompt cache: of the messages sent for a log, all but the last two at most are sent again, unchanged
  and in place, the system message included, for the log grown by events that are no compaction and no
  prefix context, and that no earlier compaction range names.\<close>
theorem buildRequest_cached:
  assumes "ValidateLog (log @ new) = None" "ids_sorted (log @ new)" "log \<noteq> []"
    and "\<forall>e \<in> set new. ev_type e \<noteq> ''compaction'' \<and> no_prefix e" and "foreign_ranges log new"
  shows "\<exists>r r' kept t t'. buildRequest log prompt model tools mx keep = Some r \<and>
    buildRequest (log @ new) prompt model tools mx keep = Some r' \<and>
    rq_messages r = kept @ t \<and> rq_messages r' = kept @ t' \<and> kept \<noteq> [] \<and> length t \<le> 2"
proof -
  have val: "ValidateLog log = None" using ValidateLog_prefix [OF assms(1,3)] .
  have dec': "\<forall>e \<in> set (log @ new). decodes e" using assms(1) ValidateLog_decodes by blast
  then have dec: "\<forall>e \<in> set log. decodes e" by simp
  have ids: "distinct (map ev_id (log @ new))" "distinct (map ev_id log)"
    using ids_sorted_distinct [OF assms(2)] by simp_all
  obtain body vetoes more vetoes' where s: "Assemble log = Some (body @ vetoes)"
    "Assemble (log @ new) = Some (body @ more @ vetoes')" "\<forall>s \<in> set more. \<not> system_kind s"
    "length vetoes \<le> 1" "\<forall>s \<in> set (vetoes @ vetoes'). seg_kind s = ''vetoes''"
    using Assemble_extend [OF dec' assms(4,5)] by blast
  let ?st = "build_step log keep" let ?st' = "build_step (log @ new) keep" let ?b0 = "build_start log prompt"
  obtain b1 where p: "fold_opt ?st ?b0 (body @ vetoes) = Some b1" "\<forall>s \<in> set (body @ vetoes). backed log s"
    "buildRequest log prompt model tools mx keep =
       Some \<lparr>rq_model = model, rq_messages = plain_message ''system'' (rb_sys b1) # rb_msgs (flush b1), rq_tools = tools,
         rq_max = mx, rq_no_thinking = False, rq_effort = []\<rparr>"
    using buildRequest_parts [OF dec ids(2), of keep prompt model tools mx] s(1) by (metis option.inject)
  have start: "build_start (log @ new) prompt = ?b0"
  proof -
    obtain e es where "log = e # es" "ev_type e = ''session''" using ValidateLog_first [OF val] by blast
    moreover from this obtain d where "MustData as_session e = Some d"
      using dec DecodeData_type by (fastforce simp: decodes_def MustData_def as_session_def elim: payload_type.elims)
    ultimately show ?thesis by (simp add: build_start_def first_session_def List.map_filter_simps)
  qed
  obtain b2 where q: "fold_opt ?st' ?b0 (body @ more @ vetoes') = Some b2"
    "buildRequest (log @ new) prompt model tools mx keep =
       Some \<lparr>rq_model = model, rq_messages = plain_message ''system'' (rb_sys b2) # rb_msgs (flush b2), rq_tools = tools,
         rq_max = mx, rq_no_thinking = False, rq_effort = []\<rparr>"
    using buildRequest_parts [OF dec' ids(1), of keep prompt model tools mx] s(2) start by (metis option.inject)
  obtain b where b: "fold_opt ?st ?b0 body = Some b" "fold_opt ?st b vetoes = Some b1"
    using p(1) by (auto simp: fold_opt_append split: option.splits)
  have "fold_opt ?st' ?b0 body = fold_opt ?st ?b0 body"
    by (rule fold_opt_cong) (rule build_step_append [OF ids(1)], use p(2) in simp)
  then have r: "fold_opt ?st' b (more @ vetoes') = Some b2" using q(1) b(1) by (simp add: fold_opt_append)
  have ok: "build_ok b" using build_fold [OF b(1) build_start_ok(1)] by blast
  obtain t where t: "rb_sys b1 = rb_sys b" "rb_msgs (flush b1) = rb_msgs b @ t" "length t \<le> 2"
    using veto_fold [OF b(2) ok s(4)] s(5) by auto
  have "\<forall>s \<in> set (more @ vetoes'). \<not> system_kind s" using s(3,5) by (auto simp: system_kind_def)
  from build_fold_extends [OF r this] obtain u where u: "rb_sys b2 = rb_sys b" "rb_msgs b2 = rb_msgs b @ u" by blast
  obtain v where v: "rb_msgs (flush b2) = rb_msgs b2 @ v" using flush_extends [of b2] by blast
  show ?thesis using p(3) q(2) t u v
    by (intro exI [of _ "plain_message ''system'' (rb_sys b) # rb_msgs b"] exI [of _ t] exI [of _ "u @ v"] exI) auto
qed

lemma buildRequest_cached_witness:
  "\<exists>r r' kept t t'.
    buildRequest [sample_event 0 sample_session, sample_event 1 (sample_said ''hi'')] ''be brief'' ''qwen'' [] 100 False = Some r \<and>
    buildRequest (sample_log [sample_session, sample_said ''hi'', sample_answer ''ok'']) ''be brief'' ''qwen'' [] 100 False = Some r' \<and>
    rq_messages r = kept @ t \<and> rq_messages r' = kept @ t' \<and> kept \<noteq> [] \<and> length t \<le> 2"
proof -
  let ?log = "[sample_event 0 sample_session, sample_event 1 (sample_said ''hi'')]"
  let ?new = "[sample_event 2 (sample_answer ''ok'')]"
  have all: "sample_log [sample_session, sample_said ''hi'', sample_answer ''ok''] = ?log @ ?new"
    by (simp add: sample_log3)
  have none: "as_context (sample_answer s) = None" "as_compaction sample_session = None"
    "as_compaction (sample_said s) = None" for s
    by (simp_all add: as_defs sample_session_def sample_said_def sample_answer_def)
  have "ValidateLog (?log @ ?new) = None" using sample_log_valid3 [of "''hi''" "''ok''"] unfolding all .
  moreover have "ids_sorted (?log @ ?new)" by (simp add: ids_sorted_def sample_id_mono)
  moreover have "\<forall>e \<in> set ?new. ev_type e \<noteq> ''compaction'' \<and> no_prefix e" "foreign_ranges ?log ?new"
    by (simp_all add: none no_prefix_def foreign_ranges_def decoded_def List.map_filter_simps)
  ultimately show ?thesis unfolding all by (intro buildRequest_cached) simp_all
qed

end
