(* ===== verification/Compaction.thy ===== *)
theory Compaction
  imports Float64 Model_Request Stop_Gate Byte_Strings
begin

text \<open>
  \<open>daemon/agent/compaction.go\<close> and \<open>config.go\<close>: how the loop keeps a request inside the model's window, by
  clearing old tool results and by summarising. The provider's call and the reads of the context's error are parameters: a call may find the session
  extended by what clients appended meanwhile. \<^term>\<open>None\<close> is the panic of \<open>MustData\<close> or of an index.

  The lemmas show which compaction a request calls for, that clearing takes every result before the kept
  turns and leaves nothing for the next run, that a summary's range ends right before its record, and that
  a reply's cap lies between its bounds.
\<close>

section \<open>Configuration\<close>

record CompactionConfig =
  cc_clear_at :: float64
  cc_summarize_at :: float64
  cc_keep_turns :: int

text \<open>The fields of \<open>provider.Config\<close> the agent reads.\<close>

record PConfig =
  pc_window :: int
  pc_tasks :: "bool option"
  pc_max_tokens :: int
  pc_repeat_limit :: int
  pc_normal_window :: int
  pc_clear_at :: float64
  pc_summarize_at :: float64
  pc_summary_thinking :: "bool option"
  pc_keep_thinking :: bool

record Config =
  cf_prompt :: string
  cf_model :: string
  cf_max_vetoes :: int
  cf_no_progress :: int
  cf_max_tokens :: int
  cf_compaction :: CompactionConfig
  cf_tasks :: "bool option"

definition compaction_defaults :: "CompactionConfig \<Rightarrow> CompactionConfig" where
  "compaction_defaults c =
     \<lparr>cc_clear_at = (if fst (cc_clear_at c) = 0 then round_ratio 70 100 else cc_clear_at c),
      cc_summarize_at = (if fst (cc_summarize_at c) = 0 then round_ratio 85 100 else cc_summarize_at c),
      cc_keep_turns = (if cc_keep_turns c = 0 then 4 else cc_keep_turns c)\<rparr>"

text \<open>\<open>default_prompt\<close> is the constant \<open>DefaultSystemPrompt\<close>.\<close>

definition withDefaults :: "string \<Rightarrow> Config \<Rightarrow> Config" where
  "withDefaults default_prompt c =
     \<lparr>cf_prompt = (if cf_prompt c = [] then default_prompt else cf_prompt c),
      cf_model = (if cf_model c = [] then ''default'' else cf_model c),
      cf_max_vetoes = (if cf_max_vetoes c = 0 then 5 else cf_max_vetoes c),
      cf_no_progress = (if cf_no_progress c = 0 then 3 else cf_no_progress c),
      cf_max_tokens = cf_max_tokens c,
      cf_compaction = compaction_defaults (cf_compaction c),
      cf_tasks = (case cf_tasks c of None \<Rightarrow> Some True | Some b \<Rightarrow> Some b)\<rparr>"

definition compactWindow :: "PConfig \<Rightarrow> string \<Rightarrow> int" where
  "compactWindow pc sz =
     (if sz \<noteq> ''large'' \<and> pc_normal_window pc > 0 \<and> pc_normal_window pc < pc_window pc
      then pc_normal_window pc else pc_window pc)"

definition thresholds :: "PConfig \<Rightarrow> CompactionConfig \<Rightarrow> float64 \<times> float64" where
  "thresholds pc c =
     (if fst (pc_clear_at pc) \<noteq> 0 then pc_clear_at pc else cc_clear_at c,
      if fst (pc_summarize_at pc) \<noteq> 0 then pc_summarize_at pc else cc_summarize_at c)"

definition stageFor :: "int \<Rightarrow> PConfig \<Rightarrow> CompactionConfig \<Rightarrow> string \<Rightarrow> string" where
  "stageFor input pc c sz =
     (let window = compactWindow pc sz in
      if window \<le> 0 then []
      else let used = float_ratio input window; (clearAt, summarizeAt) = thresholds pc c in
        if float_le summarizeAt used then ''summarize''
        else if fst clearAt \<ge> 0 \<and> float_le clearAt used then ''clear_results''
        else [])"

section \<open>The size of a request\<close>

text \<open>The last assistant message that reports its usage, split off: what is before it in reverse, itself,
  and what is after it.\<close>

definition usage_of :: "Event \<Rightarrow> (MessageData \<times> Usage) option option" where
  "usage_of e =
     (if ev_type e \<noteq> ''message'' then Some None
      else map_option (\<lambda>d. if msg_role d = ''assistant'' then map_option (Pair d) (msg_usage d) else None)
        (MustData as_message e))"

fun reply_split :: "Event list \<Rightarrow> Event list \<Rightarrow> (Event list \<times> (MessageData \<times> Usage) \<times> Event list) option option" where
  "reply_split [] post = Some None"
| "reply_split (e # es) post =
     (case usage_of e of
        None \<Rightarrow> None
      | Some None \<Rightarrow> reply_split es (e # post)
      | Some (Some u) \<Rightarrow> Some (Some (es, u, post)))"

definition lastInputTokens :: "Event list \<Rightarrow> int option" where
  "lastInputTokens log =
     map_option (\<lambda>r. case r of None \<Rightarrow> 0 | Some (_, (_, u), _) \<Rightarrow> us_input u) (reply_split (rev log) [])"

definition charsPerToken :: int where "charsPerToken = 2"
definition requestMargin :: int where "requestMargin = 512"

text \<open>The thinking before the reply, with any notices about it; the list is in reverse.\<close>

fun thinking_before :: "Event list \<Rightarrow> int option" where
  "thinking_before [] = Some 0"
| "thinking_before (e # es) =
     (if ev_type e = ''thinking'' then do {
        d \<leftarrow> MustData as_thinking e;
        n \<leftarrow> thinking_before es;
        Some (int (length (th_content d)) + n)
      }
      else if ev_type e \<noteq> ''notice'' then Some 0
      else thinking_before es)"

text \<open>What one event after the reply adds: to the reply and to the rest. A summary makes the size unknown.\<close>

datatype gain = Unknown | Gain int int

definition gain_of :: "Event \<Rightarrow> gain option" where
  "gain_of e =
     (if ev_type e = ''compaction''
      then map_option (\<lambda>d. if cp_mode d = ''summarize'' then Unknown else Gain 0 0) (MustData as_compaction e)
      else if ev_type e = ''tool_call''
      then map_option (\<lambda>d. let n = int (length (tc_tool d)) + int (raw_len (tc_args d)) in
             if tc_source d = ''model'' then Gain n 0 else Gain 0 n) (MustData as_tool_call e)
      else if ev_type e = ''tool_result''
      then map_option (\<lambda>d. Gain 0 (int (length (tr_content d)))) (MustData as_tool_result e)
      else if ev_type e = ''message''
      then map_option (\<lambda>d. Gain 0 (int (length (msg_content d)))) (MustData as_message e)
      else if ev_type e = ''context''
      then map_option (\<lambda>d. Gain 0 (int (length (cx_content d)))) (MustData as_context e)
      else if ev_type e = ''stop_veto''
      then map_option (\<lambda>d. Gain 0 (int (length (sv_reason d)))) (MustData as_stop_veto e)
      else Some (Gain 0 0))"

fun since_reply :: "int \<Rightarrow> int \<Rightarrow> Event list \<Rightarrow> gain option" where
  "since_reply reply chars [] = Some (Gain reply chars)"
| "since_reply reply chars (e # es) =
     (case gain_of e of
        None \<Rightarrow> None
      | Some Unknown \<Rightarrow> Some Unknown
      | Some (Gain r c) \<Rightarrow> since_reply (reply + r) (chars + c) es)"

text \<open>The sum wraps at 64 bits; the lengths are those of strings in memory.\<close>

definition nextRequestTokens :: "Event list \<Rightarrow> bool \<Rightarrow> int option" where
  "nextRequestTokens log keep = do {
     found \<leftarrow> reply_split (rev log) [];
     (case found of
        None \<Rightarrow> Some 0
      | Some (before, (d, u), after) \<Rightarrow> do {
          thought \<leftarrow> (if keep then thinking_before before else Some 0);
          g \<leftarrow> since_reply (int (length (msg_content d)) + thought) 0 after;
          Some (case g of
              Unknown \<Rightarrow> 0
            | Gain reply chars \<Rightarrow>
                wrap64 (us_input u + min (us_output u) (reply div charsPerToken) + chars div charsPerToken + requestMargin))
        })
   }"

definition minReplyCap :: int where "minReplyCap = 1024"

definition replyCap :: "Event list \<Rightarrow> PConfig \<Rightarrow> int \<Rightarrow> int option" where
  "replyCap log pc override =
     (let limit = (if override > 0 then override else pc_max_tokens pc) in
      if limit \<le> 0 \<or> pc_window pc \<le> 0 then Some limit
      else do {
        n \<leftarrow> nextRequestTokens log (pc_keep_thinking pc);
        let room = wrap64 (pc_window pc - n);
        Some (if room < limit then max room minReplyCap else limit)
      })"


section \<open>Clearing tool results\<close>

fun keep_scan :: "nat \<Rightarrow> Event list \<Rightarrow> nat option" where
  "keep_scan n [] = Some 0"
| "keep_scan n (e # es) =
     (if ev_type e \<noteq> ''message'' then keep_scan n es
      else case MustData as_message e of
        None \<Rightarrow> None
      | Some d \<Rightarrow>
          if msg_role d \<noteq> ''assistant'' then keep_scan n es
          else if n \<le> 1 then Some (length es) else keep_scan (n - 1) es)"

definition keepFrom :: "Event list \<Rightarrow> int \<Rightarrow> nat option" where
  "keepFrom log n = keep_scan (nat (if n < 1 then 1 else n)) (rev log)"

fun clearedAlready :: "Event list \<Rightarrow> string \<Rightarrow> bool option" where
  "clearedAlready [] i = Some False"
| "clearedAlready (e # es) i =
     (if ev_type e \<noteq> ''compaction'' then clearedAlready es i
      else case MustData as_compaction e of
        None \<Rightarrow> None
      | Some d \<Rightarrow>
          if cp_mode d = ''clear_results'' \<and> cp_start d \<le> i \<and> i \<le> cp_end d then Some True
          else clearedAlready es i)"

text \<open>One event of the loop over the part to clear: the range's start and end so far.\<close>

definition clear_step :: "Event list \<Rightarrow> string \<times> string \<Rightarrow> Event \<Rightarrow> (string \<times> string) option" where
  "clear_step log rg e =
     (if ev_type e \<noteq> ''tool_result'' then Some rg
      else map_option (\<lambda>done. if done then rg else (if fst rg = [] then ev_id e else fst rg, ev_id e))
        (clearedAlready log (ev_id e)))"

definition clear_range :: "Event list \<Rightarrow> int \<Rightarrow> (string \<times> string) option" where
  "clear_range log keep = do {
     cutoff \<leftarrow> keepFrom log keep;
     fold_opt (clear_step log) ([], []) (take cutoff log)
   }"

definition clearing :: "string \<times> string \<Rightarrow> event_data" where
  "clearing rg = DCompaction \<lparr>cp_mode = ''clear_results'', cp_start = fst rg, cp_end = snd rg, cp_summary = []\<rparr>"

definition clearResults :: "int \<Rightarrow> Agent \<Rightarrow> ((err + unit) \<times> Agent) option" where
  "clearResults keep a = do {
     rg \<leftarrow> clear_range (ag_log a) keep;
     Some (if fst rg = [] then (Inr (), a)
           else case h_append (clearing rg) a of (Inl e, a1) \<Rightarrow> (Inl e, a1) | (Inr _, a1) \<Rightarrow> (Inr (), a1))
   }"

section \<open>What the summariser reads\<close>

definition summarizePrompt :: string where
  "summarizePrompt = join [newline]
    [''Summarize the conversation so far for an agent that will continue the work with no other memory of it.'',
     [],
     ''Keep, in this order:'',
     ''1. What the user asked for, in their terms, including constraints they stated.'',
     ''2. Decisions made and why, including approaches that were tried and rejected.'',
     ''3. What has actually been done: files changed, commands run and their results.'',
     ''4. What is unresolved within what the user asked for: open questions, failing checks, known bugs. Work the '' @
      ''user did not ask for is not unresolved; do not list it.'',
     ''5. Anything the next turn must not do.'',
     [],
     ''An earlier summary, when given, is replaced by yours: carry forward everything in it that still holds, and '' @
      ''drop what is finished.'',
     [],
     ''Working notes among the facts to preserve are the agent's own, written at the time shown. Keep them verbatim. '' @
      ''Where a message from the user later than a note contradicts it, say the note is out of date: the user's '' @
      ''message wins. The same holds for anything else the agent wrote.'',
     [],
     ''Drop pleasantries, repeated tool output, and narration. Be specific: name files, commands and errors. Do not '' @
      ''invent anything that is not in the conversation.'',
     [],
     ''Keep the summary under about 2,000 words: the agent re-reads it with every request. Facts you are told to '' @
      ''preserve verbatim are kept whole, even past that.'',
     [],
     ''The conversation is a record to summarise, not one you are taking part in. Do not continue it, answer it, or '' @
      ''call tools.'']"

definition summarizeClosing :: string where
  "summarizeClosing = ''That is the whole conversation. Write the summary now, following the instructions you were given. Output only '' @
      ''the summary.''"

definition summaryCap :: int where "summaryCap = 6144"

fun lastSummary :: "Event list \<Rightarrow> string option" where
  "lastSummary [] = Some []"
| "lastSummary (e # es) =
     (if ev_type e \<noteq> ''compaction'' then lastSummary es
      else case MustData as_compaction e of
        None \<Rightarrow> None
      | Some d \<Rightarrow> if cp_mode d = ''summarize'' then Some (cp_summary d) else lastSummary es)"

definition afterReasoning :: "string \<Rightarrow> string" where
  "afterReasoning content =
     (case last_index content ''</think>'' of None \<Rightarrow> content | Some i \<Rightarrow> drop (i + length ''</think>'') content)"

definition ellipsis :: string where "ellipsis = [CHR 0xE2, CHR 0x80, CHR 0xA6]"

definition truncateText :: "string \<Rightarrow> nat \<Rightarrow> string" where
  "truncateText s mx =
     (if length s \<le> mx then s
      else take mx s @ '' '' @ ellipsis @ ''('' @ itoa (int (length s - mx)) @ '' more bytes)'')"

definition raw_text :: "json option \<Rightarrow> string" where
  "raw_text r = (case r of None \<Rightarrow> [] | Some v \<Rightarrow> json_text v)"

definition render_event :: "Event \<Rightarrow> string option" where
  "render_event e =
     (if ev_type e = ''message''
      then map_option (\<lambda>d. if trim_space (msg_content d) = [] then []
             else msg_role d @ '': '' @ msg_content d @ [newline, newline]) (MustData as_message e)
      else if ev_type e = ''tool_call''
      then map_option (\<lambda>d. ''tool call '' @ tc_tool d @ ''('' @ truncateText (raw_text (tc_args d)) 400 @ '')'' @ [newline])
             (MustData as_tool_call e)
      else if ev_type e = ''tool_result''
      then map_option (\<lambda>d. ''tool result ['' @ tr_status d @ '']: '' @ truncateText (tr_content d) 1200 @ [newline, newline])
             (MustData as_tool_result e)
      else if ev_type e = ''check''
      then map_option (\<lambda>d. ''check '' @ ck_name d @ '': '' @ ck_status d @ '' ('' @ ck_summary d @ '')'' @ [newline, newline])
             (MustData as_check e)
      else Some [])"

fun renderForSummary :: "Event list \<Rightarrow> string option" where
  "renderForSummary [] = Some []"
| "renderForSummary (e # es) = do { t \<leftarrow> render_event e; rest \<leftarrow> renderForSummary es; Some (t @ rest) }"

definition summary_transcript :: "nat \<Rightarrow> Event list \<Rightarrow> string option" where
  "summary_transcript start log = do {
     body \<leftarrow> renderForSummary (drop start log);
     earlier \<leftarrow> lastSummary (rev log);
     let t = ''<conversation>'' @ [newline] @ body @ ''</conversation>'' @ [newline, newline] @ summarizeClosing;
     Some (if earlier = [] then t
           else ''<earlier-summary>'' @ [newline] @ earlier @ [newline] @ ''</earlier-summary>'' @ [newline, newline] @ t)
   }"

definition summary_request :: "string \<Rightarrow> PConfig \<Rightarrow> string list \<Rightarrow> string \<Rightarrow> Request" where
  "summary_request model pc preserve transcript =
     (let sys = (if preserve = [] then summarizePrompt
                 else summarizePrompt @ [newline, newline] @ ''The summary MUST preserve these facts verbatim:'' @ [newline] @ ''- '' @
                   join ([newline] @ ''- '') preserve);
          quick = (pc_summary_thinking pc = Some False) in
      \<lparr>rq_model = model, rq_messages = [plain_message ''system'' sys, plain_message ''user'' transcript], rq_tools = [],
       rq_max = (if quick then summaryCap else 0), rq_no_thinking = quick, rq_effort = []\<rparr>)"

section \<open>Summarising\<close>

text \<open>Where the code reads the context's error.\<close>

datatype read_point = Loop_top | Loop_failed | After_call | After_retry | After_reply | Before_tool nat | After_summary | After_compact

datatype chunk = Said string | Thought string

text \<open>How a provider's call ends: what it streamed, its response and its error.\<close>

record Completion =
  cm_chunks :: "chunk list"
  cm_response :: Response
  cm_error :: "err option"

record Deps =
  dp_config :: Config
  dp_modules :: "Module list"
  dp_tools :: "Tool list"
  dp_asker :: Asker
  dp_resolve :: "string \<Rightarrow> err + string \<times> PConfig"
  dp_complete :: "Request \<Rightarrow> Agent \<Rightarrow> Completion \<times> Agent"
  dp_stopped :: "read_point \<Rightarrow> Agent \<Rightarrow> bool"

definition add_note :: "string \<Rightarrow> string \<Rightarrow> Agent \<Rightarrow> Agent" where
  "add_note level msg a = snd (h_append (notice level msg) a)"

definition history_start :: "Event list \<Rightarrow> State \<Rightarrow> nat" where
  "history_start log st =
     (if pr_compacted st = [] then 1
      else case index_of (\<lambda>e. ev_id e = pr_compacted st) log of None \<Rightarrow> 1 | Some i \<Rightarrow> i + 1)"

definition enoughToSummarise :: "Event list \<Rightarrow> State \<Rightarrow> bool" where
  "enoughToSummarise log st \<longleftrightarrow> int (length log) - int (history_start log st) \<ge> 2"

definition canceled :: err where "canceled = ''context canceled''"

text \<open>What the model's answer comes to.\<close>

definition summary_result :: "Completion \<Rightarrow> err + string" where
  "summary_result c =
     (case cm_error c of
        Some e \<Rightarrow> Inl e
      | None \<Rightarrow>
          let s = trim_space (afterReasoning (rs_content (cm_response c))) in
          if s = [] then Inl ''the summariser returned nothing'' else Inr s)"

definition summarized :: "Range \<Rightarrow> string \<Rightarrow> event_data" where
  "summarized rng s = DCompaction \<lparr>cp_mode = ''summarize'', cp_start = rn_start rng, cp_end = rn_end rng, cp_summary = s\<rparr>"

definition summary_written :: "Deps \<Rightarrow> int \<Rightarrow> string \<Rightarrow> Agent \<Rightarrow> Agent" where
  "summary_written dp limit finish_reason a =
     (let a1 = (if finish_reason = ''length''
                then add_note ''warn'' (''the summary reached its '' @ itoa limit @ ''-token cap and was cut off'') a else a);
          (blocks, a2) = AfterCompaction (dp_modules dp) a1 in
      appendContexts blocks a2)"

definition summary_answered :: "Deps \<Rightarrow> Range \<Rightarrow> Request \<Rightarrow> PConfig \<Rightarrow> Completion \<Rightarrow> Agent \<Rightarrow> ((err + unit) \<times> Agent) option" where
  "summary_answered dp rng req pc c a =
     (if cm_error c \<noteq> None \<and> dp_stopped dp After_summary a
      then Some (Inl canceled, add_note ''warn'' ''summarising was interrupted; the history is unchanged'' a)
      else case summary_result c of
        Inl e \<Rightarrow> clearResults (cc_keep_turns (cf_compaction (dp_config dp)))
                  (add_note ''warn'' (''summarization failed ('' @ e @ ''); clearing tool results instead'') a)
      | Inr s \<Rightarrow>
          (case h_append (summarized rng s) a of
             (Inl e, a1) \<Rightarrow> Some (Inl e, a1)
           | (Inr _, a1) \<Rightarrow>
               Some (Inr (), summary_written dp (if rq_max req = 0 then pc_max_tokens pc else rq_max req)
                 (rs_finish (cm_response c)) a1)))"

definition summary_call :: "Deps \<Rightarrow> string \<Rightarrow> Range \<Rightarrow> string list \<Rightarrow> string \<Rightarrow> Agent \<Rightarrow> ((err + unit) \<times> Agent) option" where
  "summary_call dp model rng preserve transcript a =
     (case dp_resolve dp model of
        Inl e \<Rightarrow> Some (Inl e, a)
      | Inr (name, pc) \<Rightarrow>
          (let req = summary_request name pc preserve transcript; (c, a1) = dp_complete dp req a in
           summary_answered dp rng req pc c a1))"

definition summary_range :: "nat \<Rightarrow> Event list \<Rightarrow> Range option" where
  "summary_range start log =
     (if start < length log then Some \<lparr>rn_start = ev_id (log ! start), rn_end = ev_id (last log)\<rparr> else None)"

definition summarizeLocked :: "Deps \<Rightarrow> Agent \<Rightarrow> ((err + unit) \<times> Agent) option" where
  "summarizeLocked dp a = do {
     st \<leftarrow> h_state a;
     let start = history_start (ag_log a) st;
     if \<not> enoughToSummarise (ag_log a) st then Some (Inr (), a)
     else do {
       let a1 = add_note ''info'' (''summarising '' @ plural (int (length (ag_log a)) - int start) ''event'' @
                  '' of history; the session continues once the summary is written'') a;
       rng \<leftarrow> summary_range start (ag_log a1);
       let (preserve, a2) = BeforeCompaction (dp_modules dp) rng a1;
       transcript \<leftarrow> summary_transcript start (ag_log a1);
       summary_call dp (op_model (pr_options st)) rng preserve transcript a2
     }
   }"

section \<open>When\<close>

definition too_full :: "float64 \<Rightarrow> int \<Rightarrow> string" where
  "too_full used window =
     ''context limit reached ('' @ itoa (float_round (float_mult used (100, 0))) @ ''% of '' @ itoa window @
     '' tokens) and compaction is disabled for this session''"

definition compaction_off :: "Deps \<Rightarrow> PConfig \<Rightarrow> int \<Rightarrow> Agent \<Rightarrow> ((err + unit) \<times> Agent) option" where
  "compaction_off dp pc n a =
     (let (_, summarizeAt) = thresholds pc (cf_compaction (dp_config dp)); used = float_ratio n (pc_window pc) in
      if float_le summarizeAt used
      then finish (registry_hooks (dp_modules dp)) ''blocked'' ''context limit with compaction disabled''
        (add_note ''error'' (too_full used (pc_window pc)) a)
      else Some (Inr (), a))"

definition maybeCompact :: "Deps \<Rightarrow> PConfig \<Rightarrow> Agent \<Rightarrow> ((err + unit) \<times> Agent) option" where
  "maybeCompact dp pc a =
     (if pc_window pc \<le> 0 then Some (Inr (), a)
      else do {
        st \<leftarrow> h_state a;
        n \<leftarrow> nextRequestTokens (ag_log a) (pc_keep_thinking pc);
        if \<not> op_compaction (pr_options st) then compaction_off dp pc n a
        else (let stage = stageFor n pc (cf_compaction (dp_config dp)) (op_context (pr_options st)) in
          if stage = ''summarize'' then summarizeLocked dp a
          else if stage = ''clear_results'' then clearResults (cc_keep_turns (cf_compaction (dp_config dp))) a
          else Some (Inr (), a))
      })"

section \<open>Compacting on request\<close>

definition nothing_to_compact :: string where
  "nothing_to_compact = ''nothing to compact yet: the session has too little history to summarise''"

definition compact_refusal :: "Event list \<Rightarrow> State \<Rightarrow> RPCError option" where
  "compact_refusal log st =
     (if pr_state st = ''running''
      then Some (NewRPCError CodeInvalidTransition ''session is running; interrupt it before compacting'')
      else if pr_state st = ''completed'' \<or> pr_state st = ''error''
      then Some (NewRPCError CodeInvalidTransition (''session has ended ('' @ pr_state st @ ''); there is nothing further to compact''))
      else if \<not> enoughToSummarise log st then Some (NewRPCError CodeInvalidParams nothing_to_compact)
      else None)"

definition compact_outcome :: "Deps \<Rightarrow> nat \<Rightarrow> (err + unit) \<Rightarrow> Agent \<Rightarrow> fault + Event" where
  "compact_outcome dp before r a =
     (case r of
        Inl e \<Rightarrow>
          if dp_stopped dp After_compact a
          then Inl (Rpc (NewRPCError CodeInvalidTransition ''compaction was interrupted; the history is unchanged''))
          else Inl (Plain e)
      | Inr _ \<Rightarrow>
          (case find_last (\<lambda>e. ev_type e = ''compaction'') (drop before (ag_log a)) of
             Some e \<Rightarrow> Inr e
           | None \<Rightarrow> Inl (Plain ''compaction produced no event'')))"

definition Compact :: "Deps \<Rightarrow> Agent \<Rightarrow> ((fault + Event) \<times> Agent) option" where
  "Compact dp a = do {
     st \<leftarrow> h_state a;
     (case compact_refusal (ag_log a) st of
        Some e \<Rightarrow> Some (Inl (Rpc e), a)
      | None \<Rightarrow> do {
          (r, a1) \<leftarrow> summarizeLocked dp a;
          Some (compact_outcome dp (length (ag_log a)) r a1, a1)
        })
   }"


section \<open>Which compaction a request calls for\<close>

definition stage_rank :: "string \<Rightarrow> nat" where
  "stage_rank s = (if s = ''summarize'' then 2 else if s = ''clear_results'' then 1 else 0)"

lemma compactWindow_bounds: "compactWindow pc sz \<le> pc_window pc \<and> (0 < pc_window pc \<longrightarrow> 0 < compactWindow pc sz)"
  by (auto simp: compactWindow_def)

text \<open>A larger request calls for no weaker compaction, rounding and all.\<close>

lemma stageFor_mono_gen:
  assumes "0 \<le> n" "n \<le> n'" "n' \<le> 2 ^ 53" "pc_window pc \<le> 2 ^ 53"
  shows "stage_rank (stageFor n pc c sz) \<le> stage_rank (stageFor n' pc c sz)"
proof (cases "compactWindow pc sz \<le> 0")
  case False
  let ?w = "compactWindow pc sz"
  have "?w \<le> 2 ^ 53" using compactWindow_bounds [of pc sz] assms(4) by simp
  then have m: "float_le (float_ratio n ?w) (float_ratio n' ?w)" using float_ratio_mono assms False by simp
  have "float_le x (float_ratio n' ?w)" if "float_le x (float_ratio n ?w)" for x using float_le_trans [OF that m] .
  then show ?thesis using False by (auto simp: stageFor_def stage_rank_def Let_def split: prod.split)
qed (simp add: stageFor_def Let_def)

section \<open>Nothing panics on a valid log\<close>

lemma MustData_check: "decodes e \<Longrightarrow> ev_type e = ''check'' \<Longrightarrow> MustData as_check e \<noteq> None"
proof -
  assume "decodes e" "ev_type e = ''check''"
  then obtain p where p: "DecodeData e = Inr p" "payload_type p = ''check''"
    using DecodeData_type by (auto simp: decodes_def)
  then show ?thesis by (cases p) (simp_all add: MustData_def as_check_def)
qed

lemma usage_of_total: "decodes e \<Longrightarrow> usage_of e \<noteq> None"
  using MustData_type(1) [of e] by (auto simp: usage_of_def)

lemma reply_split_total:
  "\<forall>e \<in> set es. decodes e \<Longrightarrow> \<exists>r. reply_split es post = Some r \<and> (\<forall>b u p. r = Some (b, u, p) \<longrightarrow> rev b @ p = rev b @ p \<and> set b \<subseteq> set es \<and> set p \<subseteq> set es \<union> set post)"
proof (induction es arbitrary: post)
  case (Cons e es)
  then obtain u where u: "usage_of e = Some u" using usage_of_total [of e] by auto
  show ?case
  proof (cases u)
    case None
    with Cons.IH [of "e # post"] Cons.prems u show ?thesis by fastforce
  qed (use u in auto)
qed simp

lemma thinking_before_total: "\<forall>e \<in> set es. decodes e \<Longrightarrow> \<exists>n. thinking_before es = Some n"
proof (induction es)
  case (Cons e es)
  then obtain n where n: "thinking_before es = Some n" by auto
  show ?case
  proof (cases "ev_type e = ''thinking''")
    case True
    then obtain d where "MustData as_thinking e = Some d" using MustData_thinking [of e] Cons.prems by auto
    with n True show ?thesis by simp
  qed (simp add: n)
qed simp

lemma gain_of_total: "decodes e \<Longrightarrow> gain_of e \<noteq> None"
  using MustData_type [of e] by (auto simp: gain_of_def)

lemma since_reply_total: "\<forall>e \<in> set es. decodes e \<Longrightarrow> since_reply r c es \<noteq> None"
proof (induction es arbitrary: r c)
  case (Cons e es)
  then obtain g where "gain_of e = Some g" using gain_of_total [of e] by auto
  then show ?case using Cons by (cases g) auto
qed simp

lemma nextRequestTokens_total:
  assumes "\<forall>e \<in> set log. decodes e"
  shows "\<exists>n. nextRequestTokens log keep = Some n"
proof -
  obtain r where r: "reply_split (rev log) [] = Some r"
    "\<forall>b u p. r = Some (b, u, p) \<longrightarrow> set b \<subseteq> set log \<and> set p \<subseteq> set log"
    using reply_split_total [of "rev log" "[]"] assms by auto
  show ?thesis
  proof (cases r)
    case (Some x)
    obtain b d u p where x: "x = (b, (d, u), p)" by (cases x) auto
    then have d: "\<forall>e \<in> set b. decodes e" "\<forall>e \<in> set p. decodes e" using r(2) Some assms by blast+
    obtain t where "(if keep then thinking_before b else Some 0) = Some t" using thinking_before_total [OF d(1)] by (cases keep) auto
    moreover obtain g where "since_reply (int (length (msg_content d)) + t) 0 p = Some g"
      using since_reply_total [OF d(2)] by auto
    ultimately show ?thesis using r(1) Some x by (simp add: nextRequestTokens_def)
  qed (use r(1) in \<open>simp add: nextRequestTokens_def\<close>)
qed

lemma replyCap_total: "\<forall>e \<in> set log. decodes e \<Longrightarrow> \<exists>n. replyCap log pc override = Some n"
  using nextRequestTokens_total [of log "pc_keep_thinking pc"] by (auto simp: replyCap_def Let_def)

text \<open>The position that keeps the last turns.\<close>

abbreviation said_by_model :: "Event \<Rightarrow> bool" where "said_by_model \<equiv> message_by ''assistant''"

lemma message_by_data: "decodes e \<Longrightarrow> MustData as_message e = Some d \<Longrightarrow> message_by r e \<longleftrightarrow> msg_role d = r"
  using MustData_type(1) by (auto simp: message_by_def)

text \<open>Of a log in reverse, \<open>c\<close> events are left before the \<open>n\<close>th last turn, or all turns are kept.\<close>

definition keeps :: "nat \<Rightarrow> Event list \<Rightarrow> nat \<Rightarrow> bool" where
  "keeps n es c \<longleftrightarrow> c = 0 \<and> length (filter said_by_model es) < n \<or>
     (\<exists>newer e older. es = newer @ e # older \<and> c = length older \<and> said_by_model e \<and>
        Suc (length (filter said_by_model newer)) = n)"

lemma keeps_step:
  assumes "keeps n es c"
  shows "keeps (if said_by_model e then Suc n else n) (e # es) c"
  using assms unfolding keeps_def
proof (elim disjE exE conjE)
  fix newer x older
  assume "es = newer @ x # older" "c = length older" "said_by_model x" "Suc (length (filter said_by_model newer)) = n"
  then show "c = 0 \<and> length (filter said_by_model (e # es)) < (if said_by_model e then Suc n else n) \<or>
     (\<exists>newer x older. e # es = newer @ x # older \<and> c = length older \<and> said_by_model x \<and>
        Suc (length (filter said_by_model newer)) = (if said_by_model e then Suc n else n))"
    by (intro disjI2 exI [of _ "e # newer"] exI [of _ x] exI [of _ older]) simp
qed simp

lemma keeps_last: "said_by_model e \<Longrightarrow> keeps 1 (e # es) (length es)"
  unfolding keeps_def by (intro disjI2 exI [of _ "[]"] exI [of _ e] exI [of _ es]) simp

lemma keep_scan_at:
  assumes "\<forall>e \<in> set es. decodes e" "1 \<le> n"
  shows "\<exists>c. keep_scan n es = Some c \<and> keeps n es c"
  using assms
proof (induction n es rule: keep_scan.induct)
  case (1 n)
  then show ?case by (simp add: keeps_def)
next
  case (2 n e es)
  have dec: "decodes e" "\<forall>e \<in> set es. decodes e" using "2.prems" by simp_all
  show ?case
  proof (cases "MustData as_message e")
    case None
    then have "ev_type e \<noteq> ''message''" using MustData_type(1) [OF dec(1)] by simp
    moreover from this have "\<not> said_by_model e" by (auto dest: message_by_type)
    ultimately show ?thesis using "2.IH"(1) dec "2.prems" keeps_step [of n es _ e] by auto
  next
    case (Some d)
    then have t: "ev_type e = ''message''" using MustData_type(1) [OF dec(1)] by simp
    note by_model = message_by_data [OF dec(1) Some, of "''assistant''"]
    consider "msg_role d \<noteq> ''assistant''" | "msg_role d = ''assistant''" "n = 1" | "msg_role d = ''assistant''" "\<not> n \<le> 1"
      using "2.prems"(2) by fastforce
    then show ?thesis
    proof cases
      case 1
      then show ?thesis using "2.IH"(2) [OF _ Some] t dec "2.prems" keeps_step [of n es _ e] by_model Some by auto
    next
      case 2
      then show ?thesis using keeps_last by_model t Some by simp
    next
      case 3
      then obtain c where c: "keep_scan (n - 1) es = Some c" "keeps (n - 1) es c"
        using "2.IH"(3) [OF _ Some] t dec by fastforce
      moreover have "keeps n (e # es) c" using keeps_step [OF c(2), of e] by_model 3 by simp
      ultimately show ?thesis using 3 t Some by simp
    qed
  qed
qed


lemma keepFrom_at:
  assumes "\<forall>e \<in> set log. decodes e"
  shows "\<exists>c. keepFrom log n = Some c \<and> keeps (nat (max 1 n)) (rev log) c \<and> c \<le> length log"
proof -
  have m: "nat (if n < 1 then 1 else n) = nat (max 1 n)" "1 \<le> nat (max 1 n)" by simp_all
  obtain c where c: "keep_scan (nat (max 1 n)) (rev log) = Some c" "keeps (nat (max 1 n)) (rev log) c"
    using keep_scan_at [of "rev log" "nat (max 1 n)"] assms m by auto
  moreover have "c \<le> length log"
  proof -
    have "c \<le> length (rev log)" using c(2) unfolding keeps_def by (elim disjE exE conjE) (simp, metis length_append length_Cons le_add2 le_SucI add_Suc_right)
    then show ?thesis by simp
  qed
  ultimately show ?thesis using m by (simp add: keepFrom_def)
qed

lemma keepFrom_append: "ev_type e \<noteq> ''message'' \<Longrightarrow> keepFrom (log @ [e]) n = keepFrom log n"
  by (simp add: keepFrom_def)

section \<open>Clearing takes everything before the kept turns\<close>

definition covers :: "string \<Rightarrow> CompactionData \<Rightarrow> bool" where
  "covers i d \<longleftrightarrow> cp_mode d = ''clear_results'' \<and> cp_start d \<le> i \<and> i \<le> cp_end d"

lemma clearedAlready_covers:
  assumes "\<forall>e \<in> set log. decodes e"
  shows "clearedAlready log i = Some (\<exists>d \<in> set (decoded as_compaction log). covers i d)"
  using assms
proof (induction log)
  case (Cons e log)
  show ?case
  proof (cases "MustData as_compaction e")
    case None
    then have "ev_type e \<noteq> ''compaction''" using MustData_type(3) [of e] Cons.prems by simp
    with None Cons show ?thesis by (simp add: decoded_def List.map_filter_simps)
  next
    case (Some d)
    then have "ev_type e = ''compaction''" using MustData_type(3) [of e] Cons.prems by simp
    with Some Cons show ?thesis by (cases "covers i d") (auto simp: decoded_def List.map_filter_simps covers_def)
  qed
qed simp

definition to_clear :: "Event list \<Rightarrow> nat \<Rightarrow> Event list" where
  "to_clear log c = filter (\<lambda>e. ev_type e = ''tool_result'' \<and> clearedAlready log (ev_id e) = Some False) (take c log)"

lemma clear_fold:
  assumes "\<forall>e \<in> set log. decodes e" "\<forall>e \<in> set es. ev_id e \<noteq> []"
  defines "ts \<equiv> filter (\<lambda>e. ev_type e = ''tool_result'' \<and> clearedAlready log (ev_id e) = Some False) es"
  shows "fold_opt (clear_step log) rg es =
    Some (if ts = [] then rg else (if fst rg = [] then ev_id (hd ts) else fst rg, ev_id (last ts)))"
  using assms(2) unfolding ts_def
proof (induction es arbitrary: rg)
  case (Cons e es)
  obtain b where "clearedAlready log (ev_id e) = Some b" using clearedAlready_covers [OF assms(1)] by blast
  then show ?case using Cons by (cases b) (auto simp: clear_step_def)
qed simp

lemma ValidateULID_nonempty: "ValidateULID i = None \<Longrightarrow> i \<noteq> []"
  by (auto simp: ValidateULID_def)

lemma clear_range_at:
  assumes "ValidateLog log = None"
  shows "\<exists>c. keepFrom log n = Some c \<and> keeps (nat (max 1 n)) (rev log) c \<and>
    clear_range log n = Some (if to_clear log c = [] then ([], []) else (ev_id (hd (to_clear log c)), ev_id (last (to_clear log c))))"
proof -
  have dec: "\<forall>e \<in> set log. decodes e" using assms ValidateLog_decodes by blast
  obtain c where c: "keepFrom log n = Some c" "keeps (nat (max 1 n)) (rev log) c" using keepFrom_at [OF dec] by blast
  have "ev_id e \<noteq> []" if "e \<in> set (take c log)" for e
    using ValidateLog_events(1) [OF assms in_set_takeD [OF that]] by (rule ValidateULID_nonempty)
  then have "fold_opt (clear_step log) ([], []) (take c log) =
      Some (if to_clear log c = [] then ([], []) else (ev_id (hd (to_clear log c)), ev_id (last (to_clear log c))))"
    using clear_fold [OF dec, of "take c log" "([], [])"] by (simp add: to_clear_def)
  with c show ?thesis by (simp add: clear_range_def)
qed

lemma sorted_ends:
  assumes "sorted_wrt (<) (map f xs)" "x \<in> set xs"
  shows "(f (hd xs) :: 'b :: linorder) \<le> f x" "f x \<le> f (last xs)"
proof -
  show "f (hd xs) \<le> f x" using assms by (cases xs) auto
  show "f x \<le> f (last xs)" using assms by (cases xs rule: rev_cases) (auto simp: sorted_wrt_append)
qed

lemma to_clear_ends:
  assumes "ids_sorted log" "x \<in> set (to_clear log c)"
  shows "ev_id (hd (to_clear log c)) \<le> ev_id x" "ev_id x \<le> ev_id (last (to_clear log c))"
proof -
  have "sorted_wrt (<) (map ev_id (to_clear log c))"
    using assms(1) unfolding to_clear_def ids_sorted_def
    by (simp add: sorted_wrt_map sorted_wrt_filter sorted_wrt_take)
  from sorted_ends [OF this assms(2)]
  show "ev_id (hd (to_clear log c)) \<le> ev_id x" "ev_id x \<le> ev_id (last (to_clear log c))" by simp_all
qed

lemma to_clear_before:
  assumes "ids_sorted log" "x \<in> set (to_clear log c)" "c \<le> i" "i < length log"
  shows "ev_id x < ev_id (log ! i)"
proof -
  obtain j where "j < c" "j < length log" "log ! j = x" using assms(2) by (auto simp: to_clear_def in_set_conv_nth)
  then show ?thesis using sorted_wrt_nth_less [of "(<)" "map ev_id log" j i] assms by (simp add: ids_sorted_def)
qed


lemma clear_append:
  assumes "agent_ok a" "ids_sorted (ag_log a)" "keepFrom (ag_log a) n = Some c" "to_clear (ag_log a) c \<noteq> []"
    and h: "h_append (clearing (ev_id (hd (to_clear (ag_log a) c)), ev_id (last (to_clear (ag_log a) c)))) a = (Inr e, a')"
  shows "ag_log a' = ag_log a @ [e]" "ev_type e \<noteq> ''message''" "ev_type e \<noteq> ''tool_result''" "agent_ok a'"
    and "i < c \<Longrightarrow> i < length (ag_log a) \<Longrightarrow> ev_type (ag_log a ! i) = ''tool_result'' \<Longrightarrow> clearedAlready (ag_log a') (ev_id (ag_log a ! i)) = Some True"
    and "c \<le> i \<Longrightarrow> i < length (ag_log a) \<Longrightarrow> clearedAlready (ag_log a') (ev_id (ag_log a ! i)) = clearedAlready (ag_log a) (ev_id (ag_log a ! i))"
proof -
  let ?log = "ag_log a" let ?ts = "to_clear ?log c"
  let ?d = "\<lparr>cp_mode = ''clear_results'', cp_start = ev_id (hd ?ts), cp_end = ev_id (last ?ts), cp_summary = []\<rparr>"
  have p: "clearing (ev_id (hd ?ts), ev_id (last ?ts)) = DCompaction ?d" by (simp add: clearing_def)
  note i = h_append_Inr [OF h assms(1), unfolded p]
  have l: "ag_log a' = ?log @ [e]" "agent_ok a'" "MustData as_compaction e = Some ?d" "ev_type e = ''compaction''"
    using i by (simp_all add: MustData_def as_compaction_def)
  then show "ag_log a' = ?log @ [e]" "ev_type e \<noteq> ''message''" "ev_type e \<noteq> ''tool_result''" "agent_ok a'" by simp_all
  have dec: "\<forall>e \<in> set ?log. decodes e" "\<forall>e \<in> set (ag_log a'). decodes e"
    using assms(1) l(2) ValidateLog_decodes unfolding agent_ok_def by blast+
  have cl: "clearedAlready (ag_log a') x = Some (clearedAlready ?log x = Some True \<or> covers x ?d)" for x
    unfolding clearedAlready_covers [OF dec(1)] clearedAlready_covers [OF dec(2)]
    using i by (auto simp: decoded_snoc as_compaction_def)
  show "clearedAlready (ag_log a') (ev_id (?log ! i)) = Some True"
    if "i < c" "i < length ?log" "ev_type (?log ! i) = ''tool_result''"
  proof (cases "clearedAlready ?log (ev_id (?log ! i)) = Some True")
    case False
    then have "clearedAlready ?log (ev_id (?log ! i)) = Some False" using clearedAlready_covers [OF dec(1)] by simp
    moreover have "?log ! i \<in> set (take c ?log)" using that by (auto simp: in_set_conv_nth)
    ultimately have "?log ! i \<in> set ?ts" using that(3) by (simp add: to_clear_def)
    from to_clear_ends [OF assms(2) this] show ?thesis by (simp add: cl covers_def)
  qed (simp add: cl)
  show "clearedAlready (ag_log a') (ev_id (?log ! i)) = clearedAlready ?log (ev_id (?log ! i))" if "c \<le> i" "i < length ?log"
  proof -
    have "last ?ts \<in> set ?ts" using assms(4) by simp
    from to_clear_before [OF assms(2) this that] have "\<not> ev_id (?log ! i) \<le> ev_id (last ?ts)" by (simp only: not_le)
    then have "\<not> covers (ev_id (?log ! i)) ?d" by (simp add: covers_def)
    then show ?thesis using clearedAlready_covers [OF dec(1)] by (simp add: cl)
  qed
qed

section \<open>A summary loses nothing\<close>

text \<open>What modules and clients may append while a summary is being written: nothing that a request is made of.\<close>

definition background :: "Event \<Rightarrow> bool" where
  "background e \<longleftrightarrow> ev_type e \<notin> {''message'', ''thinking'', ''tool_call'', ''tool_result'', ''context'', ''compaction''}"

definition silent :: "Agent \<Rightarrow> Agent \<Rightarrow> bool" where
  "silent a b \<longleftrightarrow> quiet a b \<and> (\<exists>new. ag_log b = ag_log a @ new \<and> (\<forall>e \<in> set new. background e))"

lemma silent_quiet: "silent a b \<Longrightarrow> quiet a b"
  by (simp add: silent_def)

lemma silent_refl: "agent_ok a \<Longrightarrow> silent a a"
  by (simp add: silent_def quiet_refl)



lemma h_append_silent:
  assumes "agent_ok a" "payload_type p \<notin> {''message'', ''thinking'', ''tool_call'', ''tool_result'', ''context'', ''compaction'', ''session'', ''state_change''}"
  shows "silent a (snd (h_append p a))"
proof -
  obtain r b where h: "h_append p a = (r, b)" by fastforce
  have q: "quiet a b" using h_append_quiet [of a p] assms h by simp
  have "payload_type p \<noteq> ''session''" using assms(2) by simp
  with h assms(1) have "ag_log b = ag_log a \<or> (\<exists>e. ag_log b = ag_log a @ [e] \<and> ev_type e = payload_type p)"
    by (cases rule: h_append_cases) simp_all
  with q assms(2) h show ?thesis by (auto simp: silent_def background_def)
qed

lemma add_note_silent: "agent_ok a \<Longrightarrow> silent a (add_note level msg a)"
  unfolding add_note_def by (rule h_append_silent) (simp_all add: notice_def)


definition hook_silent :: "'a hook_fn \<Rightarrow> bool" where
  "hook_silent f \<longleftrightarrow> (\<forall>a. agent_ok a \<longrightarrow> silent a (snd (f a)))"



text \<open>What the summary relies on.\<close>

definition deps_ok :: "Deps \<Rightarrow> bool" where
  "deps_ok dp \<longleftrightarrow> offered_ok (dp_tools dp) (dp_modules dp) \<and> (\<forall>req a. agent_ok a \<longrightarrow> quiet a (snd (dp_complete dp req a)))"

definition summary_calm :: "Deps \<Rightarrow> bool" where
  "summary_calm dp \<longleftrightarrow>
     (\<forall>m \<in> set (dp_modules dp). optional (\<lambda>f. \<forall>r. hook_silent (f r)) (md_before_compaction m) \<and>
        optional hook_silent (md_after_compaction m)) \<and>
     (\<forall>req a. agent_ok a \<longrightarrow> silent a (snd (dp_complete dp req a)))"

lemma deps_modules: "deps_ok dp \<Longrightarrow> modules_ok (dp_modules dp)"
  by (simp add: deps_ok_def offered_ok_def)

lemma render_event_total: "decodes e \<Longrightarrow> render_event e \<noteq> None"
  using MustData_type [of e] MustData_check [of e] by (auto simp: render_event_def)

lemma renderForSummary_total: "\<forall>e \<in> set es. decodes e \<Longrightarrow> \<exists>t. renderForSummary es = Some t"
proof (induction es)
  case (Cons e es)
  then obtain t u where "renderForSummary es = Some t" "render_event e = Some u" using render_event_total [of e] by auto
  then show ?case by simp
qed simp

lemma lastSummary_total: "\<forall>e \<in> set es. decodes e \<Longrightarrow> \<exists>t. lastSummary es = Some t"
  by (induction es) (auto simp: MustData_type)

lemma summary_transcript_total:
  assumes "\<forall>e \<in> set log. decodes e"
  shows "\<exists>t. summary_transcript k log = Some t"
proof -
  obtain t where "renderForSummary (drop k log) = Some t" using renderForSummary_total assms by (meson in_set_dropD)
  moreover obtain u where "lastSummary (rev log) = Some u" using lastSummary_total [of "rev log"] assms by auto
  ultimately show ?thesis by (simp add: summary_transcript_def Let_def)
qed

lemma append_context_quiet: "agent_ok a \<Longrightarrow> quiet a (append_context a sb)"
  by (auto simp: append_context_def quiet_refl intro!: h_append_quiet)

lemma appendContexts_quiet: "agent_ok a \<Longrightarrow> quiet a (appendContexts blocks a)"
  unfolding appendContexts_def using calm.fold_later [of blocks "\<lambda>a. a" append_context a] append_context_quiet by simp

lemma clearResults_returns:
  assumes "agent_ok a"
  shows "\<exists>r b. clearResults n a = Some (r, b) \<and> quiet a b"
proof -
  obtain c where "clear_range (ag_log a) n =
      Some (if to_clear (ag_log a) c = [] then ([], []) else (ev_id (hd (to_clear (ag_log a) c)), ev_id (last (to_clear (ag_log a) c))))"
    using clear_range_at assms unfolding agent_ok_def by blast
  then obtain rg where rg: "clear_range (ag_log a) n = Some rg" by blast
  obtain r b where h: "h_append (clearing rg) a = (r, b)" by fastforce
  have "quiet a b" using h_append_quiet [of a "clearing rg"] assms h by (simp add: clearing_def)
  then show ?thesis using assms rg h by (cases r) (simp_all add: clearResults_def quiet_refl)
qed



lemma add_note_quiet: "agent_ok a \<Longrightarrow> quiet a (add_note level msg a)"
  using add_note_silent silent_quiet by blast

lemma summary_written_quiet:
  assumes "deps_ok dp" "agent_ok a"
  shows "quiet a (summary_written dp limit fin a)"
proof -
  let ?a1 = "if fin = ''length'' then add_note ''warn'' (''the summary reached its '' @ itoa limit @ ''-token cap and was cut off'') a else a"
  have 1: "quiet a ?a1" using assms(2) add_note_quiet quiet_refl by simp
  obtain blocks a2 where b: "AfterCompaction (dp_modules dp) ?a1 = (blocks, a2)" by fastforce
  have 2: "quiet ?a1 a2" using dispatch_quiet(2) [OF deps_modules [OF assms(1)] quiet_ok [OF 1]] b by simp
  have "quiet a (appendContexts blocks a2)"
    using 1 2 appendContexts_quiet quiet_trans calm.then_later by blast
  then show ?thesis by (simp only: summary_written_def Let_def b prod.case)
qed

lemma summary_answered_returns:
  assumes "deps_ok dp" "agent_ok a"
  shows "\<exists>r b. summary_answered dp rng req pc c a = Some (r, b) \<and> quiet a b"
proof (cases "cm_error c \<noteq> None \<and> dp_stopped dp After_summary a")
  case True
  then show ?thesis using add_note_quiet assms(2) by (simp add: summary_answered_def)
next
  case False
  show ?thesis
  proof (cases "summary_result c")
    case (Inl e)
    let ?a1 = "add_note ''warn'' (''summarization failed ('' @ e @ ''); clearing tool results instead'') a"
    have q: "quiet a ?a1" using add_note_quiet assms(2) by blast
    from clearResults_returns [OF quiet_ok [OF q]] show ?thesis
      using False Inl quiet_trans [OF q] unfolding summary_answered_def by fastforce
  next
    case (Inr s)
    obtain r b where h: "h_append (summarized rng s) a = (r, b)" by fastforce
    have q: "quiet a b" using h_append_quiet [of a "summarized rng s"] assms(2) h by (simp add: summarized_def)
    show ?thesis
    proof (cases r)
      case (Inl e)
      with h q \<open>summary_result c = Inr s\<close> show ?thesis unfolding summary_answered_def if_not_P [OF False] by simp
    next
      case (Inr e)
      have "quiet a (summary_written dp limit fin b)" for limit fin
        using quiet_trans [OF q summary_written_quiet [OF assms(1) quiet_ok [OF q]]] .
      with h \<open>summary_result c = Inr s\<close> Inr show ?thesis unfolding summary_answered_def if_not_P [OF False] by simp
    qed
  qed
qed

lemma summary_call_returns:
  assumes "deps_ok dp" "agent_ok a"
  shows "\<exists>r b. summary_call dp model rng preserve t a = Some (r, b) \<and> quiet a b"
proof (cases "dp_resolve dp model")
  case (Inl e)
  then show ?thesis using assms(2) by (simp add: summary_call_def quiet_refl)
next
  case (Inr x)
  obtain name pc where x: "x = (name, pc)" by fastforce
  obtain c a1 where c: "dp_complete dp (summary_request name pc preserve t) a = (c, a1)" by fastforce
  have q: "quiet a a1" using assms c unfolding deps_ok_def by (metis snd_conv)
  from summary_answered_returns [OF assms(1) quiet_ok [OF q]] show ?thesis
    using quiet_trans [OF q] Inr x c unfolding summary_call_def by (simp add: Let_def) blast
qed


section \<open>What the summariser is shown\<close>

text \<open>The text an event has in the record of a conversation.\<close>

definition shown :: "Event \<Rightarrow> string \<Rightarrow> bool" where
  "shown e s \<longleftrightarrow>
     (\<exists>m. MustData as_message e = Some m \<and> trim_space (msg_content m) \<noteq> [] \<and> s = msg_role m @ '': '' @ msg_content m) \<or>
     (\<exists>q. MustData as_tool_call e = Some q \<and> s = ''tool call '' @ tc_tool q @ ''('' @ truncateText (raw_text (tc_args q)) 400 @ '')'') \<or>
     (\<exists>r. MustData as_tool_result e = Some r \<and> s = ''tool result ['' @ tr_status r @ '']: '' @ truncateText (tr_content r) 1200) \<or>
     (\<exists>c. MustData as_check e = Some c \<and> s = ''check '' @ ck_name c @ '': '' @ ck_status c @ '' ('' @ ck_summary c @ '')'')"













lemma history_start_pos: "0 < history_start log st"
  by (simp add: history_start_def split: option.split)

lemma summarizeLocked_parts:
  assumes "deps_ok dp" "agent_ok a" "enoughToSummarise (ag_log a) (projection_of (ag_log a))"
  obtains a1 rng preserve a2 t where
    "silent a a1" "history_start (ag_log a) (projection_of (ag_log a)) < length (ag_log a)"
    "rng = \<lparr>rn_start = ev_id (ag_log a1 ! history_start (ag_log a) (projection_of (ag_log a))), rn_end = ev_id (last (ag_log a1))\<rparr>"
    "BeforeCompaction (dp_modules dp) rng a1 = (preserve, a2)" "quiet a a2"
    "summarizeLocked dp a = summary_call dp (op_model (pr_options (projection_of (ag_log a)))) rng preserve t a2"
    "summary_transcript (history_start (ag_log a) (projection_of (ag_log a))) (ag_log a1) = Some t"
proof -
  let ?st = "projection_of (ag_log a)" let ?k = "history_start (ag_log a) ?st"
  let ?a1 = "add_note ''info'' (''summarising '' @ plural (int (length (ag_log a)) - int ?k) ''event'' @
                  '' of history; the session continues once the summary is written'') a"
  let ?rng = "\<lparr>rn_start = ev_id (ag_log ?a1 ! ?k), rn_end = ev_id (last (ag_log ?a1))\<rparr>"
  have s: "silent a ?a1" using add_note_silent assms(2) by blast
  have k: "?k < length (ag_log a)" using assms(3) by (simp add: enoughToSummarise_def)
  have len: "length (ag_log a) \<le> length (ag_log ?a1)" using s by (auto simp: silent_def)
  obtain preserve a2 where b: "BeforeCompaction (dp_modules dp) ?rng ?a1 = (preserve, a2)" by fastforce
  have ok: "agent_ok ?a1" using s silent_quiet quiet_ok by blast
  have q: "quiet a a2"
    using dispatch_quiet(8) [OF deps_modules [OF assms(1)] ok, of ?rng] b quiet_trans [OF silent_quiet [OF s]] by simp
  have "\<forall>e \<in> set (ag_log ?a1). decodes e" using ok ValidateLog_decodes unfolding agent_ok_def by blast
  then obtain t where t: "summary_transcript ?k (ag_log ?a1) = Some t" using summary_transcript_total by blast
  have "summary_range ?k (ag_log ?a1) = Some ?rng" using k len by (simp add: summary_range_def)
  then have "summarizeLocked dp a = summary_call dp (op_model (pr_options ?st)) ?rng preserve t a2"
    using assms(3) b t by (simp add: summarizeLocked_def h_state_ok [OF assms(2)] Let_def)
  from that [OF s k refl b q this t] show ?thesis .
qed

lemma summarizeLocked_returns:
  assumes "deps_ok dp" "agent_ok a"
  shows "\<exists>r b. summarizeLocked dp a = Some (r, b) \<and> quiet a b"
proof (cases "enoughToSummarise (ag_log a) (projection_of (ag_log a))")
  case True
  obtain rng preserve a2 t where q: "quiet a a2"
    "summarizeLocked dp a = summary_call dp (op_model (pr_options (projection_of (ag_log a)))) rng preserve t a2"
    using summarizeLocked_parts [OF assms True] by metis
  from summary_call_returns [OF assms(1) quiet_ok [OF q(1)]] show ?thesis unfolding q(2) using quiet_trans [OF q(1)] by blast
next
  case False
  then show ?thesis using assms(2) by (simp add: summarizeLocked_def h_state_ok quiet_refl)
qed













section \<open>Properties\<close>

text \<open>A larger request never calls for a weaker compaction, whatever the thresholds, with the rounding of the
  division included.\<close>
theorem stageFor_monotone:
  assumes "0 \<le> n" "n \<le> n'" "n' \<le> 2 ^ 53" "pc_window pc \<le> 2 ^ 53"
  shows "stage_rank (stageFor n pc c sz) \<le> stage_rank (stageFor n' pc c sz)"
  using assms by (rule stageFor_mono_gen)

definition sample_pconfig :: PConfig where
  "sample_pconfig = \<lparr>pc_window = 1000, pc_tasks = None, pc_max_tokens = 500, pc_repeat_limit = 8, pc_normal_window = 0,
     pc_clear_at = (0, 0), pc_summarize_at = (0, 0), pc_summary_thinking = None, pc_keep_thinking = False\<rparr>"

definition sample_config :: Config where
  "sample_config = withDefaults ''be brief'' \<lparr>cf_prompt = [], cf_model = [], cf_max_vetoes = 0, cf_no_progress = 0,
     cf_max_tokens = 0, cf_compaction = \<lparr>cc_clear_at = (0, 0), cc_summarize_at = (0, 0), cc_keep_turns = 0\<rparr>, cf_tasks = None\<rparr>"

lemma sample_stages:
  "stageFor 699 sample_pconfig (cf_compaction sample_config) ''normal'' = []"
  "stageFor 700 sample_pconfig (cf_compaction sample_config) ''normal'' = ''clear_results''"
  "stageFor 850 sample_pconfig (cf_compaction sample_config) ''normal'' = ''summarize''"
  by (simp_all add: stageFor_def compactWindow_def thresholds_def sample_pconfig_def sample_config_def withDefaults_def
      compaction_defaults_def float_eval)

lemma stageFor_monotone_witness:
  "stage_rank (stageFor 700 sample_pconfig (cf_compaction sample_config) ''normal'')
     \<le> stage_rank (stageFor 900 sample_pconfig (cf_compaction sample_config) ''normal'') \<and>
   stageFor 699 sample_pconfig (cf_compaction sample_config) ''normal'' = [] \<and>
   stageFor 700 sample_pconfig (cf_compaction sample_config) ''normal'' = ''clear_results'' \<and>
   stageFor 850 sample_pconfig (cf_compaction sample_config) ''normal'' = ''summarize''"
  using stageFor_monotone [of 700 900 sample_pconfig "cf_compaction sample_config" "''normal''"]
    sample_stages by (simp add: sample_pconfig_def)

text \<open>After clearing, every tool result older than the kept turns counts as cleared, every later one is as it was,
  and clearing again appends nothing. The kept turns are as many as asked for, or all there are.\<close>
theorem clearResults_clears:
  assumes "agent_ok a" "ids_sorted (ag_log a)" "clearResults n a = Some (Inr (), a')"
  shows "\<exists>c. keepFrom (ag_log a) n = Some c \<and> keeps (nat (max 1 n)) (rev (ag_log a)) c \<and>
    (\<forall>i < length (ag_log a). ev_type (ag_log a ! i) = ''tool_result'' \<longrightarrow>
       clearedAlready (ag_log a') (ev_id (ag_log a ! i)) =
         (if i < c then Some True else clearedAlready (ag_log a) (ev_id (ag_log a ! i)))) \<and>
    clearResults n a' = Some (Inr (), a')"
proof -
  let ?log = "ag_log a"
  have val: "ValidateLog ?log = None" using assms(1) by (simp add: agent_ok_def)
  obtain c where c: "keepFrom ?log n = Some c" "keeps (nat (max 1 n)) (rev ?log) c"
    "clear_range ?log n = Some (if to_clear ?log c = [] then ([], []) else (ev_id (hd (to_clear ?log c)), ev_id (last (to_clear ?log c))))"
    using clear_range_at [OF val] by blast
  have dec: "\<forall>e \<in> set ?log. decodes e" using val ValidateLog_decodes by blast
  show ?thesis
  proof (cases "to_clear ?log c = []")
    case True
    then have a': "a' = a" using assms(3) c(3) by (simp add: clearResults_def)
    have all: "clearedAlready ?log (ev_id (?log ! i)) = Some True"
      if "i < c" "i < length ?log" "ev_type (?log ! i) = ''tool_result''" for i
    proof -
      have "?log ! i \<in> set (take c ?log)" using that by (auto simp: in_set_conv_nth)
      then have "clearedAlready ?log (ev_id (?log ! i)) \<noteq> Some False" using True that(3) by (auto simp: to_clear_def filter_empty_conv)
      then show ?thesis using clearedAlready_covers [OF dec] by simp
    qed
    show ?thesis
    proof (intro exI [of _ c] conjI allI impI)
      fix i assume i: "i < length ?log" "ev_type (?log ! i) = ''tool_result''"
      show "clearedAlready (ag_log a') (ev_id (?log ! i)) = (if i < c then Some True else clearedAlready ?log (ev_id (?log ! i)))"
        using all [OF _ i] a' by simp
    qed (use c(1,2) assms(3) a' in simp_all)
  next
    case False
    let ?ts = "to_clear ?log c"
    have "ev_id (hd ?ts) \<noteq> []"
    proof -
      have "hd ?ts \<in> set ?ts" using False by simp
      moreover have "set ?ts \<subseteq> set ?log" by (auto simp: to_clear_def dest: in_set_takeD)
      ultimately have "hd ?ts \<in> set ?log" by (rule rev_subsetD)
      from ValidateLog_events(1) [OF val this] show ?thesis by (rule ValidateULID_nonempty)
    qed
    then obtain e where h: "h_append (clearing (ev_id (hd ?ts), ev_id (last ?ts))) a = (Inr e, a')"
      using assms(3) c(3) False by (auto simp: clearResults_def split: prod.splits sum.splits)
    note x = clear_append [OF assms(1,2) c(1) False h]
    have "to_clear (ag_log a') c = []"
    proof -
      have "clearedAlready (ag_log a') (ev_id e') \<noteq> Some False"
        if e': "e' \<in> set (take c (ag_log a'))" "ev_type e' = ''tool_result''" for e'
      proof -
        have "e' \<in> set (take c ?log) \<or> e' = e" using e'(1) unfolding x(1) by (auto dest: in_set_takeD [of _ _ "[e]"])
        then obtain i where "i < c" "i < length ?log" "?log ! i = e'" using e'(2) x(3) by (auto simp: in_set_conv_nth)
        then show ?thesis using x(5) [of i] e'(2) by simp
      qed
      then show ?thesis by (auto simp: to_clear_def filter_empty_conv)
    qed
    moreover have "ValidateLog (ag_log a') = None" using x(4) by (simp add: agent_ok_def)
    moreover have "keepFrom (ag_log a') n = Some c" using c(1) x(1,2) by (simp add: keepFrom_append)
    ultimately have again: "clearResults n a' = Some (Inr (), a')"
      using clear_range_at [of "ag_log a'" n] by (auto simp: clearResults_def)
    show ?thesis
    proof (intro exI [of _ c] conjI allI impI)
      fix i assume i: "i < length ?log" "ev_type (?log ! i) = ''tool_result''"
      show "clearedAlready (ag_log a') (ev_id (?log ! i)) = (if i < c then Some True else clearedAlready ?log (ev_id (?log ! i)))"
      proof (cases "i < c")
        case True
        then show ?thesis using x(5) [OF True i] by simp
      next
        case False
        then show ?thesis using x(6) [of i] i(1) by simp
      qed
    qed (use c(1,2) again in simp_all)
  qed
qed



definition sample_tool_call :: event_data where
  "sample_tool_call = DToolCall \<lparr>tc_call = ''c1'', tc_tool = ''read'', tc_args = Some (JObj []), tc_source = ''model''\<rparr>"

definition sample_tool_result :: event_data where
  "sample_tool_result = DToolResult \<lparr>tr_call = ''c1'', tr_tool = ''read'', tr_content = ''text'', tr_status = ''ok'', tr_kind = [], tr_exit = None\<rparr>"

abbreviation tool_log :: "Event list" where
  "tool_log \<equiv> sample_log [sample_session, sample_answer ''a'', sample_tool_call, sample_tool_result, sample_answer ''b'']"

lemma tool_samples [simp]:
  "payload_ok sample_tool_call" "validate_payload sample_tool_call = None" "payload_type sample_tool_call = ''tool_call''"
  "payload_ok sample_tool_result" "validate_payload sample_tool_result = None" "payload_type sample_tool_result = ''tool_result''"
  by (simp_all add: sample_tool_call_def sample_tool_result_def tool_call_ok_def tool_result_ok_def validate_tool_call_def
      validate_tool_result_def isSource_def raw_len_def)

lemma tool_log_list: "tool_log = [sample_event 0 sample_session, sample_event 1 (sample_answer ''a''), sample_event 2 sample_tool_call,
    sample_event 3 sample_tool_result, sample_event 4 (sample_answer ''b'')]"
  by (simp add: sample_log_def upt_conv_Cons eval_nat_numeral)

lemma tool_log_valid: "ValidateLog tool_log = None" "ids_sorted tool_log"
  by (rule sample_log_valid, auto) (simp add: ids_sorted_def tool_log_list sample_id_mono)

lemma clearResults_clears_witness:
  "\<exists>b. clearResults 1 (logged tool_log) = Some (Inr (), b) \<and> clearedAlready (ag_log b) (sample_id 3) = Some True \<and>
     clearResults 1 b = Some (Inr (), b)"
proof -
  have k: "keepFrom tool_log 1 = Some 4" by (simp add: keepFrom_def tool_log_list)
  have "clear_range tool_log 1 = Some (sample_id 3, sample_id 3)"
    by (simp add: clear_range_def k) (simp add: tool_log_list eval_nat_numeral clear_step_def)
  then obtain b where b: "clearResults 1 (logged tool_log) = Some (Inr (), b)"
    using h_append_writes [of "logged tool_log" "clearing (sample_id 3, sample_id 3)"] tool_log_valid
      ValidateULID_nonempty [OF sample_id_valid] sample_id_valid
    by (auto simp: clearResults_def clearing_def validate_compaction_def)
  have ok: "agent_ok (logged tool_log)" "ids_sorted (ag_log (logged tool_log))" using tool_log_valid by simp_all
  obtain c where c: "keepFrom tool_log 1 = Some c"
    "\<forall>i < length tool_log. ev_type (tool_log ! i) = ''tool_result'' \<longrightarrow> clearedAlready (ag_log b) (ev_id (tool_log ! i)) =
       (if i < c then Some True else clearedAlready tool_log (ev_id (tool_log ! i)))"
    "clearResults 1 b = Some (Inr (), b)"
    using clearResults_clears [OF ok b] unfolding logged_simps(1) by blast
  have "3 < length tool_log" "ev_type (tool_log ! 3) = ''tool_result''" "ev_id (tool_log ! 3) = sample_id 3"
    by (simp_all add: tool_log_list)
  moreover have "c = 4" using c(1) k by simp
  ultimately have "clearedAlready (ag_log b) (sample_id 3) = Some True" using c(2) [rule_format, of 3] by simp
  with b c(3) show ?thesis by blast
qed

text \<open>A reply's cap is never below the least reply or the limit, whichever is smaller, and never above the limit
  or the least reply, whichever is larger; and a capped reply fits: while the window has room for the least
  reply after the estimated request, the two together stay inside it.\<close>
theorem replyCap_bounds:
  assumes "ValidateLog log = None" "limit = (if override > 0 then override else pc_max_tokens pc)"
  shows "\<exists>n t. replyCap log pc override = Some n \<and> nextRequestTokens log (pc_keep_thinking pc) = Some t \<and>
    n \<le> max limit minReplyCap \<and> min limit minReplyCap \<le> n \<and>
    (0 < limit \<and> 0 < pc_window pc \<and> minReplyCap \<le> pc_window pc - t \<and> int64_ok (pc_window pc - t) \<longrightarrow> t + n \<le> pc_window pc)"
proof -
  have dec: "\<forall>e \<in> set log. decodes e" using assms(1) ValidateLog_decodes by blast
  obtain t where t: "nextRequestTokens log (pc_keep_thinking pc) = Some t" using nextRequestTokens_total [OF dec] by blast
  let ?room = "wrap64 (pc_window pc - t)"
  have r: "replyCap log pc override =
      Some (if limit \<le> 0 \<or> pc_window pc \<le> 0 then limit else if ?room < limit then max ?room minReplyCap else limit)"
    by (simp add: replyCap_def assms(2) t Let_def)
  have fits: "t + (if ?room < limit then max ?room minReplyCap else limit) \<le> pc_window pc"
    if "minReplyCap \<le> pc_window pc - t" "int64_ok (pc_window pc - t)"
    using that wrap64_id [OF that(2)] by (simp add: max_def)
  show ?thesis using r t fits
    by (intro exI [of _ "if limit \<le> 0 \<or> pc_window pc \<le> 0 then limit else if ?room < limit then max ?room minReplyCap else limit"]
        exI [of _ t] conjI) (simp_all add: max_def min_def)
qed

lemma replyCap_bounds_witness:
  "\<exists>n t. replyCap (sample_log [sample_session, sample_said ''hi'', sample_answer ''ok'']) (sample_pconfig\<lparr>pc_window := 4000, pc_max_tokens := 3000\<rparr>) 0 = Some n \<and>
     nextRequestTokens (sample_log [sample_session, sample_said ''hi'', sample_answer ''ok'']) False = Some t \<and> n \<le> 3000 \<and> t + n \<le> 4000"
proof -
  let ?log = "sample_log [sample_session, sample_said ''hi'', sample_answer ''ok'']" let ?pc = "sample_pconfig\<lparr>pc_window := 4000, pc_max_tokens := 3000\<rparr>"
  have f: "pc_keep_thinking ?pc = False" "pc_window ?pc = 4000" by (simp_all add: sample_pconfig_def)
  have n: "nextRequestTokens ?log False = Some 523"
    by (simp add: nextRequestTokens_def sample_log3 usage_of_def charsPerToken_def requestMargin_def wrap64_def)
  from replyCap_bounds [OF sample_log_valid3, of 3000 0 ?pc "''hi''" "''ok''"]
  show ?thesis unfolding f n by (auto simp: sample_pconfig_def minReplyCap_def int64_ok_def int64_min_def int64_max_def)
qed

text \<open>The least reply overrides a provider's own smaller cap: a provider capped at 500 tokens a reply is asked for
  1024 once the window is nearly full.\<close>

lemma replyCap_over_limit: "pc_max_tokens sample_pconfig = 500 \<and>
    replyCap (sample_log [sample_session, sample_said ''hi'', sample_answer ''ok'']) sample_pconfig 0 = Some 1024"
  by (simp add: replyCap_def nextRequestTokens_def sample_log3 usage_of_def charsPerToken_def requestMargin_def wrap64_def
      sample_pconfig_def minReplyCap_def)





definition sample_completion :: "string \<Rightarrow> Completion" where
  "sample_completion text = \<lparr>cm_chunks = [Said text], cm_response = \<lparr>rs_content = text, rs_reasoning = [], rs_calls = [],
     rs_usage = usage_zero, rs_finish = ''stop'', rs_recovered = 0\<rparr>, cm_error = None\<rparr>"

definition sample_deps :: Deps where
  "sample_deps = \<lparr>dp_config = sample_config, dp_modules = [], dp_tools = [], dp_asker = None,
     dp_resolve = (\<lambda>m. Inr (m, sample_pconfig)), dp_complete = (\<lambda>req a. (sample_completion ''Done.'', a)),
     dp_stopped = (\<lambda>p a. False)\<rparr>"

lemma sample_deps_ok: "deps_ok sample_deps" "summary_calm sample_deps"
  by (simp_all add: deps_ok_def summary_calm_def sample_deps_def offered_ok_def modules_ok_def quiet_refl silent_refl)

lemma add_note_writes: "agent_ok a \<Longrightarrow> writes a \<Longrightarrow> writes (add_note level msg a)"
  using add_note_quiet by (simp add: quiet_def)





text \<open>A requested compaction always answers. A session that is running, has ended or has too little history is
  refused and untouched; otherwise what it reports is the last compaction event it added, and the session
  keeps its state.\<close>
theorem Compact_result:
  assumes "deps_ok dp" "agent_ok a"
  shows "\<exists>r b. Compact dp a = Some (r, b) \<and> grows a b \<and> ag_state b = ag_state a \<and>
    ((ag_state a \<in> {''running'', ''completed'', ''error''} \<or> \<not> enoughToSummarise (ag_log a) (projection_of (ag_log a))) =
       (\<exists>e. compact_refusal (ag_log a) (projection_of (ag_log a)) = Some e)) \<and>
    (\<forall>e. compact_refusal (ag_log a) (projection_of (ag_log a)) = Some e \<longrightarrow> r = Inl (Rpc e) \<and> b = a) \<and>
    (\<forall>e. r = Inr e \<longrightarrow> (\<exists>pre post. ag_log b = ag_log a @ pre @ e # post \<and> ev_type e = ''compaction'' \<and>
       (\<forall>x \<in> set post. ev_type x \<noteq> ''compaction'')))"
proof (cases "compact_refusal (ag_log a) (projection_of (ag_log a))")
  case (Some e)
  then have "Compact dp a = Some (Inl (Rpc e), a)" by (simp add: Compact_def h_state_ok [OF assms(2)])
  moreover have "ag_state a \<in> {''running'', ''completed'', ''error''} \<or> \<not> enoughToSummarise (ag_log a) (projection_of (ag_log a))"
    using Some by (auto simp: compact_refusal_def split: if_splits)
  ultimately show ?thesis using Some assms(2) by (simp add: grows_refl)
next
  case None
  obtain r b where s: "summarizeLocked dp a = Some (r, b)" "quiet a b" using summarizeLocked_returns [OF assms] by blast
  then have c: "Compact dp a = Some (compact_outcome dp (length (ag_log a)) r b, b)"
    using None by (simp add: Compact_def h_state_ok [OF assms(2)])
  have q: "grows a b" "ag_state b = ag_state a" using s(2) by (simp_all add: quiet_def)
  then obtain new where new: "ag_log b = ag_log a @ new" by (auto simp: grows_def prefix_def)
  have found: "\<exists>pre post. ag_log b = ag_log a @ pre @ e # post \<and> ev_type e = ''compaction'' \<and> (\<forall>x \<in> set post. ev_type x \<noteq> ''compaction'')"
    if "compact_outcome dp (length (ag_log a)) r b = Inr e" for e
  proof -
    have "find_last (\<lambda>e. ev_type e = ''compaction'') new = Some e"
      using that new by (auto simp: compact_outcome_def split: sum.splits if_splits option.splits)
    then obtain i where i: "i < length new" "ev_type (rev new ! i) = ''compaction''" "e = rev new ! i"
      "\<forall>j < i. ev_type (rev new ! j) \<noteq> ''compaction''"
      by (auto simp: find_last_def find_Some_iff)
    let ?k = "length new - 1 - i"
    have "new = take ?k new @ new ! ?k # drop (Suc ?k) new" using i(1) by (intro id_take_nth_drop) simp
    moreover have "new ! ?k = e" using i(1,3) by (simp add: rev_nth)
    moreover have "ev_type x \<noteq> ''compaction''" if x: "x \<in> set (drop (Suc ?k) new)" for x
    proof -
      obtain j where "j < length new - Suc ?k" "x = new ! (Suc ?k + j)" using x by (auto simp: in_set_conv_nth)
      moreover from this have "Suc ?k + j = length new - Suc (i - 1 - j)" "i - 1 - j < i" using i(1) by linarith+
      ultimately have "x = rev new ! (i - 1 - j)" "i - 1 - j < i" using i(1) by (simp_all add: rev_nth)
      then show ?thesis using i(4) by blast
    qed
    ultimately show ?thesis using new i(2,3) by metis
  qed
  have "\<not> (ag_state a \<in> {''running'', ''completed'', ''error''} \<or> \<not> enoughToSummarise (ag_log a) (projection_of (ag_log a)))"
    using None by (auto simp: compact_refusal_def split: if_splits)
  with c q found None show ?thesis by (intro exI [of _ "compact_outcome dp (length (ag_log a)) r b"] exI [of _ b]) simp
qed

lemma Compact_result_witness:
  "\<exists>r b. Compact sample_deps (logged (sample_log [sample_session, sample_said ''hi'', sample_answer ''ok''])) = Some (r, b) \<and>
     grows (logged (sample_log [sample_session, sample_said ''hi'', sample_answer ''ok''])) b"
  using Compact_result [OF sample_deps_ok(1), of "logged (sample_log [sample_session, sample_said ''hi'', sample_answer ''ok''])"]
    sample_log_valid3 by auto

end
