(* ===== verification/Turn_Loop.thy ===== *)
theory Turn_Loop
  imports Compaction Repeat_Watch
begin

text \<open>
  \<open>daemon/agent/runner.go\<close>: the turns of a session. One turn is a request to the model, what it streamed under
  watch, its answer in the log, its tool calls in order, and the decision whether another turn is taken;
  the loop repeats turns. What the provider does and when the context is cancelled are parameters, as in
  \<open>Compaction\<close>. The callbacks that forward deltas to clients are not modelled. \<^term>\<open>None\<close> is the panic of
  \<open>MustData\<close>.

  The lemmas show that a turn never panics and only extends the log, that a turn that is followed by another
  has logged an answer, so that a budget of turns ends the loop, and that a loop that ended by itself has
  left the running state.
\<close>

section \<open>The stream\<close>

record Stream =
  sm_reply :: RepeatWatch
  sm_thought :: RepeatWatch
  sm_tripped :: bool

definition stream_start :: "int \<Rightarrow> Stream" where
  "stream_start limit = \<lparr>sm_reply = newRepeatWatch limit, sm_thought = newRepeatWatch limit, sm_tripped = False\<rparr>"

definition onDelta :: "string \<Rightarrow> Stream \<Rightarrow> Stream" where
  "onDelta text s =
     (if sm_tripped s then s
      else case add text (sm_reply s) of (tripped, w) \<Rightarrow> s\<lparr>sm_reply := w, sm_tripped := tripped\<rparr>)"

definition onThinking :: "string \<Rightarrow> Stream \<Rightarrow> Stream" where
  "onThinking text s = s\<lparr>sm_thought := snd (add text (sm_thought s))\<rparr>"

fun stream_chunk :: "Stream \<Rightarrow> chunk \<Rightarrow> Stream" where
  "stream_chunk s (Said text) = onDelta text s"
| "stream_chunk s (Thought text) = onThinking text s"

section \<open>What a server says it has room for\<close>

text \<open>The digits behind the first \<open>at most\<close> of the line that has any.\<close>

definition ascii_digit :: "char \<Rightarrow> bool" where
  "ascii_digit c \<longleftrightarrow> digit_val c \<noteq> None"

fun at_most :: "string \<Rightarrow> string option" where
  "at_most [] = None"
| "at_most (c # cs) =
     (if has_prefix (c # cs) ''at most '' \<and> takeWhile ascii_digit (drop 8 (c # cs)) \<noteq> []
      then Some (takeWhile ascii_digit (drop 8 (c # cs)))
      else if c = newline then None
      else at_most cs)"

fun refusedRoom :: "string \<Rightarrow> string option" where
  "refusedRoom [] = None"
| "refusedRoom (c # cs) =
     (case (if has_prefix (c # cs) ''exceeds the context window'' then at_most (drop 26 (c # cs)) else None) of
        Some d \<Rightarrow> Some d
      | None \<Rightarrow> refusedRoom cs)"

definition roomNamed :: "err \<Rightarrow> int option" where
  "roomNamed e = (case refusedRoom e of None \<Rightarrow> None | Some d \<Rightarrow> parse_int d)"

section \<open>Replies that failed\<close>

definition partialTail :: nat where "partialTail = 2000"

definition rawArgs :: "json option \<Rightarrow> string" where
  "rawArgs args =
     (case args of
        None \<Rightarrow> []
      | Some v \<Rightarrow>
          (case dec_struct [(''_malformed'', \<lambda>old. dec_ptr dec_str [] old)] None v of
             Some (Some s) \<Rightarrow> s
           | _ \<Rightarrow> json_text v))"

definition call_part :: "ToolCall \<Rightarrow> string" where
  "call_part tc = ''a '' @ pt_name tc @ '' call with '' @ itoa (int (length (rawArgs (pt_args tc)))) @ '' characters of arguments''"

definition partialReply :: "Response \<Rightarrow> string" where
  "partialReply r =
     (let parts =
            (if rs_reasoning r = [] then [] else [itoa (int (length (rs_reasoning r))) @ '' characters of thinking'']) @
            (if rs_content r = [] then [] else [itoa (int (length (rs_content r))) @ '' characters of reply'']) @
            map call_part (rs_calls r);
          tail = (if rs_calls r \<noteq> [] then rawArgs (pt_args (last (rs_calls r)))
                  else if rs_content r \<noteq> [] then rs_content r else rs_reasoning r);
          shown = (if length tail > partialTail then ellipsis @ to_valid_utf8 (drop (length tail - partialTail) tail) else tail) in
      if parts = [] then []
      else ''before the call failed, the model had written '' @ join '', '' parts @ ''. It ended:'' @ [newline] @ shown)"

section \<open>Parts of a turn\<close>

text \<open>An append whose error ends the turn.\<close>

definition must_append :: "event_data \<Rightarrow> Agent \<Rightarrow> (err + unit) \<times> Agent" where
  "must_append p a = (case h_append p a of (Inl e, b) \<Rightarrow> (Inl e, b) | (Inr _, b) \<Rightarrow> (Inr (), b))"

definition dropped_notice :: "nat \<Rightarrow> RepeatWatch \<Rightarrow> string" where
  "dropped_notice dropped w =
     ''the model's thinking repeated one passage '' @ itoa (int dropped) @
     '' more times; the copies were dropped from the log and the turn went on. The passage: '' @
     fmt_q (to_valid_utf8 (truncateText (passage w) 200))"

definition logThinking :: "RepeatWatch \<Rightarrow> string \<Rightarrow> Agent \<Rightarrow> (err + unit) \<times> Agent" where
  "logThinking thought reasoning a =
     (if reasoning = [] then (Inr (), a)
      else case collapsed reasoning thought of
        (text, dropped) \<Rightarrow>
          (case must_append (DThinking \<lparr>th_content = text, th_source = ''model''\<rparr>) a of
             (Inl e, b) \<Rightarrow> (Inl e, b)
           | (Inr _, b) \<Rightarrow> (Inr (), if dropped > 0 then add_note ''info'' (dropped_notice dropped thought) b else b)))"

definition answer_data :: "string \<Rightarrow> Usage option \<Rightarrow> event_data" where
  "answer_data content usage =
     DMessage \<lparr>msg_role = ''assistant'', msg_content = content, msg_client = [], msg_usage = usage, msg_interrupted = False\<rparr>"

definition repeated_notice :: "RepeatWatch \<Rightarrow> string" where
  "repeated_notice w =
     ''the model's reply repeated one passage '' @ itoa (int (repeats w)) @ '' times, so it was stopped after '' @
     itoa (int (stream_length w)) @ '' bytes and '' @ itoa (int (stream_length w) - int (length (kept w))) @
     '' were dropped. The passage: '' @ fmt_q (to_valid_utf8 (truncateText (passage w) 200))"

text \<open>The end of a turn that takes no other.\<close>

definition ends_turn :: "((err + unit) \<times> Agent) option \<Rightarrow> ((err + bool) \<times> Agent) option" where
  "ends_turn r = map_option (\<lambda>(x, a). (case x of Inl e \<Rightarrow> Inl e | Inr _ \<Rightarrow> Inr False, a)) r"

definition turn_finish :: "Deps \<Rightarrow> string \<Rightarrow> string \<Rightarrow> Agent \<Rightarrow> ((err + bool) \<times> Agent) option" where
  "turn_finish dp to reason a = ends_turn (finish (registry_hooks (dp_modules dp)) to reason a)"

definition stopRepeating :: "Deps \<Rightarrow> Stream \<Rightarrow> string \<Rightarrow> Agent \<Rightarrow> ((err + bool) \<times> Agent) option" where
  "stopRepeating dp s reasoning a =
     (case logThinking (sm_thought s) reasoning a of
        (Inl e, a1) \<Rightarrow> Some (Inl e, a1)
      | (Inr _, a1) \<Rightarrow>
          (case must_append (answer_data (kept (sm_reply s)) None) a1 of
             (Inl e, a2) \<Rightarrow> Some (Inl e, a2)
           | (Inr _, a2) \<Rightarrow>
               turn_finish dp ''blocked'' ''the reply repeated itself''
                 (add_note ''warn'' (repeated_notice (sm_reply s)) (TurnEnd (dp_modules dp) a2))))"

definition afterTurn :: "Deps \<Rightarrow> PConfig \<Rightarrow> Agent \<Rightarrow> ((err + bool) \<times> Agent) option" where
  "afterTurn dp pc a = do {
     (r, a1) \<leftarrow> maybeCompact dp pc a;
     (case r of
        Inl e \<Rightarrow> Some (Inl e, a1)
      | Inr _ \<Rightarrow> do { st \<leftarrow> h_state a1; Some (Inr (pr_state st = ''running''), a1) })
   }"

section \<open>The tool calls of a turn\<close>

datatype batch = Batch_done | Batch_cancelled | Batch_halted string

definition call_data :: "ToolCall \<Rightarrow> ToolCallData" where
  "call_data tc = \<lparr>tc_call = pt_id tc, tc_tool = pt_name tc, tc_args = pt_args tc, tc_source = ''model''\<rparr>"

definition cut_off_refusal :: "int \<Rightarrow> string" where
  "cut_off_refusal cap =
     ''not run: your reply reached the '' @ itoa cap @ ''-token limit and was cut off before this call was complete. '' @
     ''Write a large file in parts: create it with the first part, then add the rest with edit.''"

fun run_calls :: "Deps \<Rightarrow> bool \<Rightarrow> int \<Rightarrow> nat \<Rightarrow> ToolCall list \<Rightarrow> Agent \<Rightarrow> (batch \<times> Agent) option" where
  "run_calls dp cutOff cap i [] a = Some (Batch_done, a)"
| "run_calls dp cutOff cap i (tc # tcs) a =
     (if dp_stopped dp (Before_tool i) a then Some (Batch_cancelled, a)
      else if cutOff \<and> tcs = []
      then Some (Batch_done, refuseTool (call_data tc) ''invalid_args'' (cut_off_refusal cap) a)
      else (case invokeTool (dp_tools dp) (dp_modules dp) (dp_asker dp) (call_data tc) a of
              None \<Rightarrow> None
            | Some (_, a1) \<Rightarrow>
                (case ag_halted a1 of
                   Some why \<Rightarrow> Some (Batch_halted why, a1\<lparr>ag_halted := None\<rparr>)
                 | None \<Rightarrow> run_calls dp cutOff cap (i + 1) tcs a1)))"

definition tool_turn :: "Deps \<Rightarrow> PConfig \<Rightarrow> bool \<Rightarrow> int \<Rightarrow> ToolCall list \<Rightarrow> Agent \<Rightarrow> ((err + bool) \<times> Agent) option" where
  "tool_turn dp pc cutOff cap tcs a = do {
     (r, a1) \<leftarrow> run_calls dp cutOff cap 0 tcs (a\<lparr>ag_halted := None\<rparr>);
     (case r of
        Batch_cancelled \<Rightarrow> Some (Inl canceled, a1)
      | Batch_halted why \<Rightarrow> turn_finish dp ''blocked'' why (add_note ''warn'' (''stopping: '' @ why) a1)
      | Batch_done \<Rightarrow> afterTurn dp pc a1)
   }"

section \<open>A turn\<close>

definition stop_config :: "Config \<Rightarrow> StopConfig" where
  "stop_config c = \<lparr>sg_max_vetoes = cf_max_vetoes c, sg_no_progress = cf_no_progress c\<rparr>"

definition thatOrThose :: "int \<Rightarrow> string" where
  "thatOrThose n = (if n = 1 then ''it'' else ''them'')"

definition recovered_notice :: "int \<Rightarrow> string" where
  "recovered_notice n =
     ''the model wrote '' @ plural n ''tool call'' @ '' into its reasoning instead of calling '' @ thatOrThose n @
     ''; recovered and ran anyway''"

text \<open>The turn from its answer on.\<close>

definition answered :: "Deps \<Rightarrow> PConfig \<Rightarrow> int \<Rightarrow> Response \<Rightarrow> Agent \<Rightarrow> ((err + bool) \<times> Agent) option" where
  "answered dp pc cap resp a0 =
     (let a = TurnEnd (dp_modules dp) a0;
          cutOff = (rs_finish resp = ''length'');
          a1 = (if cutOff then add_note ''warn'' (''the reply reached its '' @ itoa cap @ ''-token cap and was cut off'') a else a) in
      if rs_calls resp \<noteq> [] then tool_turn dp pc cutOff cap (rs_calls resp) a1
      else askStopGate (stop_config (dp_config dp)) (dp_modules dp) a1)"

definition log_answer :: "Deps \<Rightarrow> PConfig \<Rightarrow> int \<Rightarrow> Stream \<Rightarrow> Response \<Rightarrow> Agent \<Rightarrow> ((err + bool) \<times> Agent) option" where
  "log_answer dp pc cap s resp a =
     (case logThinking (sm_thought s) (rs_reasoning resp) a of
        (Inl e, a1) \<Rightarrow> Some (Inl e, a1)
      | (Inr _, a1) \<Rightarrow>
          (let a2 = (if rs_recovered resp > 0 then add_note ''warn'' (recovered_notice (rs_recovered resp)) a1 else a1) in
           case must_append (answer_data (rs_content resp) (if rs_usage resp = usage_zero then None else Some (rs_usage resp))) a2 of
             (Inl e, a3) \<Rightarrow> Some (Inl e, a3)
           | (Inr _, a3) \<Rightarrow> answered dp pc cap resp a3))"

text \<open>The end of the call: repeated, failed or answered.\<close>

definition call_done :: "Deps \<Rightarrow> PConfig \<Rightarrow> int \<Rightarrow> Stream \<Rightarrow> Completion \<Rightarrow> Agent \<Rightarrow> ((err + bool) \<times> Agent) option" where
  "call_done dp pc cap s c a =
     (if sm_tripped s \<and> \<not> dp_stopped dp After_reply a then stopRepeating dp s (rs_reasoning (cm_response c)) a
      else case cm_error c of
        Some e \<Rightarrow>
          if dp_stopped dp After_reply a then Some (Inl canceled, a)
          else (let got = partialReply (cm_response c) in
                Some (Inl (''model call failed: '' @ e), if got \<noteq> [] then add_note ''warn'' got a else a))
      | None \<Rightarrow> log_answer dp pc cap s (cm_response c) a)"

text \<open>The call, asked once more with the room a refusal names.\<close>

definition call_model :: "Deps \<Rightarrow> PConfig \<Rightarrow> Request \<Rightarrow> Agent \<Rightarrow> ((err + bool) \<times> Agent) option" where
  "call_model dp pc req a =
     (let (c, a1) = dp_complete dp req a;
          s = foldl stream_chunk (stream_start (pc_repeat_limit pc)) (cm_chunks c);
          room = (case cm_error c of
                    None \<Rightarrow> None
                  | Some e \<Rightarrow> if dp_stopped dp After_call a1 \<or> sm_tripped s then None else roomNamed e) in
      case room of
        Some r \<Rightarrow>
          if r \<ge> minReplyCap \<and> r < rq_max req
          then (let a2 = add_note ''info'' (''the server had room for a '' @ itoa r @ ''-token reply, not '' @ itoa (rq_max req) @
                           ''; asked again with that'') a1;
                    (c', a3) = dp_complete dp (req\<lparr>rq_max := r\<rparr>) a2 in
                call_done dp pc r (foldl stream_chunk s (cm_chunks c')) c' a3)
          else call_done dp pc (rq_max req) s c a1
      | None \<Rightarrow> call_done dp pc (rq_max req) s c a1)"

definition turn_request :: "Deps \<Rightarrow> State \<Rightarrow> string \<Rightarrow> PConfig \<Rightarrow> Agent \<Rightarrow> Request option" where
  "turn_request dp st name pc a = do {
     cap \<leftarrow> replyCap (ag_log a) pc (cf_max_tokens (dp_config dp));
     req \<leftarrow> buildRequest (ag_log a) (cf_prompt (dp_config dp)) name
       (map tl_name (toolsFor (dp_tools dp) (dp_modules dp) (pc_tasks pc) a)) cap (pc_keep_thinking pc);
     Some (req\<lparr>rq_effort := op_effort (pr_options st)\<rparr>)
   }"

text \<open>The session with the blocks that modules want in front of the model.\<close>

definition prepared :: "Deps \<Rightarrow> Agent \<Rightarrow> Agent" where
  "prepared dp a = (case BeforeRequest (dp_modules dp) a of (blocks, a1) \<Rightarrow> appendContexts blocks a1)"

definition turn :: "Deps \<Rightarrow> Agent \<Rightarrow> ((err + bool) \<times> Agent) option" where
  "turn dp a = do {
     st \<leftarrow> h_state a;
     (case budgetExceeded st of
        Some why \<Rightarrow> turn_finish dp ''paused'' ''budget'' (add_note ''warn'' why a)
      | None \<Rightarrow>
          (case dp_resolve dp (op_model (pr_options st)) of
             Inl e \<Rightarrow> Some (Inl e, a)
           | Inr (name, pc) \<Rightarrow> do {
               let a1 = prepared dp a;
               req \<leftarrow> turn_request dp st name pc a1;
               call_model dp pc req a1
             }))
   }"

section \<open>The loop\<close>

text \<open>One round of the loop: whether it goes on.\<close>

definition loop_round :: "Deps \<Rightarrow> Agent \<Rightarrow> (bool \<times> Agent) option" where
  "loop_round dp a =
     (if dp_stopped dp Loop_top a then Some (False, a)
      else (case turn dp a of
              None \<Rightarrow> None
            | Some (Inr cont, a1) \<Rightarrow> Some (cont, a1)
            | Some (Inl e, a1) \<Rightarrow>
                if dp_stopped dp Loop_failed a1 then Some (False, a1)
                else map_option (\<lambda>(_, a2). (False, a2))
                  (finish (registry_hooks (dp_modules dp)) ''error'' ''provider error'' (add_note ''error'' e a1))))"

text \<open>The loop, for at most \<open>n\<close> rounds: \<^term>\<open>True\<close> when it is still going after them.\<close>

fun runLoop :: "nat \<Rightarrow> Deps \<Rightarrow> Agent \<Rightarrow> (bool \<times> Agent) option" where
  "runLoop 0 dp a = Some (True, a)"
| "runLoop (Suc n) dp a =
     (case loop_round dp a of
        None \<Rightarrow> None
      | Some (cont, a1) \<Rightarrow> if cont then runLoop n dp a1 else Some (False, a1))"


section \<open>What a part of a turn does to a session\<close>

text \<open>It extends the log, and a session that could be written still can.\<close>

definition moves :: "Agent \<Rightarrow> Agent \<Rightarrow> bool" where
  "moves a b \<longleftrightarrow> grows a b \<and> (writes a \<longrightarrow> writes b)"

interpretation moving: extension agent_ok moves
  by unfold_locales (auto simp: moves_def intro: grows_refl grows_trans grows_ok)

lemma quiet_moves: "quiet a b \<Longrightarrow> moves a b"
  by (simp add: moves_def quiet_def)

lemma moves_grows: "moves a b \<Longrightarrow> grows a b"
  by (simp add: moves_def)

lemma moves_halted [simp]: "moves a (b\<lparr>ag_halted := h\<rparr>) = moves a b" "moves (a\<lparr>ag_halted := h\<rparr>) b = moves a b"
  by (simp_all add: moves_def grows_def writes_def)

lemma h_append_moves: "agent_ok a \<Longrightarrow> payload_type p \<noteq> ''session'' \<Longrightarrow> moves a (snd (h_append p a))"
  using h_append_snd h_append_keeps_writes by (simp add: moves_def)

text \<open>No snapshot of tasks is longer than an int counts.\<close>

definition small_tasks :: "Event list \<Rightarrow> bool" where
  "small_tasks log \<longleftrightarrow> (\<forall>d \<in> set (decoded as_tasks log). int (length (td_tasks d)) \<le> int64_max)"

lemma small_tasks_fit: "small_tasks (ag_log a) \<Longrightarrow> tasks_fit a"
  by (cases "decoded as_tasks (ag_log a)" rule: rev_cases)
    (simp_all add: small_tasks_def tasks_fit_def projection_of_def int64_max_def)

lemma small_tasks_prefix: "prefix xs ys \<Longrightarrow> small_tasks ys \<Longrightarrow> small_tasks xs"
  by (auto simp: small_tasks_def decoded_def prefix_def List.map_filter_def)

lemma moves_small: "moves a b \<Longrightarrow> small_tasks (ag_log b) \<Longrightarrow> small_tasks (ag_log a)"
  using small_tasks_prefix [of "ag_log a" "ag_log b"] by (simp add: moves_def grows_def)

lemma known_state:
  assumes "agent_ok a"
  shows "isState (ag_state a)"
proof -
  have "isState (sc_to d)" if "d \<in> set (decoded as_state_change (ag_log a))" for d
  proof -
    from that obtain e where e: "e \<in> set (ag_log a)" "MustData as_state_change e = Some d"
      by (auto simp: decoded_def List.map_filter_def)
    have "validate_state_change d = None"
      using ValidateLog_events [of "ag_log a" e] assms e
      by (auto simp: agent_ok_def MustData_def as_state_change_def ValidateEvent_def split: sum.splits event_data.splits if_splits option.splits)
    then show ?thesis by (simp add: validate_state_change_def split: if_splits)
  qed
  then show ?thesis
    by (cases "decoded as_state_change (ag_log a)" rule: rev_cases) (simp_all add: projection_of_def isState_def)
qed

text \<open>The states a run ends in.\<close>

definition exit_state :: "string \<Rightarrow> bool" where
  "exit_state to \<longleftrightarrow> to \<in> {''completed'', ''blocked'', ''paused'', ''error''}"

lemma report_moves:
  assumes "modules_ok ms" "agent_ok a"
  shows "\<exists>r b. emitReport (registry_hooks ms) to a = Some (r, b) \<and> moves a b \<and> ag_state b = ag_state a \<and>
    (writes a \<and> tasks_fit a \<and> exit_state to \<longrightarrow> r = Inr ())"
proof -
  obtain cs where c: "report_checks (ag_log a) = Some cs"
    using report_checks_total valid_check assms(2) unfolding agent_ok_def by blast
  obtain f a1 where f: "Report ms a = (f, a1)" by fastforce
  then have q: "quiet a a1" using dispatch_quiet(10) [OF assms] by simp
  let ?st = "projection_of (ag_log a)"
  define r where "r = \<lparr>rp_exit = to,
    rp_goal = map_option (\<lambda>g. \<lparr>rg_condition = gl_condition g, rg_state = gl_state g, rg_reason = gl_reason g\<rparr>) (pr_goal ?st),
    rp_tasks = \<lparr>rt_total = int (length (pr_tasks ?st)), rt_done = DoneTasks ?st,
      rt_open = Some (map (\<lambda>t. \<lparr>rr_id = tk_id t, rr_title = tk_title t, rr_status = tk_status t\<rparr>) (OpenTasks ?st))\<rparr>,
    rp_checks = Some (cs @ rf_checks f), rp_files = rf_files f, rp_commits = rf_commits f, rp_dirty = rf_dirty f\<rparr>"
  obtain x b where h: "h_append (DReport r) a1 = (x, b)" by fastforce
  have e: "emitReport (registry_hooks ms) to a = Some (case x of Inl e \<Rightarrow> Inl e | Inr _ \<Rightarrow> Inr (), b)"
    using h unfolding r_def
    by (cases x) (simp_all add: emitReport_def h_state_ok [OF assms(2)] c f registry_hooks_def Let_def)
  have qb: "quiet a1 b" using h_append_quiet [of a1 "DReport r"] quiet_ok [OF q] h by simp
  have "\<exists>y. x = Inr y" if t: "writes a" "tasks_fit a" "exit_state to"
  proof -
    have "0 \<le> DoneTasks ?st" "DoneTasks ?st \<le> int (length (pr_tasks ?st))" by (simp_all add: DoneTasks_def)
    then have "payload_ok (DReport r)"
      using t(2) by (simp add: r_def report_ok_def report_tasks_ok_def int64_ok_def int64_min_def tasks_fit_def)
    moreover have "validate_payload (DReport r) = None" using t(3) by (auto simp: r_def validate_report_def exit_state_def)
    moreover have "writes a1" using q t(1) by (simp add: quiet_def)
    ultimately obtain y b' where "h_append (DReport r) a1 = (Inr y, b')"
      using h_append_writes [OF quiet_ok [OF q], of "DReport r"] by auto
    then show ?thesis using h by simp
  qed
  then have r: "writes a \<and> tasks_fit a \<and> exit_state to \<longrightarrow>
      (case x of Inl e \<Rightarrow> Inl e | Inr _ \<Rightarrow> Inr ()) = Inr ()"
    by auto
  have m: "quiet a b" using quiet_trans [OF q qb] .
  show ?thesis
    using e quiet_moves [OF m] m r by (intro exI [of _ "case x of Inl e \<Rightarrow> Inl e | Inr _ \<Rightarrow> Inr ()"] exI [of _ b]) (simp add: quiet_def)
qed

lemma finish_moves:
  assumes "modules_ok ms" "agent_ok a"
  shows "\<exists>r b. finish (registry_hooks ms) to reason a = Some (r, b) \<and> moves a b \<and> (r = Inr () \<longrightarrow> ag_state b = to) \<and>
    (writes a \<and> small_tasks (ag_log b) \<and> exit_state to \<longrightarrow> r = Inr ())"
proof -
  let ?a = "SessionEnd ms a"
  have q: "quiet a ?a" using dispatch_quiet(7) [OF assms] .
  have ok: "agent_ok ?a" using quiet_ok [OF q] .
  obtain r a1 where e: "emitReport (registry_hooks ms) to ?a = Some (r, a1)" "moves ?a a1" "ag_state a1 = ag_state ?a"
    "writes ?a \<and> tasks_fit ?a \<and> exit_state to \<longrightarrow> r = Inr ()"
    using report_moves [OF assms(1) ok] by metis
  have m: "moves a a1" using moving.trans [OF quiet_moves [OF q] e(2)] .
  have ok1: "agent_ok a1" using m by (simp add: moves_def grows_def)
  have w: "writes a \<longrightarrow> writes ?a \<and> writes a1" using q m by (simp add: quiet_def moves_def)
  let ?d = "\<lparr>sc_from = Some (ag_state ?a), sc_to = to, sc_reason = reason\<rparr>"
  obtain x a2 where h: "h_append (DStateChange ?d) a1 = (x, a2)" by fastforce
  have hk: "hk_session_end (registry_hooks ms) = SessionEnd ms" by (simp add: registry_hooks_def)
  have f: "finish (registry_hooks ms) to reason a = (case r of Inl e \<Rightarrow> Some (Inl e, a1)
      | Inr _ \<Rightarrow> if ag_state ?a = to then Some (Inr (), a1)
        else Some (case x of Inl e \<Rightarrow> (Inl e, a2) | Inr _ \<Rightarrow> (Inr (), a2)))"
    unfolding finish_def hk Let_def h_state_ok [OF ok] e(1) by (simp add: h split: sum.split)
  have m2: "moves a a2" using moving.trans [OF m h_append_moves [OF ok1, of "DStateChange ?d"]] h by simp
  show ?thesis
  proof (cases r)
    case (Inl err)
    have "\<not> (writes a \<and> small_tasks (ag_log a1) \<and> exit_state to)"
      using e(4) Inl w moves_small [OF e(2)] small_tasks_fit by auto
    then show ?thesis using f Inl m by (intro exI [of _ "Inl err"] exI [of _ a1]) simp
  next
    case (Inr u)
    show ?thesis
    proof (cases "ag_state ?a = to")
      case True
      then show ?thesis using f Inr m e(3) by (intro exI [of _ "Inr ()"] exI [of _ a1]) simp
    next
      case False
      have "\<exists>y. x = Inr y" if "writes a" "exit_state to"
      proof -
        have "validate_payload (DStateChange ?d) = None"
          using known_state [OF ok] that(2) by (auto simp: validate_state_change_def isState_def exit_state_def)
        then show ?thesis using h_append_writes [OF ok1, of "DStateChange ?d"] w that(1) h by auto
      qed
      moreover have "ag_state a2 = to" if "x = Inr y" for y
        using h_append_proj [of "DStateChange ?d" a1 y a2] h ok1 that by simp
      ultimately show ?thesis using f Inr False m2
        by (cases x) auto
    qed
  qed
qed


section \<open>What a turn leaves\<close>

text \<open>The number of answers of the model.\<close>

abbreviation answers :: "Agent \<Rightarrow> nat" where "answers a \<equiv> length (assistant_turns (ag_log a))"

lemma moves_answers: "moves a b \<Longrightarrow> answers a \<le> answers b"
  by (auto simp: moves_def grows_def prefix_def assistant_turns_def decoded_def List.map_filter_def)

definition outcome :: "Agent \<Rightarrow> ((err + bool) \<times> Agent) option \<Rightarrow> bool" where
  "outcome a r \<longleftrightarrow> (\<exists>x b. r = Some (x, b) \<and> moves a b \<and> (x = Inr False \<longrightarrow> ag_state b \<noteq> ''running''))"

lemma outcome_fails: "moves a b \<Longrightarrow> outcome a (Some (Inl e, b))"
  by (simp add: outcome_def)

lemma outcome_goes_on: "moves a b \<Longrightarrow> outcome a (Some (Inr True, b))"
  by (simp add: outcome_def)

lemma outcome_after: "moves a b \<Longrightarrow> outcome b r \<Longrightarrow> outcome a r"
  unfolding outcome_def using moving.trans by blast

lemma note_moves: "agent_ok a \<Longrightarrow> moves a (add_note level msg a)"
  by (intro quiet_moves add_note_quiet)

lemma must_append_moves:
  assumes "agent_ok a" "payload_type p \<noteq> ''session''"
  shows "moves a (snd (must_append p a))"
  using h_append_moves [OF assms] by (auto simp: must_append_def split: prod.split sum.split)

lemma turn_finish_outcome:
  assumes "modules_ok (dp_modules dp)" "agent_ok a" "to \<noteq> ''running''"
  shows "outcome a (turn_finish dp to reason a)"
proof -
  obtain r b where f: "finish (registry_hooks (dp_modules dp)) to reason a = Some (r, b)" "moves a b" "r = Inr () \<longrightarrow> ag_state b = to"
    using finish_moves [OF assms(1,2)] by blast
  then show ?thesis using assms(3) by (cases r) (simp_all add: turn_finish_def ends_turn_def outcome_def)
qed

lemma turn_finish_ends: "turn_finish dp to reason a \<noteq> Some (Inr True, b)"
  by (auto simp: turn_finish_def ends_turn_def split: sum.splits)

lemma logThinking_moves:
  assumes "agent_ok a"
  shows "moves a (snd (logThinking w text a))"
proof (cases "text = []")
  case False
  obtain t d where c: "collapsed text w = (t, d)" by fastforce
  obtain x b where m: "must_append (DThinking \<lparr>th_content = t, th_source = ''model''\<rparr>) a = (x, b)" by fastforce
  then have b: "moves a b" using must_append_moves [OF assms, of "DThinking \<lparr>th_content = t, th_source = ''model''\<rparr>"] by simp
  have "moves a (add_note l n b)" for l n using moving.trans [OF b note_moves [OF moving.stays [OF b]]] .
  then show ?thesis using b False by (simp add: logThinking_def c m split: sum.split)
qed (simp add: logThinking_def moving.refl assms)

lemma TurnEnd_moves: "modules_ok ms \<Longrightarrow> agent_ok a \<Longrightarrow> moves a (TurnEnd ms a)"
  by (intro quiet_moves dispatch_quiet(6))

lemma stopRepeating_outcome:
  assumes "modules_ok (dp_modules dp)" "agent_ok a"
  shows "outcome a (stopRepeating dp s text a)"
proof -
  obtain x a1 where l: "logThinking (sm_thought s) text a = (x, a1)" by fastforce
  then have 1: "moves a a1" using logThinking_moves [OF assms(2), of "sm_thought s" "text"] by simp
  let ?p = "answer_data (kept (sm_reply s)) None"
  obtain y a2 where m: "must_append ?p a1 = (y, a2)" by fastforce
  then have 2: "moves a a2"
    using moving.trans [OF 1 must_append_moves [OF moving.stays [OF 1], of ?p]] by (simp add: answer_data_def)
  let ?a3 = "add_note ''warn'' (repeated_notice (sm_reply s)) (TurnEnd (dp_modules dp) a2)"
  have 3: "moves a (TurnEnd (dp_modules dp) a2)" using moving.trans [OF 2 TurnEnd_moves [OF assms(1) moving.stays [OF 2]]] .
  have 4: "moves a ?a3" using moving.trans [OF 3 note_moves [OF moving.stays [OF 3]]] .
  have "outcome a (turn_finish dp ''blocked'' ''the reply repeated itself'' ?a3)"
    using outcome_after [OF 4 turn_finish_outcome [OF assms(1) moving.stays [OF 4]]] by simp
  then show ?thesis using outcome_fails [OF 1] outcome_fails [OF 2] by (simp add: stopRepeating_def l m split: sum.split)
qed

lemma stopRepeating_ends: "stopRepeating dp s text a \<noteq> Some (Inr True, b)"
  using turn_finish_ends by (auto simp: stopRepeating_def split: prod.splits sum.splits)


lemma decodes_log: "agent_ok a \<Longrightarrow> \<forall>e \<in> set (ag_log a). decodes e"
  using ValidateLog_decodes by (auto simp: agent_ok_def)

lemma maybeCompact_moves:
  assumes "deps_ok dp" "agent_ok a"
  shows "\<exists>r b. maybeCompact dp pc a = Some (r, b) \<and> moves a b"
proof (cases "pc_window pc \<le> 0")
  case True
  then show ?thesis using moving.refl [OF assms(2)] by (simp add: maybeCompact_def)
next
  case False
  let ?st = "projection_of (ag_log a)"
  obtain n where n: "nextRequestTokens (ag_log a) (pc_keep_thinking pc) = Some n"
    using nextRequestTokens_total [OF decodes_log [OF assms(2)]] by blast
  show ?thesis
  proof (cases "op_compaction (pr_options ?st)")
    case True
    have "\<exists>r b. summarizeLocked dp a = Some (r, b) \<and> moves a b" using summarizeLocked_returns [OF assms] quiet_moves by blast
    moreover have "\<exists>r b. clearResults k a = Some (r, b) \<and> moves a b" for k using clearResults_returns [OF assms(2)] quiet_moves by blast
    ultimately show ?thesis
      using False True moving.refl [OF assms(2)] by (simp add: maybeCompact_def h_state_ok [OF assms(2)] n Let_def)
  next
    case off: False
    let ?a = "add_note ''error'' (too_full (float_ratio n (pc_window pc)) (pc_window pc)) a"
    have m: "moves a ?a" using note_moves [OF assms(2)] .
    obtain r b where f: "finish (registry_hooks (dp_modules dp)) ''blocked'' ''context limit with compaction disabled'' ?a = Some (r, b)" "moves ?a b"
      using finish_moves [OF deps_modules [OF assms(1)] moving.stays [OF m]] by blast
    have "moves a b" using moving.trans [OF m f(2)] .
    with f(1) have "\<exists>r b. compaction_off dp pc n a = Some (r, b) \<and> moves a b"
      using moving.refl [OF assms(2)] by (simp add: compaction_off_def Let_def split: prod.split)
    then show ?thesis using False off by (simp add: maybeCompact_def h_state_ok [OF assms(2)] n)
  qed
qed

lemma afterTurn_outcome:
  assumes "deps_ok dp" "agent_ok a"
  shows "outcome a (afterTurn dp pc a)"
proof -
  obtain r b where c: "maybeCompact dp pc a = Some (r, b)" "moves a b" using maybeCompact_moves [OF assms] by blast
  then show ?thesis
    by (cases r) (simp_all add: afterTurn_def c(1) outcome_def h_state_ok [OF moving.stays [OF c(2)]])
qed

lemma invokeTool_moves:
  assumes "offered_ok tools ms" "agent_ok a"
  shows "\<exists>r b. invokeTool tools ms asker call a = Some (r, b) \<and> moves a b"
proof -
  let ?c = "with_args call"
  obtain x a1 where h: "h_append (DToolCall ?c) a = (x, a1)" by fastforce
  then have 1: "moves a a1" using h_append_moves [OF assms(2), of "DToolCall ?c"] by simp
  show ?thesis
  proof (cases x)
    case (Inl e)
    then show ?thesis using 1 h by (simp add: invokeTool_def)
  next
    case (Inr e)
    obtain res a2 where x: "executeTool tools ms asker ?c a1 = Some (res, a2)" "quiet a1 a2"
      using executeTool_answer [OF assms(1) moving.stays [OF 1]] by blast
    have 2: "moves a a2" using moving.trans [OF 1 quiet_moves [OF x(2)]] .
    let ?a3 = "snd (h_append (DToolResult res) a2)"
    have 3: "moves a ?a3" using moving.trans [OF 2 h_append_moves [OF moving.stays [OF 2], of "DToolResult res"]] by simp
    have "modules_ok ms" using assms(1) by (simp add: offered_ok_def)
    then have "moves a (ToolResult ms ?c res ?a3)"
      using moving.trans [OF 3 quiet_moves [OF dispatch_quiet(5) [OF _ moving.stays [OF 3]]]] by blast
    then show ?thesis using h Inr x(1) by (simp add: invokeTool_def Let_def)
  qed
qed

lemma refuseTool_moves:
  assumes "agent_ok a"
  shows "moves a (refuseTool call kind why a)"
proof -
  obtain x a1 where h: "h_append (DToolCall (with_args call)) a = (x, a1)" by fastforce
  then have 1: "moves a a1" using h_append_moves [OF assms, of "DToolCall (with_args call)"] by simp
  have "moves a (snd (h_append (DToolResult r) a1))" for r
    using moving.trans [OF 1 h_append_moves [OF moving.stays [OF 1], of "DToolResult r"]] by simp
  then show ?thesis using 1 by (simp add: refuseTool_def h Let_def split: sum.split)
qed

lemma run_calls_moves:
  assumes "deps_ok dp" "agent_ok a"
  shows "\<exists>r b. run_calls dp cutOff cap i tcs a = Some (r, b) \<and> moves a b"
  using assms(2)
proof (induction tcs arbitrary: i a)
  case Nil
  then show ?case by (simp add: moving.refl)
next
  case (Cons tc tcs)
  have off: "offered_ok (dp_tools dp) (dp_modules dp)" using assms(1) by (simp add: deps_ok_def)
  obtain r a1 where iv: "invokeTool (dp_tools dp) (dp_modules dp) (dp_asker dp) (call_data tc) a = Some (r, a1)" "moves a a1"
    using invokeTool_moves [OF off Cons.prems] by blast
  obtain y b where rest: "run_calls dp cutOff cap (i + 1) tcs a1 = Some (y, b)" "moves a1 b"
    using Cons.IH [OF moving.stays [OF iv(2)]] by blast
  have "moves a b" using moving.trans [OF iv(2) rest(2)] .
  then show ?case
    using iv rest(1) refuseTool_moves [OF Cons.prems] moving.refl [OF Cons.prems]
    by (cases "ag_halted a1") (simp_all)
qed

lemma tool_turn_outcome:
  assumes "deps_ok dp" "agent_ok a"
  shows "outcome a (tool_turn dp pc cutOff cap tcs a)"
proof -
  have "agent_ok (a\<lparr>ag_halted := None\<rparr>)" using assms(2) by (simp add: agent_ok_def)
  from run_calls_moves [OF assms(1) this, of cutOff cap 0 tcs]
  obtain r b where r: "run_calls dp cutOff cap 0 tcs (a\<lparr>ag_halted := None\<rparr>) = Some (r, b)" "moves a b" by auto
  note ok = moving.stays [OF r(2)]
  have halt: "outcome a (turn_finish dp ''blocked'' why (add_note ''warn'' msg b))" for why msg
    by (rule outcome_after [OF moving.trans [OF r(2) note_moves [OF ok, of "''warn''" msg]]])
       (simp add: turn_finish_outcome deps_modules [OF assms(1)] moving.stays [OF note_moves [OF ok]])
  show ?thesis
    using r(1) halt outcome_fails [OF r(2)] outcome_after [OF r(2) afterTurn_outcome [OF assms(1) ok]]
    by (cases r) (simp_all add: tool_turn_def)
qed


lemma stop_scan_total: "\<forall>e \<in> set es. decodes e \<Longrightarrow> \<exists>r. stop_scan said n es = Some r"
proof (induction es arbitrary: said n)
  case (Cons e es)
  then have "decodes e" by simp
  then have "ev_type e = ''message'' \<Longrightarrow> \<exists>d. MustData as_message e = Some d" using MustData_type(1) by blast
  then show ?case using Cons by (cases "ev_type e = ''message''") auto
qed simp

lemma vetoRounds_total: "agent_ok a \<Longrightarrow> \<exists>r. vetoRounds (ag_log a) = Some r"
  using vetoRounds_eq by (auto simp: agent_ok_def)

lemma stopInfo_total:
  assumes "agent_ok a"
  shows "\<exists>i. stopInfo (ag_log a) st = Some i"
proof -
  obtain s n where "stop_scan [] 0 (rev (ag_log a)) = Some (s, n)"
    using stop_scan_total [of "rev (ag_log a)" "[]" 0] decodes_log [OF assms] by auto
  moreover obtain r where "vetoRounds (ag_log a) = Some r" using vetoRounds_total [OF assms] by blast
  ultimately show ?thesis by (simp add: stopInfo_def)
qed

lemma appendVetoes_moves: "agent_ok a \<Longrightarrow> moves a (appendVetoes vs a)"
  unfolding appendVetoes_def
  using moving.fold_later [of vs "\<lambda>a. a" "\<lambda>a v. snd (h_append (DStopVeto v) a)" a] h_append_moves by simp

lemma blocked_with_outcome:
  assumes "modules_ok ms" "agent_ok a"
  shows "outcome a (blocked_with (registry_hooks ms) msg reason a)"
proof -
  let ?a = "snd (h_append (notice ''warn'' msg) a)"
  have m: "moves a ?a" using h_append_moves [OF assms(2), of "notice ''warn'' msg"] by (simp add: notice_def)
  obtain r b where f: "finish (registry_hooks ms) ''blocked'' reason ?a = Some (r, b)" "moves ?a b" "r = Inr () \<longrightarrow> ag_state b = ''blocked''"
    using finish_moves [OF assms(1) moving.stays [OF m]] by blast
  then show ?thesis using moving.trans [OF m f(2)] by (cases r) (simp_all add: blocked_with_def outcome_def)
qed

lemma turn_complete_outcome:
  assumes "agent_ok a"
  shows "outcome a (turn_complete a)"
proof (cases "ag_state a = ''idle''")
  case True
  then show ?thesis using assms moving.refl by (simp add: turn_complete_def toIdle_def h_state_ok outcome_def)
next
  case False
  let ?p = "DStateChange \<lparr>sc_from = Some (ag_state a), sc_to = ''idle'', sc_reason = ''turn_complete''\<rparr>"
  obtain x b where h: "h_append ?p a = (x, b)" by fastforce
  have m: "moves a b" using h_append_moves [OF assms, of ?p] h by simp
  have c: "change_state ''idle'' ''turn_complete'' a = Some (x, b)" using h assms by (simp add: change_state_def h_state_ok)
  have "ag_state b = ''idle''" if "x = Inr e" for e
    using c assms that by (cases rule: change_state_cases) simp_all
  then show ?thesis
    using False m c assms by (cases x) (simp_all add: turn_complete_def toIdle_def h_state_ok outcome_def)
qed

lemma askStopGate_outcome:
  assumes "modules_ok ms" "agent_ok a"
  shows "outcome a (askStopGate cfg ms a)"
proof -
  obtain info where i: "stopInfo (ag_log a) (projection_of (ag_log a)) = Some info" using stopInfo_total [OF assms(2)] by blast
  obtain vs a1 where v: "BeforeStop ms info a = (vs, a1)" by fastforce
  then have 1: "moves a a1" using quiet_moves [OF dispatch_quiet(4) [OF assms, of info]] by simp
  obtain rounds where r: "vetoRounds (ag_log a) = Some rounds" using vetoRounds_total [OF assms(2)] by blast
  then have "\<exists>stuck. stalled (ag_log a) (map sv_reason vs) (sg_no_progress cfg) = Some stuck" by (simp add: stalled_def) blast
  then obtain stuck where s: "stalled (ag_log a) (map sv_reason vs) (sg_no_progress cfg) = Some stuck" by blast
  let ?b = "appendVetoes vs a1"
  have 2: "moves a ?b" using moving.trans [OF 1 appendVetoes_moves [OF moving.stays [OF 1]]] .
  have "outcome a (blocked_with (registry_hooks ms) msg reason ?b)" for msg reason
    using outcome_after [OF 2 blocked_with_outcome [OF assms(1) moving.stays [OF 2]]] .
  then have "outcome a (objected cfg (registry_hooks ms) (ag_log a) vs a1)"
    using outcome_goes_on [OF 2] by (simp add: objected_def r s Let_def)
  then show ?thesis
    using outcome_after [OF 1 turn_complete_outcome [OF moving.stays [OF 1]]]
    by (simp add: askStopGate_def h_state_ok [OF assms(2)] i v)
qed

lemma answered_outcome:
  assumes "deps_ok dp" "agent_ok a"
  shows "outcome a (answered dp pc cap resp a)"
proof -
  have ms: "modules_ok (dp_modules dp)" using deps_modules [OF assms(1)] .
  let ?a = "TurnEnd (dp_modules dp) a"
  have 1: "moves a ?a" using TurnEnd_moves [OF ms assms(2)] .
  let ?b = "if rs_finish resp = ''length'' then add_note ''warn'' (''the reply reached its '' @ itoa cap @ ''-token cap and was cut off'') ?a else ?a"
  have 2: "moves a ?b" using 1 moving.trans [OF 1 note_moves [OF moving.stays [OF 1]]] by simp
  note ok = moving.stays [OF 2]
  show ?thesis
    unfolding answered_def Let_def
    using outcome_after [OF 2 tool_turn_outcome [OF assms(1) ok, of pc "rs_finish resp = ''length''" cap "rs_calls resp"]]
      outcome_after [OF 2 askStopGate_outcome [OF ms ok, of "stop_config (dp_config dp)"]] by simp
qed

lemma log_answer_outcome:
  assumes "deps_ok dp" "agent_ok a"
  shows "outcome a (log_answer dp pc cap s resp a)"
proof -
  obtain x a1 where l: "logThinking (sm_thought s) (rs_reasoning resp) a = (x, a1)" by fastforce
  then have 1: "moves a a1" using logThinking_moves [OF assms(2), of "sm_thought s" "rs_reasoning resp"] by simp
  let ?a2 = "if rs_recovered resp > 0 then add_note ''warn'' (recovered_notice (rs_recovered resp)) a1 else a1"
  have 2: "moves a ?a2" using 1 moving.trans [OF 1 note_moves [OF moving.stays [OF 1]]] by simp
  let ?p = "answer_data (rs_content resp) (if rs_usage resp = usage_zero then None else Some (rs_usage resp))"
  obtain y a3 where m: "must_append ?p ?a2 = (y, a3)" by fastforce
  then have 3: "moves a a3"
    using moving.trans [OF 2 must_append_moves [OF moving.stays [OF 2], of ?p]] by (simp add: answer_data_def)
  have "outcome a (answered dp pc cap resp a3)"
    using outcome_after [OF 3 answered_outcome [OF assms(1) moving.stays [OF 3]]] .
  then show ?thesis
    using outcome_fails [OF 1] outcome_fails [OF 3] unfolding log_answer_def l prod.case Let_def m by (simp split: sum.split)
qed


lemma call_done_outcome:
  assumes "deps_ok dp" "agent_ok a"
  shows "outcome a (call_done dp pc cap s c a)"
  using stopRepeating_outcome [OF deps_modules [OF assms(1)] assms(2)] log_answer_outcome [OF assms] moving.refl [OF assms(2)]
    note_moves [OF assms(2)]
  by (simp add: call_done_def outcome_fails Let_def split: option.split)

text \<open>The token counts of a response are Go ints.\<close>

definition counts_ok :: "Deps \<Rightarrow> bool" where
  "counts_ok dp \<longleftrightarrow> (\<forall>req a. usage_ok (rs_usage (cm_response (fst (dp_complete dp req a)))))"

lemma call_model_done:
  assumes "deps_ok dp" "agent_ok a"
  obtains cap s c b where "call_model dp pc req a = call_done dp pc cap s c b" "moves a b"
    "counts_ok dp \<longrightarrow> usage_ok (rs_usage (cm_response c))"
proof -
  obtain c a1 where c: "dp_complete dp req a = (c, a1)" by fastforce
  have q: "quiet x (snd (dp_complete dp r x))" if "agent_ok x" for x r using assms(1) that by (simp add: deps_ok_def)
  have 1: "moves a a1" using quiet_moves [OF q [OF assms(2), of req]] c by simp
  define s where "s = foldl stream_chunk (stream_start (pc_repeat_limit pc)) (cm_chunks c)"
  define room where "room = (case cm_error c of None \<Rightarrow> None
    | Some e \<Rightarrow> if dp_stopped dp After_call a1 \<or> sm_tripped s then None else roomNamed e)"
  have m: "call_model dp pc req a = (case room of
        Some r \<Rightarrow>
          if r \<ge> minReplyCap \<and> r < rq_max req
          then (let a2 = add_note ''info'' (''the server had room for a '' @ itoa r @ ''-token reply, not '' @ itoa (rq_max req) @
                           ''; asked again with that'') a1;
                    (c', a3) = dp_complete dp (req\<lparr>rq_max := r\<rparr>) a2 in
                call_done dp pc r (foldl stream_chunk s (cm_chunks c')) c' a3)
          else call_done dp pc (rq_max req) s c a1
      | None \<Rightarrow> call_done dp pc (rq_max req) s c a1)"
    by (simp only: call_model_def c prod.case Let_def s_def room_def)
  show thesis
  proof (cases "\<exists>r. room = Some r \<and> minReplyCap \<le> r \<and> r < rq_max req")
    case True
    then obtain r where r: "room = Some r" "minReplyCap \<le> r" "r < rq_max req" by blast
    let ?a2 = "add_note ''info'' (''the server had room for a '' @ itoa r @ ''-token reply, not '' @ itoa (rq_max req) @ ''; asked again with that'') a1"
    obtain c' a3 where c': "dp_complete dp (req\<lparr>rq_max := r\<rparr>) ?a2 = (c', a3)" by fastforce
    have 2: "moves a ?a2" using moving.trans [OF 1 note_moves [OF moving.stays [OF 1]]] .
    have "moves a a3" using moving.trans [OF 2 quiet_moves [OF q [OF moving.stays [OF 2], of "req\<lparr>rq_max := r\<rparr>"]]] c' by simp
    moreover have "call_model dp pc req a = call_done dp pc r (foldl stream_chunk s (cm_chunks c')) c' a3"
      unfolding m using r by (simp only: option.case Let_def c' prod.case) simp
    moreover have "counts_ok dp \<longrightarrow> usage_ok (rs_usage (cm_response c'))" using c' unfolding counts_ok_def by (metis fst_conv)
    ultimately show ?thesis using that by blast
  next
    case False
    have "counts_ok dp \<longrightarrow> usage_ok (rs_usage (cm_response c))" using c unfolding counts_ok_def by (metis fst_conv)
    moreover from False have "call_model dp pc req a = call_done dp pc (rq_max req) s c a1"
      unfolding m by (cases room) auto
    ultimately show ?thesis using that 1 by blast
  qed
qed

lemma call_model_outcome:
  assumes "deps_ok dp" "agent_ok a"
  shows "outcome a (call_model dp pc req a)"
proof -
  obtain cap s c b where d: "call_model dp pc req a = call_done dp pc cap s c b" "moves a b" using call_model_done [OF assms] .
  show ?thesis unfolding d(1) by (rule outcome_after [OF d(2) call_done_outcome [OF assms(1) moving.stays [OF d(2)]]])
qed

lemma prepared_moves:
  assumes "modules_ok (dp_modules dp)" "agent_ok a"
  shows "moves a (prepared dp a)"
proof -
  obtain blocks a1 where b: "BeforeRequest (dp_modules dp) a = (blocks, a1)" by fastforce
  then have q: "quiet a a1" using dispatch_quiet(3) [OF assms] by simp
  show ?thesis using quiet_moves [OF quiet_trans [OF q appendContexts_quiet [OF quiet_ok [OF q]]]] by (simp add: prepared_def b)
qed

lemma turn_request_total:
  assumes "agent_ok a" "distinct (map ev_id (ag_log a))"
  shows "\<exists>req. turn_request dp st name pc a = Some req"
proof -
  obtain cap where "replyCap (ag_log a) pc (cf_max_tokens (dp_config dp)) = Some cap"
    using replyCap_total [OF decodes_log [OF assms(1)]] by blast
  moreover obtain req where "buildRequest (ag_log a) (cf_prompt (dp_config dp)) name
       (map tl_name (toolsFor (dp_tools dp) (dp_modules dp) (pc_tasks pc) a)) cap (pc_keep_thinking pc) = Some req"
    using buildRequest_parts [OF decodes_log [OF assms(1)] assms(2)] by metis
  ultimately show ?thesis by (simp add: turn_request_def)
qed

lemma turn_outcome:
  assumes "deps_ok dp" "agent_ok a" "distinct (map ev_id (ag_log (prepared dp a)))"
  shows "outcome a (turn dp a)"
proof (cases "budgetExceeded (projection_of (ag_log a))")
  case (Some why)
  have m: "moves a (add_note ''warn'' why a)" using note_moves [OF assms(2)] .
  have "outcome a (turn_finish dp ''paused'' ''budget'' (add_note ''warn'' why a))"
    by (rule outcome_after [OF m turn_finish_outcome]) (simp_all add: deps_modules [OF assms(1)] moving.stays [OF m])
  then show ?thesis by (simp add: turn_def h_state_ok [OF assms(2)] Some)
next
  case None
  have m: "moves a (prepared dp a)" using prepared_moves [OF deps_modules [OF assms(1)] assms(2)] .
  show ?thesis
  proof (cases "dp_resolve dp (op_model (pr_options (projection_of (ag_log a))))")
    case (Inl e)
    then show ?thesis using outcome_fails [OF moving.refl [OF assms(2)]] by (simp add: turn_def h_state_ok [OF assms(2)] None)
  next
    case (Inr np)
    obtain name pc where np: "np = (name, pc)" by (cases np)
    obtain req where r: "turn_request dp (projection_of (ag_log a)) name pc (prepared dp a) = Some req"
      using turn_request_total [OF moving.stays [OF m] assms(3)] by blast
    show ?thesis
      using outcome_after [OF m call_model_outcome [OF assms(1) moving.stays [OF m]]]
      by (simp add: turn_def h_state_ok [OF assms(2)] None Inr np r)
  qed
qed


text \<open>A turn that another follows has logged an answer.\<close>

lemma answer_counts:
  assumes "must_append (answer_data content usage) a = (Inr u, b)" "agent_ok a" "\<And>us. usage = Some us \<Longrightarrow> usage_ok us"
  shows "answers b = Suc (answers a)"
proof -
  obtain e where h: "h_append (answer_data content usage) a = (Inr e, b)"
    using assms(1) by (auto simp: must_append_def split: prod.splits sum.splits)
  have "payload_ok (answer_data content usage)" using assms(3) by (simp add: answer_data_def message_ok_def)
  from h_append_Inr [OF h assms(2) _ this]
  have "ag_log b = ag_log a @ [e]" "DecodeData e = Inr (answer_data content usage)" by (simp_all add: answer_data_def)
  then show ?thesis
    by (simp add: assistant_turns_def decoded_snoc MustData_def as_message_def answer_data_def)
qed

lemma call_done_continues:
  assumes "call_done dp pc cap s c a = Some (Inr True, b)" "deps_ok dp" "agent_ok a" "usage_ok (rs_usage (cm_response c))"
  shows "answers a < answers b"
proof -
  let ?resp = "cm_response c"
  have L: "log_answer dp pc cap s ?resp a = Some (Inr True, b)"
    using assms(1) stopRepeating_ends by (auto simp: call_done_def Let_def split: if_splits option.splits)
  obtain x a1 where l: "logThinking (sm_thought s) (rs_reasoning ?resp) a = (x, a1)" by fastforce
  then have 1: "moves a a1" using logThinking_moves [OF assms(3), of "sm_thought s" "rs_reasoning ?resp"] by simp
  define a2 where "a2 = (if rs_recovered ?resp > 0 then add_note ''warn'' (recovered_notice (rs_recovered ?resp)) a1 else a1)"
  have 2: "moves a a2" using 1 moving.trans [OF 1 note_moves [OF moving.stays [OF 1]]] by (simp add: a2_def)
  define p where "p = answer_data (rs_content ?resp) (if rs_usage ?resp = usage_zero then None else Some (rs_usage ?resp))"
  obtain y a3 where m: "must_append p a2 = (y, a3)" by fastforce
  have r: "y = Inr ()" "answered dp pc cap ?resp a3 = Some (Inr True, b)"
    using L unfolding log_answer_def l prod.case Let_def p_def [symmetric] a2_def [symmetric] m by (auto split: sum.splits)
  have 3: "moves a2 a3" using must_append_moves [OF moving.stays [OF 2], of p] m by (simp add: p_def answer_data_def)
  have "answers a3 = Suc (answers a2)"
    by (rule answer_counts [OF m [unfolded r(1) p_def] moving.stays [OF 2]]) (use assms(4) in \<open>simp split: if_splits\<close>)
  moreover have "moves a3 b"
    using answered_outcome [OF assms(2) moving.stays [OF 3], of pc cap ?resp] r(2) by (simp add: outcome_def)
  ultimately show ?thesis using moves_answers [OF 2] moves_answers [of a3 b] by simp
qed

lemma turn_continues:
  assumes "turn dp a = Some (Inr True, b)" "deps_ok dp" "agent_ok a" "counts_ok dp"
  shows "answers a < answers b \<and> budgetExceeded (projection_of (ag_log a)) = None"
proof (cases "budgetExceeded (projection_of (ag_log a))")
  case (Some why)
  then show ?thesis using assms(1) turn_finish_ends by (simp add: turn_def h_state_ok [OF assms(3)])
next
  case None
  have m: "moves a (prepared dp a)" using prepared_moves [OF deps_modules [OF assms(2)] assms(3)] .
  have "\<exists>pc req. call_model dp pc req (prepared dp a) = Some (Inr True, b)"
    using assms(1) by (auto simp: turn_def h_state_ok [OF assms(3)] None Let_def split: bind_splits sum.splits prod.splits)
  then obtain pc req where t: "call_model dp pc req (prepared dp a) = Some (Inr True, b)" by blast
  obtain cap s c x where d: "call_model dp pc req (prepared dp a) = call_done dp pc cap s c x" "moves (prepared dp a) x"
    "counts_ok dp \<longrightarrow> usage_ok (rs_usage (cm_response c))"
    using call_model_done [OF assms(2) moving.stays [OF m]] by metis
  have "answers x < answers b"
    using call_done_continues [OF _ assms(2) moving.stays [OF d(2)]] assms(4) t d by simp
  then show ?thesis using moves_answers [OF moving.trans [OF m d(2)]] None by simp
qed


section \<open>Rounds of the loop\<close>

text \<open>No event id comes twice in the log that a request is built from.\<close>

definition ids_apart :: "Deps \<Rightarrow> Agent \<Rightarrow> bool" where
  "ids_apart dp a \<longleftrightarrow> distinct (map ev_id (ag_log (prepared dp a)))"

lemma loop_round_moves:
  assumes "deps_ok dp" "agent_ok a" "loop_round dp a = Some (cont, b)" "ids_apart dp a"
  shows "moves a b"
proof (cases "dp_stopped dp Loop_top a")
  case True
  then show ?thesis using assms(2,3) moving.refl by (simp add: loop_round_def)
next
  case False
  obtain x a1 where t: "turn dp a = Some (x, a1)" "moves a a1"
    using turn_outcome [OF assms(1,2,4) [unfolded ids_apart_def]] by (auto simp: outcome_def)
  show ?thesis
  proof (cases x)
    case (Inr c)
    then show ?thesis using assms(3) False t by (simp add: loop_round_def)
  next
    case (Inl e)
    let ?a2 = "add_note ''error'' e a1"
    have m: "moves a ?a2" using moving.trans [OF t(2) note_moves [OF moving.stays [OF t(2)]]] .
    obtain r a3 where f: "finish (registry_hooks (dp_modules dp)) ''error'' ''provider error'' ?a2 = Some (r, a3)" "moves ?a2 a3"
      using finish_moves [OF deps_modules [OF assms(1)] moving.stays [OF m]] by blast
    show ?thesis
      using assms(3) False t(1) Inl f(1) moving.trans [OF m f(2)] t(2) by (simp add: loop_round_def split: if_splits)
  qed
qed

lemma loop_round_total:
  assumes "deps_ok dp" "agent_ok a" "ids_apart dp a"
  shows "\<exists>cont b. loop_round dp a = Some (cont, b)"
proof -
  obtain x a1 where t: "turn dp a = Some (x, a1)" "moves a a1"
    using turn_outcome [OF assms [unfolded ids_apart_def]] by (auto simp: outcome_def)
  have m: "moves a1 (add_note ''error'' e a1)" for e using note_moves [OF moving.stays [OF t(2)]] .
  have f: "\<exists>r b. finish (registry_hooks (dp_modules dp)) ''error'' ''provider error'' (add_note ''error'' e a1) = Some (r, b)" for e
    using finish_moves [OF deps_modules [OF assms(1)] moving.stays [OF m]] by blast
  show ?thesis
  proof (cases x)
    case (Inl e)
    from f [of e] show ?thesis by (auto simp: loop_round_def t(1) Inl)
  next
    case (Inr c)
    then show ?thesis by (cases "dp_stopped dp Loop_top a") (auto simp: loop_round_def t(1))
  qed
qed

lemma loop_round_settles:
  assumes "deps_ok dp" "agent_ok a" "loop_round dp a = Some (False, b)" "ids_apart dp a"
    "\<And>p x. \<not> dp_stopped dp p x" "writes a" "small_tasks (ag_log b)"
  shows "ag_state b \<noteq> ''running''"
proof -
  obtain x a1 where t: "turn dp a = Some (x, a1)" "moves a a1" "x = Inr False \<longrightarrow> ag_state a1 \<noteq> ''running''"
    using turn_outcome [OF assms(1,2,4) [unfolded ids_apart_def]] by (auto simp: outcome_def)
  show ?thesis
  proof (cases x)
    case (Inr c)
    then show ?thesis using assms(3,5) t by (simp add: loop_round_def)
  next
    case (Inl e)
    let ?a2 = "add_note ''error'' e a1"
    have m: "moves a ?a2" using moving.trans [OF t(2) note_moves [OF moving.stays [OF t(2)]]] .
    obtain r a3 where f: "finish (registry_hooks (dp_modules dp)) ''error'' ''provider error'' ?a2 = Some (r, a3)"
      "r = Inr () \<longrightarrow> ag_state a3 = ''error''" "writes ?a2 \<and> small_tasks (ag_log a3) \<and> exit_state ''error'' \<longrightarrow> r = Inr ()"
      using finish_moves [OF deps_modules [OF assms(1)] moving.stays [OF m], of "''error''" "''provider error''"] by blast
    have b: "b = a3" using assms(3,5) t(1) Inl f(1) by (simp add: loop_round_def)
    have "exit_state ''error''" by (simp add: exit_state_def)
    then have "ag_state a3 = ''error''" using f(2,3) m assms(6,7) b by (simp add: moves_def)
    then show ?thesis using b by simp
  qed
qed

lemma loop_round_continues:
  assumes "loop_round dp a = Some (True, b)"
  shows "turn dp a = Some (Inr True, b)"
  using assms by (auto simp: loop_round_def split: if_splits option.splits sum.splits)

text \<open>What holds of the session in front of each of the first \<open>n\<close> rounds that is reached.\<close>

definition rounds_have :: "(Agent \<Rightarrow> bool) \<Rightarrow> nat \<Rightarrow> Deps \<Rightarrow> Agent \<Rightarrow> bool" where
  "rounds_have P n dp a \<longleftrightarrow> (\<forall>k < n. \<forall>b. runLoop k dp a = Some (True, b) \<longrightarrow> P b)"

lemma rounds_have_Suc:
  assumes "rounds_have P (Suc n) dp a"
  shows "P a" "loop_round dp a = Some (True, b) \<Longrightarrow> rounds_have P n dp b"
proof -
  show "P a" using assms unfolding rounds_have_def by (metis runLoop.simps(1) zero_less_Suc)
  assume r: "loop_round dp a = Some (True, b)"
  show "rounds_have P n dp b"
    unfolding rounds_have_def
  proof (intro allI impI)
    fix k c assume "k < n" "runLoop k dp b = Some (True, c)"
    then have "Suc k < Suc n" "runLoop (Suc k) dp a = Some (True, c)" using r by simp_all
    then show "P c" using assms unfolding rounds_have_def by blast
  qed
qed

lemma runLoop_total:
  assumes "deps_ok dp" "agent_ok a" "rounds_have (ids_apart dp) n dp a"
  shows "\<exists>cont b. runLoop n dp a = Some (cont, b) \<and> moves a b"
  using assms(2,3)
proof (induction n arbitrary: a)
  case 0
  then show ?case using moving.refl by auto
next
  case (Suc n)
  note d = rounds_have_Suc [OF Suc.prems(2)]
  obtain cont b where r: "loop_round dp a = Some (cont, b)" using loop_round_total [OF assms(1) Suc.prems(1) d(1)] by blast
  have m: "moves a b" using loop_round_moves [OF assms(1) Suc.prems(1) r d(1)] .
  show ?case
  proof (cases cont)
    case True
    then have "rounds_have (ids_apart dp) n dp b" using d(2) r by simp
    then obtain c x where "runLoop n dp b = Some (c, x)" "moves b x" using Suc.IH [OF moving.stays [OF m]] by blast
    then show ?thesis using r True moving.trans [OF m] by auto
  next
    case False
    then show ?thesis using r m by auto
  qed
qed

lemma runLoop_settles:
  assumes "deps_ok dp" "agent_ok a" "rounds_have (ids_apart dp) n dp a" "runLoop n dp a = Some (False, b)"
    "\<And>p x. \<not> dp_stopped dp p x" "writes a" "small_tasks (ag_log b)"
  shows "ag_state b \<noteq> ''running''"
  using assms(2-4,6,7)
proof (induction n arbitrary: a)
  case (Suc n)
  note d = rounds_have_Suc [OF Suc.prems(2)]
  obtain cont x where r: "loop_round dp a = Some (cont, x)" using Suc.prems(3) by (auto split: option.splits)
  have m: "moves a x" using loop_round_moves [OF assms(1) Suc.prems(1) r d(1)] .
  show ?case
  proof (cases cont)
    case True
    then show ?thesis
      using Suc.IH [OF moving.stays [OF m] d(2)] r Suc.prems(3-5) m by (simp add: moves_def)
  next
    case False
    then have "b = x" using Suc.prems(3) r by simp
    then show ?thesis using loop_round_settles [OF assms(1) Suc.prems(1) _ d(1) assms(5) Suc.prems(4)] r False Suc.prems(5) by simp
  qed
qed simp

lemma runLoop_budget:
  assumes "deps_ok dp" "counts_ok dp" "0 < B" "agent_ok a"
    "rounds_have (\<lambda>b. ids_apart dp b \<and> bd_turns (pr_budget (projection_of (ag_log b))) = B) n dp a"
    "runLoop n dp a = Some (True, b)" "0 < n"
  shows "int (answers a + n) \<le> B"
  using assms(4-)
proof (induction n arbitrary: a)
  case (Suc n)
  note d = rounds_have_Suc [OF Suc.prems(2)]
  obtain x where r: "loop_round dp a = Some (True, x)" "runLoop n dp x = Some (True, b)"
    using Suc.prems(3) by (auto split: option.splits if_splits)
  have m: "moves a x" using loop_round_moves [OF assms(1) Suc.prems(1) r(1) conjunct1 [OF d(1)]] .
  have c: "answers a < answers x" "budgetExceeded (projection_of (ag_log a)) = None"
    using turn_continues [OF loop_round_continues [OF r(1)] assms(1) Suc.prems(1) assms(2)] by simp_all
  have "int (answers a) < B"
    using c(2) d(1) assms(3) by (simp add: budgetExceeded_def Let_def projection_of_def split: if_splits)
  moreover have "int (answers x + n) \<le> B" if "0 < n"
    using Suc.IH [OF moving.stays [OF m] d(2) [OF r(1)] r(2) that] .
  ultimately show ?case using c(1) by (cases n) auto
qed simp

section \<open>The calls of a batch\<close>

text \<open>A call that the log can hold.\<close>

definition nameable :: "ToolCall \<Rightarrow> bool" where
  "nameable tc \<longleftrightarrow> pt_id tc \<noteq> [] \<and> pt_name tc \<noteq> [] \<and> (pt_args tc = None \<or> (\<exists>fs. pt_args tc = Some (JObj fs)))"

text \<open>What was logged since.\<close>

definition since :: "Agent \<Rightarrow> Agent \<Rightarrow> Event list" where
  "since a b = drop (length (ag_log a)) (ag_log b)"

lemma with_args_call: "nameable tc \<Longrightarrow> validate_payload (DToolCall (with_args (call_data tc))) = None"
  by (auto simp: with_args_def call_data_def nameable_def validate_tool_call_def isSource_def raw_len_def)

text \<open>A call and its answer in what was logged: the call's event first, its result after it.\<close>

definition exchange :: "ToolCall \<Rightarrow> Event list \<Rightarrow> bool" where
  "exchange tc new \<longleftrightarrow> (\<exists>c mid r post x. new = c # mid @ r # post \<and> MustData as_tool_call c = Some (with_args (call_data tc)) \<and>
     MustData as_tool_result r = Some x \<and> tr_call x = pt_id tc)"

lemma invoked_exchange:
  assumes "deps_ok dp" "agent_ok a" "writes a" "nameable tc"
    "invokeTool (dp_tools dp) (dp_modules dp) (dp_asker dp) (call_data tc) a = Some (r, b)"
  shows "exchange tc (since a b)"
proof -
  have off: "offered_ok (dp_tools dp) (dp_modules dp)" using assms(1) by (simp add: deps_ok_def)
  have "\<not> (\<exists>e. fst (h_append (DToolCall (with_args (call_data tc))) a) = Inl e)"
    using h_append_writes [OF assms(2,3) _ with_args_call [OF assms(4)]] with_args_ok by auto
  then obtain c mid res post where "ag_log b = ag_log a @ c # mid @ res # post" "MustData as_tool_result res = Some r"
    "tr_call r = tc_call (call_data tc)" "MustData as_tool_call c = Some (with_args (call_data tc))"
    using invokeTool_logs [OF off assms(2,3), of "dp_asker dp" "call_data tc"] assms(5) by auto
  then show ?thesis unfolding exchange_def since_def
    by (intro exI [of _ c] exI [of _ mid] exI [of _ res] exI [of _ post] exI [of _ r]) (simp add: call_data_def)
qed

lemma refused_exchange:
  assumes "agent_ok a" "writes a" "nameable tc"
  shows "exchange tc (since a (refuseTool (call_data tc) ''invalid_args'' why a))"
proof -
  let ?c = "with_args (call_data tc)"
  obtain e a1 where h: "h_append (DToolCall ?c) a = (Inr e, a1)" "writes a1"
    using h_append_writes [OF assms(1,2) _ with_args_call [OF assms(3)]] with_args_ok by auto
  have l: "ag_log a1 = ag_log a @ [e]" "agent_ok a1" "DecodeData e = Inr (DToolCall ?c)"
    using h_append_Inr [OF h(1) assms(1)] with_args_ok by simp_all
  let ?r = "DToolResult (tool_fail ?c ''invalid_args'' why)"
  have ok: "payload_ok ?r" "validate_payload ?r = None"
    using assms(3) by (auto simp: tool_fail_def tool_result_ok_def validate_tool_result_def IsToolErrorKind_def ToolErrorKinds_def with_args_def call_data_def nameable_def)
  obtain f a2 where g: "h_append ?r a1 = (Inr f, a2)" using h_append_writes [OF l(2) h(2) ok] by auto
  have "ag_log a2 = ag_log a @ [e, f]" "DecodeData f = Inr ?r" using h_append_Inr [OF g l(2) _ ok(1)] l(1) by simp_all
  moreover have "refuseTool (call_data tc) ''invalid_args'' why a = a2" by (simp add: refuseTool_def Let_def h(1) g)
  moreover have "tr_call (tool_fail ?c ''invalid_args'' why) = pt_id tc" by (simp add: tool_fail_def with_args_def call_data_def)
  ultimately show ?thesis using l(3) unfolding exchange_def since_def
    by (intro exI [of _ e] exI [of _ "[]"] exI [of _ f] exI [of _ "[]"] exI) (simp add: MustData_def as_tool_result_def as_tool_call_def)
qed

section \<open>Properties\<close>

text \<open>C11: Every call of a turn is answered. While writes succeed a batch of well-formed calls returns. The calls it
  ran, taken from the front, are a chain of states: each call was started where the one before it left the
  session, with no cancellation seen and no halt signalled before it, by \<open>invokeTool\<close>, or for a last call
  that the token cap cut off, by \<open>refuseTool\<close>; and what each logged begins with the call and holds its result.
  Every call runs unless the context was found cancelled before the next one, or the last that ran
  left the session halted.\<close>
theorem batch_answers:
  assumes "deps_ok dp" "agent_ok a" "writes a" "\<forall>tc \<in> set tcs. nameable tc"
  shows "\<exists>r b ran rest as. run_calls dp cutOff cap i tcs a = Some (r, b) \<and> tcs = ran @ rest \<and>
    length as = Suc (length ran) \<and> as ! 0 = a \<and> ag_log b = ag_log (as ! length ran) \<and>
    (\<forall>j < length ran. \<not> dp_stopped dp (Before_tool (i + j)) (as ! j) \<and>
       (if cutOff \<and> Suc j = length tcs
        then as ! Suc j = refuseTool (call_data (ran ! j)) ''invalid_args'' (cut_off_refusal cap) (as ! j)
        else (\<exists>res. invokeTool (dp_tools dp) (dp_modules dp) (dp_asker dp) (call_data (ran ! j)) (as ! j) = Some (res, as ! Suc j))) \<and>
       exchange (ran ! j) (since (as ! j) (as ! Suc j)) \<and>
       (Suc j < length ran \<longrightarrow> ag_halted (as ! Suc j) = None)) \<and>
    (case r of Batch_done \<Rightarrow> rest = []
     | Batch_cancelled \<Rightarrow> rest \<noteq> [] \<and> dp_stopped dp (Before_tool (i + length ran)) (as ! length ran)
     | Batch_halted why \<Rightarrow> ran \<noteq> [] \<and> ag_halted (as ! length ran) = Some why)"
  using assms(2-)
proof (induction tcs arbitrary: i a)
  case Nil
  then show ?case by (intro exI [of _ Batch_done] exI [of _ a] exI [of _ "[]"] exI [of _ "[a]"]) simp
next
  case (Cons tc tcs)
  have off: "offered_ok (dp_tools dp) (dp_modules dp)" using assms(1) by (simp add: deps_ok_def)
  have nm: "nameable tc" "\<forall>tc \<in> set tcs. nameable tc" using Cons.prems(3) by simp_all
  obtain x a1 where iv: "invokeTool (dp_tools dp) (dp_modules dp) (dp_asker dp) (call_data tc) a = Some (x, a1)" "moves a a1"
    using invokeTool_moves [OF off Cons.prems(1)] by blast
  note answered = invoked_exchange [OF assms(1) Cons.prems(1,2) nm(1) iv(1)]
  consider (cancelled) "dp_stopped dp (Before_tool i) a" | (refused) "\<not> dp_stopped dp (Before_tool i) a" "cutOff" "tcs = []"
    | (halted) why where "\<not> dp_stopped dp (Before_tool i) a" "\<not> (cutOff \<and> tcs = [])" "ag_halted a1 = Some why"
    | (more) "\<not> dp_stopped dp (Before_tool i) a" "\<not> (cutOff \<and> tcs = [])" "ag_halted a1 = None"
    by blast
  then show ?case
  proof cases
    case cancelled
    then show ?thesis
      by (intro exI [of _ Batch_cancelled] exI [of _ a] exI [of _ "[]"] exI [of _ "tc # tcs"] exI [of _ "[a]"]) simp
  next
    case refused
    let ?b = "refuseTool (call_data tc) ''invalid_args'' (cut_off_refusal cap) a"
    show ?thesis using refused refused_exchange [OF Cons.prems(1,2) nm(1), of "cut_off_refusal cap"]
      by (intro exI [of _ Batch_done] exI [of _ ?b] exI [of _ "[tc]"] exI [of _ "[]"] exI [of _ "[a, ?b]"]) simp
  next
    case halted
    then show ?thesis using iv(1) answered
      by (intro exI [of _ "Batch_halted why"] exI [of _ "a1\<lparr>ag_halted := None\<rparr>"] exI [of _ "[tc]"] exI [of _ tcs] exI [of _ "[a, a1]"]) auto
  next
    case more
    have w: "writes a1" using iv(2) Cons.prems(2) by (simp add: moves_def)
    obtain r b ran rest as where b: "run_calls dp cutOff cap (i + 1) tcs a1 = Some (r, b)" "tcs = ran @ rest"
      "length as = Suc (length ran)" "as ! 0 = a1" "ag_log b = ag_log (as ! length ran)"
      and steps: "\<forall>j < length ran. \<not> dp_stopped dp (Before_tool (i + 1 + j)) (as ! j) \<and>
       (if cutOff \<and> Suc j = length tcs
        then as ! Suc j = refuseTool (call_data (ran ! j)) ''invalid_args'' (cut_off_refusal cap) (as ! j)
        else (\<exists>res. invokeTool (dp_tools dp) (dp_modules dp) (dp_asker dp) (call_data (ran ! j)) (as ! j) = Some (res, as ! Suc j))) \<and>
       exchange (ran ! j) (since (as ! j) (as ! Suc j)) \<and>
       (Suc j < length ran \<longrightarrow> ag_halted (as ! Suc j) = None)"
      and ends: "case r of Batch_done \<Rightarrow> rest = []
     | Batch_cancelled \<Rightarrow> rest \<noteq> [] \<and> dp_stopped dp (Before_tool (i + 1 + length ran)) (as ! length ran)
     | Batch_halted why \<Rightarrow> ran \<noteq> [] \<and> ag_halted (as ! length ran) = Some why"
      using Cons.IH [OF moving.stays [OF iv(2)] w nm(2), of "i + 1"] by blast
    have run: "run_calls dp cutOff cap i (tc # tcs) a = Some (r, b)" using more iv(1) b(1) by auto
    show ?thesis
    proof (rule exI [of _ r], rule exI [of _ b], rule exI [of _ "tc # ran"], rule exI [of _ rest], rule exI [of _ "a # as"], intro conjI allI impI)
      fix j assume j: "j < length (tc # ran)"
      show "\<not> dp_stopped dp (Before_tool (i + j)) ((a # as) ! j)"
        using more(1) steps j by (cases j) auto
      show "if cutOff \<and> Suc j = length (tc # tcs)
        then (a # as) ! Suc j = refuseTool (call_data ((tc # ran) ! j)) ''invalid_args'' (cut_off_refusal cap) ((a # as) ! j)
        else (\<exists>res. invokeTool (dp_tools dp) (dp_modules dp) (dp_asker dp) (call_data ((tc # ran) ! j)) ((a # as) ! j) = Some (res, (a # as) ! Suc j))"
      proof (cases j)
        case 0
        then show ?thesis using more(2) iv(1) b(4) by auto
      next
        case (Suc k)
        then have "k < length ran" using j by simp
        from steps [rule_format, OF this] show ?thesis unfolding Suc nth_Cons_Suc list.size(4) add_0_right add_Suc_right nat.inject by blast
      qed
      show "exchange ((tc # ran) ! j) (since ((a # as) ! j) ((a # as) ! Suc j))"
        using answered steps j b(4) by (cases j) auto
      show "ag_halted ((a # as) ! Suc j) = None" if "Suc j < length (tc # ran)"
        using more(3) steps that b(4) by (cases j) auto
    next
      show "run_calls dp cutOff cap i (tc # tcs) a = Some (r, b)" by (rule run)
    qed (use b ends in \<open>simp_all split: batch.splits\<close>)
  qed
qed

lemma batch_answers_witness:
  "\<exists>b as. run_calls sample_deps True 100 0 [\<lparr>pt_id = ''c1'', pt_name = ''read'', pt_args = None\<rparr>] sample_agent = Some (Batch_done, b) \<and>
     as ! 0 = sample_agent \<and> ag_log b = ag_log (as ! 1) \<and>
     exchange \<lparr>pt_id = ''c1'', pt_name = ''read'', pt_args = None\<rparr> (since (as ! 0) (as ! 1))"
proof -
  let ?tc = "\<lparr>pt_id = ''c1'', pt_name = ''read'', pt_args = None\<rparr>"
  have "nameable ?tc" by (simp add: nameable_def)
  then obtain r b ran rest as where r: "run_calls sample_deps True 100 0 [?tc] sample_agent = Some (r, b)" "[?tc] = ran @ rest"
    "as ! 0 = sample_agent" "ag_log b = ag_log (as ! length ran)"
    "\<forall>j < length ran. exchange (ran ! j) (since (as ! j) (as ! Suc j))" "case r of Batch_done \<Rightarrow> rest = [] | _ \<Rightarrow> True"
    using batch_answers [OF sample_deps_ok(1) sample_agent_ok sample_agent_writes, of "[?tc]" True 100 0]
    by (fastforce split: batch.splits)
  have "r = Batch_done" using r(1) by (simp add: sample_deps_def)
  then have ran: "ran = [?tc]" using r(2,6) by simp
  have "run_calls sample_deps True 100 0 [?tc] sample_agent = Some (Batch_done, b)" using r(1) \<open>r = Batch_done\<close> by simp
  moreover have "exchange ?tc (since (as ! 0) (as ! 1))" "ag_log b = ag_log (as ! 1)"
    using r(4) r(5) [rule_format, of 0] unfolding ran by simp_all
  ultimately show ?thesis using r(3) by blast
qed

text \<open>C4: A turn always returns, unless the log repeats an event id, and only extends the log. A turn that stops the
  loop leaves a session that is not running; one that another follows was within its budget and has logged
  an answer of the model.\<close>
theorem turn_returns:
  assumes "deps_ok dp" "counts_ok dp" "agent_ok a" "ids_apart dp a"
  shows "\<exists>x b. turn dp a = Some (x, b) \<and> grows a b \<and> (x = Inr False \<longrightarrow> ag_state b \<noteq> ''running'') \<and>
    (x = Inr True \<longrightarrow> budgetExceeded (projection_of (ag_log a)) = None \<and>
       pr_turns (projection_of (ag_log a)) < pr_turns (projection_of (ag_log b)))"
proof -
  obtain x b where t: "turn dp a = Some (x, b)" "moves a b" "x = Inr False \<longrightarrow> ag_state b \<noteq> ''running''"
    using turn_outcome [OF assms(1,3) assms(4) [unfolded ids_apart_def]] by (auto simp: outcome_def)
  moreover have "budgetExceeded (projection_of (ag_log a)) = None \<and>
       pr_turns (projection_of (ag_log a)) < pr_turns (projection_of (ag_log b))" if "x = Inr True"
    using turn_continues [OF _ assms(1,3,2)] t(1) that by (simp add: projection_of_def)
  ultimately show ?thesis using moves_grows by blast
qed

lemma sample_prepared: "prepared sample_deps a = a"
  by (simp add: prepared_def sample_deps_def BeforeRequest_def appendContexts_def)

lemma sample_counts: "counts_ok sample_deps"
  by (simp add: counts_ok_def sample_deps_def sample_completion_def usage_ok_def usage_zero_def int64_ok_def int64_min_def int64_max_def)

lemma turn_returns_witness: "\<exists>x b. turn sample_deps sample_agent = Some (x, b) \<and> grows sample_agent b"
proof -
  obtain e0 where "ag_log sample_agent = [e0]" using sample_created_ok by (auto simp: sample_agent_def)
  then have "ids_apart sample_deps sample_agent" by (simp add: ids_apart_def sample_prepared)
  from turn_returns [OF sample_deps_ok(1) sample_counts sample_agent_ok this] show ?thesis by blast
qed

text \<open>C5: A budget of turns ends the loop. However the model answers and the gates object, a loop whose turn budget stays
  in force has ended after one round more than the turns that were left, if not before; that round pauses
  the session instead of calling the model.\<close>
theorem runLoop_ends:
  assumes "deps_ok dp" "counts_ok dp" "agent_ok a" "0 < B"
    "rounds_have (\<lambda>b. ids_apart dp b \<and> bd_turns (pr_budget (projection_of (ag_log b))) = B) n dp a"
    "B < pr_turns (projection_of (ag_log a)) + int n" "0 < n"
  shows "\<exists>b. runLoop n dp a = Some (False, b) \<and> grows a b"
proof -
  have "rounds_have (ids_apart dp) n dp a" using assms(5) unfolding rounds_have_def by blast
  then obtain cont b where r: "runLoop n dp a = Some (cont, b)" "moves a b" using runLoop_total [OF assms(1,3)] by blast
  have "\<not> cont"
    using runLoop_budget [OF assms(1,2,4,3,5)] r(1) assms(6,7) by (cases cont) (auto simp: projection_of_def)
  then show ?thesis using r moves_grows by simp
qed

abbreviation spent_log :: "Event list" where
  "spent_log \<equiv> sample_log [sample_session, sample_answer ''ok'', DBudget (budget_zero\<lparr>bd_turns := 1, bd_source := ''daemon''\<rparr>)]"

lemma spent_log_ok:
  "ValidateLog spent_log = None" "distinct (map ev_id spent_log)" "bd_turns (pr_budget (projection_of spent_log)) = 1"
  "pr_turns (projection_of spent_log) = 1"
proof -
  have ok: "payload_ok (DBudget (budget_zero\<lparr>bd_turns := 1, bd_source := ''daemon''\<rparr>))"
    "validate_payload (DBudget (budget_zero\<lparr>bd_turns := 1, bd_source := ''daemon''\<rparr>)) = None"
    by (simp_all add: budget_ok_def int64_ok_def int64_min_def int64_max_def validate_budget_def budget_zero_def isSource_def float_neg_def has_prefix_def)
  show "ValidateLog spent_log = None" using ok by (intro sample_log_valid) auto
  have "ids_sorted spent_log" by (simp add: ids_sorted_def sample_log3 sample_id_mono)
  then show "distinct (map ev_id spent_log)" by (rule ids_sorted_distinct)
  have parts: "as_budget sample_session = None" "as_message sample_session = None" "as_budget (sample_answer s) = None"
    "as_message (sample_answer s) = Some (message_zero\<lparr>msg_role := ''assistant'', msg_content := s,
       msg_usage := Some \<lparr>us_input = 10, us_output = 5, us_cached = 0\<rparr>\<rparr>)"
    "as_message (DBudget d) = None" "as_budget (DBudget d) = Some d" for s d
    by (simp_all add: as_defs sample_session_def sample_answer_def)
  show "bd_turns (pr_budget (projection_of spent_log)) = 1" "pr_turns (projection_of spent_log) = 1"
    using ok by (simp_all add: projection_of_def sample_log3 decoded_def List.map_filter_def assistant_turns_def parts last_of_def)
qed

lemma spent_rounds:
  "rounds_have (\<lambda>b. ids_apart sample_deps b \<and> bd_turns (pr_budget (projection_of (ag_log b))) = 1) 1 sample_deps (logged spent_log)"
  using spent_log_ok by (simp add: rounds_have_def ids_apart_def sample_prepared)

lemma runLoop_ends_witness: "\<exists>b. runLoop 1 sample_deps (logged spent_log) = Some (False, b) \<and> grows (logged spent_log) b"
  using spent_log_ok by (intro runLoop_ends [OF sample_deps_ok(1) sample_counts _ _ spent_rounds]) simp_all

text \<open>C6: No session is left running behind a loop that has ended. With writes that succeed and no cancellation, a loop
  that returned, by whatever error or decision, has moved the session out of the running state.\<close>
theorem runLoop_leaves_running:
  assumes "deps_ok dp" "agent_ok a" "rounds_have (ids_apart dp) n dp a" "\<forall>p x. \<not> dp_stopped dp p x" "writes a"
  shows "\<exists>cont b. runLoop n dp a = Some (cont, b) \<and> grows a b \<and>
    (cont \<or> ag_state b \<noteq> ''running'' \<or> \<not> small_tasks (ag_log b))"
proof -
  obtain cont b where r: "runLoop n dp a = Some (cont, b)" "moves a b" using runLoop_total [OF assms(1-3)] by blast
  have "ag_state b \<noteq> ''running''" if "\<not> cont" "small_tasks (ag_log b)"
    using runLoop_settles [OF assms(1-3) _ _ assms(5) that(2)] r(1) that(1) assms(4) by simp
  then show ?thesis using r moves_grows by blast
qed

lemma runLoop_leaves_running_witness:
  "\<exists>cont b. runLoop 1 sample_deps (logged spent_log) = Some (cont, b) \<and> grows (logged spent_log) b"
proof -
  have "rounds_have (ids_apart sample_deps) 1 sample_deps (logged spent_log)" using spent_rounds unfolding rounds_have_def by blast
  then show ?thesis
    using runLoop_leaves_running [OF sample_deps_ok(1) _ _ _ logged_simps(3), of spent_log 1] spent_log_ok(1)
    by (auto simp: sample_deps_def)
qed

end
