(* ===== verification/Prompting.thy ===== *)
theory Prompting
  imports Agent_Ops
begin

text \<open>
  \<open>PromptWithID\<close> of \<open>daemon/agent/manager.go\<close> as it runs beside others: any number of calls for one session, each
  in its own goroutine, with a summary being written and other operations in between. A call checks its client
  id before it takes \<open>compactMu\<close> (\<open>Arrived\<close> to \<open>Waiting\<close> or answered), reads the state under the lock
  (\<open>Waiting\<close> to \<open>Admitted\<close> or refused) and appends (\<open>Admitted\<close> to \<open>Replied\<close>). The lock is held by one call or by a
  summary. What other operations do to the session meanwhile is any growth of its log in which no message has a
  client id, since only this operation sets one.

  \<open>ps_overlap\<close>, for the proofs only, collects the client ids that a second call passed the check with while
  a first was between its check and its answer. The lemmas show that a client id outside it has one message,
  and that inside it two are possible.
\<close>

datatype call_state = Arrived | Waiting | Admitted | Replied "fault + Event"

record Caller =
  cl_content :: string
  cl_client :: string
  cl_state :: call_state

datatype holder = Summary_writer | Call nat

record Prompts =
  ps_agent :: Agent
  ps_calls :: "Caller list"
  ps_lock :: "holder option"
  ps_overlap :: "string set"

definition client_of :: "Event \<Rightarrow> string option" where
  "client_of e = (if ev_type e = ''message'' then map_option msg_client (MustData as_message e) else None)"

abbreviation sent_by :: "string \<Rightarrow> Event list \<Rightarrow> Event list" where
  "sent_by c log \<equiv> filter (\<lambda>e. client_of e = Some c) log"

text \<open>A call between its check and its answer.\<close>

definition in_flight :: "string \<Rightarrow> Caller \<Rightarrow> bool" where
  "in_flight c k \<longleftrightarrow> cl_client k = c \<and> (cl_state k = Waiting \<or> cl_state k = Admitted)"

definition set_call :: "nat \<Rightarrow> call_state \<Rightarrow> Prompts \<Rightarrow> Prompts" where
  "set_call i x s = s\<lparr>ps_calls := (ps_calls s)[i := (ps_calls s ! i)\<lparr>cl_state := x\<rparr>]\<rparr>"

definition at_state :: "nat \<Rightarrow> call_state \<Rightarrow> Prompts \<Rightarrow> bool" where
  "at_state i x s \<longleftrightarrow> i < length (ps_calls s) \<and> cl_state (ps_calls s ! i) = x"

section \<open>The steps\<close>

inductive prompt_step :: "Prompts \<Rightarrow> Prompts \<Rightarrow> bool" where
  arrives: "prompt_step s (s\<lparr>ps_calls := ps_calls s @ [\<lparr>cl_content = content, cl_client = c, cl_state = Arrived\<rparr>]\<rparr>)"
| known: "\<lbrakk>at_state i Arrived s; prompt_seen (ag_log (ps_agent s)) (cl_client (ps_calls s ! i)) = Some e\<rbrakk> \<Longrightarrow>
    prompt_step s (set_call i (Replied (Inr e)) s)"
| unknown: "\<lbrakk>at_state i Arrived s; c = cl_client (ps_calls s ! i); prompt_seen (ag_log (ps_agent s)) c = None;
     ov = ps_overlap s \<union> (if \<exists>k \<in> set (ps_calls s). in_flight c k then {c} else {})\<rbrakk> \<Longrightarrow>
    prompt_step s (set_call i Waiting (s\<lparr>ps_overlap := ov\<rparr>))"
| refused: "\<lbrakk>at_state i Waiting s; ps_lock s = None; h_state (ps_agent s) = Some st; prompt_refusal st = Some err\<rbrakk> \<Longrightarrow>
    prompt_step s (set_call i (Replied (Inl (Rpc err))) s)"
| admitted: "\<lbrakk>at_state i Waiting s; ps_lock s = None; h_state (ps_agent s) = Some st; prompt_refusal st = None\<rbrakk> \<Longrightarrow>
    prompt_step s (set_call i Admitted (s\<lparr>ps_lock := Some (Call i)\<rparr>))"
| appends: "\<lbrakk>at_state i Admitted s; k = ps_calls s ! i; prompt_append (cl_content k) (cl_client k) (ps_agent s) = Some (r, a)\<rbrakk> \<Longrightarrow>
    prompt_step s (set_call i (Replied r) (s\<lparr>ps_agent := a, ps_lock := None\<rparr>))"
| summary_starts: "ps_lock s = None \<Longrightarrow> prompt_step s (s\<lparr>ps_lock := Some Summary_writer\<rparr>)"
| summary_stops: "ps_lock s = Some Summary_writer \<Longrightarrow> prompt_step s (s\<lparr>ps_lock := None\<rparr>)"
| others: "\<lbrakk>grows (ps_agent s) a; ag_log a = ag_log (ps_agent s) @ new; \<forall>e \<in> set new. client_of e \<in> {None, Some []}\<rbrakk> \<Longrightarrow>
    prompt_step s (s\<lparr>ps_agent := a\<rparr>)"

text \<open>From a session in which no client id has two messages.\<close>

definition prompts_start :: "Agent \<Rightarrow> Prompts" where
  "prompts_start a = \<lparr>ps_agent = a, ps_calls = [], ps_lock = None, ps_overlap = {}\<rparr>"

inductive prompts_reach :: "Agent \<Rightarrow> Prompts \<Rightarrow> bool" for a where
  starts: "prompts_reach a (prompts_start a)"
| steps: "prompts_reach a s \<Longrightarrow> prompt_step s s' \<Longrightarrow> prompts_reach a s'"

section \<open>One message for each client id\<close>

lemma set_call_sel [simp]:
  "ps_agent (set_call i x s) = ps_agent s" "ps_lock (set_call i x s) = ps_lock s" "ps_overlap (set_call i x s) = ps_overlap s"
  "ps_calls (set_call i x s) = (ps_calls s)[i := (ps_calls s ! i)\<lparr>cl_state := x\<rparr>]"
  by (simp_all add: set_call_def)

lemma prompt_seen_None: "c \<noteq> [] \<Longrightarrow> prompt_seen log c = None \<longleftrightarrow> sent_by c log = []"
  by (auto simp: prompt_seen_def promptFor_def find_None_iff filter_empty_conv client_of_def split: option.splits if_splits)

lemma prompt_seen_Some: "prompt_seen log c = Some e \<Longrightarrow> e \<in> set (sent_by c log)"
  by (auto simp: prompt_seen_def promptFor_def find_Some_iff client_of_def split: option.splits if_splits)

text \<open>How many calls are in flight after one of them has moved.\<close>

definition flying :: "string \<Rightarrow> Caller list \<Rightarrow> nat" where
  "flying c ks = length (filter (in_flight c) ks)"

lemma flying_update:
  assumes "i < length ks"
  shows "flying c (ks[i := k]) + (if in_flight c (ks ! i) then 1 else 0) = flying c ks + (if in_flight c k then 1 else 0)"
proof -
  have u: "ks = take i ks @ ks ! i # drop (Suc i) ks" "ks[i := k] = take i ks @ k # drop (Suc i) ks"
    using assms by (simp_all add: id_take_nth_drop upd_conv_take_nth_drop)
  have "flying c ks = flying c (take i ks @ ks ! i # drop (Suc i) ks)" using u(1) by simp
  then show ?thesis unfolding u(2) by (simp add: flying_def)
qed

lemma flying_none: "\<not> (\<exists>k \<in> set ks. in_flight c k) \<Longrightarrow> flying c ks = 0"
  by (simp add: flying_def filter_empty_conv)

text \<open>What a prompt's append adds: one message of its client id when it was written, and no other.\<close>

lemma ensureRunning_adds:
  assumes "ensureRunning reason a = Some b" "agent_ok a"
  shows "\<exists>new. ag_log b = ag_log a @ new \<and> (\<forall>e \<in> set new. client_of e = None)"
proof (cases "ag_closed a \<or> ag_running a")
  case True
  then show ?thesis using assms(1) by (simp add: ensureRunning_def)
next
  case False
  obtain r c where c: "change_state ''running'' reason a = Some (r, c)"
    using change_state_returns [OF assms(2), of "''running''" reason] by (auto simp: returns_def)
  then have b: "ag_log b = ag_log c" using assms(1) False by (auto simp: ensureRunning_def split: sum.splits)
  from c assms(2) show ?thesis
  proof (cases rule: change_state_cases)
    case (changed e)
    then have "ev_type e = ''state_change''"
      by (auto simp: MustData_def as_state_change_def dest: DecodeData_type split: sum.splits event_data.splits)
    then show ?thesis using changed(2) b by (simp add: client_of_def)
  qed (simp add: b)
qed

lemma prompt_append_adds:
  assumes "prompt_append content c a = Some (r, b)" "agent_ok a"
  shows "\<exists>new. ag_log b = ag_log a @ new \<and> agent_ok b \<and>
    (case r of Inl _ \<Rightarrow> new = []
     | Inr e \<Rightarrow> \<exists>rest. new = e # rest \<and> client_of e = Some c \<and> (\<forall>x \<in> set rest. client_of x = None))"
proof -
  let ?p = "DMessage \<lparr>msg_role = ''user'', msg_content = content, msg_client = c, msg_usage = None, msg_interrupted = False\<rparr>"
  have ok: "agent_ok b" using prompt_append_returns [OF assms(2), of content c] assms(1) by (auto simp: returns_def grows_def)
  obtain q a1 where h: "h_append ?p a = (q, a1)" by fastforce
  show ?thesis
  proof (cases q)
    case (Inl err)
    then have "ag_log a1 = ag_log a" using h_append_Inl [of ?p a err a1] h assms(2) by simp
    then show ?thesis using assms(1) h Inl ok by (auto simp: prompt_append_def)
  next
    case (Inr e)
    note i = h_append_Inr [OF h [unfolded Inr] assms(2), simplified]
    then have a1: "ag_log a1 = ag_log a @ [e]" "agent_ok a1" "DecodeData e = Inr ?p" "ev_type e = ''message''" by (auto simp: message_ok_def)
    obtain a2 where e: "ensureRunning ''prompt'' a1 = Some a2" "r = Inr e" "b = a2"
      using assms(1) h Inr by (auto simp: prompt_append_def split: bind_splits)
    obtain rest where "ag_log a2 = ag_log a1 @ rest" "\<forall>x \<in> set rest. client_of x = None"
      using ensureRunning_adds [OF e(1) a1(2)] by blast
    moreover have "client_of e = Some c" using a1(3,4) by (simp add: client_of_def MustData_def as_message_def)
    ultimately show ?thesis using e(2,3) a1(1) ok by simp
  qed
qed

definition prompts_ok :: "Prompts \<Rightarrow> bool" where
  "prompts_ok s \<longleftrightarrow> agent_ok (ps_agent s) \<and>
     (\<forall>c. c \<noteq> [] \<and> c \<notin> ps_overlap s \<longrightarrow> length (sent_by c (ag_log (ps_agent s))) + flying c (ps_calls s) \<le> 1) \<and>
     (\<forall>k \<in> set (ps_calls s). \<forall>e. cl_state k = Replied (Inr e) \<longrightarrow> e \<in> set (sent_by (cl_client k) (ag_log (ps_agent s))))"

lemma prompts_ok_set:
  assumes "prompts_ok s" "i < length (ps_calls s)" "agent_ok (ps_agent s')"
    "ps_calls s' = (ps_calls s)[i := (ps_calls s ! i)\<lparr>cl_state := x\<rparr>]" "ps_overlap s \<subseteq> ps_overlap s'"
    "prefix (ag_log (ps_agent s)) (ag_log (ps_agent s'))"
    and "\<And>c. c \<noteq> [] \<Longrightarrow> c \<notin> ps_overlap s' \<Longrightarrow> length (sent_by c (ag_log (ps_agent s))) + flying c (ps_calls s) \<le> 1 \<Longrightarrow>
       length (sent_by c (ag_log (ps_agent s'))) + flying c (ps_calls s') \<le> 1"
    and "\<And>e. x = Replied (Inr e) \<Longrightarrow> e \<in> set (sent_by (cl_client (ps_calls s ! i)) (ag_log (ps_agent s')))"
  shows "prompts_ok s'"
proof -
  have log: "set (ag_log (ps_agent s)) \<subseteq> set (ag_log (ps_agent s'))" using assms(6) by (auto simp: prefix_def)
  have "e \<in> set (sent_by (cl_client k) (ag_log (ps_agent s')))"
    if k: "k \<in> set (ps_calls s')" "cl_state k = Replied (Inr e)" for k e
  proof -
    consider "k = (ps_calls s ! i)\<lparr>cl_state := x\<rparr>" | "k \<in> set (ps_calls s)"
      using k(1) set_update_subset_insert [of "ps_calls s" i "(ps_calls s ! i)\<lparr>cl_state := x\<rparr>"] unfolding assms(4) by blast
    then show ?thesis
    proof cases
      case 1
      then show ?thesis using k(2) assms(8) by simp
    next
      case 2
      then show ?thesis using k(2) assms(1) log by (fastforce simp: prompts_ok_def)
    qed
  qed
  moreover have "length (sent_by c (ag_log (ps_agent s'))) + flying c (ps_calls s') \<le> 1" if "c \<noteq> []" "c \<notin> ps_overlap s'" for c
    using assms(7) [OF that] that assms(1,5) by (auto simp: prompts_ok_def)
  ultimately show ?thesis using assms(3) by (simp add: prompts_ok_def)
qed

text \<open>A step of one call that leaves the log alone.\<close>

lemma prompts_ok_move:
  assumes "prompts_ok s" "at_state i y s" "ps_agent s' = ps_agent s" "ps_overlap s' = ps_overlap s"
    "ps_calls s' = (ps_calls s)[i := (ps_calls s ! i)\<lparr>cl_state := x\<rparr>]"
    "x = Admitted \<and> y = Waiting \<or> (\<exists>r. x = Replied r \<and> (\<forall>e. r = Inr e \<longrightarrow> e \<in> set (sent_by (cl_client (ps_calls s ! i)) (ag_log (ps_agent s)))))"
  shows "prompts_ok s'"
proof (rule prompts_ok_set [OF assms(1) _ _ assms(5)])
  show i: "i < length (ps_calls s)" using assms(2) by (simp add: at_state_def)
  show "agent_ok (ps_agent s')" using assms(1,3) by (simp add: prompts_ok_def)
  fix c assume "length (sent_by c (ag_log (ps_agent s))) + flying c (ps_calls s) \<le> 1"
  moreover have "flying c (ps_calls s') \<le> flying c (ps_calls s)"
    using flying_update [OF i, of c "(ps_calls s ! i)\<lparr>cl_state := x\<rparr>"] assms(2,6) unfolding assms(5)
    by (auto simp: in_flight_def at_state_def split: if_splits)
  ultimately show "length (sent_by c (ag_log (ps_agent s'))) + flying c (ps_calls s') \<le> 1" using assms(3) by simp
qed (use assms(3,4,6) in auto)

lemma prompts_ok_appends:
  assumes "prompts_ok s" "at_state i Admitted s" "k = ps_calls s ! i"
    "prompt_append (cl_content k) (cl_client k) (ps_agent s) = Some (r, a)"
  shows "prompts_ok (set_call i (Replied r) (s\<lparr>ps_agent := a, ps_lock := None\<rparr>))"
proof -
  have i: "i < length (ps_calls s)" "cl_state (ps_calls s ! i) = Admitted" using assms(2) by (simp_all add: at_state_def)
  have ok: "agent_ok (ps_agent s)" using assms(1) by (simp add: prompts_ok_def)
  obtain new where new: "ag_log a = ag_log (ps_agent s) @ new" "agent_ok a"
    "case r of Inl _ \<Rightarrow> new = []
     | Inr e \<Rightarrow> \<exists>rest. new = e # rest \<and> client_of e = Some (cl_client k) \<and> (\<forall>x \<in> set rest. client_of x = None)"
    using prompt_append_adds [OF assms(4) ok] by blast
  let ?k = "(ps_calls s ! i)\<lparr>cl_state := Replied r\<rparr>"
  have added: "length (sent_by c new) \<le> (if cl_client k = c then 1 else 0)" for c
    using new(3) by (cases r) (auto simp: filter_empty_conv)
  show ?thesis
  proof (rule prompts_ok_set [OF assms(1) i(1), where x = "Replied r"])
    fix c assume n: "length (sent_by c (ag_log (ps_agent s))) + flying c (ps_calls s) \<le> 1"
    have "flying c ((ps_calls s)[i := ?k]) + (if cl_client k = c then 1 else 0) = flying c (ps_calls s)"
      using flying_update [OF i(1), of c ?k] i(2) assms(3) by (simp add: in_flight_def)
    then show "length (sent_by c (ag_log (ps_agent (set_call i (Replied r) (s\<lparr>ps_agent := a, ps_lock := None\<rparr>))))) +
        flying c (ps_calls (set_call i (Replied r) (s\<lparr>ps_agent := a, ps_lock := None\<rparr>))) \<le> 1"
      using n added [of c] new(1) by simp
  next
    fix e assume "Replied r = Replied (Inr e)"
    then show "e \<in> set (sent_by (cl_client (ps_calls s ! i)) (ag_log (ps_agent (set_call i (Replied r) (s\<lparr>ps_agent := a, ps_lock := None\<rparr>)))))"
      using new(1,3) assms(3) by auto
  qed (use new in simp_all)
qed

lemma prompts_ok_unknown:
  assumes "prompts_ok s" "at_state i Arrived s" "c = cl_client (ps_calls s ! i)" "prompt_seen (ag_log (ps_agent s)) c = None"
    "ov = ps_overlap s \<union> (if \<exists>k \<in> set (ps_calls s). in_flight c k then {c} else {})"
  shows "prompts_ok (set_call i Waiting (s\<lparr>ps_overlap := ov\<rparr>))"
proof -
  have i: "i < length (ps_calls s)" "cl_state (ps_calls s ! i) = Arrived" using assms(2) by (simp_all add: at_state_def)
  let ?k = "(ps_calls s ! i)\<lparr>cl_state := Waiting\<rparr>"
  show ?thesis
  proof (rule prompts_ok_set [OF assms(1) i(1), where x = Waiting])
    fix d assume d: "d \<noteq> []" "d \<notin> ps_overlap (set_call i Waiting (s\<lparr>ps_overlap := ov\<rparr>))"
      "length (sent_by d (ag_log (ps_agent s))) + flying d (ps_calls s) \<le> 1"
    have fl: "flying d ((ps_calls s)[i := ?k]) = flying d (ps_calls s) + (if c = d then 1 else 0)"
      using flying_update [OF i(1), of d ?k] i(2) assms(3) by (simp add: in_flight_def)
    have "sent_by d (ag_log (ps_agent s)) = [] \<and> flying d (ps_calls s) = 0" if "c = d"
    proof
      show "sent_by d (ag_log (ps_agent s)) = []" using prompt_seen_None [OF d(1)] assms(4) that by blast
      show "flying d (ps_calls s) = 0" using d(2) assms(5) that by (intro flying_none) (auto split: if_splits)
    qed
    then show "length (sent_by d (ag_log (ps_agent (set_call i Waiting (s\<lparr>ps_overlap := ov\<rparr>))))) +
        flying d (ps_calls (set_call i Waiting (s\<lparr>ps_overlap := ov\<rparr>))) \<le> 1"
      using d(3) fl by auto
  qed (use assms(1,5) in \<open>auto simp: prompts_ok_def\<close>)
qed

lemma prompt_step_ok:
  assumes "prompt_step s s'" "prompts_ok s"
  shows "prompts_ok s'"
  using assms
proof (induction rule: prompt_step.induct)
  case (arrives s content c)
  then show ?case by (auto simp: prompts_ok_def flying_def in_flight_def)
next
  case (known i s e)
  then show ?case by (intro prompts_ok_move [OF known(3,1)]) (auto dest: prompt_seen_Some)
next
  case (unknown i s c ov)
  show ?case by (rule prompts_ok_unknown [OF unknown(5,1-4)])
next
  case (refused i s st err)
  then show ?case by (intro prompts_ok_move [OF refused(5,1)]) auto
next
  case (admitted i s st)
  then show ?case by (intro prompts_ok_move [OF admitted(5,1)]) auto
next
  case (appends i s k r a)
  show ?case by (rule prompts_ok_appends [OF appends(4,1-3)])
next
  case (others s a new)
  then have "sent_by c new = []" if "c \<noteq> []" for c using that by (auto simp: filter_empty_conv)
  with others show ?case by (auto simp: prompts_ok_def grows_def)
qed (simp_all add: prompts_ok_def)

lemma prompts_reach_ok:
  assumes "prompts_reach a s" "agent_ok a" "\<forall>c. c \<noteq> [] \<longrightarrow> length (sent_by c (ag_log a)) \<le> 1"
  shows "prompts_ok s"
  using assms(1)
proof (induction rule: prompts_reach.induct)
  case starts
  then show ?case using assms(2,3) by (simp add: prompts_ok_def prompts_start_def flying_def)
next
  case (steps s s')
  then show ?case using prompt_step_ok by blast
qed

section \<open>A call with nothing in between\<close>

lemma list_update_snoc [simp]: "(ks @ [k])[length ks := k'] = ks @ [k']"
  by (simp add: list_update_append)

text \<open>The handler as one piece is the steps of its call one after another.\<close>

lemma PromptWithID_runs:
  assumes "prompts_reach a0 s" "ps_lock s = None" "agent_ok (ps_agent s)" "PromptWithID content c (ps_agent s) = Some (r, b)"
  shows "\<exists>s'. prompts_reach a0 s' \<and> ps_agent s' = b \<and> ps_lock s' = None \<and>
    ps_calls s' = ps_calls s @ [\<lparr>cl_content = content, cl_client = c, cl_state = Replied r\<rparr>] \<and>
    ((\<forall>k \<in> set (ps_calls s). \<not> in_flight c k) \<longrightarrow> ps_overlap s' = ps_overlap s)"
proof -
  let ?n = "length (ps_calls s)"
  define s1 where "s1 = s\<lparr>ps_calls := ps_calls s @ [\<lparr>cl_content = content, cl_client = c, cl_state = Arrived\<rparr>]\<rparr>"
  have 1: "prompts_reach a0 s1" unfolding s1_def by (rule steps [OF assms(1) arrives])
  have st1: "ps_agent s1 = ps_agent s" "ps_lock s1 = None" "at_state ?n Arrived s1" "cl_client (ps_calls s1 ! ?n) = c"
    "ps_calls s1 = ps_calls s @ [\<lparr>cl_content = content, cl_client = c, cl_state = Arrived\<rparr>]" "ps_overlap s1 = ps_overlap s"
    using assms(2) by (simp_all add: s1_def at_state_def)
  show ?thesis
  proof (cases "prompt_seen (ag_log (ps_agent s)) c")
    case (Some e)
    then have "r = Inr e" "b = ps_agent s" using assms(4) by (simp_all add: PromptWithID_def)
    moreover have "prompts_reach a0 (set_call ?n (Replied (Inr e)) s1)"
      by (rule steps [OF 1 known [OF st1(3)]]) (simp add: st1 Some)
    ultimately show ?thesis using st1 by (intro exI [of _ "set_call ?n (Replied (Inr e)) s1"]) simp
  next
    case None
    define ov where "ov = ps_overlap s1 \<union> (if \<exists>k \<in> set (ps_calls s1). in_flight c k then {c} else {})"
    define s2 where "s2 = set_call ?n Waiting (s1\<lparr>ps_overlap := ov\<rparr>)"
    have 2: "prompts_reach a0 s2" unfolding s2_def
      by (rule steps [OF 1 unknown [OF st1(3) st1(4) [symmetric] _ ov_def]]) (simp add: st1 None)
    have st2: "ps_agent s2 = ps_agent s" "ps_lock s2 = None" "at_state ?n Waiting s2"
      "ps_calls s2 = ps_calls s @ [\<lparr>cl_content = content, cl_client = c, cl_state = Waiting\<rparr>]"
      and ov: "(\<forall>k \<in> set (ps_calls s). \<not> in_flight c k) \<longrightarrow> ps_overlap s2 = ps_overlap s"
      using st1 by (auto simp: s2_def at_state_def ov_def in_flight_def)
    have st: "h_state (ps_agent s2) = Some (projection_of (ag_log (ps_agent s)))" using h_state_ok [OF assms(3)] st2(1) by simp
    show ?thesis
    proof (cases "prompt_refusal (projection_of (ag_log (ps_agent s)))")
      case (Some err)
      then have "r = Inl (Rpc err)" "b = ps_agent s" using assms(3,4) None by (simp_all add: PromptWithID_def h_state_ok)
      moreover have "prompts_reach a0 (set_call ?n (Replied (Inl (Rpc err))) s2)"
        by (rule steps [OF 2 refused [OF st2(3,2) st Some]])
      ultimately show ?thesis using st2 ov by (intro exI [of _ "set_call ?n (Replied (Inl (Rpc err))) s2"]) simp
    next
      case new: None
      then have app: "prompt_append content c (ps_agent s) = Some (r, b)"
        using assms(3,4) None by (simp add: PromptWithID_def h_state_ok)
      define s3 where "s3 = set_call ?n Admitted (s2\<lparr>ps_lock := Some (Call ?n)\<rparr>)"
      have 3: "prompts_reach a0 s3" unfolding s3_def by (rule steps [OF 2 admitted [OF st2(3,2) st new]])
      have st3: "ps_agent s3 = ps_agent s" "at_state ?n Admitted s3"
        "ps_calls s3 = ps_calls s @ [\<lparr>cl_content = content, cl_client = c, cl_state = Admitted\<rparr>]" "ps_overlap s3 = ps_overlap s2"
        using st2 by (simp_all add: s3_def at_state_def)
      have "prompts_reach a0 (set_call ?n (Replied r) (s3\<lparr>ps_agent := b, ps_lock := None\<rparr>))"
        by (rule steps [OF 3 appends [OF st3(2) refl]]) (simp add: st3 app)
      then show ?thesis using st3 ov by (intro exI [of _ "set_call ?n (Replied r) (s3\<lparr>ps_agent := b, ps_lock := None\<rparr>)"]) simp
    qed
  qed
qed

section \<open>Properties\<close>

text \<open>C22: A prompt with a client id is taken once, unless two calls with it were in flight together. However calls,
  summaries and other operations interleave, such an id has at most one message in the log, and every
  call that was answered with an event was answered with that one.\<close>
theorem PromptWithID_once:
  assumes "prompts_reach a s" "agent_ok a" "\<forall>c. c \<noteq> [] \<longrightarrow> length (sent_by c (ag_log a)) \<le> 1"
    and "c \<noteq> []" "c \<notin> ps_overlap s"
  shows "length (sent_by c (ag_log (ps_agent s))) \<le> 1 \<and>
    (\<forall>k \<in> set (ps_calls s). \<forall>e. cl_client k = c \<and> cl_state k = Replied (Inr e) \<longrightarrow> sent_by c (ag_log (ps_agent s)) = [e])"
proof -
  have ok: "prompts_ok s" using prompts_reach_ok [OF assms(1-3)] .
  then have n: "length (sent_by c (ag_log (ps_agent s))) \<le> 1" using assms(4,5) by (force simp: prompts_ok_def)
  have "sent_by c (ag_log (ps_agent s)) = [e]" if "k \<in> set (ps_calls s)" "cl_client k = c" "cl_state k = Replied (Inr e)" for k e
  proof -
    have "e \<in> set (sent_by c (ag_log (ps_agent s)))" using ok that unfolding prompts_ok_def by blast
    with n show ?thesis by (cases "sent_by c (ag_log (ps_agent s))") auto
  qed
  with n show ?thesis by blast
qed

text \<open>Appends of prompts whose writes succeed.\<close>

lemma prompt_append_writes:
  assumes "agent_ok a" "writes a" "ag_state a = ''idle'' \<or> ag_state a = ''running''"
  shows "\<exists>e b. prompt_append ''hi'' ''c1'' a = Some (Inr e, b) \<and> agent_ok b \<and> writes b \<and> (ag_state b = ''idle'' \<or> ag_state b = ''running'')"
proof -
  let ?p = "DMessage \<lparr>msg_role = ''user'', msg_content = ''hi'', msg_client = ''c1'', msg_usage = None, msg_interrupted = False\<rparr>"
  have p: "payload_ok ?p" "validate_payload ?p = None" by (simp_all add: message_ok_def validate_message_def)
  obtain e b where h: "h_append ?p a = (Inr e, b)" "writes b" using h_append_writes [OF assms(1,2) p] by auto
  have b: "agent_ok b" using h_append_Inr [OF h(1) assms(1) _ p(1)] by simp
  have "ag_state b = ag_state a" using h_append_proj [OF h(1) assms(1) _ p(1)] by (simp add: count_message_def)
  note b = b this
  show ?thesis
  proof (cases "ag_closed b \<or> ag_running b")
    case True
    then have "prompt_append ''hi'' ''c1'' a = Some (Inr e, b)" by (simp add: prompt_append_def h(1) ensureRunning_def)
    then show ?thesis using b h(2) assms(3) by auto
  next
    case False
    obtain f c where c: "change_state ''running'' ''prompt'' b = Some (Inr f, c)" "writes c" "agent_ok c" "ag_state c = ''running''"
      using change_state_writes [OF b(1) h(2), of "''running''" "''prompt''"] b(2) assms(3)
      by (auto simp: validate_state_change_def isState_def)
    have "prompt_append ''hi'' ''c1'' a = Some (Inr e, c\<lparr>ag_running := True\<rparr>)"
      using False c(1) by (simp add: prompt_append_def h(1) ensureRunning_def)
    then show ?thesis using c by (auto simp: writes_def)
  qed
qed

lemma sample_agent_fresh: "sent_by c (ag_log sample_agent) = []"
proof -
  obtain e where "se_events (snd sample_created) = [e]" "ev_type e = ''session''" using sample_created_ok by metis
  then show ?thesis by (simp add: sample_agent_def client_of_def)
qed

lemma PromptWithID_once_witness:
  "\<exists>s e. prompts_reach sample_agent s \<and> ps_calls s = [\<lparr>cl_content = ''hi'', cl_client = ''c1'', cl_state = Replied (Inr e)\<rparr>] \<and>
     sent_by ''c1'' (ag_log (ps_agent s)) = [e]"
proof -
  obtain e b where "prompt_append ''hi'' ''c1'' sample_agent = Some (Inr e, b)"
    using prompt_append_writes [OF sample_agent_ok sample_agent_writes] sample_agent_idle by blast
  then have p: "PromptWithID ''hi'' ''c1'' (ps_agent (prompts_start sample_agent)) = Some (Inr e, b)"
    using sample_agent_idle promptFor_sample
    by (simp add: PromptWithID_def prompts_start_def prompt_seen_def prompt_refusal_def h_state_ok sample_agent_ok)
  obtain s where s: "prompts_reach sample_agent s" "ps_calls s = [\<lparr>cl_content = ''hi'', cl_client = ''c1'', cl_state = Replied (Inr e)\<rparr>]"
    "ps_overlap s = {}"
    using PromptWithID_runs [OF starts _ _ p] sample_agent_ok by (auto simp: prompts_start_def)
  have "''c1'' \<noteq> []" "''c1'' \<notin> ps_overlap s" using s(3) by simp_all
  from PromptWithID_once [OF s(1) sample_agent_ok _ this] have "sent_by ''c1'' (ag_log (ps_agent s)) = [e]"
    using s(2) by (simp add: sample_agent_fresh)
  with s(1,2) show ?thesis by blast
qed

section \<open>A retry behind a summary is appended twice\<close>

text \<open>The check comes before the lock: while a summary holds it, a prompt and its retry both pass the check, and both
  are appended when the summary is done.\<close>
theorem PromptWithID_twice:
  "\<exists>s e f. prompts_reach sample_agent s \<and> ps_lock s = None \<and> length (sent_by ''c1'' (ag_log (ps_agent s))) = 2 \<and>
     ps_calls s = [\<lparr>cl_content = ''hi'', cl_client = ''c1'', cl_state = Replied (Inr e)\<rparr>,
       \<lparr>cl_content = ''hi'', cl_client = ''c1'', cl_state = Replied (Inr f)\<rparr>]"
proof -
  let ?k = "\<lambda>x. \<lparr>cl_content = ''hi'', cl_client = ''c1'', cl_state = x\<rparr>"
  let ?a = sample_agent
  obtain e b where b: "prompt_append ''hi'' ''c1'' ?a = Some (Inr e, b)" "agent_ok b" "writes b" "ag_state b = ''idle'' \<or> ag_state b = ''running''"
    using prompt_append_writes [OF sample_agent_ok sample_agent_writes] sample_agent_idle by blast
  obtain f c where c: "prompt_append ''hi'' ''c1'' b = Some (Inr f, c)" using prompt_append_writes [OF b(2-4)] by blast
  define s0 where "s0 = \<lparr>ps_agent = ?a, ps_calls = [?k Arrived, ?k Arrived], ps_lock = Some Summary_writer, ps_overlap = {}\<rparr>"
  have "prompts_reach ?a ((prompts_start ?a)\<lparr>ps_calls := [?k Arrived]\<rparr>)"
    using steps [OF starts arrives, of ?a "''hi''" "''c1''"] by (simp add: prompts_start_def)
  from steps [OF this arrives, of "''hi''" "''c1''"]
  have "prompts_reach ?a ((prompts_start ?a)\<lparr>ps_calls := [?k Arrived, ?k Arrived]\<rparr>)" by (simp add: prompts_start_def)
  from steps [OF this summary_starts] have 0: "prompts_reach ?a s0" by (simp add: prompts_start_def s0_def)
  have seen: "prompt_seen (ag_log ?a) ''c1'' = None" by (simp add: prompt_seen_def promptFor_sample)
  define s1 where "s1 = \<lparr>ps_agent = ?a, ps_calls = [?k Waiting, ?k Arrived], ps_lock = Some Summary_writer, ps_overlap = {}\<rparr>"
  have "prompts_reach ?a (set_call 0 Waiting (s0\<lparr>ps_overlap := {}\<rparr>))"
  proof (rule steps [OF 0 unknown])
    show "prompt_seen (ag_log (ps_agent s0)) ''c1'' = None" unfolding s0_def by (simp only: Prompts.select_convs seen)
  qed (simp_all add: s0_def at_state_def in_flight_def)
  then have 1: "prompts_reach ?a s1" by (simp add: s0_def s1_def set_call_def)
  define s2 where "s2 = \<lparr>ps_agent = ?a, ps_calls = [?k Waiting, ?k Waiting], ps_lock = Some Summary_writer, ps_overlap = {''c1''}\<rparr>"
  have "prompts_reach ?a (set_call 1 Waiting (s1\<lparr>ps_overlap := {''c1''}\<rparr>))"
  proof (rule steps [OF 1 unknown])
    show "prompt_seen (ag_log (ps_agent s1)) ''c1'' = None" unfolding s1_def by (simp only: Prompts.select_convs seen)
  qed (simp_all add: s1_def at_state_def in_flight_def)
  then have 2: "prompts_reach ?a s2" by (simp add: s1_def s2_def set_call_def)
  define s3 where "s3 = s2\<lparr>ps_lock := None\<rparr>"
  from steps [OF 2 summary_stops] have 3: "prompts_reach ?a s3" by (simp add: s2_def s3_def)
  have r: "prompt_refusal (projection_of (ag_log ?a)) = None" "prompt_refusal (projection_of (ag_log b)) = None"
    unfolding prompt_refusal_None using sample_agent_idle b(4) by auto
  define s4 where "s4 = \<lparr>ps_agent = ?a, ps_calls = [?k Admitted, ?k Waiting], ps_lock = Some (Call 0), ps_overlap = {''c1''}\<rparr>"
  have "prompts_reach ?a (set_call 0 Admitted (s3\<lparr>ps_lock := Some (Call 0)\<rparr>))"
    by (rule steps [OF 3 admitted [OF _ _ _ r(1)]]) (simp_all add: s2_def s3_def at_state_def h_state_ok sample_agent_ok)
  then have 4: "prompts_reach ?a s4" by (simp add: s2_def s3_def s4_def set_call_def)
  define s5 where "s5 = \<lparr>ps_agent = b, ps_calls = [?k (Replied (Inr e)), ?k Waiting], ps_lock = None, ps_overlap = {''c1''}\<rparr>"
  have "prompts_reach ?a (set_call 0 (Replied (Inr e)) (s4\<lparr>ps_agent := b, ps_lock := None\<rparr>))"
    by (rule steps [OF 4 appends [OF _ refl]]) (simp_all add: s4_def at_state_def b(1))
  then have 5: "prompts_reach ?a s5" by (simp add: s4_def s5_def set_call_def)
  define s6 where "s6 = \<lparr>ps_agent = b, ps_calls = [?k (Replied (Inr e)), ?k Admitted], ps_lock = Some (Call 1), ps_overlap = {''c1''}\<rparr>"
  have "prompts_reach ?a (set_call 1 Admitted (s5\<lparr>ps_lock := Some (Call 1)\<rparr>))"
    by (rule steps [OF 5 admitted [OF _ _ _ r(2)]]) (simp_all add: s5_def at_state_def h_state_ok b(2))
  then have 6: "prompts_reach ?a s6" by (simp add: s5_def s6_def set_call_def)
  define s7 where "s7 = \<lparr>ps_agent = c, ps_calls = [?k (Replied (Inr e)), ?k (Replied (Inr f))], ps_lock = None, ps_overlap = {''c1''}\<rparr>"
  have "prompts_reach ?a (set_call 1 (Replied (Inr f)) (s6\<lparr>ps_agent := c, ps_lock := None\<rparr>))"
    by (rule steps [OF 6 appends [OF _ refl]]) (simp_all add: s6_def at_state_def c)
  then have 7: "prompts_reach ?a s7" by (simp add: s6_def s7_def set_call_def)
  have "length (sent_by ''c1'' (ag_log c)) = 2"
  proof -
    obtain x where "ag_log b = ag_log ?a @ e # x" "client_of e = Some ''c1''" "\<forall>y \<in> set x. client_of y = None"
      using prompt_append_adds [OF b(1) sample_agent_ok] by auto
    moreover obtain z where "ag_log c = ag_log b @ f # z" "client_of f = Some ''c1''" "\<forall>y \<in> set z. client_of y = None"
      using prompt_append_adds [OF c b(2)] by auto
    moreover from this calculation have "sent_by ''c1'' x = []" "sent_by ''c1'' z = []" by (simp_all add: filter_empty_conv)
    ultimately show ?thesis by (simp add: sample_agent_fresh)
  qed
  with 7 show ?thesis by (intro exI [of _ s7] exI [of _ e] exI [of _ f]) (simp add: s7_def)
qed

end
