(* ===== verification/Go_Text.thy ===== *)
theory Go_Text
  imports Byte_Strings Json
begin

text \<open>
  Splitting, trimming and case mapping of Go's \<open>strings\<close> package, and the lexical part of \<open>path/filepath\<close> on
  Unix, where \<open>ToSlash\<close> is the identity. Case is mapped for the letters of ASCII only: the case pairs of other
  alphabets are data of the Go release and are left alone here.
\<close>

section \<open>Case\<close>

definition to_lower :: "string \<Rightarrow> string" where
  "to_lower s = map lower_char s"

definition equal_fold :: "string \<Rightarrow> string \<Rightarrow> bool" where
  "equal_fold s t \<longleftrightarrow> to_lower s = to_lower t"

lemma to_lower_append [simp]: "to_lower (s @ t) = to_lower s @ to_lower t"
  by (simp add: to_lower_def)

lemma to_lower_Nil [simp]: "to_lower [] = []" "to_lower s = [] \<longleftrightarrow> s = []" "length (to_lower s) = length s"
  by (simp_all add: to_lower_def)

lemma lower_char_idem [simp]: "lower_char (lower_char c) = lower_char c"
proof -
  have "(of_char (char_of (n + 32) :: char) :: nat) = n + 32" if "n \<le> 90" for n :: nat
    using that by (simp add: of_char_of)
  then show ?thesis by (simp add: lower_char_def Let_def)
qed

lemma to_lower_idem [simp]: "to_lower (to_lower s) = to_lower s"
  by (simp add: to_lower_def)

section \<open>Decoding\<close>

text \<open>\<open>json.Unmarshal\<close> with its error ignored: members of the wrong type are skipped.\<close>

definition dec_lenient :: "'r fields \<Rightarrow> 'r \<Rightarrow> json \<Rightarrow> 'r" where
  "dec_lenient fs r v =
     (case v of
        JObj ms \<Rightarrow> foldl (\<lambda>r m. case dec_member fs r m of None \<Rightarrow> r | Some r' \<Rightarrow> r') r ms
      | _ \<Rightarrow> r)"

section \<open>Trimming\<close>

text \<open>\<open>strings.Trim\<close> with a cut set of ASCII characters.\<close>

definition trim_set :: "string \<Rightarrow> string \<Rightarrow> string" where
  "trim_set cs s = rev (dropWhile (\<lambda>c. c \<in> set cs) (rev (dropWhile (\<lambda>c. c \<in> set cs) s)))"

definition has_suffix :: "string \<Rightarrow> string \<Rightarrow> bool" where
  "has_suffix s p \<longleftrightarrow> has_prefix (rev s) (rev p)"

definition trim_suffix :: "string \<Rightarrow> string \<Rightarrow> string" where
  "trim_suffix s p = (if has_suffix s p then take (length s - length p) s else s)"

section \<open>Splitting\<close>

text \<open>\<open>strings.FieldsFunc\<close> with a predicate on ASCII characters.\<close>

fun fields_func :: "(char \<Rightarrow> bool) \<Rightarrow> string \<Rightarrow> string list" where
  "fields_func p [] = []"
| "fields_func p (c # s) =
     (if p c then fields_func p s
      else (case s of
              [] \<Rightarrow> [[c]]
            | d # _ \<Rightarrow> if p d then [c] # fields_func p s
                else (case fields_func p s of [] \<Rightarrow> [[c]] | w # ws \<Rightarrow> (c # w) # ws)))"

lemma fields_func_nonempty: "w \<in> set (fields_func p s) \<Longrightarrow> w \<noteq> [] \<and> (\<forall>c \<in> set w. \<not> p c)"
proof (induction s arbitrary: w)
  case (Cons c s)
  show ?case
  proof (cases s)
    case Nil
    then show ?thesis using Cons.prems by (simp split: if_splits)
  next
    case s: (Cons d s')
    show ?thesis
    proof (cases "p c \<or> p d \<or> fields_func p s = []")
      case True
      then have "w \<in> set (fields_func p s) \<or> \<not> p c \<and> w = [c]" using Cons.prems s by (auto split: if_splits)
      then show ?thesis using Cons.IH by auto
    next
      case False
      then obtain v vs where v: "fields_func p s = v # vs" by (cases "fields_func p s") auto
      then have "w = c # v \<or> w \<in> set vs" using Cons.prems s False by simp
      then show ?thesis using Cons.IH [of w] Cons.IH [of v] v False by auto
    qed
  qed
qed simp

lemma fields_func_some: "\<not> p c \<Longrightarrow> fields_func p (c # s) \<noteq> []"
  by (auto split: list.split)

lemma fields_func_append: "p x \<Longrightarrow> fields_func p (s @ x # t) = fields_func p s @ fields_func p t"
proof (induction s)
  case (Cons c s)
  show ?case
  proof (cases s)
    case Nil
    then show ?thesis using Cons.prems by simp
  next
    case (Cons d s')
    have IH: "fields_func p (s @ x # t) = fields_func p s @ fields_func p t" using Cons.IH Cons.prems by simp
    show ?thesis
    proof (cases "p c \<or> p d")
      case True
      then show ?thesis using IH Cons by auto
    next
      case False
      obtain w ws where w: "fields_func p s = w # ws" using fields_func_some [of p d s'] False Cons by (cases "fields_func p s") auto
      have "fields_func p ((c # s) @ x # t) = (c # w) # ws @ fields_func p t"
        using False IH w Cons by simp
      then show ?thesis using False w Cons by simp
    qed
  qed
qed simp

text \<open>\<open>strings.Fields\<close>, at the code points \<open>unicode.IsSpace\<close> accepts; \<open>cur\<close> is the field being read, reversed.\<close>

definition ended :: "string \<Rightarrow> string list" where
  "ended cur = (if cur = [] then [] else [rev cur])"

lemma space_seqs_nonempty: "w \<in> set space_seqs \<Longrightarrow> w \<noteq> []"
  by (auto simp: space_seqs_def)

function fields_go :: "string \<Rightarrow> string \<Rightarrow> string list" where
  "fields_go cur [] = ended cur"
| "fields_go cur (c # s) =
     (case List.find (has_prefix (c # s)) space_seqs of
        Some w \<Rightarrow> ended cur @ fields_go [] (drop (length w) (c # s))
      | None \<Rightarrow> fields_go (c # cur) s)"
  by pat_completeness auto

termination
  by (relation "measure (\<lambda>(cur, s). length s)")
     (auto simp: find_Some_iff dest!: nth_mem space_seqs_nonempty)

declare fields_go.simps [simp del]

definition fields_of :: "string \<Rightarrow> string list" where
  "fields_of s = fields_go [] s"

section \<open>Blank strings\<close>

text \<open>A string of white space only.\<close>

inductive spaces_only :: "string \<Rightarrow> bool" where
  blank_Nil: "spaces_only []"
| blank_space: "w \<in> set space_seqs \<Longrightarrow> spaces_only s \<Longrightarrow> spaces_only (w @ s)"

lemma blank_append: "spaces_only s \<Longrightarrow> spaces_only t \<Longrightarrow> spaces_only (s @ t)"
  by (induction rule: spaces_only.induct) (simp_all add: spaces_only.intros)

text \<open>No white space sequence begins another.\<close>

lemma space_prefix_free:
  assumes "w \<in> set space_seqs" "v \<in> set space_seqs" "has_prefix (w @ t) v"
  shows "v = w"
proof -
  have "list_all (\<lambda>w. list_all (\<lambda>v. take (min (length v) (length w)) w = take (min (length v) (length w)) v \<longrightarrow> v = w) space_seqs) space_seqs"
    by code_simp
  then have "take (min (length v) (length w)) w = take (min (length v) (length w)) v \<longrightarrow> v = w"
    using assms(1,2) by (auto simp: list_all_iff)
  moreover have "take (min (length v) (length w)) w = take (min (length v) (length w)) v"
  proof -
    from assms(3) obtain u where u: "w @ t = v @ u" by (auto simp: has_prefix_append)
    then have "take (min (length v) (length w)) (w @ t) = take (min (length v) (length w)) (v @ u)" by simp
    then show ?thesis by simp
  qed
  ultimately show ?thesis by blast
qed

lemma find_space: "w \<in> set space_seqs \<Longrightarrow> List.find (has_prefix (w @ t)) space_seqs = Some w"
proof -
  assume w: "w \<in> set space_seqs"
  have "has_prefix (w @ t) w" by (simp add: has_prefix_def)
  with w obtain v where v: "List.find (has_prefix (w @ t)) space_seqs = Some v"
    by (cases "List.find (has_prefix (w @ t)) space_seqs") (auto simp: find_None_iff)
  then have "v \<in> set space_seqs" "has_prefix (w @ t) v" by (auto simp: find_Some_iff)
  with space_prefix_free [OF w] v show ?thesis by blast
qed

lemma fields_go_space: "w \<in> set space_seqs \<Longrightarrow> fields_go cur (w @ t) = ended cur @ fields_go [] t"
proof -
  assume w: "w \<in> set space_seqs"
  obtain c s where cs: "w = c # s" using space_seqs_nonempty [OF w] by (cases w) auto
  have f: "List.find (has_prefix (c # s @ t)) space_seqs = Some w" using find_space [OF w, of t] cs by simp
  show ?thesis unfolding cs append_Cons fields_go.simps f by (simp add: cs)
qed

lemma blank_fields: "spaces_only s \<Longrightarrow> fields_of s = []"
  unfolding fields_of_def by (induction rule: spaces_only.induct) (simp_all add: fields_go_space fields_go.simps(1) ended_def)

lemma strip_blank: "strip_seqs space_seqs k s = t \<Longrightarrow> \<exists>u. spaces_only u \<and> s = u @ t"
proof (induction space_seqs k s rule: strip_seqs.induct)
  case (1 s)
  then show ?case using blank_Nil by auto
next
  case (2 k s)
  show ?case
  proof (cases "List.find (\<lambda>w. has_prefix s w) space_seqs")
    case None
    then show ?thesis using 2 blank_Nil by auto
  next
    case (Some w)
    then have w: "w \<in> set space_seqs" "has_prefix s w" by (auto simp: find_Some_iff)
    obtain u where u: "spaces_only u" "drop (length w) s = u @ t" using 2 Some by auto
    have "s = w @ drop (length w) s" using w(2) by (auto simp: has_prefix_append)
    then have "s = (w @ u) @ t" using u(2) by simp
    then show ?thesis using blank_space [OF w(1) u(1)] by blast
  qed
qed

lemma strip_rev_blank: "strip_seqs (map rev space_seqs) k s = [] \<Longrightarrow> spaces_only (rev s)"
proof (induction k arbitrary: s)
  case 0
  then show ?case by (simp add: blank_Nil)
next
  case (Suc k)
  show ?case
  proof (cases "List.find (\<lambda>w. has_prefix s w) (map rev space_seqs)")
    case None
    then show ?thesis using Suc.prems by (simp add: blank_Nil)
  next
    case (Some w)
    then have "w \<in> set (map rev space_seqs)" "has_prefix s w" unfolding find_Some_iff by (metis nth_mem, blast)
    then have "w \<in> rev ` set space_seqs" "has_prefix s w" by simp_all
    then obtain v where v: "v \<in> set space_seqs" "w = rev v" "has_prefix s w" by blast
    have "spaces_only (rev (drop (length w) s))" using Suc Some by simp
    moreover have "s = rev v @ drop (length w) s" using v(2,3) by (auto simp: has_prefix_append)
    then have "rev s = rev (drop (length w) s) @ v" by (metis rev_append rev_rev_ident)
    ultimately show ?thesis using blank_append blank_space [OF v(1) blank_Nil] by simp
  qed
qed

lemma trim_space_blank: "trim_space s = [] \<Longrightarrow> spaces_only s"
proof -
  assume "trim_space s = []"
  then have "spaces_only (trim_left s)" using strip_rev_blank [of "length (trim_left s)" "rev (trim_left s)"]
    by (simp add: trim_space_def trim_right_def)
  moreover obtain u where "spaces_only u" "s = u @ trim_left s" using strip_blank [of "length s" s] by (auto simp: trim_left_def)
  ultimately show ?thesis using blank_append by metis
qed

text \<open>The pieces of a blank string are blank.\<close>

lemma fields_func_prepend:
  assumes "\<forall>c \<in> set w. \<not> p c" "w \<noteq> []"
  shows "fields_func p (w @ s) =
    (case s of [] \<Rightarrow> [w] | d # _ \<Rightarrow> if p d then w # fields_func p s
       else (case fields_func p s of [] \<Rightarrow> [w] | v # vs \<Rightarrow> (w @ v) # vs))"
  using assms
proof (induction w)
  case (Cons c w)
  show ?case
  proof (cases w)
    case Nil
    then show ?thesis using Cons.prems by (auto split: list.split)
  next
    case (Cons d w')
    then have "fields_func p (w @ s) = (case s of [] \<Rightarrow> [w] | d # _ \<Rightarrow> if p d then w # fields_func p s
       else (case fields_func p s of [] \<Rightarrow> [w] | v # vs \<Rightarrow> (w @ v) # vs))" "\<not> p c" "\<not> p d"
      using Cons.IH Cons.prems by auto
    then show ?thesis using Cons by (auto split: list.split)
  qed
qed simp

lemma blank_pieces:
  assumes "\<And>w c. w \<in> set space_seqs \<Longrightarrow> c \<in> set w \<Longrightarrow> p c \<Longrightarrow> w = [c]"
  shows "spaces_only s \<Longrightarrow> x \<in> set (fields_func p s) \<Longrightarrow> spaces_only x"
proof (induction arbitrary: x rule: spaces_only.induct)
  case (blank_space w s)
  have bw: "spaces_only w" using spaces_only.blank_space [OF blank_space(1) spaces_only.blank_Nil] by simp
  show ?case
  proof (cases "\<exists>c \<in> set w. p c")
    case True
    then obtain c where "w = [c]" "p c" using assms blank_space(1) by blast
    then show ?thesis using blank_space by simp
  next
    case False
    then have f: "fields_func p (w @ s) = (case s of [] \<Rightarrow> [w] | d # _ \<Rightarrow> if p d then w # fields_func p s
       else (case fields_func p s of [] \<Rightarrow> [w] | v # vs \<Rightarrow> (w @ v) # vs))"
      using fields_func_prepend [of w p s] space_seqs_nonempty [OF blank_space(1)] by blast
    have IH: "y \<in> set (fields_func p s) \<Longrightarrow> spaces_only y" for y using blank_space.IH .
    have "x = w \<or> x \<in> set (fields_func p s) \<or> (\<exists>v \<in> set (fields_func p s). x = w @ v)"
    proof (cases s)
      case Nil
      then show ?thesis using blank_space.prems unfolding f by simp
    next
      case (Cons d s')
      show ?thesis
      proof (cases "p d \<or> fields_func p s = []")
        case True
        then show ?thesis using blank_space.prems Cons unfolding f by (auto simp del: fields_func.simps split: if_splits)
      next
        case False
        then obtain v vs where v: "fields_func p s = v # vs" by (cases "fields_func p s") auto
        then have "x = w @ v \<or> x \<in> set vs" using blank_space.prems False Cons unfolding f by (simp del: fields_func.simps)
        then show ?thesis using v by auto
      qed
    qed
    then show ?thesis using bw IH blank_append by blast
  qed
qed simp

section \<open>Paths\<close>

abbreviation slash :: "char \<Rightarrow> bool" where "slash c \<equiv> c = CHR ''/''"

definition clean_step :: "bool \<Rightarrow> string list \<Rightarrow> string \<Rightarrow> string list" where
  "clean_step absolute out c =
     (if c = ''.'' then out
      else if c = ''..'' then
        (if out \<noteq> [] \<and> last out \<noteq> ''..'' then butlast out else if absolute then out else out @ [c])
      else out @ [c])"

definition clean_parts :: "bool \<Rightarrow> string \<Rightarrow> string list" where
  "clean_parts absolute p = foldl (clean_step absolute) [] (fields_func slash p)"

text \<open>\<open>filepath.Clean\<close>.\<close>

definition path_clean :: "string \<Rightarrow> string" where
  "path_clean p =
     (if has_prefix p ''/'' then ''/'' @ join ''/'' (clean_parts True p)
      else if clean_parts False p = [] then ''.''
      else join ''/'' (clean_parts False p))"

text \<open>\<open>filepath.Join\<close> of two parts, the first not empty.\<close>

definition path_join :: "string \<Rightarrow> string \<Rightarrow> string" where
  "path_join root p = path_clean (root @ ''/'' @ p)"

text \<open>The components of a cleaned absolute path.\<close>

definition plain_parts :: "string list \<Rightarrow> bool" where
  "plain_parts cs \<longleftrightarrow> (\<forall>c \<in> set cs. c \<noteq> [] \<and> c \<noteq> ''.'' \<and> c \<noteq> ''..'' \<and> (\<forall>x \<in> set c. \<not> slash x))"

lemma clean_parts_plain: "plain_parts (clean_parts True p)"
proof -
  have F: "plain_parts (foldl (clean_step True) out cs)"
    if "plain_parts out" "\<forall>c \<in> set cs. c \<noteq> [] \<and> (\<forall>x \<in> set c. \<not> slash x)" for out cs
    using that
  proof (induction cs arbitrary: out)
    case (Cons c cs)
    have out: "plain_parts (butlast out)" using Cons.prems(1) in_set_butlastD [of _ out] unfolding plain_parts_def by blast
    have c: "plain_parts (out @ [c])" if "c \<noteq> ''.''" "c \<noteq> ''..''"
      using Cons.prems that unfolding plain_parts_def by (simp add: ball_Un)
    have "clean_step True out c = out \<or> clean_step True out c = butlast out \<or>
        c \<noteq> ''.'' \<and> c \<noteq> ''..'' \<and> clean_step True out c = out @ [c]"
      by (simp add: clean_step_def)
    then have "plain_parts (clean_step True out c)"
    proof (elim disjE conjE)
      assume s: "clean_step True out c = out"
      show ?thesis unfolding s by (rule Cons.prems(1))
    next
      assume s: "clean_step True out c = butlast out"
      show ?thesis unfolding s by (rule out)
    next
      assume s: "c \<noteq> ''.''" "c \<noteq> ''..''" "clean_step True out c = out @ [c]"
      show ?thesis unfolding s(3) by (rule c [OF s(1,2)])
    qed
    moreover have "\<forall>c \<in> set cs. c \<noteq> [] \<and> (\<forall>x \<in> set c. \<not> slash x)" using Cons.prems(2) by simp
    ultimately show ?case unfolding foldl.simps by (rule Cons.IH)
  qed simp
  have "\<forall>c \<in> set (fields_func slash p). c \<noteq> [] \<and> (\<forall>x \<in> set c. \<not> slash x)"
    using fields_func_nonempty [of _ slash p] by blast
  moreover have "plain_parts []" by (simp add: plain_parts_def)
  ultimately show ?thesis unfolding clean_parts_def by (rule F [rotated])
qed

lemma clean_plain: "plain_parts (out @ cs) \<Longrightarrow> foldl (clean_step True) out cs = out @ cs"
proof (induction cs arbitrary: out)
  case (Cons c cs)
  then have "clean_step True out c = out @ [c]" by (simp add: clean_step_def plain_parts_def)
  then show ?case using Cons.IH [of "out @ [c]"] Cons.prems by simp
qed simp

definition slashed :: "string list \<Rightarrow> string" where
  "slashed cs = concat (map (\<lambda>c. CHR ''/'' # c) cs)"

lemma slashed_simps [simp]: "slashed [] = []" "slashed (c # cs) = CHR ''/'' # c @ slashed cs"
  by (simp_all add: slashed_def)

lemma slashed_join: "cs \<noteq> [] \<Longrightarrow> ''/'' @ join ''/'' cs = slashed cs"
  by (induction cs rule: list_nonempty_induct) (auto simp: neq_Nil_conv)

lemma fields_slashed: "plain_parts cs \<Longrightarrow> fields_func slash (slashed cs) = cs"
proof (induction cs)
  case (Cons c cs)
  then have c: "c \<noteq> []" "\<forall>x \<in> set c. \<not> slash x" "plain_parts cs" by (simp_all add: plain_parts_def)
  have "fields_func slash (c @ slashed cs) = c # fields_func slash (slashed cs)"
    using fields_func_prepend [OF c(2,1), of "slashed cs"] by (cases cs) simp_all
  then show ?case using Cons.IH [OF c(3)] by simp
qed simp

lemma fields_join: "plain_parts cs \<Longrightarrow> fields_func slash (''/'' @ join ''/'' cs) = cs"
proof (cases "cs = []")
  case False
  show "plain_parts cs \<Longrightarrow> fields_func slash (''/'' @ join ''/'' cs) = cs"
    unfolding slashed_join [OF False] by (rule fields_slashed)
qed simp

text \<open>Cleaning again changes nothing.\<close>

lemma clean_again: "clean_parts True (''/'' @ join ''/'' (clean_parts True p)) = clean_parts True p"
  using fields_join [OF clean_parts_plain [of p]] clean_plain [of "[]" "clean_parts True p"] clean_parts_plain [of p]
  by (simp add: clean_parts_def)

end
