(* ===== verification/Guard.thy ===== *)
theory Guard
  imports Go_Text Module_Registry
begin

text \<open>
  \<open>daemon/modules/guard/guard.go\<close>: the tool gate that is always compiled in. A call is read for its command,
  path and verb, rated on three tiers, and judged by the first rule that matches it or by the permission
  mode. Arguments of the definitions are what the code takes from libraries: \<open>compile\<close> for
  \<open>regexp.Compile\<close>, with a pattern as the set of strings it matches, and \<open>tname\<close> for the verb \<open>%T\<close>. A value of
  the configuration is a JSON value.

  The lemmas show that a command is rated by the worst of its segments, what the workspace test means
  component by component, and which calls the gate denies, asks about and lets through.
\<close>

section \<open>Tiers\<close>

datatype Tier = TierLow | TierMedium | TierHigh

fun tier_rank :: "Tier \<Rightarrow> nat" where
  "tier_rank TierLow = 0"
| "tier_rank TierMedium = 1"
| "tier_rank TierHigh = 2"

instantiation Tier :: linorder
begin

definition less_eq_Tier :: "Tier \<Rightarrow> Tier \<Rightarrow> bool" where
  "less_eq_Tier s t \<longleftrightarrow> tier_rank s \<le> tier_rank t"

definition less_Tier :: "Tier \<Rightarrow> Tier \<Rightarrow> bool" where
  "less_Tier s t \<longleftrightarrow> tier_rank s < tier_rank t"

instance
proof
  fix s t u :: Tier
  show "s < t \<longleftrightarrow> s \<le> t \<and> \<not> t \<le> s" "s \<le> s" "s \<le> t \<or> t \<le> s"
    by (auto simp: less_eq_Tier_def less_Tier_def)
  show "s \<le> t \<Longrightarrow> t \<le> u \<Longrightarrow> s \<le> u" by (simp add: less_eq_Tier_def)
  show "s \<le> t \<Longrightarrow> t \<le> s \<Longrightarrow> s = t" by (cases s; cases t) (simp_all add: less_eq_Tier_def)
qed

end

fun tier_string :: "Tier \<Rightarrow> string" where
  "tier_string TierMedium = ''medium''"
| "tier_string TierHigh = ''high''"
| "tier_string TierLow = ''low''"

definition parseTier :: "string \<Rightarrow> Tier option" where
  "parseTier s =
     (let t = to_lower (trim_space s) in
      if t = ''low'' then Some TierLow else if t = ''medium'' then Some TierMedium
      else if t = ''high'' then Some TierHigh else None)"

section \<open>Rules\<close>

record Match =
  mt_tool :: string
  mt_command :: "(string \<Rightarrow> bool) option"
  mt_path :: string
  mt_risk :: "Tier option"

record Rule =
  ru_decision :: Decision
  ru_reason :: string
  ru_match :: Match

definition match_any :: Match where
  "match_any = \<lparr>mt_tool = [], mt_command = None, mt_path = [], mt_risk = None\<rparr>"

definition outsideWorkspace :: string where
  "outsideWorkspace = CHR 0x00 # ''outside-workspace''"

definition DefaultRules :: "Rule list" where
  "DefaultRules =
    [\<lparr>ru_decision = Ask, ru_reason = ''destructive, escalates privilege, or reaches the network'',
      ru_match = match_any\<lparr>mt_tool := ''bash'', mt_risk := Some TierHigh\<rparr>\<rparr>,
     \<lparr>ru_decision = Ask, ru_reason = ''outside the workspace'', ru_match = match_any\<lparr>mt_path := outsideWorkspace\<rparr>\<rparr>]"

section \<open>Commands\<close>

definition alwaysDangerous :: "string list" where
  "alwaysDangerous =
    [''sudo'', ''su'', ''doas'', ''runas'', ''mkfs'', ''dd'', ''shred'', ''format'', ''fdisk'', ''diskpart'',
     ''systemctl'', ''service'', ''launchctl'', ''reg'', ''regedit'', ''sc'',
     ''apt'', ''apt-get'', ''yum'', ''dnf'', ''pacman'', ''apk'', ''brew'', ''choco'', ''winget'', ''snap'',
     ''ssh'', ''scp'', ''rsync'', ''nc'', ''ncat'', ''netcat'', ''nmap'', ''telnet'', ''ftp'']"

definition targetDependent :: "string list" where
  "targetDependent =
    [''rm'', ''rmdir'', ''rd'', ''del'', ''erase'', ''chmod'', ''chown'', ''icacls'', ''takeown'', ''mv'', ''move'', ''ln'', ''mklink'']"

definition mediumRiskCommands :: "string list" where
  "mediumRiskCommands =
    [''sed'', ''awk'', ''tee'', ''mkdir'', ''touch'', ''cp'', ''copy'',
     ''git'', ''npm'', ''yarn'', ''pnpm'', ''pip'', ''pip3'', ''go'', ''cargo'', ''gem'', ''bundle'', ''make'', ''cmake'', ''ninja'',
     ''curl'', ''wget'', ''docker'', ''podman'', ''kubectl'', ''helm'', ''terraform'']"

text \<open>One command of a pipeline or chain.\<close>

record cmd_segment =
  sg_program :: string
  sg_args :: "string list"

definition quotes :: string where
  "quotes = [CHR 0x22, CHR 0x27]"

definition programName :: "string \<Rightarrow> string" where
  "programName w = trim_suffix (rev (takeWhile (\<lambda>c. c \<noteq> CHR ''/'' \<and> c \<noteq> CHR 0x5C) (rev (to_lower (trim_set quotes w))))) ''.exe''"

definition seps :: "char \<Rightarrow> bool" where
  "seps c \<longleftrightarrow> c \<in> {CHR ''|'', CHR '';'', CHR ''&'', newline, CHR ''('', CHR '')''}"

definition segment_of :: "string \<Rightarrow> cmd_segment option" where
  "segment_of part =
     (case fields_of part of [] \<Rightarrow> None | w # ws \<Rightarrow> Some \<lparr>sg_program = programName w, sg_args = ws\<rparr>)"

definition commandSegments :: "string \<Rightarrow> cmd_segment list" where
  "commandSegments command = List.map_filter segment_of (fields_func seps command)"

text \<open>Behind git's global options; \<open>-C\<close> and \<open>-c\<close> take a value.\<close>

fun skip_globals :: "string list \<Rightarrow> string list" where
  "skip_globals [] = []"
| "skip_globals (a # as) =
     (if \<not> has_prefix a ''-'' then a # as
      else if a = ''-C'' \<or> a = ''-c'' then (case as of [] \<Rightarrow> [] | _ # bs \<Rightarrow> skip_globals bs)
      else skip_globals as)"

definition has_flag :: "string list \<Rightarrow> string list \<Rightarrow> bool" where
  "has_flag rest flags \<longleftrightarrow> list_ex (\<lambda>a. list_ex (\<lambda>f. a = f \<or> has_prefix a (f @ ''='')) flags) rest"

definition short_flag :: "string list \<Rightarrow> string \<Rightarrow> bool" where
  "short_flag rest letters \<longleftrightarrow>
     list_ex (\<lambda>a. case a of c # d # cs \<Rightarrow> c = CHR ''-'' \<and> d \<noteq> CHR ''-'' \<and> list_ex (\<lambda>x. x \<in> set letters) (d # cs) | _ \<Rightarrow> False) rest"

definition rewrites_verb :: "string \<Rightarrow> string list \<Rightarrow> bool" where
  "rewrites_verb verb rest =
     (if verb = ''update-ref'' \<or> verb = ''rebase'' \<or> verb = ''filter-branch'' \<or> verb = ''filter-repo'' then True
      else if verb = ''reset'' then has_flag rest [''--hard'']
      else if verb = ''push'' then
        has_flag rest [''--force'', ''--force-with-lease''] \<or> short_flag rest ''f'' \<or> list_ex (\<lambda>a. has_prefix a ''+'') rest
      else if verb = ''branch'' then has_flag rest [''--force''] \<or> short_flag rest ''Df''
      else if verb = ''checkout'' then short_flag rest ''B'' \<or> has_flag rest [''--'']
      else if verb = ''switch'' then has_flag rest [''-C'', ''--force-create'']
      else if verb = ''clean'' then has_flag rest [''--force''] \<or> short_flag rest ''f''
      else if verb = ''restore'' then \<not> has_flag rest [''--staged'', ''-S'']
      else False)"

definition rewritesHistory :: "string list \<Rightarrow> bool" where
  "rewritesHistory args = (case skip_globals args of [] \<Rightarrow> False | verb # rest \<Rightarrow> rewrites_verb verb rest)"

section \<open>The workspace\<close>

definition rooted :: "string \<Rightarrow> bool" where
  "rooted p \<longleftrightarrow> has_prefix p ''/'' \<or> has_prefix p [CHR 0x5C]"

definition normalizePath :: "string \<Rightarrow> string" where
  "normalizePath p = trim_suffix (path_clean p) ''/''"

definition withinWorkspace :: "string \<Rightarrow> string \<Rightarrow> bool" where
  "withinWorkspace root path =
     (if root = [] then True
      else (let path' = (if rooted path then path else path_join root path);
                r = normalizePath root; p = normalizePath path' in
            equal_fold p r \<or> has_prefix (to_lower p) (to_lower r @ ''/'')))"

definition arg_escapes :: "string \<Rightarrow> string \<Rightarrow> bool" where
  "arg_escapes ws a0 =
     (if a0 = [] \<or> has_prefix a0 ''-'' then False
      else (let a = trim_set quotes a0 in
            if a = [] then False
            else if has_prefix a ''~'' then True
            else if \<not> rooted a \<and> \<not> sublist ''..'' a then False
            else \<not> withinWorkspace ws a))"

definition escapesWorkspace :: "string list \<Rightarrow> string \<Rightarrow> bool" where
  "escapesWorkspace args ws \<longleftrightarrow> list_ex (arg_escapes ws) args"

text \<open>The loop over the segments; \<open>worst\<close> is the tier so far.\<close>

fun classify_segments :: "string \<Rightarrow> Tier \<Rightarrow> cmd_segment list \<Rightarrow> Tier" where
  "classify_segments ws worst [] = worst"
| "classify_segments ws worst (s # ss) =
     (if sg_program s \<in> set alwaysDangerous then TierHigh
      else if sg_program s = ''git'' \<and> rewritesHistory (sg_args s) then TierHigh
      else if sg_program s \<in> set targetDependent then
        (if escapesWorkspace (sg_args s) ws then TierHigh
         else classify_segments ws (if worst < TierMedium then TierMedium else worst) ss)
      else if sg_program s \<in> set mediumRiskCommands then classify_segments ws (if worst < TierMedium then TierMedium else worst) ss
      else classify_segments ws worst ss)"

definition classifyCommand :: "string \<Rightarrow> string \<Rightarrow> Tier" where
  "classifyCommand command ws =
     (if trim_space command = [] then TierLow else classify_segments ws TierLow (commandSegments command))"

section \<open>What a call is about\<close>

record callInfo =
  ci_tool :: string
  ci_command :: string
  ci_path :: string
  ci_op :: string
  ci_tier :: Tier
  ci_workspace :: string
  ci_inside :: bool

definition truncate :: "string \<Rightarrow> nat \<Rightarrow> string" where
  "truncate s n = (if length s \<le> n then s else take n s @ [CHR 0xE2, CHR 0x80, CHR 0xA6])"

definition summary :: "callInfo \<Rightarrow> string" where
  "summary c =
     (if ci_command c \<noteq> [] then ci_tool c @ '': '' @ truncate (ci_command c) 120
      else if ci_path c \<noteq> [] then ci_tool c @ '': '' @ ci_path c
      else ci_tool c)"

record toolArgs =
  ta_command :: string
  ta_path :: string
  ta_op :: string

definition toolArgs_fields :: "toolArgs fields" where
  "toolArgs_fields =
    [(''command'', fld ta_command ta_command_update dec_str),
     (''path'', fld ta_path ta_path_update dec_str),
     (''op'', fld ta_op ta_op_update dec_str)]"

definition tool_args :: "json option \<Rightarrow> toolArgs" where
  "tool_args args =
     (let none = \<lparr>ta_command = [], ta_path = [], ta_op = []\<rparr> in
      case args of None \<Rightarrow> none | Some v \<Rightarrow> dec_lenient toolArgs_fields none v)"

definition toolTiers :: "(string \<times> Tier) list" where
  "toolTiers =
    [(''read'', TierLow), (''glob'', TierLow), (''grep'', TierLow), (''task.update'', TierLow), (''web.search'', TierLow),
     (''git'', TierLow), (''gh'', TierLow), (''ask'', TierLow), (''write'', TierMedium), (''edit'', TierMedium),
     (''web.fetch'', TierMedium), (''claude.ask'', TierMedium)]"

definition writingOps :: "string list" where
  "writingOps = [''git.commit'']"

definition classify :: "callInfo \<Rightarrow> Tier" where
  "classify info =
     (if \<not> ci_inside info then TierHigh
      else if ci_tool info = ''bash'' then classifyCommand (ci_command info) (ci_workspace info)
      else if ci_tool info = ''git'' \<or> ci_tool info = ''gh'' then
        (if ci_tool info @ ''.'' @ ci_op info \<in> set writingOps then TierMedium else TierLow)
      else case map_of toolTiers (ci_tool info) of Some t \<Rightarrow> t | None \<Rightarrow> TierLow)"

text \<open>What the gate reads of a session.\<close>

record Gated =
  gs_mode :: string
  gs_labels :: "string list"
  gs_workspace :: string

definition inspect :: "Gated option \<Rightarrow> ToolCallData \<Rightarrow> callInfo" where
  "inspect s call =
     (let args = tool_args (tc_args call);
          ws = (case s of None \<Rightarrow> [] | Some g \<Rightarrow> gs_workspace g);
          info = \<lparr>ci_tool = (if tc_tool call = ''wait'' then ''bash'' else tc_tool call), ci_command = ta_command args,
            ci_path = ta_path args, ci_op = ta_op args, ci_tier = TierLow, ci_workspace = ws,
            ci_inside = (if ta_path args \<noteq> [] \<and> s \<noteq> None then withinWorkspace ws (ta_path args) else True)\<rparr> in
      info\<lparr>ci_tier := classify info\<rparr>)"

section \<open>Publishing\<close>

definition NoPushLabel :: string where
  "NoPushLabel = ''guard:no-push''"

fun gitVerb :: "string list \<Rightarrow> string" where
  "gitVerb [] = []"
| "gitVerb (a # as) =
     (if a = ''-C'' \<or> a = ''-c'' \<or> a = ''--git-dir'' \<or> a = ''--work-tree'' then (case as of [] \<Rightarrow> [] | _ # bs \<Rightarrow> gitVerb bs)
      else if has_prefix a ''-'' then gitVerb as
      else a)"

fun ghAPIWrites :: "string list \<Rightarrow> bool" where
  "ghAPIWrites [] = False"
| "ghAPIWrites (a # as) =
     (let lower = to_lower a in
      if lower = ''-x'' \<or> lower = ''--method'' then
        (case as of [] \<Rightarrow> False | m # _ \<Rightarrow> \<not> equal_fold m ''GET'') \<or> ghAPIWrites as
      else if has_prefix lower ''-x'' \<and> length a > 2 \<and> \<not> equal_fold (drop 2 a) ''GET'' \<or>
        has_prefix lower ''--method='' \<and> \<not> equal_fold (drop 9 a) ''GET'' then True
      else if a = ''-f'' \<or> a = ''-F'' \<or> a = ''--field'' \<or> a = ''--raw-field'' \<or> a = ''--input'' \<or>
        has_prefix a ''--field='' \<or> has_prefix a ''--raw-field='' \<or> has_prefix a ''--input='' then True
      else ghAPIWrites as)"

definition gh_writes :: "(string \<times> string list) list" where
  "gh_writes =
    [(''pr'', [''create'', ''merge'', ''close'', ''reopen'', ''edit'', ''comment'', ''review'', ''ready'']),
     (''issue'', [''create'', ''close'', ''reopen'', ''edit'', ''comment'', ''delete'', ''transfer'', ''lock'']),
     (''release'', [''create'', ''delete'', ''edit'', ''upload'']),
     (''repo'', [''create'', ''delete'', ''edit'', ''fork'', ''rename'', ''archive'']),
     (''label'', [''create'', ''delete'', ''edit'', ''clone''])]"

definition publishes :: "cmd_segment \<Rightarrow> string" where
  "publishes seg =
     (if sg_program seg = ''git'' then (if gitVerb (sg_args seg) = ''push'' then ''push'' else [])
      else if sg_program seg = ''gh'' then
        (case sg_args seg of
           [] \<Rightarrow> []
         | noun # rest \<Rightarrow>
             (let verb = (case rest of [] \<Rightarrow> [] | v # _ \<Rightarrow> v) in
              if (case map_of gh_writes noun of Some vs \<Rightarrow> verb \<in> set vs | None \<Rightarrow> False) then ''run gh '' @ noun @ '' '' @ verb
              else if noun = ''api'' \<and> ghAPIWrites rest then ''write through gh api''
              else []))
      else [])"

section \<open>The verdict\<close>

definition matches :: "Rule \<Rightarrow> callInfo \<Rightarrow> bool" where
  "matches r info =
     (let m = ru_match r in
      \<not> (mt_tool m \<noteq> [] \<and> \<not> equal_fold (mt_tool m) (ci_tool info)) \<and>
      (case mt_command m of None \<Rightarrow> True | Some re \<Rightarrow> re (ci_command info)) \<and>
      (if mt_path m = outsideWorkspace then \<not> (ci_path info = [] \<or> ci_inside info)
       else if mt_path m \<noteq> [] then ci_path info \<noteq> [] \<and> has_prefix (to_lower (ci_path info)) (to_lower (mt_path m))
       else True) \<and>
      (case mt_risk m of None \<Rightarrow> True | Some t \<Rightarrow> \<not> ci_tier info < t))"

definition denyReason :: "Rule \<Rightarrow> callInfo \<Rightarrow> string" where
  "denyReason r info = (if ru_reason r \<noteq> [] then ru_reason r else ''denied by guard: '' @ summary info)"

definition defaultVerdict :: "string \<Rightarrow> callInfo \<Rightarrow> Verdict" where
  "defaultVerdict mode info =
     (let ask = allow\<lparr>vd_decision := Ask, vd_summary := summary info, vd_risk := tier_string (ci_tier info)\<rparr> in
      if mode \<noteq> ''auto'' then ask else if ci_tier info = TierHigh then ask else allow)"

text \<open>The loop over the rules. A rule decides nothing when its decision is none of the three.\<close>

fun rules_verdict :: "string \<Rightarrow> callInfo \<Rightarrow> Rule list \<Rightarrow> Verdict" where
  "rules_verdict mode info [] = defaultVerdict mode info"
| "rules_verdict mode info (r # rs) =
     (if \<not> matches r info then rules_verdict mode info rs
      else case ru_decision r of
        Deny \<Rightarrow> allow\<lparr>vd_decision := Deny, vd_reason := denyReason r info\<rparr>
      | Ask \<Rightarrow> allow\<lparr>vd_decision := Ask,
          vd_summary := (if ru_reason r \<noteq> [] then ru_reason r @ [CHR 0x20, CHR 0xE2, CHR 0x80, CHR 0x94, CHR 0x20] else []) @ summary info,
          vd_risk := tier_string (ci_tier info)\<rparr>
      | Allow \<Rightarrow> allow
      | Halt \<Rightarrow> rules_verdict mode info rs)"

definition no_push_reason :: "string \<Rightarrow> string" where
  "no_push_reason what =
     ''this session may not '' @ what @ '': the runner pushes and posts itself once the work is checked. Commit, and leave the rest to it.''"

text \<open>What the command of a call to \<open>bash\<close> publishes first, if anything.\<close>

definition published :: "ToolCallData \<Rightarrow> string option" where
  "published call =
     (case tc_args call of
        None \<Rightarrow> None
      | Some v \<Rightarrow>
          (case dec_struct [(''command'', dec_str)] [] v of
             None \<Rightarrow> None
           | Some command \<Rightarrow> List.find (\<lambda>w. w \<noteq> []) (map publishes (commandSegments command))))"

definition gate :: "Rule list \<Rightarrow> Gated option \<Rightarrow> ToolCallData \<Rightarrow> Verdict" where
  "gate rules s call =
     (let mode = (case s of None \<Rightarrow> ''ask'' | Some g \<Rightarrow> if gs_mode g \<noteq> [] then gs_mode g else ''ask'');
          push = (case s of None \<Rightarrow> None
                  | Some g \<Rightarrow> if NoPushLabel \<in> set (gs_labels g) \<and> equal_fold (tc_tool call) ''bash'' then published call else None) in
      case push of
        Some what \<Rightarrow> allow\<lparr>vd_decision := Deny, vd_reason := no_push_reason what\<rparr>
      | None \<Rightarrow> if mode = ''bypass'' then allow else rules_verdict mode (inspect s call) rules)"

section \<open>Configuration\<close>

definition str_value :: "json option \<Rightarrow> string" where
  "str_value v = (case v of Some (JStr s) \<Rightarrow> s | _ \<Rightarrow> [])"

text \<open>The \<open>match\<close> section of a rule.\<close>

definition match_from :: "(string \<Rightarrow> err + (string \<Rightarrow> bool)) \<Rightarrow> (string \<times> json) list \<Rightarrow> err + Match" where
  "match_from compile m =
     (let pattern = str_value (map_of m ''command_pattern''); risk = str_value (map_of m ''risk'') in
      case (if pattern \<noteq> [] then map_sum id Some (compile pattern) else Inr None) of
        Inl e \<Rightarrow> Inl (''command_pattern '' @ fmt_q pattern @ '': '' @ e)
      | Inr re \<Rightarrow>
          (case (if risk \<noteq> [] then map_option Some (parseTier risk) else Some None) of
             None \<Rightarrow> Inl (''unknown risk '' @ fmt_q risk @ '' (low|medium|high)'')
           | Some tier \<Rightarrow> Inr \<lparr>mt_tool = str_value (map_of m ''tool''), mt_command = re,
               mt_path = str_value (map_of m ''path''), mt_risk = tier\<rparr>))"

definition decision_from :: "string \<Rightarrow> err + Decision" where
  "decision_from verdict =
     (let v = to_lower (trim_space verdict) in
      if v = ''allow'' then Inr Allow else if v = ''deny'' then Inr Deny else if v = ''ask'' then Inr Ask
      else if v = [] then Inl ''verdict is required''
      else Inl (''unknown verdict '' @ fmt_q verdict @ '' (allow|deny|ask)''))"

definition ruleFromMap :: "(string \<Rightarrow> err + (string \<Rightarrow> bool)) \<Rightarrow> (string \<times> json) list \<Rightarrow> err + Rule" where
  "ruleFromMap compile obj =
     (case decision_from (str_value (map_of obj ''verdict'')) of
        Inl e \<Rightarrow> Inl e
      | Inr d \<Rightarrow>
          map_sum id (\<lambda>m. \<lparr>ru_decision = d, ru_reason = str_value (map_of obj ''reason''), ru_match = m\<rparr>)
            (case map_of obj ''match'' of Some (JObj m) \<Rightarrow> match_from compile m | _ \<Rightarrow> Inr match_any))"

fun rules_from :: "(string \<Rightarrow> err + (string \<Rightarrow> bool)) \<Rightarrow> (json \<Rightarrow> string) \<Rightarrow> nat \<Rightarrow> json list \<Rightarrow> err + Rule list" where
  "rules_from compile tname i [] = Inr []"
| "rules_from compile tname i (v # vs) =
     (case v of
        JObj obj \<Rightarrow>
          (case ruleFromMap compile obj of
             Inl e \<Rightarrow> Inl (''guard: rule '' @ itoa (int i) @ '': '' @ e)
           | Inr r \<Rightarrow> map_sum id (\<lambda>rs. r # rs) (rules_from compile tname (i + 1) vs))
      | _ \<Rightarrow> Inl (''guard: rule '' @ itoa (int i) @ '' must be an object, got '' @ tname v))"

definition rulesFromConfig :: "(string \<Rightarrow> err + (string \<Rightarrow> bool)) \<Rightarrow> (json \<Rightarrow> string) \<Rightarrow> (string \<times> json) list \<Rightarrow> err + Rule list" where
  "rulesFromConfig compile tname cfg =
     (case map_of cfg ''rules'' of
        None \<Rightarrow> Inr []
      | Some JNull \<Rightarrow> Inr []
      | Some (JArr vs) \<Rightarrow> rules_from compile tname 0 vs
      | Some v \<Rightarrow> Inl (''guard: rules must be a list, got '' @ tname v))"

text \<open>\<open>Init\<close>: the rules of the module.\<close>

definition guard_rules :: "(string \<Rightarrow> err + (string \<Rightarrow> bool)) \<Rightarrow> (json \<Rightarrow> string) \<Rightarrow> (string \<times> json) list \<Rightarrow> err + Rule list" where
  "guard_rules compile tname cfg =
     map_sum id (\<lambda>rs. if rs = [] then DefaultRules else rs) (rulesFromConfig compile tname cfg)"

text \<open>The module, in a session of the given workspace.\<close>

definition gated :: "string \<Rightarrow> State \<Rightarrow> Gated" where
  "gated ws st = \<lparr>gs_mode = op_mode (pr_options st), gs_labels = op_labels (pr_options st), gs_workspace = ws\<rparr>"

definition guard_hook :: "Rule list \<Rightarrow> string \<Rightarrow> ToolCallData \<Rightarrow> Verdict hook_fn" where
  "guard_hook rules ws call a =
     (case h_state a of
        None \<Rightarrow> (Crashed ''panic'', a)
      | Some st \<Rightarrow> (Completed (gate rules (Some (gated ws st)) call), a))"

definition guard_module :: "Rule list \<Rightarrow> string \<Rightarrow> Module" where
  "guard_module rules ws = \<lparr>md_name = ''guard'', md_init = Init_ok, md_start = None, md_request = None,
     md_gate = Some (guard_hook rules ws), md_tools = None, md_session_tools = None, md_tool_result = None,
     md_turn_end = None, md_before_stop = None, md_before_compaction = None, md_after_compaction = None,
     md_resume = None, md_end = None, md_report = None\<rparr>"

section \<open>Commands by their worst part\<close>

definition segment_tier :: "string \<Rightarrow> cmd_segment \<Rightarrow> Tier" where
  "segment_tier ws s =
     (if sg_program s \<in> set alwaysDangerous \<or> sg_program s = ''git'' \<and> rewritesHistory (sg_args s) then TierHigh
      else if sg_program s \<in> set targetDependent then (if escapesWorkspace (sg_args s) ws then TierHigh else TierMedium)
      else if sg_program s \<in> set mediumRiskCommands then TierMedium
      else TierLow)"

definition worst :: "Tier list \<Rightarrow> Tier" where
  "worst ts = foldr max ts TierLow"

lemma tier_bounds [simp]: "TierLow \<le> t" "t \<le> TierHigh" "max TierLow t = t" "max t TierLow = t" "max TierHigh t = TierHigh" "max t TierHigh = TierHigh"
  by (cases t; simp add: less_eq_Tier_def max_def)+

lemma worst_Cons [simp]: "worst (t # ts) = max t (worst ts)" "worst [] = TierLow"
  by (simp_all add: worst_def)

lemma worst_append: "worst (ss @ ts) = max (worst ss) (worst ts)"
  by (induction ss) (simp_all add: max.assoc)

lemma raise_medium: "(if t < TierMedium then TierMedium else t) = max t TierMedium"
  by (simp add: max_def less_le_not_le)

lemma classify_segments_worst: "classify_segments ws t ss = max t (worst (map (segment_tier ws) ss))"
proof (induction ss arbitrary: t)
  case (Cons s ss)
  then show ?case by (simp add: segment_tier_def raise_medium max.assoc del: max_less_iff_conj)
qed simp

lemma segment_of_blank: "spaces_only part \<Longrightarrow> segment_of part = None"
  by (simp add: segment_of_def blank_fields)

lemma seps_spaces: "w \<in> set space_seqs \<Longrightarrow> c \<in> set w \<Longrightarrow> seps c \<Longrightarrow> w = [c]"
proof -
  have "list_all (\<lambda>w. list_all (\<lambda>c. \<not> seps c \<or> w = [c]) w) space_seqs" by (simp add: space_seqs_def seps_def)
  then show "w \<in> set space_seqs \<Longrightarrow> c \<in> set w \<Longrightarrow> seps c \<Longrightarrow> w = [c]" by (auto simp: list_all_iff)
qed

lemma blank_segments:
  assumes "trim_space command = []"
  shows "commandSegments command = []"
proof -
  have "segment_of x = None" if "x \<in> set (fields_func seps command)" for x
    by (rule segment_of_blank, rule blank_pieces [OF seps_spaces trim_space_blank [OF assms] that])
  then show ?thesis by (simp add: commandSegments_def List.map_filter_def filter_empty_conv)
qed

lemma classify_worst: "classifyCommand command ws = worst (map (segment_tier ws) (commandSegments command))"
  using blank_segments [of command] by (simp add: classifyCommand_def classify_segments_worst)

lemma commandSegments_chain: "seps c \<Longrightarrow> commandSegments (a @ c # b) = commandSegments a @ commandSegments b"
  by (simp add: commandSegments_def fields_func_append List.map_filter_def)

text \<open>A command is rated by its worst part. The tier of a command line is the highest of its segments', whatever
  their order, and chaining or piping two lines rates the higher of the two: nothing in front of a
  dangerous command or behind it lowers its rating.\<close>
theorem classifyCommand_worst:
  assumes "seps c"
  shows "classifyCommand command ws = foldr max (map (segment_tier ws) (commandSegments command)) TierLow \<and>
    classifyCommand (command @ c # behind) ws = max (classifyCommand command ws) (classifyCommand behind ws)"
  using commandSegments_chain [OF assms] by (simp add: classify_worst worst_append worst_def [symmetric])

lemma classifyCommand_worst_witness:
  "classifyCommand (''ls'' @ CHR ''|'' # ''sudo x'') ''/w'' = max (classifyCommand ''ls'' ''/w'') (classifyCommand ''sudo x'' ''/w'')"
  using classifyCommand_worst [of "CHR ''|''" "''ls''" "''/w''" "''sudo x''"] by (simp add: seps_def)

section \<open>The workspace by components\<close>

lemma lower_slash [simp]: "lower_char c = CHR ''/'' \<longleftrightarrow> c = CHR ''/''"
proof (cases "65 \<le> (of_char c :: nat) \<and> (of_char c :: nat) \<le> 90")
  case True
  then have "(of_char (lower_char c) :: nat) = of_char c + 32" by (simp add: lower_char_def of_char_of)
  then have "lower_char c \<noteq> CHR ''/''" using True by (auto dest: arg_cong [where f = "of_char :: char \<Rightarrow> nat"])
  moreover have "c \<noteq> CHR ''/''" using True by auto
  ultimately show ?thesis by simp
next
  case False
  then have "lower_char c = c" by (auto simp: lower_char_def Let_def)
  then show ?thesis by simp
qed

lemma slashed_lower: "to_lower (slashed cs) = slashed (map to_lower cs)"
  by (induction cs) (simp_all add: to_lower_def lower_char_def)

definition no_slash :: "string list \<Rightarrow> bool" where
  "no_slash cs \<longleftrightarrow> (\<forall>c \<in> set cs. \<forall>x \<in> set c. \<not> slash x)"

lemma first_part:
  assumes "\<forall>x \<in> set c. \<not> slash x" "\<forall>x \<in> set d. \<not> slash x" "c @ CHR ''/'' # s = d @ slashed ds"
  shows "c = d \<and> ds \<noteq> [] \<and> CHR ''/'' # s = slashed ds"
proof -
  have "takeWhile (\<lambda>x. \<not> slash x) (c @ CHR ''/'' # s) = c" using assms(1) by (simp add: takeWhile_append2)
  moreover have "takeWhile (\<lambda>x. \<not> slash x) (d @ slashed ds) = d"
    using assms(2) by (cases ds) (simp_all add: takeWhile_append2 takeWhile_eq_all_conv)
  ultimately have "c = d" using assms(3) by simp
  then show ?thesis using assms(3) by (cases ds) auto
qed

lemma slashed_prefix:
  assumes "no_slash xs" "no_slash ys"
  shows "slashed ys = slashed xs \<or> has_prefix (slashed ys) (slashed xs @ ''/'') \<longleftrightarrow> prefix xs ys"
  using assms
proof (induction xs arbitrary: ys)
  case Nil
  show ?case by (cases ys) (simp_all add: has_prefix_append)
next
  case (Cons x xs)
  show ?case
  proof (cases ys)
    case Nil
    then show ?thesis by (simp add: has_prefix_append)
  next
    case (Cons y ys')
    have ns: "no_slash xs" "no_slash ys'" "\<forall>c \<in> set x. \<not> slash c" "\<forall>c \<in> set y. \<not> slash c"
      using Cons.prems Cons by (simp_all add: no_slash_def)
    have IH: "slashed ys' = slashed xs \<or> has_prefix (slashed ys') (slashed xs @ ''/'') \<longleftrightarrow> prefix xs ys'"
      using Cons.IH ns(1,2) by blast
    have eq: "slashed ys = slashed (x # xs) \<longleftrightarrow> y = x \<and> slashed ys' = slashed xs"
    proof
      assume e: "slashed ys = slashed (x # xs)"
      have "takeWhile (\<lambda>x. \<not> slash x) (y @ slashed ys') = y" "takeWhile (\<lambda>x. \<not> slash x) (x @ slashed xs) = x"
        using ns(3,4) by (cases ys'; simp add: takeWhile_append2 takeWhile_eq_all_conv)
          (use ns(3,4) in \<open>cases xs; simp add: takeWhile_append2 takeWhile_eq_all_conv\<close>)
      then show "y = x \<and> slashed ys' = slashed xs" using e Cons by auto
    qed (simp add: Cons)
    have pre: "has_prefix (slashed ys) (slashed (x # xs) @ ''/'') \<longleftrightarrow> y = x \<and> has_prefix (slashed ys') (slashed xs @ ''/'')"
    proof
      assume "has_prefix (slashed ys) (slashed (x # xs) @ ''/'')"
      then obtain t where t: "y @ slashed ys' = x @ slashed xs @ ''/'' @ t" using Cons by (auto simp: has_prefix_append)
      obtain s where s: "slashed xs @ ''/'' @ t = CHR ''/'' # s" by (cases xs) auto
      have "x = y \<and> ys' \<noteq> [] \<and> CHR ''/'' # s = slashed ys'" using first_part [OF ns(3,4), of s ys'] t s by simp
      moreover from this s have "slashed ys' = (slashed xs @ ''/'') @ t" by simp
      ultimately show "y = x \<and> has_prefix (slashed ys') (slashed xs @ ''/'')" unfolding has_prefix_append by blast
    qed (auto simp: Cons has_prefix_append)
    show ?thesis unfolding eq pre using IH Cons by auto
  qed
qed

lemma clean_parts_slashless:
  "c \<in> set (clean_parts absolute p) \<Longrightarrow> c \<noteq> [] \<and> (\<forall>x \<in> set c. \<not> slash x)"
proof -
  have F: "\<forall>c \<in> set (foldl (clean_step absolute) out cs). P c"
    if "\<forall>c \<in> set out. P c" "\<forall>c \<in> set cs. P c" for out cs and P :: "string \<Rightarrow> bool"
    using that
  proof (induction cs arbitrary: out)
    case (Cons c cs)
    have "clean_step absolute out c \<in> {out, butlast out, out @ [c]}" by (simp add: clean_step_def)
    moreover have "P c" "\<forall>c \<in> set (butlast out). P c" using Cons.prems in_set_butlastD [of _ out] by (simp, blast)
    ultimately have "\<forall>c \<in> set (clean_step absolute out c). P c" using Cons.prems(1) by auto
    moreover have "\<forall>c \<in> set cs. P c" using Cons.prems by simp
    ultimately show ?case unfolding foldl.simps by (rule Cons.IH)
  qed simp
  have "\<forall>c \<in> set (fields_func slash p). c \<noteq> [] \<and> (\<forall>x \<in> set c. \<not> slash x)"
    using fields_func_nonempty [of _ slash p] by blast
  from F [OF _ this, of "[]"] have "\<forall>c \<in> set (clean_parts absolute p). c \<noteq> [] \<and> (\<forall>x \<in> set c. \<not> slash x)"
    unfolding clean_parts_def by force
  then show "c \<in> set (clean_parts absolute p) \<Longrightarrow> c \<noteq> [] \<and> (\<forall>x \<in> set c. \<not> slash x)" by blast
qed

lemma normalizePath_relative:
  assumes "\<not> has_prefix p ''/''"
  shows "\<exists>x s. normalizePath p = x # s \<and> \<not> slash x"
proof -
  have "\<exists>x s. path_clean p = x # s \<and> \<not> slash x"
  proof (cases "clean_parts False p")
    case Nil
    then show ?thesis using assms by (simp add: path_clean_def)
  next
    case (Cons c cs)
    have "c \<noteq> []" "\<forall>x \<in> set c. \<not> slash x" using clean_parts_slashless [of c False p] Cons by simp_all
    then obtain x c' where "c = x # c'" "\<not> slash x" by (cases c) auto
    then show ?thesis using assms Cons by (cases cs) (simp_all add: path_clean_def)
  qed
  then obtain x s where x: "path_clean p = x # s" "\<not> slash x" by blast
  have "has_suffix (x # s) ''/'' \<Longrightarrow> s \<noteq> []" using x(2) by (auto simp: has_suffix_def has_prefix_def)
  then show ?thesis using x by (cases s rule: rev_cases) (auto simp: normalizePath_def trim_suffix_def)
qed

lemma normalizePath_absolute:
  assumes "has_prefix p ''/''"
  shows "normalizePath p = slashed (clean_parts True p)"
proof (cases "clean_parts True p = []")
  case True
  then show ?thesis using assms by (simp add: normalizePath_def path_clean_def trim_suffix_def has_suffix_def has_prefix_def)
next
  case False
  let ?cs = "clean_parts True p"
  have c: "path_clean p = slashed ?cs" using assms slashed_join [OF False] by (simp add: path_clean_def)
  obtain ds d where ds: "?cs = ds @ [d]" using False by (cases ?cs rule: rev_cases) auto
  have "d \<noteq> []" "\<forall>x \<in> set d. \<not> slash x" using clean_parts_plain [of p] ds by (simp_all add: plain_parts_def)
  then obtain e x where "d = e @ [x]" "\<not> slash x" by (cases d rule: rev_cases) auto
  then have "rev (slashed ?cs) = x # rev (slashed ds @ ''/'' @ e)" "\<not> slash x" by (simp_all add: ds slashed_def)
  then show ?thesis by (simp add: normalizePath_def c trim_suffix_def has_suffix_def has_prefix_def)
qed

text \<open>Where a path leads that is not rooted by a backslash: its components, in lower case.\<close>

definition place :: "string \<Rightarrow> string list" where
  "place p = map to_lower (clean_parts True p)"

lemma place_no_slash: "no_slash (place p)"
  using clean_parts_plain [of p] by (auto simp: no_slash_def place_def plain_parts_def to_lower_def)

text \<open>C13: The workspace test compares whole components. For an absolute workspace, a path is inside exactly when it
  is not rooted by a backslash and the components of the workspace begin those of the path, resolved
  against the workspace unless it is absolute, with every dot and dot-dot resolved and letters of either case equal.
  So neither \<open>/work-evil\<close> nor \<open>src/../../etc\<close> is inside \<open>/work\<close>.\<close>
theorem withinWorkspace_iff:
  assumes "has_prefix root ''/''"
  shows "withinWorkspace root path \<longleftrightarrow>
    \<not> has_prefix path [CHR 0x5C] \<and> prefix (place root) (place (if has_prefix path ''/'' then path else root @ ''/'' @ path))"
proof -
  have ne: "root \<noteq> []" using assms by (auto simp: has_prefix_def)
  have n: "to_lower (normalizePath p) = slashed (place p)" if "has_prefix p ''/''" for p
    using normalizePath_absolute [OF that] by (simp add: slashed_lower place_def)
  have w: "equal_fold p (normalizePath root) \<or> has_prefix (to_lower p) (to_lower (normalizePath root) @ ''/'') \<longleftrightarrow>
      to_lower p = slashed (place root) \<or> has_prefix (to_lower p) (slashed (place root) @ ''/'')" for p
    using n [OF assms] by (simp add: equal_fold_def)
  consider (absolute) "has_prefix path ''/''" | (bslash) "has_prefix path [CHR 0x5C]" "\<not> has_prefix path ''/''"
    | (rel) "\<not> rooted path" by (auto simp: rooted_def)
  then show ?thesis
  proof cases
    case absolute
    then have "\<not> has_prefix path [CHR 0x5C]" "rooted path" by (auto simp: has_prefix_def rooted_def split: list.splits)
    then show ?thesis
      using ne w [of "normalizePath path"] n [OF absolute] slashed_prefix [OF place_no_slash [of root] place_no_slash [of path]] absolute
      by (simp add: withinWorkspace_def Let_def)
  next
    case bslash
    then have r: "rooted path" by (simp add: rooted_def)
    obtain x s where x: "normalizePath path = x # s" "\<not> slash x" using normalizePath_relative [OF bslash(2)] by blast
    have "slashed (place root) = [] \<or> (\<exists>t. slashed (place root) = CHR ''/'' # t)" by (cases "place root") auto
    then have "\<not> (to_lower (x # s) = slashed (place root) \<or> has_prefix (to_lower (x # s)) (slashed (place root) @ ''/''))"
      using x(2) by (auto simp: has_prefix_append to_lower_def)
    then have "\<not> withinWorkspace root path"
      using w [of "x # s"] ne r by (simp add: withinWorkspace_def Let_def x(1))
    then show ?thesis using bslash(1) by simp
  next
    case rel
    let ?p = "root @ ''/'' @ path"
    have p: "has_prefix ?p ''/''" using assms by (auto simp: has_prefix_append)
    have j: "path_join root path = ''/'' @ join ''/'' (clean_parts True ?p)" using p by (simp add: path_join_def path_clean_def)
    have "has_prefix (path_join root path) ''/''" unfolding j by (simp add: has_prefix_append)
    from n [OF this] have "to_lower (normalizePath (path_join root path)) = slashed (place ?p)"
      unfolding place_def j clean_again .
    then show ?thesis
      using ne w [of "normalizePath (path_join root path)"] slashed_prefix [OF place_no_slash [of root] place_no_slash [of ?p]] rel
      by (simp add: withinWorkspace_def Let_def rooted_def)
  qed
qed

lemma withinWorkspace_iff_witness: "\<not> withinWorkspace ''/work'' ''/work-evil''"
proof -
  have "\<not> prefix (place ''/work'') (place ''/work-evil'')" by code_simp
  then show ?thesis using withinWorkspace_iff [of "''/work''" "''/work-evil''"] by (simp add: has_prefix_def)
qed

section \<open>Verdicts\<close>

text \<open>A session labeled not to publish, at a call that publishes.\<close>

definition restricted :: "Gated \<Rightarrow> ToolCallData \<Rightarrow> bool" where
  "restricted g call \<longleftrightarrow> NoPushLabel \<in> set (gs_labels g) \<and> equal_fold (tc_tool call) ''bash'' \<and> published call \<noteq> None"

lemma gate_restricted: "restricted g call \<Longrightarrow> vd_decision (gate rules (Some g) call) = Deny"
  by (auto simp: restricted_def gate_def)

lemma gate_free: "\<not> restricted g call \<Longrightarrow> gate rules (Some g) call =
   (let mode = if gs_mode g \<noteq> [] then gs_mode g else ''ask'' in
    if mode = ''bypass'' then allow else rules_verdict mode (inspect (Some g) call) rules)"
  by (auto simp: restricted_def gate_def Let_def)

lemma outside_high: "\<not> ci_inside (inspect s call) \<Longrightarrow> ci_tier (inspect s call) = TierHigh"
  by (simp add: inspect_def classify_def Let_def split: if_splits)

lemma default_rules_verdict:
  assumes "info = inspect s call"
  shows "vd_decision (rules_verdict mode info DefaultRules) = (if mode = ''auto'' \<and> ci_tier info \<noteq> TierHigh then Allow else Ask)"
proof -
  have a: "vd_decision allow = Allow" by (simp add: allow_def)
  have d: "vd_decision (defaultVerdict mode info) = (if mode = ''auto'' \<and> ci_tier info \<noteq> TierHigh then Allow else Ask)"
    by (simp add: defaultVerdict_def Let_def a)
  show ?thesis
  proof (cases "ci_tier info = TierHigh")
    case True
    then show ?thesis by (simp add: DefaultRules_def d)
  next
    case False
    have l: "ci_tier info < TierHigh" using False by (cases "ci_tier info") (simp_all add: less_Tier_def)
    have i: "ci_inside info" using outside_high [of s call] False assms by blast
    show ?thesis using l i d False
      by (simp add: DefaultRules_def matches_def match_any_def outsideWorkspace_def)
  qed
qed

lemma default_gate:
  "vd_decision (gate DefaultRules (Some g) call) =
     (if restricted g call then Deny
      else if gs_mode g = ''bypass'' then Allow
      else if gs_mode g = ''auto'' \<and> ci_tier (inspect (Some g) call) \<noteq> TierHigh then Allow
      else Ask)"
proof (cases "restricted g call")
  case False
  have a: "vd_decision allow = Allow" by (simp add: allow_def)
  show ?thesis
    unfolding gate_free [OF False] Let_def using default_rules_verdict [OF refl, of _ "Some g" call] False a
    by (cases "gs_mode g = []"; cases "gs_mode g = ''bypass''") simp_all
qed (simp add: gate_restricted)

text \<open>What the gate does without configuration. A session labeled not to publish is denied a publishing command
  in every mode; otherwise bypass allows all calls, auto all but those of high risk, which it asks about, and
  every other mode asks about each call.\<close>
theorem gate_default:
  "vd_decision (gate DefaultRules (Some g) call) =
     (if restricted g call then Deny
      else if gs_mode g = ''bypass'' then Allow
      else if gs_mode g = ''auto'' \<and> ci_tier (inspect (Some g) call) \<noteq> TierHigh then Allow
      else Ask)"
  by (rule default_gate)

section \<open>The guard among the other gates\<close>

lemma guard_module_ok: "module_ok (guard_module rules ws)"
  by (simp add: module_ok_def guard_module_def optional_def hook_quiet_def guard_hook_def h_state_ok quiet_refl)

text \<open>A gate that only looks at the session.\<close>

definition looks_only :: "Module \<Rightarrow> bool" where
  "looks_only m \<longleftrightarrow> (\<forall>g call a. md_gate m = Some g \<longrightarrow> snd (g call a) = a)"

definition session_labels :: "Agent \<Rightarrow> string list" where
  "session_labels a = op_labels (pr_options (projection_of (ag_log a)))"

lemma disable_labels:
  assumes "agent_ok a"
  shows "session_labels (disable name hook e a) = session_labels a"
proof -
  let ?n = "notice ''error'' (''module '' @ name @ '' disabled for this session: '' @ hook @ '' failed: '' @ e)"
  let ?a = "a\<lparr>ag_disabled := insert name (ag_disabled a)\<rparr>"
  obtain r b where h: "h_append ?n ?a = (r, b)" by fastforce
  have ok: "agent_ok ?a" using assms by (simp add: agent_ok_def)
  have t: "payload_type ?n \<noteq> ''session''" "payload_ok ?n" by (simp_all add: notice_def)
  show ?thesis
  proof (cases r)
    case (Inl e)
    then show ?thesis using h_append_Inl [of ?n ?a e b] h ok t by (simp add: disable_def session_labels_def)
  next
    case (Inr ev)
    then show ?thesis using h_append_proj [of ?n ?a ev b] h ok t by (simp add: disable_def session_labels_def notice_def)
  qed
qed

lemma looking_gate:
  assumes "looks_only m" "md_gate m = Some g" "hook_call (md_name m) ''GateTool'' (g call) a = (r, b)" "agent_ok a"
  shows "agent_ok b \<and> session_labels b = session_labels a \<and> ag_disabled b \<subseteq> insert (md_name m) (ag_disabled a)"
proof -
  have l: "snd (g call a) = a" using assms(1,2) by (simp add: looks_only_def)
  have "b = a \<or> (\<exists>e. b = disable (md_name m) ''GateTool'' e a)"
    using assms(3) l by (auto simp: hook_call_def split: if_splits prod.splits ended.splits)
  then show ?thesis
  proof (elim disjE exE)
    fix e assume b: "b = disable (md_name m) ''GateTool'' e a"
    have "ag_disabled b = insert (md_name m) (ag_disabled a)" unfolding b by (simp add: disable_def)
    then show ?thesis using quiet_ok [OF disable_quiet [OF assms(4)]] disable_labels [OF assms(4)] unfolding b by simp
  qed (use assms(4) in auto)
qed

lemma guarded_gates:
  assumes "\<forall>m \<in> set pre. looks_only m \<and> md_name m \<noteq> ''guard''" "agent_ok a" "''guard'' \<notin> ag_disabled a"
    "NoPushLabel \<in> set (session_labels a)" "equal_fold (tc_tool call) ''bash''" "published call \<noteq> None"
  shows "refuses (fst (gate_from final (pre @ guard_module rules ws # post) call a))"
  using assms(1-4)
proof (induction pre arbitrary: a final)
  case Nil
  let ?v = "gate rules (Some (gated ws (projection_of (ag_log a)))) call"
  have r: "restricted (gated ws (projection_of (ag_log a))) call"
    using Nil.prems(4) assms(5,6) by (simp add: restricted_def gated_def session_labels_def)
  have "hook_call ''guard'' ''GateTool'' (guard_hook rules ws call) a = (Some ?v, a)"
    using Nil.prems(2,3) by (simp add: hook_call_def guard_hook_def h_state_ok)
  then show ?case using gate_restricted [OF r, of rules] by (simp add: guard_module_def refuses_def)
next
  case (Cons m pre)
  show ?case
  proof (cases "md_gate m")
    case None
    then show ?thesis using Cons by simp
  next
    case (Some g)
    obtain r b where h: "hook_call (md_name m) ''GateTool'' (g call) a = (r, b)" by fastforce
    have m: "looks_only m" "md_name m \<noteq> ''guard''" using Cons.prems(1) by simp_all
    have b: "agent_ok b" "session_labels b = session_labels a" "''guard'' \<notin> ag_disabled b"
      using looking_gate [OF m(1) Some h Cons.prems(2)] Cons.prems(3) m(2) by auto
    have IH: "refuses (fst (gate_from f (pre @ guard_module rules ws # post) call b))" for f
      using Cons.IH [of b f] Cons.prems(1,4) b by simp
    show ?thesis
    proof (cases r)
      case None
      then show ?thesis using IH by (simp add: Some h)
    next
      case (Some v)
      then show ?thesis using IH by (cases "vd_decision v") (simp_all add: \<open>md_gate m = Some g\<close> h refuses_def)
    qed
  qed
qed

text \<open>C12: A session that may not publish does not. With the guard among the gates, whatever its rules, the permission
  mode and the answer of the person, a call of bash that would publish is answered with a denial and its tool
  does not run, provided the gates in front of the guard only look and the guard is not disabled.\<close>
theorem no_push_never_runs:
  assumes "ms = pre @ guard_module rules ws # post" "\<forall>m \<in> set pre. looks_only m \<and> md_name m \<noteq> ''guard''"
    "modules_ok ms" "agent_ok a" "''guard'' \<notin> ag_disabled a" "NoPushLabel \<in> set (session_labels a)"
    "equal_fold (tc_tool call) ''bash''" "published call = Some what" "find_tool tools ms a (tc_tool call) = Some tool"
  shows "\<exists>why b. executeTool tools ms asker call a = Some (tool_fail call ''denied'' why, b) \<and>
    ag_log b = ag_log (snd (GateTool ms call a))"
proof -
  obtain v a1 where g: "GateTool ms call a = (v, a1)" by fastforce
  have "refuses v"
    using guarded_gates [OF assms(2,4-7), of allow rules ws post] assms(8) g by (simp add: GateTool_def assms(1))
  then have "\<not> let_through asker call v a1" by (auto simp: let_through_def refuses_def)
  moreover have "agent_ok a1" using quiet_ok [OF GateTool_quiet [OF assms(3,4), of call]] g by simp
  ultimately show ?thesis using executeTool_cases [OF assms(9) g, of asker] g by auto
qed

text \<open>A session under the label, and a call that pushes.\<close>

definition labeled_session :: event_data where
  "labeled_session = DSession \<lparr>sd_workspace = ''/w'', sd_key = ''k'',
     sd_options = options_zero\<lparr>op_model := ''m'', op_mode := ''bypass'', op_labels := [NoPushLabel]\<rparr>, sd_window = 0\<rparr>"

definition push_args :: json where
  "push_args = JObj [(''command'', JStr ''cd src && git push'')]"

definition push_call :: "string \<Rightarrow> ToolCallData" where
  "push_call tool = \<lparr>tc_call = ''c1'', tc_tool = tool, tc_args = Some push_args, tc_source = ''model''\<rparr>"

lemma push_published: "published (push_call tool) = Some ''push''"
  unfolding published_def push_call_def push_args_def by code_simp

lemma labeled_valid: "ValidateLog (sample_log [labeled_session]) = None"
proof (rule sample_log_valid)
  show "payload_ok p \<and> validate_payload p = None" if "p \<in> set [labeled_session]" for p
    using that by (simp add: labeled_session_def NoPushLabel_def) code_simp
qed (simp_all add: labeled_session_def)

lemma push_tier: "ci_tier (inspect (Some g) (push_call ''wait'')) = TierMedium"
proof -
  have "tool_args (Some push_args) = \<lparr>ta_command = ''cd src && git push'', ta_path = [], ta_op = []\<rparr>" by code_simp
  moreover have "List.map_filter segment_of (fields_func seps ''cd src && git push'') =
      [\<lparr>sg_program = ''cd'', sg_args = [''src'']\<rparr>, \<lparr>sg_program = ''git'', sg_args = [''push'']\<rparr>]" by code_simp
  moreover have "worst (map (segment_tier ws) [\<lparr>sg_program = ''cd'', sg_args = [''src'']\<rparr>, \<lparr>sg_program = ''git'', sg_args = [''push'']\<rparr>]) = TierMedium" for ws
    by (simp add: segment_tier_def alwaysDangerous_def targetDependent_def mediumRiskCommands_def rewritesHistory_def rewrites_verb_def
      has_flag_def short_flag_def has_prefix_def max_def less_eq_Tier_def)
  ultimately show ?thesis by (simp add: inspect_def push_call_def Let_def classify_def classify_worst commandSegments_def)
qed

lemma no_push_never_runs_witness:
  "\<exists>why b. executeTool [sample_tool] [guard_module DefaultRules ''/w''] None (push_call ''bash'') (logged (sample_log [labeled_session])) =
     Some (tool_fail (push_call ''bash'') ''denied'' why, b)"
proof -
  let ?a = "logged (sample_log [labeled_session])"
  have "payload_ok labeled_session" by (simp add: labeled_session_def session_ok_def int64_ok_def int64_min_def int64_max_def)
  then have "DecodeData (sample_event 0 labeled_session) = Inr labeled_session" by (rule sample_event_decodes)
  then have d: "DecodeData (sample_event 0 labeled_session) = Inr (DSession \<lparr>sd_workspace = ''/w'', sd_key = ''k'',
     sd_options = options_zero\<lparr>op_model := ''m'', op_mode := ''bypass'', op_labels := [NoPushLabel]\<rparr>, sd_window = 0\<rparr>)"
    by (simp only: labeled_session_def)
  have "sample_log [labeled_session] = [sample_event 0 labeled_session]" by (simp add: sample_log_def)
  then have "session_labels ?a = [NoPushLabel]"
    by (simp add: session_labels_def projection_of_def List.map_filter_simps d)
  then have "NoPushLabel \<in> set (session_labels ?a)" by simp
  moreover have "''guard'' \<notin> ag_disabled ?a" by (simp add: logged_def sample_agent_def)
  moreover have "find_tool [sample_tool] [guard_module DefaultRules ''/w''] ?a ''bash'' = Some sample_tool"
    by (simp add: find_tool_def sample_tool_def)
  ultimately show ?thesis
    using no_push_never_runs [of "[guard_module DefaultRules ''/w'']" "[]" DefaultRules "''/w''" "[]" ?a "push_call ''bash''" "''push''"
        "[sample_tool]" sample_tool None] labeled_valid push_published [of "''bash''"] guard_module_ok
    by (auto simp: modules_ok_def push_call_def equal_fold_def)
qed

text \<open>The check for publishing commands knows only the tool bash. The tool wait runs its command through the same shell,
  and the rules judge it as bash; but a session labeled not to publish, while it is denied a push through bash,
  is let through with the same push through wait, without a question in the modes auto and bypass.\<close>
theorem wait_publishes:
  "vd_decision (gate DefaultRules (Some \<lparr>gs_mode = mode, gs_labels = [NoPushLabel], gs_workspace = ''/w''\<rparr>) (push_call ''bash'')) = Deny \<and>
   vd_decision (gate DefaultRules (Some \<lparr>gs_mode = ''auto'', gs_labels = [NoPushLabel], gs_workspace = ''/w''\<rparr>) (push_call ''wait'')) = Allow \<and>
   vd_decision (gate DefaultRules (Some \<lparr>gs_mode = ''bypass'', gs_labels = [NoPushLabel], gs_workspace = ''/w''\<rparr>) (push_call ''wait'')) = Allow"
proof -
  have "restricted \<lparr>gs_mode = mode, gs_labels = [NoPushLabel], gs_workspace = ''/w''\<rparr> (push_call ''bash'')"
    using push_published [of "''bash''"] by (simp add: restricted_def equal_fold_def push_call_def)
  moreover have "\<not> restricted g (push_call ''wait'')" for g
    by (simp add: restricted_def equal_fold_def push_call_def to_lower_def lower_char_def)
  ultimately show ?thesis unfolding default_gate push_tier by simp
qed

lemma git_dir_hides_verb:
  "rewritesHistory [''push'', ''--force''] \<and> \<not> rewritesHistory [''--git-dir'', ''.git'', ''push'', ''--force''] \<and>
   gitVerb [''--git-dir'', ''.git'', ''push'', ''--force''] = ''push''"
  by code_simp

end
