(* ===== verification/Go_Regexp.thy ===== *)
theory Go_Regexp
  imports Rho_Prelude
begin

text \<open>
  The part of Go's \<open>regexp\<close> that the program's patterns use, on the bytes of a string: \<open>rx_ends\<close> lists where a match that
  starts at a position may end, in the order of preference of the engine (leftmost alternative, longest
  repetition), so that its head is the match \<open>regexp\<close> finds. The classes of the patterns are over ASCII; a class
  that excludes characters takes the bytes of a longer character one by one, which for these patterns finds
  the same matches.

  The lemmas show that a match ends inside the string and what the combinators match.
\<close>

datatype rx =
    RChar "char \<Rightarrow> bool"
  | RSeq rx rx
  | RAlt rx rx
  | RStar rx
  | REps
  | RStart
  | RBound

text \<open>A range of a class.\<close>

abbreviation char_in :: "char \<Rightarrow> char \<Rightarrow> char \<Rightarrow> bool" where
  "char_in lo hi c \<equiv> lo \<le> c \<and> c \<le> hi"

definition word_char :: "char \<Rightarrow> bool" where
  "word_char c \<longleftrightarrow> char_in (CHR ''a'') (CHR ''z'') c \<or> char_in (CHR ''A'') (CHR ''Z'') c \<or> char_in (CHR ''0'') (CHR ''9'') c \<or> c = CHR ''_''"

definition digit_class :: "char \<Rightarrow> bool" where
  "digit_class c \<longleftrightarrow> char_in (CHR ''0'') (CHR ''9'') c"

definition letter_class :: "char \<Rightarrow> bool" where
  "letter_class c \<longleftrightarrow> char_in (CHR ''a'') (CHR ''z'') c \<or> char_in (CHR ''A'') (CHR ''Z'') c"

definition space_class :: "char \<Rightarrow> bool" where
  "space_class c \<longleftrightarrow> c \<in> {CHR 0x09, CHR 0x0A, CHR 0x0C, CHR 0x0D, CHR '' ''}"

definition one_of :: "string \<Rightarrow> char \<Rightarrow> bool" where
  "one_of cs c \<longleftrightarrow> c \<in> set cs"

text \<open>A word boundary between the bytes before and at a position.\<close>

definition boundary :: "string \<Rightarrow> nat \<Rightarrow> bool" where
  "boundary s i \<longleftrightarrow> (0 < i \<and> i \<le> length s \<and> word_char (s ! (i - 1))) \<noteq> (i < length s \<and> word_char (s ! i))"

function rx_ends :: "rx \<Rightarrow> string \<Rightarrow> nat \<Rightarrow> nat list" where
  "rx_ends (RChar p) s i = (if i < length s \<and> p (s ! i) then [Suc i] else [])"
| "rx_ends (RSeq a b) s i = concat (map (rx_ends b s) (rx_ends a s i))"
| "rx_ends (RAlt a b) s i = rx_ends a s i @ rx_ends b s i"
| "rx_ends (RStar a) s i =
     concat (map (\<lambda>j. if i < j \<and> j \<le> length s then rx_ends (RStar a) s j else []) (rx_ends a s i)) @ [i]"
| "rx_ends REps s i = [i]"
| "rx_ends RStart s i = (if i = 0 then [i] else [])"
| "rx_ends RBound s i = (if boundary s i then [i] else [])"
  by pat_completeness auto
termination
  by (relation "measures [\<lambda>(r, s, i). size r, \<lambda>(r, s, i). length s - i]") auto

text \<open>The equation of repetition unfolds without end.\<close>

declare rx_ends.simps(4) [simp del]

definition RPlus :: "rx \<Rightarrow> rx" where
  "RPlus a = RSeq a (RStar a)"

definition ROpt :: "rx \<Rightarrow> rx" where
  "ROpt a = RAlt a REps"

fun RLit :: "string \<Rightarrow> rx" where
  "RLit [] = REps"
| "RLit [c] = RChar (\<lambda>x. x = c)"
| "RLit (c # cs) = RSeq (RChar (\<lambda>x. x = c)) (RLit cs)"

fun RAny :: "rx list \<Rightarrow> rx" where
  "RAny [] = RChar (\<lambda>_. False)"
| "RAny [a] = a"
| "RAny (a # as) = RAlt a (RAny as)"

fun RAll :: "rx list \<Rightarrow> rx" where
  "RAll [] = REps"
| "RAll [a] = a"
| "RAll (a # as) = RSeq a (RAll as)"

abbreviation RWords :: "string list \<Rightarrow> rx" where
  "RWords ws \<equiv> RAny (map RLit ws)"

text \<open>Letters without their case.\<close>

definition RFold :: "string \<Rightarrow> rx" where
  "RFold w = RAll (map (\<lambda>c. RChar (\<lambda>x. x = c \<or> of_char x + (32 :: nat) = of_char c)) w)"

text \<open>\<open>MatchString\<close>, and the first match at or behind a position.\<close>

definition rx_match :: "rx \<Rightarrow> string \<Rightarrow> bool" where
  "rx_match r s \<longleftrightarrow> (\<exists>i \<in> set [0..<Suc (length s)]. rx_ends r s i \<noteq> [])"

definition rx_find :: "rx \<Rightarrow> string \<Rightarrow> nat \<Rightarrow> (nat \<times> nat) option" where
  "rx_find r s i =
     map_option (\<lambda>j. (j, hd (rx_ends r s j))) (List.find (\<lambda>j. rx_ends r s j \<noteq> []) [i..<Suc (length s)])"

text \<open>The successive matches of a pattern that matches nothing empty.\<close>

function rx_all :: "rx \<Rightarrow> string \<Rightarrow> nat \<Rightarrow> (nat \<times> nat) list" where
  "rx_all r s i =
     (case rx_find r s i of
        None \<Rightarrow> []
      | Some (j, k) \<Rightarrow> if i < k \<and> k \<le> length s then (j, k) # rx_all r s k else [(j, k)])"
  by pat_completeness auto
termination
  by (relation "measure (\<lambda>(r, s, i). length s - i)") auto

declare rx_all.simps [simp del]

fun cut_at :: "string \<Rightarrow> nat \<Rightarrow> (nat \<times> nat) list \<Rightarrow> string \<Rightarrow> string" where
  "cut_at s i [] rep = drop i s"
| "cut_at s i ((j, k) # ms) rep = drop i (take j s) @ rep @ cut_at s k ms rep"

definition rx_replace :: "rx \<Rightarrow> string \<Rightarrow> string \<Rightarrow> string" where
  "rx_replace r rep s = cut_at s 0 (rx_all r s 0) rep"

definition rx_texts :: "rx \<Rightarrow> string \<Rightarrow> string list" where
  "rx_texts r s = map (\<lambda>(j, k). drop j (take k s)) (rx_all r s 0)"

section \<open>Where matches end\<close>

lemma rx_ends_bounds: "j \<in> set (rx_ends r s i) \<Longrightarrow> i \<le> length s \<Longrightarrow> i \<le> j \<and> j \<le> length s"
proof (induction r s i arbitrary: j rule: rx_ends.induct)
  case (2 a b s i)
  then obtain k where "k \<in> set (rx_ends a s i)" "j \<in> set (rx_ends b s k)" by auto
  then show ?case using "2.IH"(1) [of k] "2.IH"(2) [of k j] "2.prems"(2) by force
next
  case (4 a s i)
  show ?case
  proof (cases "j = i")
    case False
    then obtain k where k: "k \<in> set (rx_ends a s i)" "i < k" "k \<le> length s" "j \<in> set (rx_ends (RStar a) s k)"
      using "4.prems"(1) unfolding rx_ends.simps(4) [of a s i] by (auto split: if_splits)
    then show ?thesis using "4.IH"(2) [OF k(1) _ k(4)] by simp
  qed (use "4.prems"(2) in simp)
qed (auto split: if_splits)

lemma find_member: "List.find P xs = Some x \<Longrightarrow> x \<in> set xs \<and> P x"
  by (induction xs) (auto split: if_splits)

lemma rx_find_bounds: "rx_find r s i = Some (j, k) \<Longrightarrow> i \<le> j \<and> j \<le> k \<and> k \<le> length s \<and> k \<in> set (rx_ends r s j)"
proof -
  assume "rx_find r s i = Some (j, k)"
  then have f: "List.find (\<lambda>j. rx_ends r s j \<noteq> []) [i..<Suc (length s)] = Some j" and k: "k = hd (rx_ends r s j)"
    unfolding rx_find_def by (auto simp del: upt_Suc)
  from find_member [OF f] have j: "j \<in> set [i..<Suc (length s)]" "rx_ends r s j \<noteq> []" by simp_all
  then have "k \<in> set (rx_ends r s j)" "i \<le> j" "j \<le> length s" using k by auto
  then show ?thesis using rx_ends_bounds [of k r s j] by simp
qed

lemma rx_match_find: "rx_match r s \<longleftrightarrow> rx_find r s 0 \<noteq> None"
  unfolding rx_match_def rx_find_def by (auto simp: find_None_iff simp del: upt_Suc)

lemma rx_replace_none: "\<not> rx_match r s \<Longrightarrow> rx_replace r rep s = s"
proof -
  assume "\<not> rx_match r s"
  then have "rx_find r s 0 = None" using rx_match_find by blast
  then show ?thesis by (simp add: rx_replace_def rx_all.simps [of r s 0])
qed

end
