(* ===== verification/Question.thy ===== *)
theory Question
  imports Go_Regexp Go_Text Agent_Ops Render
begin

text \<open>
  \<open>daemon/module/question.go\<close>: whether the person's message only asks a question, and whether the turn has changed
  the workspace since. The lists of words and the two patterns are the source's. \<^term>\<open>None\<close> is the panic of
  \<open>MustData\<close>.

  The lemmas show that a request anywhere makes a message a request, and which calls of the log count as a change.
\<close>

section \<open>Questions\<close>

datatype sentenceKind = sentenceStatement | sentenceQuestion | sentenceRequest

text \<open>The rest of a text behind what is gathered of its current sentence.\<close>

definition kept_sentence :: "string \<Rightarrow> string list" where
  "kept_sentence b = (if trim_space b = [] then [] else [trim_space b])"

fun sentences_from :: "string \<Rightarrow> string list \<Rightarrow> string list" where
  "sentences_from b [] = kept_sentence b"
| "sentences_from b (r # rs) =
     (if r = [newline] then kept_sentence b @ sentences_from [] rs
      else if r \<in> {''?'', ''!'', ''.''} then kept_sentence (b @ r) @ sentences_from [] rs
      else sentences_from (b @ r) rs)"

definition sentences :: "string \<Rightarrow> string list" where
  "sentences text = sentences_from [] (runes text)"

definition fillers :: "string list" where
  "fillers = [''ok'', ''okay'', ''so'', ''and'', ''but'', ''also'', ''hmm'', ''hm'', ''well'', ''hey'', ''right'', ''then'',
     ''now'', ''actually'', ''oh'', ''yeah'', ''yes'', ''no'']"

definition requestOpenings :: "string list" where
  "requestOpenings = [''can you'', ''could you'', ''would you'', ''will you'', ''can u'', ''could u'',
     ''can we'', ''could we'', ''please'', ''pls'', ''let's'', ''lets '', ''go ahead'',
     ''i want you'', ''i'd like you'', ''i would like you'', ''i need you'', ''i'd like to have you'',
     ''you should'', ''make sure'', ''feel free'', ''we need to'', ''we should'']"

definition imperatives :: "string list" where
  "imperatives = [''add'', ''apply'', ''ask'', ''build'', ''change'', ''check'', ''clean'', ''commit'', ''continue'', ''create'',
     ''delete'', ''deploy'', ''do'', ''document'', ''finish'', ''fix'', ''get'', ''go'', ''implement'', ''install'', ''investigate'', ''keep'',
     ''look'', ''make'', ''merge'', ''move'', ''open'', ''push'', ''put'', ''rebase'', ''refactor'', ''remove'', ''rename'',
     ''replace'', ''resume'', ''revert'', ''review'', ''rewrite'', ''run'', ''set'', ''ship'', ''split'', ''start'', ''test'',
     ''try'', ''update'', ''use'', ''write'']"

definition interrogatives :: "string list" where
  "interrogatives = [''what'', ''what's'', ''whats'', ''why'', ''how'', ''how's'', ''when'', ''where'', ''where's'', ''who'', ''who's'',
     ''which'', ''whose'', ''is'', ''isn't'', ''are'', ''aren't'', ''was'', ''wasn't'', ''were'', ''does'', ''doesn't'', ''did'', ''didn't'',
     ''have'', ''has'', ''hasn't'', ''haven't'', ''should'', ''shall'', ''would'', ''wouldn't'', ''could'', ''can'', ''will'', ''won't'',
     ''am'', ''any'', ''anything'']"

text \<open>The typographic single quotes are written as an apostrophe.\<close>

fun straight_quotes :: "string \<Rightarrow> string" where
  "straight_quotes (a # b # c # s) =
     (if a = CHR 0xE2 \<and> b = CHR 0x80 \<and> c \<in> {CHR 0x98, CHR 0x99} then CHR 0x27 # straight_quotes s
      else a # straight_quotes (b # c # s))"
| "straight_quotes s = s"

definition marks :: string where "marks = ''.!?:;-''"

definition question_words :: "string \<Rightarrow> string list" where
  "question_words s =
     dropWhile (\<lambda>w. trim_set marks w \<in> set fillers)
       (fields_func (\<lambda>c. c \<in> {CHR '' '', CHR '','', CHR 0x09, CHR 0x22, CHR 0x60, CHR ''('', CHR '')''}) s)"

definition kindOf :: "string \<Rightarrow> sentenceKind" where
  "kindOf sentence =
     (let s = straight_quotes (to_lower (trim_space sentence)); words = question_words s in
      if words = [] then sentenceStatement
      else if list_ex (\<lambda>p. has_prefix (join '' '' words) p) requestOpenings then sentenceRequest
      else if trim_set marks (hd words) \<in> set imperatives then sentenceRequest
      else if has_suffix s ''?'' then sentenceQuestion
      else if trim_set marks (hd words) \<in> set interrogatives then sentenceQuestion
      else sentenceStatement)"

fun asks_from :: "bool \<Rightarrow> string list \<Rightarrow> bool" where
  "asks_from asked [] = asked"
| "asks_from asked (s # ss) =
     (case kindOf s of
        sentenceRequest \<Rightarrow> False
      | sentenceQuestion \<Rightarrow> asks_from True ss
      | sentenceStatement \<Rightarrow> asks_from asked ss)"

definition AsksOnly :: "string \<Rightarrow> bool" where
  "AsksOnly text \<longleftrightarrow> CHR 0x3F \<in> set text \<and> asks_from False (sentences text)"

section \<open>Changes\<close>

definition harmlessRedirects :: rx where
  "harmlessRedirects = RAny
     [RAll [RStar (RChar digit_class), RLit ''>&'', RChar digit_class],
      RAll [RStar (RChar digit_class), RLit ''>'', RStar (RChar space_class), RWords [''/dev/null'', ''nul''], RBound]]"

definition git_verb_rx :: rx where
  "git_verb_rx = RAll [RLit ''git'', RPlus (RChar space_class),
     RWords [''commit'', ''push'', ''add'', ''rm'', ''mv'', ''checkout'', ''switch'', ''reset'', ''rebase'', ''merge'', ''cherry-pick'', ''stash'', ''tag'',
       ''apply'', ''am'', ''restore'', ''revert'', ''update-ref''], RBound]"

definition git_branch_rx :: rx where
  "git_branch_rx = RAll [RLit ''git'', RPlus (RChar space_class), RLit ''branch'', RPlus (RChar space_class),
     RAny [RAll [RLit ''-'', RStar (RChar letter_class), RChar (one_of ''dDfmMcC'')],
           RAll [RLit ''--'', RWords [''delete'', ''force'', ''move'', ''copy'']]], RBound]"

definition file_verb_rx :: rx where
  "file_verb_rx = RAny (map (\<lambda>w. RAll [RLit w, RChar space_class]) [''rm'', ''mv'', ''cp'', ''mkdir'', ''rmdir'', ''touch'', ''chmod''] @
     [RAll [RLit ''sed'', RPlus (RChar space_class), RAny [RAll [RLit ''-'', RStar (RChar letter_class), RLit ''i''], RLit ''--in-place'']]] @
     map (\<lambda>w. RAll [RLit w, RChar space_class]) [''tee'', ''truncate'', ''patch''])"

definition mutatingCommand :: rx where
  "mutatingCommand = RAny
     [RAll [RAny [RStart, RAll [RChar (one_of '';&|''), RStar (RChar space_class)], RChar space_class],
            RAny [git_verb_rx, git_branch_rx, file_verb_rx]],
      RAll [RChar (\<lambda>c. \<not> digit_class c \<and> \<not> one_of ''&|<>'' c), RLit ''>'', ROpt (RLit ''>''), RStar (RChar space_class),
            RChar (\<lambda>c. c \<noteq> CHR ''&'' \<and> c \<noteq> CHR ''|'' \<and> \<not> space_class c)]]"

definition lenient_str :: "string \<Rightarrow> json \<Rightarrow> string" where
  "lenient_str key v = dec_lenient [(key, dec_str)] [] v"

definition ChangesWorkspace :: "ToolCallData \<Rightarrow> bool" where
  "ChangesWorkspace c =
     (if tc_tool c = ''edit'' \<or> tc_tool c = ''write'' then True
      else if tc_tool c = ''git'' then
        (case tc_args c of None \<Rightarrow> False | Some v \<Rightarrow> lenient_str ''op'' v = ''commit'')
      else if tc_tool c = ''bash'' \<or> tc_tool c = ''wait'' then
        rx_match mutatingCommand
          (rx_replace harmlessRedirects '' '' (case tc_args c of None \<Rightarrow> [] | Some v \<Rightarrow> lenient_str ''command'' v))
      else False)"

text \<open>The events from the latest back; \<open>done\<close> holds the calls that succeeded.\<close>

fun changed_scan :: "string set \<Rightarrow> Event list \<Rightarrow> bool option" where
  "changed_scan done [] = Some False"
| "changed_scan done (e # es) =
     (if ev_type e = ''message'' then
        Option.bind (MustData as_message e) (\<lambda>d. if msg_role d = ''user'' then Some False else changed_scan done es)
      else if ev_type e = ''tool_result'' then
        Option.bind (MustData as_tool_result e) (\<lambda>d.
          changed_scan (if tr_status d = ''ok'' then insert (tr_call d) done else done) es)
      else if ev_type e = ''tool_call'' then
        Option.bind (MustData as_tool_call e) (\<lambda>d.
          if tc_call d \<in> done \<and> ChangesWorkspace d then Some True else changed_scan done es)
      else changed_scan done es)"

definition ChangedSinceUser :: "Event list \<Rightarrow> bool option" where
  "ChangedSinceUser log = changed_scan {} (rev log)"

fun last_asked :: "Event list \<Rightarrow> string option option" where
  "last_asked [] = Some None"
| "last_asked (e # es) =
     (if ev_type e \<noteq> ''message'' then last_asked es
      else Option.bind (MustData as_message e) (\<lambda>d. if msg_role d = ''user'' then Some (Some (msg_content d)) else last_asked es))"

definition QuestionTurn :: "Event list \<Rightarrow> State \<Rightarrow> bool option" where
  "QuestionTurn log st =
     (if GoalActive st then Some False
      else map_option (\<lambda>m. case m of None \<Rightarrow> False | Some text \<Rightarrow> AsksOnly text) (last_asked (rev log)))"

section \<open>A request wins\<close>

lemma asks_from_iff:
  "asks_from asked ss \<longleftrightarrow> (\<forall>s \<in> set ss. kindOf s \<noteq> sentenceRequest) \<and> (asked \<or> (\<exists>s \<in> set ss. kindOf s = sentenceQuestion))"
  by (induction ss arbitrary: asked) (auto split: sentenceKind.splits)

lemma sentences_from_line: "sentences_from b (rs @ [newline] # ts) = sentences_from b rs @ sentences_from [] ts"
  by (induction b rs rule: sentences_from.induct) auto

lemma utf8_width_line: "a \<noteq> [] \<Longrightarrow> utf8_width (a @ newline # b) = utf8_width a"
  by (cases a rule: utf8_width.cases) (auto simp: in_range_def split: list.split)

lemma utf8_width_le: "utf8_width s \<le> length s"
  by (cases s rule: utf8_width.cases) (auto split: list.split)

lemma runes_line: "runes (a @ newline # b) = runes a @ [newline] # runes b"
proof (induction "length a" arbitrary: a rule: less_induct)
  case less
  show ?case
  proof (cases "a = []")
    case True
    then show ?thesis by (simp add: runes.simps [of "newline # b"] runes.simps [of "[]"])
  next
    case False
    note w = utf8_width_line [OF False, of b] utf8_width_le [of a]
    have IH: "length c < length a \<Longrightarrow> runes (c @ newline # b) = runes c @ [newline] # runes b" for c using less by simp
    have tl: "tl (a @ newline # b) = tl a @ newline # b" "length (tl a) < length a" using False by simp_all
    have ra: "runes a = (let w = utf8_width a in
        if w = 0 then [CHR 0xEF, CHR 0xBF, CHR 0xBD] # runes (tl a) else take w a # runes (drop w a))"
      using False runes.simps [of a] by simp
    have rb: "runes (a @ newline # b) = (let w = utf8_width a in
        if w = 0 then [CHR 0xEF, CHR 0xBF, CHR 0xBD] # runes (tl (a @ newline # b))
        else take w (a @ newline # b) # runes (drop w (a @ newline # b)))"
      using runes.simps [of "a @ newline # b"] w(1) by simp
    show ?thesis
    proof (cases "utf8_width a = 0")
      case True
      then show ?thesis unfolding ra rb tl(1) Let_def using IH [OF tl(2)] by simp
    next
      case F: False
      have "take (utf8_width a) (a @ newline # b) = take (utf8_width a) a"
        "drop (utf8_width a) (a @ newline # b) = drop (utf8_width a) a @ newline # b" using w(2) by simp_all
      moreover have "length (drop (utf8_width a) a) < length a" using F False by simp
      ultimately show ?thesis unfolding ra rb Let_def using IH F by simp
    qed
  qed
qed

lemma sentences_line: "sentences (a @ newline # b) = sentences a @ sentences b"
  by (simp add: sentences_def runes_line sentences_from_line)

lemma request_wins:
  assumes "kindOf s = sentenceRequest" "s \<in> set (sentences a)"
  shows "\<not> AsksOnly a \<and> \<not> AsksOnly (a @ newline # b) \<and> \<not> AsksOnly (b @ newline # a)"
  using assms by (auto simp: AsksOnly_def asks_from_iff sentences_line)

section \<open>What counts as a change\<close>

definition by_person :: "Event \<Rightarrow> bool" where
  "by_person e \<longleftrightarrow> ev_type e = ''message'' \<and> (\<exists>d. MustData as_message e = Some d \<and> msg_role d = ''user'')"

definition succeeded :: "string \<Rightarrow> Event \<Rightarrow> bool" where
  "succeeded c e \<longleftrightarrow> ev_type e = ''tool_result'' \<and> (\<exists>d. MustData as_tool_result e = Some d \<and> tr_status d = ''ok'' \<and> tr_call d = c)"

definition changing :: "Event \<Rightarrow> string \<Rightarrow> bool" where
  "changing e c \<longleftrightarrow> ev_type e = ''tool_call'' \<and> (\<exists>d. MustData as_tool_call e = Some d \<and> ChangesWorkspace d \<and> tc_call d = c)"

text \<open>A changing call behind the person's last message, and its success behind it; latest first.\<close>

definition changed_in :: "string set \<Rightarrow> Event list \<Rightarrow> bool" where
  "changed_in done es \<longleftrightarrow>
     (\<exists>later e earlier c. es = later @ e # earlier \<and> changing e c \<and> (c \<in> done \<or> (\<exists>r \<in> set later. succeeded c r)) \<and>
        (\<forall>x \<in> set later. \<not> by_person x))"

lemma changed_in_Cons:
  "changed_in done (e # es) \<longleftrightarrow>
     (\<exists>c. changing e c \<and> c \<in> done) \<or> \<not> by_person e \<and> changed_in (done \<union> {c. succeeded c e}) es" (is "?L \<longleftrightarrow> ?R")
proof
  assume ?L
  then obtain later x earlier c where s: "e # es = later @ x # earlier" "changing x c"
    "c \<in> done \<or> (\<exists>r \<in> set later. succeeded c r)" "\<forall>x \<in> set later. \<not> by_person x"
    unfolding changed_in_def by blast
  show ?R
  proof (cases later)
    case Nil
    then show ?thesis using s by auto
  next
    case (Cons y ys)
    then have "es = ys @ x # earlier" "y = e" using s(1) by simp_all
    then have "es = ys @ x # earlier \<and> changing x c \<and> (c \<in> done \<union> {c. succeeded c e} \<or> (\<exists>r \<in> set ys. succeeded c r)) \<and>
        (\<forall>x \<in> set ys. \<not> by_person x)" using s(2-4) Cons by auto
    then have "changed_in (done \<union> {c. succeeded c e}) es" unfolding changed_in_def by blast
    moreover have "\<not> by_person e" using s(4) Cons \<open>y = e\<close> by simp
    ultimately show ?thesis by blast
  qed
next
  assume ?R
  then show ?L
  proof
    assume "\<exists>c. changing e c \<and> c \<in> done"
    then obtain c where "changing e c" "c \<in> done" by blast
    then have "e # es = [] @ e # es \<and> changing e c \<and> (c \<in> done \<or> (\<exists>r \<in> set []. succeeded c r)) \<and> (\<forall>x \<in> set []. \<not> by_person x)"
      by simp
    then show ?L unfolding changed_in_def by blast
  next
    assume r: "\<not> by_person e \<and> changed_in (done \<union> {c. succeeded c e}) es"
    then obtain later x earlier c where s: "es = later @ x # earlier" "changing x c"
      "c \<in> done \<union> {c. succeeded c e} \<or> (\<exists>r \<in> set later. succeeded c r)" "\<forall>x \<in> set later. \<not> by_person x"
      unfolding changed_in_def by blast
    then have "e # es = (e # later) @ x # earlier \<and> changing x c \<and> (c \<in> done \<or> (\<exists>r \<in> set (e # later). succeeded c r)) \<and>
        (\<forall>x \<in> set (e # later). \<not> by_person x)"
      using r by auto
    then show ?L unfolding changed_in_def by blast
  qed
qed

lemma changed_scan_iff:
  "\<forall>e \<in> set es. decodes e \<Longrightarrow> changed_scan done es = Some (changed_in done es)"
proof (induction es arbitrary: "done")
  case Nil
  then show ?case by (simp add: changed_in_def)
next
  case (Cons e es)
  then have IH: "changed_scan d es = Some (changed_in d es)" for d by simp
  have dec: "decodes e" using Cons.prems by simp
  consider "ev_type e = ''message''" | "ev_type e = ''tool_result''" | "ev_type e = ''tool_call''"
    | "ev_type e \<notin> {''message'', ''tool_result'', ''tool_call''}" by blast
  then show ?case
  proof cases
    case 1
    then obtain d where "MustData as_message e = Some d" using MustData_type(1) [OF dec] by blast
    with 1 show ?thesis by (simp add: IH changed_in_Cons changing_def by_person_def succeeded_def)
  next
    case 2
    then obtain d where d: "MustData as_tool_result e = Some d" using MustData_type(5) [OF dec] by blast
    have "{c. succeeded c e} = (if tr_status d = ''ok'' then {tr_call d} else {})" using d 2 by (auto simp: succeeded_def)
    with 2 d show ?thesis by (simp add: IH changed_in_Cons changing_def by_person_def)
  next
    case 3
    then obtain d where d: "MustData as_tool_call e = Some d" using MustData_type(6) [OF dec] by blast
    with 3 show ?thesis by (simp add: IH changed_in_Cons changing_def by_person_def succeeded_def) blast
  next
    case 4
    then show ?thesis by (simp add: IH changed_in_Cons changing_def by_person_def succeeded_def)
  qed
qed

text \<open>C37: On a valid log a turn has changed the workspace exactly when, behind the person's last message, there is a call that
  changes the workspace and, behind it, a result that says it succeeded.\<close>
theorem ChangedSinceUser_iff:
  assumes "ValidateLog log = None"
  shows "ChangedSinceUser log = Some
    (\<exists>earlier e later c. log = earlier @ e # later \<and> changing e c \<and> (\<exists>r \<in> set later. succeeded c r) \<and> (\<forall>x \<in> set later. \<not> by_person x))"
proof -
  have "changed_in {} (rev log) \<longleftrightarrow>
      (\<exists>earlier e later c. log = earlier @ e # later \<and> changing e c \<and> (\<exists>r \<in> set later. succeeded c r) \<and> (\<forall>x \<in> set later. \<not> by_person x))"
    (is "_ \<longleftrightarrow> ?R")
  proof
    assume "changed_in {} (rev log)"
    then obtain l e r c where s: "rev log = l @ e # r" "changing e c" "\<exists>x \<in> set l. succeeded c x" "\<forall>x \<in> set l. \<not> by_person x"
      unfolding changed_in_def by blast
    then have "log = rev r @ e # rev l" by (metis append.assoc append_Cons append_Nil rev.simps(2) rev_append rev_rev_ident)
    moreover have "\<exists>x \<in> set (rev l). succeeded c x" "\<forall>x \<in> set (rev l). \<not> by_person x" using s by simp_all
    ultimately show ?R using s(2) by blast
  next
    assume ?R
    then obtain b e a c where s: "log = b @ e # a" "changing e c" "\<exists>x \<in> set a. succeeded c x" "\<forall>x \<in> set a. \<not> by_person x" by blast
    then have "rev log = rev a @ e # rev b \<and> changing e c \<and> (c \<in> {} \<or> (\<exists>x \<in> set (rev a). succeeded c x)) \<and>
        (\<forall>x \<in> set (rev a). \<not> by_person x)" by simp
    then show "changed_in {} (rev log)" unfolding changed_in_def by blast
  qed
  moreover have "\<forall>e \<in> set (rev log). decodes e" using ValidateLog_decodes [OF assms] by simp
  ultimately show ?thesis unfolding ChangedSinceUser_def using changed_scan_iff [of "rev log" "{}"] by simp
qed

definition run_command :: "string \<Rightarrow> ToolCallData" where
  "run_command s = \<lparr>tc_call = ''c'', tc_tool = ''bash'', tc_args = Some (JObj [(''command'', JStr s)]), tc_source = ''model''\<rparr>"

lemma command_samples:
  "ChangesWorkspace (run_command ''git  commit'') \<and> \<not> ChangesWorkspace (run_command ''go x 2>&1'')"
  by code_simp

definition sample_edit :: event_data where
  "sample_edit = DToolCall \<lparr>tc_call = ''c1'', tc_tool = ''edit'', tc_args = Some (JObj []), tc_source = ''model''\<rparr>"

definition sample_edited :: event_data where
  "sample_edited = DToolResult \<lparr>tr_call = ''c1'', tr_tool = ''edit'', tr_content = ''text'', tr_status = ''ok'', tr_kind = [], tr_exit = None\<rparr>"

lemma edit_samples:
  "payload_ok sample_edit" "validate_payload sample_edit = None" "payload_type sample_edit = ''tool_call''"
  "payload_ok sample_edited" "validate_payload sample_edited = None" "payload_type sample_edited = ''tool_result''"
  by (simp_all add: sample_edit_def sample_edited_def tool_call_ok_def tool_result_ok_def validate_tool_call_def
      validate_tool_result_def isSource_def raw_len_def)

lemma ChangedSinceUser_iff_witness:
  "ChangedSinceUser (sample_log [sample_session, sample_said ''x'', sample_edit, sample_edited]) = Some True"
proof -
  let ?log = "sample_log [sample_session, sample_said ''x'', sample_edit, sample_edited]"
  have l: "?log = [sample_event 0 sample_session, sample_event 1 (sample_said ''x'')] @ sample_event 2 sample_edit # [sample_event 3 sample_edited]"
    by (simp add: sample_log_def upt_conv_Cons eval_nat_numeral)
  have v: "ValidateLog ?log = None"
  proof (rule sample_log_valid)
    show "payload_ok p \<and> validate_payload p = None" if "p \<in> set [sample_session, sample_said ''x'', sample_edit, sample_edited]" for p
      using that edit_samples samples_ok by auto
  qed (auto simp: edit_samples)
  have c: "MustData as_tool_call (sample_event 2 sample_edit) =
      Some \<lparr>tc_call = ''c1'', tc_tool = ''edit'', tc_args = Some (JObj []), tc_source = ''model''\<rparr>"
    unfolding sample_must [OF edit_samples(1)] by (simp add: sample_edit_def as_defs)
  have r: "MustData as_tool_result (sample_event 3 sample_edited) =
      Some \<lparr>tr_call = ''c1'', tr_tool = ''edit'', tr_content = ''text'', tr_status = ''ok'', tr_kind = [], tr_exit = None\<rparr>"
    unfolding sample_must [OF edit_samples(4)] by (simp add: sample_edited_def as_defs)
  have "changing (sample_event 2 sample_edit) ''c1''" unfolding changing_def c by (simp add: edit_samples ChangesWorkspace_def)
  moreover have "succeeded ''c1'' (sample_event 3 sample_edited)" "\<not> by_person (sample_event 3 sample_edited)"
    unfolding succeeded_def by_person_def r by (simp_all add: edit_samples)
  ultimately have "(\<exists>r \<in> set [sample_event 3 sample_edited]. succeeded ''c1'' r) \<and>
      (\<forall>x \<in> set [sample_event 3 sample_edited]. \<not> by_person x) \<and> changing (sample_event 2 sample_edit) ''c1''" by simp
  then have "\<exists>earlier e later c. ?log = earlier @ e # later \<and> changing e c \<and> (\<exists>r \<in> set later. succeeded c r) \<and>
      (\<forall>x \<in> set later. \<not> by_person x)"
    using l by blast
  then show ?thesis using ChangedSinceUser_iff [OF v] by simp
qed

end
