(* ===== verification/Loop_Module.thy ===== *)
theory Loop_Module
  imports Question Module_Registry Model_Request
begin

text \<open>
  \<open>daemon/modules/loop/loop.go\<close>: the module that notices a model
  repeating itself. Everything is computed from the log since the person's last message: the attempts, how
  often one change ran alike, how often one check answered alike, and the turns that returned nothing new.
  The record \<open>Texts\<close> holds what the code takes from libraries: the canonical form of arguments
  (\<open>encoding/json\<close>) and the formatting of hours. The patterns are the source's. \<^term>\<open>None\<close> is the panic of
  \<open>MustData\<close>.

  The lemmas show what a count of runs says of the log, that no check is refused, and that one change runs
  and is refused only so often before the session stops.
\<close>

record Texts =
  tx_canonical :: "json option \<Rightarrow> string"
  tx_hours :: "int \<Rightarrow> string"

record LoopConfig =
  lc_enabled :: bool
  lc_identical_after :: int
  lc_halt_after :: int
  lc_not_landing_after :: int
  lc_watch_after :: int
  lc_stalled_after :: int
  lc_stalled_halt_after :: int

text \<open>\<open>int_of\<close> is \<open>Config.Int\<close> of the module's section.\<close>

definition loop_init :: "bool \<Rightarrow> (string \<Rightarrow> int \<Rightarrow> int) \<Rightarrow> LoopConfig" where
  "loop_init enabled int_of =
     \<lparr>lc_enabled = enabled,
      lc_identical_after = max (int_of ''identical_after'' 3) 2,
      lc_halt_after = max (int_of ''halt_after'' 2) 1,
      lc_not_landing_after = max (int_of ''not_landing_after'' 3) 2,
      lc_watch_after = max (int_of ''watch_after'' 5) 2,
      lc_stalled_after = max (int_of ''stalled_after'' 5) 2,
      lc_stalled_halt_after = max (int_of ''stalled_halt_after'' 2) 1\<rparr>"

section \<open>Patterns\<close>

definition explicitWait :: rx where
  "explicitWait = RAny
     [RAll [RAny [RStart, RChar (\<lambda>c. space_class c \<or> one_of '';&|('' c)], RWords [''sleep'', ''watch''], RChar space_class],
      RAll [RLit ''--watch'', RBound]]"

definition cd_rx :: rx where
  "cd_rx = RAll [RLit ''cd'', RPlus (RChar space_class), RPlus (RChar (\<lambda>c. \<not> one_of '';&|'' c)), RWords [''&&'', '';''], RStar (RChar space_class)]"

definition viewing :: rx where
  "viewing = RAll [RStart, RStar (RChar space_class), RStar cd_rx,
     RAny [RWords [''grep'', ''rg'', ''cat'', ''head'', ''tail'', ''less'', ''ls'', ''find'', ''echo''],
           RAll [RLit ''git'', RPlus (RChar space_class), RWords [''log'', ''show'', ''diff'', ''grep'', ''status'']]], RBound]"

definition errorLine :: rx where
  "errorLine = RAny
     [RAll [RBound, RFold ''error'', RBound], RAll [RBound, RFold ''panic''],
      RAll [RBound, RLit ''FAIL'', ROpt (RLit ''ED''), RBound],
      RAll [RBound, RChar (\<lambda>c. digit_class c \<and> c \<noteq> CHR ''0''), RStar (RChar digit_class), RLit '' '',
        RAny [RLit ''failed'', RAll [RLit ''failure'', ROpt (RLit ''s'')], RAll [RLit ''error'', ROpt (RLit ''s'')]], RBound]]"

text \<open>Between one and \<open>Suc n\<close> times, as often as possible.\<close>

fun RUpTo :: "rx \<Rightarrow> nat \<Rightarrow> rx" where
  "RUpTo r 0 = r"
| "RUpTo r (Suc n) = RSeq r (ROpt (RUpTo r n))"

definition location :: rx where
  "location = RAll [RPlus (RChar (\<lambda>c. word_char c \<or> one_of [CHR ''.'', CHR ''/'', CHR 0x5C, CHR ''-''] c)), RLit ''.'',
     RUpTo (RChar letter_class) 4, RLit '':'', RPlus (RChar digit_class)]"

definition leadingCd :: rx where
  "leadingCd = RAll [RStart, RStar (RChar space_class), cd_rx]"

section \<open>Words\<close>

abbreviation nul :: char where "nul \<equiv> CHR 0x00"
abbreviation dots :: string where "dots \<equiv> [CHR 0xE2, CHR 0x80, CHR 0xA6]"

definition clip :: "string \<Rightarrow> nat \<Rightarrow> string" where
  "clip s n = (if length (runes s) > n then concat (take n (runes s)) @ dots else s)"

definition quote :: "string \<Rightarrow> string" where
  "quote s = fmt_q (clip (trim_space s) 160)"

definition counted :: "int \<Rightarrow> string \<Rightarrow> string \<Rightarrow> string" where
  "counted n one many = (if n = 1 then ''1 '' @ one else itoa n @ '' '' @ many)"

definition listed :: "string list \<Rightarrow> nat \<Rightarrow> string" where
  "listed labels n =
     (if length labels > n
      then join '', '' (drop (length labels - n) labels) @ '', and '' @ itoa (int (length labels - n)) @ '' earlier''
      else join '', '' labels)"

text \<open>Times are in nanoseconds; the conversions to int cut toward zero.\<close>

definition cut_div :: "int \<Rightarrow> int \<Rightarrow> int" where
  "cut_div a b = (if a < 0 then - (- a div b) else a div b)"

definition since_text :: "Texts \<Rightarrow> int \<Rightarrow> int \<Rightarrow> string" where
  "since_text tx t0 t1 =
     (let d = t1 - t0 in
      if d < 60000000000 then counted (cut_div d 1000000000) ''second'' ''seconds''
      else if d < 3600000000000 then counted (cut_div d 60000000000) ''minute'' ''minutes''
      else tx_hours tx d @ '' hours'')"

text \<open>\<open>strings.Split\<close> at line ends.\<close>

fun split_lines :: "string \<Rightarrow> string list" where
  "split_lines [] = [[]]"
| "split_lines (c # s) =
     (if c = newline then [] # split_lines s
      else case split_lines s of l # ls \<Rightarrow> (c # l) # ls | [] \<Rightarrow> [[c]])"

fun cut_sentence :: "string \<Rightarrow> string" where
  "cut_sentence (c # d # s) =
     (if (c = CHR ''.'' \<or> c = CHR ''!'' \<or> c = CHR 0x3F) \<and> d = CHR '' '' then [c] else c # cut_sentence (d # s))"
| "cut_sentence s = s"

definition firstSentence :: "string \<Rightarrow> string" where
  "firstSentence s = clip (cut_sentence (takeWhile (\<lambda>c. c \<noteq> newline) (trim_space s))) 160"

definition normalise :: "string \<Rightarrow> string" where
  "normalise s =
     join '' '' (fields_func (\<lambda>c. \<not> (CHR ''a'' \<le> c \<and> c \<le> CHR ''z'' \<or> CHR ''0'' \<le> c \<and> c \<le> CHR ''9'')) (to_lower s))"

section \<open>Calls\<close>

text \<open>A string member of the arguments; of members of one name the last counts.\<close>

definition argString :: "json option \<Rightarrow> string \<Rightarrow> string" where
  "argString args key =
     (case args of
        Some (JObj ms) \<Rightarrow> (case map_of (rev ms) key of Some (JStr s) \<Rightarrow> s | _ \<Rightarrow> [])
      | _ \<Rightarrow> [])"

definition argPath :: "json option \<Rightarrow> string" where
  "argPath args = argString args ''path''"

definition call_label :: "ToolCallData \<Rightarrow> string" where
  "call_label c =
     (let path = argPath (tc_args c); r = runes path;
          named = List.find (\<lambda>v. v \<noteq> []) (map (argString (tc_args c)) [''command'', ''pattern'', ''op'']) in
      if path \<noteq> [] then tc_tool c @ '' '' @ (if length r > 60 then dots @ concat (drop (length r - 60) r) else path)
      else case named of
        None \<Rightarrow> tc_tool c
      | Some v \<Rightarrow>
          tc_tool c @ '' '' @
            clip (rx_replace leadingCd [] (if CHR 0x0D \<in> set v \<or> newline \<in> set v
                              then takeWhile (\<lambda>x. x \<noteq> CHR 0x0D \<and> x \<noteq> newline) v @ '' '' @ dots else v)) 80)"

definition call_key :: "Texts \<Rightarrow> ToolCallData \<Rightarrow> string" where
  "call_key tx c = tc_tool c @ [nul] @ tx_canonical tx (tc_args c)"

definition mutating :: "string \<Rightarrow> bool" where
  "mutating tool \<longleftrightarrow> tool = ''write'' \<or> tool = ''edit''"

definition samePath :: "string \<Rightarrow> string \<Rightarrow> bool" where
  "samePath a b \<longleftrightarrow> equal_fold (path_clean a) (path_clean b)"

section \<open>Attempts\<close>

record attempt =
  at_tool :: string
  at_path :: string
  at_key :: string
  at_label :: string
  at_command :: string
  at_result :: string
  at_content :: string
  at_ok :: bool
  at_time :: int
  at_refused :: bool
  at_changes :: bool
  at_fresh :: bool

definition attempt_zero :: attempt where
  "attempt_zero = \<lparr>at_tool = [], at_path = [], at_key = [], at_label = [], at_command = [], at_result = [], at_content = [],
     at_ok = False, at_time = 0, at_refused = False, at_changes = False, at_fresh = False\<rparr>"

definition refusedPrefix :: string where
  "refusedPrefix = ''loop: ''"

text \<open>\<open>sincePerson\<close>: the events after the person's last message.\<close>

fun since_person :: "Event list \<Rightarrow> Event list option" where
  "since_person [] = Some []"
| "since_person (e # es) =
     (case since_person es of
        None \<Rightarrow> None
      | Some r \<Rightarrow>
          if length r < length es then Some r
          else if ev_type e \<noteq> ''message'' then Some (e # r)
          else map_option (\<lambda>d. if msg_role d = ''user'' then r else e # r) (MustData as_message e))"

definition made_attempt :: "Texts \<Rightarrow> ToolCallData \<Rightarrow> ToolResultData \<Rightarrow> int \<Rightarrow> attempt" where
  "made_attempt tx c r time =
     \<lparr>at_tool = tc_tool c, at_path = (if mutating (tc_tool c) then argPath (tc_args c) else []), at_key = call_key tx c,
      at_label = call_label c, at_command = argString (tc_args c) ''command'',
      at_result = tr_status r @ [nul] @ tr_content r, at_content = tr_content r, at_ok = (tr_status r = ''ok''), at_time = time,
      at_refused = (tr_status r = ''error'' \<and> has_prefix (tr_content r) (''denied: '' @ refusedPrefix)),
      at_changes = (tr_status r = ''ok'' \<and> ChangesWorkspace c), at_fresh = False\<rparr>"

text \<open>The state of the pass: the model's calls by id, the attempts, and where those since its last message start.\<close>

type_synonym HistoryScan = "(string \<Rightarrow> ToolCallData option) \<times> attempt list \<times> nat"

definition note_call :: "(string \<Rightarrow> ToolCallData option) \<Rightarrow> Event \<Rightarrow> (string \<Rightarrow> ToolCallData option) option" where
  "note_call calls e = map_option (\<lambda>c. if tc_source c = ''model'' then calls(tc_call c \<mapsto> c) else calls) (MustData as_tool_call e)"

definition history_step :: "Texts \<Rightarrow> HistoryScan \<Rightarrow> Event \<Rightarrow> HistoryScan option" where
  "history_step tx s e =
     (case s of (calls, out, fresh) \<Rightarrow>
        if ev_type e = ''message'' then Some (calls, out, length out)
        else if ev_type e = ''tool_call'' then map_option (\<lambda>calls'. (calls', out, fresh)) (note_call calls e)
        else if ev_type e = ''tool_result'' then
          map_option (\<lambda>r. case calls (tr_call r) of
              None \<Rightarrow> s
            | Some c \<Rightarrow> (calls, out @ [made_attempt tx c r (ev_time e)], fresh)) (MustData as_tool_result e)
        else Some s)"

definition history :: "Texts \<Rightarrow> Event list \<Rightarrow> attempt list option" where
  "history tx log =
     Option.bind (since_person log) (\<lambda>es.
       map_option (\<lambda>(calls, out, fresh). take fresh out @ map (\<lambda>a. a\<lparr>at_fresh := True\<rparr>) (drop fresh out))
         (fold_opt (history_step tx) (\<lambda>_. None, [], 0) es))"

definition observing :: "attempt \<Rightarrow> bool" where
  "observing a \<longleftrightarrow> \<not> mutating (at_tool a) \<and> \<not> at_changes a \<and> at_tool a \<noteq> ''wait'' \<and> at_tool a \<noteq> ''task.update'' \<and> \<not> at_refused a"

definition touches :: "attempt \<Rightarrow> string \<Rightarrow> bool" where
  "touches a path \<longleftrightarrow> at_changes a \<and> (if mutating (at_tool a) then samePath (at_path a) path else True)"

section \<open>One change, one check\<close>

record identical =
  id_runs :: nat
  id_refusals :: nat
  id_first :: attempt
  id_last :: attempt

text \<open>The step also carries whether something else has touched the file since the last run.\<close>

definition identical_step :: "string \<Rightarrow> string \<Rightarrow> identical \<times> bool \<Rightarrow> attempt \<Rightarrow> identical \<times> bool" where
  "identical_step key path s a =
     (case s of (st, disturbed) \<Rightarrow>
        if at_key a \<noteq> key then (st, disturbed \<or> id_runs st > 0 \<and> touches a path)
        else if at_refused a then (st\<lparr>id_refusals := id_refusals st + 1\<rparr>, disturbed)
        else if id_runs st > 0 \<and> \<not> disturbed \<and> at_result a = at_result (id_last st)
        then (st\<lparr>id_runs := id_runs st + 1, id_last := a\<rparr>, disturbed)
        else (\<lparr>id_runs = 1, id_refusals = 0, id_first = a, id_last = a\<rparr>, False))"

definition identical_zero :: identical where
  "identical_zero = \<lparr>id_runs = 0, id_refusals = 0, id_first = attempt_zero, id_last = attempt_zero\<rparr>"

definition identicalRun :: "attempt list \<Rightarrow> string \<Rightarrow> string \<Rightarrow> identical" where
  "identicalRun atts key path = fst (foldl (identical_step key path) (identical_zero, False) atts)"

record streak =
  sk_runs :: nat
  sk_changes :: "string list"
  sk_last_gap :: bool
  sk_any_change :: bool
  sk_first :: attempt
  sk_last :: attempt

definition streak_zero :: streak where
  "streak_zero = \<lparr>sk_runs = 0, sk_changes = [], sk_last_gap = False, sk_any_change = False,
     sk_first = attempt_zero, sk_last = attempt_zero\<rparr>"

text \<open>The step also carries the labels of the changes since the latest run.\<close>

definition streak_step :: "string \<Rightarrow> streak \<times> string list \<Rightarrow> attempt \<Rightarrow> streak \<times> string list" where
  "streak_step key s a =
     (case s of (st, gap) \<Rightarrow>
        if at_key a \<noteq> key then (st, if at_changes a then gap @ [at_label a] else gap)
        else if at_refused a then (st, gap)
        else if sk_runs st > 0 \<and> at_result a = at_result (sk_last st)
        then (st\<lparr>sk_runs := sk_runs st + 1, sk_changes := sk_changes st @ gap, sk_last_gap := gap \<noteq> [],
                 sk_any_change := sk_any_change st \<or> gap \<noteq> [], sk_last := a\<rparr>, [])
        else (\<lparr>sk_runs = 1, sk_changes = [], sk_last_gap = False, sk_any_change = False, sk_first = a, sk_last = a\<rparr>, []))"

definition checkStreak :: "attempt list \<Rightarrow> string \<Rightarrow> streak" where
  "checkStreak atts key = fst (foldl (streak_step key) (streak_zero, []) atts)"

section \<open>Stalls\<close>

record reply_turn =
  tn_opening :: string
  tn_calls :: "(string \<times> string \<times> string) list"
  tn_time :: int
  tn_changed :: bool
  tn_stale :: bool
  tn_latest :: bool

text \<open>The state of the pass: the model's calls, the replies so far, and its last thinking.\<close>

type_synonym TurnScan = "(string \<Rightarrow> ToolCallData option) \<times> reply_turn list \<times> string"

definition add_result :: "Texts \<Rightarrow> ToolCallData \<Rightarrow> ToolResultData \<Rightarrow> reply_turn \<Rightarrow> reply_turn" where
  "add_result tx c r t =
     t\<lparr>tn_calls := tn_calls t @ [(call_key tx c, call_label c, tr_status r @ [nul] @ tr_content r)],
       tn_changed := tn_changed t \<or> mutating (tc_tool c) \<and> tr_status r = ''ok'' \<and> \<not> has_prefix (tr_content r) ''unchanged''\<rparr>"

definition turn_step :: "Texts \<Rightarrow> TurnScan \<Rightarrow> Event \<Rightarrow> TurnScan option" where
  "turn_step tx s e =
     (case s of (calls, all, thinking) \<Rightarrow>
        if ev_type e = ''thinking'' then
          map_option (\<lambda>d. if th_source d = ''model'' then (calls, all, th_content d) else s) (MustData as_thinking e)
        else if ev_type e = ''message'' then
          map_option (\<lambda>said.
              (calls, all @ [\<lparr>tn_opening = firstSentence said, tn_calls = [], tn_time = ev_time e, tn_changed = False,
                 tn_stale = False, tn_latest = False\<rparr>], []))
            (if trim_space thinking = [] then map_option msg_content (MustData as_message e) else Some thinking)
        else if ev_type e = ''tool_call'' then map_option (\<lambda>calls'. (calls', all, thinking)) (note_call calls e)
        else if ev_type e = ''tool_result'' then
          map_option (\<lambda>r. case calls (tr_call r) of
              None \<Rightarrow> s
            | Some c \<Rightarrow> if all = [] then s else (calls, butlast all @ [add_result tx c r (last all)], thinking))
            (MustData as_tool_result e)
        else Some s)"

definition tn_results :: "reply_turn \<Rightarrow> string list" where
  "tn_results t = map (\<lambda>(k, l, r). r) (tn_calls t)"

text \<open>The second pass: a turn is stale when nothing changed and each of its results had been seen.\<close>

fun mark_turns :: "string set \<Rightarrow> reply_turn list \<Rightarrow> reply_turn list" where
  "mark_turns seen [] = []"
| "mark_turns seen (t # ts) =
     (if tn_calls t = [] then mark_turns seen ts
      else t\<lparr>tn_stale := \<not> tn_changed t \<and> set (tn_results t) \<subseteq> seen, tn_latest := (ts = [])\<rparr>
        # mark_turns (seen \<union> set (tn_results t)) ts)"

definition turns :: "Texts \<Rightarrow> Event list \<Rightarrow> reply_turn list option" where
  "turns tx log =
     Option.bind (since_person log) (\<lambda>es.
       map_option (\<lambda>(calls, all, thinking). mark_turns {} all) (fold_opt (turn_step tx) (\<lambda>_. None, [], []) es))"

record stall =
  sl_run :: "reply_turn list"
  sl_counted :: bool
  sl_runs :: nat

definition distinctCalls :: "reply_turn list \<Rightarrow> nat" where
  "distinctCalls ts = length (remdups (map fst (concat (map tn_calls ts))))"

definition stall_step :: "LoopConfig \<Rightarrow> stall \<Rightarrow> reply_turn \<Rightarrow> stall" where
  "stall_step m st t =
     (if \<not> tn_stale t then st\<lparr>sl_run := [], sl_counted := False\<rparr>
      else (let st' = st\<lparr>sl_run := sl_run st @ [t]\<rparr> in
        if int (length (sl_run st')) = lc_stalled_after m \<and> distinctCalls (sl_run st') > 1
        then st'\<lparr>sl_counted := True, sl_runs := sl_runs st + 1\<rparr> else st'))"

definition stalled_turns :: "LoopConfig \<Rightarrow> reply_turn list \<Rightarrow> stall" where
  "stalled_turns m ts = foldl (stall_step m) \<lparr>sl_run = [], sl_counted = False, sl_runs = 0\<rparr> ts"

definition halts :: "LoopConfig \<Rightarrow> stall \<Rightarrow> string" where
  "halts m st =
     (if sl_runs st \<ge> 2 then ''stalled twice since the person's last message''
      else if sl_counted st \<and> int (length (sl_run st)) \<ge> lc_stalled_after m + lc_stalled_halt_after m
      then itoa (int (length (sl_run st))) @ '' turns in a row returned nothing new''
      else [])"

section \<open>Facts for the notices\<close>

definition firstError :: "string \<Rightarrow> string" where
  "firstError content =
     (case List.find (\<lambda>l. l \<noteq> [] \<and> rx_match errorLine l) (map trim_space (split_lines content)) of
        None \<Rightarrow> []
      | Some l \<Rightarrow> clip l 160)"

definition locations :: "string \<Rightarrow> string list" where
  "locations content = take 3 (rev (remdups (rev (rx_texts location content))))"

definition failed_check :: "attempt \<Rightarrow> bool" where
  "failed_check a \<longleftrightarrow> \<not> at_ok a \<or> at_tool a = ''bash'' \<and> \<not> rx_match viewing (at_command a) \<and> firstError (at_content a) \<noteq> []"

definition failure_text :: "attempt \<Rightarrow> string" where
  "failure_text a =
     (let e = firstError (at_content a); locs = locations (at_content a) in
      ''The last failing check was `'' @ at_label a @ ''`'' @
      (if e \<noteq> [] then '', which said '' @ fmt_q e else []) @
      (if locs \<noteq> [] then '' (at '' @ join '', '' locs @ '')'' else []) @ ''.'')"

text \<open>\<open>lastFailure\<close>, from the latest attempt back.\<close>

fun failure_scan :: "string \<Rightarrow> string set \<Rightarrow> attempt list \<Rightarrow> string" where
  "failure_scan key seen [] = []"
| "failure_scan key seen (a # as) =
     (if at_key a = key \<or> \<not> observing a \<or> at_key a \<in> seen then failure_scan key seen as
      else if \<not> failed_check a then failure_scan key (insert (at_key a) seen) as
      else failure_text a)"

definition lastFailure :: "attempt list \<Rightarrow> string \<Rightarrow> string" where
  "lastFailure atts key = failure_scan key {} (rev atts)"

section \<open>Notices\<close>

text \<open>A notice for the model and the note for the person, or none.\<close>

type_synonym said = "(string \<times> string) option"

definition identicalNotice :: "Texts \<Rightarrow> LoopConfig \<Rightarrow> attempt list \<Rightarrow> attempt \<Rightarrow> said" where
  "identicalNotice tx m atts a =
     (let st = identicalRun atts (at_key a) (at_path a); f = lastFailure atts (at_key a) in
      if int (id_runs st) < lc_identical_after m then None
      else Some
        (''[rho loop notice] `'' @ at_label a @ ''` has now run '' @ itoa (int (id_runs st)) @
         '' times since the person's last message, with the same arguments and the same result each time ('' @ quote (at_content a) @ '').'' @
         (if at_path a \<noteq> [] then '' Nothing else has changed '' @ at_path a @ '' in the '' @
            since_text tx (at_time (id_first st)) (at_time a) @ '' since the first.'' else []) @
         (if f \<noteq> [] then '' '' @ f else []) @
         '' Repeating it cannot change anything, and the next identical call will be refused.'',
         ''told the model `'' @ at_label a @ ''` has run '' @ itoa (int (id_runs st)) @ '' times with the same result''))"

definition not_landing_text :: "Texts \<Rightarrow> attempt \<Rightarrow> streak \<Rightarrow> string" where
  "not_landing_text tx a st =
     (let n = int (length (sk_changes st)); e = firstError (at_content a); locs = locations (at_content a) in
      ''[rho loop notice] `'' @ at_label a @ ''` has failed with the same output '' @ itoa (int (sk_runs st)) @
      '' times in a row, and the '' @ counted n ''change'' ''changes'' @ '' made in between ('' @ listed (sk_changes st) 6 @
      '') did not change it.'' @
      (if e \<noteq> [] then '' Its first error is still '' @ fmt_q e @ ''.'' else []) @
      (if locs \<noteq> [] then '' It points at '' @ join '', '' locs @ ''.'' else []) @
      '' The changes may not be reaching the cause; look at what the error names before changing more.'')"

definition watching_text :: "Texts \<Rightarrow> attempt \<Rightarrow> streak \<Rightarrow> string" where
  "watching_text tx a st =
     ''[rho loop notice] `'' @ at_label a @ ''` has returned the same output '' @ itoa (int (sk_runs st)) @ '' times over '' @
     since_text tx (at_time (sk_first st)) (at_time a) @ '', with nothing changed in between. '' @
     ''If you are waiting for something to finish, the `wait` tool runs a command until its output changes and returns once. '' @
     ''If you are not waiting, asking again will not give a different answer.''"

definition checkNotice :: "Texts \<Rightarrow> LoopConfig \<Rightarrow> attempt list \<Rightarrow> attempt \<Rightarrow> said" where
  "checkNotice tx m atts a =
     (let st = checkStreak atts (at_key a); n = int (length (sk_changes st)) in
      if failed_check a \<and> sk_last_gap st \<and> int (sk_runs st) \<ge> lc_not_landing_after m
      then Some (not_landing_text tx a st,
        ''told the model its last '' @ counted n ''change'' ''changes'' @ '' did not change the failure of `'' @ at_label a @ ''`'')
      else if \<not> sk_any_change st \<and> int (sk_runs st) \<ge> lc_watch_after m \<and> int (sk_runs st) mod lc_watch_after m = 0 \<and>
        \<not> rx_match explicitWait (at_command a)
      then Some (watching_text tx a st,
        ''suggested `wait` after `'' @ at_label a @ ''` returned the same output '' @ itoa (int (sk_runs st)) @ '' times'')
      else None)"

text \<open>The call made most often in a run of turns, the latest on a tie, with its count.\<close>

definition top_step :: "string list \<times> (string \<times> string \<times> string) \<Rightarrow> string \<times> string \<times> string \<Rightarrow> string list \<times> (string \<times> string \<times> string)" where
  "top_step s call =
     (case s of (keys, best) \<Rightarrow>
        (let keys' = keys @ [fst call] in
         (keys', if count_list keys' (fst call) \<ge> count_list keys' (fst best) then call else best)))"

definition top_call :: "reply_turn list \<Rightarrow> (string \<times> string \<times> string) \<times> nat" where
  "top_call ts =
     (case foldl top_step ([], [], [], []) (concat (map tn_calls ts)) of (keys, best) \<Rightarrow> (best, count_list keys (fst best)))"

definition opening_step :: "string list \<times> string \<times> nat \<Rightarrow> string \<Rightarrow> string list \<times> string \<times> nat" where
  "opening_step s opening =
     (case s of (keys, said, n) \<Rightarrow>
        if opening = [] then s
        else (let keys' = keys @ [normalise opening]; c = count_list keys' (normalise opening) in
              if c \<ge> n then (keys', opening, c) else (keys', said, n)))"

definition top_opening :: "reply_turn list \<Rightarrow> string \<times> nat" where
  "top_opening ts = snd (foldl opening_step ([], [], 0) (map tn_opening ts))"

definition stalledNotice :: "Texts \<Rightarrow> LoopConfig \<Rightarrow> reply_turn list \<Rightarrow> said" where
  "stalledNotice tx m ts =
     (let st = stalled_turns m ts; run = sl_run st; n = itoa (int (length run)) in
      if \<not> sl_counted st \<or> int (length run) \<noteq> lc_stalled_after m \<or> \<not> tn_latest (last run) then None
      else
        (let ((key, label, result), times) = top_call run; (said, k) = top_opening run in
         Some
           (''[rho loop notice] Your last '' @ n @
            '' turns have returned nothing new: every result was one you had already seen since the person's last message, over '' @
            since_text tx (tn_time (hd run)) (tn_time (last run)) @ ''.'' @
            '' `'' @ label @ ''` was called '' @ counted (int times) ''time'' ''times'' @ '' in them and returned '' @
            quote (drop 1 (dropWhile (\<lambda>c. c \<noteq> nul) result)) @ '' each time.'' @
            (if k > 1 then '' You began '' @ itoa (int k) @ '' of those turns with '' @ fmt_q said @ ''.'' else []) @
            '' If the request does not fit what you have found, say so and stop, or `ask`.'' @
            (if sl_runs st \<ge> 2
             then '' This is the second time since the person's last message; the next call will stop the session so they can look.''
             else '' '' @ counted (lc_stalled_halt_after m) ''more turn'' ''more turns'' @ '' like this will stop the session so the person can look.''),
            ''told the model its last '' @ n @ '' turns returned nothing new'')))"

section \<open>Hooks\<close>

definition ran_text :: "identical \<Rightarrow> string" where
  "ran_text st =
     ''`'' @ at_label (id_last st) @ ''` has already run '' @ itoa (int (id_runs st)) @
     '' times since the person's last message with the same arguments and the same result''"

definition repeat_halt :: "identical \<Rightarrow> Verdict" where
  "repeat_halt st = allow\<lparr>vd_decision := Halt,
     vd_reason := refusedPrefix @ ran_text st @ '', and was refused '' @ itoa (int (id_refusals st)) @
       '' times. The session is stopping so the person can look.'',
     vd_summary := ''loop: `'' @ at_label (id_last st) @ ''` repeated '' @ itoa (int (id_runs st)) @
       '' times with the same result, and tried again after '' @ itoa (int (id_refusals st)) @ '' refusals''\<rparr>"

definition repeat_refusal :: "LoopConfig \<Rightarrow> attempt list \<Rightarrow> identical \<Rightarrow> Verdict" where
  "repeat_refusal m atts st =
     (let f = lastFailure atts []; left = lc_halt_after m - int (id_refusals st) - 1 in
      allow\<lparr>vd_decision := Deny,
        vd_reason := refusedPrefix @ ran_text st @ '' ('' @ quote (at_content (id_last st)) @
          ''). Running it again cannot change anything, so it was not run.'' @
          (if f \<noteq> [] then '' '' @ f else []) @
          '' Do something different: read the file or the error again, or say what you are stuck on and stop.'' @
          (if left = 0 then '' Trying it again will stop the session.''
           else '' It will be refused '' @ counted left ''time'' ''times'' @ '' more, and then trying it again will stop the session.'')\<rparr>)"

definition stall_halt :: "string \<Rightarrow> Verdict" where
  "stall_halt why = allow\<lparr>vd_decision := Halt,
     vd_reason := refusedPrefix @ why @ ''. The session is stopping so the person can look.'', vd_summary := ''loop: '' @ why\<rparr>"

definition repeat_verdict :: "Texts \<Rightarrow> LoopConfig \<Rightarrow> attempt list \<Rightarrow> ToolCallData \<Rightarrow> Verdict" where
  "repeat_verdict tx m atts call =
     (let st = identicalRun atts (call_key tx call) (argPath (tc_args call)) in
      if int (id_runs st) < lc_identical_after m then allow
      else if int (id_refusals st) \<ge> lc_halt_after m then repeat_halt st
      else repeat_refusal m atts st)"

definition loop_verdict :: "Texts \<Rightarrow> LoopConfig \<Rightarrow> Event list \<Rightarrow> ToolCallData \<Rightarrow> Verdict option" where
  "loop_verdict tx m log call =
     Option.bind (turns tx log) (\<lambda>ts.
       if halts m (stalled_turns m ts) \<noteq> [] then Some (stall_halt (halts m (stalled_turns m ts)))
       else if \<not> mutating (tc_tool call) then Some allow
       else map_option (\<lambda>atts. repeat_verdict tx m atts call) (history tx log))"

definition loop_gate :: "Texts \<Rightarrow> LoopConfig \<Rightarrow> ToolCallData \<Rightarrow> Verdict hook_fn" where
  "loop_gate tx m call a =
     (if \<not> lc_enabled m \<or> tc_source call \<noteq> ''model'' then (Completed allow, a)
      else case loop_verdict tx m (ag_log a) call of
        None \<Rightarrow> (Crashed ''panic'', a)
      | Some v \<Rightarrow> (Completed v, a))"

text \<open>The fresh attempts, latest first; \<open>seen\<close> holds the keys already spoken of. The first part of the result is
  what is said of changes, the second of checks.\<close>

fun notice_scan :: "Texts \<Rightarrow> LoopConfig \<Rightarrow> string set \<Rightarrow> attempt list \<Rightarrow> (string \<times> string) list \<times> (string \<times> string) list" where
  "notice_scan tx m seen [] = ([], [])"
| "notice_scan tx m seen (a # earlier) =
     (if \<not> at_fresh a then ([], [])
      else if at_key a \<in> seen \<or> at_refused a then notice_scan tx m seen earlier
      else (case notice_scan tx m (insert (at_key a) seen) earlier of
        (changes, checks) \<Rightarrow>
          let upTo = rev (a # earlier) in
          if mutating (at_tool a) then (case identicalNotice tx m upTo a of Some n \<Rightarrow> (n # changes, checks) | None \<Rightarrow> (changes, checks))
          else if observing a then (case checkNotice tx m upTo a of Some n \<Rightarrow> (changes, n # checks) | None \<Rightarrow> (changes, checks))
          else (changes, checks)))"

definition loop_notices :: "Texts \<Rightarrow> LoopConfig \<Rightarrow> Event list \<Rightarrow> (string \<times> string) list option" where
  "loop_notices tx m log =
     Option.bind (history tx log) (\<lambda>atts.
       case notice_scan tx m {} (rev atts) of (changes, checks) \<Rightarrow>
         if changes = [] then map_option (\<lambda>ts. case stalledNotice tx m ts of Some n \<Rightarrow> [n] | None \<Rightarrow> checks) (turns tx log)
         else Some (changes @ checks))"

definition loop_note :: "Agent \<Rightarrow> string \<times> string \<Rightarrow> Agent" where
  "loop_note a n = snd (handle_append (DNotice \<lparr>nt_source = ''module:loop'', nt_level = ''info'', nt_message = snd n\<rparr>) a)"

definition loop_request :: "Texts \<Rightarrow> LoopConfig \<Rightarrow> (err + ContextBlock list) hook_fn" where
  "loop_request tx m a =
     (if \<not> lc_enabled m then (Completed (Inr []), a)
      else case loop_notices tx m (ag_log a) of
        None \<Rightarrow> (Crashed ''panic'', a)
      | Some ns \<Rightarrow> (Completed (Inr (map (\<lambda>n. \<lparr>cb_slot = ''suffix'', cb_content = fst n\<rparr>) ns)), foldl loop_note a ns))"

definition loop_module :: "Texts \<Rightarrow> LoopConfig \<Rightarrow> Module" where
  "loop_module tx m = \<lparr>md_name = ''loop'', md_init = Init_ok, md_start = None, md_request = Some (loop_request tx m),
     md_gate = Some (loop_gate tx m), md_tools = None, md_session_tools = None, md_tool_result = None,
     md_turn_end = None, md_before_stop = None, md_before_compaction = None, md_after_compaction = None,
     md_resume = None, md_end = None, md_report = None\<rparr>"

section \<open>What a count of runs means\<close>

text \<open>The attempts of one change, apart from refused ones.\<close>

definition ran :: "string \<Rightarrow> attempt \<Rightarrow> bool" where
  "ran key a \<longleftrightarrow> at_key a = key \<and> \<not> at_refused a"

text \<open>\<open>atts\<close> ends in a stretch in which the change ran \<open>n\<close> times, always with the result of its last run, was
  refused \<open>k\<close> times, and in which nothing else touched the file before the last run.\<close>

definition stretch :: "attempt list \<Rightarrow> string \<Rightarrow> string \<Rightarrow> identical \<Rightarrow> attempt list \<Rightarrow> attempt list \<Rightarrow> bool" where
  "stretch atts key path st us vs \<longleftrightarrow>
     (\<exists>pre. atts = pre @ us @ id_last st # vs) \<and> hd (us @ [id_last st]) = id_first st \<and> ran key (id_first st) \<and> ran key (id_last st) \<and>
     (\<forall>a \<in> set us. ran key a \<longrightarrow> at_result a = at_result (id_last st)) \<and>
     (\<forall>a \<in> set us. at_key a \<noteq> key \<longrightarrow> \<not> touches a path) \<and>
     (\<forall>a \<in> set vs. \<not> ran key a) \<and>
     id_runs st = Suc (length (filter (ran key) us)) \<and>
     id_refusals st = length (filter (\<lambda>a. at_key a = key \<and> at_refused a) (us @ vs))"

lemma stretch_append:
  assumes "stretch atts key path st us vs" "\<not> ran key a"
  shows "stretch (atts @ [a]) key path (if at_key a = key then st\<lparr>id_refusals := id_refusals st + 1\<rparr> else st) us (vs @ [a])"
  using assms by (auto simp: stretch_def ran_def)

lemma stretch_run:
  assumes "stretch atts key path st us vs" "ran key a" "at_result a = at_result (id_last st)"
    "\<forall>x \<in> set vs. at_key x \<noteq> key \<longrightarrow> \<not> touches x path"
  shows "stretch (atts @ [a]) key path (st\<lparr>id_runs := id_runs st + 1, id_last := a\<rparr>) (us @ id_last st # vs) []"
proof -
  obtain pre where "atts = pre @ us @ id_last st # vs" using assms(1) by (auto simp: stretch_def)
  then have "atts @ [a] = pre @ (us @ id_last st # vs) @ a # []" by simp
  moreover have "hd ((us @ id_last st # vs) @ [a]) = hd (us @ [id_last st])" by (cases us) simp_all
  moreover have "filter (ran key) vs = []" using assms(1) by (auto simp: stretch_def filter_empty_conv)
  moreover have "at_key (id_last st) = key \<and> \<not> at_refused (id_last st)" using assms(1) by (simp add: stretch_def ran_def)
  ultimately show ?thesis using assms by (auto simp: stretch_def)
qed

definition counts :: "string \<Rightarrow> string \<Rightarrow> attempt list \<Rightarrow> identical \<times> bool \<Rightarrow> bool" where
  "counts key path atts s \<longleftrightarrow>
     (if id_runs (fst s) = 0 then \<not> snd s \<and> (\<forall>a \<in> set atts. \<not> ran key a)
      else \<exists>us vs. stretch atts key path (fst s) us vs \<and> (\<not> snd s \<longleftrightarrow> (\<forall>a \<in> set vs. at_key a \<noteq> key \<longrightarrow> \<not> touches a path)))"

lemma counts_some:
  assumes "stretch atts key path st us vs" "id_runs st \<noteq> 0" "\<not> d \<longleftrightarrow> (\<forall>a \<in> set vs. at_key a \<noteq> key \<longrightarrow> \<not> touches a path)"
  shows "counts key path atts (st, d)"
  unfolding counts_def using assms by simp blast

lemma stretch_anew:
  "ran key a \<Longrightarrow> stretch (atts @ [a]) key path \<lparr>id_runs = 1, id_refusals = 0, id_first = a, id_last = a\<rparr> [] []"
  by (simp add: stretch_def)

lemma counts_step:
  assumes "counts key path atts (st, d)"
  shows "counts key path (atts @ [a]) (identical_step key path (st, d) a)"
proof (cases "id_runs st = 0")
  case True
  then have n: "\<not> d" "\<forall>x \<in> set atts. \<not> ran key x" using assms by (simp_all add: counts_def)
  show ?thesis
  proof (cases "ran key a")
    case ran: True
    then have "identical_step key path (st, d) a = (\<lparr>id_runs = 1, id_refusals = 0, id_first = a, id_last = a\<rparr>, False)"
      using True by (simp add: identical_step_def ran_def)
    then show ?thesis using counts_some [OF stretch_anew [OF ran, of atts path], of False] by simp
  next
    case False
    then show ?thesis using True n by (auto simp: identical_step_def ran_def counts_def)
  qed
next
  case some: False
  then obtain us vs where s: "stretch atts key path st us vs" "\<not> d \<longleftrightarrow> (\<forall>a \<in> set vs. at_key a \<noteq> key \<longrightarrow> \<not> touches a path)"
    using assms by (auto simp: counts_def)
  consider (other) "at_key a \<noteq> key" | (refused) "at_key a = key" "at_refused a"
    | (again) "ran key a" "\<not> d" "at_result a = at_result (id_last st)" | (anew) "ran key a" "d \<or> at_result a \<noteq> at_result (id_last st)"
    by (auto simp: ran_def)
  then show ?thesis
  proof cases
    case other
    then have "identical_step key path (st, d) a = (st, d \<or> touches a path)" using some by (simp add: identical_step_def)
    moreover have "stretch (atts @ [a]) key path st us (vs @ [a])" using stretch_append [OF s(1), of a] other by (simp add: ran_def)
    ultimately show ?thesis using counts_some [of "atts @ [a]" key path st us "vs @ [a]" "d \<or> touches a path"] some s(2) other by auto
  next
    case refused
    then have "identical_step key path (st, d) a = (st\<lparr>id_refusals := id_refusals st + 1\<rparr>, d)" by (simp add: identical_step_def)
    moreover have "stretch (atts @ [a]) key path (st\<lparr>id_refusals := id_refusals st + 1\<rparr>) us (vs @ [a])"
      using stretch_append [OF s(1), of a] refused by (simp add: ran_def)
    ultimately show ?thesis
      using counts_some [of "atts @ [a]" key path "st\<lparr>id_refusals := id_refusals st + 1\<rparr>" us "vs @ [a]" d] some s(2) refused by auto
  next
    case again
    then have "identical_step key path (st, d) a = (st\<lparr>id_runs := id_runs st + 1, id_last := a\<rparr>, False)"
      using some by (simp add: identical_step_def ran_def)
    moreover have "stretch (atts @ [a]) key path (st\<lparr>id_runs := id_runs st + 1, id_last := a\<rparr>) (us @ id_last st # vs) []"
      using stretch_run [OF s(1) again(1,3)] s(2) again(2) by blast
    ultimately show ?thesis
      using counts_some [of "atts @ [a]" key path "st\<lparr>id_runs := id_runs st + 1, id_last := a\<rparr>" "us @ id_last st # vs" "[]" False] by simp
  next
    case anew
    then have "identical_step key path (st, d) a = (\<lparr>id_runs = 1, id_refusals = 0, id_first = a, id_last = a\<rparr>, False)"
      using some by (auto simp: identical_step_def ran_def)
    then show ?thesis using counts_some [OF stretch_anew [OF anew(1), of atts path], of False] by simp
  qed
qed

lemma identicalRun_counts: "counts key path atts (foldl (identical_step key path) (identical_zero, False) atts)"
proof (induction atts rule: rev_induct)
  case Nil
  then show ?case by (simp add: identical_zero_def counts_def)
next
  case (snoc a atts)
  then show ?case using counts_step [of key path atts "fst (foldl (identical_step key path) (identical_zero, False) atts)"
        "snd (foldl (identical_step key path) (identical_zero, False) atts)"] by simp
qed

lemma identicalRun_stretch:
  assumes "0 < id_runs (identicalRun atts key path)"
  shows "\<exists>us vs. stretch atts key path (identicalRun atts key path) us vs"
  using identicalRun_counts [of key path atts] assms by (auto simp: identicalRun_def counts_def)

section \<open>No panic\<close>

lemma since_person_total: "\<forall>e \<in> set es. decodes e \<Longrightarrow> \<exists>r. since_person es = Some r \<and> set r \<subseteq> set es"
proof (induction es)
  case (Cons e es)
  then obtain r where r: "since_person es = Some r" "set r \<subseteq> set es" by auto
  show ?case
  proof (cases "length r < length es \<or> ev_type e \<noteq> ''message''")
    case True
    then show ?thesis using r by auto
  next
    case False
    then obtain d where "MustData as_message e = Some d" using MustData_type(1) [of e] Cons.prems by auto
    then show ?thesis using r False by auto
  qed
qed simp

lemma note_call_total: "decodes e \<Longrightarrow> ev_type e = ''tool_call'' \<Longrightarrow> note_call calls e \<noteq> None"
  using MustData_type(6) [of e] by (auto simp: note_call_def)

lemma history_step_total:
  assumes "decodes e"
  shows "history_step tx s e \<noteq> None"
proof (cases "ev_type e = ''tool_result''")
  case True
  then obtain r where "MustData as_tool_result e = Some r" using MustData_type(5) [OF assms] by blast
  with True show ?thesis by (cases s) (simp add: history_step_def del: split_paired_Ex not_None_eq)
next
  case False
  then show ?thesis using note_call_total [OF assms] by (cases s) (simp add: history_step_def del: split_paired_Ex not_None_eq)
qed

lemma turn_step_total: "decodes e \<Longrightarrow> turn_step tx s e \<noteq> None"
  using MustData_type(1,5) [of e] MustData_thinking [of e] note_call_total [of e "fst s"]
  by (cases s) (auto simp: turn_step_def simp del: not_None_eq)

lemma history_total:
  assumes "\<forall>e \<in> set log. decodes e"
  shows "\<exists>atts. history tx log = Some atts"
proof -
  obtain es where es: "since_person log = Some es" "set es \<subseteq> set log" using since_person_total [OF assms] by blast
  then have "\<exists>s. fold_opt (history_step tx) (\<lambda>_. None, [], 0) es = Some s"
    using assms history_step_total by (intro fold_opt_total) blast
  with es show ?thesis by (auto simp: history_def)
qed

lemma turns_total:
  assumes "\<forall>e \<in> set log. decodes e"
  shows "\<exists>ts. turns tx log = Some ts"
proof -
  obtain es where es: "since_person log = Some es" "set es \<subseteq> set log" using since_person_total [OF assms] by blast
  then have "\<exists>s. fold_opt (turn_step tx) (\<lambda>_. None, [], []) es = Some s"
    using assms turn_step_total by (intro fold_opt_total) blast
  with es show ?thesis by (auto simp: turns_def)
qed

lemma loop_verdict_total:
  assumes "\<forall>e \<in> set log. decodes e"
  shows "\<exists>v. loop_verdict tx m log call = Some v"
  using turns_total [OF assms, of tx] history_total [OF assms, of tx] by (auto simp: loop_verdict_def)

lemma loop_notices_total:
  assumes "\<forall>e \<in> set log. decodes e"
  shows "\<exists>ns. loop_notices tx m log = Some ns"
  using turns_total [OF assms, of tx] history_total [OF assms, of tx]
  by (auto simp: loop_notices_def split: prod.split)

lemma loop_note_quiet: "agent_ok a \<Longrightarrow> quiet a (loop_note a n)"
  unfolding loop_note_def handle_append_def using h_append_quiet [of a] by simp

lemma loop_notes_quiet: "agent_ok a \<Longrightarrow> quiet a (foldl loop_note a ns)"
proof (induction ns arbitrary: a)
  case (Cons n ns)
  then have q: "quiet a (loop_note a n)" by (rule_tac loop_note_quiet)
  then show ?case using quiet_trans [OF q Cons.IH [OF quiet_ok [OF q]]] by simp
qed (simp add: quiet_refl)

lemma loop_module_ok: "module_ok (loop_module tx m)"
proof -
  have "hook_quiet (loop_request tx m)"
    by (auto simp: hook_quiet_def loop_request_def quiet_refl loop_notes_quiet split: option.split)
  moreover have "hook_quiet (loop_gate tx m c)" for c
    by (auto simp: hook_quiet_def loop_gate_def quiet_refl split: option.split)
  ultimately show ?thesis by (simp add: module_ok_def loop_module_def optional_def)
qed

section \<open>Refusals\<close>

lemma repeat_verdict_cases:
  "vd_decision (repeat_verdict tx m atts call) = Allow \<longleftrightarrow>
     int (id_runs (identicalRun atts (call_key tx call) (argPath (tc_args call)))) < lc_identical_after m"
  "vd_decision (repeat_verdict tx m atts call) = Halt \<longleftrightarrow>
     lc_identical_after m \<le> int (id_runs (identicalRun atts (call_key tx call) (argPath (tc_args call)))) \<and>
     lc_halt_after m \<le> int (id_refusals (identicalRun atts (call_key tx call) (argPath (tc_args call))))"
  "vd_decision (repeat_verdict tx m atts call) = Deny \<longleftrightarrow>
     lc_identical_after m \<le> int (id_runs (identicalRun atts (call_key tx call) (argPath (tc_args call)))) \<and>
     int (id_refusals (identicalRun atts (call_key tx call) (argPath (tc_args call)))) < lc_halt_after m"
  by (auto simp: repeat_verdict_def Let_def allow_def repeat_halt_def repeat_refusal_def)

text \<open>Attempts at one change under the gate: it runs when the gate allows it, it is refused when the gate denies
  it, and when the gate halts the session nothing follows. Anything else may happen in between.\<close>

inductive gated_attempts :: "Texts \<Rightarrow> LoopConfig \<Rightarrow> ToolCallData \<Rightarrow> attempt list \<Rightarrow> bool" for tx m call where
  begun: "gated_attempts tx m call []"
| elsewhere: "gated_attempts tx m call atts \<Longrightarrow> at_key a \<noteq> call_key tx call \<Longrightarrow> gated_attempts tx m call (atts @ [a])"
| allowed: "gated_attempts tx m call atts \<Longrightarrow> vd_decision (repeat_verdict tx m atts call) = Allow \<Longrightarrow>
    ran (call_key tx call) a \<Longrightarrow> gated_attempts tx m call (atts @ [a])"
| denied: "gated_attempts tx m call atts \<Longrightarrow> vd_decision (repeat_verdict tx m atts call) = Deny \<Longrightarrow>
    at_key a = call_key tx call \<Longrightarrow> at_refused a \<Longrightarrow> gated_attempts tx m call (atts @ [a])"

lemma identicalRun_snoc:
  "identicalRun (atts @ [a]) key path = fst (identical_step key path (identicalRun atts key path, snd (foldl (identical_step key path) (identical_zero, False) atts)) a)"
  by (simp add: identicalRun_def)

lemma identicalRun_other: "at_key a \<noteq> key \<Longrightarrow> identicalRun (atts @ [a]) key path = identicalRun atts key path"
  by (simp add: identicalRun_snoc identical_step_def)

lemma identicalRun_refused: "at_key a = key \<Longrightarrow> at_refused a \<Longrightarrow>
  identicalRun (atts @ [a]) key path = (identicalRun atts key path)\<lparr>id_refusals := id_refusals (identicalRun atts key path) + 1\<rparr>"
  by (simp add: identicalRun_snoc identical_step_def)

lemma identicalRun_ran: "ran key a \<Longrightarrow> id_runs (identicalRun (atts @ [a]) key path) \<in> {1, Suc (id_runs (identicalRun atts key path))}"
  by (auto simp: identicalRun_snoc identical_step_def ran_def)

lemma identicalRun_not_ran:
  assumes "\<forall>a \<in> set ys. \<not> ran key a"
  shows "id_runs (identicalRun (atts @ ys) key path) = id_runs (identicalRun atts key path)"
  using assms
proof (induction ys rule: rev_induct)
  case (snoc a ys)
  then have IH: "id_runs (identicalRun (atts @ ys) key path) = id_runs (identicalRun atts key path)" by simp
  have "\<not> ran key a" using snoc.prems by simp
  then show ?case using IH identicalRun_other [of a key "atts @ ys" path] identicalRun_refused [of a key "atts @ ys" path]
    by (cases "at_key a = key") (auto simp: ran_def)
qed simp

lemma gated_counts:
  assumes "gated_attempts tx m call atts" "2 \<le> lc_identical_after m" "1 \<le> lc_halt_after m"
  shows "int (id_runs (identicalRun atts (call_key tx call) (argPath (tc_args call)))) \<le> lc_identical_after m \<and>
    int (id_refusals (identicalRun atts (call_key tx call) (argPath (tc_args call)))) \<le> lc_halt_after m \<and>
    id_refusals (identicalRun atts (call_key tx call) (argPath (tc_args call))) =
      length (filter (\<lambda>a. at_key a = call_key tx call \<and> at_refused a) atts) \<and>
    (\<forall>a \<in> set atts. at_key a = call_key tx call \<and> at_refused a \<longrightarrow>
       lc_identical_after m \<le> int (id_runs (identicalRun atts (call_key tx call) (argPath (tc_args call)))))"
  using assms(1)
proof induction
  case begun
  then show ?case using assms(2,3) by (simp add: identicalRun_def identical_zero_def)
next
  case (elsewhere atts a)
  then show ?case by (simp add: identicalRun_other)
next
  case (allowed atts a)
  let ?k = "call_key tx call" and ?p = "argPath (tc_args call)"
  have few: "int (id_runs (identicalRun atts ?k ?p)) < lc_identical_after m" using allowed(2) repeat_verdict_cases(1) by simp
  have none: "\<forall>x \<in> set atts. \<not> (at_key x = ?k \<and> at_refused x)" using allowed.IH few by auto
  then have "filter (\<lambda>x. at_key x = ?k \<and> at_refused x) (atts @ [a]) = []"
    using allowed(3) by (auto simp: filter_empty_conv ran_def)
  moreover have "id_refusals (identicalRun atts ?k ?p) = 0" using allowed.IH none by (auto simp: filter_empty_conv)
  then have "id_refusals (identicalRun (atts @ [a]) ?k ?p) = 0"
    using allowed(3) by (simp add: identicalRun_snoc identical_step_def ran_def)
  moreover have "int (id_runs (identicalRun (atts @ [a]) ?k ?p)) \<le> lc_identical_after m"
    using identicalRun_ran [OF allowed(3), of atts ?p] few assms(2) by auto
  ultimately show ?case using none allowed(3) assms(3) by (auto simp: ran_def)
next
  case (denied atts a)
  let ?k = "call_key tx call" and ?p = "argPath (tc_args call)"
  have many: "lc_identical_after m \<le> int (id_runs (identicalRun atts ?k ?p))"
    "int (id_refusals (identicalRun atts ?k ?p)) < lc_halt_after m"
    using denied(2) repeat_verdict_cases [of tx m atts call] by auto
  then show ?case using denied.IH denied(3,4) by (simp add: identicalRun_refused)
qed

section \<open>Samples\<close>

definition sample_texts :: Texts where
  "sample_texts = \<lparr>tx_canonical = (\<lambda>v. case v of None \<Rightarrow> ''null'' | Some j \<Rightarrow> json_text j), tx_hours = (\<lambda>_. [])\<rparr>"

definition write_call :: ToolCallData where
  "write_call = \<lparr>tc_call = ''c1'', tc_tool = ''write'', tc_args = Some (JObj [(''path'', JStr ''f'')]), tc_source = ''model''\<rparr>"

definition edit_call :: ToolCallData where
  "edit_call = \<lparr>tc_call = ''c2'', tc_tool = ''edit'', tc_args = Some (JObj [(''path'', JStr ''f''), (''old'', JStr ''a'')]), tc_source = ''model''\<rparr>"

definition answer_to :: "ToolCallData \<Rightarrow> string \<Rightarrow> string \<Rightarrow> ToolResultData" where
  "answer_to c status text = \<lparr>tr_call = tc_call c, tr_tool = tc_tool c, tr_content = text, tr_status = status, tr_kind = [], tr_exit = None\<rparr>"

abbreviation sample_loop :: LoopConfig where
  "sample_loop \<equiv> loop_init True (\<lambda>_ d. d)"

abbreviation wrote :: attempt where
  "wrote \<equiv> (made_attempt sample_texts write_call (answer_to write_call ''ok'' ''wrote'') 0)\<lparr>at_fresh := True\<rparr>"

abbreviation edited :: attempt where
  "edited \<equiv> (made_attempt sample_texts edit_call (answer_to edit_call ''ok'' ''replaced'') 0)\<lparr>at_fresh := True\<rparr>"

abbreviation turned_away :: attempt where
  "turned_away \<equiv> (made_attempt sample_texts write_call (answer_to write_call ''error'' ''denied: loop: no'') 0)\<lparr>at_fresh := True\<rparr>"

lemma sample_loop_sel [simp]:
  "lc_enabled sample_loop" "lc_identical_after sample_loop = 3" "lc_halt_after sample_loop = 2"
  by (simp_all add: loop_init_def)

lemma sample_keys:
  "call_key sample_texts edit_call \<noteq> call_key sample_texts write_call" "argPath (tc_args write_call) = ''f''"
  "argPath (tc_args edit_call) = ''f''"
  by (simp_all add: call_key_def edit_call_def write_call_def argPath_def argString_def)

lemma sample_attempts:
  "at_key wrote = call_key sample_texts write_call" "\<not> at_refused wrote" "at_result wrote = ''ok'' @ nul # ''wrote''"
  "at_key edited = call_key sample_texts edit_call" "\<not> at_refused edited" "touches edited ''f''"
  "at_key turned_away = call_key sample_texts write_call" "at_refused turned_away"
  by (simp_all add: made_attempt_def answer_to_def refusedPrefix_def touches_def mutating_def edit_call_def argPath_def argString_def
      ChangesWorkspace_def samePath_def equal_fold_def has_prefix_def)

lemma three_writes: "id_runs (identicalRun [wrote, wrote, wrote] (call_key sample_texts write_call) ''f'') = 3 \<and>
    id_refusals (identicalRun [wrote, wrote, wrote] (call_key sample_texts write_call) ''f'') = 0"
  by (simp add: identicalRun_def identical_step_def identical_zero_def sample_attempts)

section \<open>The module's promises\<close>

text \<open>On a valid log the module's hooks always return: the gate gives a verdict and leaves the session as it is, and the
  request hook gives suffix blocks and appends nothing but notices.\<close>
lemma loop_hooks_return:
  assumes "agent_ok a"
  shows "(\<exists>v. loop_gate tx m call a = (Completed v, a)) \<and>
    (\<exists>bs b. loop_request tx m a = (Completed (Inr bs), b) \<and> quiet a b \<and> (\<forall>c \<in> set bs. cb_slot c = ''suffix''))"
proof -
  have dec: "\<forall>e \<in> set (ag_log a). decodes e" using assms ValidateLog_decodes by (auto simp: agent_ok_def)
  obtain v where v: "loop_verdict tx m (ag_log a) call = Some v" using loop_verdict_total [OF dec] by blast
  obtain ns where ns: "loop_notices tx m (ag_log a) = Some ns" using loop_notices_total [OF dec] by blast
  have "\<exists>v. loop_gate tx m call a = (Completed v, a)" using v by (simp add: loop_gate_def)
  moreover have "\<exists>bs b. loop_request tx m a = (Completed (Inr bs), b) \<and> quiet a b \<and> (\<forall>c \<in> set bs. cb_slot c = ''suffix'')"
    using ns assms by (auto simp: loop_request_def quiet_refl loop_notes_quiet)
  ultimately show ?thesis by blast
qed

text \<open>C38: Apart from stalls, a call that is denied or halted is a write or an edit, and the log since the person's last
  message justifies it: in a stretch of the attempts this very call ran at least \<open>identical_after\<close> times with one
  result, nothing else touched the file within the stretch, and it did not run after it. It is halted exactly when it was
  refused \<open>halt_after\<close> times from the start of the stretch on.\<close>
theorem stopped_after_runs:
  assumes "loop_verdict tx m log call = Some v" "vd_decision v \<noteq> Allow" "1 \<le> lc_identical_after m"
    "turns tx log = Some ts" "halts m (stalled_turns m ts) = []"
  shows "mutating (tc_tool call) \<and>
    (\<exists>pre us vs. history tx log = Some (pre @ us @ vs) \<and>
       (\<exists>r. \<forall>a \<in> set us. ran (call_key tx call) a \<longrightarrow> at_result a = r) \<and>
       (\<forall>a \<in> set us. at_key a \<noteq> call_key tx call \<longrightarrow> \<not> touches a (argPath (tc_args call))) \<and>
       (\<forall>a \<in> set vs. \<not> ran (call_key tx call) a) \<and>
       lc_identical_after m \<le> int (length (filter (ran (call_key tx call)) us)) \<and>
       (vd_decision v = Halt \<longleftrightarrow>
          lc_halt_after m \<le> int (length (filter (\<lambda>a. at_key a = call_key tx call \<and> at_refused a) (us @ vs)))))"
proof -
  let ?k = "call_key tx call" and ?p = "argPath (tc_args call)"
  have mut: "mutating (tc_tool call)" using assms by (auto simp: loop_verdict_def allow_def split: if_splits)
  then obtain atts where atts: "history tx log = Some atts" "v = repeat_verdict tx m atts call"
    using assms by (auto simp: loop_verdict_def)
  let ?st = "identicalRun atts ?k ?p"
  have runs: "lc_identical_after m \<le> int (id_runs ?st)" using assms(2) atts(2) repeat_verdict_cases(1) [of tx m atts call] by simp
  then obtain us vs where s: "stretch atts ?k ?p ?st us vs" using identicalRun_stretch [of atts ?k ?p] assms(3) by auto
  then obtain pre where pre: "atts = pre @ us @ id_last ?st # vs" by (auto simp: stretch_def)
  have last: "at_key (id_last ?st) = ?k" "\<not> at_refused (id_last ?st)" using s by (simp_all add: stretch_def ran_def)
  have "history tx log = Some (pre @ (us @ [id_last ?st]) @ vs)" using atts(1) pre by simp
  moreover have "\<forall>a \<in> set (us @ [id_last ?st]). ran ?k a \<longrightarrow> at_result a = at_result (id_last ?st)" using s by (auto simp: stretch_def)
  moreover have "\<forall>a \<in> set (us @ [id_last ?st]). at_key a \<noteq> ?k \<longrightarrow> \<not> touches a ?p" using s last by (auto simp: stretch_def)
  moreover have "\<forall>a \<in> set vs. \<not> ran ?k a" using s by (simp add: stretch_def)
  moreover have "lc_identical_after m \<le> int (length (filter (ran ?k) (us @ [id_last ?st])))" using s runs last by (simp add: stretch_def ran_def)
  moreover have "vd_decision v = Halt \<longleftrightarrow>
      lc_halt_after m \<le> int (length (filter (\<lambda>a. at_key a = ?k \<and> at_refused a) ((us @ [id_last ?st]) @ vs)))"
    using repeat_verdict_cases(2) [of tx m atts call] runs s last atts(2) by (simp add: stretch_def)
  ultimately show ?thesis using mut by blast
qed

text \<open>C39: Under the gate one change is refused at most \<open>halt_after\<close> times, and once it was refused that often the next
  attempt at it halts the session.\<close>
theorem refusals_bounded:
  assumes "gated_attempts tx m call atts" "2 \<le> lc_identical_after m" "1 \<le> lc_halt_after m"
  shows "int (length (filter (\<lambda>a. at_key a = call_key tx call \<and> at_refused a) atts)) \<le> lc_halt_after m \<and>
    (int (length (filter (\<lambda>a. at_key a = call_key tx call \<and> at_refused a) atts)) = lc_halt_after m \<longrightarrow>
       vd_decision (repeat_verdict tx m atts call) = Halt)"
proof -
  let ?st = "identicalRun atts (call_key tx call) (argPath (tc_args call))"
  let ?n = "length (filter (\<lambda>a. at_key a = call_key tx call \<and> at_refused a) atts)"
  have c: "id_refusals ?st = ?n" "int ?n \<le> lc_halt_after m" using gated_counts [OF assms] by simp_all
  have "vd_decision (repeat_verdict tx m atts call) = Halt" if "int ?n = lc_halt_after m"
  proof -
    have "0 < ?n" using that assms(3) by linarith
    then have "\<exists>a \<in> set atts. at_key a = call_key tx call \<and> at_refused a" by (auto simp: filter_empty_conv)
    then have "lc_identical_after m \<le> int (id_runs ?st)" using gated_counts [OF assms] by blast
    then show ?thesis using repeat_verdict_cases(2) [of tx m atts call] c that by simp
  qed
  with c show ?thesis by blast
qed

text \<open>C40: Once a change is refused, it stays refused until the person speaks, whatever else is attempted meanwhile: a
  change of the same file in between, which starts the count again for the runs that are counted, does not
  lift the refusal (the witness edits the file, and the write is still denied).\<close>
theorem refused_despite_changes:
  assumes "vd_decision (repeat_verdict tx m atts call) \<noteq> Allow" "\<forall>a \<in> set others. \<not> ran (call_key tx call) a"
  shows "vd_decision (repeat_verdict tx m (atts @ others) call) \<noteq> Allow"
  using assms by (simp add: repeat_verdict_cases(1) identicalRun_not_ran)

lemma refused_despite_changes_witness:
  "touches edited (argPath (tc_args write_call)) \<and>
   vd_decision (repeat_verdict sample_texts sample_loop [wrote, wrote, wrote, edited] write_call) = Deny"
proof -
  have d: "vd_decision (repeat_verdict sample_texts sample_loop [wrote, wrote, wrote] write_call) \<noteq> Allow"
    using three_writes by (simp add: repeat_verdict_cases(1) sample_keys)
  have "vd_decision (repeat_verdict sample_texts sample_loop ([wrote, wrote, wrote] @ [edited]) write_call) \<noteq> Allow"
    by (rule refused_despite_changes [OF d]) (simp add: ran_def sample_attempts sample_keys)
  then have "vd_decision (repeat_verdict sample_texts sample_loop ([wrote, wrote, wrote] @ [edited]) write_call) = Deny"
    using three_writes identicalRun_other [of edited "call_key sample_texts write_call" "[wrote, wrote, wrote]" "''f''"]
    by (simp add: repeat_verdict_cases(1,3) sample_keys sample_attempts)
  then show ?thesis by (simp add: sample_attempts sample_keys)
qed

lemma refusals_bounded_witness:
  "vd_decision (repeat_verdict sample_texts sample_loop [wrote, wrote, wrote, turned_away, turned_away] write_call) = Halt"
proof -
  let ?k = "call_key sample_texts write_call"
  have step: "gated_attempts sample_texts sample_loop write_call (atts @ [wrote])"
    if "gated_attempts sample_texts sample_loop write_call atts" "id_runs (identicalRun atts ?k ''f'') < 3" for atts
    using gated_attempts.allowed [OF that(1), of wrote] that(2) by (simp add: repeat_verdict_cases(1) sample_keys ran_def sample_attempts)
  have refuse: "gated_attempts sample_texts sample_loop write_call (atts @ [turned_away])"
    if "gated_attempts sample_texts sample_loop write_call atts" "id_runs (identicalRun atts ?k ''f'') = 3"
      "id_refusals (identicalRun atts ?k ''f'') < 2" for atts
  proof -
    have "vd_decision (repeat_verdict sample_texts sample_loop atts write_call) = Deny"
      using that(2,3) by (simp add: repeat_verdict_cases(3) sample_keys)
    then show ?thesis using gated_attempts.denied [OF that(1), of turned_away] by (simp add: sample_attempts)
  qed
  have "gated_attempts sample_texts sample_loop write_call ((([] @ [wrote]) @ [wrote]) @ [wrote])"
    by (intro step gated_attempts.begun) (simp_all add: identicalRun_def identical_step_def identical_zero_def sample_attempts)
  then have three: "gated_attempts sample_texts sample_loop write_call [wrote, wrote, wrote]" by simp
  have "gated_attempts sample_texts sample_loop write_call (([wrote, wrote, wrote] @ [turned_away]) @ [turned_away])"
    using identicalRun_refused [of turned_away ?k "[wrote, wrote, wrote]" "''f''"] three_writes
    by (intro refuse three) (simp_all add: sample_attempts)
  then have "gated_attempts sample_texts sample_loop write_call [wrote, wrote, wrote, turned_away, turned_away]" by simp
  from refusals_bounded [OF this] show ?thesis by (simp add: sample_attempts)
qed

abbreviation writes_log :: "Event list" where
  "writes_log \<equiv> sample_log [sample_session, DToolCall write_call, DToolResult (answer_to write_call ''ok'' ''wrote''),
     DToolCall write_call, DToolResult (answer_to write_call ''ok'' ''wrote''),
     DToolCall write_call, DToolResult (answer_to write_call ''ok'' ''wrote'')]"

lemma write_samples:
  "MustData as_tool_call (sample_event k (DToolCall write_call)) = Some write_call"
  "MustData as_tool_result (sample_event k (DToolResult (answer_to write_call ''ok'' ''wrote''))) =
     Some (answer_to write_call ''ok'' ''wrote'')"
  by (simp_all add: write_call_def answer_to_def tool_call_ok_def tool_result_ok_def raw_len_def as_defs)

lemma writes_history: "history sample_texts writes_log = Some [wrote, wrote, wrote]" and writes_turns: "turns sample_texts writes_log = Some []"
proof -
  have l: "writes_log = [sample_event 0 sample_session, sample_event 1 (DToolCall write_call),
      sample_event 2 (DToolResult (answer_to write_call ''ok'' ''wrote'')), sample_event 3 (DToolCall write_call),
      sample_event 4 (DToolResult (answer_to write_call ''ok'' ''wrote'')), sample_event 5 (DToolCall write_call),
      sample_event 6 (DToolResult (answer_to write_call ''ok'' ''wrote''))]"
    by (simp add: sample_log_def upt_conv_Cons eval_nat_numeral)
  have src: "tc_source write_call = ''model''" "tr_call (answer_to write_call s x) = tc_call write_call" for s x
    by (simp_all add: write_call_def answer_to_def)
  have time: "ev_time (sample_event k p) = 0" for k p by (simp add: sample_event_def)
  have "payload_type sample_session = ''session''" by (simp add: sample_session_def)
  then show "history sample_texts writes_log = Some [wrote, wrote, wrote]" "turns sample_texts writes_log = Some []"
    unfolding l history_def turns_def
    by (simp_all add: history_step_def turn_step_def note_call_def write_samples src time)
qed

lemma stopped_after_runs_witness:
  "\<exists>v us. loop_verdict sample_texts sample_loop writes_log write_call = Some v \<and> vd_decision v = Deny \<and>
     3 \<le> length (filter (ran (call_key sample_texts write_call)) us)"
proof -
  let ?v = "repeat_verdict sample_texts sample_loop [wrote, wrote, wrote] write_call"
  have h: "halts sample_loop (stalled_turns sample_loop []) = []" by (simp add: halts_def stalled_turns_def)
  have d: "vd_decision ?v = Deny" using three_writes by (simp add: repeat_verdict_cases(3) sample_keys)
  have "mutating (tc_tool write_call)" by (simp add: write_call_def mutating_def)
  then have v: "loop_verdict sample_texts sample_loop writes_log write_call = Some ?v"
    using h by (simp add: loop_verdict_def writes_history writes_turns)
  then have "\<exists>us. 3 \<le> length (filter (ran (call_key sample_texts write_call)) us)"
    using stopped_after_runs [OF v _ _ writes_turns h] d by auto
  with v d show ?thesis by blast
qed

end
