(* ===== verification/Verify.thy ===== *)
theory Verify
  imports Question Module_Registry Task_List "HOL-Library.AList"
begin

text \<open>
  \<open>daemon/modules/verify/verify.go\<close> and \<open>remind.go\<close>: the module that keeps a session from stopping while its work is
  unfinished. \<open>VerifyEnv\<close> holds what comes from outside: the workspace, what git and gh answer, how commands
  end, the model that judges, absolute paths and file identity; git answers as the tree stands behind the gate's
  command. The module's own state is the tree each session started from, by session id. A Go map is an association
  list in the order in which it is walked. \<^term>\<open>None\<close> is the panic of \<open>MustData\<close>.

  The lemmas show which checks count as failing, when a task may be done, what it takes to stop a session with a
  goal, that a session without one is reminded once, and how the judge's answer is read.
\<close>

record JudgeRequest =
  jr_model :: string
  jr_system :: string
  jr_prompt :: string
  jr_max :: int

record VerifyEnv =
  ve_workspace :: string
  ve_git :: "string \<Rightarrow> string list \<Rightarrow> string option"
  ve_gh :: "string \<Rightarrow> string \<times> bool"
  ve_exec :: "nat \<Rightarrow> string \<Rightarrow> string \<Rightarrow> string \<times> err option"
  ve_model :: "(JudgeRequest \<Rightarrow> err + string) option"
  ve_abs :: "string \<Rightarrow> string option"
  ve_same :: "string \<Rightarrow> string \<Rightarrow> bool"
  ve_lower :: "string \<Rightarrow> string"

record VerifyConfig =
  vc_require_done :: "bool option"
  vc_command :: string
  vc_commands :: "(string \<times> string) list"
  vc_clean :: bool
  vc_judge_model :: string
  vc_timeout :: int
  vc_judge_turns :: int
  vc_judge_max :: int

record baseline =
  bl_dirty :: "(string \<times> string) list"
  bl_head :: string

type_synonym baselines = "string \<Rightarrow> baseline option"

section \<open>Words\<close>

definition clip_text :: "string \<Rightarrow> nat \<Rightarrow> string" where
  "clip_text s n =
     (let t = trim_space s in
      if n = 0 \<or> length t \<le> n then t else trim_space (take n t) @ [CHR 0xE2, CHR 0x80, CHR 0xA6])"

definition tail_text :: "string \<Rightarrow> nat \<Rightarrow> string" where
  "tail_text s n =
     (let t = rev (dropWhile (\<lambda>c. c = CHR 0x0D \<or> c = newline) (rev s)) in
      if length t \<le> n then t else [CHR 0xE2, CHR 0x80, CHR 0xA6] @ drop (length t - n) t)"

definition maxCheckOutput :: nat where "maxCheckOutput = 2000"
definition maxSummary :: nat where "maxSummary = 200"
definition maxListed :: nat where "maxListed = 15"
definition maxQuoted :: nat where "maxQuoted = 400"
definition DefaultCommandTimeout :: int where "DefaultCommandTimeout = 300000000000"
definition DefaultJudgeTurns :: int where "DefaultJudgeTurns = 10"
definition DefaultJudgeMaxTokens :: int where "DefaultJudgeMaxTokens = 4096"

definition listSome :: "string list \<Rightarrow> nat \<Rightarrow> string" where
  "listSome items n =
     (if length items \<le> n then join '', '' items
      else join '', '' (take n items) @ '', and '' @ itoa (int (length items - n)) @ '' more'')"

fun lines_of :: "string \<Rightarrow> string list" where
  "lines_of [] = [[]]"
| "lines_of (c # s) =
     (if c = newline then [] # lines_of s
      else case lines_of s of l # ls \<Rightarrow> (c # l) # ls | [] \<Rightarrow> [[c]])"

text \<open>\<open>strings.Index\<close>.\<close>

fun first_index :: "string \<Rightarrow> string \<Rightarrow> nat option" where
  "first_index [] p = (if p = [] then Some 0 else None)"
| "first_index (c # s) p = (if has_prefix (c # s) p then Some 0 else map_option Suc (first_index s p))"

section \<open>The tree\<close>

definition git :: "VerifyEnv \<Rightarrow> string \<Rightarrow> string list \<Rightarrow> string option" where
  "git env dir args = (if dir = [] then None else ve_git env dir args)"

definition headCommit :: "VerifyEnv \<Rightarrow> string \<Rightarrow> string option" where
  "headCommit env dir = map_option trim_space (git env dir [''rev-parse'', ''--verify'', ''-q'', ''HEAD''])"

definition status_path :: "string \<Rightarrow> string" where
  "status_path line =
     (let p = trim_space (drop 3 line) in
      trim_set ''\"'' (trim_space (case first_index p '' -> '' of None \<Rightarrow> p | Some i \<Rightarrow> drop (i + 4) p)))"

definition status_line :: "(string \<times> string) list \<Rightarrow> string \<Rightarrow> (string \<times> string) list" where
  "status_line paths line =
     (if length line < 4 \<or> status_path line = [] then paths else AList.update (status_path line) (take 2 line) paths)"

definition dirtyPaths :: "VerifyEnv \<Rightarrow> string \<Rightarrow> (string \<times> string) list option" where
  "dirtyPaths env dir =
     map_option (\<lambda>out. foldl status_line [] (lines_of out)) (git env dir [''status'', ''--porcelain'', ''--untracked-files=all''])"

definition TreeDirty :: "VerifyEnv \<Rightarrow> string \<Rightarrow> bool option" where
  "TreeDirty env dir = map_option (\<lambda>out. trim_space out \<noteq> []) (git env dir [''status'', ''--porcelain''])"

text \<open>The method \<open>baseline\<close>, which \<open>SessionStart\<close> and \<open>SessionResume\<close> call.\<close>

definition set_baseline :: "VerifyEnv \<Rightarrow> string \<Rightarrow> baselines \<Rightarrow> baselines" where
  "set_baseline env sid bs =
     (case dirtyPaths env (ve_workspace env) of
        None \<Rightarrow> bs
      | Some paths \<Rightarrow>
          bs(sid \<mapsto> \<lparr>bl_dirty = paths, bl_head = (case headCommit env (ve_workspace env) of None \<Rightarrow> [] | Some h \<Rightarrow> h)\<rparr>))"

definition sessionChanges :: "VerifyConfig \<Rightarrow> VerifyEnv \<Rightarrow> baseline option \<Rightarrow> string list \<times> string list" where
  "sessionChanges m env before =
     (if \<not> vc_clean m then ([], [])
      else case (dirtyPaths env (ve_workspace env), before) of
        (Some now, Some b) \<Rightarrow>
          (let new = filter (\<lambda>(p, c). p \<notin> fst ` set (bl_dirty b)) now in
           (map fst (filter (\<lambda>(p, c). c = ''??'') new), map fst (filter (\<lambda>(p, c). c \<noteq> ''??'') new)))
      | _ \<Rightarrow> ([], []))"

definition noiseDir :: "string list" where
  "noiseDir = [''.git'', ''node_modules'', ''build'', ''target'', ''vendor'', ''dist'', ''__pycache__'']"

definition NoiseDir :: "string \<Rightarrow> bool" where
  "NoiseDir name \<longleftrightarrow> to_lower name \<in> set noiseDir"

definition buildDotDirs :: "string list" where
  "buildDotDirs = [''.gradle'', ''.kotlin'', ''.next'', ''.venv'', ''.pytest_cache'', ''.mypy_cache'']"

text \<open>\<open>strings.Split\<close> at slashes.\<close>

fun slash_parts :: "string \<Rightarrow> string list" where
  "slash_parts [] = [[]]"
| "slash_parts (c # s) =
     (if c = CHR ''/'' then [] # slash_parts s
      else case slash_parts s of l # ls \<Rightarrow> (c # l) # ls | [] \<Rightarrow> [[c]])"

fun build_upto :: "bool \<Rightarrow> string list \<Rightarrow> string list \<Rightarrow> string" where
  "build_upto dir pre [] = []"
| "build_upto dir pre (seg # rest) =
     (if rest = [] \<and> \<not> dir then []
      else if NoiseDir seg \<or> to_lower seg \<in> set buildDotDirs then join ''/'' (pre @ [seg]) @ ''/''
      else build_upto dir (pre @ [seg]) rest)"

definition buildPrefix :: "string \<Rightarrow> string" where
  "buildPrefix p = build_upto (has_suffix p ''/'') [] (slash_parts (trim_suffix p ''/''))"

definition buildDirs :: "string list \<Rightarrow> string list" where
  "buildDirs paths = sort (remdups (filter (\<lambda>d. d \<noteq> []) (map buildPrefix paths)))"

definition splitBuild :: "string list \<Rightarrow> string list \<times> string list" where
  "splitBuild paths = (filter (\<lambda>p. buildPrefix p = []) paths, filter (\<lambda>p. buildPrefix p \<noteq> []) paths)"

definition treeReason :: "string list \<Rightarrow> string list \<Rightarrow> string" where
  "treeReason untracked0 changed0 =
     (let build = snd (splitBuild untracked0) @ snd (splitBuild changed0);
          untracked = sort (fst (splitBuild untracked0)); changed = sort (fst (splitBuild changed0)) in
      ''this session left uncommitted changes that git status still lists:'' @ [newline] @
      (if untracked \<noteq> [] then ''  untracked, and not ignored: '' @ listSome untracked maxListed @ [newline] else []) @
      (if changed \<noteq> [] then ''  changed: '' @ listSome changed maxListed @ [newline] else []) @
      (if build \<noteq> [] then ''  build output, not ignored: '' @ itoa (int (length build)) @ '' files under '' @ join '', '' (buildDirs build) @
         [newline] @ ''Ignore build output in the .gitignore at the repository root: a pattern '' @
         ''in a nested .gitignore is relative to that file's own directory. A tracked file '' @
         ''is never ignored, whatever .gitignore says; untrack it with `git rm -r --cached <dir>`.'' @ [newline] else []) @
      ''Commit what belongs in the repository. This clears only when git status '' @
      ''stops listing these paths; explaining them does not clear it. If they should '' @
      ''stay as they are, say so once and stop: the session ends blocked, for the person to decide.'')"

definition treeVeto :: "VerifyConfig \<Rightarrow> VerifyEnv \<Rightarrow> baseline option \<Rightarrow> string" where
  "treeVeto m env before =
     (case sessionChanges m env before of (untracked, changed) \<Rightarrow>
        if untracked @ changed = [] then [] else treeReason untracked changed)"

text \<open>The build output among the files that commits on top of \<open>from\<close> have added.\<close>

definition added_build :: "VerifyEnv \<Rightarrow> string \<Rightarrow> string \<Rightarrow> string list" where
  "added_build env from head =
     (if git env (ve_workspace env) [''merge-base'', ''--is-ancestor'', from, head] = None then []
      else case git env (ve_workspace env) [''diff'', ''--name-only'', ''--diff-filter=A'', from, head] of
        None \<Rightarrow> []
      | Some out \<Rightarrow> filter (\<lambda>p. p \<noteq> [] \<and> buildPrefix p \<noteq> []) (map trim_space (lines_of out)))"

definition committedBuildVeto :: "VerifyConfig \<Rightarrow> VerifyEnv \<Rightarrow> baseline option \<Rightarrow> string" where
  "committedBuildVeto m env before =
     (case (before, headCommit env (ve_workspace env)) of
        (Some b, Some head) \<Rightarrow>
          (let added = added_build env (bl_head b) head; dirs = buildDirs added in
           if \<not> vc_clean m \<or> bl_head b = [] \<or> head = bl_head b \<or> added = [] then []
           else ''this session committed '' @ itoa (int (length added)) @ '' files of build output under '' @ join '', '' dirs @ ''. '' @
             ''Build output does not belong in the repository: untrack it with '' @
             ''`git rm -r --cached '' @ join '' '' dirs @ ''`, ignore it in the .gitignore at the repository root, '' @ ''and commit that.'')
      | _ \<Rightarrow> [])"

section \<open>Configuration\<close>

definition workspaceKey :: "VerifyEnv \<Rightarrow> string \<Rightarrow> string" where
  "workspaceKey env p = to_lower (path_clean (case ve_abs env p of Some a \<Rightarrow> a | None \<Rightarrow> p))"

fun read_commands :: "VerifyEnv \<Rightarrow> (json \<Rightarrow> string) \<Rightarrow> (string \<times> string) list \<Rightarrow> (string \<times> json) list \<Rightarrow> err + (string \<times> string) list" where
  "read_commands env tname cmds [] = Inr cmds"
| "read_commands env tname cmds ((path, v) # ms) =
     (case v of
        JStr cmd \<Rightarrow> read_commands env tname (AList.update (workspaceKey env path) cmd cmds) ms
      | _ \<Rightarrow> Inl (''verify: the command for '' @ path @ '' must be a string, got '' @ tname v))"

definition readCommands :: "VerifyEnv \<Rightarrow> (json \<Rightarrow> string) \<Rightarrow> json option \<Rightarrow> err + (string \<times> string) list" where
  "readCommands env tname raw =
     (case raw of
        None \<Rightarrow> Inr []
      | Some JNull \<Rightarrow> Inr []
      | Some (JObj ms) \<Rightarrow> read_commands env tname [] ms
      | Some v \<Rightarrow> Inl (''verify: commands must be an object of workspace path to command, got '' @ tname v))"

text \<open>\<open>cfg\<close> is the module's section, with \<open>Config.String\<close>, \<open>Bool\<close> and \<open>Int\<close> as functions of key and default.\<close>

definition verify_init ::
  "VerifyEnv \<Rightarrow> (json \<Rightarrow> string) \<Rightarrow> (string \<Rightarrow> json option) \<Rightarrow> (string \<Rightarrow> string \<Rightarrow> string) \<Rightarrow> (string \<Rightarrow> bool \<Rightarrow> bool) \<Rightarrow>
     (string \<Rightarrow> int \<Rightarrow> int) \<Rightarrow> err + VerifyConfig" where
  "verify_init env tname cfg str bool_of int_of =
     (case readCommands env tname (cfg ''commands'') of
        Inl e \<Rightarrow> Inl e
      | Inr cmds \<Rightarrow>
          (let secs = int_of ''command_timeout'' 0; turns = int_of ''judge_turns'' 0; tokens = int_of ''judge_max_tokens'' 0;
               m = \<lparr>vc_require_done = None, vc_command = str ''command'' [], vc_commands = cmds,
                    vc_clean = bool_of ''require_clean_tree'' True, vc_judge_model = str ''judge_model'' [],
                    vc_timeout = (if secs > 0 then secs * 1000000000 else DefaultCommandTimeout),
                    vc_judge_turns = (if turns > 0 then turns else DefaultJudgeTurns),
                    vc_judge_max = (if tokens \<le> 0 then DefaultJudgeMaxTokens else tokens)\<rparr> in
           case cfg ''require_done_when'' of
             None \<Rightarrow> Inr m
           | Some (JBool b) \<Rightarrow> Inr (m\<lparr>vc_require_done := Some b\<rparr>)
           | Some v \<Rightarrow> Inl (''verify: require_done_when must be a boolean, got '' @ tname v)))"

definition path_dir :: "string \<Rightarrow> string" where
  "path_dir p = path_clean (rev (dropWhile (\<lambda>c. c \<noteq> CHR ''/'') (rev p)))"

definition mainWorktree :: "VerifyEnv \<Rightarrow> string \<Rightarrow> string option" where
  "mainWorktree env dir =
     (case git env dir [''rev-parse'', ''--path-format=absolute'', ''--git-common-dir''] of
        None \<Rightarrow> None
      | Some out \<Rightarrow> if trim_space out = [] then None else Some (path_dir (trim_space out)))"

definition commandFor :: "VerifyConfig \<Rightarrow> VerifyEnv \<Rightarrow> string" where
  "commandFor m env =
     (case map_of (vc_commands m) (workspaceKey env (ve_workspace env)) of
        Some cmd \<Rightarrow> cmd
      | None \<Rightarrow>
          (case (if vc_commands m = [] then None else mainWorktree env (ve_workspace env)) of
             None \<Rightarrow> vc_command m
           | Some main \<Rightarrow>
               (case map_of (vc_commands m) (workspaceKey env main) of
                  Some cmd \<Rightarrow> cmd
                | None \<Rightarrow>
                    (case List.find (\<lambda>(key, cmd). ve_same env main key) (vc_commands m) of
                       Some (key, cmd) \<Rightarrow> cmd
                     | None \<Rightarrow> vc_command m))))"

section \<open>Tool gate\<close>

definition tasksFrom :: "json option \<Rightarrow> Task list option" where
  "tasksFrom args =
     (case args of
        None \<Rightarrow> None
      | Some v \<Rightarrow>
          (case dec_struct [(''tasks'', \<lambda>_ x. dec_slice (dec_struct task_fields) task_zero x)] None v of
             None \<Rightarrow> None
           | Some ts \<Rightarrow> ts))"

definition byID :: "Task list \<Rightarrow> string \<Rightarrow> Task option" where
  "byID tasks = foldl (\<lambda>m t. m(tk_id t \<mapsto> t)) (\<lambda>_. None) tasks"

definition requireDoneWhen :: "VerifyConfig \<Rightarrow> State \<Rightarrow> bool" where
  "requireDoneWhen m st = (case vc_require_done m of Some b \<Rightarrow> b | None \<Rightarrow> GoalActive st)"

definition done_missing :: "(string \<Rightarrow> Task option) \<Rightarrow> Task list \<Rightarrow> Task option" where
  "done_missing existing incoming =
     List.find (\<lambda>t. existing (tk_id t) = None \<and> trim_space (tk_done_when t) = []) incoming"

definition deny_done_when :: "Task \<Rightarrow> Verdict" where
  "deny_done_when t = allow\<lparr>vd_decision := Deny,
     vd_reason := ''every task needs a done_when: the observable condition '' @ ''that proves it finished. Task '' @ tk_id t @ '' has none.''\<rparr>"

text \<open>A task whose command must pass before it is done.\<close>

definition must_pass :: "(string \<Rightarrow> Task option) \<Rightarrow> Task \<Rightarrow> bool" where
  "must_pass existing t \<longleftrightarrow>
     tk_status t = ''done'' \<and> trim_space (tk_check t) \<noteq> [] \<and>
     (case existing (tk_id t) of None \<Rightarrow> True | Some was \<Rightarrow> tk_status was \<noteq> ''done'')"

definition task_check :: "Task \<Rightarrow> string \<times> err option \<Rightarrow> event_data" where
  "task_check t r = DCheck \<lparr>ck_name = ''task:'' @ tk_id t, ck_kind = ''command'', ck_task = tk_id t,
     ck_status = (if snd r = None then ''pass'' else ''fail''),
     ck_summary = (case snd r of None \<Rightarrow> ''exit 0'' | Some e \<Rightarrow> clip_text e maxSummary), ck_output = tail_text (fst r) maxCheckOutput\<rparr>"

definition deny_check :: "Task \<Rightarrow> string \<Rightarrow> err \<Rightarrow> Verdict" where
  "deny_check t out e = allow\<lparr>vd_decision := Deny,
     vd_reason := ''task '' @ tk_id t @ '' is not done: its check '' @ fmt_q (tk_check t) @ '' failed ('' @ e @ '')'' @ [newline] @
       tail_text out maxCheckOutput\<rparr>"

text \<open>The error of \<open>Append\<close> is ignored. \<open>n\<close> counts the commands run.\<close>

fun run_checks :: "VerifyEnv \<Rightarrow> (string \<Rightarrow> Task option) \<Rightarrow> nat \<Rightarrow> Task list \<Rightarrow> Agent \<Rightarrow> Verdict \<times> Agent" where
  "run_checks env existing n [] a = (allow, a)"
| "run_checks env existing n (t # ts) a =
     (if \<not> must_pass existing t then run_checks env existing n ts a
      else (let r = ve_exec env n (ve_workspace env) (tk_check t); a' = snd (handle_append (task_check t r) a) in
        case snd r of
          None \<Rightarrow> run_checks env existing (Suc n) ts a'
        | Some e \<Rightarrow> (deny_check t (fst r) e, a')))"

text \<open>The tasks under the ids they will be stored under.\<close>

definition named_tasks :: "State \<Rightarrow> Task list \<Rightarrow> Task list" where
  "named_tasks st incoming = (case TaskIDs (pr_tasks st) incoming of Inl _ \<Rightarrow> incoming | Inr named \<Rightarrow> named)"

definition verify_gate :: "VerifyConfig \<Rightarrow> VerifyEnv \<Rightarrow> ToolCallData \<Rightarrow> Verdict hook_fn" where
  "verify_gate m env call a =
     (if tc_tool call \<noteq> ''task.update'' then (Completed allow, a)
      else case tasksFrom (tc_args call) of
        None \<Rightarrow> (Completed allow, a)
      | Some given \<Rightarrow>
          (case h_state a of
             None \<Rightarrow> (Crashed ''panic'', a)
           | Some st \<Rightarrow>
               (let existing = byID (pr_tasks st); incoming = named_tasks st given in
                case (if requireDoneWhen m st then done_missing existing incoming else None) of
                  Some t \<Rightarrow> (Completed (deny_done_when t), a)
                | None \<Rightarrow> (case run_checks env existing 0 incoming a of (v, b) \<Rightarrow> (Completed v, b)))))"

section \<open>Checks\<close>

definition checks_of :: "Event list \<Rightarrow> CheckData list" where
  "checks_of log = List.map_filter (\<lambda>e. if ev_type e = ''check'' then MustData as_check e else None) log"

text \<open>The latest result of each check, in the order in which the checks first appeared.\<close>

definition latest_checks :: "Event list \<Rightarrow> (string \<times> CheckData) list" where
  "latest_checks log = foldl (\<lambda>m d. AList.update (ck_name d) d m) [] (checks_of log)"

definition taskOf :: "CheckData \<Rightarrow> string option" where
  "taskOf d =
     (if ck_task d \<noteq> [] then Some (ck_task d)
      else if has_prefix (ck_name d) ''task:'' then Some (drop 5 (ck_name d)) else None)"

definition failed_line :: "(string \<Rightarrow> Task option) \<Rightarrow> string \<times> CheckData \<Rightarrow> string option" where
  "failed_line live c =
     (let name = fst c; d = snd c in
      if ck_status d \<noteq> ''fail'' then None
      else case taskOf d of
        None \<Rightarrow> Some (name @ '': '' @ ck_summary d)
      | Some task \<Rightarrow>
          (case live task of
             None \<Rightarrow> None
           | Some t \<Rightarrow> if task = [] \<or> tk_status t = ''cancelled'' then None
                     else Some (name @ '' ('' @ tk_title t @ ''): '' @ ck_summary d)))"

definition failedChecks :: "Event list \<Rightarrow> Task list \<Rightarrow> string list" where
  "failedChecks log tasks = List.map_filter (failed_line (byID tasks)) (latest_checks log)"

definition failedCheckVeto :: "Event list \<Rightarrow> Task list \<Rightarrow> string" where
  "failedCheckVeto log tasks =
     (let failed = failedChecks log tasks in
      if failed = [] then []
      else ''these checks are failing:'' @ newline # ''  - '' @ join (newline # ''  - '') failed @ newline #
        ''A task's check clears when the task is marked done and its check passes, or when the task is cancelled.'')"

section \<open>Open tasks\<close>

definition task_open :: "Task \<Rightarrow> bool" where
  "task_open t \<longleftrightarrow> tk_status t = ''pending'' \<or> tk_status t = ''in_progress''"

definition task_undocumented :: "Task \<Rightarrow> bool" where
  "task_undocumented t \<longleftrightarrow> tk_status t = ''blocked'' \<and> trim_space (tk_note t) = []"

definition bullets :: "string list \<Rightarrow> string" where
  "bullets ls = concat (map (\<lambda>l. ''  - '' @ l @ [newline]) ls)"

definition openTaskVeto :: "Task list \<Rightarrow> string" where
  "openTaskVeto tasks =
     (let name = (\<lambda>t. tk_id t @ '' '' @ tk_title t);
          un = map name (filter task_open tasks);
          undocumented = map name (filter task_undocumented tasks);
          blocked = map (\<lambda>t. name t @ '' '' @ em_dash @ '' '' @ tk_note t)
            (filter (\<lambda>t. tk_status t = ''blocked'' \<and> \<not> task_undocumented t) tasks) in
      if un = [] \<and> undocumented = [] then []
      else rev (dropWhile (\<lambda>c. c = newline) (rev
        ((if un \<noteq> [] then ''these tasks are not finished:'' @ [newline] @ bullets un else []) @
         (if undocumented \<noteq> [] then ''these tasks are blocked with no note saying why:'' @ [newline] @ bullets undocumented else []) @
         (if blocked \<noteq> [] then ''(blocked and documented, not counted against you:'' @ [newline] @ bullets blocked @ '')'' @ [newline] else [])))))"

definition openTaskLines :: "Task list \<Rightarrow> string list" where
  "openTaskLines tasks =
     List.map_filter (\<lambda>t.
       if task_open t then Some (tk_id t @ '' '' @ tk_title t @ '' ('' @ tk_status t @ '')'')
       else if task_undocumented t then Some (tk_id t @ '' '' @ tk_title t @ '' (blocked, with no note saying why)'')
       else None) tasks"

section \<open>The gate's command\<close>

text \<open>What a step at the stop gives, \<^term>\<open>None\<close> when it panics, and the session it leaves.\<close>

type_synonym 'r stepped = "'r option \<times> Agent"

text \<open>Why a check refuses the stop, empty when it does not.\<close>

type_synonym veto = "string stepped"

definition and_then :: "'r stepped \<Rightarrow> ('r \<Rightarrow> Agent \<Rightarrow> 's stepped) \<Rightarrow> 's stepped" where
  "and_then s f = (case s of (None, a) \<Rightarrow> (None, a) | (Some r, a) \<Rightarrow> f r a)"

definition gate_check :: "string \<times> err option \<Rightarrow> event_data" where
  "gate_check r = DCheck \<lparr>ck_name = ''verify.command'', ck_kind = ''module'', ck_task = [],
     ck_status = (if snd r = None then ''pass'' else ''fail''),
     ck_summary = (case snd r of None \<Rightarrow> ''exit 0'' | Some e \<Rightarrow> clip_text e maxSummary), ck_output = tail_text (fst r) maxCheckOutput\<rparr>"

definition run_gate :: "VerifyEnv \<Rightarrow> string \<Rightarrow> Agent \<Rightarrow> veto" where
  "run_gate env command a =
     (let r = ve_exec env 0 (ve_workspace env) command; a' = snd (handle_append (gate_check r) a) in
      (Some (case snd r of
         None \<Rightarrow> []
       | Some e \<Rightarrow> ''the project gate failed: '' @ command @ '' ('' @ e @ '')'' @ [newline] @ tail_text (fst r) maxCheckOutput), a'))"

definition gateVeto :: "VerifyConfig \<Rightarrow> VerifyEnv \<Rightarrow> Agent \<Rightarrow> veto" where
  "gateVeto m env a =
     (if trim_space (commandFor m env) = [] then (Some [], a)
      else and_then (ChangedSinceUser (ag_log a), a) (\<lambda>changed a.
        if changed then run_gate env (commandFor m env) a else (Some [], a)))"

section \<open>The judge\<close>

definition verdict_at :: "string \<Rightarrow> (string \<times> nat) option \<Rightarrow> string \<Rightarrow> (string \<times> nat) option" where
  "verdict_at lower best v =
     (case first_index lower (''verdict: '' @ v) of
        None \<Rightarrow> best
      | Some i \<Rightarrow>
          (case best of
             None \<Rightarrow> Some (v, i)
           | Some (w, k) \<Rightarrow> if i < k \<or> i = k \<and> length v > length w then Some (v, i) else best))"

definition dashes :: "string list" where
  "dashes = [''-'', [CHR 0xE2, CHR 0x80, CHR 0x94], [CHR 0xE2, CHR 0x80, CHR 0x93], '':'']"

text \<open>The position is found in the text in lower case and used in the text itself: \<^term>\<open>None\<close> is the panic of a
  slice that starts behind the end.\<close>

definition parseVerdict :: "(string \<Rightarrow> string) \<Rightarrow> string \<Rightarrow> (string \<times> string) option option" where
  "parseVerdict lower content =
     (case foldl (verdict_at (lower content)) None [''met'', ''unmet'', ''impossible''] of
        None \<Rightarrow> Some None
      | Some (v, i) \<Rightarrow>
          (let start = i + 9 + length v in
           if start > length content then None
           else (let line = trim_space (takeWhile (\<lambda>c. c \<noteq> CHR 0x0D \<and> c \<noteq> newline) (drop start content)) in
             Some (Some (v, trim_space (strip_seqs dashes (length line) line))))))"

definition judgeSystem :: string where
  "judgeSystem = ''You are an impartial judge. You did not do the work and you '' @
     ''have no stake in it being finished. Decide only whether the stated condition is met.''"

definition transcript :: "VerifyConfig \<Rightarrow> Event list \<Rightarrow> string" where
  "transcript m log =
     (let said = List.map_filter (\<lambda>e. if ev_type e = ''message'' then MustData as_message e else None) log;
          ls = map (\<lambda>d. msg_role d @ '': '' @ clip_text (msg_content d) 1000) said;
          n = vc_judge_turns m in
      if ls = [] then ''(no messages)'' @ [newline]
      else join [newline] (if n > 0 \<and> int (length ls) > n then drop (length ls - nat n) ls else ls) @ [newline])"

definition judge_task :: "Task \<Rightarrow> string" where
  "judge_task t = ''- '' @ tk_id t @ '': '' @ tk_title t @ '' '' @ em_dash @ '' status: '' @ tk_status t @ '', evidence: '' @
     (if tk_evidence t = [] then ''none'' else tk_evidence t) @ [newline]"

definition judgePrompt :: "VerifyConfig \<Rightarrow> Event list \<Rightarrow> string \<Rightarrow> Task list \<Rightarrow> string" where
  "judgePrompt m log condition tasks =
     ''The agent believes its work is done. Decide whether the goal is met.'' @ [newline, newline] @
     ''## Condition'' @ [newline] @ condition @ [newline, newline] @ ''## Tasks'' @ [newline] @
     (if tasks = [] then ''(none)'' @ [newline] else concat (map judge_task tasks)) @
     [newline] @ ''## Recent transcript'' @ [newline] @ transcript m log @
     [newline] @ ''## Verdict'' @ [newline] @ ''Respond with exactly one of these three lines, nothing else:'' @ [newline] @
     ''VERDICT: met'' @ [newline] @ ''VERDICT: unmet - <one sentence reason>'' @ [newline] @
     ''VERDICT: impossible - <one sentence reason>'' @ [newline]"

definition judge :: "VerifyConfig \<Rightarrow> VerifyEnv \<Rightarrow> (JudgeRequest \<Rightarrow> err + string) \<Rightarrow> Event list \<Rightarrow> string \<Rightarrow> Task list \<Rightarrow>
    (string \<times> string) option" where
  "judge m env complete log condition tasks =
     (case complete \<lparr>jr_model = vc_judge_model m, jr_system = judgeSystem, jr_prompt = judgePrompt m log condition tasks,
          jr_max = vc_judge_max m\<rparr> of
        Inl e \<Rightarrow> Some (''unmet'', ''judge call failed: '' @ e)
      | Inr content \<Rightarrow>
          if trim_space content = [] then
            Some (''unmet'', ''the judge gave no answer; it may have run out of its '' @ itoa (vc_judge_max m) @ '' tokens (verify.judge_max_tokens)'')
          else map_option (\<lambda>r. case r of
              None \<Rightarrow> (''unmet'', ''the judge did not answer in the required form'')
            | Some v \<Rightarrow> v) (parseVerdict (ve_lower env) content))"

definition goal_event :: "string \<Rightarrow> string \<Rightarrow> string \<Rightarrow> event_data" where
  "goal_event condition verdict reason = DGoal \<lparr>gl_condition = condition, gl_state = verdict, gl_reason = reason, gl_source = ''module:verify''\<rparr>"

definition judged :: "string \<Rightarrow> string \<times> string \<Rightarrow> Agent \<Rightarrow> veto" where
  "judged condition v a =
     (if fst v = ''met'' \<or> fst v = ''impossible'' then (Some [], snd (handle_append (goal_event condition (fst v) (snd v)) a))
      else (Some (''the run goal is not met: '' @ (if snd v = [] then ''the goal is not met'' else snd v)), a))"

definition judgeVeto :: "VerifyConfig \<Rightarrow> VerifyEnv \<Rightarrow> StopInfo \<Rightarrow> Agent \<Rightarrow> veto" where
  "judgeVeto m env info a =
     (case si_goal info of
        None \<Rightarrow> (Some [], a)
      | Some g \<Rightarrow>
          and_then (h_state a, a) (\<lambda>st a.
            if \<not> GoalActive st then (Some [], a)
            else case ve_model env of
              None \<Rightarrow> (Some ''the run goal could not be judged: this daemon has no model available'', a)
            | Some complete \<Rightarrow>
                and_then (judge m env complete (ag_log a) (gl_condition g) (si_tasks info), a) (judged (gl_condition g))))"

section \<open>One reminder\<close>

fun reminded_scan :: "Event list \<Rightarrow> bool option" where
  "reminded_scan [] = Some False"
| "reminded_scan (e # es) =
     (if ev_type e = ''message'' then
        Option.bind (MustData as_message e) (\<lambda>d. if msg_role d = ''user'' then Some False else reminded_scan es)
      else if ev_type e = ''stop_veto'' then
        Option.bind (MustData as_stop_veto e) (\<lambda>d. if sv_module d = ''verify'' then Some True else reminded_scan es)
      else reminded_scan es)"

definition remindedThisTurn :: "Event list \<Rightarrow> bool option" where
  "remindedThisTurn log = reminded_scan (rev log)"

definition lastPersonMessage :: "Event list \<Rightarrow> string option" where
  "lastPersonMessage log = map_option (\<lambda>m. case m of None \<Rightarrow> [] | Some s \<Rightarrow> s) (last_asked (rev log))"

definition reminder :: "string \<Rightarrow> string list \<Rightarrow> string" where
  "reminder asked facts =
     ''This is rho's end-of-turn check, sent once. It is not from the person, '' @
     ''and you may stop after answering it.'' @ [newline] @
     (if trim_space asked \<noteq> [] then ''The person's last message was: '' @ fmt_q (clip_text (trim_space asked) maxQuoted) @ [newline] @
        ''Stay within that: start nothing it did not ask for.'' @ [newline] else []) @
     ''What rho sees:'' @ [newline] @
     concat (map (\<lambda>f. ''  - '' @ replace_newline (newline # ''    '') (trim_space f) @ [newline]) facts) @
     ''If the work they asked for is finished: mark the finished tasks done, commit on a '' @
     ''branch (not main), and open a pull request. If it is not finished: do not push; say what '' @ ''is left and why.''"

text \<open>The address of the branch's pull request, empty when it has none, and whether gh could say.\<close>

definition pullRequest :: "VerifyEnv \<Rightarrow> string \<Rightarrow> string \<times> bool" where
  "pullRequest env dir =
     (case ve_gh env dir of (out, ok) \<Rightarrow>
        if ok then (trim_space out, True)
        else if first_index out ''no pull requests found'' \<noteq> None then ([], True)
        else ([], False))"

definition unpushed :: "VerifyEnv \<Rightarrow> string \<Rightarrow> int" where
  "unpushed env dir =
     (case git env dir [''rev-list'', ''--count'', ''@'' @ ''{upstream}..HEAD''] of
        None \<Rightarrow> 0
      | Some out \<Rightarrow> (case parse_int (trim_space out) of None \<Rightarrow> 0 | Some n \<Rightarrow> n))"

definition pr_facts :: "VerifyEnv \<Rightarrow> string \<Rightarrow> string \<Rightarrow> string list" where
  "pr_facts env dir branch =
     (case pullRequest env dir of (pr, known) \<Rightarrow>
        if known \<and> pr = [] then [''branch '' @ branch @ '' has this session's commits and no pull request.'']
        else if known \<and> unpushed env dir > 0
        then [itoa (unpushed env dir) @ '' commits on '' @ branch @ '' are not pushed to its pull request '' @ pr @ ''.'']
        else [])"

definition branchFacts :: "VerifyEnv \<Rightarrow> baseline option \<Rightarrow> bool \<Rightarrow> string list" where
  "branchFacts env before dirty =
     (let dir = ve_workspace env in
      case git env dir [''rev-parse'', ''--abbrev-ref'', ''HEAD''] of
        None \<Rightarrow> []
      | Some out \<Rightarrow>
          (let branch = trim_space out; onMain = (branch = ''main'' \<or> branch = ''master'');
               committed = (case (before, headCommit env dir) of
                   (Some b, Some head) \<Rightarrow> bl_head b \<noteq> [] \<and> head \<noteq> bl_head b
                 | _ \<Rightarrow> False) in
           if onMain \<and> committed then [''this session committed on '' @ branch @ ''. Move that work to a branch.'']
           else if onMain \<and> dirty then [''you are on '' @ branch @ '': commit on a new branch.'']
           else if committed then pr_facts env dir branch
           else []))"

definition gateFact :: "string \<Rightarrow> string list" where
  "gateFact reason = (if reason = [] then [] else [reason])"

definition check_facts :: "bool \<Rightarrow> Event list \<Rightarrow> Task list \<Rightarrow> string list" where
  "check_facts gateFailed log tasks =
     map (\<lambda>f. ''a check is failing: '' @ f)
       (filter (\<lambda>f. \<not> (gateFailed \<and> has_prefix f ''verify.command:'')) (failedChecks log tasks))"

definition tree_facts :: "string list \<Rightarrow> string list" where
  "tree_facts paths =
     (case splitBuild paths of (src, build) \<Rightarrow>
        (if src \<noteq> [] then [''not committed: '' @ listSome src maxListed] else []) @
        (if build \<noteq> [] then
           [''build output that git does not ignore: '' @ itoa (int (length build)) @ '' '' @ (if length build = 1 then ''file'' else ''files'') @
            '' under '' @ join '', '' (buildDirs build) @ ''. '' @ ''Ignore it in the .gitignore at the repository root, not in a nested one.'']
         else []))"

definition turnFacts :: "VerifyConfig \<Rightarrow> VerifyEnv \<Rightarrow> baseline option \<Rightarrow> StopInfo \<Rightarrow> Agent \<Rightarrow> string list stepped" where
  "turnFacts m env before info a =
     and_then (gateVeto m env a) (\<lambda>reason b.
       (case sessionChanges m env before of (untracked, changed) \<Rightarrow>
          let un = openTaskLines (si_tasks info) in
          (Some (gateFact reason @ check_facts (reason \<noteq> []) (ag_log b) (si_tasks info) @ tree_facts (untracked @ changed) @
             gateFact (committedBuildVeto m env before) @ branchFacts env before (untracked @ changed \<noteq> []) @
             (if un \<noteq> [] then [''still open on your task list (mark the finished ones done): '' @ join ''; '' un] else [])), b)))"

definition allow_stop :: StopVerdict where
  "allow_stop = \<lparr>so_allow = True, so_reason = []\<rparr>"

definition refuse_stop :: "string \<Rightarrow> StopVerdict" where
  "refuse_stop reason = \<lparr>so_allow = False, so_reason = reason\<rparr>"

definition remind_with :: "Event list \<Rightarrow> string list \<Rightarrow> Agent \<Rightarrow> StopVerdict stepped" where
  "remind_with log facts b =
     (if facts = [] then (Some allow_stop, b)
      else (map_option (\<lambda>asked. refuse_stop (reminder asked facts)) (lastPersonMessage log), b))"

definition remindOnce :: "VerifyConfig \<Rightarrow> VerifyEnv \<Rightarrow> baseline option \<Rightarrow> StopInfo \<Rightarrow> Agent \<Rightarrow> StopVerdict stepped" where
  "remindOnce m env before info a =
     and_then (ChangedSinceUser (ag_log a), a) (\<lambda>changed a.
       if \<not> changed then (Some allow_stop, a)
       else and_then (remindedThisTurn (ag_log a), a) (\<lambda>reminded a.
         if reminded then (Some allow_stop, a)
         else and_then (turnFacts m env before info a) (remind_with (ag_log a))))"

section \<open>The stop gate\<close>

definition answeredOnly :: "Event list \<Rightarrow> State \<Rightarrow> bool option" where
  "answeredOnly log st =
     Option.bind (QuestionTurn log st) (\<lambda>asks. if asks then map_option Not (ChangedSinceUser log) else Some False)"

text \<open>The checks in order, up to the first that refuses.\<close>

fun first_veto :: "(Agent \<Rightarrow> veto) list \<Rightarrow> Agent \<Rightarrow> veto" where
  "first_veto [] a = (Some [], a)"
| "first_veto (f # fs) a = and_then (f a) (\<lambda>reason b. if reason \<noteq> [] then (Some reason, b) else first_veto fs b)"

definition goal_checks :: "VerifyConfig \<Rightarrow> VerifyEnv \<Rightarrow> baseline option \<Rightarrow> StopInfo \<Rightarrow> (Agent \<Rightarrow> veto) list" where
  "goal_checks m env before info =
     [\<lambda>a. (Some (openTaskVeto (si_tasks info)), a), \<lambda>a. (Some (failedCheckVeto (ag_log a) (si_tasks info)), a), gateVeto m env,
      \<lambda>a. (Some (committedBuildVeto m env before), a), \<lambda>a. (Some (treeVeto m env before), a), judgeVeto m env info]"

definition stop_verdict :: "VerifyConfig \<Rightarrow> VerifyEnv \<Rightarrow> baseline option \<Rightarrow> StopInfo \<Rightarrow> Agent \<Rightarrow> StopVerdict stepped" where
  "stop_verdict m env before info a =
     and_then (h_state a, a) (\<lambda>st a.
       and_then (answeredOnly (ag_log a) st, a) (\<lambda>only a.
         if only then (Some allow_stop, a)
         else if \<not> GoalActive st then remindOnce m env before info a
         else and_then (first_veto (goal_checks m env before info) a)
           (\<lambda>reason b. (Some (if reason = [] then allow_stop else refuse_stop reason), b))))"

definition verify_stop :: "VerifyConfig \<Rightarrow> VerifyEnv \<Rightarrow> baselines \<Rightarrow> StopInfo \<Rightarrow> StopVerdict hook_fn" where
  "verify_stop m env bs info a =
     (case stop_verdict m env (bs (se_id (ag_s a))) info a of
        (None, b) \<Rightarrow> (Crashed ''panic'', b)
      | (Some v, b) \<Rightarrow> (Completed v, b))"

section \<open>Report and module\<close>

definition verify_report :: "VerifyEnv \<Rightarrow> (err + ReportFields) hook_fn" where
  "verify_report env a =
     (Completed (Inr \<lparr>rf_files = [], rf_commits = [], rf_dirty = TreeDirty env (ve_workspace env),
        rf_checks = map (\<lambda>(n, d). \<lparr>rk_name = ck_name d, rk_status = ck_status d, rk_summary = ck_summary d\<rparr>) (latest_checks (ag_log a))\<rparr>), a)"

text \<open>The module over the trees recorded so far; its hooks at the start and the resumption of a session only record.\<close>

definition verify_module :: "VerifyConfig \<Rightarrow> VerifyEnv \<Rightarrow> baselines \<Rightarrow> Module" where
  "verify_module m env bs = \<lparr>md_name = ''verify'', md_init = Init_ok, md_start = Some (\<lambda>a. (Completed (Inr []), a)), md_request = None,
     md_gate = Some (verify_gate m env), md_tools = None, md_session_tools = None, md_tool_result = None,
     md_turn_end = None, md_before_stop = Some (verify_stop m env bs), md_before_compaction = None, md_after_compaction = None,
     md_resume = Some (\<lambda>a. (Completed None, a)), md_end = None, md_report = Some (verify_report env)\<rparr>"

definition SessionStart_baselines :: "VerifyEnv \<Rightarrow> Agent \<Rightarrow> baselines \<Rightarrow> baselines" where
  "SessionStart_baselines env a bs = set_baseline env (se_id (ag_s a)) bs"

section \<open>The hooks only append, and return\<close>

lemma and_then_simps [simp]:
  "and_then (None, a) f = (None, a)" "and_then (Some r, a) f = f r a"
  by (simp_all add: and_then_def)

lemma and_then_cases:
  "and_then s f = (x, b) \<longleftrightarrow> (fst s = None \<and> x = None \<and> b = snd s) \<or> (\<exists>r. fst s = Some r \<and> f r (snd s) = (x, b))"
  by (cases s; cases "fst s") (auto simp: and_then_def)

lemma check_append_quiet:
  "agent_ok a \<Longrightarrow> quiet a (snd (handle_append (task_check t r) a))" "agent_ok a \<Longrightarrow> quiet a (snd (handle_append (gate_check r) a))"
  "agent_ok a \<Longrightarrow> quiet a (snd (handle_append (goal_event c v w) a))"
  by (simp_all add: task_check_def gate_check_def goal_event_def handle_append_def h_append_quiet quiet_refl)

lemma run_checks_quiet: "agent_ok a \<Longrightarrow> quiet a (snd (run_checks env existing n ts a))"
proof (induction ts arbitrary: n a)
  case (Cons t ts)
  let ?r = "ve_exec env n (ve_workspace env) (tk_check t)"
  let ?b = "snd (handle_append (task_check t ?r) a)"
  have q: "quiet a ?b" using check_append_quiet(1) [OF Cons.prems] .
  have "quiet ?b (snd (run_checks env existing (Suc n) ts ?b))" using Cons.IH [OF quiet_ok [OF q]] .
  then have "quiet a (snd (run_checks env existing (Suc n) ts ?b))" using quiet_trans [OF q] by blast
  then show ?case using q Cons.IH [OF Cons.prems, of n] by (simp add: Let_def split: option.split)
qed (simp add: quiet_refl)

lemma verify_gate_quiet: "hook_quiet (verify_gate m env call)"
proof -
  have "quiet a (snd (verify_gate m env call a))" if "agent_ok a" for a
  proof -
    have "quiet a b" if "run_checks env e n ts a = (v, b)" for e n ts v b
      using run_checks_quiet [OF \<open>agent_ok a\<close>, of env e n ts] that by simp
    then show ?thesis using quiet_refl [OF that] by (auto simp: verify_gate_def Let_def split: option.split prod.split)
  qed
  then show ?thesis by (simp add: hook_quiet_def)
qed

text \<open>A step that neither panics nor does more than append.\<close>

definition fine :: "Agent \<Rightarrow> 'r stepped \<Rightarrow> bool" where
  "fine a s \<longleftrightarrow> fst s \<noteq> None \<and> quiet a (snd s)"

definition calm_step :: "Agent \<Rightarrow> 'r stepped \<Rightarrow> bool" where
  "calm_step a s \<longleftrightarrow> quiet a (snd s)"

lemma fine_return: "agent_ok a \<Longrightarrow> fine a (Some r, a)"
  by (simp add: fine_def quiet_refl)

lemma calm_return: "agent_ok a \<Longrightarrow> calm_step a (r, a)"
  by (simp add: calm_step_def quiet_refl)

lemma fine_then:
  assumes "fine a s" "\<And>r b. quiet a b \<Longrightarrow> agent_ok b \<Longrightarrow> fine b (f r b)"
  shows "fine a (and_then s f)"
proof -
  obtain r b where s: "s = (Some r, b)" "quiet a b" using assms(1) by (cases s; cases "fst s") (auto simp: fine_def)
  then show ?thesis using assms(2) [OF s(2) quiet_ok [OF s(2)], of r] quiet_trans [OF s(2)] by (simp add: fine_def)
qed

lemma calm_then:
  assumes "calm_step a s" "\<And>r b. quiet a b \<Longrightarrow> agent_ok b \<Longrightarrow> calm_step b (f r b)"
  shows "calm_step a (and_then s f)"
proof -
  obtain r b where s: "s = (r, b)" "quiet a b" using assms(1) by (cases s) (auto simp: calm_step_def)
  show ?thesis
  proof (cases r)
    case (Some x)
    then show ?thesis using s assms(2) [OF s(2) quiet_ok [OF s(2)], of x] quiet_trans [OF s(2)] by (simp add: calm_step_def)
  qed (use s in \<open>simp add: calm_step_def\<close>)
qed

lemma log_read:
  assumes "agent_ok a"
  shows "\<exists>c. ChangedSinceUser (ag_log a) = Some c" "\<exists>c. remindedThisTurn (ag_log a) = Some c"
    "\<exists>c. lastPersonMessage (ag_log a) = Some c" "\<exists>c. answeredOnly (ag_log a) st = Some c" "\<exists>st. h_state a = Some st"
proof -
  have v: "ValidateLog (ag_log a) = None" using assms by (simp add: agent_ok_def)
  have dec: "\<forall>e \<in> set (rev (ag_log a)). decodes e" using ValidateLog_decodes [OF v] by simp
  have r: "\<forall>e \<in> set es. decodes e \<Longrightarrow> \<exists>c. reminded_scan es = Some c" for es
  proof (induction es)
    case (Cons e es)
    then show ?case using MustData_type(1,2) [of e] by (cases "ev_type e = ''message''"; cases "ev_type e = ''stop_veto''") auto
  qed auto
  have l: "\<forall>e \<in> set es. decodes e \<Longrightarrow> \<exists>c. last_asked es = Some c" for es
  proof (induction es)
    case (Cons e es)
    then show ?case using MustData_type(1) [of e] by auto
  qed simp
  show c: "\<exists>c. ChangedSinceUser (ag_log a) = Some c" using changed_scan_iff [OF dec] by (simp add: ChangedSinceUser_def)
  show "\<exists>c. remindedThisTurn (ag_log a) = Some c" using r [OF dec] by (simp add: remindedThisTurn_def)
  obtain x where x: "last_asked (rev (ag_log a)) = Some x" using l [OF dec] by blast
  then show "\<exists>c. lastPersonMessage (ag_log a) = Some c" by (simp add: lastPersonMessage_def)
  have "\<exists>q. QuestionTurn (ag_log a) st = Some q" using x by (auto simp: QuestionTurn_def)
  then show "\<exists>c. answeredOnly (ag_log a) st = Some c" using c by (auto simp: answeredOnly_def)
  show "\<exists>st. h_state a = Some st" using h_state_ok [OF assms] by blast
qed

lemma first_index_bound: "first_index s p = Some i \<Longrightarrow> i + length p \<le> length s"
proof (induction s arbitrary: i)
  case (Cons c s)
  have "length p \<le> length (c # s)" if "has_prefix (c # s) p"
    using that unfolding has_prefix_append by (metis le_add1 length_append)
  then show ?case using Cons by (auto split: if_splits)
qed (auto split: if_splits)

lemma verdict_fold_bound:
  assumes "\<forall>v i. best = Some (v, i) \<longrightarrow> i + 9 + length v \<le> length lower"
    "foldl (verdict_at lower) best vs = Some (v, i)"
  shows "i + 9 + length v \<le> length lower"
  using assms
proof (induction vs arbitrary: best)
  case (Cons w ws)
  have "\<forall>v i. verdict_at lower best w = Some (v, i) \<longrightarrow> i + 9 + length v \<le> length lower"
    using Cons.prems(1) first_index_bound [of lower "''verdict: '' @ w"]
    by (auto simp: verdict_at_def split: option.splits if_splits)
  then show ?case using Cons.IH [of "verdict_at lower best w"] Cons.prems(2) by simp
qed simp

lemma parseVerdict_total:
  assumes "\<And>s. length (lower s) \<le> length s"
  shows "parseVerdict lower content \<noteq> None"
proof (cases "foldl (verdict_at (lower content)) None [''met'', ''unmet'', ''impossible'']")
  case (Some x)
  then show ?thesis using verdict_fold_bound [of None "lower content" "[''met'', ''unmet'', ''impossible'']" "fst x" "snd x"] assms [of content]
    by (cases x) (simp add: parseVerdict_def Let_def)
qed (simp add: parseVerdict_def)

lemma judge_total:
  assumes "\<And>s. length (ve_lower env s) \<le> length s"
  shows "judge m env complete log c ts \<noteq> None"
  using parseVerdict_total [of "ve_lower env", OF assms]
  by (simp add: judge_def del: not_None_eq split_paired_Ex split: sum.split)

lemma gateVeto_fine:
  assumes "agent_ok a"
  shows "fine a (gateVeto m env a)"
proof -
  obtain c where c: "ChangedSinceUser (ag_log a) = Some c" using log_read(1) [OF assms] by blast
  have "fine a (run_gate env cmd a)" for cmd
    using check_append_quiet(2) [OF assms] by (simp add: run_gate_def fine_def Let_def)
  then show ?thesis by (simp add: gateVeto_def c fine_return [OF assms])
qed

lemma judged_fine: "agent_ok a \<Longrightarrow> fine a (judged c v a)"
  using check_append_quiet(3) [of a c "fst v" "snd v"] by (auto simp: judged_def fine_def quiet_refl)

lemma judgeVeto_calm:
  assumes "agent_ok a"
  shows "calm_step a (judgeVeto m env info a)"
    and "(\<And>s. length (ve_lower env s) \<le> length s) \<Longrightarrow> fine a (judgeVeto m env info a)"
proof -
  obtain st where st: "h_state a = Some st" using log_read(5) [OF assms] by blast
  have j: "calm_step a (and_then (r, a) (judged c))" for r c
    by (rule calm_then [OF calm_return [OF assms]]) (use judged_fine in \<open>simp add: fine_def calm_step_def\<close>)
  show "calm_step a (judgeVeto m env info a)"
    using j by (auto simp: judgeVeto_def st calm_return [OF assms] split: option.split)
  assume low: "\<And>s. length (ve_lower env s) \<le> length s"
  have "fine a (and_then (judge m env complete log c ts, a) (judged c))" for complete log c ts
    using judge_total [OF low, of m complete log c ts] judged_fine [OF assms, of c] by auto
  then show "fine a (judgeVeto m env info a)"
    by (auto simp: judgeVeto_def st fine_return [OF assms] split: option.split)
qed

lemma remindOnce_fine:
  assumes "agent_ok a"
  shows "fine a (remindOnce m env before info a)"
proof -
  obtain c r p where l: "ChangedSinceUser (ag_log a) = Some c" "remindedThisTurn (ag_log a) = Some r" "lastPersonMessage (ag_log a) = Some p"
    using log_read(1-3) [OF assms] by blast
  have "fine b (remind_with (ag_log a) facts b)" if "agent_ok b" for facts b
    using fine_return [OF that] by (auto simp: remind_with_def l(3))
  moreover have "fine a (turnFacts m env before info a)"
    unfolding turnFacts_def by (rule fine_then [OF gateVeto_fine [OF assms]]) (simp add: fine_return Let_def split: prod.split)
  ultimately have "fine a (and_then (turnFacts m env before info a) (remind_with (ag_log a)))" by (intro fine_then)
  then show ?thesis by (simp add: remindOnce_def l(1,2) fine_return [OF assms])
qed

lemma goal_checks_calm:
  assumes "agent_ok a" "f \<in> set (goal_checks m env before info)"
  shows "calm_step a (f a)"
    and "(\<And>s. length (ve_lower env s) \<le> length s) \<Longrightarrow> fine a (f a)"
  using assms(2) gateVeto_fine [OF assms(1)] judgeVeto_calm [OF assms(1)] quiet_refl [OF assms(1)]
  by (auto simp: goal_checks_def fine_def calm_step_def)

lemma first_veto_calm:
  assumes "\<And>f a. f \<in> set fs \<Longrightarrow> agent_ok a \<Longrightarrow> calm_step a (f a)" "agent_ok a"
  shows "calm_step a (first_veto fs a)"
  using assms
proof (induction fs arbitrary: a)
  case (Cons f fs)
  have "calm_step a (f a)" using Cons.prems by simp
  moreover have "calm_step b (if r \<noteq> [] then (Some r, b) else first_veto fs b)" if "agent_ok b" for r b
    using calm_return [OF that, of "Some r"] Cons.IH [OF _ that] Cons.prems(1) by simp
  ultimately show ?case by (auto intro!: calm_then)
qed (simp add: calm_return)

lemma first_veto_fine:
  assumes "\<And>f a. f \<in> set fs \<Longrightarrow> agent_ok a \<Longrightarrow> fine a (f a)" "agent_ok a"
  shows "fine a (first_veto fs a)"
  using assms
proof (induction fs arbitrary: a)
  case (Cons f fs)
  have "fine a (f a)" using Cons.prems by simp
  moreover have "fine b (if r \<noteq> [] then (Some r, b) else first_veto fs b)" if "agent_ok b" for r b
    using fine_return [OF that, of r] Cons.IH [OF _ that] Cons.prems(1) by simp
  ultimately show ?case by (auto intro!: fine_then)
qed (simp add: fine_return)

lemma stop_verdict_calm:
  assumes "agent_ok a"
  shows "calm_step a (stop_verdict m env before info a)"
    and "(\<And>s. length (ve_lower env s) \<le> length s) \<Longrightarrow> fine a (stop_verdict m env before info a)"
proof -
  obtain st where st: "h_state a = Some st" using log_read(5) [OF assms] by blast
  obtain q where q: "answeredOnly (ag_log a) st = Some q" using log_read(4) [OF assms] by blast
  have r: "fine a (remindOnce m env before info a)" using remindOnce_fine [OF assms] .
  let ?fin = "\<lambda>reason b. (Some (if reason = [] then allow_stop else refuse_stop reason), b)"
  have "calm_step a (and_then (first_veto (goal_checks m env before info) a) ?fin)"
    by (intro calm_then first_veto_calm goal_checks_calm(1) assms) (auto intro: calm_return)
  then show "calm_step a (stop_verdict m env before info a)"
    using r quiet_refl [OF assms] by (auto simp: stop_verdict_def st q fine_def calm_step_def)
  assume low: "\<And>s. length (ve_lower env s) \<le> length s"
  have "fine a (and_then (first_veto (goal_checks m env before info) a) ?fin)"
    by (intro fine_then first_veto_fine goal_checks_calm(2) assms) (auto intro: fine_return low)
  then show "fine a (stop_verdict m env before info a)"
    using r by (auto simp: stop_verdict_def st q fine_return [OF assms])
qed

lemma verify_module_ok: "module_ok (verify_module m env bs)"
proof -
  have "hook_quiet (verify_stop m env bs info)" for info
    using stop_verdict_calm(1) by (auto simp: hook_quiet_def verify_stop_def calm_step_def split: prod.split option.split) (metis snd_conv)+
  then show ?thesis
    using verify_gate_quiet by (simp add: module_ok_def verify_module_def optional_def hook_quiet_def verify_report_def quiet_refl)
qed

lemma verify_stop_returns:
  assumes "agent_ok a" "\<And>s. length (ve_lower env s) \<le> length s"
  shows "\<exists>v b. verify_stop m env bs info a = (Completed v, b) \<and> quiet a b"
proof -
  obtain v b where "stop_verdict m env (bs (se_id (ag_s a))) info a = (Some v, b)" "quiet a b"
    using stop_verdict_calm(2) [OF assms, where m = m and before = "bs (se_id (ag_s a))" and info = info]
    by (cases "stop_verdict m env (bs (se_id (ag_s a))) info a") (auto simp: fine_def)
  then show ?thesis by (simp add: verify_stop_def)
qed

section \<open>Which checks fail\<close>

lemma latest_fold:
  "distinct (map fst (foldl (\<lambda>m d. AList.update (ck_name d) d m) [] cs)) \<and>
   (map_of (foldl (\<lambda>m d. AList.update (ck_name d) d m) [] cs) n = Some d \<longleftrightarrow>
     (\<exists>xs ys. cs = xs @ d # ys \<and> ck_name d = n \<and> (\<forall>y \<in> set ys. ck_name y \<noteq> n)))"
proof (induction cs arbitrary: d rule: rev_induct)
  case (snoc c cs)
  have split: "(\<exists>xs ys. cs @ [c] = xs @ d # ys \<and> ck_name d = n \<and> (\<forall>y \<in> set ys. ck_name y \<noteq> n)) \<longleftrightarrow>
      (if ck_name c = n then d = c else \<exists>xs ys. cs = xs @ d # ys \<and> ck_name d = n \<and> (\<forall>y \<in> set ys. ck_name y \<noteq> n))" (is "?L \<longleftrightarrow> ?R")
  proof
    assume ?L
    then obtain xs ys where s: "cs @ [c] = xs @ d # ys" "ck_name d = n" "\<forall>y \<in> set ys. ck_name y \<noteq> n" by blast
    show ?R
    proof (cases ys rule: rev_cases)
      case Nil
      then show ?thesis using s by auto
    next
      case (snoc zs z)
      then have "cs = xs @ d # zs" "z = c" using s(1) by simp_all
      then show ?thesis using s snoc by auto
    qed
  next
    assume r: ?R
    show ?L
    proof (cases "ck_name c = n")
      case True
      then have "cs @ [c] = cs @ d # [] \<and> ck_name d = n \<and> (\<forall>y \<in> set []. ck_name y \<noteq> n)" using r by simp
      then show ?thesis by blast
    next
      case False
      then obtain xs ys where "cs = xs @ d # ys" "ck_name d = n" "\<forall>y \<in> set ys. ck_name y \<noteq> n" using r by auto
      then have "cs @ [c] = xs @ d # (ys @ [c]) \<and> ck_name d = n \<and> (\<forall>y \<in> set (ys @ [c]). ck_name y \<noteq> n)" using False by simp
      then show ?thesis by blast
    qed
  qed
  show ?case unfolding split using snoc.IH [of d] by (auto simp: distinct_update update_conv')
qed simp

lemma latest_checks_iff:
  "(n, d) \<in> set (latest_checks log) \<longleftrightarrow>
     (\<exists>xs ys. checks_of log = xs @ d # ys \<and> ck_name d = n \<and> (\<forall>y \<in> set ys. ck_name y \<noteq> n))"
  using latest_fold [of "checks_of log" n d] by (auto simp: latest_checks_def)

text \<open>A check counts as failing when its latest result is a failure and it belongs to no task or to one that is still live.\<close>

lemma failedChecks_iff:
  "line \<in> set (failedChecks log tasks) \<longleftrightarrow>
     (\<exists>earlier d later. checks_of log = earlier @ d # later \<and> (\<forall>c \<in> set later. ck_name c \<noteq> ck_name d) \<and>
        failed_line (byID tasks) (ck_name d, d) = Some line)"
proof -
  have "line \<in> set (failedChecks log tasks) \<longleftrightarrow> (\<exists>c \<in> set (latest_checks log). failed_line (byID tasks) c = Some line)"
    by (auto simp: failedChecks_def List.map_filter_def image_iff) (metis option.sel)
  then show ?thesis using latest_checks_iff [of _ _ log] by (auto simp: Bex_def split_paired_Ex)
qed

section \<open>When a task may be done\<close>

definition check_passed :: "VerifyEnv \<Rightarrow> Event list \<Rightarrow> Event list \<Rightarrow> Task \<Rightarrow> bool" where
  "check_passed env before log t \<longleftrightarrow>
     (\<exists>e c. e \<in> set (drop (length before) log) \<and> ev_type e = ''check'' \<and> MustData as_check e = Some c \<and> ck_task c = tk_id t \<and> ck_status c = ''pass'')"

lemma check_append:
  assumes "agent_ok a" "handle_append (task_check t r) a = (x, b)"
  shows "\<exists>es. ag_log b = ag_log a @ es" "writes a \<Longrightarrow> snd r = None \<Longrightarrow> check_passed env (ag_log a) (ag_log b) t \<and> writes b" "agent_ok b"
proof -
  obtain d where p: "task_check t r = DCheck d" "ck_name d = ''task:'' @ tk_id t" "ck_kind d = ''command''" "ck_task d = tk_id t"
    "ck_status d = (if snd r = None then ''pass'' else ''fail'')"
    by (simp add: task_check_def)
  have h: "h_append (DCheck d) a = (x, b)" using assms(2) p(1) by (simp add: handle_append_def)
  show ok: "agent_ok b" using h_append_grows [OF h assms(1)] by (simp add: grows_def)
  show "\<exists>es. ag_log b = ag_log a @ es"
    using h_append_Inr [of "DCheck d" a _ b] h_append_Inl [of "DCheck d" a _ b] h assms(1) by (cases x) fastforce+
  assume w: "writes a" "snd r = None"
  obtain e b' where e: "h_append (DCheck d) a = (Inr e, b')" "writes b'"
    using h_append_writes [OF assms(1) w(1), of "DCheck d"] p w(2) by (auto simp: validate_check_def)
  then have b: "b' = b" using h by simp
  have "ag_log b = ag_log a @ [e]" "DecodeData e = Inr (DCheck d)" "ev_type e = ''check''"
    using h_append_Inr [OF e(1) assms(1)] b by simp_all
  then show "check_passed env (ag_log a) (ag_log b) t \<and> writes b"
    using e(2) b p w(2) by (auto simp: check_passed_def MustData_def as_check_def intro!: exI [of _ e])
qed

lemma run_checks_passed:
  assumes "run_checks env existing n ts a = (v, b)" "vd_decision v = Allow" "agent_ok a" "t \<in> set ts" "must_pass existing t"
  shows "\<exists>k. snd (ve_exec env k (ve_workspace env) (tk_check t)) = None \<and> (writes a \<longrightarrow> check_passed env (ag_log a) (ag_log b) t)"
  using assms
proof (induction ts arbitrary: n a)
  case (Cons u us)
  show ?case
  proof (cases "must_pass existing u")
    case False
    then have "t \<in> set us" "run_checks env existing n us a = (v, b)" using Cons.prems by auto
    then show ?thesis using Cons.IH [of n a] Cons.prems(2,3,5) by blast
  next
    case True
    let ?r = "ve_exec env n (ve_workspace env) (tk_check u)"
    obtain x c where h: "handle_append (task_check u ?r) a = (x, c)" by fastforce
    note app = check_append [OF Cons.prems(3) h]
    have r: "snd ?r = None" using Cons.prems(1,2) True by (cases "snd ?r") (auto simp: Let_def deny_check_def)
    then have run: "run_checks env existing (Suc n) us c = (v, b)" using Cons.prems(1) True h by (simp add: Let_def)
    obtain es where es: "ag_log c = ag_log a @ es" using app(1) by blast
    have "\<exists>es. ag_log b = ag_log c @ es"
      using run_checks_quiet [OF app(3), of env existing "Suc n" us] run by (auto simp: quiet_def grows_def prefix_def)
    then obtain fs where fs: "ag_log b = ag_log c @ fs" by blast
    have keep: "check_passed env (ag_log a) (ag_log b) t" if "check_passed env (ag_log a) (ag_log c) t \<or> check_passed env (ag_log c) (ag_log b) t"
      using that es fs by (auto simp: check_passed_def)
    show ?thesis
    proof (cases "t = u")
      case True
      then show ?thesis using r app(2) keep by blast
    next
      case False
      then have "t \<in> set us" using Cons.prems(4) by simp
      then obtain k where k: "snd (ve_exec env k (ve_workspace env) (tk_check t)) = None" "writes c \<longrightarrow> check_passed env (ag_log c) (ag_log b) t"
        using Cons.IH [OF run Cons.prems(2) app(3) _ Cons.prems(5)] by blast
      then show ?thesis using app(2) r keep by blast
    qed
  qed
qed simp

text \<open>C34: When the gate lets a \<open>task.update\<close> through, each task that it newly marks done and that carries a command has
  had that command run in the workspace, and the command succeeded; and unless the log cannot be written, the
  passing check is in the log under the id the task will be stored under.\<close>
theorem done_needs_check:
  assumes "verify_gate m env call a = (Completed v, b)" "vd_decision v = Allow" "agent_ok a"
    "tc_tool call = ''task.update''" "tasksFrom (tc_args call) = Some given" "h_state a = Some st"
    "t \<in> set (named_tasks st given)" "must_pass (byID (pr_tasks st)) t"
  shows "\<exists>k. snd (ve_exec env k (ve_workspace env) (tk_check t)) = None \<and> (writes a \<longrightarrow> check_passed env (ag_log a) (ag_log b) t)"
proof -
  obtain v' b' where r: "run_checks env (byID (pr_tasks st)) 0 (named_tasks st given) a = (v', b')" by fastforce
  have "v = v' \<and> b = b'"
    using assms(1,2,4-6) r by (auto simp: verify_gate_def Let_def deny_done_when_def split: option.splits if_splits)
  then show ?thesis using run_checks_passed [OF r _ assms(3) assms(7,8)] assms(2) by blast
qed

lemma TaskIDs_one:
  assumes "tk_id t \<noteq> []"
  shows "TaskIDs prev [t] = Inr [t]"
  using assms by (simp add: TaskIDs_def)

text \<open>C35: The gate judges a task by what the model sent, and the stored task takes the command of the task before it when
  the model sent none. So a task that carries a command becomes done without it: an update that leaves the command
  out passes the gate, nothing is run, and the task is stored as done, with its command.\<close>
theorem omitted_check_skips:
  assumes "h_state a = Some st" "pr_tasks st = [q]" "td_tasks prev = [q]" "tk_id q \<noteq> []" "tk_check q \<noteq> []"
    "tc_tool call = ''task.update''" "tasksFrom (tc_args call) = Some [t]"
    "tk_id t = tk_id q" "tk_status t = ''done''" "tk_check t = []" "trim_space (tk_title t) \<noteq> []"
  shows "verify_gate m env call a = (Completed allow, a) \<and>
    (\<exists>d t'. Merge prev [t] log source = Inr d \<and> td_tasks d = [t'] \<and> tk_id t' = tk_id q \<and> tk_status t' = ''done'' \<and> tk_check t' = tk_check q)"
proof -
  have ids: "TaskIDs p [t] = Inr [t]" for p using TaskIDs_one assms(4,8) by simp
  have known: "byID [q] (tk_id t) = Some q" "prev_by_id [q] (tk_id t) = Some q" using assms(8) by (simp_all add: byID_def prev_by_id_def)
  have "\<not> must_pass (byID [q]) t" using assms(10) by (simp add: must_pass_def)
  then have "verify_gate m env call a = (Completed allow, a)"
    using assms(1,2,6,7) ids known(1) by (simp add: verify_gate_def named_tasks_def done_missing_def Let_def)
  moreover have "isTaskStatus ''done''" by (simp add: isTaskStatus_def)
  then obtain t' where t': "merge_task (prev_by_id [q]) log t = Inr t'" "tk_id t' = tk_id q" "tk_status t' = ''done''" "tk_check t' = tk_check q"
    using assms(8-11) known(2) by (simp add: merge_task_def carry_over_def Let_def)
  then have "Merge prev [t] log source = Inr \<lparr>td_revision = add64 (td_revision prev) 1, td_source = source, td_tasks = [t']\<rparr>"
    using ids assms(3) by (simp add: Merge_def)
  then have "\<exists>d t'. Merge prev [t] log source = Inr d \<and> td_tasks d = [t'] \<and> tk_id t' = tk_id q \<and> tk_status t' = ''done'' \<and> tk_check t' = tk_check q"
    using t'(2-4) by simp
  ultimately show ?thesis by blast
qed

section \<open>Stopping with a goal\<close>

lemma first_veto_none:
  "first_veto (f # fs) a = (Some [], b) \<longleftrightarrow> (\<exists>c. f a = (Some [], c) \<and> first_veto fs c = (Some [], b))"
  by (cases "f a"; cases "fst (f a)") auto

lemma openTaskVeto_none:
  assumes "openTaskVeto ts = []" "t \<in> set ts"
  shows "\<not> task_open t \<and> \<not> task_undocumented t"
proof (rule ccontr)
  assume "\<not> (\<not> task_open t \<and> \<not> task_undocumented t)"
  then have "filter task_open ts \<noteq> [] \<or> filter task_undocumented ts \<noteq> []" using assms(2) by (auto simp: filter_empty_conv)
  then show False using assms(1) by (auto simp: openTaskVeto_def Let_def dropWhile_eq_Nil_conv)
qed

lemma treeVeto_none: "treeVeto m env before = [] \<Longrightarrow> sessionChanges m env before = ([], [])"
  by (auto simp: treeVeto_def treeReason_def Let_def split: prod.splits if_splits)

lemma gate_check_goal:
  assumes "agent_ok a"
  shows "pr_goal (projection_of (ag_log (snd (handle_append (gate_check r) a)))) = pr_goal (projection_of (ag_log a))"
proof -
  obtain d where d: "gate_check r = DCheck d" by (simp add: gate_check_def)
  obtain x b where h: "h_append (DCheck d) a = (x, b)" by fastforce
  have "pr_goal (projection_of (ag_log b)) = pr_goal (projection_of (ag_log a))"
  proof (cases x)
    case (Inl e)
    then show ?thesis using h_append_Inl [of "DCheck d" a e b] h assms by simp
  next
    case (Inr e)
    then show ?thesis using h_append_proj [of "DCheck d" a e b] h assms by simp
  qed
  then show ?thesis using h d by (simp add: handle_append_def)
qed

lemma gateVeto_none:
  assumes "gateVeto m env a = (Some [], b)" "agent_ok a"
  shows "(trim_space (commandFor m env) = [] \<or> ChangedSinceUser (ag_log a) = Some False \<or>
      snd (ve_exec env 0 (ve_workspace env) (commandFor m env)) = None) \<and>
    pr_goal (projection_of (ag_log b)) = pr_goal (projection_of (ag_log a)) \<and> agent_ok b"
proof -
  obtain c where c: "ChangedSinceUser (ag_log a) = Some c" using log_read(1) [OF assms(2)] by blast
  have "agent_ok b" using gateVeto_fine [OF assms(2), of m env] assms(1) quiet_ok by (auto simp: fine_def)
  moreover have "snd (ve_exec env 0 (ve_workspace env) (commandFor m env)) = None"
    "b = snd (handle_append (gate_check (ve_exec env 0 (ve_workspace env) (commandFor m env))) a)"
    if "c" "trim_space (commandFor m env) \<noteq> []"
    using assms(1) that c by (auto simp: gateVeto_def run_gate_def Let_def split: option.splits)
  moreover have "b = a" if "\<not> c \<or> trim_space (commandFor m env) = []" using assms(1) that c by (auto simp: gateVeto_def split: if_splits)
  ultimately show ?thesis using gate_check_goal [OF assms(2)] c by (cases c; cases "trim_space (commandFor m env) = []") auto
qed

lemma judgeVeto_none:
  assumes "judgeVeto m env info a = (Some [], b)" "agent_ok a" "si_goal info = Some g" "GoalActive (projection_of (ag_log a))"
  shows "\<exists>complete verdict reason. ve_model env = Some complete \<and>
    judge m env complete (ag_log a) (gl_condition g) (si_tasks info) = Some (verdict, reason) \<and>
    (verdict = ''met'' \<or> verdict = ''impossible'') \<and> b = snd (handle_append (goal_event (gl_condition g) verdict reason) a)"
proof -
  obtain complete where m: "ve_model env = Some complete"
    using assms by (cases "ve_model env") (auto simp: judgeVeto_def h_state_ok)
  then have j: "and_then (judge m env complete (ag_log a) (gl_condition g) (si_tasks info), a) (judged (gl_condition g)) = (Some [], b)"
    using assms by (simp add: judgeVeto_def h_state_ok)
  then obtain v where v: "judge m env complete (ag_log a) (gl_condition g) (si_tasks info) = Some v" "judged (gl_condition g) v a = (Some [], b)"
    by (auto simp: and_then_cases)
  then show ?thesis using m by (cases v) (auto simp: judged_def split: if_splits)
qed

text \<open>C33: A session with a goal stops, as far as this module is asked, only when nothing is left: no task is open or blocked
  without a note, no check is failing, the gate's command succeeded or the turn changed nothing, no build output was
  committed, the tree holds no changes of the session, and the judge answered met or impossible, which is then appended
  as the state of the goal.\<close>
theorem goal_stop_judged:
  assumes "verify_stop m env bs info a = (Completed v, b)" "so_allow v" "agent_ok a"
    "h_state a = Some st" "GoalActive st" "si_goal info = pr_goal st"
  shows "(\<forall>t \<in> set (si_tasks info). \<not> task_open t \<and> \<not> task_undocumented t) \<and> failedChecks (ag_log a) (si_tasks info) = [] \<and>
    (trim_space (commandFor m env) = [] \<or> ChangedSinceUser (ag_log a) = Some False \<or>
       snd (ve_exec env 0 (ve_workspace env) (commandFor m env)) = None) \<and>
    committedBuildVeto m env (bs (se_id (ag_s a))) = [] \<and> sessionChanges m env (bs (se_id (ag_s a))) = ([], []) \<and>
    (\<exists>complete g c verdict reason. ve_model env = Some complete \<and> pr_goal st = Some g \<and>
       judge m env complete (ag_log c) (gl_condition g) (si_tasks info) = Some (verdict, reason) \<and>
       (verdict = ''met'' \<or> verdict = ''impossible'') \<and>
       b = snd (handle_append (goal_event (gl_condition g) verdict reason) c))"
proof -
  let ?before = "bs (se_id (ag_s a))"
  have st: "st = projection_of (ag_log a)" using assms(3,4) by (simp add: h_state_ok)
  have "answeredOnly (ag_log a) st = Some False" using assms(5) by (simp add: answeredOnly_def QuestionTurn_def)
  then have "stop_verdict m env ?before info a =
      and_then (first_veto (goal_checks m env ?before info) a) (\<lambda>reason b. (Some (if reason = [] then allow_stop else refuse_stop reason), b))"
    using assms(4,5) by (simp add: stop_verdict_def)
  moreover have "stop_verdict m env ?before info a = (Some v, b)"
    using assms(1) by (auto simp: verify_stop_def split: prod.splits option.splits)
  ultimately have e: "and_then (first_veto (goal_checks m env ?before info) a)
      (\<lambda>reason b. (Some (if reason = [] then allow_stop else refuse_stop reason), b)) = (Some v, b)" by simp
  then have "first_veto (goal_checks m env ?before info) a = (Some [], b)"
    using and_then_cases [THEN iffD1, OF e] assms(2) by (auto simp: prod_eq_iff refuse_stop_def split: if_splits)
  then obtain c where f: "openTaskVeto (si_tasks info) = []" "failedCheckVeto (ag_log a) (si_tasks info) = []"
    "gateVeto m env a = (Some [], c)" "committedBuildVeto m env ?before = []" "treeVeto m env ?before = []"
    "judgeVeto m env info c = (Some [], b)"
    unfolding goal_checks_def first_veto_none by auto
  obtain g where g: "pr_goal st = Some g" using assms(5) by (cases "pr_goal st") (simp_all add: GoalActive_def)
  note gate = gateVeto_none [OF f(3) assms(3)]
  have "GoalActive (projection_of (ag_log c))" using gate assms(5) st by (simp add: GoalActive_def)
  then obtain complete verdict reason where j: "ve_model env = Some complete"
    "judge m env complete (ag_log c) (gl_condition g) (si_tasks info) = Some (verdict, reason)"
    "verdict = ''met'' \<or> verdict = ''impossible''" "b = snd (handle_append (goal_event (gl_condition g) verdict reason) c)"
    using judgeVeto_none [OF f(6), of g] gate assms(6) g by auto
  have "failedChecks (ag_log a) (si_tasks info) = []" using f(2) by (auto simp: failedCheckVeto_def Let_def split: if_splits)
  moreover have "\<forall>t \<in> set (si_tasks info). \<not> task_open t \<and> \<not> task_undocumented t" using openTaskVeto_none [OF f(1)] by blast
  moreover have "\<exists>complete g c verdict reason. ve_model env = Some complete \<and> pr_goal st = Some g \<and>
      judge m env complete (ag_log c) (gl_condition g) (si_tasks info) = Some (verdict, reason) \<and>
      (verdict = ''met'' \<or> verdict = ''impossible'') \<and> b = snd (handle_append (goal_event (gl_condition g) verdict reason) c)"
    by (intro exI [of _ complete] exI [of _ g] exI [of _ c] exI [of _ verdict] exI [of _ reason] conjI j g)
  ultimately show ?thesis using gate [THEN conjunct1] f(4) treeVeto_none [OF f(5)] by (intro conjI) assumption+
qed

section \<open>One reminder a turn\<close>

definition reminded :: "Event \<Rightarrow> bool" where
  "reminded e \<longleftrightarrow> ev_type e = ''stop_veto'' \<and> (\<exists>d. MustData as_stop_veto e = Some d \<and> sv_module d = ''verify'')"

lemma reminded_scan_at:
  assumes "\<forall>e \<in> set es. decodes e" "es = later @ e # earlier" "reminded e" "\<forall>x \<in> set later. \<not> by_person x"
  shows "reminded_scan es = Some True"
  using assms
proof (induction later arbitrary: es)
  case Nil
  then show ?case by (auto simp: reminded_def)
next
  case (Cons x later)
  then have IH: "reminded_scan (later @ e # earlier) = Some True" by simp
  have x: "decodes x" "\<not> by_person x" using Cons.prems by simp_all
  consider (m) "ev_type x = ''message''" | (v) "ev_type x = ''stop_veto''" | (o) "ev_type x \<noteq> ''message'' \<and> ev_type x \<noteq> ''stop_veto''" by blast
  then show ?case
  proof cases
    case m
    then obtain d where "MustData as_message x = Some d" using MustData_type(1) [OF x(1)] by blast
    then show ?thesis using m x(2) IH Cons.prems(2) by (simp add: by_person_def)
  next
    case v
    then obtain d where "MustData as_stop_veto x = Some d" using MustData_type(2) [OF x(1)] by blast
    then show ?thesis using v IH Cons.prems(2) by simp
  next
    case o
    then show ?thesis using IH Cons.prems(2) by simp
  qed
qed

text \<open>A session without a goal is reminded once a turn: from the module's veto to the person's next message it lets every
  stop through and appends nothing.\<close>
theorem reminded_once:
  assumes "agent_ok a" "h_state a = Some st" "\<not> GoalActive st"
    "ag_log a = earlier @ e # later" "reminded e" "\<forall>x \<in> set later. \<not> by_person x"
  shows "verify_stop m env bs info a = (Completed allow_stop, a)"
proof -
  obtain q c where q: "answeredOnly (ag_log a) st = Some q" "ChangedSinceUser (ag_log a) = Some c" using log_read(1,4) [OF assms(1)] by blast
  have "\<forall>e \<in> set (rev (ag_log a)). decodes e" using ValidateLog_decodes assms(1) by (auto simp: agent_ok_def)
  then have "remindedThisTurn (ag_log a) = Some True"
    unfolding remindedThisTurn_def using assms(4-6) by (intro reminded_scan_at [where later = "rev later" and e = e and earlier = "rev earlier"]) simp_all
  then have "stop_verdict m env before info a = (Some allow_stop, a)" for before
    using assms(2,3) q by (simp add: stop_verdict_def remindOnce_def)
  then show ?thesis by (simp add: verify_stop_def)
qed

section \<open>The judge's answer\<close>

definition nonblank :: "char \<Rightarrow> bool" where
  "nonblank c \<longleftrightarrow> of_char c < (128 :: nat) \<and> c \<notin> {CHR '' '', CHR 0x09, CHR 0x0A, CHR 0x0B, CHR 0x0C, CHR 0x0D}"

lemma space_ends: "w \<in> set space_seqs \<Longrightarrow> w \<noteq> [] \<and> \<not> nonblank (hd w) \<and> \<not> nonblank (last w)"
  by (auto simp: space_seqs_def nonblank_def)

lemma no_space:
  assumes "nonblank c"
  shows "List.find (has_prefix (c # s)) space_seqs = None" "List.find (has_prefix (c # s)) (map rev space_seqs) = None"
proof -
  have "\<not> has_prefix (c # s) w" if "w \<noteq> []" "\<not> nonblank (hd w)" for w
    using that assms by (cases w) (auto simp: has_prefix_def)
  then show "List.find (has_prefix (c # s)) space_seqs = None" "List.find (has_prefix (c # s)) (map rev space_seqs) = None"
    using space_ends by (auto simp: find_None_iff hd_rev)
qed

lemma strip_none: "List.find (has_prefix s) ws = None \<Longrightarrow> strip_seqs ws k s = s"
  by (cases k) simp_all

lemma trim_spaced:
  assumes "s \<noteq> []" "nonblank (hd s)" "nonblank (last s)"
  shows "trim_space s = s" "trim_space (CHR '' '' # s) = s"
proof -
  obtain c u where s: "s = c # u" using assms(1) by (cases s) simp_all
  obtain d v where r: "rev s = d # v" using assms(1) by (cases "rev s") simp_all
  have "d = last s" using r by (metis hd_rev list.sel(1))
  then have "strip_seqs (map rev space_seqs) k (rev s) = rev s" for k
    unfolding r using assms(3) by (intro strip_none no_space) simp
  then have right: "trim_right s = s" by (simp add: trim_right_def)
  have left: "strip_seqs space_seqs k s = s" for k unfolding s using assms(2) s by (intro strip_none no_space) simp
  have "List.find (has_prefix (CHR '' '' # s)) space_seqs = Some '' ''" by (simp add: space_seqs_def has_prefix_def)
  then have "trim_left (CHR '' '' # s) = s" using left by (simp add: trim_left_def)
  then show "trim_space s = s" "trim_space (CHR '' '' # s) = s" using left right by (simp_all add: trim_space_def trim_left_def)
qed

lemma first_index_zero: "s \<noteq> [] \<Longrightarrow> first_index s p = Some 0 \<longleftrightarrow> has_prefix s p"
  by (cases s) auto

lemma verdict_earliest:
  assumes "v \<in> {''met'', ''unmet'', ''impossible''}"
    "\<And>w. w \<in> {''met'', ''unmet'', ''impossible''} \<Longrightarrow> first_index lower (''verdict: '' @ w) = Some 0 \<longleftrightarrow> w = v"
  shows "foldl (verdict_at lower) None [''met'', ''unmet'', ''impossible''] = Some (v, 0)"
proof -
  have f: "first_index lower (''verdict: '' @ v) = Some 0" using assms by blast
  have other: "verdict_at lower (Some (v, 0)) w = Some (v, 0)" if "w \<in> {''met'', ''unmet'', ''impossible''}" "w \<noteq> v" for w
    using assms(2) [OF that(1)] that(2) unfolding verdict_at_def by (cases "first_index lower (''verdict: '' @ w)") auto
  have best: "verdict_at lower b v = Some (v, 0)" if "\<forall>u i. b = Some (u, i) \<longrightarrow> 0 < i" for b
    using that f unfolding verdict_at_def by (cases b) auto
  have early: "\<forall>u i. verdict_at lower b w = Some (u, i) \<longrightarrow> 0 < i"
    if "w \<in> {''met'', ''unmet'', ''impossible''}" "w \<noteq> v" "\<forall>u i. b = Some (u, i) \<longrightarrow> 0 < i" for b w
  proof -
    have "first_index lower (''verdict: '' @ w) \<noteq> Some 0" using assms(2) [OF that(1)] that(2) by simp
    then show ?thesis using that(3) unfolding verdict_at_def by (auto split: option.splits if_splits)
  qed
  consider (met) "v = ''met''" | (unmet) "v = ''unmet''" | (impossible) "v = ''impossible''" using assms(1) by auto
  then show ?thesis
  proof cases
    case met
    then show ?thesis using best [of None] other [of "''unmet''"] other [of "''impossible''"] by simp
  next
    case unmet
    then show ?thesis using best [OF early [of "''met''" None]] other [of "''impossible''"] by simp
  next
    case impossible
    then show ?thesis using best [OF early [OF _ _ early [of "''met''" None], of "''unmet''"]] by simp
  qed
qed

lemma verdict_first:
  assumes "v \<in> {''met'', ''unmet'', ''impossible''}"
  shows "foldl (verdict_at (''verdict: '' @ v @ '' - '' @ x)) None [''met'', ''unmet'', ''impossible''] = Some (v, 0)"
proof (rule verdict_earliest [OF assms])
  fix w
  assume "w \<in> {''met'', ''unmet'', ''impossible''}"
  moreover have "first_index (''verdict: '' @ v @ '' - '' @ x) (''verdict: '' @ w) = Some 0 \<longleftrightarrow>
      has_prefix (''verdict: '' @ v @ '' - '' @ x) (''verdict: '' @ w)" by (rule first_index_zero) simp
  ultimately show "first_index (''verdict: '' @ v @ '' - '' @ x) (''verdict: '' @ w) = Some 0 \<longleftrightarrow> w = v"
    using assms by (auto simp: has_prefix_def)
qed

text \<open>An answer of the judge in the form it is asked for is read as it was meant: verdict and reason come back.\<close>
theorem verdict_read:
  assumes "v \<in> {''met'', ''unmet'', ''impossible''}" "reason \<noteq> []" "nonblank (hd reason)" "nonblank (last reason)"
    "\<forall>c \<in> set reason. c \<noteq> newline \<and> c \<noteq> CHR 0x0D"
  shows "parseVerdict to_lower (''VERDICT: '' @ v @ '' - '' @ reason) = Some (Some (v, reason))"
proof -
  have low: "to_lower (''VERDICT: '' @ v @ '' - '' @ reason) = ''verdict: '' @ v @ '' - '' @ to_lower reason"
  proof -
    have "to_lower ''VERDICT: '' = ''verdict: ''" "to_lower '' - '' = '' - ''" by code_simp+
    moreover have "to_lower ''met'' = ''met''" "to_lower ''unmet'' = ''unmet''" "to_lower ''impossible'' = ''impossible''" by code_simp+
    then have "to_lower v = v" using assms(1) by blast
    ultimately show ?thesis by (simp only: to_lower_append)
  qed
  let ?l = "''- '' @ reason"
  have "drop (9 + length v) (''VERDICT: '' @ v @ '' - '' @ reason) = drop (length v) (drop 9 (''VERDICT: '' @ v @ '' - '' @ reason))"
    by (simp only: drop_drop add.commute)
  also have "drop 9 (''VERDICT: '' @ v @ '' - '' @ reason) = v @ '' - '' @ reason" by simp
  finally have d: "drop (0 + 9 + length v) (''VERDICT: '' @ v @ '' - '' @ reason) = CHR '' '' # ?l" by simp
  have line: "takeWhile (\<lambda>c. c \<noteq> CHR 0x0D \<and> c \<noteq> newline) (CHR '' '' # ?l) = CHR '' '' # ?l"
    using assms(5) by (auto simp: takeWhile_eq_all_conv)
  have t: "trim_space (CHR '' '' # ?l) = ?l" using assms(2,4) by (intro trim_spaced) (simp_all add: nonblank_def)
  have s: "strip_seqs dashes (length ?l) ?l = CHR '' '' # reason" by (simp add: dashes_def has_prefix_def strip_none)
  have r: "trim_space (CHR '' '' # reason) = reason" using assms(2-4) by (intro trim_spaced)
  have n: "\<not> 0 + 9 + length v > length (''VERDICT: '' @ v @ '' - '' @ reason)" by simp
  show ?thesis unfolding parseVerdict_def low verdict_first [OF assms(1)] option.case prod.case Let_def
    unfolding d line t s r using n by simp
qed

text \<open>Lower case of ASCII and of one letter whose lower case is a byte longer (U+023A, U+2C65).\<close>

fun stroke_lower :: "string \<Rightarrow> string" where
  "stroke_lower [] = []"
| "stroke_lower [a] = [lower_char a]"
| "stroke_lower (a # b # s) =
     (if a = CHR 0xC8 \<and> b = CHR 0xBA then CHR 0xE2 # CHR 0xB1 # CHR 0xA5 # stroke_lower s
      else lower_char a # stroke_lower (b # s))"

definition stroke_answer :: string where
  "stroke_answer = [CHR 0xC8, CHR 0xBA] @ ''VERDICT: unmet''"

lemma stroke_panics: "parseVerdict stroke_lower stroke_answer = None \<and> trim_space stroke_answer \<noteq> []"
  by code_simp

text \<open>With nothing else to object to, the judge decides.\<close>

lemma left_to_judge:
  assumes "h_state a = Some st" "GoalActive st" "si_tasks info = []" "failedChecks (ag_log a) [] = []" "\<not> vc_clean m"
    "trim_space (commandFor m env) = []"
  shows "stop_verdict m env before info a =
    and_then (judgeVeto m env info a) (\<lambda>reason b. (Some (if reason = [] then allow_stop else refuse_stop reason), b))"
proof -
  have "openTaskVeto [] = []" by (simp add: openTaskVeto_def)
  moreover have "committedBuildVeto m env before = []" "treeVeto m env before = []"
    using assms(5) by (auto simp: committedBuildVeto_def treeVeto_def sessionChanges_def split: option.split)
  moreover have "gateVeto m env a = (Some [], a)" using assms(6) by (simp add: gateVeto_def)
  moreover have "answeredOnly (ag_log a) st = Some False" using assms(2) by (simp add: answeredOnly_def QuestionTurn_def)
  moreover have "and_then s (\<lambda>reason b. if reason \<noteq> [] then (Some reason, b) else first_veto [] b) = s" for s :: veto
    by (cases s; cases "fst s") auto
  ultimately show ?thesis using assms(1-4) by (simp add: stop_verdict_def goal_checks_def failedCheckVeto_def)
qed

text \<open>C36: The verdict is searched in the answer in lower case, and its position is used in the answer itself. Where a
  lower-case letter is a byte longer, the slice can start behind the end: the module panics on an answer that says unmet,
  the registry disables it for the session, and the stop that had nothing else against it gets no veto.\<close>
theorem judge_fails_open:
  assumes "agent_ok a" "''verify'' \<notin> ag_disabled a" "h_state a = Some st" "GoalActive st" "si_goal info = pr_goal st"
    "si_tasks info = []" "failedChecks (ag_log a) [] = []" "\<not> vc_clean m" "trim_space (commandFor m env) = []"
    "ve_model env = Some complete" "\<And>r. complete r = Inr stroke_answer" "ve_lower env = stroke_lower"
  shows "verify_stop m env bs info a = (Crashed ''panic'', a) \<and>
    fst (BeforeStop [verify_module m env bs] info a) = [] \<and> ''verify'' \<in> ag_disabled (snd (BeforeStop [verify_module m env bs] info a))"
proof -
  obtain g where g: "pr_goal st = Some g" using assms(4) by (cases "pr_goal st") (simp_all add: GoalActive_def)
  have "judge m env complete (ag_log a) (gl_condition g) [] = None"
    using stroke_panics assms(11,12) by (simp add: judge_def)
  then have "judgeVeto m env info a = (None, a)" using assms g by (simp add: judgeVeto_def)
  then have "stop_verdict m env b info a = (None, a)" for b using left_to_judge [OF assms(3,4,6-9)] by simp
  then have v: "verify_stop m env bs info a = (Crashed ''panic'', a)" by (simp add: verify_stop_def)
  then have "hook_call ''verify'' ''BeforeStop'' (verify_stop m env bs info) a = (None, disable ''verify'' ''BeforeStop'' ''panic'' a)"
    using assms(2) by (simp add: hook_call_def)
  then have "BeforeStop [verify_module m env bs] info a = ([], disable ''verify'' ''BeforeStop'' ''panic'' a)"
    by (simp add: BeforeStop_def stop_step_def verify_module_def)
  with v show ?thesis using disable_disabled by simp
qed

section \<open>Samples\<close>

definition sample_goal_data :: GoalData where
  "sample_goal_data = \<lparr>gl_condition = ''c'', gl_state = ''set'', gl_reason = [], gl_source = ''client''\<rparr>"

abbreviation goal_log :: "Event list" where
  "goal_log \<equiv> sample_log [sample_session, DGoal sample_goal_data]"

lemma goal_sample:
  "payload_ok (DGoal sample_goal_data)" "validate_payload (DGoal sample_goal_data) = None"
  by (simp_all add: sample_goal_data_def validate_goal_def isSource_def)

lemma goal_log_list: "goal_log = [sample_event 0 sample_session] @ [sample_event 1 (DGoal sample_goal_data)]"
  by (simp add: sample_log_def upt_conv_Cons eval_nat_numeral)

lemma goal_log_valid: "ValidateLog goal_log = None"
proof (rule sample_log_valid)
  show "payload_ok p \<and> validate_payload p = None" if "p \<in> set [sample_session, DGoal sample_goal_data]" for p
    using that goal_sample by auto
qed auto

lemma goal_log_goal: "pr_goal (projection_of goal_log) = Some sample_goal_data"
proof -
  have "DecodeData (sample_event 1 (DGoal sample_goal_data)) = Inr (DGoal sample_goal_data)"
    using goal_sample(1) by (rule sample_event_decodes)
  from projection_of_snoc [OF this, of "[sample_event 0 sample_session]"] show ?thesis unfolding goal_log_list by simp
qed

definition sample_verify :: VerifyConfig where
  "sample_verify = \<lparr>vc_require_done = None, vc_command = [], vc_commands = [], vc_clean = False, vc_judge_model = [],
     vc_timeout = DefaultCommandTimeout, vc_judge_turns = DefaultJudgeTurns, vc_judge_max = DefaultJudgeMaxTokens\<rparr>"

definition sample_world :: "(string \<Rightarrow> string) \<Rightarrow> string \<Rightarrow> VerifyEnv" where
  "sample_world lower answer = \<lparr>ve_workspace = ''/w'', ve_git = (\<lambda>_ _. None), ve_gh = (\<lambda>_. ([], False)), ve_exec = (\<lambda>_ _ _. ([], None)),
     ve_model = Some (\<lambda>_. Inr answer), ve_abs = Some, ve_same = (\<lambda>_ _. False), ve_lower = lower\<rparr>"

definition sample_stop :: StopInfo where
  "sample_stop = \<lparr>si_goal = Some sample_goal_data, si_tasks = [], si_last = [], si_turns = 0, si_vetoes = 0\<rparr>"

lemma sample_stop_simps [simp]:
  "trim_space (commandFor sample_verify (sample_world lower answer)) = []" "\<not> vc_clean sample_verify"
  "si_tasks sample_stop = []" "si_goal sample_stop = Some sample_goal_data"
  "ve_model (sample_world lower answer) = Some (\<lambda>_. Inr answer)" "ve_lower (sample_world lower answer) = lower"
  "GoalActive (projection_of goal_log)" "h_state (logged goal_log) = Some (projection_of goal_log)"
  using goal_log_goal goal_log_valid
  by (simp_all add: sample_verify_def sample_world_def sample_stop_def commandFor_def GoalActive_def sample_goal_data_def h_state_ok)

lemma goal_log_checks: "failedChecks goal_log [] = []"
  by (simp add: failedChecks_def latest_checks_def checks_of_def goal_log_list List.map_filter_def)

lemma sample_met: "parseVerdict to_lower ''VERDICT: met'' = Some (Some (''met'', [])) \<and> trim_space ''VERDICT: met'' \<noteq> []"
  by code_simp

lemma goal_stop_judged_witness:
  "\<exists>b complete verdict. verify_stop sample_verify (sample_world to_lower ''VERDICT: met'') (\<lambda>_. None) sample_stop (logged goal_log) =
     (Completed allow_stop, b) \<and>
   ve_model (sample_world to_lower ''VERDICT: met'') = Some complete \<and> (verdict = ''met'' \<or> verdict = ''impossible'')"
proof -
  let ?env = "sample_world to_lower ''VERDICT: met''"
  have "judge sample_verify ?env (\<lambda>_. Inr ''VERDICT: met'') log c ts = Some (''met'', [])" for log c ts
    using sample_met by (simp add: judge_def)
  then have "judgeVeto sample_verify ?env sample_stop (logged goal_log) =
      (Some [], snd (handle_append (goal_event (gl_condition sample_goal_data) ''met'' []) (logged goal_log)))"
    by (simp add: judgeVeto_def judged_def)
  then have "\<exists>b. stop_verdict sample_verify ?env None sample_stop (logged goal_log) = (Some allow_stop, b)"
    using left_to_judge [of "logged goal_log" "projection_of goal_log" sample_stop sample_verify ?env None] goal_log_checks by simp
  then obtain b where b: "verify_stop sample_verify ?env (\<lambda>_. None) sample_stop (logged goal_log) = (Completed allow_stop, b)"
    by (auto simp: verify_stop_def)
  have "so_allow allow_stop" by (simp add: allow_stop_def)
  then obtain complete verdict where "ve_model ?env = Some complete" "verdict = ''met'' \<or> verdict = ''impossible''"
    using goal_stop_judged [OF b, of "projection_of goal_log"] goal_log_valid goal_log_goal by auto
  with b show ?thesis by blast
qed

definition sample_reminder :: event_data where
  "sample_reminder = DStopVeto \<lparr>sv_module = ''verify'', sv_reason = ''r''\<rparr>"

abbreviation reminded_log :: "Event list" where
  "reminded_log \<equiv> sample_log [sample_session, sample_said ''x'', sample_reminder]"

lemma reminder_sample: "payload_ok sample_reminder" "validate_payload sample_reminder = None" "payload_type sample_reminder = ''stop_veto''"
  by (simp_all add: sample_reminder_def validate_stop_veto_def)

lemma reminded_once_witness:
  "verify_stop sample_verify (sample_world to_lower []) (\<lambda>_. None) sample_stop (logged reminded_log) = (Completed allow_stop, logged reminded_log)"
proof -
  have l: "reminded_log = ([sample_event 0 sample_session] @ [sample_event 1 (sample_said ''x'')]) @ [sample_event 2 sample_reminder]"
    by (simp add: sample_log_def upt_conv_Cons eval_nat_numeral)
  have v: "ValidateLog reminded_log = None"
  proof (rule sample_log_valid)
    show "payload_ok p \<and> validate_payload p = None" if "p \<in> set [sample_session, sample_said ''x'', sample_reminder]" for p
      using that reminder_sample samples_ok by auto
  qed (auto simp: reminder_sample)
  have d: "DecodeData (sample_event 2 sample_reminder) = Inr sample_reminder" "DecodeData (sample_event 1 (sample_said ''x'')) = Inr (sample_said ''x'')"
    "DecodeData (sample_event 0 sample_session) = Inr sample_session" using reminder_sample(1) by (simp_all add: sample_event_decodes)
  have "pr_goal (projection_of reminded_log) = None"
    unfolding l projection_of_snoc [OF d(1)] projection_of_snoc [OF d(2)] projection_of_snoc [OF d(3), of "[]", simplified]
    by (simp add: sample_reminder_def sample_said_def sample_session_def projection_of_def decoded_def last_of_def List.map_filter_def
        count_message_def Let_def split: option.split)
  then have g: "\<not> GoalActive (projection_of reminded_log)" by (simp add: GoalActive_def)
  have r: "reminded (sample_event 2 sample_reminder)"
    using reminder_sample(3) d(1) by (simp add: reminded_def MustData_def) (simp add: sample_reminder_def as_defs)
  have ok: "agent_ok (logged reminded_log)" using v by simp
  have st: "h_state (logged reminded_log) = Some (projection_of reminded_log)" using h_state_ok [OF ok] unfolding logged_simps(1) .
  have log: "ag_log (logged reminded_log) = ([sample_event 0 sample_session] @ [sample_event 1 (sample_said ''x'')]) @ sample_event 2 sample_reminder # []"
    unfolding logged_simps(1) by (rule l)
  show ?thesis by (rule reminded_once [OF ok st g log r]) simp
qed

definition sample_done :: Task where
  "sample_done = \<lparr>tk_id = ''t1'', tk_title = ''a'', tk_status = ''done'', tk_done_when = [], tk_check = ''make'', tk_blocked = None,
     tk_note = [], tk_evidence = []\<rparr>"

definition task_update :: "Task list \<Rightarrow> ToolCallData" where
  "task_update ts = \<lparr>tc_call = ''c'', tc_tool = ''task.update'', tc_args = Some (JObj [(''tasks'', JArr (map enc_task ts))]), tc_source = ''model''\<rparr>"

abbreviation sample_update :: ToolCallData where
  "sample_update \<equiv> task_update [sample_done]"

lemma task_update_tasks: "tasksFrom (tc_args (task_update ts)) = Some ts"
proof -
  have "dec_slice (dec_struct task_fields) task_zero (JArr (map enc_task ts)) = Some (Some ts)"
    using dec_slice_array [where d = "dec_struct task_fields" and zero = task_zero and e = enc_task and xs = ts] by (simp add: decode_simps)
  then show ?thesis by (simp add: tasksFrom_def task_update_def dec_struct_JObj dec_obj_def dec_member_def field_for_def)
qed

lemma sample_named: "TaskIDs [] [sample_done] = Inr [sample_done]"
  by code_simp

lemma done_needs_check_witness:
  "\<exists>b. verify_gate sample_verify (sample_world to_lower []) sample_update sample_agent = (Completed allow, b) \<and>
     check_passed (sample_world to_lower []) (ag_log sample_agent) (ag_log b) sample_done"
proof -
  let ?env = "sample_world to_lower []" and ?st = "projection_of (ag_log sample_agent)"
  have st: "h_state sample_agent = Some ?st" "pr_tasks ?st = []" "pr_goal ?st = None"
    using sample_agent_projection sample_agent_ok by (simp_all add: h_state_ok)
  have named: "named_tasks ?st [sample_done] = [sample_done]" by (simp add: named_tasks_def st(2) sample_named)
  have must: "must_pass (byID (pr_tasks ?st)) sample_done" unfolding must_pass_def st(2) by code_simp
  have tool: "tc_tool sample_update = ''task.update''" by (simp add: task_update_def)
  have pass: "snd (ve_exec ?env 0 (ve_workspace ?env) (tk_check sample_done)) = None" by (simp add: sample_world_def)
  then obtain b where "run_checks ?env (byID (pr_tasks ?st)) 0 [sample_done] sample_agent = (allow, b)" using must by (simp add: Let_def)
  moreover have "\<not> requireDoneWhen sample_verify ?st" using st(3) by (simp add: requireDoneWhen_def sample_verify_def GoalActive_def)
  ultimately have g: "verify_gate sample_verify ?env sample_update sample_agent = (Completed allow, b)"
    using st(1) tool task_update_tasks named by (simp add: verify_gate_def Let_def del: run_checks.simps)
  have "vd_decision allow = Allow" by (simp add: allow_def)
  moreover have "sample_done \<in> set (named_tasks ?st [sample_done])" using named by simp
  ultimately show ?thesis
    using g done_needs_check [OF g _ sample_agent_ok tool task_update_tasks st(1) _ must] sample_agent_writes by blast
qed

definition sample_started :: Task where
  "sample_started = sample_done\<lparr>tk_status := ''in_progress'', tk_blocked := Some []\<rparr>"

definition sample_tasks :: TasksData where
  "sample_tasks = \<lparr>td_revision = 1, td_source = ''model'', td_tasks = [sample_started]\<rparr>"

abbreviation tasks_log :: "Event list" where
  "tasks_log \<equiv> sample_log [sample_session, DTasks sample_tasks]"

lemma tasks_sample: "payload_ok (DTasks sample_tasks)" "validate_payload (DTasks sample_tasks) = None"
  by (simp_all add: sample_tasks_def sample_started_def sample_done_def tasks_ok_def validate_tasks_def isSource_def isTaskStatus_def
      int64_ok_def int64_min_def int64_max_def)

lemma tasks_log_facts: "ValidateLog tasks_log = None" "pr_tasks (projection_of tasks_log) = [sample_started]"
proof -
  show "ValidateLog tasks_log = None"
  proof (rule sample_log_valid)
    show "payload_ok p \<and> validate_payload p = None" if "p \<in> set [sample_session, DTasks sample_tasks]" for p
      using that tasks_sample by auto
  qed auto
  have "DecodeData (sample_event 1 (DTasks sample_tasks)) = Inr (DTasks sample_tasks)"
    using tasks_sample(1) by (rule sample_event_decodes)
  moreover have "tasks_log = [sample_event 0 sample_session] @ [sample_event 1 (DTasks sample_tasks)]"
    by (simp add: sample_log_def upt_conv_Cons eval_nat_numeral)
  ultimately show "pr_tasks (projection_of tasks_log) = [sample_started]"
    using projection_of_snoc [of "sample_event 1 (DTasks sample_tasks)" "DTasks sample_tasks" "[sample_event 0 sample_session]"]
    by (simp add: sample_tasks_def)
qed

lemma omitted_check_skips_witness:
  "verify_gate sample_verify (sample_world to_lower []) (task_update [sample_done\<lparr>tk_check := []\<rparr>]) (logged tasks_log) = (Completed allow, logged tasks_log) \<and>
   (\<exists>d t'. Merge sample_tasks [sample_done\<lparr>tk_check := []\<rparr>] tasks_log ''model'' = Inr d \<and> td_tasks d = [t'] \<and> tk_id t' = tk_id sample_started \<and>
      tk_status t' = ''done'' \<and> tk_check t' = tk_check sample_started)"
proof -
  let ?t = "sample_done\<lparr>tk_check := []\<rparr>"
  have ok: "agent_ok (logged tasks_log)" using tasks_log_facts(1) by simp
  have st: "h_state (logged tasks_log) = Some (projection_of tasks_log)" using h_state_ok [OF ok] unfolding logged_simps(1) .
  have tool: "tc_tool (task_update [?t]) = ''task.update''" by (simp add: task_update_def)
  have prev: "td_tasks sample_tasks = [sample_started]" by (simp add: sample_tasks_def)
  have task: "tk_id sample_started \<noteq> []" "tk_check sample_started \<noteq> []" "tk_id ?t = tk_id sample_started" "tk_status ?t = ''done''" "tk_check ?t = []"
    by (simp_all add: sample_started_def sample_done_def)
  have title: "trim_space (tk_title ?t) \<noteq> []" by code_simp
  show ?thesis
    by (rule omitted_check_skips [OF st tasks_log_facts(2) prev task(1,2) tool task_update_tasks task(3-5) title])
qed

lemma judge_fails_open_witness:
  "fst (BeforeStop [verify_module sample_verify (sample_world stroke_lower stroke_answer) (\<lambda>_. None)] sample_stop (logged goal_log)) = []"
proof -
  have "''verify'' \<notin> ag_disabled (logged goal_log)" by (simp add: logged_def sample_agent_def)
  then show ?thesis
    using judge_fails_open [of "logged goal_log" "projection_of goal_log" sample_stop sample_verify "sample_world stroke_lower stroke_answer"
        "\<lambda>_. Inr stroke_answer" "\<lambda>_. None"] goal_log_valid goal_log_goal goal_log_checks by simp
qed

lemma verdict_read_witness:
  "parseVerdict to_lower ''VERDICT: unmet - no tests.'' = Some (Some (''unmet'', ''no tests.''))"
  using verdict_read [of "''unmet''" "''no tests.''"] by (simp add: nonblank_def)

end
