(* ===== verification/Api_Requests.thy ===== *)
theory Api_Requests
  imports Module_Registry
begin

text \<open>
  Requests of the daemon to its clients, subscriptions and connections
  (\<open>daemon/api/requests.go\<close>, \<open>subscriptions.go\<close>, \<open>conn.go\<close>, and the dispatch of
  \<open>handler.go\<close>). The goroutines of the server take turns: \<open>api_step\<close> is one piece of one of them
  between two locks or channel operations, so every order the locks allow is a run.
  \<^item> a connection is its queue of messages, what its writer has put on the wire, and whether it
    was told to quit (\<open>Conn\<close>); a write takes its two selects as one step;
  \<^item> \<open>Handler\<close> holds the connections by number, the fan-outs by session, the requests made so far
    by id, and which of the ids \<open>h.pending\<close> still lists; ids are fresh, as ULIDs are;
  \<^item> a call of \<open>ask\<close> is in one of the phases \<open>ask_phase\<close>, a client message that was recognised as
    a response in one of the phases of \<open>responder_phase\<close>.
  The events a fan-out forwards are those \<open>Session.Subscribe\<close> delivers; what a closed or cancelled
  channel holds is modelled there. Not modelled: \<open>flush\<close>, the notifications of a phone, logging.
\<close>

section \<open>One connection\<close>

type_synonym raw = "json option"

record jsonrpcRequest =
  rq_id :: string
  rq_method :: string
  rq_params :: json

record jsonrpcResponse =
  rs_id :: json
  rs_result :: "json option"
  rs_error :: "(int \<times> string) option"

datatype message = MRequest jsonrpcRequest | MResponse jsonrpcResponse | MNote string json

definition errorResp :: "json \<Rightarrow> int \<Rightarrow> string \<Rightarrow> jsonrpcResponse" where
  "errorResp i code msg = \<lparr>rs_id = i, rs_result = None, rs_error = Some (code, msg)\<rparr>"

definition sendQueue :: nat where "sendQueue = 1024"

definition errConnClosed :: err where "errConnClosed = ''connection closed''"
definition errTooSlow :: err where "errTooSlow = ''connection fell behind and was dropped''"

record Conn =
  cn_out :: "message list"
  cn_quit :: bool
  cn_done :: bool
  cn_closed :: bool
  cn_serving :: bool
  cn_wire :: "message list"

definition newConn :: Conn where
  "newConn = \<lparr>cn_out = [], cn_quit = False, cn_done = False, cn_closed = False, cn_serving = True, cn_wire = []\<rparr>"

definition conn_drop :: "Conn \<Rightarrow> Conn" where
  "conn_drop c = c\<lparr>cn_quit := True, cn_closed := True\<rparr>"

definition conn_write :: "message \<Rightarrow> Conn \<Rightarrow> err option \<times> Conn" where
  "conn_write v c =
     (if cn_quit c then (Some errConnClosed, c)
      else if length (cn_out c) < sendQueue then (None, c\<lparr>cn_out := cn_out c @ [v]\<rparr>)
      else (Some errTooSlow, conn_drop c))"

definition conn_notify :: "string \<Rightarrow> json \<Rightarrow> Conn \<Rightarrow> Conn" where
  "conn_notify meth params c = snd (conn_write (MNote meth params) c)"

definition conn_send :: "bool \<Rightarrow> message \<Rightarrow> Conn \<Rightarrow> bool \<times> Conn" where
  "conn_send ok v c = (if ok then (True, c\<lparr>cn_wire := cn_wire c @ [v]\<rparr>) else (False, conn_drop c))"

text \<open>One round of the writer; \<open>ok\<close> says whether \<open>WriteJSON\<close> succeeds.\<close>

definition writeLoop :: "bool \<Rightarrow> Conn \<Rightarrow> Conn" where
  "writeLoop ok c =
     (if cn_done c then c
      else (case cn_out c of
              v # vs \<Rightarrow>
                (case conn_send ok v (c\<lparr>cn_out := vs\<rparr>) of
                   (True, c') \<Rightarrow> c'
                 | (False, c') \<Rightarrow> c'\<lparr>cn_done := True\<rparr>)
            | [] \<Rightarrow> if cn_quit c then c\<lparr>cn_done := True\<rparr> else c))"

definition conn_finish :: "Conn \<Rightarrow> Conn" where
  "conn_finish c = c\<lparr>cn_quit := True, cn_serving := False\<rparr>"

section \<open>The state\<close>

datatype request_state = requestOpen | requestAnswered | requestTimedOut

record pendingRequest =
  pq_session :: string
  pq_answer :: "raw option"
  pq_req :: jsonrpcRequest
  pq_state :: request_state

record Fanout =
  fo_id :: nat
  fo_conns :: "nat list"

datatype ask_phase = Asking | Expired err | Returned "err + raw"

datatype responder_phase = Looked | Won | Answered | Refused | Revived

record Responder =
  re_conn :: nat
  re_id :: string
  re_raw :: raw
  re_phase :: responder_phase

record Handler =
  hd_conns :: "nat \<Rightarrow> Conn"
  hd_fanouts :: "string \<rightharpoonup> Fanout"
  hd_made :: nat
  hd_requests :: "string \<rightharpoonup> pendingRequest"
  hd_pending :: "string list"
  hd_asks :: "string \<rightharpoonup> ask_phase"
  hd_responders :: "nat \<rightharpoonup> Responder"
  hd_resumed :: "string list"

definition NewHandler :: Handler where
  "NewHandler =
     \<lparr>hd_conns = (\<lambda>_. newConn), hd_fanouts = Map.empty, hd_made = 0, hd_requests = Map.empty,
      hd_pending = [], hd_asks = Map.empty, hd_responders = Map.empty, hd_resumed = []\<rparr>"

definition on_conn :: "nat \<Rightarrow> (Conn \<Rightarrow> Conn) \<Rightarrow> Handler \<Rightarrow> Handler" where
  "on_conn k f h = h\<lparr>hd_conns := (hd_conns h)(k := f (hd_conns h k))\<rparr>"

definition write_to :: "message \<Rightarrow> Handler \<Rightarrow> nat \<Rightarrow> Handler" where
  "write_to m h k = on_conn k (\<lambda>c. snd (conn_write m c)) h"

section \<open>Subscriptions\<close>

datatype get_result = Found | NotFound | GetError err

definition getSession :: "string \<Rightarrow> get_result \<Rightarrow> RPCError option" where
  "getSession i got =
     (if trim_space i = [] then Some (NewRPCError (-32602) ''session_id is required'')
      else (case got of
              Found \<Rightarrow> None
            | NotFound \<Rightarrow> Some (NewRPCError (-32001) i)
            | GetError e \<Rightarrow> Some (NewRPCError (-32603) e)))"

definition subscribers :: "string \<Rightarrow> Handler \<Rightarrow> nat list" where
  "subscribers i h = (case hd_fanouts h i of None \<Rightarrow> [] | Some f \<Rightarrow> fo_conns f)"

definition subscribe :: "string \<Rightarrow> get_result \<Rightarrow> nat \<Rightarrow> Handler \<Rightarrow> RPCError option \<times> Handler" where
  "subscribe i got k h =
     (case getSession i got of
        Some e \<Rightarrow> (Some e, h)
      | None \<Rightarrow>
          (None,
           case hd_fanouts h i of
             Some f \<Rightarrow> h\<lparr>hd_fanouts := (hd_fanouts h)(i \<mapsto> f\<lparr>fo_conns := List.insert k (fo_conns f)\<rparr>)\<rparr>
           | None \<Rightarrow> h\<lparr>hd_fanouts := (hd_fanouts h)(i \<mapsto> \<lparr>fo_id = hd_made h, fo_conns = [k]\<rparr>),
                       hd_made := hd_made h + 1\<rparr>))"

definition drop_from :: "nat \<Rightarrow> Fanout \<Rightarrow> Fanout option" where
  "drop_from k f =
     (let ks = removeAll k (fo_conns f) in if ks = [] then None else Some (f\<lparr>fo_conns := ks\<rparr>))"

definition dropLocked :: "string \<Rightarrow> nat \<Rightarrow> Handler \<Rightarrow> Handler" where
  "dropLocked i k h =
     (case hd_fanouts h i of
        None \<Rightarrow> h
      | Some f \<Rightarrow> h\<lparr>hd_fanouts := (hd_fanouts h)(i := drop_from k f)\<rparr>)"

definition unsubscribe :: "string \<Rightarrow> nat \<Rightarrow> Handler \<Rightarrow> Handler" where
  "unsubscribe i k h = dropLocked i k h"

definition dropConn :: "nat \<Rightarrow> Handler \<Rightarrow> Handler" where
  "dropConn k h = h\<lparr>hd_fanouts := (\<lambda>i. Option.bind (hd_fanouts h i) (drop_from k))\<rparr>"

text \<open>One event through a fan-out, and the end of a fan-out whose channel the store closed.\<close>

definition pump :: "string \<Rightarrow> json \<Rightarrow> Handler \<Rightarrow> Handler" where
  "pump i ev h =
     foldl (write_to (MNote ''rho.session.event'' (JObj [(''event'', ev), (''session_id'', JStr i)]))) h (subscribers i h)"

definition drop_all :: "nat list \<Rightarrow> Handler \<Rightarrow> Handler" where
  "drop_all ks h = foldl (\<lambda>h k. on_conn k conn_drop h) h ks"

definition pumpEnded :: "string \<Rightarrow> nat \<Rightarrow> get_result \<Rightarrow> Handler \<Rightarrow> Handler" where
  "pumpEnded i n got h =
     (case hd_fanouts h i of
        None \<Rightarrow> h
      | Some f \<Rightarrow>
          if fo_id f \<noteq> n then h
          else let h1 = h\<lparr>hd_fanouts := (hd_fanouts h)(i := None)\<rparr> in
            if getSession i got \<noteq> None then h1 else drop_all (fo_conns f) h1)"

definition delta_note :: "string \<Rightarrow> string \<Rightarrow> string \<Rightarrow> string \<Rightarrow> Handler \<Rightarrow> Handler" where
  "delta_note meth i turn_id t h =
     foldl (write_to (MNote meth (JObj [(''session_id'', JStr i), (''text'', JStr t), (''turn_id'', JStr turn_id)])))
       h (subscribers i h)"

definition Deltas :: "string \<Rightarrow> string \<Rightarrow> string \<Rightarrow> Handler \<Rightarrow> Handler" where
  "Deltas = delta_note ''rho.session.delta''"

definition Thinking_sink :: "string \<Rightarrow> string \<Rightarrow> string \<Rightarrow> Handler \<Rightarrow> Handler" where
  "Thinking_sink = delta_note ''rho.session.thinking''"

section \<open>Requests\<close>

definition isOpen :: "pendingRequest \<Rightarrow> bool" where
  "isOpen p \<longleftrightarrow> pq_state p = requestOpen"

definition resolve :: "pendingRequest \<Rightarrow> request_state \<times> pendingRequest" where
  "resolve p =
     (pq_state p, if pq_state p = requestOpen then p\<lparr>pq_state := requestAnswered\<rparr> else p)"

definition markTimedOut :: "pendingRequest \<Rightarrow> pendingRequest" where
  "markTimedOut p = (if pq_state p = requestOpen then p\<lparr>pq_state := requestTimedOut\<rparr> else p)"

text \<open>A Go map is written with its keys sorted; \<open>session_id\<close> and \<open>request_id\<close> replace what the
  caller put there.\<close>

definition ask_params :: "string \<Rightarrow> string \<Rightarrow> (string \<times> json) list \<Rightarrow> json" where
  "ask_params i rid ps =
     JObj (sort_key fst
       (filter (\<lambda>p. fst p \<notin> {''session_id'', ''request_id''}) ps @
        [(''session_id'', JStr i), (''request_id'', JStr rid)]))"

definition set_ask :: "string \<Rightarrow> ask_phase \<Rightarrow> Handler \<Rightarrow> Handler" where
  "set_ask rid a h = h\<lparr>hd_asks := (hd_asks h)(rid \<mapsto> a)\<rparr>"

definition set_request :: "string \<Rightarrow> pendingRequest \<Rightarrow> Handler \<Rightarrow> Handler" where
  "set_request rid p h = h\<lparr>hd_requests := (hd_requests h)(rid \<mapsto> p)\<rparr>"

text \<open>\<open>ask\<close> up to its select: refused, or registered and sent to whoever is subscribed.\<close>

definition ask :: "string \<Rightarrow> string \<Rightarrow> string \<Rightarrow> (string \<times> json) list \<Rightarrow> bool \<Rightarrow> Handler \<Rightarrow> Handler" where
  "ask rid i meth ps waitForAttach h =
     (let req = \<lparr>rq_id = rid, rq_method = meth, rq_params = ask_params i rid ps\<rparr>;
          subs = subscribers i h
      in if subs = [] \<and> \<not> waitForAttach
         then set_ask rid (Returned (Inl (''no client is attached to session '' @ i))) h
         else foldl (write_to (MRequest req))
                (set_ask rid Asking
                   (set_request rid \<lparr>pq_session = i, pq_answer = None, pq_req = req, pq_state = requestOpen\<rparr>
                      (h\<lparr>hd_pending := hd_pending h @ [rid]\<rparr>))) subs)"

text \<open>The three ways out of the select. \<open>within\<close> is the printed timeout, \<open>ctx\<close> the error of a
  context that ended.\<close>

definition ask_take :: "string \<Rightarrow> Handler \<Rightarrow> Handler option" where
  "ask_take rid h =
     (case (hd_asks h rid, hd_requests h rid) of
        (Some Asking, Some p) \<Rightarrow>
          (case pq_answer p of
             None \<Rightarrow> None
           | Some r \<Rightarrow> Some (set_ask rid (Returned (Inr r)) (set_request rid (p\<lparr>pq_answer := None\<rparr>) h)))
      | _ \<Rightarrow> None)"

definition ask_expire :: "string \<Rightarrow> string \<Rightarrow> err option \<Rightarrow> Handler \<Rightarrow> Handler option" where
  "ask_expire rid within ctx h =
     (case (hd_asks h rid, hd_requests h rid) of
        (Some Asking, Some p) \<Rightarrow>
          Some (set_ask rid
            (Expired (case ctx of
                        None \<Rightarrow> ''no client answered '' @ rq_method (pq_req p) @ '' within '' @ within
                      | Some e \<Rightarrow> e)) h)
      | _ \<Rightarrow> None)"

definition ask_mark :: "string \<Rightarrow> Handler \<Rightarrow> Handler option" where
  "ask_mark rid h =
     (case (hd_asks h rid, hd_requests h rid) of
        (Some (Expired e), Some p) \<Rightarrow> Some (set_ask rid (Returned (Inl e)) (set_request rid (markTimedOut p) h))
      | _ \<Rightarrow> None)"

text \<open>The entry is dropped some time after the call returned.\<close>

definition ask_forget :: "string \<Rightarrow> Handler \<Rightarrow> Handler option" where
  "ask_forget rid h =
     (case hd_asks h rid of
        Some (Returned _) \<Rightarrow> Some (h\<lparr>hd_pending := removeAll rid (hd_pending h)\<rparr>)
      | _ \<Rightarrow> None)"

text \<open>A message without a method: the id has to be a string that \<open>h.pending\<close> lists.\<close>

definition route_lookup :: "raw \<Rightarrow> Handler \<Rightarrow> string option" where
  "route_lookup mid h =
     (case mid of
        Some (JStr i) \<Rightarrow> if i \<in> set (hd_pending h) then Some i else None
      | _ \<Rightarrow> None)"

definition set_phase :: "nat \<Rightarrow> Responder \<Rightarrow> responder_phase \<Rightarrow> Handler \<Rightarrow> Handler" where
  "set_phase t r ph h = h\<lparr>hd_responders := (hd_responders h)(t \<mapsto> r\<lparr>re_phase := ph\<rparr>)\<rparr>"

definition resumeAfterLateAnswer :: "bool \<Rightarrow> string \<Rightarrow> Handler \<Rightarrow> Handler" where
  "resumeAfterLateAnswer resumes i h = (if resumes then h\<lparr>hd_resumed := hd_resumed h @ [i]\<rparr> else h)"

text \<open>\<open>resumes\<close> says whether \<open>Manager.Resume\<close> succeeds.\<close>

definition routeResponse :: "nat \<Rightarrow> bool \<Rightarrow> Handler \<Rightarrow> Handler option" where
  "routeResponse t resumes h =
     (case hd_responders h t of
        Some r \<Rightarrow>
          (case (re_phase r, hd_requests h (re_id r)) of
             (Looked, Some p) \<Rightarrow>
               (case resolve p of
                  (was, p') \<Rightarrow>
                    let h1 = set_request (re_id r) p' h in
                    Some (case was of
                            requestOpen \<Rightarrow> set_phase t r Won h1
                          | requestAnswered \<Rightarrow>
                              write_to (MResponse (errorResp (JStr (re_id r)) (-32004) ''rho_already_resolved''))
                                (set_phase t r Refused h1) (re_conn r)
                          | requestTimedOut \<Rightarrow>
                              resumeAfterLateAnswer resumes (pq_session p) (set_phase t r Revived h1)))
           | _ \<Rightarrow> None)
      | None \<Rightarrow> None)"

text \<open>The winner puts its answer into the channel, which has room for one.\<close>

definition resolve_send :: "nat \<Rightarrow> Handler \<Rightarrow> Handler option" where
  "resolve_send t h =
     (case hd_responders h t of
        Some r \<Rightarrow>
          (case (re_phase r, hd_requests h (re_id r)) of
             (Won, Some p) \<Rightarrow>
               (case pq_answer p of
                  Some _ \<Rightarrow> None
                | None \<Rightarrow> Some (set_phase t r Answered (set_request (re_id r) (p\<lparr>pq_answer := Some (re_raw r)\<rparr>) h)))
           | _ \<Rightarrow> None)
      | None \<Rightarrow> None)"

definition open_requests :: "string \<Rightarrow> Handler \<Rightarrow> string list" where
  "open_requests i h =
     sort (filter (\<lambda>rid. case hd_requests h rid of
                           Some p \<Rightarrow> pq_session p = i \<and> isOpen p | None \<Rightarrow> False) (hd_pending h))"

definition subscribeAndCatchUp :: "string \<Rightarrow> get_result \<Rightarrow> nat \<Rightarrow> Handler \<Rightarrow> RPCError option \<times> Handler" where
  "subscribeAndCatchUp i got k h =
     (case subscribe i got k h of
        (Some e, h1) \<Rightarrow> (Some e, h1)
      | (None, h1) \<Rightarrow>
          (None, foldl (\<lambda>h rid. write_to (MRequest (pq_req (the (hd_requests h rid)))) h k) h1 (open_requests i h1)))"

section \<open>What the callers make of an answer\<close>

record PermissionReply =
  pr_verdict :: string
  pr_why :: string

definition permission_reply_fields :: "PermissionReply fields" where
  "permission_reply_fields =
     [(''verdict'', fld pr_verdict pr_verdict_update dec_str), (''reason'', fld pr_why pr_why_update dec_str)]"

definition permission_params :: "ToolCallData \<Rightarrow> string \<Rightarrow> string \<Rightarrow> (string \<times> json) list" where
  "permission_params call summary risk =
     [(''tool'', JStr (tc_tool call)), (''summary'', JStr summary), (''risk'', JStr risk)]"

text \<open>\<open>e\<close> is the text of the library's decoding error.\<close>

definition Permission :: "err \<Rightarrow> err + raw \<Rightarrow> bool \<times> string \<times> bool" where
  "Permission e result =
     (case result of
        Inl why \<Rightarrow> (False, why, False)
      | Inr r \<Rightarrow>
          (case Option.bind r (dec_struct permission_reply_fields \<lparr>pr_verdict = [], pr_why = []\<rparr>) of
             None \<Rightarrow> (False, ''unreadable verdict: '' @ e, False)
           | Some reply \<Rightarrow>
               if pr_verdict reply \<noteq> ''approve''
               then (False, if pr_why reply = [] then ''denied by the client'' else pr_why reply, True)
               else (True, pr_why reply, True)))"

definition ui_params :: "string \<Rightarrow> string list \<Rightarrow> (string \<times> json) list" where
  "ui_params question choices =
     (''question'', JStr question) # (if choices \<noteq> [] then [(''choices'', enc_strs choices)] else [])"

definition ui_Ask :: "err \<Rightarrow> err + raw \<Rightarrow> err + string" where
  "ui_Ask e result =
     (case result of
        Inl why \<Rightarrow> Inl why
      | Inr r \<Rightarrow>
          (case Option.bind r (dec_struct [(''answer'', fld (\<lambda>s. s) (\<lambda>f s. f s) dec_str)] []) of
             None \<Rightarrow> Inl (''unreadable answer: '' @ e)
           | Some s \<Rightarrow> Inr s))"

section \<open>Dispatch\<close>

record CallMessage =
  cm_jsonrpc :: string
  cm_id :: json
  cm_method :: string
  cm_params :: raw

definition call_fields :: "CallMessage fields" where
  "call_fields =
     [(''jsonrpc'', fld cm_jsonrpc cm_jsonrpc_update dec_str), (''id'', fld cm_id cm_id_update (\<lambda>_ v. Some v)),
      (''method'', fld cm_method cm_method_update dec_str), (''params'', raw_fld cm_params_update)]"

definition decodeCall :: "json \<Rightarrow> CallMessage option" where
  "decodeCall v = dec_struct call_fields \<lparr>cm_jsonrpc = [], cm_id = JNull, cm_method = [], cm_params = None\<rparr> v"

type_synonym 's Method = "raw \<Rightarrow> 's \<Rightarrow> (RPCError + json) \<times> 's"

definition dispatch :: "(string \<rightharpoonup> 's Method) \<Rightarrow> json \<Rightarrow> 's \<Rightarrow> jsonrpcResponse option \<times> 's" where
  "dispatch methods v s =
     (case decodeCall v of
        None \<Rightarrow> (Some (errorResp JNull (-32700) ''parse error''), s)
      | Some c \<Rightarrow>
          if cm_jsonrpc c \<noteq> ''2.0''
          then (Some (errorResp (cm_id c) (-32600) (''jsonrpc must be '' @ quote_str ''2.0'')), s)
          else if cm_method c = [] then (Some (errorResp (cm_id c) (-32600) ''method is required''), s)
          else (case methods (cm_method c) of
                  None \<Rightarrow> (Some (errorResp (cm_id c) (-32601) (cm_method c)), s)
                | Some f \<Rightarrow>
                    (case f (cm_params c) s of
                       (res, s') \<Rightarrow>
                         (if cm_id c = JNull then None
                          else Some (case res of
                                       Inl e \<Rightarrow> errorResp (cm_id c) (rpc_code e) (rpc_message e)
                                     | Inr x \<Rightarrow> \<lparr>rs_id = cm_id c, rs_result = Some x, rs_error = None\<rparr>), s'))))"

section \<open>Runs of the server\<close>

text \<open>
  \<^item> \<open>asked\<close>: a module or the turn loop asks, with an id made for it;
  \<^item> \<open>taken\<close>, \<open>expired\<close>, \<open>marked\<close>, \<open>forgotten\<close>: that call's way through its select and behind it;
  \<^item> \<open>heard\<close>: the read loop of a connection recognises a response, and goroutine \<open>t\<close> goes on with it
    (\<open>resolved\<close>, \<open>sent\<close>);
  \<^item> the rest: subscriptions, fan-outs, writers, and the end of a connection, which comes after
    all its calls have been answered.
\<close>

inductive api_step :: "Handler \<Rightarrow> Handler \<Rightarrow> bool" where
  asked: "hd_asks h rid = None \<Longrightarrow> api_step h (ask rid i meth ps wait h)"
| taken: "ask_take rid h = Some h' \<Longrightarrow> api_step h h'"
| expired: "ask_expire rid within ctx h = Some h' \<Longrightarrow> api_step h h'"
| marked: "ask_mark rid h = Some h' \<Longrightarrow> api_step h h'"
| forgotten: "ask_forget rid h = Some h' \<Longrightarrow> api_step h h'"
| heard: "hd_responders h t = None \<Longrightarrow> route_lookup mid h = Some rid \<Longrightarrow>
    api_step h (h\<lparr>hd_responders := (hd_responders h)(t \<mapsto> \<lparr>re_conn = k, re_id = rid, re_raw = r, re_phase = Looked\<rparr>)\<rparr>)"
| resolved: "routeResponse t resumes h = Some h' \<Longrightarrow> api_step h h'"
| sent: "resolve_send t h = Some h' \<Longrightarrow> api_step h h'"
| subscribed: "cn_serving (hd_conns h k) \<Longrightarrow> api_step h (snd (subscribeAndCatchUp i got k h))"
| unsubscribed: "api_step h (unsubscribe i k h)"
| pumped: "api_step h (pump i ev h)"
| streamed: "api_step h (delta_note meth i turn_id words h)"
| pump_ended: "api_step h (pumpEnded i n got h)"
| replied: "api_step h (write_to (MResponse resp) h k)"
| written: "api_step h (on_conn k (writeLoop ok) h)"
| left: "api_step h (on_conn k conn_finish (dropConn k h))"

inductive api_reach :: "Handler \<Rightarrow> bool" where
  started: "api_reach NewHandler"
| stepped: "api_reach h \<Longrightarrow> api_step h h' \<Longrightarrow> api_reach h'"

section \<open>What each operation leaves alone\<close>

lemma write_to_frame [simp]:
  "hd_fanouts (write_to m h k) = hd_fanouts h" "hd_requests (write_to m h k) = hd_requests h"
  "hd_pending (write_to m h k) = hd_pending h" "hd_asks (write_to m h k) = hd_asks h"
  "hd_responders (write_to m h k) = hd_responders h" "hd_resumed (write_to m h k) = hd_resumed h"
  by (simp_all add: write_to_def on_conn_def)

lemma on_conn_frame [simp]:
  "hd_fanouts (on_conn k f h) = hd_fanouts h" "hd_requests (on_conn k f h) = hd_requests h"
  "hd_pending (on_conn k f h) = hd_pending h" "hd_asks (on_conn k f h) = hd_asks h"
  "hd_responders (on_conn k f h) = hd_responders h" "hd_resumed (on_conn k f h) = hd_resumed h"
  "hd_conns (on_conn k f h) = (hd_conns h)(k := f (hd_conns h k))"
  by (simp_all add: on_conn_def)

lemma write_all_frame [simp]:
  "hd_fanouts (foldl (write_to m) h ks) = hd_fanouts h" "hd_requests (foldl (write_to m) h ks) = hd_requests h"
  "hd_pending (foldl (write_to m) h ks) = hd_pending h" "hd_asks (foldl (write_to m) h ks) = hd_asks h"
  "hd_responders (foldl (write_to m) h ks) = hd_responders h" "hd_resumed (foldl (write_to m) h ks) = hd_resumed h"
  by (induction ks arbitrary: h) simp_all

lemma drop_all_frame [simp]:
  "hd_fanouts (drop_all ks h) = hd_fanouts h" "hd_requests (drop_all ks h) = hd_requests h"
  "hd_pending (drop_all ks h) = hd_pending h" "hd_asks (drop_all ks h) = hd_asks h"
  "hd_responders (drop_all ks h) = hd_responders h" "hd_resumed (drop_all ks h) = hd_resumed h"
  unfolding drop_all_def by (induction ks arbitrary: h) simp_all

definition send_open :: "nat \<Rightarrow> Handler \<Rightarrow> string list \<Rightarrow> Handler" where
  "send_open k h rids = foldl (\<lambda>h rid. write_to (MRequest (pq_req (the (hd_requests h rid)))) h k) h rids"

lemma send_open_frame [simp]:
  "hd_fanouts (send_open k h rids) = hd_fanouts h" "hd_requests (send_open k h rids) = hd_requests h"
  "hd_pending (send_open k h rids) = hd_pending h" "hd_asks (send_open k h rids) = hd_asks h"
  "hd_responders (send_open k h rids) = hd_responders h" "hd_resumed (send_open k h rids) = hd_resumed h"
  unfolding send_open_def by (induction rids arbitrary: h) simp_all

text \<open>The protocol of requests concerns three fields: what was asked, the calls that wait, the responders.\<close>

definition same_requests :: "Handler \<Rightarrow> Handler \<Rightarrow> bool" where
  "same_requests h h' \<longleftrightarrow> hd_requests h' = hd_requests h \<and> hd_asks h' = hd_asks h \<and>
     hd_responders h' = hd_responders h \<and> set (hd_pending h') \<subseteq> set (hd_pending h)"

section \<open>The invariant of the requests\<close>

definition waiting :: "ask_phase option \<Rightarrow> bool" where
  "waiting a \<longleftrightarrow> a = Some Asking \<or> (\<exists>e. a = Some (Expired e))"

definition failed :: "ask_phase option \<Rightarrow> bool" where
  "failed a \<longleftrightarrow> (\<exists>e. a = Some (Returned (Inl e)))"

definition answers :: "Handler \<Rightarrow> string \<Rightarrow> nat \<Rightarrow> Responder \<Rightarrow> bool" where
  "answers h rid t r \<longleftrightarrow> hd_responders h t = Some r \<and> re_id r = rid"

definition wins :: "Handler \<Rightarrow> string \<Rightarrow> nat \<Rightarrow> Responder \<Rightarrow> bool" where
  "wins h rid t r \<longleftrightarrow> answers h rid t r \<and> re_phase r \<in> {Won, Answered} \<and>
     (\<forall>t' r'. t' \<noteq> t \<longrightarrow> answers h rid t' r' \<longrightarrow> re_phase r' \<in> {Looked, Refused})"

definition request_ok :: "Handler \<Rightarrow> string \<Rightarrow> pendingRequest \<Rightarrow> bool" where
  "request_ok h rid p \<longleftrightarrow>
     (case pq_state p of
        requestOpen \<Rightarrow> pq_answer p = None \<and> waiting (hd_asks h rid) \<and> (\<forall>t r. answers h rid t r \<longrightarrow> re_phase r = Looked)
      | requestTimedOut \<Rightarrow> pq_answer p = None \<and> failed (hd_asks h rid) \<and>
          (\<forall>t r. answers h rid t r \<longrightarrow> re_phase r \<in> {Looked, Revived})
      | requestAnswered \<Rightarrow>
          (\<exists>t r. wins h rid t r \<and>
             (if re_phase r = Won then pq_answer p = None \<and> (waiting (hd_asks h rid) \<or> failed (hd_asks h rid))
              else pq_answer p = Some (re_raw r) \<and> (waiting (hd_asks h rid) \<or> failed (hd_asks h rid)) \<or>
                   pq_answer p = None \<and> hd_asks h rid = Some (Returned (Inr (re_raw r))))))"

definition unasked :: "Handler \<Rightarrow> string \<Rightarrow> bool" where
  "unasked h rid \<longleftrightarrow> (hd_asks h rid = None \<or> failed (hd_asks h rid)) \<and> rid \<notin> set (hd_pending h) \<and>
     (\<forall>t r. \<not> answers h rid t r)"

definition requests_ok :: "Handler \<Rightarrow> bool" where
  "requests_ok h \<longleftrightarrow>
     (\<forall>rid. case hd_requests h rid of None \<Rightarrow> unasked h rid | Some p \<Rightarrow> request_ok h rid p)"

lemma requests_okI:
  assumes "\<And>rid. hd_requests h rid = None \<Longrightarrow> unasked h rid"
    and "\<And>rid p. hd_requests h rid = Some p \<Longrightarrow> request_ok h rid p"
  shows "requests_ok h"
  using assms by (simp add: requests_ok_def split: option.split)

lemma requests_ok_None: "requests_ok h \<Longrightarrow> hd_requests h rid = None \<Longrightarrow> unasked h rid"
  unfolding requests_ok_def by (drule spec [of _ rid]) simp

lemma requests_ok_Some: "requests_ok h \<Longrightarrow> hd_requests h rid = Some p \<Longrightarrow> request_ok h rid p"
  unfolding requests_ok_def by (drule spec [of _ rid]) simp

lemma request_ok_cong:
  assumes "hd_asks h' rid = hd_asks h rid" and "\<And>t r. answers h' rid t r = answers h rid t r"
  shows "request_ok h' rid p = request_ok h rid p"
  unfolding request_ok_def wins_def assms ..

lemma request_ok_asked: "request_ok h rid p \<Longrightarrow> hd_asks h rid \<noteq> None"
  unfolding request_ok_def waiting_def failed_def
  by (cases "pq_state p") (auto split: if_splits)

text \<open>A step that concerns the request \<open>rid\<close> alone.\<close>

lemma requests_ok_at:
  assumes ok: "requests_ok h"
    and frame: "\<And>i. i \<noteq> rid \<Longrightarrow> hd_requests h' i = hd_requests h i \<and> hd_asks h' i = hd_asks h i"
    and same: "\<And>i t r. i \<noteq> rid \<Longrightarrow> answers h' i t r = answers h i t r"
    and pend: "set (hd_pending h') \<subseteq> insert rid (set (hd_pending h))"
    and here: "case hd_requests h' rid of None \<Rightarrow> unasked h' rid | Some p \<Rightarrow> request_ok h' rid p"
  shows "requests_ok h'"
proof (rule requests_okI)
  fix i assume none: "hd_requests h' i = None"
  show "unasked h' i"
  proof (cases "i = rid")
    case True
    with here none show ?thesis by simp
  next
    case False
    with frame none have "hd_requests h i = None" by simp
    then have "unasked h i" by (rule requests_ok_None [OF ok])
    with frame [OF False] same [OF False] pend False show ?thesis by (auto simp: unasked_def)
  qed
next
  fix i p assume p: "hd_requests h' i = Some p"
  show "request_ok h' i p"
  proof (cases "i = rid")
    case True
    with here p show ?thesis by simp
  next
    case False
    with frame p have "hd_requests h i = Some p" by simp
    then have "request_ok h i p" by (rule requests_ok_Some [OF ok])
    then show ?thesis using request_ok_cong [of h' i h p] frame [OF False] same [OF False] by simp
  qed
qed

lemma same_requests_ok:
  assumes ok: "requests_ok h" and same: "same_requests h h'"
  shows "requests_ok h'"
proof (rule requests_okI)
  have a: "answers h' rid t r = answers h rid t r" for rid t r using same by (simp add: same_requests_def answers_def)
  show "unasked h' rid" if "hd_requests h' rid = None" for rid
    using requests_ok_None [OF ok, of rid] that same a by (auto simp: same_requests_def unasked_def)
  show "request_ok h' rid p" if "hd_requests h' rid = Some p" for rid p
    using requests_ok_Some [OF ok, of rid p] that same request_ok_cong [of h' rid h p, OF _ a]
    by (simp add: same_requests_def)
qed

lemmas request_updates = set_ask_def set_request_def set_phase_def answers_def

lemma ask_ok:
  assumes ok: "requests_ok h" and fresh_id: "hd_asks h rid = None"
  shows "requests_ok (ask rid i meth ps wait h)"
proof -
  have none: "hd_requests h rid = None"
    using requests_ok_Some [OF ok, of rid] request_ok_asked [of h rid] fresh_id by fastforce
  then have un: "unasked h rid" by (rule requests_ok_None [OF ok])
  show ?thesis
  proof (cases "subscribers i h = [] \<and> \<not> wait")
    case True
    then have e: "ask rid i meth ps wait h =
        set_ask rid (Returned (Inl (''no client is attached to session '' @ i))) h" by (simp add: ask_def)
    show ?thesis
      by (rule requests_ok_at [OF ok, of rid])
         (use un none in \<open>auto simp: e request_updates unasked_def failed_def\<close>)
  next
    case False
    let ?h = "ask rid i meth ps wait h"
    have sel: "hd_asks ?h = (hd_asks h)(rid \<mapsto> Asking)" "hd_responders ?h = hd_responders h"
      "hd_pending ?h = hd_pending h @ [rid]"
      "hd_requests ?h = (hd_requests h)(rid \<mapsto> \<lparr>pq_session = i, pq_answer = None,
         pq_req = \<lparr>rq_id = rid, rq_method = meth, rq_params = ask_params i rid ps\<rparr>, pq_state = requestOpen\<rparr>)"
      using False by (auto simp: ask_def Let_def set_ask_def set_request_def)
    show ?thesis
      by (rule requests_ok_at [OF ok, of rid])
         (use un in \<open>auto simp: sel answers_def unasked_def request_ok_def waiting_def\<close>)
  qed
qed

lemma ask_take_ok:
  assumes ok: "requests_ok h" and step: "ask_take rid h = Some h'"
  shows "requests_ok h'"
proof -
  obtain p r where a: "hd_asks h rid = Some Asking" and p: "hd_requests h rid = Some p" "pq_answer p = Some r"
    and h': "h' = set_ask rid (Returned (Inr r)) (set_request rid (p\<lparr>pq_answer := None\<rparr>) h)"
    using step by (auto simp: ask_take_def split: option.splits ask_phase.splits)
  have "request_ok h rid p" by (rule requests_ok_Some [OF ok p(1)])
  with a p(2) have st: "pq_state p = requestAnswered"
    and "\<exists>t w. wins h rid t w \<and> re_phase w = Answered \<and> re_raw w = r"
    unfolding request_ok_def wins_def by (cases "pq_state p"; auto split: if_splits)+
  then obtain t w where w: "wins h rid t w" "re_phase w = Answered" "re_raw w = r" by blast
  have "wins h' rid t w" using w(1) by (simp add: wins_def h' request_updates)
  with w st have "request_ok h' rid (p\<lparr>pq_answer := None\<rparr>)"
    unfolding request_ok_def h' by (auto simp: set_ask_def intro!: exI [of _ t] exI [of _ w])
  then show ?thesis
    by (intro requests_ok_at [OF ok, of rid]) (auto simp: h' request_updates)
qed

lemma ask_expire_ok:
  assumes ok: "requests_ok h" and step: "ask_expire rid within ctx h = Some h'"
  shows "requests_ok h'"
proof -
  obtain p e where a: "hd_asks h rid = Some Asking" and p: "hd_requests h rid = Some p"
    and h': "h' = set_ask rid (Expired e) h"
    using step by (auto simp: ask_expire_def split: option.splits ask_phase.splits)
  have wins: "wins h' rid t w = wins h rid t w" for t w by (simp add: wins_def h' request_updates)
  have all: "answers h' rid t w = answers h rid t w" for t w by (simp add: h' request_updates)
  have "request_ok h rid p" by (rule requests_ok_Some [OF ok p])
  with a have "request_ok h' rid p"
    unfolding request_ok_def wins all by (auto simp: h' set_ask_def waiting_def failed_def split: request_state.splits if_splits)
  with p show ?thesis
    by (intro requests_ok_at [OF ok, of rid]) (auto simp: h' request_updates)
qed

lemma ask_mark_ok:
  assumes ok: "requests_ok h" and step: "ask_mark rid h = Some h'"
  shows "requests_ok h'"
proof -
  obtain p e where a: "hd_asks h rid = Some (Expired e)" and p: "hd_requests h rid = Some p"
    and h': "h' = set_ask rid (Returned (Inl e)) (set_request rid (markTimedOut p) h)"
    using step by (auto simp: ask_mark_def split: option.splits ask_phase.splits)
  have wins: "wins h' rid t w = wins h rid t w" for t w by (simp add: wins_def h' request_updates)
  have all: "answers h' rid t w = answers h rid t w" for t w by (simp add: h' request_updates)
  have "request_ok h rid p" by (rule requests_ok_Some [OF ok p])
  with a have "request_ok h' rid (markTimedOut p)"
    unfolding request_ok_def wins all
    by (auto simp: h' set_ask_def markTimedOut_def waiting_def failed_def split: request_state.splits if_splits)
  then show ?thesis
    by (intro requests_ok_at [OF ok, of rid]) (auto simp: h' request_updates)
qed

lemma ask_forget_ok: "requests_ok h \<Longrightarrow> ask_forget rid h = Some h' \<Longrightarrow> requests_ok h'"
  by (erule same_requests_ok) (auto simp: same_requests_def ask_forget_def split: option.splits ask_phase.splits)

lemma heard_ok:
  assumes ok: "requests_ok h" and new: "hd_responders h t = None" and found: "route_lookup mid h = Some rid"
  shows "requests_ok (h\<lparr>hd_responders := (hd_responders h)(t \<mapsto> \<lparr>re_conn = k, re_id = rid, re_raw = r, re_phase = Looked\<rparr>)\<rparr>)"
    (is "requests_ok ?h")
proof -
  have "rid \<in> set (hd_pending h)" using found by (auto simp: route_lookup_def split: option.splits json.splits if_splits)
  then obtain p where p: "hd_requests h rid = Some p"
    using requests_ok_None [OF ok, of rid] by (cases "hd_requests h rid") (auto simp: unasked_def)
  have ans: "answers ?h rid t' w \<longleftrightarrow>
      (if t' = t then w = \<lparr>re_conn = k, re_id = rid, re_raw = r, re_phase = Looked\<rparr> else answers h rid t' w)" for t' w
    by (auto simp: answers_def)
  have wins: "wins ?h rid t' w" if "wins h rid t' w" for t' w
    using that new unfolding wins_def ans by (auto simp: answers_def)
  have "request_ok h rid p" by (rule requests_ok_Some [OF ok p])
  then have "request_ok ?h rid p"
  proof (cases "pq_state p")
    case requestAnswered
    with \<open>request_ok h rid p\<close> wins show ?thesis unfolding request_ok_def by (simp split: if_splits) blast
  qed (auto simp: request_ok_def ans)
  with p new show ?thesis
    by (intro requests_ok_at [OF ok, of rid]) (auto simp: answers_def)
qed

lemma routeResponseE:
  assumes "routeResponse t resumes h = Some h'"
  obtains r p where "hd_responders h t = Some r" "re_phase r = Looked" "hd_requests h (re_id r) = Some p"
    "h' = (case pq_state p of
        requestOpen \<Rightarrow> set_phase t r Won (set_request (re_id r) (p\<lparr>pq_state := requestAnswered\<rparr>) h)
      | requestAnswered \<Rightarrow>
          write_to (MResponse (errorResp (JStr (re_id r)) (-32004) ''rho_already_resolved''))
            (set_phase t r Refused (set_request (re_id r) p h)) (re_conn r)
      | requestTimedOut \<Rightarrow>
          resumeAfterLateAnswer resumes (pq_session p) (set_phase t r Revived (set_request (re_id r) p h)))"
  using assms
  by (auto simp: routeResponse_def resolve_def Let_def split: option.splits responder_phase.splits request_state.splits if_splits)

lemma routeResponse_ok:
  assumes ok: "requests_ok h" and step: "routeResponse t resumes h = Some h'"
  shows "requests_ok h'"
proof -
  from step obtain r p where r: "hd_responders h t = Some r" "re_phase r = Looked" and p: "hd_requests h (re_id r) = Some p"
    and h': "h' = (case pq_state p of
        requestOpen \<Rightarrow> set_phase t r Won (set_request (re_id r) (p\<lparr>pq_state := requestAnswered\<rparr>) h)
      | requestAnswered \<Rightarrow>
          write_to (MResponse (errorResp (JStr (re_id r)) (-32004) ''rho_already_resolved''))
            (set_phase t r Refused (set_request (re_id r) p h)) (re_conn r)
      | requestTimedOut \<Rightarrow>
          resumeAfterLateAnswer resumes (pq_session p) (set_phase t r Revived (set_request (re_id r) p h)))"
    by (rule routeResponseE)
  let ?i = "re_id r"
  define ph where "ph = (case pq_state p of requestOpen \<Rightarrow> Won | requestAnswered \<Rightarrow> Refused | requestTimedOut \<Rightarrow> Revived)"
  define q where "q = (if pq_state p = requestOpen then p\<lparr>pq_state := requestAnswered\<rparr> else p)"
  have sel: "hd_asks h' = hd_asks h" "hd_pending h' = hd_pending h" "hd_requests h' = (hd_requests h)(?i \<mapsto> q)"
    "hd_responders h' = (hd_responders h)(t \<mapsto> r\<lparr>re_phase := ph\<rparr>)"
    using p by (auto simp: h' ph_def q_def request_updates resumeAfterLateAnswer_def split: request_state.split)
  have ans: "answers h' ?i t' w \<longleftrightarrow> (if t' = t then w = r\<lparr>re_phase := ph\<rparr> else answers h ?i t' w)" for t' w
    by (auto simp: answers_def sel)
  have old: "request_ok h ?i p" by (rule requests_ok_Some [OF ok p])
  have "request_ok h' ?i q"
  proof (cases "pq_state p")
    case requestOpen
    with old have "wins h' ?i t (r\<lparr>re_phase := ph\<rparr>)"
      unfolding wins_def ans by (auto simp: request_ok_def ph_def)
    with requestOpen old show ?thesis
      unfolding request_ok_def by (auto simp: q_def sel ph_def intro!: exI [of _ t] exI [of _ "r\<lparr>re_phase := Won\<rparr>"])
  next
    case requestAnswered
    have "wins h' ?i t' w" if "wins h ?i t' w" for t' w
      using that r requestAnswered unfolding wins_def ans by (auto simp: answers_def ph_def)
    with requestAnswered old show ?thesis unfolding request_ok_def by (simp add: q_def sel split: if_splits) blast
  next
    case requestTimedOut
    with old show ?thesis unfolding request_ok_def by (auto simp: q_def sel ans ph_def)
  qed
  then show ?thesis
    by (intro requests_ok_at [OF ok, of ?i]) (use r in \<open>auto simp: sel answers_def\<close>)
qed

lemma resolve_send_ok:
  assumes ok: "requests_ok h" and step: "resolve_send t h = Some h'"
  shows "requests_ok h'"
proof -
  obtain r p where r: "hd_responders h t = Some r" "re_phase r = Won" and p: "hd_requests h (re_id r) = Some p"
    and h': "h' = set_phase t r Answered (set_request (re_id r) (p\<lparr>pq_answer := Some (re_raw r)\<rparr>) h)"
    using step by (auto simp: resolve_send_def split: option.splits responder_phase.splits)
  let ?i = "re_id r" and ?q = "p\<lparr>pq_answer := Some (re_raw r)\<rparr>" and ?r = "r\<lparr>re_phase := Answered\<rparr>"
  have sel: "hd_asks h' = hd_asks h" "hd_pending h' = hd_pending h" "hd_requests h' = (hd_requests h)(?i \<mapsto> ?q)"
    "hd_responders h' = (hd_responders h)(t \<mapsto> ?r)"
    by (simp_all add: h' request_updates)
  have ans: "answers h' ?i t' w \<longleftrightarrow> (if t' = t then w = ?r else answers h ?i t' w)" for t' w
    by (auto simp: answers_def sel)
  have here: "answers h ?i t r" using r by (simp add: answers_def)
  have old: "request_ok h ?i p" by (rule requests_ok_Some [OF ok p])
  have st: "pq_state p = requestAnswered"
    using old here r(2) by (cases "pq_state p") (fastforce simp: request_ok_def)+
  with old obtain t' w where w: "wins h ?i t' w"
    "if re_phase w = Won then pq_answer p = None \<and> (waiting (hd_asks h ?i) \<or> failed (hd_asks h ?i))
     else pq_answer p = Some (re_raw w) \<and> (waiting (hd_asks h ?i) \<or> failed (hd_asks h ?i)) \<or>
          pq_answer p = None \<and> hd_asks h ?i = Some (Returned (Inr (re_raw w)))"
    by (auto simp: request_ok_def)
  have "t' = t"
  proof (rule ccontr)
    assume "t' \<noteq> t"
    then have "t \<noteq> t'" by simp
    moreover have "\<forall>t'' r'. t'' \<noteq> t' \<longrightarrow> answers h ?i t'' r' \<longrightarrow> re_phase r' \<in> {Looked, Refused}"
      using w(1) by (simp add: wins_def)
    ultimately have "re_phase r \<in> {Looked, Refused}" using here by blast
    with r(2) show False by simp
  qed
  with w(1) here have "w = r" by (simp add: wins_def answers_def)
  have "wins h' ?i t ?r" using w(1) \<open>t' = t\<close> unfolding wins_def ans by simp
  then have "request_ok h' ?i ?q"
    using st w(2) \<open>w = r\<close> r(2)
    unfolding request_ok_def by (auto simp: sel intro!: exI [of _ t] exI [of _ ?r])
  then show ?thesis
    by (intro requests_ok_at [OF ok, of ?i]) (use r in \<open>auto simp: sel answers_def\<close>)
qed

lemma subscribeAndCatchUp_eq:
  "subscribeAndCatchUp i got k h =
     (case subscribe i got k h of
        (Some e, h1) \<Rightarrow> (Some e, h1)
      | (None, h1) \<Rightarrow> (None, send_open k h1 (open_requests i h1)))"
  unfolding subscribeAndCatchUp_def send_open_def ..

lemma subscribe_frame:
  assumes "subscribe i got k h = (e, h')"
  shows "hd_conns h' = hd_conns h \<and> same_requests h h'"
  using assms by (auto simp: subscribe_def same_requests_def split: option.splits)

lemma subscribeAndCatchUp_same: "same_requests h (snd (subscribeAndCatchUp i got k h))"
proof -
  obtain e h1 where s: "subscribe i got k h = (e, h1)" by (cases "subscribe i got k h")
  have "same_requests h h1" using subscribe_frame [OF s] ..
  then show ?thesis by (cases e) (simp_all add: subscribeAndCatchUp_eq s same_requests_def)
qed

lemma step_requests_ok: "api_step h h' \<Longrightarrow> requests_ok h \<Longrightarrow> requests_ok h'"
proof (induction rule: api_step.induct)
  case (asked h rid i meth ps wait) then show ?case by (rule ask_ok [rotated])
next
  case (taken rid h h') then show ?case by (rule ask_take_ok [rotated])
next
  case (expired rid within ctx h h') then show ?case by (rule ask_expire_ok [rotated])
next
  case (marked rid h h') then show ?case by (rule ask_mark_ok [rotated])
next
  case (forgotten rid h h') then show ?case by (rule ask_forget_ok [rotated])
next
  case (heard h t mid rid k r) then show ?case by (intro heard_ok)
next
  case (resolved t resumes h h') then show ?case by (rule routeResponse_ok [rotated])
next
  case (sent t h h') then show ?case by (rule resolve_send_ok [rotated])
next
  case (subscribed h k i got) show ?case by (rule same_requests_ok [OF subscribed(2) subscribeAndCatchUp_same])
next
  case (unsubscribed h i k)
  show ?case
    by (rule same_requests_ok [OF unsubscribed]) (simp add: unsubscribe_def dropLocked_def same_requests_def split: option.split)
next
  case (pumped h i ev)
  show ?case by (rule same_requests_ok [OF pumped]) (simp add: pump_def same_requests_def)
next
  case (streamed h meth i turn_id words)
  show ?case by (rule same_requests_ok [OF streamed]) (simp add: delta_note_def same_requests_def)
next
  case (pump_ended h i n got)
  show ?case
    by (rule same_requests_ok [OF pump_ended]) (simp add: pumpEnded_def Let_def same_requests_def split: option.split)
next
  case (replied h resp k)
  show ?case by (rule same_requests_ok [OF replied]) (simp add: same_requests_def)
next
  case (written h k ok)
  show ?case by (rule same_requests_ok [OF written]) (simp add: same_requests_def)
next
  case (left h k)
  show ?case by (rule same_requests_ok [OF left]) (simp add: same_requests_def dropConn_def)
qed

lemma reach_requests_ok: "api_reach h \<Longrightarrow> requests_ok h"
proof (induction rule: api_reach.induct)
  case started
  show ?case by (rule requests_okI) (simp_all add: NewHandler_def unasked_def answers_def)
next
  case (stepped h h')
  show ?case by (rule step_requests_ok [OF stepped.hyps(2) stepped.IH])
qed

section \<open>Who is attached sees what is asked\<close>

text \<open>What a connection was sent and not lost: on the wire or on the way.\<close>

definition got :: "message \<Rightarrow> Conn \<Rightarrow> bool" where
  "got m c \<longleftrightarrow> cn_quit c \<or> m \<in> set (cn_wire c) \<union> set (cn_out c)"

definition conn_grows :: "Conn \<Rightarrow> Conn \<Rightarrow> bool" where
  "conn_grows c c' \<longleftrightarrow> (\<forall>m. got m c \<longrightarrow> got m c')"

lemma conn_grows_refl [simp]: "conn_grows c c" by (simp add: conn_grows_def)

lemma conn_write_got: "got m (snd (conn_write m c))"
  by (simp add: conn_write_def got_def conn_drop_def)

lemma conn_write_grows: "conn_grows c (snd (conn_write m c))"
  by (auto simp: conn_write_def conn_grows_def got_def conn_drop_def)

lemma writeLoop_grows: "conn_grows c (writeLoop ok c)"
  by (auto simp: writeLoop_def conn_grows_def got_def conn_send_def conn_drop_def split: list.split)

definition conns_grow :: "Handler \<Rightarrow> Handler \<Rightarrow> bool" where
  "conns_grow h h' \<longleftrightarrow> (\<forall>k. conn_grows (hd_conns h k) (hd_conns h' k))"

lemma conns_grow_trans: "conns_grow a b \<Longrightarrow> conns_grow b c \<Longrightarrow> conns_grow a c"
  by (simp add: conns_grow_def conn_grows_def)

lemma conns_grow_refl: "hd_conns h' = hd_conns h \<Longrightarrow> conns_grow h h'"
  by (simp add: conns_grow_def)

lemma on_conn_grows: "(\<And>c. conn_grows c (f c)) \<Longrightarrow> conns_grow h (on_conn k f h)"
  by (simp add: conns_grow_def)

lemma write_to_grows: "conns_grow h (write_to m h k)"
  unfolding write_to_def by (rule on_conn_grows) (rule conn_write_grows)

lemma fold_grows: "(\<And>h x. conns_grow h (f h x)) \<Longrightarrow> conns_grow h (foldl f h xs)"
  by (induction xs arbitrary: h) (auto intro: conns_grow_trans conns_grow_refl)

lemma write_all_got: "k \<in> set ks \<Longrightarrow> got m (hd_conns (foldl (write_to m) h ks) k)"
proof (induction ks arbitrary: h)
  case (Cons k' ks)
  show ?case
  proof (cases "k = k'")
    case True
    have "got m (hd_conns (write_to m h k) k)" by (simp add: write_to_def conn_write_got)
    moreover have "conns_grow (write_to m h k) (foldl (write_to m) (write_to m h k) ks)"
      by (rule fold_grows) (rule write_to_grows)
    ultimately show ?thesis using True by (simp add: conns_grow_def conn_grows_def)
  qed (use Cons in auto)
qed simp

lemma send_open_grows: "conns_grow h (send_open k h rids)"
  unfolding send_open_def by (rule fold_grows) (rule write_to_grows)

lemma send_open_got: "rid \<in> set rids \<Longrightarrow> got (MRequest (pq_req (the (hd_requests h rid)))) (hd_conns (send_open k h rids) k)"
proof (induction rids arbitrary: h)
  case (Cons i rids)
  let ?m = "MRequest (pq_req (the (hd_requests h i)))"
  have step: "send_open k h (i # rids) = send_open k (write_to ?m h k) rids" by (simp add: send_open_def)
  show ?case
  proof (cases "rid = i")
    case True
    have "got ?m (hd_conns (write_to ?m h k) k)" by (simp add: write_to_def conn_write_got)
    with send_open_grows [of "write_to ?m h k" k rids] True show ?thesis
      by (simp add: step conns_grow_def conn_grows_def)
  next
    case False
    with Cons.prems Cons.IH [of "write_to ?m h k"] show ?thesis by (simp add: step)
  qed
qed simp

definition seen :: "Handler \<Rightarrow> bool" where
  "seen h \<longleftrightarrow>
     (\<forall>rid p k. rid \<in> set (hd_pending h) \<longrightarrow> hd_requests h rid = Some p \<longrightarrow> isOpen p \<longrightarrow>
        k \<in> set (subscribers (pq_session p) h) \<longrightarrow> got (MRequest (pq_req p)) (hd_conns h k))"

text \<open>Steps that ask nothing new and subscribe nobody.\<close>

definition no_more :: "Handler \<Rightarrow> Handler \<Rightarrow> bool" where
  "no_more h h' \<longleftrightarrow> set (hd_pending h') \<subseteq> set (hd_pending h) \<and>
     (\<forall>rid p. hd_requests h' rid = Some p \<longrightarrow> isOpen p \<longrightarrow>
        (\<exists>q. hd_requests h rid = Some q \<and> isOpen q \<and> pq_req q = pq_req p \<and> pq_session q = pq_session p)) \<and>
     (\<forall>i. set (subscribers i h') \<subseteq> set (subscribers i h))"

lemma no_more_seen:
  assumes "seen h" "no_more h h'" "conns_grow h h'"
  shows "seen h'"
  unfolding seen_def
proof (intro allI impI)
  fix rid p k
  assume a: "rid \<in> set (hd_pending h')" "hd_requests h' rid = Some p" "isOpen p" "k \<in> set (subscribers (pq_session p) h')"
  obtain q where q: "hd_requests h rid = Some q" "isOpen q" "pq_req q = pq_req p" "pq_session q = pq_session p"
    using assms(2) a(2,3) unfolding no_more_def by blast
  have "rid \<in> set (hd_pending h)" "k \<in> set (subscribers (pq_session q) h)"
    using assms(2) a(1,4) q(4) unfolding no_more_def by auto
  with assms(1) q(1,2) have "got (MRequest (pq_req q)) (hd_conns h k)" unfolding seen_def by blast
  with assms(3) q(3) show "got (MRequest (pq_req p)) (hd_conns h' k)"
    by (simp add: conns_grow_def conn_grows_def)
qed

lemma no_more_frame:
  assumes "hd_requests h' = hd_requests h" "set (hd_pending h') \<subseteq> set (hd_pending h)"
    "\<And>i. set (subscribers i h') \<subseteq> set (subscribers i h)"
  shows "no_more h h'"
  using assms by (auto simp: no_more_def)

lemma no_more_update:
  assumes "hd_requests h' = (hd_requests h)(rid \<mapsto> q)" "hd_requests h rid = Some p"
    "isOpen q \<Longrightarrow> isOpen p" "pq_req q = pq_req p" "pq_session q = pq_session p"
    "hd_pending h' = hd_pending h" "hd_fanouts h' = hd_fanouts h"
  shows "no_more h h'"
  using assms by (auto simp: no_more_def subscribers_def)

lemma drop_from_subset:
  "drop_from k f = Some f' \<Longrightarrow> set (fo_conns f') = set (fo_conns f) - {k} \<and> fo_conns f' \<noteq> []"
  by (auto simp: drop_from_def Let_def split: if_splits)

lemma subscribers_dropConn: "set (subscribers i (dropConn k h)) = set (subscribers i h) - {k}"
proof (cases "hd_fanouts h i")
  case (Some f)
  have "removeAll k (fo_conns f) = [] \<Longrightarrow> set (fo_conns f) \<subseteq> {k}"
    by (drule arg_cong [where f = set]) simp
  with Some show ?thesis by (auto simp: subscribers_def dropConn_def drop_from_def Let_def)
qed (simp add: subscribers_def dropConn_def)

lemma subscribers_dropLocked: "set (subscribers i (dropLocked j k h)) \<subseteq> set (subscribers i h)"
  by (cases "hd_fanouts h j") (auto simp: subscribers_def dropLocked_def drop_from_def Let_def)

lemma drop_all_grows: "conns_grow h (drop_all ks h)"
  unfolding drop_all_def
  by (rule fold_grows, rule on_conn_grows) (simp add: conn_grows_def got_def conn_drop_def)

lemma ask_seen:
  assumes "seen h" "requests_ok h" "hd_asks h rid = None"
  shows "seen (ask rid i meth ps wait h)"
proof (cases "subscribers i h = [] \<and> \<not> wait")
  case True
  then have e: "ask rid i meth ps wait h =
      set_ask rid (Returned (Inl (''no client is attached to session '' @ i))) h" by (simp add: ask_def)
  show ?thesis
    by (rule no_more_seen [OF assms(1)])
       (auto simp: e set_ask_def subscribers_def intro!: no_more_frame conns_grow_refl)
next
  case False
  let ?req = "\<lparr>rq_id = rid, rq_method = meth, rq_params = ask_params i rid ps\<rparr>"
  let ?p = "\<lparr>pq_session = i, pq_answer = None, pq_req = ?req, pq_state = requestOpen\<rparr>"
  let ?h0 = "set_ask rid Asking (set_request rid ?p (h\<lparr>hd_pending := hd_pending h @ [rid]\<rparr>))"
  have e: "ask rid i meth ps wait h = foldl (write_to (MRequest ?req)) ?h0 (subscribers i h)"
    using False by (auto simp: ask_def Let_def)
  have subs: "subscribers j (foldl (write_to (MRequest ?req)) ?h0 (subscribers i h)) = subscribers j h" for j
    by (simp add: subscribers_def set_ask_def set_request_def)
  have grow: "conns_grow h (foldl (write_to (MRequest ?req)) ?h0 (subscribers i h))"
    by (rule conns_grow_trans [OF _ fold_grows [OF write_to_grows]])
       (simp add: set_ask_def set_request_def conns_grow_def)
  show ?thesis
    unfolding seen_def e subs
  proof (intro allI impI)
    fix j p k
    assume a: "j \<in> set (hd_pending (foldl (write_to (MRequest ?req)) ?h0 (subscribers i h)))"
      "hd_requests (foldl (write_to (MRequest ?req)) ?h0 (subscribers i h)) j = Some p" "isOpen p"
      "k \<in> set (subscribers (pq_session p) h)"
    show "got (MRequest (pq_req p)) (hd_conns (foldl (write_to (MRequest ?req)) ?h0 (subscribers i h)) k)"
    proof (cases "j = rid")
      case True
      with a(2) have "p = ?p" by (simp add: set_ask_def set_request_def)
      with a(4) show ?thesis by (simp add: write_all_got)
    next
      case False
      with a have "j \<in> set (hd_pending h)" "hd_requests h j = Some p" by (auto simp: set_ask_def set_request_def)
      with assms(1) a(3,4) have "got (MRequest (pq_req p)) (hd_conns h k)" unfolding seen_def by blast
      with grow show ?thesis by (simp add: conns_grow_def conn_grows_def)
    qed
  qed
qed

lemma subscribe_subscribers:
  assumes "subscribe i g k h = (None, h')"
  shows "set (subscribers j h') = (if j = i then insert k (set (subscribers i h)) else set (subscribers j h))"
  using assms by (auto simp: subscribe_def subscribers_def split: option.splits)

lemma subscribe_seen:
  assumes "seen h"
  shows "seen (snd (subscribeAndCatchUp i g k h))"
proof -
  obtain e h1 where s: "subscribe i g k h = (e, h1)" by (cases "subscribe i g k h")
  have same: "hd_conns h1 = hd_conns h" "hd_requests h1 = hd_requests h" "set (hd_pending h1) \<subseteq> set (hd_pending h)"
    using subscribe_frame [OF s] by (auto simp: same_requests_def)
  show ?thesis
  proof (cases e)
    case (Some x)
    then have "h1 = h" using s by (auto simp: subscribe_def split: option.splits)
    with Some s assms show ?thesis by (simp add: subscribeAndCatchUp_eq)
  next
    case None
    let ?h = "send_open k h1 (open_requests i h1)"
    have "seen ?h"
      unfolding seen_def
    proof (intro allI impI)
      fix rid p k'
      assume a: "rid \<in> set (hd_pending ?h)" "hd_requests ?h rid = Some p" "isOpen p"
        "k' \<in> set (subscribers (pq_session p) ?h)"
      show "got (MRequest (pq_req p)) (hd_conns ?h k')"
      proof (cases "k' = k \<and> pq_session p = i")
        case True
        with a have "rid \<in> set (open_requests i h1)" by (simp add: open_requests_def)
        from send_open_got [OF this, of h1 k] True a(2) show ?thesis by simp
      next
        case False
        have "k' \<in> set (subscribers (pq_session p) h1)" using a(4) by (simp add: subscribers_def)
        with False subscribe_subscribers [OF s [unfolded None], of "pq_session p"]
        have "k' \<in> set (subscribers (pq_session p) h)" by (auto split: if_splits)
        with assms a(1-3) same have "got (MRequest (pq_req p)) (hd_conns h1 k')" unfolding seen_def by auto
        with send_open_grows show ?thesis by (simp add: conns_grow_def conn_grows_def)
      qed
    qed
    with None s show ?thesis by (simp add: subscribeAndCatchUp_eq)
  qed
qed

lemma same_fanouts_no_more:
  "hd_requests h' = hd_requests h \<Longrightarrow> set (hd_pending h') \<subseteq> set (hd_pending h) \<Longrightarrow>
   hd_fanouts h' = hd_fanouts h \<Longrightarrow> no_more h h'"
  by (rule no_more_frame) (simp_all add: subscribers_def)

lemma routeResponse_no_more:
  assumes "routeResponse t resumes h = Some h'"
  shows "no_more h h' \<and> conns_grow h h'"
  using assms
proof (rule routeResponseE)
  fix r p
  assume p: "hd_requests h (re_id r) = Some p"
    and h': "h' = (case pq_state p of
        requestOpen \<Rightarrow> set_phase t r Won (set_request (re_id r) (p\<lparr>pq_state := requestAnswered\<rparr>) h)
      | requestAnswered \<Rightarrow>
          write_to (MResponse (errorResp (JStr (re_id r)) (-32004) ''rho_already_resolved''))
            (set_phase t r Refused (set_request (re_id r) p h)) (re_conn r)
      | requestTimedOut \<Rightarrow>
          resumeAfterLateAnswer resumes (pq_session p) (set_phase t r Revived (set_request (re_id r) p h)))"
  have "no_more h h'"
    by (rule no_more_update [OF _ p, where q = "if pq_state p = requestOpen then p\<lparr>pq_state := requestAnswered\<rparr> else p"])
       (simp_all add: h' request_updates resumeAfterLateAnswer_def isOpen_def split: request_state.split if_splits)
  moreover have "conns_grow h (write_to m (set_phase t r Refused (set_request i p h)) k)" for m i k
    by (rule conns_grow_trans [OF _ write_to_grows]) (simp add: conns_grow_def set_phase_def set_request_def)
  then have "conns_grow h h'"
    by (cases "pq_state p") (simp_all add: h', simp_all add: conns_grow_def request_updates resumeAfterLateAnswer_def)
  ultimately show ?thesis ..
qed

lemma step_seen: "api_step h h' \<Longrightarrow> seen h \<Longrightarrow> requests_ok h \<Longrightarrow> seen h'"
proof (induction rule: api_step.induct)
  case (asked h rid i meth ps wait) then show ?case by (intro ask_seen)
next
  case (taken rid h h')
  then obtain p r where p: "hd_requests h rid = Some p"
    and h': "h' = set_ask rid (Returned (Inr r)) (set_request rid (p\<lparr>pq_answer := None\<rparr>) h)"
    by (auto simp: ask_take_def split: option.splits ask_phase.splits)
  have "no_more h h'"
    by (rule no_more_update [OF _ p, where q = "p\<lparr>pq_answer := None\<rparr>"])
       (simp_all add: h' set_ask_def set_request_def isOpen_def)
  then show ?case by (rule no_more_seen [OF taken(2)]) (simp add: h' conns_grow_def set_ask_def set_request_def)
next
  case (expired rid within ctx h h')
  then obtain e where h': "h' = set_ask rid (Expired e) h"
    by (auto simp: ask_expire_def split: option.splits ask_phase.splits)
  show ?case
    by (rule no_more_seen [OF expired(2)])
       (auto simp: h' set_ask_def conns_grow_def intro!: same_fanouts_no_more)
next
  case (marked rid h h')
  then obtain p e where p: "hd_requests h rid = Some p"
    and h': "h' = set_ask rid (Returned (Inl e)) (set_request rid (markTimedOut p) h)"
    by (auto simp: ask_mark_def split: option.splits ask_phase.splits)
  have "no_more h h'"
    by (rule no_more_update [OF _ p, where q = "markTimedOut p"])
       (simp_all add: h' set_ask_def set_request_def isOpen_def markTimedOut_def split: if_splits)
  then show ?case by (rule no_more_seen [OF marked(2)]) (simp add: h' conns_grow_def set_ask_def set_request_def)
next
  case (forgotten rid h h')
  then have h': "h' = h\<lparr>hd_pending := removeAll rid (hd_pending h)\<rparr>"
    by (auto simp: ask_forget_def split: option.splits ask_phase.splits)
  show ?case
    by (rule no_more_seen [OF forgotten(2)])
       (auto simp: h' conns_grow_def intro!: same_fanouts_no_more)
next
  case (heard h t mid rid k r)
  show ?case
    by (rule no_more_seen [OF heard(3)]) (auto simp: conns_grow_def intro!: same_fanouts_no_more)
next
  case (resolved t resumes h h')
  then show ?case using routeResponse_no_more no_more_seen by blast
next
  case (sent t h h')
  then obtain r p where p: "hd_requests h (re_id r) = Some p"
    and h': "h' = set_phase t r Answered (set_request (re_id r) (p\<lparr>pq_answer := Some (re_raw r)\<rparr>) h)"
    by (auto simp: resolve_send_def split: option.splits responder_phase.splits)
  have "no_more h h'"
    by (rule no_more_update [OF _ p, where q = "p\<lparr>pq_answer := Some (re_raw r)\<rparr>"])
       (simp_all add: h' set_phase_def set_request_def isOpen_def)
  then show ?case by (rule no_more_seen [OF sent(2)]) (simp add: h' conns_grow_def set_phase_def set_request_def)
next
  case (subscribed h k i got) then show ?case by (intro subscribe_seen)
next
  case (unsubscribed h i k)
  have same: "hd_requests (dropLocked i k h) = hd_requests h" "hd_pending (dropLocked i k h) = hd_pending h"
    "hd_conns (dropLocked i k h) = hd_conns h"
    by (simp_all add: dropLocked_def split: option.split)
  have "no_more h (dropLocked i k h)" by (rule no_more_frame) (simp_all add: same subscribers_dropLocked)
  then show ?case unfolding unsubscribe_def
    by (rule no_more_seen [OF unsubscribed(1)]) (rule conns_grow_refl [OF same(3)])
next
  case (pumped h i ev)
  show ?case unfolding pump_def
    by (rule no_more_seen [OF pumped(1)]) (auto intro!: same_fanouts_no_more fold_grows write_to_grows)
next
  case (streamed h meth i turn_id words)
  show ?case unfolding delta_note_def
    by (rule no_more_seen [OF streamed(1)]) (auto intro!: same_fanouts_no_more fold_grows write_to_grows)
next
  case (pump_ended h i n g)
  have "no_more h (pumpEnded i n g h)"
    by (rule no_more_frame)
       (auto simp: pumpEnded_def Let_def subscribers_def split: option.splits if_splits)
  moreover have "conns_grow h (pumpEnded i n g h)"
    by (simp add: pumpEnded_def Let_def conns_grow_refl conns_grow_trans [OF conns_grow_refl drop_all_grows]
          split: option.split)
  ultimately show ?case by (rule no_more_seen [OF pump_ended(1)])
next
  case (replied h resp k)
  show ?case by (rule no_more_seen [OF replied(1)]) (auto intro!: same_fanouts_no_more write_to_grows)
next
  case (written h k ok)
  show ?case by (rule no_more_seen [OF written(1)]) (auto intro!: same_fanouts_no_more on_conn_grows writeLoop_grows)
next
  case (left h k)
  have "no_more h (on_conn k conn_finish (dropConn k h))"
    by (rule no_more_frame)
       (use subscribers_dropConn in \<open>auto simp: dropConn_def subscribers_def on_conn_def split: option.splits\<close>)
  moreover have "conns_grow h (on_conn k conn_finish (dropConn k h))"
    by (simp add: conns_grow_def dropConn_def conn_grows_def conn_finish_def got_def)
  ultimately show ?case by (rule no_more_seen [OF left(1)])
qed

text \<open>Every fan-out has subscribers, and they are connections still served.\<close>

definition fanouts_ok :: "Handler \<Rightarrow> bool" where
  "fanouts_ok h \<longleftrightarrow>
     (\<forall>i f. hd_fanouts h i = Some f \<longrightarrow> fo_conns f \<noteq> [] \<and> (\<forall>k \<in> set (fo_conns f). cn_serving (hd_conns h k)))"

definition same_serving :: "Handler \<Rightarrow> Handler \<Rightarrow> bool" where
  "same_serving h h' \<longleftrightarrow> (\<forall>k. cn_serving (hd_conns h' k) = cn_serving (hd_conns h k))"

lemma same_serving_refl: "hd_conns h' = hd_conns h \<Longrightarrow> same_serving h h'"
  by (simp add: same_serving_def)

lemma same_serving_trans: "same_serving a b \<Longrightarrow> same_serving b c \<Longrightarrow> same_serving a c"
  by (simp add: same_serving_def)

lemma on_conn_serving: "(\<And>c. cn_serving (f c) = cn_serving c) \<Longrightarrow> same_serving h (on_conn k f h)"
  by (simp add: same_serving_def)

lemma write_to_serving: "same_serving h (write_to m h k)"
  unfolding write_to_def by (rule on_conn_serving) (simp add: conn_write_def conn_drop_def)

lemma writeLoop_serving: "cn_serving (writeLoop ok c) = cn_serving c"
  by (cases "cn_out c") (simp_all add: writeLoop_def conn_send_def conn_drop_def)

lemma fold_serving: "(\<And>h x. same_serving h (f h x)) \<Longrightarrow> same_serving h (foldl f h xs)"
  by (induction xs arbitrary: h) (auto intro: same_serving_trans same_serving_refl)

lemma fanouts_ok_same: "fanouts_ok h \<Longrightarrow> hd_fanouts h' = hd_fanouts h \<Longrightarrow> same_serving h h' \<Longrightarrow> fanouts_ok h'"
  by (simp add: fanouts_ok_def same_serving_def)

lemma fanouts_ok_write_all: "fanouts_ok h \<Longrightarrow> fanouts_ok (foldl (write_to m) h ks)"
  by (erule fanouts_ok_same) (simp_all add: fold_serving write_to_serving)

lemma fanouts_ok_drop_all: "fanouts_ok h \<Longrightarrow> fanouts_ok (drop_all ks h)"
  by (erule fanouts_ok_same) (auto simp: drop_all_def conn_drop_def intro!: fold_serving on_conn_serving drop_all_frame [unfolded drop_all_def])

lemma fanouts_ok_subscribe:
  assumes "fanouts_ok h" "cn_serving (hd_conns h k)"
  shows "fanouts_ok (snd (subscribeAndCatchUp i g k h))"
proof -
  obtain e h1 where s: "subscribe i g k h = (e, h1)" by (cases "subscribe i g k h")
  have h1: "fanouts_ok h1"
    using s assms unfolding subscribe_def fanouts_ok_def by (auto simp: List.insert_def split: option.splits if_splits)
  have "fanouts_ok (send_open k h1 rids)" for rids
    by (rule fanouts_ok_same [OF h1]) (simp_all add: send_open_def fold_serving write_to_serving del: send_open_frame
        add: send_open_frame [unfolded send_open_def])
  with h1 s show ?thesis by (cases e) (simp_all add: subscribeAndCatchUp_eq)
qed

lemma step_fanouts_ok: "api_step h h' \<Longrightarrow> fanouts_ok h \<Longrightarrow> fanouts_ok h'"
proof (induction rule: api_step.induct)
  case (asked h rid i meth ps wait)
  then show ?case
    by (auto simp: ask_def Let_def set_ask_def set_request_def intro!: fanouts_ok_write_all
        elim!: fanouts_ok_same intro: same_serving_refl)
next
  case (resolved t resumes h h')
  from resolved(1) show ?case
  proof (rule routeResponseE)
    fix r p
    assume h': "h' = (case pq_state p of
        requestOpen \<Rightarrow> set_phase t r Won (set_request (re_id r) (p\<lparr>pq_state := requestAnswered\<rparr>) h)
      | requestAnswered \<Rightarrow>
          write_to (MResponse (errorResp (JStr (re_id r)) (-32004) ''rho_already_resolved''))
            (set_phase t r Refused (set_request (re_id r) p h)) (re_conn r)
      | requestTimedOut \<Rightarrow>
          resumeAfterLateAnswer resumes (pq_session p) (set_phase t r Revived (set_request (re_id r) p h)))"
    have "same_serving h (write_to m (set_phase t r Refused (set_request j p h)) k)" for m j k
      by (rule same_serving_trans [OF _ write_to_serving]) (simp add: same_serving_def set_phase_def set_request_def)
    then have "same_serving h h'"
      by (cases "pq_state p") (simp_all add: h', simp_all add: same_serving_def request_updates resumeAfterLateAnswer_def)
    moreover have "hd_fanouts h' = hd_fanouts h"
      by (cases "pq_state p") (simp_all add: h' request_updates resumeAfterLateAnswer_def)
    ultimately show ?thesis by (intro fanouts_ok_same [OF resolved(2)])
  qed
next
  case (subscribed h k i got) then show ?case by (intro fanouts_ok_subscribe)
next
  case (unsubscribed h i k)
  show ?case
  proof (cases "hd_fanouts h i")
    case None
    with unsubscribed show ?thesis by (simp add: unsubscribe_def dropLocked_def)
  next
    case (Some f)
    have "cn_serving (hd_conns h k')" if "drop_from k f = Some f'" "k' \<in> set (fo_conns f')" for f' k'
      using unsubscribed Some drop_from_subset [OF that(1)] that(2) unfolding fanouts_ok_def by blast
    with unsubscribed Some drop_from_subset [of k f] show ?thesis
      by (simp add: unsubscribe_def dropLocked_def fanouts_ok_def)
  qed
next
  case (pumped h i ev) then show ?case unfolding pump_def by (rule fanouts_ok_write_all)
next
  case (streamed h meth i turn_id words) then show ?case unfolding delta_note_def by (rule fanouts_ok_write_all)
next
  case (pump_ended h i n g)
  have "fanouts_ok (h\<lparr>hd_fanouts := (hd_fanouts h)(i := None)\<rparr>)" using pump_ended by (simp add: fanouts_ok_def)
  with pump_ended show ?case
    by (simp add: pumpEnded_def Let_def fanouts_ok_drop_all split: option.split)
next
  case (replied h resp k)
  show ?case by (rule fanouts_ok_same [OF replied]) (simp_all add: write_to_serving)
next
  case (written h k ok)
  show ?case by (rule fanouts_ok_same [OF written]) (simp_all add: on_conn_serving writeLoop_serving)
next
  case (left h k)
  then show ?case
    using drop_from_subset unfolding fanouts_ok_def dropConn_def on_conn_def
    by (fastforce simp: Option.bind_eq_Some_conv)
qed (auto simp: ask_take_def ask_expire_def ask_mark_def ask_forget_def resolve_send_def request_updates fanouts_ok_def
       split: option.splits ask_phase.splits responder_phase.splits)

lemma reach_invariants: "api_reach h \<Longrightarrow> requests_ok h \<and> seen h \<and> fanouts_ok h"
proof (induction rule: api_reach.induct)
  case started
  show ?case using reach_requests_ok [OF api_reach.started]
    by (simp add: NewHandler_def seen_def fanouts_ok_def)
next
  case (stepped h h')
  with step_requests_ok step_seen step_fanouts_ok show ?case by blast
qed

section \<open>Sample runs\<close>

definition approval :: json where
  "approval = JObj [(''verdict'', JStr ''approve'')]"

definition sample_asked :: Handler where
  "sample_asked = ask ''r'' ''s'' ''rho.rpc.permission.request'' [] False (snd (subscribeAndCatchUp ''s'' Found 0 NewHandler))"

definition sample_reply :: "Handler \<Rightarrow> Handler" where
  "sample_reply h =
     the (resolve_send 7 (the (routeResponse 7 True
       (h\<lparr>hd_responders := (hd_responders h)(7 \<mapsto> \<lparr>re_conn = 0, re_id = ''r'', re_raw = Some approval, re_phase = Looked\<rparr>)\<rparr>))))"

definition sample_approved :: Handler where
  "sample_approved = the (ask_take ''r'' (sample_reply sample_asked))"

lemma sample_asked_sel:
  "hd_asks sample_asked = [''r'' \<mapsto> Asking]" "hd_pending sample_asked = [''r'']"
  "hd_responders sample_asked = Map.empty" "hd_resumed sample_asked = []"
  "hd_requests sample_asked ''r'' =
     Some \<lparr>pq_session = ''s'', pq_answer = None,
       pq_req = \<lparr>rq_id = ''r'', rq_method = ''rho.rpc.permission.request'', rq_params = ask_params ''s'' ''r'' []\<rparr>,
       pq_state = requestOpen\<rparr>"
  "hd_conns sample_asked 0 = newConn\<lparr>cn_out :=
     [MRequest \<lparr>rq_id = ''r'', rq_method = ''rho.rpc.permission.request'', rq_params = ask_params ''s'' ''r'' []\<rparr>]\<rparr>"
  "subscribers ''s'' sample_asked = [0]"
  by (simp_all add: sample_asked_def ask_def set_ask_def set_request_def subscribeAndCatchUp_def subscribe_def getSession_def
        NewHandler_def subscribers_def open_requests_def write_to_def on_conn_def conn_write_def newConn_def sendQueue_def
        trim_space_def trim_left_def trim_right_def space_seqs_def has_prefix_def Let_def)

lemma sample_asked_reach: "api_reach sample_asked"
proof -
  have "api_reach (snd (subscribeAndCatchUp ''s'' Found 0 NewHandler))"
    by (rule api_reach.stepped [OF api_reach.started api_step.subscribed]) (simp add: NewHandler_def newConn_def)
  moreover have "hd_asks (snd (subscribeAndCatchUp ''s'' Found 0 NewHandler)) ''r'' = None"
    using subscribeAndCatchUp_same [of NewHandler] by (simp add: same_requests_def NewHandler_def)
  ultimately show ?thesis unfolding sample_asked_def by (intro api_reach.stepped [OF _ api_step.asked])
qed

text \<open>A client answers a request that is open.\<close>

lemma sample_reply_steps:
  assumes "api_reach h" "hd_responders h 7 = None" "''r'' \<in> set (hd_pending h)"
    and "hd_requests h ''r'' = Some p" "pq_state p = requestOpen" "pq_answer p = None"
  shows "api_reach (sample_reply h) \<and>
    hd_responders (sample_reply h) = (hd_responders h)(7 \<mapsto> \<lparr>re_conn = 0, re_id = ''r'', re_raw = Some approval, re_phase = Answered\<rparr>) \<and>
    hd_requests (sample_reply h) = (hd_requests h)(''r'' \<mapsto> p\<lparr>pq_state := requestAnswered, pq_answer := Some (Some approval)\<rparr>) \<and>
    hd_asks (sample_reply h) = hd_asks h \<and> hd_conns (sample_reply h) = hd_conns h \<and> hd_resumed (sample_reply h) = hd_resumed h"
proof -
  let ?w = "\<lparr>re_conn = 0, re_id = ''r'', re_raw = Some approval, re_phase = Looked\<rparr>"
  define h1 where "h1 = h\<lparr>hd_responders := (hd_responders h)(7 \<mapsto> ?w)\<rparr>"
  have "route_lookup (Some (JStr ''r'')) h = Some ''r''" using assms(3) by (simp add: route_lookup_def)
  then have r1: "api_reach h1"
    unfolding h1_def by (rule api_reach.stepped [OF assms(1) api_step.heard [OF assms(2)]])
  obtain h2 where h2: "routeResponse 7 True h1 = Some h2"
    and s2: "h2 = set_phase 7 ?w Won (set_request ''r'' (p\<lparr>pq_state := requestAnswered\<rparr>) h1)"
    using assms(4,5) by (simp add: routeResponse_def h1_def resolve_def Let_def)
  have r2: "api_reach h2" by (rule api_reach.stepped [OF r1 api_step.resolved [OF h2]])
  obtain h3 where h3: "resolve_send 7 h2 = Some h3"
    and s3: "h3 = set_phase 7 (?w\<lparr>re_phase := Won\<rparr>) Answered
      (set_request ''r'' (p\<lparr>pq_state := requestAnswered, pq_answer := Some (Some approval)\<rparr>) h2)"
    using assms(6) by (simp add: resolve_send_def s2 set_phase_def set_request_def)
  have r3: "api_reach h3" by (rule api_reach.stepped [OF r2 api_step.sent [OF h3]])
  have "sample_reply h = h3" unfolding sample_reply_def h1_def [symmetric] h2 option.sel h3 ..
  with r3 show ?thesis by (simp add: s3 s2 h1_def set_phase_def set_request_def)
qed

lemma sample_approved_ok:
  "api_reach sample_approved \<and> hd_asks sample_approved ''r'' = Some (Returned (Inr (Some approval)))"
proof -
  have rep: "api_reach (sample_reply sample_asked)"
    "hd_asks (sample_reply sample_asked) = hd_asks sample_asked"
    "hd_requests (sample_reply sample_asked) = (hd_requests sample_asked)(''r'' \<mapsto>
       (the (hd_requests sample_asked ''r''))\<lparr>pq_state := requestAnswered, pq_answer := Some (Some approval)\<rparr>)"
    using sample_reply_steps [OF sample_asked_reach] by (simp_all add: sample_asked_sel)
  obtain h where h: "ask_take ''r'' (sample_reply sample_asked) = Some h"
    "hd_asks h ''r'' = Some (Returned (Inr (Some approval)))"
    by (simp add: ask_take_def rep sample_asked_sel set_ask_def)
  then have "api_reach h" by (intro api_reach.stepped [OF rep(1) api_step.taken])
  with h show ?thesis by (simp add: sample_approved_def)
qed

section \<open>What the theorems say\<close>

lemma first_answer_decides:
  assumes "api_reach h" "hd_asks h rid = Some (Returned (Inr r))"
  shows "\<exists>t w. hd_responders h t = Some w \<and> re_id w = rid \<and> re_raw w = r \<and> re_phase w = Answered \<and>
    (\<forall>t' w'. hd_responders h t' = Some w' \<longrightarrow> re_id w' = rid \<longrightarrow> t' \<noteq> t \<longrightarrow> re_phase w' \<in> {Looked, Refused})"
proof -
  have ok: "requests_ok h" using reach_requests_ok [OF assms(1)] .
  have "hd_requests h rid \<noteq> None"
    using requests_ok_None [OF ok, of rid] assms(2) by (auto simp: unasked_def failed_def)
  then obtain p where "hd_requests h rid = Some p" by blast
  then have "request_ok h rid p" by (rule requests_ok_Some [OF ok])
  then have "\<exists>t w. wins h rid t w \<and> re_phase w \<noteq> Won \<and> re_raw w = r"
    using assms(2) by (cases "pq_state p") (auto simp: request_ok_def waiting_def failed_def split: if_splits)
  then obtain t w where w: "wins h rid t w" "re_phase w \<noteq> Won" "re_raw w = r" by blast
  show ?thesis
    by (rule exI [of _ t], rule exI [of _ w]) (use w in \<open>auto simp: wins_def answers_def\<close>)
qed

lemma Permission_approves:
  "fst (Permission e res) \<Longrightarrow>
   \<exists>v reply. res = Inr (Some v) \<and> dec_struct permission_reply_fields \<lparr>pr_verdict = [], pr_why = []\<rparr> v = Some reply \<and>
     pr_verdict reply = ''approve''"
  by (auto simp: Permission_def bind_eq_Some_conv split: sum.splits option.splits if_splits)

text \<open>C24: A call that a gate wants asked is let through by the server's \<open>Permission\<close> only when the
  answer its request got was one client's \<open>approve\<close>; of the others that answered the same request
  none counted: each is still to be looked at or was told that the request is resolved.\<close>
theorem approved_by_client:
  assumes "api_reach h" "hd_asks h rid = Some (Returned res)"
    and "ask_refusal (Some (\<lambda>_ _ _. Permission e res)) call v = None"
  shows "\<exists>t w x reply. hd_responders h t = Some w \<and> re_id w = rid \<and> re_phase w = Answered \<and> re_raw w = Some x \<and>
    dec_struct permission_reply_fields \<lparr>pr_verdict = [], pr_why = []\<rparr> x = Some reply \<and> pr_verdict reply = ''approve'' \<and>
    (\<forall>t' w'. hd_responders h t' = Some w' \<longrightarrow> re_id w' = rid \<longrightarrow> t' \<noteq> t \<longrightarrow> re_phase w' \<in> {Looked, Refused})"
proof -
  have "fst (Permission e res)"
    using assms(3) by (cases "Permission e res") (auto simp: ask_refusal_def split: if_splits)
  then obtain x reply where x: "res = Inr (Some x)"
    "dec_struct permission_reply_fields \<lparr>pr_verdict = [], pr_why = []\<rparr> x = Some reply" "pr_verdict reply = ''approve''"
    using Permission_approves by blast
  from first_answer_decides [OF assms(1), of rid "Some x"] assms(2) x(1) obtain t w where
    w: "hd_responders h t = Some w" "re_id w = rid" "re_raw w = Some x" "re_phase w = Answered"
    "\<forall>t' w'. hd_responders h t' = Some w' \<longrightarrow> re_id w' = rid \<longrightarrow> t' \<noteq> t \<longrightarrow> re_phase w' \<in> {Looked, Refused}"
    by blast
  show ?thesis
    by (rule exI [of _ t], rule exI [of _ w], rule exI [of _ x], rule exI [of _ reply]) (use w x in simp)
qed

lemma approved_by_client_witness:
  "\<exists>t w. hd_responders sample_approved t = Some w \<and> re_phase w = Answered"
proof -
  have p: "Permission [] (Inr (Some approval)) = (True, [], True)"
    by (simp add: Permission_def approval_def dec_struct_def dec_obj_def permission_reply_fields_def dec_member_def
          field_for_def fld_def dec_str_def)
  have "ask_refusal (Some (\<lambda>_ _ _. Permission [] (Inr (Some approval)))) call v = None" for call v
    by (simp add: ask_refusal_def p)
  from approved_by_client [OF conjunct1 [OF sample_approved_ok] conjunct2 [OF sample_approved_ok] this]
  show ?thesis by blast
qed

text \<open>C25: Whoever is attached sees what is asked. As long as a request of a session is open and
  listed, every connection subscribed to the session is still served, and has the request on the
  wire or in its queue, unless it was told to quit; whether it subscribed before the request or after.\<close>
theorem attached_sees_request:
  assumes "api_reach h" "rid \<in> set (hd_pending h)" "hd_requests h rid = Some p" "isOpen p"
    and "k \<in> set (subscribers (pq_session p) h)"
  shows "cn_serving (hd_conns h k) \<and>
    (cn_quit (hd_conns h k) \<or> MRequest (pq_req p) \<in> set (cn_wire (hd_conns h k)) \<union> set (cn_out (hd_conns h k)))"
proof -
  have inv: "seen h" "fanouts_ok h" using reach_invariants [OF assms(1)] by simp_all
  have "got (MRequest (pq_req p)) (hd_conns h k)" using inv(1) assms(2-5) unfolding seen_def by blast
  moreover have "cn_serving (hd_conns h k)"
    using inv(2) assms(5) by (cases "hd_fanouts h (pq_session p)") (simp_all add: fanouts_ok_def subscribers_def)
  ultimately show ?thesis by (simp add: got_def)
qed

lemma attached_sees_request_witness: "cn_serving (hd_conns sample_asked 0)"
  using attached_sees_request [OF sample_asked_reach, of "''r''" _ 0]
  by (simp add: sample_asked_sel isOpen_def)

text \<open>C26: An answer can be lost. The timer of a call can fire before a client answers and be acted on
  after: the client's approval then counts as the first answer, so it is told nothing, but the call
  has returned that nobody answered, and the session is not resumed either.\<close>
theorem answer_lost:
  "\<exists>h t w. api_reach h \<and> hd_responders h t = Some w \<and> re_id w = ''r'' \<and> re_raw w = Some approval \<and> re_phase w = Answered \<and>
    hd_asks h ''r'' = Some (Returned (Inl ''no client answered rho.rpc.permission.request within 10m0s'')) \<and>
    hd_resumed h = [] \<and> (\<forall>resp. MResponse resp \<notin> set (cn_wire (hd_conns h (re_conn w)) @ cn_out (hd_conns h (re_conn w))))"
proof -
  let ?late = "''no client answered rho.rpc.permission.request within 10m0s''"
  obtain h1 where h1: "ask_expire ''r'' ''10m0s'' None sample_asked = Some h1" "h1 = set_ask ''r'' (Expired ?late) sample_asked"
    by (simp add: ask_expire_def sample_asked_sel)
  have r1: "api_reach h1" by (rule api_reach.stepped [OF sample_asked_reach api_step.expired [OF h1(1)]])
  obtain p where p: "hd_requests h1 ''r'' = Some p" "pq_state p = requestOpen" "pq_answer p = None"
    by (simp add: h1(2) set_ask_def sample_asked_sel)
  have s1: "hd_asks h1 ''r'' = Some (Expired ?late)" "hd_resumed h1 = []" "hd_conns h1 = hd_conns sample_asked"
    by (simp_all add: h1(2) set_ask_def sample_asked_sel)
  let ?h2 = "sample_reply h1"
  have h2: "api_reach ?h2"
    "hd_responders ?h2 7 = Some \<lparr>re_conn = 0, re_id = ''r'', re_raw = Some approval, re_phase = Answered\<rparr>"
    "hd_requests ?h2 ''r'' = Some (p\<lparr>pq_state := requestAnswered, pq_answer := Some (Some approval)\<rparr>)"
    "hd_asks ?h2 = hd_asks h1" "hd_conns ?h2 = hd_conns h1" "hd_resumed ?h2 = hd_resumed h1"
    using sample_reply_steps [OF r1 _ _ p] by (simp_all add: h1(2) set_ask_def sample_asked_sel)
  have a: "hd_asks ?h2 ''r'' = Some (Expired ?late)" by (simp add: h2(4) s1)
  define h3 where "h3 = set_ask ''r'' (Returned (Inl ?late))
    (set_request ''r'' (p\<lparr>pq_state := requestAnswered, pq_answer := Some (Some approval)\<rparr>) ?h2)"
  have h3: "ask_mark ''r'' ?h2 = Some h3" by (simp add: ask_mark_def a h2(3) markTimedOut_def h3_def)
  have "api_reach h3" by (rule api_reach.stepped [OF h2(1) api_step.marked [OF h3]])
  moreover have "hd_responders h3 7 = Some \<lparr>re_conn = 0, re_id = ''r'', re_raw = Some approval, re_phase = Answered\<rparr>"
    "hd_asks h3 ''r'' = Some (Returned (Inl ?late))" "hd_resumed h3 = []" "hd_conns h3 0 = hd_conns sample_asked 0"
    by (simp_all add: h3_def h2 set_ask_def set_request_def s1)
  ultimately show ?thesis
    by (intro exI [of _ h3] exI [of _ 7]) (simp add: sample_asked_sel newConn_def)
qed

text \<open>A message without an id is a notification, which gets no reply; one for a method that is not
  registered gets one, with a null id.\<close>

lemma unknown_notification_answered:
  "methods ''m'' = None \<Longrightarrow>
   dispatch methods (JObj [(''jsonrpc'', JStr ''2.0''), (''method'', JStr ''m'')]) s =
     (Some (errorResp JNull (-32601) ''m''), s)"
  by (simp add: dispatch_def decodeCall_def dec_struct_def dec_obj_def call_fields_def dec_member_def field_for_def
        fld_def dec_str_def)

lemma dispatch_answers_call:
  assumes "decodeCall v = Some c" "cm_id c \<noteq> JNull"
  shows "\<exists>resp s'. dispatch methods v s = (Some resp, s') \<and> rs_id resp = cm_id c"
  using assms
  by (auto simp: dispatch_def errorResp_def split: option.split prod.split sum.split)

end
