(* ===== verification/File_Tools.thy ===== *)
theory File_Tools
  imports Loop_Module Verify Float64
begin

text \<open>
  The built-in tools that read and change files (\<open>daemon/tools/files.go\<close>, \<open>nearest.go\<close>,
  \<open>roots.go\<close>, \<open>builtins.go\<close>). The file system is a tree (\<open>node\<close>); a path is absolute and
  cleaned, and names the node its components lead to. \<open>Locked\<close> is a regular file that the system refuses to open,
  \<open>Special\<close> what is neither a file nor a directory; symbolic links are not followed. A tool gives its
  output and its error as \<open>module.Tool\<close> does, and the tree it leaves.

  \<open>ToolEnv\<close> holds what comes from outside: the session's workspace, the configured roots, the cap on output,
  the library's texts for arguments it cannot decode, \<open>regexp.Compile\<close> for a pattern of the model's, and which
  characters beyond ASCII are letters or digits. A search that is cancelled is not modelled.
\<close>

section \<open>The file system\<close>

datatype node = File string | Locked | Special | Dir "(string \<times> node) list"

datatype errno = ENOENT | ENOTDIR | EISDIR | EACCES

fun errno_text :: "errno \<Rightarrow> string" where
  "errno_text ENOENT = ''no such file or directory''"
| "errno_text ENOTDIR = ''not a directory''"
| "errno_text EISDIR = ''is a directory''"
| "errno_text EACCES = ''permission denied''"

definition path_parts :: "string \<Rightarrow> string list" where
  "path_parts p = fields_func slash p"

fun at_path :: "node \<Rightarrow> string list \<Rightarrow> errno + node" where
  "at_path n [] = Inr n"
| "at_path (Dir es) (c # cs) = (case map_of es c of None \<Rightarrow> Inl ENOENT | Some n \<Rightarrow> at_path n cs)"
| "at_path _ (c # cs) = Inl ENOTDIR"

record os_error =
  oe_op :: string
  oe_path :: string
  oe_no :: errno

definition ReadFile :: "string \<Rightarrow> node \<Rightarrow> os_error + string" where
  "ReadFile p root =
     (case at_path root (path_parts p) of
        Inl e \<Rightarrow> Inl \<lparr>oe_op = ''open'', oe_path = p, oe_no = e\<rparr>
      | Inr (File t) \<Rightarrow> Inr t
      | Inr (Dir _) \<Rightarrow> Inl \<lparr>oe_op = ''read'', oe_path = p, oe_no = EISDIR\<rparr>
      | Inr _ \<Rightarrow> Inl \<lparr>oe_op = ''open'', oe_path = p, oe_no = EACCES\<rparr>)"

text \<open>\<open>os.WriteFile\<close>: the file is made or overwritten, its directory must be there.\<close>

fun put :: "node \<Rightarrow> string list \<Rightarrow> string \<Rightarrow> errno + node" where
  "put (Dir _) [] t = Inl EISDIR"
| "put (File _) [] t = Inr (File t)"
| "put _ [] t = Inl EACCES"
| "put (Dir es) (c # cs) t =
     (case map_of es c of
        None \<Rightarrow> if cs = [] then Inr (Dir (es @ [(c, File t)])) else Inl ENOENT
      | Some n \<Rightarrow> (case put n cs t of Inl e \<Rightarrow> Inl e | Inr n' \<Rightarrow> Inr (Dir (AList.update c n' es))))"
| "put _ (c # cs) t = Inl ENOTDIR"

definition WriteFile :: "string \<Rightarrow> string \<Rightarrow> node \<Rightarrow> os_error + node" where
  "WriteFile p t root =
     (case put root (path_parts p) t of
        Inl e \<Rightarrow> Inl \<lparr>oe_op = ''open'', oe_path = p, oe_no = e\<rparr>
      | Inr root' \<Rightarrow> Inr root')"

text \<open>\<open>os.MkdirAll\<close>: what is missing is made; an entry on the way that is no directory is the error's path.\<close>

fun mkdirs :: "string list \<Rightarrow> node \<Rightarrow> string list \<Rightarrow> string list + node" where
  "mkdirs done_parts (Dir es) [] = Inr (Dir es)"
| "mkdirs done_parts (Dir es) (c # cs) =
     (case map_of es c of
        None \<Rightarrow> (case mkdirs (done_parts @ [c]) (Dir []) cs of Inl e \<Rightarrow> Inl e | Inr n \<Rightarrow> Inr (Dir (es @ [(c, n)])))
      | Some n \<Rightarrow> (case mkdirs (done_parts @ [c]) n cs of Inl e \<Rightarrow> Inl e | Inr n' \<Rightarrow> Inr (Dir (AList.update c n' es))))"
| "mkdirs done_parts _ cs = Inl done_parts"

definition MkdirAll :: "string \<Rightarrow> node \<Rightarrow> os_error + node" where
  "MkdirAll p root =
     (case mkdirs [] root (path_parts p) of
        Inl cs \<Rightarrow> Inl \<lparr>oe_op = ''mkdir'', oe_path = ''/'' @ join ''/'' cs, oe_no = ENOTDIR\<rparr>
      | Inr root' \<Rightarrow> Inr root')"

text \<open>\<open>filepath.Rel\<close> of cleaned absolute paths.\<close>

fun strip_common :: "string list \<Rightarrow> string list \<Rightarrow> string list \<times> string list" where
  "strip_common (b # bs) (t # ts) = (if b = t then strip_common bs ts else (b # bs, t # ts))"
| "strip_common bs ts = (bs, ts)"

definition path_rel :: "string \<Rightarrow> string \<Rightarrow> string" where
  "path_rel base targ =
     (if path_clean base = path_clean targ then ''.''
      else case strip_common (clean_parts True base) (clean_parts True targ) of
        (bs, ts) \<Rightarrow> join ''/'' (replicate (length bs) ''..'' @ ts))"

section \<open>What the tools share\<close>

record ToolEnv =
  tv_workspace :: string
  tv_roots :: "(string \<times> string) list"
  tv_max :: int
  tv_bad_args :: "json \<Rightarrow> string"
  tv_compile :: "string \<Rightarrow> string + (string \<Rightarrow> bool)"
  tv_letter :: "string \<Rightarrow> bool"

record FileArgs =
  fa_path :: string
  fa_workspace :: string
  fa_offset :: int
  fa_limit :: int
  fa_content :: string
  fa_old :: string
  fa_new :: string
  fa_all :: bool
  fa_pattern :: string
  fa_glob :: string
  fa_nocase :: bool
  fa_most :: int

definition no_args :: FileArgs where
  "no_args =
     \<lparr>fa_path = [], fa_workspace = [], fa_offset = 0, fa_limit = 0, fa_content = [], fa_old = [], fa_new = [],
      fa_all = False, fa_pattern = [], fa_glob = [], fa_nocase = False, fa_most = 0\<rparr>"

definition tool_failure :: "string \<Rightarrow> string \<Rightarrow> ToolError" where
  "tool_failure kind msg = \<lparr>te_text = msg, te_class = Some (kind, None)\<rparr>"

definition plain_failure :: "string \<Rightarrow> ToolError" where
  "plain_failure msg = \<lparr>te_text = msg, te_class = None\<rparr>"

definition decode :: "ToolEnv \<Rightarrow> FileArgs fields \<Rightarrow> json option \<Rightarrow> ToolError + FileArgs" where
  "decode env fs raw =
     (case raw of
        None \<Rightarrow> Inr no_args
      | Some v \<Rightarrow>
          (case dec_struct fs no_args v of
             None \<Rightarrow> Inl (tool_failure ''invalid_args'' (''invalid arguments: '' @ tv_bad_args env v))
           | Some a \<Rightarrow> Inr a))"

definition osFail :: "os_error \<Rightarrow> ToolError" where
  "osFail e =
     tool_failure (if oe_no e = ENOENT then ''not_found'' else ''io'')
       (oe_op e @ '' '' @ oe_path e @ '': '' @ errno_text (oe_no e))"

definition tool_resolve :: "ToolEnv \<Rightarrow> string \<Rightarrow> ToolError + string" where
  "tool_resolve env p =
     (if p = [] then Inl (tool_failure ''invalid_args'' ''path is required'')
      else if has_prefix p ''/'' then Inr (path_clean p)
      else Inr (path_join (tv_workspace env) p))"

definition tool_rel :: "ToolEnv \<Rightarrow> string \<Rightarrow> string" where
  "tool_rel env p = path_rel (tv_workspace env) p"

definition maxOutput :: "ToolEnv \<Rightarrow> int" where
  "maxOutput env = (if tv_max env > 0 then tv_max env else 32768)"

text \<open>The argument \<open>max\<close> is \<open>maxOutput\<close>, which is positive.\<close>

definition truncate_out :: "string \<Rightarrow> int \<Rightarrow> string" where
  "truncate_out out most =
     (if int (length out) \<le> most then out
      else let first = most * 3 div 4; final = most - first in
        take (nat first) out @ newline # ''[... '' @ itoa (int (length out) - most) @ '' bytes truncated ...]'' @ [newline] @
        drop (length out - nat final) out)"

section \<open>Other workspaces\<close>

text \<open>\<open>abs\<close> stands for \<open>filepath.Abs\<close>. The entries of the configured map come in any order, here that of the list;
  a later name that trims to the same one replaces the earlier.\<close>

fun parse_roots :: "(string \<Rightarrow> string option) \<Rightarrow> (string \<times> string) list \<Rightarrow> (string \<times> string) list \<Rightarrow> (string \<times> string) list" where
  "parse_roots absolute out [] = out"
| "parse_roots absolute out ((name, path) # raw) =
     (if trim_space name = [] \<or> trim_space path = [] then parse_roots absolute out raw
      else (case absolute (trim_space path) of
              None \<Rightarrow> parse_roots absolute out raw
            | Some a \<Rightarrow> parse_roots absolute (AList.update (trim_space name) (path_clean a) out) raw))"

definition root_names :: "ToolEnv \<Rightarrow> string list" where
  "root_names env = sort (map fst (tv_roots env))"

definition within_root :: "string \<Rightarrow> string \<Rightarrow> bool" where
  "within_root root p =
     (let r = path_rel (path_clean root) (path_clean p) in r = ''.'' \<or> r \<noteq> ''..'' \<and> \<not> has_prefix r ''../'')"

definition resolveIn :: "ToolEnv \<Rightarrow> string \<Rightarrow> string \<Rightarrow> ToolError + string" where
  "resolveIn env name path =
     (case map_of (tv_roots env) name of
        None \<Rightarrow>
          Inl (plain_failure
            (if tv_roots env = [] then ''no other workspaces are configured, so '' @ fmt_q name @ '' cannot be read''
             else ''unknown workspace '' @ fmt_q name @ ''; configured: '' @ join '', '' (root_names env)))
      | Some root \<Rightarrow>
          let joined = (if path = [] then root else if has_prefix path ''/'' then path_clean path else path_join root path) in
          if within_root root joined then Inr joined
          else Inl (plain_failure (''path '' @ fmt_q path @ '' is outside workspace '' @ fmt_q name)))"

definition resolveMaybeElsewhere :: "ToolEnv \<Rightarrow> string \<Rightarrow> string \<Rightarrow> ToolError + string" where
  "resolveMaybeElsewhere env name path =
     (if name = [] then tool_resolve env path
      else if path = [] then Inl (plain_failure ''path is required'')
      else resolveIn env name path)"

text \<open>The directory to walk and the one that hits are named relative to.\<close>

definition searchRoot :: "ToolEnv \<Rightarrow> string \<Rightarrow> string \<Rightarrow> ToolError + string \<times> string" where
  "searchRoot env name path =
     (if name = [] then
        (if path = [] then Inr (tv_workspace env, tv_workspace env)
         else (case tool_resolve env path of Inl e \<Rightarrow> Inl e | Inr p \<Rightarrow> Inr (p, tv_workspace env)))
      else (case map_of (tv_roots env) name of
              None \<Rightarrow> (case resolveIn env name ''.'' of Inl e \<Rightarrow> Inl e | Inr p \<Rightarrow> Inl (plain_failure []))
            | Some root \<Rightarrow> (case resolveIn env name path of Inl e \<Rightarrow> Inl e | Inr p \<Rightarrow> Inr (p, root))))"

section \<open>Reading\<close>

type_synonym tool_end = "string \<times> ToolError option"

definition tool_ok :: "string \<Rightarrow> tool_end" where "tool_ok out = (out, None)"
definition tool_err :: "ToolError \<Rightarrow> tool_end" where "tool_err e = ([], Some e)"

definition path_field :: "string \<times> (FileArgs \<Rightarrow> json \<Rightarrow> FileArgs option)" where
  "path_field = (''path'', fld fa_path fa_path_update dec_str)"

definition read_fields :: "FileArgs fields" where
  "read_fields =
     [path_field, (''offset'', fld fa_offset fa_offset_update dec_int), (''limit'', fld fa_limit fa_limit_update dec_int),
      (''workspace'', fld fa_workspace fa_workspace_update dec_str)]"

text \<open>The lines of \<open>bufio.Scanner\<close>, with their carriage returns; one that does not fit its buffer of 8 MiB ends the scan.\<close>

definition scan_lines :: "string \<Rightarrow> string list" where
  "scan_lines t = (let ls = split_lines t in if last ls = [] then butlast ls else ls)"

definition too_long :: "string \<Rightarrow> bool" where
  "too_long l \<longleftrightarrow> 8388608 \<le> int (length l)"

definition numbered :: "int \<Rightarrow> string \<Rightarrow> string" where
  "numbered n l = itoa n @ [CHR 0x09] @ l @ [newline]"

fun read_loop :: "int \<Rightarrow> int \<Rightarrow> int \<Rightarrow> int \<Rightarrow> string \<Rightarrow> string list \<Rightarrow> (string \<times> int \<times> int) option" where
  "read_loop offset limit n shown out [] = Some (out, n, shown)"
| "read_loop offset limit n shown out (l # ls) =
     (if too_long l then None
      else if n + 1 < offset then read_loop offset limit (n + 1) shown out ls
      else if shown \<ge> limit
        then Some (out @ ''[... more lines; continue with offset '' @ itoa (n + 1) @ '' ...]'' @ [newline], n + 1, shown)
      else read_loop offset limit (n + 1) (shown + 1) (out @ numbered (n + 1) (trim_suffix l [CHR 0x0D])) ls)"

definition read_text :: "ToolEnv \<Rightarrow> FileArgs \<Rightarrow> string \<Rightarrow> tool_end" where
  "read_text env a t =
     (case read_loop (if fa_offset a < 1 then 1 else fa_offset a) (if fa_limit a < 1 then 2000 else fa_limit a) 0 0 [] (scan_lines t) of
        None \<Rightarrow> tool_err (tool_failure ''io'' ''bufio.Scanner: token too long'')
      | Some (out, n, shown) \<Rightarrow>
          if shown = 0 \<and> n = 0 then tool_ok ''(empty file)'' else tool_ok (truncate_out out (maxOutput env)))"

definition readTool :: "ToolEnv \<Rightarrow> json option \<Rightarrow> node \<Rightarrow> tool_end" where
  "readTool env raw root =
     (case decode env read_fields raw of
        Inl e \<Rightarrow> tool_err e
      | Inr a \<Rightarrow>
          (case resolveMaybeElsewhere env (fa_workspace a) (fa_path a) of
             Inl e \<Rightarrow> tool_err e
           | Inr p \<Rightarrow> (case ReadFile p root of Inl e \<Rightarrow> tool_err (osFail e) | Inr t \<Rightarrow> read_text env a t)))"

section \<open>Writing\<close>

definition write_fields :: "FileArgs fields" where
  "write_fields = [path_field, (''content'', fld fa_content fa_content_update dec_str)]"

definition writeTool :: "ToolEnv \<Rightarrow> json option \<Rightarrow> node \<Rightarrow> tool_end \<times> node" where
  "writeTool env raw root =
     (case decode env write_fields raw of
        Inl e \<Rightarrow> (tool_err e, root)
      | Inr a \<Rightarrow>
          (case tool_resolve env (fa_path a) of
             Inl e \<Rightarrow> (tool_err e, root)
           | Inr p \<Rightarrow>
               if ReadFile p root = Inr (fa_content a)
               then (tool_ok (''unchanged: '' @ tool_rel env p @ '' already has exactly this content ('' @
                       itoa (int (length (fa_content a))) @ '' bytes)''), root)
               else (case MkdirAll (path_dir p) root of
                       Inl e \<Rightarrow> (tool_err (osFail e), root)
                     | Inr root1 \<Rightarrow>
                         (case WriteFile p (fa_content a) root1 of
                            Inl e \<Rightarrow> (tool_err (osFail e), root1)
                          | Inr root2 \<Rightarrow>
                              (tool_ok (''wrote '' @ itoa (int (length (fa_content a))) @ '' bytes to '' @ tool_rel env p), root2)))))"

section \<open>Searching text\<close>

text \<open>\<open>strings.Index\<close>, \<open>strings.Count\<close> and \<open>strings.Replace\<close> of a text that is not empty.\<close>

fun text_index :: "string \<Rightarrow> string \<Rightarrow> nat option" where
  "text_index [] w = (if w = [] then Some 0 else None)"
| "text_index (c # s) w = (if has_prefix (c # s) w then Some 0 else map_option Suc (text_index s w))"

function text_count :: "string \<Rightarrow> string \<Rightarrow> nat" where
  "text_count s w =
     (case text_index s w of
        None \<Rightarrow> 0
      | Some i \<Rightarrow> if w = [] then 0 else Suc (text_count (drop (i + length w) s) w))"
  by pat_completeness auto

lemma text_index_Some: "text_index s w = Some i \<Longrightarrow> has_prefix (drop i s) w \<and> (\<forall>j < i. \<not> has_prefix (drop j s) w)"
proof (induction s arbitrary: i)
  case Nil
  then show ?case by (auto simp: has_prefix_def split: if_splits)
next
  case (Cons c s)
  show ?case
  proof (cases "has_prefix (c # s) w")
    case True
    with Cons.prems show ?thesis by simp
  next
    case False
    then obtain k where k: "text_index s w = Some k" "i = Suc k" using Cons.prems by auto
    have "\<not> has_prefix (drop j (c # s)) w" if "j < i" for j
      using that Cons.IH [OF k(1)] False k(2) by (cases j) auto
    with Cons.IH [OF k(1)] k(2) show ?thesis by simp
  qed
qed

lemma text_index_None: "text_index s w = None \<Longrightarrow> \<not> has_prefix (drop j s) w"
proof (induction s arbitrary: j)
  case Nil
  then show ?case by (auto simp: has_prefix_def split: if_splits)
next
  case (Cons c s)
  then show ?case by (cases j) (auto split: if_splits)
qed

lemma prefix_split: "has_prefix (drop i s) w \<Longrightarrow> w \<noteq> [] \<Longrightarrow> s = take i s @ w @ drop (i + length w) s \<and> i + length w \<le> length s"
proof -
  assume a: "has_prefix (drop i s) w" "w \<noteq> []"
  then obtain t where t: "drop i s = w @ t" by (auto simp: has_prefix_append)
  then have "drop (i + length w) s = t" by (metis append_eq_conv_conj drop_drop add.commute)
  moreover have "i < length s" using t a(2) by (metis append_is_Nil_conv drop_all not_le)
  ultimately show ?thesis using t by (metis append_take_drop_id add_le_cancel_left le_add1 length_append length_drop
        le_add_diff_inverse less_imp_le_nat)
qed

termination text_count
proof (relation "measure (length \<circ> fst)", simp)
  fix s w :: string and i
  assume a: "text_index s w = Some i" "w \<noteq> []"
  have "i + length w \<le> length s" using prefix_split [of i s w] text_index_Some [OF a(1)] a(2) by blast
  then show "((drop (i + length w) s, w), s, w) \<in> measure (length \<circ> fst)" using a(2) by (cases w) auto
qed

declare text_count.simps [simp del]

fun text_replace :: "string \<Rightarrow> string \<Rightarrow> string \<Rightarrow> nat \<Rightarrow> string" where
  "text_replace s w v 0 = s"
| "text_replace s w v (Suc n) =
     (case text_index s w of
        None \<Rightarrow> s
      | Some i \<Rightarrow> take i s @ v @ text_replace (drop (i + length w) s) w v n)"

section \<open>The nearest lines\<close>

text \<open>\<open>unicode.IsLetter\<close>, \<open>unicode.IsDigit\<close> and the underscore, on one character.\<close>

definition name_rune :: "ToolEnv \<Rightarrow> string \<Rightarrow> bool" where
  "name_rune env r = (case r of [c] \<Rightarrow> word_char c | _ \<Rightarrow> tv_letter env r)"

fun rune_words :: "(string \<Rightarrow> bool) \<Rightarrow> string \<Rightarrow> string list \<Rightarrow> string list" where
  "rune_words p w [] = (if w = [] then [] else [w])"
| "rune_words p w (r # rs) =
     (if p r then rune_words p (w @ r) rs
      else if w = [] then rune_words p [] rs else w # rune_words p [] rs)"

definition tokens :: "ToolEnv \<Rightarrow> string \<Rightarrow> string list" where
  "tokens env line = remdups (rune_words (name_rune env) [] (runes line))"

definition f_zero :: float64 where "f_zero = (0, 0)"
definition f_one :: float64 where "f_one = (1, 0)"
definition f_half :: float64 where "f_half = (1, -1)"

definition float_add :: "float64 \<Rightarrow> float64 \<Rightarrow> float64" where
  "float_add x y =
     (case (x, y) of ((m1, e1), (m2, e2)) \<Rightarrow>
        let e = min e1 e2 in
        (case round_ratio (m1 * 2 ^ nat (e1 - e) + m2 * 2 ^ nat (e2 - e)) 1 of (m, k) \<Rightarrow> (m, k + e)))"

definition float_lt :: "float64 \<Rightarrow> float64 \<Rightarrow> bool" where
  "float_lt x y \<longleftrightarrow> \<not> float_le y x"

definition float_eq :: "float64 \<Rightarrow> float64 \<Rightarrow> bool" where
  "float_eq x y \<longleftrightarrow> float_le x y \<and> float_le y x"

definition jaccard :: "string list \<Rightarrow> string list \<Rightarrow> float64" where
  "jaccard a b =
     (if a = [] \<and> b = [] then f_zero
      else let both = length (filter (\<lambda>k. k \<in> set b) a) in
        float_ratio (int both) (int (length a) + int (length b) - int both))"

definition line_score :: "ToolEnv \<Rightarrow> string \<Rightarrow> string \<Rightarrow> float64" where
  "line_score env l w =
     (if trim_space l = trim_space w then f_one else jaccard (tokens env l) (tokens env w))"

text \<open>The score of the window at \<open>s\<close>, and the first window with the best.\<close>

definition window_score :: "ToolEnv \<Rightarrow> string list \<Rightarrow> string list \<Rightarrow> nat \<Rightarrow> float64" where
  "window_score env ls want s =
     float_div (foldl float_add f_zero (map2 (line_score env) (take (length want) (drop s ls)) want))
       (float_int (int (length want)))"

definition better :: "ToolEnv \<Rightarrow> string list \<Rightarrow> string list \<Rightarrow> nat option \<times> float64 \<Rightarrow> nat \<Rightarrow> nat option \<times> float64" where
  "better env ls want best s =
     (let sc = window_score env ls want s in if float_lt (snd best) sc then (Some s, sc) else best)"

definition nearest :: "ToolEnv \<Rightarrow> string list \<Rightarrow> string list \<Rightarrow> nat option \<times> float64" where
  "nearest env ls want =
     (if want = [] \<or> length want > length ls then (None, f_zero)
      else foldl (better env ls want) (None, f_zero) [0..<Suc (length ls - length want)])"

definition nearestMaxFileLines :: nat where "nearestMaxFileLines = 20000"
definition nearestMaxShown :: nat where "nearestMaxShown = 40"

definition window_lines :: "string list \<Rightarrow> nat \<Rightarrow> nat \<Rightarrow> string" where
  "window_lines ls start n =
     concat (map (\<lambda>i. numbered (int i + 1) (rev (dropWhile (\<lambda>c. c = CHR 0x0D) (rev (ls ! i)))))
       [start..<start + min n nearestMaxShown])"

definition missedEdit :: "ToolEnv \<Rightarrow> string \<Rightarrow> string \<Rightarrow> string \<Rightarrow> string" where
  "missedEdit env t old new =
     (case (if new = [] then None else text_index t new) of
        Some i \<Rightarrow>
          ''the new text is already there at line '' @ itoa (int (text_count (take i t) [newline]) + 1) @
          '': this edit looks already applied''
      | None \<Rightarrow>
          let ls = split_lines t in
          if length ls > nearestMaxFileLines then []
          else let want = split_lines (trim_set [newline] old) in
            (case nearest env ls want of
               (Some start, score) \<Rightarrow>
                 if float_lt score f_half then ''no similar lines found; read the file before editing it again''
                 else let final = start + length want in
                   rev (dropWhile (\<lambda>c. c = newline) (rev
                     (''nearest match, lines '' @ itoa (int start + 1) @ ''-'' @ itoa (int final) @
                      (if float_eq score f_one then '' (differs only in whitespace or line endings)'' else []) @
                      '':'' @ [newline] @ window_lines ls start (length want) @
                      (if length want > nearestMaxShown
                       then ''[... '' @ itoa (int (length want - nearestMaxShown)) @ '' more lines ...]'' @ [newline] else []))))
             | (None, _) \<Rightarrow> ''no similar lines found; read the file before editing it again''))"

section \<open>Editing\<close>

definition edit_fields :: "FileArgs fields" where
  "edit_fields =
     [path_field, (''old'', fld fa_old fa_old_update dec_str), (''new'', fld fa_new fa_new_update dec_str),
      (''replace_all'', fld fa_all fa_all_update dec_bool)]"

definition edit_missed :: "ToolEnv \<Rightarrow> FileArgs \<Rightarrow> string \<Rightarrow> string \<Rightarrow> ToolError" where
  "edit_missed env a p t =
     (let hint = missedEdit env t (fa_old a) (fa_new a) in
      tool_failure ''not_found''
        (''old text not found in '' @ tool_rel env p @ (if hint = [] then [] else ''; '' @ hint)))"

definition edit_text :: "ToolEnv \<Rightarrow> FileArgs \<Rightarrow> string \<Rightarrow> string \<Rightarrow> node \<Rightarrow> tool_end \<times> node" where
  "edit_text env a p t root =
     (let n0 = text_count t (fa_old a); n = (if fa_all a then n0 else 1) in
      if n0 = 0 then (tool_err (edit_missed env a p t), root)
      else if n0 > 1 \<and> \<not> fa_all a
      then (tool_err (tool_failure ''invalid_args''
              (''old text occurs '' @ itoa (int n0) @ '' times in '' @ tool_rel env p @ ''; make it unique or set replace_all'')), root)
      else if fa_old a = fa_new a
      then (tool_ok (''unchanged: old and new are identical, so '' @ tool_rel env p @ '' was not modified''), root)
      else (case WriteFile p (text_replace t (fa_old a) (fa_new a) n) root of
              Inl e \<Rightarrow> (tool_err (osFail e), root)
            | Inr root' \<Rightarrow> (tool_ok (''replaced '' @ itoa (int n) @ '' occurrence(s) in '' @ tool_rel env p), root')))"

definition editTool :: "ToolEnv \<Rightarrow> json option \<Rightarrow> node \<Rightarrow> tool_end \<times> node" where
  "editTool env raw root =
     (case decode env edit_fields raw of
        Inl e \<Rightarrow> (tool_err e, root)
      | Inr a \<Rightarrow>
          if fa_old a = [] then (tool_err (tool_failure ''invalid_args'' ''old must not be empty''), root)
          else (case tool_resolve env (fa_path a) of
                  Inl e \<Rightarrow> (tool_err e, root)
                | Inr p \<Rightarrow>
                    (case ReadFile p root of
                       Inl e \<Rightarrow> (tool_err (osFail e), root)
                     | Inr t \<Rightarrow> edit_text env a p t root)))"

section \<open>Finding files and lines\<close>

text \<open>The regular files under a path, in the lexical order of \<open>filepath.WalkDir\<close>; directories that hold no
  sources are skipped.\<close>

definition entry_path :: "string \<Rightarrow> string \<Rightarrow> string" where
  "entry_path p name = (if p = ''/'' then p @ name else p @ ''/'' @ name)"

fun is_dir :: "node \<Rightarrow> bool" where
  "is_dir (Dir _) = True"
| "is_dir _ = False"

fun walk_files :: "string \<Rightarrow> node \<Rightarrow> (string \<times> node) list" where
  "walk_files p (Dir es) =
     concat (map snd (sort_key fst (map (\<lambda>(name, n).
       (name, if is_dir n \<and> NoiseDir name then [] else walk_files (entry_path p name) n)) es)))"
| "walk_files p Special = []"
| "walk_files p n = [(p, n)]"

definition walk_tree :: "string \<Rightarrow> node \<Rightarrow> (string \<times> node) list" where
  "walk_tree p root = (case at_path root (path_parts p) of Inl _ \<Rightarrow> [] | Inr n \<Rightarrow> walk_files p n)"

text \<open>The pattern of a glob, piece by piece: \<open>(?:.*/)?\<close>, \<open>.*\<close>, \<open>[^/]*\<close>, \<open>[^/]\<close>, or one quoted
  character. The loop goes over bytes and quotes each as the character of that number.\<close>

datatype glob_part = GDeep | GAny | GStar | GOne | GChar string

definition byte_rune :: "char \<Rightarrow> string" where
  "byte_rune c = (let n = byte_of c in if n < 128 then [c] else [char_of (192 + n div 64), char_of (128 + n mod 64)])"

fun globToRegexp :: "string \<Rightarrow> glob_part list" where
  "globToRegexp [] = []"
| "globToRegexp (c # g) =
     (if c = CHR ''*'' then
        (case g of
           d # e # g' \<Rightarrow>
             if d = CHR ''*'' then (if e = CHR ''/'' then GDeep # globToRegexp g' else GAny # globToRegexp (e # g'))
             else GStar # globToRegexp g
         | [d] \<Rightarrow> if d = CHR ''*'' then [GAny] else GStar # globToRegexp g
         | [] \<Rightarrow> [GStar])
      else if c = CHR ''?'' then GOne # globToRegexp g
      else GChar (byte_rune c) # globToRegexp g)"

text \<open>Whether the anchored pattern matches a list of characters.\<close>

fun part_weight :: "glob_part \<Rightarrow> nat" where
  "part_weight GDeep = 3"
| "part_weight _ = 1"

function glob_match :: "glob_part list \<Rightarrow> string list \<Rightarrow> bool" where
  "glob_match [] rs \<longleftrightarrow> rs = []"
| "glob_match (GChar u # ps) rs \<longleftrightarrow> (case rs of [] \<Rightarrow> False | r # rs' \<Rightarrow> r = u \<and> glob_match ps rs')"
| "glob_match (GOne # ps) rs \<longleftrightarrow> (case rs of [] \<Rightarrow> False | r # rs' \<Rightarrow> r \<noteq> ''/'' \<and> glob_match ps rs')"
| "glob_match (GStar # ps) rs \<longleftrightarrow>
     glob_match ps rs \<or> (case rs of [] \<Rightarrow> False | r # rs' \<Rightarrow> r \<noteq> ''/'' \<and> glob_match (GStar # ps) rs')"
| "glob_match (GAny # ps) rs \<longleftrightarrow>
     glob_match ps rs \<or> (case rs of [] \<Rightarrow> False | r # rs' \<Rightarrow> r \<noteq> [newline] \<and> glob_match (GAny # ps) rs')"
| "glob_match (GDeep # ps) rs \<longleftrightarrow> glob_match ps rs \<or> glob_match (GAny # GChar ''/'' # ps) rs"
  by pat_completeness auto
termination
  by (relation "measures [\<lambda>(ps, rs). length rs + sum_list (map part_weight ps)]") auto

definition globMatch :: "string \<Rightarrow> string \<Rightarrow> bool" where
  "globMatch glob name \<longleftrightarrow> glob_match (globToRegexp glob) (runes name)"

definition glob_fields :: "FileArgs fields" where
  "glob_fields =
     [(''pattern'', fld fa_pattern fa_pattern_update dec_str), path_field, (''workspace'', fld fa_workspace fa_workspace_update dec_str)]"

definition globTool :: "ToolEnv \<Rightarrow> json option \<Rightarrow> node \<Rightarrow> tool_end" where
  "globTool env raw root =
     (case decode env glob_fields raw of
        Inl e \<Rightarrow> tool_err e
      | Inr a \<Rightarrow>
          if fa_pattern a = [] then tool_err (tool_failure ''invalid_args'' ''pattern is required'')
          else (case searchRoot env (fa_workspace a) (fa_path a) of
                  Inl e \<Rightarrow> tool_err e
                | Inr (dir, base) \<Rightarrow>
                    let hits = sort (map (path_rel base)
                          (filter (\<lambda>p. globMatch (fa_pattern a) (path_rel dir p)) (map fst (walk_tree dir root))));
                        shown = (if length hits > 500
                          then take 500 hits @ [''[... '' @ itoa (int (length hits - 500)) @ '' more ...]''] else hits)
                    in if shown = [] then tool_ok ''no matches'' else tool_ok (join [newline] shown)))"

definition isBinary :: "string \<Rightarrow> bool" where
  "isBinary b \<longleftrightarrow> CHR 0x00 \<in> set (take 512 b)"

definition grep_fields :: "FileArgs fields" where
  "grep_fields =
     [(''pattern'', fld fa_pattern fa_pattern_update dec_str), path_field, (''glob'', fld fa_glob fa_glob_update dec_str),
      (''ignore_case'', fld fa_nocase fa_nocase_update dec_bool), (''max'', fld fa_most fa_most_update dec_int),
      (''workspace'', fld fa_workspace fa_workspace_update dec_str)]"

definition grep_lines :: "(string \<Rightarrow> bool) \<Rightarrow> string \<Rightarrow> string \<Rightarrow> string list" where
  "grep_lines re name t =
     map (\<lambda>(n, l). name @ '':'' @ itoa n @ '': '' @ rev (dropWhile (\<lambda>c. c = CHR 0x0D) (rev l)))
       (filter (\<lambda>(n, l). re l) (zip (map int [1..<Suc (length (split_lines t))]) (split_lines t)))"

fun grep_files :: "(string \<Rightarrow> bool) \<Rightarrow> (string \<Rightarrow> bool) \<Rightarrow> string \<Rightarrow> nat \<Rightarrow> string list \<Rightarrow> (string \<times> node) list \<Rightarrow> string list" where
  "grep_files wanted re base most out [] = out"
| "grep_files wanted re base most out ((p, n) # fs) =
     (case n of
        File t \<Rightarrow>
          if \<not> wanted p \<or> isBinary t then grep_files wanted re base most out fs
          else let out' = out @ grep_lines re (path_rel base p) t in
            if length out' \<ge> most then take most out' else grep_files wanted re base most out' fs
      | _ \<Rightarrow> grep_files wanted re base most out fs)"

definition grepTool :: "ToolEnv \<Rightarrow> json option \<Rightarrow> node \<Rightarrow> tool_end" where
  "grepTool env raw root =
     (case decode env grep_fields raw of
        Inl e \<Rightarrow> tool_err e
      | Inr a \<Rightarrow>
          if fa_pattern a = [] then tool_err (tool_failure ''invalid_args'' ''pattern is required'')
          else (case tv_compile env ((if fa_nocase a then ''(?i)'' else []) @ fa_pattern a) of
                  Inl e \<Rightarrow> tool_err (tool_failure ''invalid_args'' (''bad pattern: '' @ e))
                | Inr re \<Rightarrow>
                    (case searchRoot env (fa_workspace a) (fa_path a) of
                       Inl e \<Rightarrow> tool_err e
                     | Inr (dir, base) \<Rightarrow>
                         let most = (if fa_most a < 1 then 200 else fa_most a);
                             wanted = (\<lambda>p. fa_glob a = [] \<or> globMatch (fa_glob a) (last (path_parts p)) \<or>
                               globMatch (fa_glob a) (path_rel dir p));
                             hits = grep_files wanted re base (nat most) [] (walk_tree dir root)
                         in if hits = [] then tool_ok ''no matches''
                            else tool_ok (truncate_out (join [newline] hits) (maxOutput env)))))"

section \<open>What a file holds\<close>

text \<open>The file system as a client sees it: which paths are readable files, and what they hold.\<close>

definition reads :: "node \<Rightarrow> string list \<Rightarrow> string option" where
  "reads n cs = (case at_path n cs of Inr (File t) \<Rightarrow> Some t | _ \<Rightarrow> None)"

lemma reads_simps [simp]:
  "reads (File t) [] = Some t" "reads Locked [] = None" "reads Special [] = None" "reads (Dir es) [] = None"
  "reads (File t) (c # cs) = None" "reads Locked (c # cs) = None" "reads Special (c # cs) = None"
  "reads (Dir es) (c # cs) = (case map_of es c of None \<Rightarrow> None | Some n \<Rightarrow> reads n cs)"
  by (simp_all add: reads_def split: option.split)

lemma ReadFile_reads: "ReadFile p root = Inr t \<longleftrightarrow> reads root (path_parts p) = Some t"
  by (auto simp: ReadFile_def reads_def split: sum.splits node.splits)

lemma put_reads: "put n cs t = Inr n' \<Longrightarrow> reads n' ds = (if ds = cs then Some t else reads n ds)"
proof (induction n cs t arbitrary: n' ds rule: put.induct)
  case (2 old t)
  then show ?case by (cases ds) auto
next
  case (4 es c cs t)
  show ?case
  proof (cases "map_of es c")
    case None
    then have n': "cs = []" "n' = Dir (es @ [(c, File t)])" using "4.prems" by (auto split: if_splits)
    show ?thesis
    proof (cases ds)
      case (Cons d ds')
      then show ?thesis using None n' by (cases ds') (auto simp: map_add_def split: option.splits)
    qed (use n' in simp)
  next
    case (Some n)
    then obtain m where m: "put n cs t = Inr m" "n' = Dir (AList.update c m es)"
      using "4.prems" by (auto split: sum.splits)
    show ?thesis
    proof (cases ds)
      case (Cons d ds')
      have "reads m ds' = (if ds' = cs then Some t else reads n ds')" by (rule "4.IH" [OF Some m(1)])
      with Cons m(2) Some show ?thesis by (auto simp: update_conv')
    qed (use m in simp)
  qed
qed auto

lemma mkdirs_reads: "mkdirs pre n cs = Inr n' \<Longrightarrow> reads n' ds = reads n ds"
proof (induction pre n cs arbitrary: n' ds rule: mkdirs.induct)
  case (2 pre es c cs)
  show ?case
  proof (cases "map_of es c")
    case None
    then obtain m where m: "mkdirs (pre @ [c]) (Dir []) cs = Inr m" "n' = Dir (es @ [(c, m)])"
      using "2.prems" by (auto split: sum.splits)
    have e: "reads m ds' = None" for ds' using "2.IH"(1) [OF None m(1), of ds'] by (cases ds') simp_all
    show ?thesis using None m(2) e by (cases ds) (auto simp: map_add_def split: option.splits)
  next
    case (Some n)
    then obtain m where m: "mkdirs (pre @ [c]) n cs = Inr m" "n' = Dir (AList.update c m es)"
      using "2.prems" by (auto split: sum.splits)
    show ?thesis using Some m(2) "2.IH"(2) [OF Some m(1)] by (cases ds) (simp_all add: update_conv')
  qed
qed auto

section \<open>Counting and replacing\<close>

text \<open>\<open>strings.Split\<close> by a text that is not empty: what lies between its occurrences, from the left.\<close>

function text_pieces :: "string \<Rightarrow> string \<Rightarrow> string list" where
  "text_pieces s w =
     (case text_index s w of
        None \<Rightarrow> [s]
      | Some i \<Rightarrow> if w = [] then [s] else take i s # text_pieces (drop (i + length w) s) w)"
  by pat_completeness auto
termination
proof (relation "measure (length \<circ> fst)", simp)
  fix s w :: string and i
  assume a: "text_index s w = Some i" "w \<noteq> []"
  have "i + length w \<le> length s" using prefix_split [of i s w] text_index_Some [OF a(1)] a(2) by blast
  then show "((drop (i + length w) s, w), s, w) \<in> measure (length \<circ> fst)" using a(2) by (cases w) auto
qed

declare text_pieces.simps [simp del]

lemma text_index_take: "text_index s w = Some i \<Longrightarrow> w \<noteq> [] \<Longrightarrow> text_index (take i s) w = None"
proof (rule ccontr)
  assume a: "text_index s w = Some i" "w \<noteq> []" and "text_index (take i s) w \<noteq> None"
  then obtain j where j: "text_index (take i s) w = Some j" by blast
  then have p: "has_prefix (drop j (take i s)) w" using text_index_Some by blast
  then have "j < i" using a(2) by (cases "j < i") (auto simp: has_prefix_def drop_take)
  moreover have "has_prefix (drop j s) w"
    using p by (auto simp: has_prefix_def drop_take take_take min_def split: if_splits)
  ultimately show False using text_index_Some [OF a(1)] by blast
qed

lemma text_pieces_spec:
  assumes "w \<noteq> []"
  shows "s = join w (text_pieces s w) \<and> length (text_pieces s w) = Suc (text_count s w) \<and>
    (\<forall>q \<in> set (text_pieces s w). text_index q w = None) \<and>
    text_replace s w v (text_count s w) = join v (text_pieces s w) \<and> text_pieces s w \<noteq> []"
proof (induction "length s" arbitrary: s rule: less_induct)
  case less
  show ?case
  proof (cases "text_index s w")
    case None
    then show ?thesis by (simp add: text_pieces.simps [of s w] text_count.simps [of s w])
  next
    case (Some i)
    let ?t = "drop (i + length w) s"
    have s: "s = take i s @ w @ ?t" "i + length w \<le> length s"
      using prefix_split [of i s w] text_index_Some [OF Some] assms by blast+
    have "length ?t < length s" using s(2) assms by (cases w) auto
    from less [OF this] have IH: "?t = join w (text_pieces ?t w)" "length (text_pieces ?t w) = Suc (text_count ?t w)"
      "\<forall>q \<in> set (text_pieces ?t w). text_index q w = None"
      "text_replace ?t w v (text_count ?t w) = join v (text_pieces ?t w)" "text_pieces ?t w \<noteq> []" by blast+
    have p: "text_pieces s w = take i s # text_pieces ?t w" and c: "text_count s w = Suc (text_count ?t w)"
      using Some assms by (simp_all add: text_pieces.simps [of s w] text_count.simps [of s w])
    have "join w (text_pieces s w) = s" using s(1) IH(1,5) by (simp add: p join_Cons)
    moreover have "text_replace s w v (text_count s w) = join v (text_pieces s w)"
      using Some IH(4,5) by (simp add: p c join_Cons)
    ultimately show ?thesis using IH(2,3) text_index_take [OF Some assms] by (simp add: p c)
  qed
qed

section \<open>The tools that write\<close>

definition same_reads :: "string list \<Rightarrow> node \<Rightarrow> node \<Rightarrow> bool" where
  "same_reads cs root root' \<longleftrightarrow> (\<forall>ds. ds \<noteq> cs \<longrightarrow> reads root' ds = reads root ds)"

lemma WriteFile_reads: "WriteFile p t root = Inr root' \<Longrightarrow> reads root' (path_parts p) = Some t \<and> same_reads (path_parts p) root root'"
  by (auto simp: WriteFile_def same_reads_def put_reads split: sum.splits)

lemma MkdirAll_reads: "MkdirAll p root = Inr root' \<Longrightarrow> reads root' ds = reads root ds"
  by (auto simp: MkdirAll_def mkdirs_reads split: sum.splits)

text \<open>C28: What a successful \<open>edit\<close> did. The file it names was a sequence of pieces that do not hold the old text,
  joined by it: at least two, and exactly two unless \<open>replace_all\<close> is set. Now it is the same pieces joined by
  the new text, and every other file reads as before.\<close>
theorem edit_replaces:
  assumes "editTool env raw root = ((out, None), root')"
  shows "\<exists>a p pieces. decode env edit_fields raw = Inr a \<and> tool_resolve env (fa_path a) = Inr p \<and>
    ReadFile p root = Inr (join (fa_old a) pieces) \<and> (\<forall>q \<in> set pieces. text_index q (fa_old a) = None) \<and>
    2 \<le> length pieces \<and> (fa_all a \<or> length pieces = 2) \<and>
    ReadFile p root' = Inr (join (fa_new a) pieces) \<and> same_reads (path_parts p) root root'"
proof -
  obtain a p t where a: "decode env edit_fields raw = Inr a" "fa_old a \<noteq> []" "tool_resolve env (fa_path a) = Inr p"
    "ReadFile p root = Inr t" and e: "edit_text env a p t root = ((out, None), root')"
    using assms by (auto simp: editTool_def tool_err_def split: sum.splits if_splits)
  let ?n = "text_count t (fa_old a)" and ?ps = "text_pieces t (fa_old a)"
  note spec = text_pieces_spec [OF a(2), of t "fa_new a"]
  have n: "?n \<noteq> 0" "fa_all a \<or> ?n = 1"
    using e by (auto simp: edit_text_def tool_err_def Let_def split: if_splits)
  have "ReadFile p root' = Inr (join (fa_new a) ?ps) \<and> same_reads (path_parts p) root root'"
  proof (cases "fa_old a = fa_new a")
    case True
    then have "root' = root" using e n by (auto simp: edit_text_def tool_err_def tool_ok_def Let_def split: if_splits)
    with a(4) spec True show ?thesis by (simp add: same_reads_def)
  next
    case False
    then have "WriteFile p (text_replace t (fa_old a) (fa_new a) ?n) root = Inr root'"
      using e n by (auto simp: edit_text_def tool_err_def tool_ok_def Let_def split: if_splits sum.splits)
    from WriteFile_reads [OF this] spec show ?thesis by (simp add: ReadFile_reads)
  qed
  with a spec n show ?thesis
    by (intro exI [of _ a] exI [of _ p] exI [of _ ?ps]) auto
qed

lemma edit_failure_changes_nothing: "editTool env raw root = ((out, Some e), root') \<Longrightarrow> root' = root"
  by (auto simp: editTool_def edit_text_def tool_err_def tool_ok_def Let_def split: sum.splits if_splits)

text \<open>What \<open>write\<close> did: the file it names, and no other, reads differently, whether the call succeeds or
  not; and when it succeeds the file holds the content of the call.\<close>
theorem write_reads:
  assumes "writeTool env raw root = ((out, err), root')"
    and "decode env write_fields raw = Inr a" and "tool_resolve env (fa_path a) = Inr p"
  shows "same_reads (path_parts p) root root' \<and>
    (if err = None then ReadFile p root' = Inr (fa_content a) else reads root' (path_parts p) = reads root (path_parts p))"
proof (cases "ReadFile p root = Inr (fa_content a)")
  case True
  then show ?thesis using assms by (simp add: writeTool_def tool_ok_def same_reads_def)
next
  case False
  show ?thesis
  proof (cases "MkdirAll (path_dir p) root")
    case (Inl e)
    then show ?thesis using assms False by (auto simp: writeTool_def tool_err_def same_reads_def)
  next
    case (Inr root1)
    note m = MkdirAll_reads [OF Inr]
    show ?thesis
    proof (cases "WriteFile p (fa_content a) root1")
      case (Inl e)
      then have r: "root' = root1" "err \<noteq> None" using assms False Inr by (auto simp: writeTool_def tool_err_def)
      with m show ?thesis by (cases err) (simp_all add: same_reads_def)
    next
      case (Inr root2)
      then have "root' = root2" "err = None"
        using assms False \<open>MkdirAll (path_dir p) root = Inr root1\<close> by (auto simp: writeTool_def tool_ok_def)
      with WriteFile_reads [OF Inr] m show ?thesis by (simp add: same_reads_def ReadFile_reads)
    qed
  qed
qed

section \<open>Reading stays inside\<close>

lemma strip_common_prefix: "fst (strip_common bs ts) = [] \<longleftrightarrow> prefix bs ts"
  by (induction bs ts rule: strip_common.induct) auto

lemma strip_common_snd: "set (snd (strip_common bs ts)) \<subseteq> set ts"
  by (induction bs ts rule: strip_common.induct) auto

lemma join_dotdot: "bs \<noteq> [] \<Longrightarrow> join ''/'' (replicate (length bs) ''..'' @ ts) = ''..'' \<or>
   has_prefix (join ''/'' (replicate (length bs) ''..'' @ ts)) ''../''"
proof (cases bs)
  case (Cons b bs')
  then show ?thesis
    by (cases "replicate (length bs') ''..'' @ ts") (simp_all add: has_prefix_append join_Cons)
qed simp

text \<open>The containment test compares whole components.\<close>

lemma within_root_prefix:
  assumes "within_root root p" "has_prefix root ''/''" "has_prefix p ''/''"
  shows "prefix (clean_parts True root) (clean_parts True p)"
proof -
  have c: "clean_parts True (path_clean x) = clean_parts True x" if "has_prefix x ''/''" for x
    using that clean_again [of x] by (simp add: path_clean_def)
  have again: "path_clean (path_clean x) = path_clean x" if "has_prefix x ''/''" for x
  proof -
    have "has_prefix (path_clean x) ''/''" using that by (simp add: path_clean_def has_prefix_append)
    then show ?thesis using c [OF that] that by (simp add: path_clean_def [of "path_clean x"]) (simp add: path_clean_def)
  qed
  show ?thesis
  proof (cases "path_clean root = path_clean p")
    case True
    then show ?thesis using c [OF assms(2)] c [OF assms(3)] by simp
  next
    case False
    let ?s = "strip_common (clean_parts True root) (clean_parts True p)"
    have r: "path_rel (path_clean root) (path_clean p) = join ''/'' (replicate (length (fst ?s)) ''..'' @ snd ?s)"
      using False by (simp add: path_rel_def again assms(2,3) c split: prod.split)
    have "fst ?s = []"
    proof (rule ccontr)
      assume ne: "fst ?s \<noteq> []"
      let ?r = "path_rel (path_clean root) (path_clean p)"
      have "?r = ''..'' \<or> has_prefix ?r ''../''" unfolding r by (rule join_dotdot [OF ne])
      moreover have "?r = ''.'' \<or> ?r \<noteq> ''..'' \<and> \<not> has_prefix ?r ''../''" using assms(1) by (simp add: within_root_def Let_def)
      ultimately show False by (auto simp: has_prefix_def)
    qed
    then show ?thesis by (simp add: strip_common_prefix)
  qed
qed

lemma clean_parts_clean: "has_prefix x ''/'' \<Longrightarrow> path_parts (path_clean x) = clean_parts True x"
  using fields_join [OF clean_parts_plain [of x]] by (simp add: path_clean_def path_parts_def)

lemma parse_roots_clean:
  assumes "\<forall>q d. absolute q = Some d \<longrightarrow> has_prefix d ''/''"
    and "\<forall>(name, dir) \<in> set out. \<exists>x. has_prefix x ''/'' \<and> dir = path_clean x"
  shows "\<forall>(name, dir) \<in> set (parse_roots absolute out raw). \<exists>x. has_prefix x ''/'' \<and> dir = path_clean x"
  using assms
proof (induction absolute out raw rule: parse_roots.induct)
  case (2 absolute' out name path raw)
  note roots = "2.prems"(1) and entries = "2.prems"(2)
  show ?case
  proof (cases "trim_space name = [] \<or> trim_space path = []")
    case True
    then have e: "parse_roots absolute' out ((name, path) # raw) = parse_roots absolute' out raw" by auto
    show ?thesis unfolding e using "2.IH"(1) [OF True "2.prems"] .
  next
    case False
    show ?thesis
    proof (cases "absolute' (trim_space path)")
      case None
      have e: "parse_roots absolute' out ((name, path) # raw) = parse_roots absolute' out raw" using False None by simp
      show ?thesis unfolding e using "2.IH"(2) [OF False None "2.prems"] .
    next
      case (Some d)
      have "\<forall>(n, dir) \<in> set (AList.update (trim_space name) (path_clean d) out). \<exists>x. has_prefix x ''/'' \<and> dir = path_clean x"
      proof -
        have "set (AList.update (trim_space name) (path_clean d) out) \<subseteq> insert (trim_space name, path_clean d) (set out)"
          by (induction out) auto
        moreover have "has_prefix d ''/''" using Some roots by blast
        ultimately show ?thesis using entries by blast
      qed
      moreover have e: "parse_roots absolute' out ((name, path) # raw) =
          parse_roots absolute' (AList.update (trim_space name) (path_clean d) out) raw" using False Some by simp
      ultimately show ?thesis unfolding e using "2.IH"(3) [OF False Some roots] by blast
    qed
  qed
qed simp

text \<open>C27: A successful \<open>read\<close> that names a configured workspace shows a file below that workspace's directory: the
  components of the directory, then components that are neither empty nor dots, lead to it. So no spelling of the path
  leaves the directory. \<open>absolute\<close> is \<open>filepath.Abs\<close>, which gives rooted paths.\<close>
theorem read_contained:
  assumes "\<forall>q d. absolute q = Some d \<longrightarrow> has_prefix d ''/''" and "tv_roots env = parse_roots absolute [] cfg"
    and "readTool env raw root = (out, None)" and "decode env read_fields raw = Inr a" and "fa_workspace a \<noteq> []"
  shows "\<exists>dir cs t. map_of (tv_roots env) (fa_workspace a) = Some dir \<and> plain_parts cs \<and>
    reads root (path_parts dir @ cs) = Some t \<and> (out, None) = read_text env a t"
proof -
  obtain p t where p: "fa_path a \<noteq> []" "resolveIn env (fa_workspace a) (fa_path a) = Inr p" "ReadFile p root = Inr t"
    "read_text env a t = (out, None)"
    using assms(3-5) by (auto simp: readTool_def resolveMaybeElsewhere_def tool_err_def split: sum.splits if_splits)
  obtain dir where dir: "map_of (tv_roots env) (fa_workspace a) = Some dir"
    and w: "within_root dir p" and j: "p = (if has_prefix (fa_path a) ''/'' then path_clean (fa_path a) else path_join dir (fa_path a))"
    using p(1,2) by (auto simp: resolveIn_def Let_def split: option.splits if_splits)
  obtain x where x: "has_prefix x ''/''" "dir = path_clean x"
    using parse_roots_clean [OF assms(1), of "[]" cfg] map_of_SomeD [OF dir] assms(2) by fastforce
  have d: "has_prefix dir ''/''" using x by (simp add: path_clean_def has_prefix_append)
  obtain y where y: "has_prefix y ''/''" "p = path_clean y"
  proof (cases "has_prefix (fa_path a) ''/''")
    case True
    with that j show ?thesis by simp
  next
    case False
    have "has_prefix (dir @ ''/'' @ fa_path a) ''/''" using d by (auto simp: has_prefix_append)
    with that j False show ?thesis by (simp add: path_join_def)
  qed
  have py: "has_prefix p ''/''" "clean_parts True p = clean_parts True y"
    using y clean_again [of y] by (simp_all add: path_clean_def has_prefix_append)
  have pp: "path_parts p = clean_parts True y" unfolding y(2) by (rule clean_parts_clean [OF y(1)])
  have "prefix (clean_parts True dir) (clean_parts True p)" by (rule within_root_prefix [OF w d py(1)])
  moreover have "clean_parts True dir = path_parts dir"
    using clean_parts_clean [OF x(1)] clean_again [of x] x by (simp add: path_clean_def)
  ultimately obtain cs where cs: "path_parts p = path_parts dir @ cs" using py pp by (auto simp: prefix_def)
  have "plain_parts (path_parts dir @ cs)" using clean_parts_plain [of y] pp cs by simp
  then have "plain_parts cs" unfolding plain_parts_def by auto
  with dir p(3,4) cs show ?thesis by (auto simp: ReadFile_reads)
qed

section \<open>The nearest window\<close>

lemma float_lt_trans: "float_le x y \<Longrightarrow> float_lt y z \<Longrightarrow> float_lt x z"
  unfolding float_lt_def using float_le_trans by blast

lemma float_le_refl: "float_le x x"
  using float_le_total by blast

definition best_upto :: "(nat \<Rightarrow> float64) \<Rightarrow> nat \<Rightarrow> nat option \<times> float64 \<Rightarrow> bool" where
  "best_upto f n b \<longleftrightarrow> (\<forall>s < n. float_le (f s) (snd b)) \<and>
     (case fst b of None \<Rightarrow> snd b = f_zero
      | Some i \<Rightarrow> i < n \<and> snd b = f i \<and> float_lt f_zero (f i) \<and> (\<forall>s < i. float_lt (f s) (f i)))"

lemma best_upto_fold: "best_upto (window_score env ls want) n (foldl (better env ls want) (None, f_zero) [0..<n])"
proof (induction n)
  case 0
  show ?case by (simp add: best_upto_def)
next
  case (Suc n)
  let ?f = "window_score env ls want"
  obtain b sc where b: "foldl (better env ls want) (None, f_zero) [0..<n] = (b, sc)"
    by (cases "foldl (better env ls want) (None, f_zero) [0..<n]")
  have step: "foldl (better env ls want) (None, f_zero) [0..<Suc n] = (if float_lt sc (?f n) then (Some n, ?f n) else (b, sc))"
    by (simp add: b better_def Let_def)
  have le: "float_le (?f s) sc" if "s < n" for s using Suc that by (simp add: b best_upto_def)
  have zero: "float_le f_zero sc"
    using Suc float_le_total [of f_zero sc] float_le_refl by (auto simp: b best_upto_def float_lt_def split: option.splits)
  show ?case
  proof (cases "float_lt sc (?f n)")
    case True
    have l: "float_lt (?f s) (?f n)" if "s < n" for s by (rule float_lt_trans [OF le [OF that] True])
    have "float_le (?f s) (?f n)" if "s < Suc n" for s
      using that l [of s] float_le_total [of "?f s" "?f n"] float_le_refl by (cases "s = n") (auto simp: float_lt_def)
    with True l float_lt_trans [OF zero True] show ?thesis unfolding step by (simp add: best_upto_def)
  next
    case False
    then have "float_le (?f n) sc" by (simp add: float_lt_def)
    with False Suc show ?thesis unfolding step b by (auto simp: best_upto_def less_Suc_eq split: option.splits)
  qed
qed

text \<open>C29: The hint of a missed edit is the best place: the search gives the first window of as many lines as the
  text has whose score no other window exceeds, with its score; and no window exactly when none scores above zero
  or the text has more lines than the file.\<close>
theorem nearest_best:
  assumes "want \<noteq> []"
  shows "case nearest env ls want of
      (Some i, sc) \<Rightarrow> i + length want \<le> length ls \<and> sc = window_score env ls want i \<and> float_lt f_zero sc \<and>
        (\<forall>s. s + length want \<le> length ls \<longrightarrow> float_le (window_score env ls want s) sc) \<and>
        (\<forall>s < i. float_lt (window_score env ls want s) sc)
    | (None, sc) \<Rightarrow> sc = f_zero \<and> (\<forall>s. s + length want \<le> length ls \<longrightarrow> float_le (window_score env ls want s) f_zero)"
proof (cases "length want > length ls")
  case True
  then show ?thesis by (simp add: nearest_def)
next
  case False
  let ?n = "Suc (length ls - length want)"
  have n: "s < ?n \<longleftrightarrow> s + length want \<le> length ls" for s using False by auto
  obtain b sc where b: "nearest env ls want = (b, sc)" by (cases "nearest env ls want")
  have "best_upto (window_score env ls want) ?n (b, sc)"
    using best_upto_fold [of env ls want ?n] b assms False by (simp add: nearest_def del: upt_Suc)
  then show ?thesis by (cases b) (auto simp: b best_upto_def n)
qed

text \<open>Two lines with the same names score 1 whatever stands between them, so the hint can say that lines differ only
  in whitespace when they do not.\<close>

lemma tokens_alike: "trim_space l \<noteq> trim_space w \<Longrightarrow> tokens env l = tokens env w \<Longrightarrow> tokens env w \<noteq> [] \<Longrightarrow>
    line_score env l w = float_ratio (int (length (tokens env w))) (int (length (tokens env w)))"
  by (simp add: line_score_def jaccard_def Let_def)

lemma hint_wrong:
  "missedEdit env ''a - b'' ''a + b'' ''c'' =
     ''nearest match, lines 1-1 (differs only in whitespace or line endings):'' @ [newline] @ ''1'' @ [CHR 0x09] @ ''a - b''"
proof -
  have tok: "tokens env ''a - b'' = [''a'', ''b'']" "tokens env ''a + b'' = [''a'', ''b'']" by code_simp+
  have t: "trim_space ''a - b'' \<noteq> trim_space ''a + b''" by code_simp
  have one: "line_score env ''a - b'' ''a + b'' = float_ratio 2 2" using tokens_alike [OF t, of env] tok by simp
  define sc where "sc = float_div (float_add f_zero (float_ratio 2 2)) (float_int 1)"
  have sc: "float_lt f_zero sc" "\<not> float_lt sc f_half" "float_eq sc f_one" unfolding sc_def
    by (simp_all add: float_lt_def float_eq_def f_zero_def f_half_def f_one_def float_add_def float_eval)
  have w: "window_score env [''a - b''] [''a + b''] 0 = sc" using one by (simp add: window_score_def sc_def)
  have n: "nearest env [''a - b''] [''a + b''] = (Some 0, sc)" using w sc(1) by (simp add: nearest_def better_def Let_def)
  have i: "text_index ''a - b'' ''c'' = None" by (simp add: has_prefix_def)
  have l: "split_lines ''a - b'' = [''a - b'']" "split_lines (trim_set [newline] ''a + b'') = [''a + b'']"
    by (simp_all add: trim_set_def)
  have k: "itoa 1 = ''1''" by code_simp
  show ?thesis
    unfolding missedEdit_def i l
    by (simp add: n sc nearestMaxFileLines_def nearestMaxShown_def window_lines_def numbered_def k)
qed

text \<open>Occurrences are counted without overlap: a text that occurs twice, overlapping, is replaced as if it
  occurred once.\<close>

lemma edit_overlap: "text_count ''aaa'' ''aa'' = 1 \<and> text_replace ''aaa'' ''aa'' ''b'' 1 = ''ba'' \<and>
    has_prefix (drop 1 ''aaa'') ''aa''"
  by code_simp

section \<open>Globs\<close>

definition glob_plain :: "string \<Rightarrow> bool" where
  "glob_plain g \<longleftrightarrow> CHR ''*'' \<notin> set g \<and> CHR ''?'' \<notin> set g"

lemma glob_plain_parts: "glob_plain g \<Longrightarrow> globToRegexp g = map (\<lambda>c. GChar (byte_rune c)) g"
proof (induction g)
  case (Cons c g)
  then have "c \<noteq> CHR ''*''" "c \<noteq> CHR ''?''" "glob_plain g" by (auto simp: glob_plain_def)
  then have "globToRegexp (c # g) = GChar (byte_rune c) # globToRegexp g"
    unfolding globToRegexp.simps(2) [of c g] by (simp only: if_False)
  with Cons.IH \<open>glob_plain g\<close> show ?case by (simp del: globToRegexp.simps)
qed simp

lemma glob_match_chars: "glob_match (map GChar us) rs \<longleftrightarrow> rs = us"
  by (induction us arbitrary: rs) (auto split: list.split)

text \<open>A pattern without wildcards matches the name of which the characters are the pattern's bytes.\<close>

lemma globMatch_plain: "glob_plain g \<Longrightarrow> globMatch g name \<longleftrightarrow> runes name = map byte_rune g"
  using glob_match_chars [of "map byte_rune g" "runes name"] by (simp add: globMatch_def glob_plain_parts comp_def)

lemma runes_ascii: "\<forall>c \<in> set s. byte_of c < 128 \<Longrightarrow> runes s = map (\<lambda>c. [c]) s"
proof (induction s)
  case (Cons c s)
  then show ?case by (simp add: runes.simps [of "c # s"])
qed (simp add: runes.simps [of "[]"])

lemma length_runes: "length (runes s) \<le> length s"
proof (induction s rule: runes.induct)
  case (1 s)
  show ?case
  proof (cases "s = []")
    case True
    then show ?thesis by (simp add: runes.simps [of "[]"])
  next
    case False
    show ?thesis
    proof (cases "utf8_width s = 0")
      case True
      then have "runes s = [CHR 0xEF, CHR 0xBF, CHR 0xBD] # runes (tl s)" using False by (simp add: runes.simps [of s])
      with "1.IH"(1) [OF False refl True] False show ?thesis by (cases s) simp_all
    next
      case w: False
      then have e: "runes s = take (utf8_width s) s # runes (drop (utf8_width s) s)" using False by (simp add: runes.simps [of s] Let_def)
      have "0 < length s" "0 < utf8_width s" using False w by simp_all
      then show ?thesis unfolding e using "1.IH"(2) [OF False refl w] unfolding list.size length_drop by linarith
    qed
  qed
qed

lemma length_byte_rune: "length (byte_rune c) = (if byte_of c < 128 then 1 else 2)"
  by (simp add: byte_rune_def Let_def)

lemma width_one: "utf8_width (c # s) = 1 \<longleftrightarrow> byte_of c < 128"
  by (auto split: list.split)

lemma runes_bytes: "runes s = map byte_rune s \<Longrightarrow> c \<in> set s \<Longrightarrow> byte_of c < 128"
proof (induction s)
  case (Cons a s)
  let ?w = "utf8_width (a # s)"
  consider "?w = 0" | "?w = 1" | "2 \<le> ?w" by linarith
  then show ?case
  proof cases
    case 1
    with Cons.prems(1) have "length (byte_rune a) = 3" by (simp add: runes.simps [of "a # s"]) (metis length_Cons list.size(3) numeral_3_eq_3)
    then show ?thesis by (simp add: length_byte_rune split: if_splits)
  next
    case 2
    then have "runes (a # s) = [a] # runes s" by (simp add: runes.simps [of "a # s"] del: utf8_width.simps)
    with Cons 2 show ?thesis using width_one [of a s] by auto
  next
    case 3
    then have "runes (a # s) = take ?w (a # s) # runes (drop ?w (a # s))" by (simp add: runes.simps [of "a # s"] Let_def del: utf8_width.simps)
    then have "length (runes (drop ?w (a # s))) = length s" using Cons.prems(1) by (metis length_map list.inject list.simps(9))
    moreover have "length (runes (drop ?w (a # s))) \<le> Suc (length s) - ?w" using length_runes [of "drop ?w (a # s)"] by simp
    ultimately have "length s = 0" using 3 by linarith
    with 3 show ?thesis by (auto split: if_splits)
  qed
qed simp

text \<open>A glob without wildcards matches its own name exactly when the name is ASCII: the loop quotes a byte
  as a character, so a name with any other letter is never found by it.\<close>
theorem glob_own_name:
  assumes "glob_plain g"
  shows "globMatch g g \<longleftrightarrow> (\<forall>c \<in> set g. byte_of c < 128)"
proof
  assume "globMatch g g"
  then have "runes g = map byte_rune g" using globMatch_plain [OF assms] by simp
  then show "\<forall>c \<in> set g. byte_of c < 128" using runes_bytes by blast
next
  assume a: "\<forall>c \<in> set g. byte_of c < 128"
  then have "map byte_rune g = map (\<lambda>c. [c]) g" by (simp add: byte_rune_def)
  then show "globMatch g g" using globMatch_plain [OF assms] runes_ascii [OF a] by simp
qed

lemma glob_own_name_witness: "\<not> globMatch [CHR 0xC3, CHR 0xA9] [CHR 0xC3, CHR 0xA9]"
  using glob_own_name [of "[CHR 0xC3, CHR 0xA9]"] by (simp add: glob_plain_def)

section \<open>Samples\<close>

definition sample_tree :: node where
  "sample_tree = Dir [(''work'', Dir [(''a.txt'', File ''one two'')]), (''lib'', Dir [(''b.txt'', File ''b'')])]"

definition sample_tools :: ToolEnv where
  "sample_tools =
     \<lparr>tv_workspace = ''/work'', tv_roots = parse_roots (\<lambda>p. Some (''/'' @ p)) [] [(''lib'', ''lib'')], tv_max = 0,
      tv_bad_args = (\<lambda>_. []), tv_compile = (\<lambda>_. Inl []), tv_letter = (\<lambda>_. False)\<rparr>"

lemma edit_replaces_witness:
  "\<exists>root'. same_reads (path_parts ''/work/a.txt'') sample_tree root' \<and> reads root' [''work'', ''a.txt''] = Some ''six two''"
proof -
  let ?a = "no_args\<lparr>fa_path := ''a.txt'', fa_old := ''one'', fa_new := ''six''\<rparr>"
  let ?raw = "Some (JObj [(''path'', JStr ''a.txt''), (''old'', JStr ''one''), (''new'', JStr ''six'')])"
  have d: "decode sample_tools edit_fields ?raw = Inr ?a"
    by (simp add: decode_def dec_struct_def dec_obj_def edit_fields_def path_field_def dec_member_def field_for_def fld_def
          dec_str_def no_args_def)
  have r: "tool_resolve sample_tools ''a.txt'' = Inr ''/work/a.txt''" by code_simp
  have f: "ReadFile ''/work/a.txt'' sample_tree = Inr ''one two''" by code_simp
  have c: "text_count ''one two'' ''one'' = 1" "text_replace ''one two'' ''one'' ''six'' 1 = ''six two''" by code_simp+
  define root' where "root' = Dir [(''work'', Dir [(''a.txt'', File ''six two'')]), (''lib'', Dir [(''b.txt'', File ''b'')])]"
  have w: "WriteFile ''/work/a.txt'' ''six two'' sample_tree = Inr root'" unfolding root'_def by code_simp
  have "\<exists>out. editTool sample_tools ?raw sample_tree = ((out, None), root')"
    using d r f c w by (simp add: editTool_def edit_text_def Let_def tool_ok_def no_args_def)
  then obtain out where e: "editTool sample_tools ?raw sample_tree = ((out, None), root')" by blast
  from edit_replaces [OF e] d r have "same_reads (path_parts ''/work/a.txt'') sample_tree root'" by (auto simp: no_args_def)
  moreover have "path_parts ''/work/a.txt'' = [''work'', ''a.txt'']" by code_simp
  ultimately show ?thesis using WriteFile_reads [OF w] by auto
qed

lemma write_reads_witness:
  "\<exists>root'. ReadFile ''/work/new/c.txt'' root' = Inr ''c'' \<and> reads root' [''work'', ''a.txt''] = Some ''one two''"
proof -
  let ?a = "no_args\<lparr>fa_path := ''new/c.txt'', fa_content := ''c''\<rparr>"
  let ?raw = "Some (JObj [(''path'', JStr ''new/c.txt''), (''content'', JStr ''c'')])"
  have d: "decode sample_tools write_fields ?raw = Inr ?a"
    by (simp add: decode_def dec_struct_def dec_obj_def write_fields_def path_field_def dec_member_def field_for_def fld_def
          dec_str_def no_args_def)
  have r: "tool_resolve sample_tools (fa_path ?a) = Inr ''/work/new/c.txt''" unfolding no_args_def by code_simp
  have f: "ReadFile ''/work/new/c.txt'' sample_tree \<noteq> Inr ''c''" by code_simp
  define root1 where "root1 = Dir [(''work'', Dir [(''a.txt'', File ''one two''), (''new'', Dir [])]), (''lib'', Dir [(''b.txt'', File ''b'')])]"
  define root' where "root' = Dir [(''work'', Dir [(''a.txt'', File ''one two''), (''new'', Dir [(''c.txt'', File ''c'')])]),
    (''lib'', Dir [(''b.txt'', File ''b'')])]"
  have m: "MkdirAll (path_dir ''/work/new/c.txt'') sample_tree = Inr root1" unfolding root1_def by code_simp
  have w: "WriteFile ''/work/new/c.txt'' ''c'' root1 = Inr root'" unfolding root1_def root'_def by code_simp
  have "\<exists>out. writeTool sample_tools ?raw sample_tree = ((out, None), root')"
    using d r f m w by (simp add: writeTool_def tool_ok_def no_args_def)
  then obtain out where e: "writeTool sample_tools ?raw sample_tree = ((out, None), root')" by blast
  have "reads sample_tree [''work'', ''a.txt''] = Some ''one two''" by code_simp
  moreover have "path_parts ''/work/new/c.txt'' \<noteq> [''work'', ''a.txt'']" by code_simp
  ultimately show ?thesis using write_reads [OF e d r] by (auto simp: same_reads_def no_args_def)
qed

lemma read_contained_witness:
  "\<exists>cs. plain_parts cs \<and> reads sample_tree ([''lib''] @ cs) \<noteq> None"
proof -
  let ?raw = "Some (JObj [(''path'', JStr ''x/../b.txt''), (''workspace'', JStr ''lib'')])"
  let ?a = "no_args\<lparr>fa_path := ''x/../b.txt'', fa_workspace := ''lib''\<rparr>"
  have d: "decode sample_tools read_fields ?raw = Inr ?a"
    by (simp add: decode_def dec_struct_def dec_obj_def read_fields_def path_field_def dec_member_def field_for_def fld_def
          dec_str_def no_args_def)
  have roots: "tv_roots sample_tools = parse_roots (\<lambda>p. Some (''/'' @ p)) [] [(''lib'', ''lib'')]"
    by (simp add: sample_tools_def)
  have lib: "tv_roots sample_tools = [(''lib'', ''/lib'')]" unfolding sample_tools_def by code_simp
  have r: "resolveMaybeElsewhere sample_tools ''lib'' ''x/../b.txt'' = Inr ''/lib/b.txt''" by code_simp
  have f: "ReadFile ''/lib/b.txt'' sample_tree = Inr ''b''" by code_simp
  have k: "itoa 1 = ''1''" by code_simp
  have x: "read_text sample_tools ?a ''b'' = (numbered 1 ''b'', None)"
    using k by (simp add: read_text_def sample_tools_def maxOutput_def truncate_out_def scan_lines_def too_long_def no_args_def
          tool_ok_def numbered_def trim_suffix_def has_suffix_def has_prefix_def)
  have e: "readTool sample_tools ?raw sample_tree = (numbered 1 ''b'', None)"
    using d r f x by (simp add: readTool_def no_args_def)
  have lib': "path_parts ''/lib'' = [''lib'']" by code_simp
  show ?thesis
    using read_contained [OF _ roots e d] lib lib' by (auto simp: no_args_def has_prefix_def)
qed

lemma nearest_best_witness: "float_le (window_score sample_tools [''a'', ''b''] [''b''] 0) (snd (nearest sample_tools [''a'', ''b''] [''b'']))"
  using nearest_best [where want = "[''b'']" and env = sample_tools and ls = "[''a'', ''b'']"]
  by (cases "nearest sample_tools [''a'', ''b''] [''b'']"; cases "fst (nearest sample_tools [''a'', ''b''] [''b''])") auto

end
